(* ===== verification/Prelude.thy ===== *)
theory Prelude
  imports Main "HOL-Library.Word" "HOL-Library.While_Combinator"
begin

text \<open>
  What all components share: the machine integers of the code (\<open>uint8_t\<close> \<dots> \<open>uint64_t\<close> as
  words of their width), the values that stand for C++ exceptions, the
  state-and-exception functions the hardware access code is written in, and the
  generic lemmas on sequence numbers modulo a size, list slots and bit fields.
\<close>

unbundle bit_operations_syntax

type_synonym u8 = "8 word"
type_synonym u16 = "16 word"
type_synonym u32 = "32 word"
type_synonym u64 = "64 word"

named_theorems hal_simps
named_theorems field_simps

subsection \<open>Exceptions and state\<close>

text \<open>The exceptions the code throws, and the two ways it stops without one:
  a failed \<open>assert\<close>, and an access outside an array, which C++ leaves undefined.\<close>

datatype hal_error =
    Range_error
  | Runtime_error
  | Out_of_range
  | Invalid_argument
  | Logic_error
  | Assertion_failed
  | Undefined_behaviour
  | Underflow_error

text \<open>A member function works on the state of its object (and the hardware behind it)
  and returns a value or throws; the effects before a throw stay.\<close>

type_synonym ('s, 'a) hal = "'s \<Rightarrow> (hal_error + 'a) \<times> 's"

definition hret :: "'a \<Rightarrow> ('s, 'a) hal" where
  "hret x = (\<lambda>s. (Inr x, s))"

definition hthrow :: "hal_error \<Rightarrow> ('s, 'a) hal" where
  "hthrow e = (\<lambda>s. (Inl e, s))"

definition hbind :: "('s, 'a) hal \<Rightarrow> ('a \<Rightarrow> ('s, 'b) hal) \<Rightarrow> ('s, 'b) hal" where
  "hbind m k = (\<lambda>s. case m s of (Inl e, s') \<Rightarrow> (Inl e, s') | (Inr x, s') \<Rightarrow> k x s')"

definition hseq :: "('s, 'a) hal \<Rightarrow> ('s, 'b) hal \<Rightarrow> ('s, 'b) hal" where
  "hseq m n = hbind m (\<lambda>_. n)"

definition hget :: "('s \<Rightarrow> 'a) \<Rightarrow> ('s, 'a) hal" where
  "hget f = (\<lambda>s. (Inr (f s), s))"

definition hmodify :: "('s \<Rightarrow> 's) \<Rightarrow> ('s, unit) hal" where
  "hmodify f = (\<lambda>s. (Inr (), f s))"

definition hwhen :: "bool \<Rightarrow> ('s, unit) hal \<Rightarrow> ('s, unit) hal" where
  "hwhen b m = (if b then m else hret ())"

text \<open>A call whose result is dropped.\<close>

definition hvoid :: "('s, 'a) hal \<Rightarrow> ('s, unit) hal" where
  "hvoid m = hbind m (\<lambda>_. hret ())"

primrec hfor :: "'a list \<Rightarrow> ('a \<Rightarrow> ('s, unit) hal) \<Rightarrow> ('s, unit) hal" where
  "hfor [] f = hret ()"
| "hfor (x # xs) f = hseq (f x) (hfor xs f)"

primrec hmap :: "'a list \<Rightarrow> ('a \<Rightarrow> ('s, 'b) hal) \<Rightarrow> ('s, 'b list) hal" where
  "hmap [] f = hret []"
| "hmap (x # xs) f = hbind (f x) (\<lambda>y. hbind (hmap xs f) (\<lambda>ys. hret (y # ys)))"

lemma hret_app [simp, hal_simps]: "hret x s = (Inr x, s)"
  by (simp add: hret_def)

lemma hthrow_app [simp, hal_simps]: "hthrow e s = (Inl e, s)"
  by (simp add: hthrow_def)

lemma hget_app [simp, hal_simps]: "hget f s = (Inr (f s), s)"
  by (simp add: hget_def)

lemma hmodify_app [simp, hal_simps]: "hmodify f s = (Inr (), f s)"
  by (simp add: hmodify_def)

lemma hbind_Inr: "m s = (Inr x, s') \<Longrightarrow> hbind m k s = k x s'"
  by (simp add: hbind_def)

lemma hbind_Inl: "m s = (Inl e, s') \<Longrightarrow> hbind m k s = (Inl e, s')"
  by (simp add: hbind_def)

lemma hseq_Inr: "m s = (Inr x, s') \<Longrightarrow> hseq m n s = n s'"
  by (simp add: hseq_def hbind_def)

lemma hseq_Inl: "m s = (Inl e, s') \<Longrightarrow> hseq m n s = (Inl e, s')"
  by (simp add: hseq_def hbind_def)

lemma hbind_cases:
  assumes "hbind m k s = (r, s'')"
  obtains (throws) e where "m s = (Inl e, s'')" and "r = Inl e"
  | (returns) x s' where "m s = (Inr x, s')" and "k x s' = (r, s'')"
proof (cases "m s")
  case (Pair v t)
  then show ?thesis
    using assms by (cases v) (auto simp: hbind_def intro: throws returns)
qed

lemma hbind_assoc: "hbind (hbind m k) l = hbind m (\<lambda>x. hbind (k x) l)"
  by (rule ext) (simp add: hbind_def split: prod.splits sum.splits)

lemma hbind_hret [simp]: "hbind (hret x) k = k x"
  by (rule ext) (simp add: hbind_def)

lemma hbind_hthrow [simp]: "hbind (hthrow e) k = hthrow e"
  by (rule ext) (simp add: hbind_def)

lemma hwhen_simps [simp]: "hwhen True m = m" "hwhen False m = hret ()"
  by (simp_all add: hwhen_def)

lemma hseq_simps [simp]: "hseq (hret x) n = n" "hseq (hthrow e) n = hthrow e"
  by (simp_all add: hseq_def)

text \<open>A state predicate that every step of a loop keeps is kept by the loop.\<close>

lemma hfor_invariant:
  assumes "P s" and "\<And>x s. x \<in> set xs \<Longrightarrow> P s \<Longrightarrow> P (snd (f x s))"
  shows "P (snd (hfor xs f s))"
  using assms
proof (induction xs arbitrary: s)
  case (Cons x xs)
  show ?case
  proof (cases "f x s")
    case (Pair r s')
    have "P s'"
      using Cons.prems(1) Cons.prems(2) [of x s] Pair by simp
    then have "P (snd (hfor xs f s'))"
      by (rule Cons.IH) (use Cons.prems(2) in auto)
    then show ?thesis
      using Pair \<open>P s'\<close> by (cases r) (simp_all add: hseq_def hbind_def)
  qed
qed simp

text \<open>A loop whose every step returns under a condition the step keeps, returns.\<close>

lemma hfor_total:
  assumes "P s" and "\<And>x s. x \<in> set xs \<Longrightarrow> P s \<Longrightarrow> \<exists>t. f x s = (Inr (), t) \<and> P t"
  shows "\<exists>t. hfor xs f s = (Inr (), t) \<and> P t"
  using assms
proof (induction xs arbitrary: s)
  case (Cons x xs)
  obtain t where t: "f x s = (Inr (), t)" "P t" using Cons.prems(2) [of x s] Cons.prems(1) by auto
  have "\<exists>t'. hfor xs f t = (Inr (), t') \<and> P t'"
    by (rule Cons.IH [OF t(2)]) (use Cons.prems(2) in auto)
  then show ?case using t(1) by (simp add: hseq_Inr)
qed simp

text \<open>A loop whose every step succeeds is a fold of the steps' state changes.\<close>

lemma hfor_fold:
  assumes "\<And>x s. x \<in> set xs \<Longrightarrow> f x s = (Inr (), g x s)"
  shows "hfor xs f s = (Inr (), fold g xs s)"
  using assms by (induction xs arbitrary: s) (simp_all add: hseq_Inr)

text \<open>A state predicate is kept by a function when it holds afterwards, returned or thrown.\<close>

definition keeps :: "('s \<Rightarrow> bool) \<Rightarrow> ('s, 'a) hal \<Rightarrow> bool" where
  "keeps P m \<longleftrightarrow> (\<forall>s. P s \<longrightarrow> P (snd (m s)))"

named_theorems keeps_intros

lemma keeps_hret [keeps_intros]: "keeps P (hret x)"
  by (simp add: keeps_def)

lemma keeps_hthrow [keeps_intros]: "keeps P (hthrow e)"
  by (simp add: keeps_def)

lemma keeps_hget [keeps_intros]: "keeps P (hget f)"
  by (simp add: keeps_def)

lemma keeps_hbind [keeps_intros]: "keeps P m \<Longrightarrow> (\<And>x. keeps P (k x)) \<Longrightarrow> keeps P (hbind m k)"
  unfolding keeps_def hbind_def by (auto split: prod.splits sum.splits)

lemma keeps_hseq [keeps_intros]: "keeps P m \<Longrightarrow> keeps P n \<Longrightarrow> keeps P (hseq m n)"
  unfolding hseq_def by (rule keeps_hbind)

lemma keeps_hwhen [keeps_intros]: "keeps P m \<Longrightarrow> keeps P (hwhen b m)"
  by (simp add: hwhen_def keeps_def)

lemma keeps_hvoid [keeps_intros]: "keeps P m \<Longrightarrow> keeps P (hvoid m)"
  unfolding hvoid_def by (intro keeps_hbind keeps_hret)

lemma keeps_if [keeps_intros]: "(b \<Longrightarrow> keeps P m) \<Longrightarrow> (\<not> b \<Longrightarrow> keeps P n) \<Longrightarrow> keeps P (if b then m else n)"
  by simp

lemma keeps_hfor [keeps_intros]: "(\<And>x. keeps P (f x)) \<Longrightarrow> keeps P (hfor xs f)"
  by (induction xs) (auto intro: keeps_intros)

lemma keeps_loop: "(\<And>x. x \<in> set xs \<Longrightarrow> keeps P (f x)) \<Longrightarrow> keeps P (hfor xs f)"
  by (induction xs) (auto intro: keeps_intros)

lemma keepsD: "keeps P m \<Longrightarrow> P s \<Longrightarrow> P (snd (m s))"
  by (simp add: keeps_def)

text \<open>The same for functions that must return: \<open>P\<close> holds when they do, nothing is said when they
  throw half way.\<close>

definition settles :: "('s \<Rightarrow> bool) \<Rightarrow> ('s, 'a) hal \<Rightarrow> bool" where
  "settles P m \<longleftrightarrow> (\<forall>s r t. P s \<longrightarrow> m s = (Inr r, t) \<longrightarrow> P t)"

named_theorems settles_intros

lemma keeps_settles: "keeps P m \<Longrightarrow> settles P m"
  unfolding keeps_def settles_def by (metis snd_conv)

lemma settles_hret [settles_intros]: "settles P (hret x)"
  by (rule keeps_settles) (rule keeps_hret)

lemma settles_hbind [settles_intros]:
  "settles P m \<Longrightarrow> (\<And>x. settles P (k x)) \<Longrightarrow> settles P (hbind m k)"
  unfolding settles_def by (metis hbind_cases sum.distinct(1))

lemma settles_hseq [settles_intros]: "settles P m \<Longrightarrow> settles P n \<Longrightarrow> settles P (hseq m n)"
  unfolding hseq_def by (rule settles_hbind)

lemma settles_if [settles_intros]:
  "(b \<Longrightarrow> settles P m) \<Longrightarrow> (\<not> b \<Longrightarrow> settles P n) \<Longrightarrow> settles P (if b then m else n)"
  by simp

lemma settles_hfor [settles_intros]: "(\<And>x. settles P (f x)) \<Longrightarrow> settles P (hfor xs f)"
  by (induction xs) (simp_all add: settles_hret settles_hseq)

lemma settlesD: "settles P m \<Longrightarrow> P s \<Longrightarrow> m s = (Inr r, t) \<Longrightarrow> P t"
  by (simp add: settles_def)

subsection \<open>Sequence numbers modulo a size\<close>

lemma mod_diff_ge:
  fixes a b S :: nat
  assumes "0 < S" and "b \<le> a" and "a < b + S"
  shows "(S + a mod S - b mod S) mod S = a - b"
proof -
  have le: "b mod S \<le> S + a mod S"
    using assms(1) by (simp add: less_imp_le_nat trans_le_add1)
  have "int ((S + a mod S - b mod S) mod S) = (int a - int b) mod int S"
  proof -
    have "int ((S + a mod S - b mod S) mod S) = (int S + (int a mod int S - int b mod int S)) mod int S"
      using le by (simp add: zmod_int of_nat_diff algebra_simps)
    then show ?thesis
      by (simp only: mod_add_self1 mod_diff_eq)
  qed
  also have "\<dots> = int (a - b)"
    using assms by (simp add: of_nat_diff)
  finally show ?thesis
    by (simp only: of_nat_eq_iff)
qed

subsection \<open>Bits of words\<close>

lemma small_of_nat: "i < 2 ^ 32 \<Longrightarrow> j < 2 ^ 32 \<Longrightarrow> (of_nat i :: u32) = of_nat j \<Longrightarrow> i = j"
proof -
  assume "i < 2 ^ 32" "j < 2 ^ 32" "(of_nat i :: u32) = of_nat j"
  then have "unat (of_nat i :: u32) = unat (of_nat j :: u32)" by simp
  then show "i = j"
    using \<open>i < 2 ^ 32\<close> \<open>j < 2 ^ 32\<close> by (simp add: unsigned_of_nat take_bit_nat_eq_self)
qed

lemma and_pow: "(d AND push_bit k 1 \<noteq> 0) = bit (d :: u32) k"
  by (simp only: bit_iff_and_push_bit_not_eq_0)

lemma bit_0xff: "bit (0xff :: u32) k \<longleftrightarrow> k < 8"
proof -
  have "(0xff :: u32) = mask 8" by (simp add: mask_eq_exp_minus_1)
  then have "bit (0xff :: u32) k \<longleftrightarrow> k < 32 \<and> k < 8" by (simp only: bit_mask_iff) simp
  then show ?thesis by auto
qed

lemma bit_pow: "bit (2 ^ k :: u32) n \<longleftrightarrow> n < 32 \<and> k = n"
  by (auto simp: bit_exp_iff)

lemma byte_mask: "rd < 256 \<Longrightarrow> rd AND 0xff = (rd :: u32)"
proof -
  assume "rd < 256"
  then have "take_bit 8 rd = rd"
    by (simp add: word_unat_eq_iff unsigned_take_bit_eq take_bit_nat_eq_self word_less_nat_alt)
  then show ?thesis by (simp add: take_bit_eq_mask mask_eq_exp_minus_1)
qed

text \<open>A bit field of a word: \<open>w\<close> bits from bit \<open>lo\<close>, as C++ lays out the members of a struct of
  unsigned bit fields, first member lowest.\<close>

definition bf_get :: "nat \<Rightarrow> nat \<Rightarrow> u32 \<Rightarrow> u32" where
  "bf_get lo w d = take_bit w (drop_bit lo d)"

definition bf_put :: "nat \<Rightarrow> nat \<Rightarrow> u32 \<Rightarrow> u32 \<Rightarrow> u32" where
  "bf_put lo w x d = (d AND NOT (push_bit lo (mask w))) OR push_bit lo (take_bit w x)"

lemma bit_bf_get: "bit (bf_get lo w d) n \<longleftrightarrow> n < w \<and> bit d (lo + n)"
  by (auto simp: bf_get_def bit_take_bit_iff bit_drop_bit_eq)

lemma bit_bf_put: "bit (bf_put lo w x d) n \<longleftrightarrow>
    (if lo \<le> n \<and> n < lo + w then n < 32 \<and> bit x (n - lo) else bit d n)"
  by (auto simp: bf_put_def bit_or_iff bit_and_iff bit_not_iff bit_push_bit_iff bit_mask_iff bit_take_bit_iff
      dest: bit_imp_le_length)

lemma bf_get_put: "lo + w \<le> 32 \<Longrightarrow> bf_get lo w (bf_put lo w x d) = take_bit w x"
  by (rule bit_eqI) (auto simp: bit_bf_get bit_bf_put bit_take_bit_iff)

lemma bf_get_put_other: "lo + w \<le> lo' \<or> lo' + w' \<le> lo \<Longrightarrow> bf_get lo w (bf_put lo' w' x d) = bf_get lo w d"
  by (rule bit_eqI) (auto simp: bit_bf_get bit_bf_put)

end
