(* ===== verification/Timer.thy ===== *)
theory Timer
  imports Prelude
begin

text \<open>
  The software timer of the ARQ (\<open>timer.h\<close>, \<open>timer.cpp\<close>): a countdown driven by
  \<open>Tick()\<close>, with the flag \<open>timeout\<close> that stays up until it is acknowledged. The
  counters are the code's \<open>int\<close>; the model leaves out the name and the debug level.
\<close>

record timer =
  enabled :: bool
  tvalue :: int
  timeout :: bool
  tmax :: int

text \<open>The constructor leaves \<open>value\<close> uninitialised: \<open>garbage\<close> is what the memory held.\<close>

definition Timer_new :: "int \<Rightarrow> int \<Rightarrow> timer" where
  "Timer_new garbage m = \<lparr>enabled = False, tvalue = garbage, timeout = False, tmax = m\<rparr>"

definition SetTimeoutVal :: "int \<Rightarrow> timer \<Rightarrow> timer" where
  "SetTimeoutVal t tm =
     (if tvalue tm > t then tm\<lparr>tvalue := t\<rparr> else tm)\<lparr>tmax := t\<rparr>"

definition Start :: "timer \<Rightarrow> timer" where
  "Start tm = tm\<lparr>tvalue := tmax tm, enabled := True\<rparr>"

definition Continue :: "timer \<Rightarrow> timer" where
  "Continue tm = (if \<not> enabled tm then Start tm else tm)"

definition Stop :: "timer \<Rightarrow> timer" where
  "Stop tm = tm\<lparr>timeout := False, enabled := False\<rparr>"

definition SetTimeout :: "timer \<Rightarrow> timer" where
  "SetTimeout tm = tm\<lparr>timeout := True\<rparr>"

definition Ack :: "timer \<Rightarrow> timer" where
  "Ack tm = tm\<lparr>timeout := False\<rparr>"

definition Tick :: "timer \<Rightarrow> timer" where
  "Tick tm =
     (if enabled tm then
        if tvalue tm = 0 then SetTimeout (Stop tm) else tm\<lparr>tvalue := tvalue tm - 1\<rparr>
      else tm)"

text \<open>A timer is active when it is counting or has expired without being acknowledged.\<close>

definition active :: "timer \<Rightarrow> bool" where
  "active tm \<longleftrightarrow> enabled tm \<or> timeout tm"

lemma active_Start [simp]: "active (Start tm)"
  by (simp add: active_def Start_def)

lemma active_Continue [simp]: "active (Continue tm)"
  by (simp add: active_def Continue_def Start_def)

lemma active_Stop [simp]: "\<not> active (Stop tm)"
  by (simp add: active_def Stop_def)

lemma active_SetTimeoutVal [simp]: "active (SetTimeoutVal t tm) = active tm"
  by (simp add: active_def SetTimeoutVal_def)

text \<open>Ticking never starts an idle timer and never loses a running one.\<close>

lemma active_Tick [simp]: "active (Tick tm) = active tm"
  by (auto simp: active_def Tick_def Stop_def SetTimeout_def)

lemma enabled_simps [simp]:
  "enabled (Start tm)" "enabled (Continue tm)" "\<not> enabled (Stop tm)"
  "enabled (Ack tm) = enabled tm" "\<not> timeout (Stop tm)" "\<not> timeout (Ack tm)"
  "timeout (Start tm) = timeout tm" "timeout (Continue tm) = timeout tm"
  by (simp_all add: Start_def Continue_def Stop_def Ack_def)

lemma Tick_counts:
  assumes "enabled tm" and "int n \<le> tvalue tm"
  shows "(Tick ^^ n) tm = tm\<lparr>tvalue := tvalue tm - int n\<rparr>"
  using assms(2)
proof (induction n)
  case (Suc n)
  then have "(Tick ^^ Suc n) tm = Tick (tm\<lparr>tvalue := tvalue tm - int n\<rparr>)"
    by simp
  also have "\<dots> = tm\<lparr>tvalue := tvalue tm - int (Suc n)\<rparr>"
    using assms(1) Suc.prems by (simp add: Tick_def)
  finally show ?case .
qed simp

lemma Tick_stopped: "\<not> enabled tm \<Longrightarrow> (Tick ^^ n) tm = tm"
  by (induction n) (simp_all add: Tick_def)

text \<open>a started timer raises its timeout at the tick after its \<open>max\<close> ticks, and not
  before: after n ticks the timeout flag is up exactly when it was already up before, or when n
  exceeds the timeout value.\<close>

theorem timer_expiry:
  assumes "0 \<le> tmax tm"
  shows "timeout ((Tick ^^ n) (Start tm)) \<longleftrightarrow> timeout tm \<or> tmax tm < int n"
proof (cases "int n \<le> tmax tm")
  case True
  then have "(Tick ^^ n) (Start tm) = (Start tm)\<lparr>tvalue := tmax tm - int n\<rparr>"
    using Tick_counts [of "Start tm" n] by (simp add: Start_def)
  then show ?thesis
    using True by (simp add: Start_def)
next
  case False
  define k where "k = nat (tmax tm)"
  have k: "int k = tmax tm"
    using assms by (simp add: k_def)
  then obtain m where n: "n = m + Suc k"
    using False by (metis less_natE nat_less_iff not_le of_nat_less_iff add.commute add_Suc_right)
  have "(Tick ^^ Suc k) (Start tm) = Tick ((Start tm)\<lparr>tvalue := 0\<rparr>)"
    using Tick_counts [of "Start tm" k] k by (simp add: Start_def)
  also have "\<dots> = SetTimeout (Stop ((Start tm)\<lparr>tvalue := 0\<rparr>))"
    by (simp add: Tick_def)
  finally have "(Tick ^^ n) (Start tm) = (Tick ^^ m) (SetTimeout (Stop ((Start tm)\<lparr>tvalue := 0\<rparr>)))"
    unfolding n funpow_add by simp
  also have "\<dots> = SetTimeout (Stop ((Start tm)\<lparr>tvalue := 0\<rparr>))"
    by (rule Tick_stopped) (simp add: SetTimeout_def Stop_def)
  finally show ?thesis
    using False by (simp add: SetTimeout_def)
qed

theorem timer_expiry_witness:
  "\<not> timeout ((Tick ^^ 2) (Start (Timer_new 77 2))) \<and> timeout ((Tick ^^ 3) (Start (Timer_new 77 2)))"
  using timer_expiry [of "Timer_new 77 2" 2] timer_expiry [of "Timer_new 77 2" 3]
  by (simp add: Timer_new_def)

end
