(* ===== verification/Arq.thy ===== *)
theory Arq
  imports Timer
begin

text \<open>
  The software ARQ (\<open>arq.h\<close>): one endpoint of the sliding-window protocol between the host
  and a chip. Sequence numbers count modulo \<open>SEQ_S\<close>, both windows have \<open>WND_S\<close> slots; all
  position arithmetic is the code's 32-bit unsigned arithmetic. The operations are those of
  the class, in its order; the payload type is the class's template parameter.
\<close>

subsection \<open>Packets and state\<close>

record 'p packet =
  ptag :: u32
  seqvalid :: bool
  pseq :: u32
  pack :: u32
  pdata :: 'p

record 'p arq =
  tagid :: u32
  SEQ_S :: u32
  WND_S :: u32
  sendbuf :: "'p list"
  seqpos :: u32
  wndpos :: u32
  sendpos :: u32
  SendTimer :: timer
  recbuf :: "'p list"
  recvalids :: "bool list"
  recwndpos :: u32
  recackpos :: u32
  RecvTimer :: timer
  tx_timeout_num :: u32
  rx_timeout_num :: u32
  rx_pck_num :: u32
  tx_pck_num :: u32
  rx_drop_num :: u32

text \<open>\<open>buf[pos % WND_S]\<close>, the slot a position lives in.\<close>

definition slot :: "'p arq \<Rightarrow> u32 \<Rightarrow> nat" where
  "slot a pos = unat (pos mod WND_S a)"

definition send_valids :: "'p arq \<Rightarrow> u32" where
  "send_valids a = (SEQ_S a + seqpos a - wndpos a) mod SEQ_S a"

subsection \<open>Construction and reset\<close>

definition Reset :: "'p arq \<Rightarrow> 'p arq" where
  "Reset a = a\<lparr>
     SendTimer := Stop (SendTimer a),
     RecvTimer := Stop (RecvTimer a),
     seqpos := 0, wndpos := 0, sendpos := 0, recwndpos := 0,
     recackpos := SEQ_S a - 1,
     recvalids := replicate (unat (WND_S a)) False\<rparr>"

text \<open>The constructor leaves the counters and the timers' \<open>value\<close> uninitialised; they are
  taken from the record \<open>mem\<close> of what the memory held. The vectors are value-initialised:
  \<open>d\<close> is the default payload.\<close>

definition ARQ_new :: "'p arq \<Rightarrow> 'p \<Rightarrow> u32 \<Rightarrow> u32 \<Rightarrow> u32 \<Rightarrow> u32 \<Rightarrow> u32 \<Rightarrow> 'p arq" where
  "ARQ_new mem d t seq_s wnd_s send_timeout recv_timeout = Reset (mem\<lparr>
     tagid := t, SEQ_S := seq_s, WND_S := wnd_s,
     sendbuf := replicate (unat wnd_s) d,
     SendTimer := Timer_new (tvalue (SendTimer mem)) (sint send_timeout),
     recbuf := replicate (unat wnd_s) d,
     recvalids := replicate (unat wnd_s) False,
     RecvTimer := Timer_new (tvalue (RecvTimer mem)) (sint recv_timeout)\<rparr>)"

definition ClearStats :: "'p arq \<Rightarrow> 'p arq" where
  "ClearStats a = a\<lparr>tx_timeout_num := 0, rx_timeout_num := 0, rx_pck_num := 0,
     tx_pck_num := 0, rx_drop_num := 0\<rparr>"

definition SetTimeouts :: "int \<Rightarrow> int \<Rightarrow> 'p arq \<Rightarrow> 'p arq" where
  "SetTimeouts tx rx a = a\<lparr>SendTimer := SetTimeoutVal tx (SendTimer a),
     RecvTimer := SetTimeoutVal rx (RecvTimer a)\<rparr>"

definition arq_Tick :: "'p arq \<Rightarrow> 'p arq" where
  "arq_Tick a = a\<lparr>SendTimer := Tick (SendTimer a), RecvTimer := Tick (RecvTimer a)\<rparr>"

subsection \<open>Transmit side\<close>

definition CanSend :: "'p arq \<Rightarrow> bool" where
  "CanSend a \<longleftrightarrow> send_valids a < WND_S a"

definition SendDone :: "'p arq \<Rightarrow> bool" where
  "SendDone a \<longleftrightarrow> send_valids a = 0"

definition Send :: "'p \<Rightarrow> 'p arq \<Rightarrow> int \<times> 'p arq" where
  "Send p a =
     (if send_valids a = WND_S a then (0, a)
      else (1, a\<lparr>sendbuf := (sendbuf a)[slot a (seqpos a) := p],
                 seqpos := (seqpos a + 1) mod SEQ_S a\<rparr>))"

definition HasSendData :: "'p arq \<Rightarrow> bool" where
  "HasSendData a \<longleftrightarrow> timeout (SendTimer a) \<or> timeout (RecvTimer a) \<or>
     (SEQ_S a + seqpos a - sendpos a) mod SEQ_S a > 0"

definition mk_packet :: "u32 \<Rightarrow> bool \<Rightarrow> u32 \<Rightarrow> u32 \<Rightarrow> 'p \<Rightarrow> 'p packet" where
  "mk_packet t sv s k d = \<lparr>ptag = t, seqvalid = sv, pseq = s, pack = k, pdata = d\<rparr>"

text \<open>The common end of \<open>GetSendData\<close>: an ack is always sent along.\<close>

definition sent_one :: "'p arq \<Rightarrow> 'p arq" where
  "sent_one a = a\<lparr>RecvTimer := Stop (RecvTimer a), tx_pck_num := tx_pck_num a + 1\<rparr>"

text \<open>\<open>GetSendData\<close> returns 0 and leaves the packet alone (\<open>None\<close>) or 1 with a packet.\<close>

definition GetSendData :: "'p arq \<Rightarrow> 'p packet option \<times> 'p arq" where
  "GetSendData a =
     (if timeout (SendTimer a) then
        let a1 = a\<lparr>SendTimer := Ack (SendTimer a), tx_timeout_num := tx_timeout_num a + 1\<rparr> in
        if seqpos a1 = wndpos a1 then (None, a1)
        else (Some (mk_packet (tagid a1) True (wndpos a1) (recackpos a1)
                      (sendbuf a1 ! slot a1 (wndpos a1))),
              sent_one (a1\<lparr>SendTimer := Continue (SendTimer a1)\<rparr>))
      else if (SEQ_S a + seqpos a - sendpos a) mod SEQ_S a > 0 then
        (Some (mk_packet (tagid a) True (sendpos a) (recackpos a) (sendbuf a ! slot a (sendpos a))),
         sent_one (a\<lparr>sendpos := (sendpos a + 1) mod SEQ_S a,
                     SendTimer := Continue (SendTimer a)\<rparr>))
      else if timeout (RecvTimer a) then
        (Some (mk_packet (tagid a) False 0 (recackpos a) (sendbuf a ! 0)),
         sent_one (a\<lparr>RecvTimer := Ack (RecvTimer a), rx_timeout_num := rx_timeout_num a + 1\<rparr>))
      else (None, a))"

subsection \<open>Receive side\<close>

definition CanReceive :: "'p arq \<Rightarrow> bool" where
  "CanReceive a \<longleftrightarrow> list_ex (\<lambda>s. \<not> recvalids a ! s) [0..<unat (WND_S a)]"

text \<open>The loop that moves the ack position over the stored packets. It need not end for
  arbitrary sizes, so its result is optional.\<close>

definition ack_more :: "'p arq \<Rightarrow> bool" where
  "ack_more a \<longleftrightarrow>
     recvalids a ! slot a ((recackpos a + 1) mod SEQ_S a) \<and>
     (SEQ_S a + recackpos a + 1 - recwndpos a) mod SEQ_S a < WND_S a"

definition ack_step :: "'p arq \<Rightarrow> 'p arq" where
  "ack_step a = a\<lparr>recackpos := (recackpos a + 1) mod SEQ_S a\<rparr>"

definition ack_advance :: "'p arq \<Rightarrow> 'p arq option" where
  "ack_advance a = while_option ack_more ack_step a"

text \<open>The data part of \<open>Receive\<close>.\<close>

definition receive_data :: "'p packet \<Rightarrow> 'p arq \<Rightarrow> 'p arq option" where
  "receive_data p a =
     (if seqvalid p then
        if (SEQ_S a + pseq p - recwndpos a) mod SEQ_S a \<ge> WND_S a
        then Some (a\<lparr>rx_drop_num := rx_drop_num a + 1\<rparr>)
        else if recvalids a ! slot a (pseq p)
        then Some (a\<lparr>rx_drop_num := rx_drop_num a + 1\<rparr>)
        else map_option (\<lambda>b. b\<lparr>RecvTimer := Continue (RecvTimer b)\<rparr>)
               (ack_advance (a\<lparr>recbuf := (recbuf a)[slot a (pseq p) := pdata p],
                               recvalids := (recvalids a)[slot a (pseq p) := True]\<rparr>))
      else Some a)"

text \<open>The ack part of \<open>Receive\<close>.\<close>

definition receive_ack :: "'p packet \<Rightarrow> 'p arq \<Rightarrow> 'p arq" where
  "receive_ack p a =
     (let ackofs = (SEQ_S a + pack p - wndpos a) mod SEQ_S a;
          ackleft = (SEQ_S a + sendpos a - wndpos a) mod SEQ_S a in
      if ackofs < ackleft then
        let b = a\<lparr>wndpos := (wndpos a + ackofs + 1) mod SEQ_S a\<rparr> in
        if wndpos b = sendpos b then b\<lparr>SendTimer := Stop (SendTimer b)\<rparr>
        else b\<lparr>SendTimer := Start (SendTimer b)\<rparr>
      else a)"

text \<open>\<open>Receive\<close> always returns 0; \<open>None\<close> stands for a call that does not return.\<close>

definition Receive :: "'p packet \<Rightarrow> 'p arq \<Rightarrow> 'p arq option" where
  "Receive p a =
     map_option (receive_ack p) (receive_data p (a\<lparr>rx_pck_num := rx_pck_num a + 1\<rparr>))"

definition HasReadData :: "'p arq \<Rightarrow> bool" where
  "HasReadData a \<longleftrightarrow> recvalids a ! slot a (recwndpos a)"

text \<open>\<open>Read\<close> waits in a loop for \<open>HasReadData\<close>, which nothing in the thread itself can make
  true: without data it does not return (\<open>None\<close>), whatever \<open>block\<close> says.\<close>

definition Read :: "'p arq \<Rightarrow> ('p \<times> 'p arq) option" where
  "Read a =
     (if HasReadData a then
        Some (recbuf a ! slot a (recwndpos a),
              a\<lparr>recvalids := (recvalids a)[slot a (recwndpos a) := False],
                recwndpos := (recwndpos a + 1) mod SEQ_S a\<rparr>)
      else None)"

end
