(* ===== verification/Arq_Window.thy ===== *)
theory Arq_Window
  imports Arq
begin

text \<open>
  The window arithmetic of the ARQ and the invariants of its two halves. The positions of the
  code are sequence numbers modulo the sequence size; the invariants read them as unbounded
  counters of packets (how many were accepted, sent, acknowledged, read) and say what the two
  ring buffers hold. One lemma per operation and half shows that the operation moves the
  counters the way the protocol means.
\<close>

subsection \<open>Sizes\<close>

locale arq_sizes =
  fixes sz wd :: u32
  assumes wd_pos: "0 < unat wd"
    and wd_half: "2 * unat wd \<le> unat sz"
    and wd_dvd: "unat wd dvd unat sz"
    and sz_small: "2 * unat sz < 2 ^ 32"
begin

lemma sz_pos: "0 < unat sz"
  using wd_pos wd_half by linarith

lemma wd_less: "unat wd < unat sz"
  using wd_pos wd_half by linarith

lemma mod_slot: "(x mod unat sz) mod unat wd = x mod unat wd"
  using wd_dvd by (rule mod_mod_cancel)

lemma slot_neq:
  assumes "i \<noteq> j" and "i < j + unat wd" and "j < i + unat wd"
  shows "i mod unat wd \<noteq> j mod unat wd"
proof
  assume eq: "i mod unat wd = j mod unat wd"
  show False
  proof (cases "i < j")
    case True
    then have "unat wd dvd j - i" using eq by (metis mod_eq_dvd_iff_nat less_imp_le_nat)
    then show False using True assms by (auto dest!: dvd_imp_le)
  next
    case False
    then have "unat wd dvd i - j" using eq by (metis mod_eq_dvd_iff_nat not_le less_imp_le_nat not_less)
    then show False using False assms by (auto dest!: dvd_imp_le)
  qed
qed

lemma seq_less: "x mod unat sz < unat sz"
  using sz_pos by simp

lemma unat_ofs:
  assumes "unat a = x mod unat sz" and "unat b = y mod unat sz"
  shows "unat ((sz + a - b) mod sz) = (unat sz + x mod unat sz - y mod unat sz) mod unat sz"
proof -
  have lt: "unat a < unat sz" "unat b < unat sz"
    using assms seq_less by simp_all
  have "unat (sz + a) = unat sz + unat a"
    using lt sz_small by (subst unat_add_lem [THEN iffD1]) simp_all
  moreover have "b \<le> sz + a"
    using lt calculation by (simp add: word_le_nat_alt)
  ultimately have "unat (sz + a - b) = unat sz + unat a - unat b"
    by (simp add: unat_sub)
  then show ?thesis
    using assms by (simp add: unat_mod)
qed

text \<open>The same for a position that was incremented and not yet reduced.\<close>

lemma unat_ofs_succ:
  assumes "unat p < unat sz" and "unat ((p + 1) mod sz) = x mod unat sz" and "unat b = y mod unat sz"
  shows "unat ((sz + p + 1 - b) mod sz) = (unat sz + x mod unat sz - y mod unat sz) mod unat sz"
proof (cases "unat p + 1 = unat sz")
  case True
  have p1: "p + 1 = sz"
  proof -
    have "unat (p + 1) = unat p + 1"
      using True sz_small by (subst unat_add_lem [THEN iffD1]) simp_all
    then show ?thesis using True by (simp add: word_unat_eq_iff)
  qed
  then have x0: "x mod unat sz = 0" using assms(2) by simp
  have b: "unat b < unat sz" using assms(3) seq_less by simp
  have "unat (sz + p + 1 - b) = unat sz + unat sz - unat b"
  proof -
    have "unat (sz + sz) = unat sz + unat sz"
      using sz_small by (subst unat_add_lem [THEN iffD1]) simp_all
    moreover have "b \<le> sz + sz" using b calculation by (simp add: word_le_nat_alt)
    ultimately show ?thesis using p1 by (simp add: add.assoc unat_sub)
  qed
  then have "unat ((sz + p + 1 - b) mod sz) = (unat sz + (unat sz - unat b)) mod unat sz"
    using b by (simp add: unat_mod)
  then show ?thesis using x0 assms(3) by simp
next
  case False
  then have "unat (p + 1) = unat p + 1"
    using assms(1) sz_small by (subst unat_add_lem [THEN iffD1]) simp_all
  then have "(p + 1) mod sz = p + 1" "unat (p + 1) = x mod unat sz"
    using assms(1,2) False by (simp_all add: word_unat_eq_iff unat_mod)
  then show ?thesis
    using unat_ofs [of "p + 1" x b y] assms(3) by (simp add: add.assoc)
qed

text \<open>The distance of two positions, read back from their sequence numbers.\<close>

lemma seq_ofs:
  assumes "unat a = x mod unat sz" and "unat b = y mod unat sz" and "y \<le> x" and "x < y + unat sz"
  shows "unat ((sz + a - b) mod sz) = x - y"
  using unat_ofs [OF assms(1,2)] mod_diff_ge [OF sz_pos assms(3,4)] by simp

lemma seq_ofs_behind:
  assumes "unat a = x mod unat sz" and "unat b = y mod unat sz" and "x < y" and "y \<le> x + unat sz"
  shows "unat ((sz + a - b) mod sz) = x + unat sz - y"
  using seq_ofs [of a "x + unat sz" b y] assms by simp

lemma seq_add:
  assumes "unat a = x mod unat sz" and "unat k < unat sz"
  shows "unat ((a + k) mod sz) = (x + unat k) mod unat sz"
proof -
  have "unat (a + k) = unat a + unat k"
  proof (rule unat_add_lem [THEN iffD1])
    have "x mod unat sz + unat k < unat sz + unat sz"
      using assms(2) seq_less [of x] by (rule add_less_mono [rotated])
    then show "unat a + unat k < 2 ^ LENGTH(32)"
      using assms(1) sz_small by simp
  qed
  then show ?thesis
    using assms by (simp add: unat_mod mod_simps)
qed

lemma seq_inc: "unat a = x mod unat sz \<Longrightarrow> unat ((a + 1) mod sz) = Suc x mod unat sz"
  using seq_add [of a x 1] sz_pos wd_less wd_pos by simp

lemma seq_eq_iff:
  assumes "unat a = x mod unat sz" and "unat b = y mod unat sz" and "y \<le> x" and "x < y + unat sz"
  shows "a = b \<longleftrightarrow> x = y"
proof
  assume "a = b"
  then have "unat sz dvd x - y"
    using assms by (metis mod_eq_dvd_iff_nat)
  then show "x = y"
    using assms by (auto dest!: dvd_imp_le)
next
  assume "x = y"
  then show "a = b" using assms by (simp add: word_unat_eq_iff)
qed

end

subsection \<open>The two halves of an endpoint\<close>

definition well_sized :: "u32 \<Rightarrow> u32 \<Rightarrow> 'p arq \<Rightarrow> bool" where
  "well_sized sz wd a \<longleftrightarrow> SEQ_S a = sz \<and> WND_S a = wd \<and> length (sendbuf a) = unat wd \<and>
     length (recbuf a) = unat wd \<and> length (recvalids a) = unat wd"

text \<open>The transmit half: \<open>sw\<close> packets are acknowledged, \<open>sp\<close> have been sent, and the packets of
  \<open>sent\<close> from \<open>sw\<close> on wait in the buffer. The send timer runs exactly while packets are out.\<close>

definition snd_inv :: "u32 \<Rightarrow> u32 \<Rightarrow> 'p arq \<Rightarrow> nat \<Rightarrow> nat \<Rightarrow> 'p list \<Rightarrow> bool" where
  "snd_inv sz wd a sw sp sent \<longleftrightarrow>
     well_sized sz wd a \<and>
     unat (wndpos a) = sw mod unat sz \<and> unat (sendpos a) = sp mod unat sz \<and>
     unat (seqpos a) = length sent mod unat sz \<and>
     sw \<le> sp \<and> sp \<le> length sent \<and> length sent \<le> sw + unat wd \<and>
     (\<forall>i. sw \<le> i \<longrightarrow> i < length sent \<longrightarrow> sendbuf a ! (i mod unat wd) = sent ! i) \<and>
     (active (SendTimer a) \<longleftrightarrow> sw < sp)"

text \<open>The receive half: \<open>rd\<close> was read, the packets up to \<open>ra\<close> are complete and acknowledged by the
  next packet sent, \<open>rhi\<close> bounds what ever arrived.\<close>

definition rcv_inv :: "u32 \<Rightarrow> u32 \<Rightarrow> 'p arq \<Rightarrow> nat \<Rightarrow> nat \<Rightarrow> 'p list \<Rightarrow> 'p list \<Rightarrow> bool" where
  "rcv_inv sz wd b ra rhi sent rd \<longleftrightarrow>
     well_sized sz wd b \<and>
     unat (recwndpos b) = length rd mod unat sz \<and>
     unat (recackpos b) = (ra + unat sz - 1) mod unat sz \<and>
     length rd \<le> ra \<and> ra \<le> rhi \<and> rhi \<le> length rd + unat wd \<and> rhi \<le> length sent \<and>
     rd = take (length rd) sent \<and>
     (\<forall>i. length rd \<le> i \<longrightarrow> i < length rd + unat wd \<longrightarrow> recvalids b ! (i mod unat wd) \<longrightarrow>
        i < rhi \<and> recbuf b ! (i mod unat wd) = sent ! i) \<and>
     (\<forall>i. length rd \<le> i \<longrightarrow> i < ra \<longrightarrow> recvalids b ! (i mod unat wd)) \<and>
     (ra < length rd + unat wd \<longrightarrow> \<not> recvalids b ! (ra mod unat wd))"

lemma slot_unat: "well_sized sz wd a \<Longrightarrow> slot a p = unat p mod unat wd"
  by (simp add: slot_def well_sized_def unat_mod)

text \<open>What does not touch a half keeps its invariant.\<close>

lemma snd_inv_cong:
  assumes "snd_inv sz wd a sw sp sent"
    and "SEQ_S b = SEQ_S a" "WND_S b = WND_S a" "sendbuf b = sendbuf a" "wndpos b = wndpos a"
    "sendpos b = sendpos a" "seqpos b = seqpos a" "active (SendTimer b) = active (SendTimer a)"
    "length (recbuf b) = length (recbuf a)" "length (recvalids b) = length (recvalids a)"
  shows "snd_inv sz wd b sw sp sent"
  using assms by (simp add: snd_inv_def well_sized_def)

lemma rcv_inv_cong:
  assumes "rcv_inv sz wd a ra rhi sent rd"
    and "SEQ_S b = SEQ_S a" "WND_S b = WND_S a" "recbuf b = recbuf a" "recvalids b = recvalids a"
    "recwndpos b = recwndpos a" "recackpos b = recackpos a"
    "length (sendbuf b) = length (sendbuf a)"
  shows "rcv_inv sz wd b ra rhi sent rd"
  using assms by (simp add: rcv_inv_def well_sized_def)

subsection \<open>The transmit operations\<close>

context arq_sizes
begin

lemma send_valids_count:
  assumes "snd_inv sz wd a sw sp sent"
  shows "unat (send_valids a) = length sent - sw"
proof -
  have "unat ((sz + seqpos a - wndpos a) mod sz) = length sent - sw"
    by (rule seq_ofs) (use assms wd_less in \<open>auto simp: snd_inv_def\<close>)
  then show ?thesis
    using assms by (simp add: send_valids_def snd_inv_def well_sized_def)
qed

lemma CanSend_iff:
  assumes "snd_inv sz wd a sw sp sent"
  shows "CanSend a \<longleftrightarrow> length sent < sw + unat wd"
  using send_valids_count [OF assms] assms
  by (auto simp: CanSend_def word_less_nat_alt snd_inv_def well_sized_def)

lemma SendDone_iff:
  assumes "snd_inv sz wd a sw sp sent"
  shows "SendDone a \<longleftrightarrow> length sent = sw"
  using send_valids_count [OF assms] assms
  by (auto simp: SendDone_def unat_eq_zero [symmetric] snd_inv_def)

lemma unsent_count:
  assumes "snd_inv sz wd a sw sp sent"
  shows "unat ((SEQ_S a + seqpos a - sendpos a) mod SEQ_S a) = length sent - sp"
proof -
  have "unat ((sz + seqpos a - sendpos a) mod sz) = length sent - sp"
    by (rule seq_ofs) (use assms wd_less in \<open>auto simp: snd_inv_def\<close>)
  then show ?thesis
    using assms by (simp add: snd_inv_def well_sized_def)
qed

lemma unsent_iff:
  assumes "snd_inv sz wd a sw sp sent"
  shows "(SEQ_S a + seqpos a - sendpos a) mod SEQ_S a > 0 \<longleftrightarrow> sp < length sent"
  using unsent_count [OF assms] by (simp add: word_less_nat_alt)

lemma seqpos_eq_wndpos:
  assumes "snd_inv sz wd a sw sp sent"
  shows "seqpos a = wndpos a \<longleftrightarrow> length sent = sw"
  by (rule seq_eq_iff) (use assms wd_less in \<open>auto simp: snd_inv_def\<close>)

lemma sendbuf_at:
  assumes "snd_inv sz wd a sw sp sent" and "sw \<le> i" and "i < length sent"
    and "unat p = i mod unat sz"
  shows "sendbuf a ! slot a p = sent ! i"
  using assms by (auto simp: snd_inv_def slot_unat mod_slot)

text \<open>\<open>Send\<close> appends to the packets accepted, or refuses when the window is full.\<close>

lemma Send_snd:
  assumes "snd_inv sz wd a sw sp sent"
  shows "if length sent < sw + unat wd
    then fst (Send p a) = 1 \<and> snd_inv sz wd (snd (Send p a)) sw sp (sent @ [p])
    else Send p a = (0, a)"
proof (cases "length sent < sw + unat wd")
  case True
  let ?n = "length sent"
  have ws: "well_sized sz wd a" using assms by (simp add: snd_inv_def)
  have "unat (send_valids a) \<noteq> unat wd"
    using send_valids_count [OF assms] assms True by (auto simp: snd_inv_def)
  then have room: "send_valids a \<noteq> WND_S a"
    using ws by (auto simp: well_sized_def)
  have sl: "slot a (seqpos a) = ?n mod unat wd"
    using assms ws by (simp add: slot_unat snd_inv_def mod_slot)
  have pos: "unat ((seqpos a + 1) mod sz) = Suc ?n mod unat sz"
    by (rule seq_inc) (use assms in \<open>simp add: snd_inv_def\<close>)
  have buf: "(sendbuf a)[?n mod unat wd := p] ! (i mod unat wd) = (sent @ [p]) ! i"
    if "sw \<le> i" "i < Suc ?n" for i
  proof (cases "i = ?n")
    case True
    then show ?thesis using ws wd_pos by (simp add: well_sized_def)
  next
    case False
    then have "i mod unat wd \<noteq> ?n mod unat wd"
      using that \<open>?n < sw + unat wd\<close> by (intro slot_neq) simp_all
    then show ?thesis
      using that False assms by (simp add: snd_inv_def nth_append)
  qed
  show ?thesis
    using True room ws pos assms buf sl
    by (simp add: Send_def snd_inv_def well_sized_def)
next
  case False
  then have "unat (send_valids a) = unat wd"
    using send_valids_count [OF assms] assms by (simp add: snd_inv_def)
  then have "send_valids a = WND_S a"
    using assms by (simp add: snd_inv_def well_sized_def word_unat_eq_iff)
  then show ?thesis using False by (simp add: Send_def)
qed

text \<open>\<open>GetSendData\<close>: a retransmission of the oldest packet, the next new packet, or a bare ack;
  every packet carries the current ack position.\<close>

lemma GetSendData_snd:
  assumes inv: "snd_inv sz wd a sw sp sent"
  obtains (resend) p where
      "fst (GetSendData a) = Some p" "seqvalid p" "unat (pseq p) = sw mod unat sz"
      "pdata p = sent ! sw" "sw < sp" "snd_inv sz wd (snd (GetSendData a)) sw sp sent"
    | (new) p where
      "fst (GetSendData a) = Some p" "seqvalid p" "unat (pseq p) = sp mod unat sz"
      "pdata p = sent ! sp" "sp < length sent"
      "snd_inv sz wd (snd (GetSendData a)) sw (Suc sp) sent"
    | (bare) p where
      "fst (GetSendData a) = Some p" "\<not> seqvalid p"
      "snd_inv sz wd (snd (GetSendData a)) sw sp sent"
    | (idle) "fst (GetSendData a) = None" "snd_inv sz wd (snd (GetSendData a)) sw sp sent"
proof (cases "timeout (SendTimer a)")
  case True
  then have out: "sw < sp"
    using inv by (simp add: snd_inv_def active_def)
  then have ne: "seqpos a \<noteq> wndpos a"
    using seqpos_eq_wndpos [OF inv] inv by (auto simp: snd_inv_def)
  have "sendbuf a ! slot a (wndpos a) = sent ! sw"
    by (rule sendbuf_at [OF inv]) (use inv out in \<open>auto simp: snd_inv_def\<close>)
  moreover have "snd_inv sz wd (snd (GetSendData a)) sw sp sent"
    by (rule snd_inv_cong [OF inv])
      (use True ne out inv in \<open>simp_all add: GetSendData_def sent_one_def snd_inv_def\<close>)
  ultimately show thesis
    using True ne out inv
    by (intro resend) (auto simp: GetSendData_def slot_def mk_packet_def snd_inv_def)
next
  case False
  note nt = this
  show thesis
  proof (cases "sp < length sent")
    case True
    have gt: "(SEQ_S a + seqpos a - sendpos a) mod SEQ_S a > 0"
      using unsent_iff [OF inv] True by simp
    have pos: "unat ((sendpos a + 1) mod sz) = Suc sp mod unat sz"
      by (rule seq_inc) (use inv in \<open>simp add: snd_inv_def\<close>)
    have "sendbuf a ! slot a (sendpos a) = sent ! sp"
      by (rule sendbuf_at [OF inv]) (use inv True in \<open>auto simp: snd_inv_def\<close>)
    moreover have "snd_inv sz wd (snd (GetSendData a)) sw (Suc sp) sent"
      using nt gt True inv pos
      by (simp add: GetSendData_def sent_one_def snd_inv_def well_sized_def)
    ultimately show thesis
      using nt gt True inv
      by (intro new) (auto simp: GetSendData_def mk_packet_def snd_inv_def)
  next
    case False
    then have z: "\<not> (SEQ_S a + seqpos a - sendpos a) mod SEQ_S a > 0"
      using unsent_iff [OF inv] by simp
    have keep: "snd_inv sz wd (snd (GetSendData a)) sw sp sent"
      by (rule snd_inv_cong [OF inv]) (use nt z in \<open>simp_all add: GetSendData_def sent_one_def\<close>)
    show thesis
    proof (cases "timeout (RecvTimer a)")
      case True
      then show thesis
        using bare [OF _ _ keep, of "mk_packet (tagid a) False 0 (recackpos a) (sendbuf a ! 0)"] nt z
        by (simp add: GetSendData_def mk_packet_def)
    next
      case False
      then show thesis
        using idle [OF _ keep] nt z by (simp add: GetSendData_def)
    qed
  qed
qed

text \<open>An ack that names a packet still out moves the window start behind it; others do nothing.\<close>

lemma receive_ack_snd:
  assumes inv: "snd_inv sz wd a sw sp sent"
    and k: "unat (pack p) = (k + unat sz - 1) mod unat sz" "sw \<le> k" "k \<le> sp"
  shows "snd_inv sz wd (receive_ack p a) k sp sent"
proof -
  have ws: "SEQ_S a = sz" using inv by (simp add: snd_inv_def well_sized_def)
  have left: "unat ((sz + sendpos a - wndpos a) mod sz) = sp - sw"
    by (rule seq_ofs) (use inv wd_less in \<open>auto simp: snd_inv_def\<close>)
  show ?thesis
  proof (cases "k = sw")
    case True
    have "unat ((sz + pack p - wndpos a) mod sz) = unat sz - 1"
      using seq_ofs [of "pack p" "k + unat sz - 1" "wndpos a" sw] inv k True sz_pos
      by (simp add: snd_inv_def)
    then have "\<not> (sz + pack p - wndpos a) mod sz < (sz + sendpos a - wndpos a) mod sz"
      using left inv wd_less by (auto simp: word_less_nat_alt snd_inv_def)
    then show ?thesis
      using inv True ws by (simp add: receive_ack_def Let_def)
  next
    case False
    let ?ofs = "(sz + pack p - wndpos a) mod sz"
    have "unat (pack p) = (k - 1) mod unat sz"
      using k False sz_pos by (metis Nat.add_diff_assoc2 One_nat_def Suc_leI bot_nat_0.not_eq_extremum
          le_0_eq less_eq_Suc_le mod_add_self2)
    then have ofs: "unat ?ofs = k - 1 - sw"
      using k False inv wd_less by (intro seq_ofs) (auto simp: snd_inv_def)
    then have lt: "?ofs < (sz + sendpos a - wndpos a) mod sz"
      using left k False by (simp add: word_less_nat_alt)
    have "unat (?ofs + 1) = k - sw"
      using ofs k False inv wd_less sz_small
      by (subst unat_add_lem [THEN iffD1]) (auto simp: snd_inv_def)
    then have "unat ((wndpos a + (?ofs + 1)) mod sz) = (sw + (k - sw)) mod unat sz"
      using k False inv wd_less by (subst seq_add) (auto simp: snd_inv_def)
    then have pos: "unat ((wndpos a + ?ofs + 1) mod sz) = k mod unat sz"
      using k by (simp add: add.assoc)
    have last: "(wndpos a + ?ofs + 1) mod sz = sendpos a \<longleftrightarrow> sp = k"
      using seq_eq_iff [of "sendpos a" sp "(wndpos a + ?ofs + 1) mod sz" k] pos inv k wd_less
      by (auto simp: snd_inv_def)
    show ?thesis
      using inv lt ws pos last k
      by (auto simp: receive_ack_def Let_def snd_inv_def well_sized_def)
  qed
qed

end

subsection \<open>The receive operations\<close>

context arq_sizes
begin

lemma HasReadData_iff:
  assumes "rcv_inv sz wd b ra rhi sent rd"
  shows "HasReadData b \<longleftrightarrow> length rd < ra"
proof -
  have "slot b (recwndpos b) = length rd mod unat wd"
    using assms by (auto simp: rcv_inv_def slot_unat mod_slot)
  then show ?thesis
    using assms wd_pos by (cases "length rd < ra") (auto simp: HasReadData_def rcv_inv_def)
qed

text \<open>\<open>Read\<close> hands over the next packet of those accepted by the other side.\<close>

lemma Read_rcv:
  assumes inv: "rcv_inv sz wd b ra rhi sent rd" and read: "Read b = Some (x, b')"
  shows "length rd < ra" "x = sent ! length rd" "rcv_inv sz wd b' ra rhi sent (rd @ [x])"
proof -
  let ?n = "length rd"
  have ws: "well_sized sz wd b" using inv by (simp add: rcv_inv_def)
  have sl: "slot b (recwndpos b) = ?n mod unat wd"
    using inv by (auto simp: rcv_inv_def slot_unat mod_slot)
  have has: "HasReadData b" using read by (simp add: Read_def split: if_splits)
  then show lt: "?n < ra" using HasReadData_iff [OF inv] by simp
  have b': "x = recbuf b ! (?n mod unat wd)"
    "b' = b\<lparr>recvalids := (recvalids b)[?n mod unat wd := False],
            recwndpos := (recwndpos b + 1) mod sz\<rparr>"
    using read has ws sl by (simp_all add: Read_def well_sized_def)
  show x: "x = sent ! ?n"
    using b'(1) inv has wd_pos sl by (auto simp: rcv_inv_def HasReadData_def)
  have pos: "unat ((recwndpos b + 1) mod sz) = Suc ?n mod unat sz"
    by (rule seq_inc) (use inv in \<open>simp add: rcv_inv_def\<close>)
  have upd: "(recvalids b)[?n mod unat wd := False] ! (i mod unat wd) =
      (if i = ?n + unat wd then False else recvalids b ! (i mod unat wd))"
    if "Suc ?n \<le> i" "i < Suc ?n + unat wd" for i
  proof (cases "i = ?n + unat wd")
    case True
    then show ?thesis using ws wd_pos by (simp add: well_sized_def)
  next
    case False
    then have "i mod unat wd \<noteq> ?n mod unat wd"
      using that by (intro slot_neq) simp_all
    then show ?thesis using False by simp
  qed
  have tk: "rd @ [x] = take (Suc ?n) sent"
    using inv x lt by (auto simp: rcv_inv_def take_Suc_conv_app_nth)
  have V: "i < rhi \<and> recbuf b ! (i mod unat wd) = sent ! i"
    if "Suc ?n \<le> i" "i < Suc ?n + unat wd" "(recvalids b)[?n mod unat wd := False] ! (i mod unat wd)" for i
    using that upd [OF that(1,2)] inv by (auto simp: rcv_inv_def split: if_splits)
  have C: "(recvalids b)[?n mod unat wd := False] ! (i mod unat wd)"
    if "Suc ?n \<le> i" "i < ra" for i
    using that upd [of i] inv by (auto simp: rcv_inv_def)
  have E: "\<not> (recvalids b)[?n mod unat wd := False] ! (ra mod unat wd)"
    if "ra < Suc ?n + unat wd"
    using that upd [of ra] inv lt by (auto simp: rcv_inv_def split: if_splits)
  show "rcv_inv sz wd b' ra rhi sent (rd @ [x])"
    using inv b'(2) pos tk V C E lt ws
    by (simp add: rcv_inv_def well_sized_def)
qed

text \<open>The loop over the ack position ends, at the first slot that is empty or the window's end.\<close>

definition ack_inv :: "'p arq \<Rightarrow> nat \<Rightarrow> nat \<Rightarrow> 'p arq \<Rightarrow> bool" where
  "ack_inv b0 rw ra c \<longleftrightarrow>
     (\<exists>p. c = b0\<lparr>recackpos := p\<rparr>) \<and> unat (recackpos c) = (ra + unat sz - 1) mod unat sz \<and>
     rw \<le> ra \<and> ra \<le> rw + unat wd \<and>
     (\<forall>i. rw \<le> i \<longrightarrow> i < ra \<longrightarrow> recvalids c ! (i mod unat wd))"

lemma ack_next:
  assumes "unat p = (ra + unat sz - 1) mod unat sz"
  shows "unat ((p + 1) mod sz) = ra mod unat sz"
  using seq_inc [OF assms] sz_pos by simp

lemma ack_more_iff:
  assumes ws: "well_sized sz wd b" and rw: "unat (recwndpos b) = rw mod unat sz"
    and inv: "ack_inv b rw r c"
  shows "ack_more c \<longleftrightarrow> r < rw + unat wd \<and> recvalids b ! (r mod unat wd)"
proof -
  from inv obtain p where c: "c = b\<lparr>recackpos := p\<rparr>" and p: "unat p = (r + unat sz - 1) mod unat sz"
    by (auto simp: ack_inv_def)
  have le: "rw \<le> r" "r \<le> rw + unat wd" using inv by (simp_all add: ack_inv_def)
  have nx: "unat ((p + 1) mod sz) = r mod unat sz" by (rule ack_next [OF p])
  have "unat p < unat sz" using p seq_less by simp
  then have "unat ((sz + p + 1 - recwndpos b) mod sz) = r - rw"
    using unat_ofs_succ [OF _ nx rw] mod_diff_ge [of "unat sz" rw r] sz_pos le wd_less by simp
  then show ?thesis
    using c le nx ws
    by (auto simp: ack_more_def slot_def well_sized_def unat_mod mod_slot word_less_nat_alt)
qed

lemma ack_step_inv:
  assumes ws: "well_sized sz wd b" and rw: "unat (recwndpos b) = rw mod unat sz"
    and inv: "ack_inv b rw r c" and more: "ack_more c"
  shows "ack_inv b rw (Suc r) (ack_step c)"
proof -
  from inv obtain p where c: "c = b\<lparr>recackpos := p\<rparr>" and p: "unat p = (r + unat sz - 1) mod unat sz"
    by (auto simp: ack_inv_def)
  have "unat ((p + 1) mod sz) = r mod unat sz" by (rule ack_next [OF p])
  then show ?thesis
    using inv c ws ack_more_iff [OF ws rw inv] more
    by (auto simp: ack_inv_def ack_step_def well_sized_def less_Suc_eq)
qed

lemma ack_loop:
  assumes ws: "well_sized sz wd b" and rw: "unat (recwndpos b) = rw mod unat sz"
    and inv: "ack_inv b rw r c"
  shows "\<exists>c' r'. while_option ack_more ack_step c = Some c' \<and> ack_inv b rw r' c' \<and> r \<le> r' \<and>
    (r' < rw + unat wd \<longrightarrow> \<not> recvalids b ! (r' mod unat wd))"
  using inv
proof (induction "rw + unat wd - r" arbitrary: r c rule: less_induct)
  case less
  show ?case
  proof (cases "ack_more c")
    case True
    have "r < rw + unat wd" using ack_more_iff [OF ws rw less.prems] True by simp
    then have "rw + unat wd - Suc r < rw + unat wd - r" by linarith
    then obtain c' r' where "while_option ack_more ack_step (ack_step c) = Some c'"
      "ack_inv b rw r' c'" "Suc r \<le> r'" "r' < rw + unat wd \<longrightarrow> \<not> recvalids b ! (r' mod unat wd)"
      using less.hyps [OF _ ack_step_inv [OF ws rw less.prems True]] by blast
    moreover have "while_option ack_more ack_step c = while_option ack_more ack_step (ack_step c)"
      using True by (subst while_option_unfold) simp
    ultimately show ?thesis
      using Suc_leD by metis
  next
    case False
    then have "while_option ack_more ack_step c = Some c"
      by (subst while_option_unfold) simp
    moreover have "r < rw + unat wd \<longrightarrow> \<not> recvalids b ! (r mod unat wd)"
      using False ack_more_iff [OF ws rw less.prems] by simp
    ultimately show ?thesis
      using less.prems by blast
  qed
qed

text \<open>A data packet from the window is stored, anything else is dropped; the ack position follows.\<close>

lemma receive_data_rcv:
  assumes inv: "rcv_inv sz wd b ra rhi sent rd"
    and p: "seqvalid p" "unat (pseq p) = g mod unat sz" "pdata p = sent ! g"
    and g: "g < length sent" "g < length rd + 2 * unat wd" "length rd \<le> g + unat wd"
  obtains c ra' where "receive_data p b = Some c" "ra \<le> ra'" "ra' \<le> max rhi (Suc g)"
    "rcv_inv sz wd c ra' (max rhi (Suc g)) sent rd"
    | (dropped) c where "receive_data p b = Some c" "rcv_inv sz wd c ra rhi sent rd"
proof -
  let ?n = "length rd"
  have ws: "well_sized sz wd b" using inv by (simp add: rcv_inv_def)
  have rw: "unat (recwndpos b) = ?n mod unat sz" using inv by (simp add: rcv_inv_def)
  have sl: "slot b (pseq p) = g mod unat wd" using ws p by (simp add: slot_unat mod_slot)
  have keep: "rcv_inv sz wd (b\<lparr>rx_drop_num := rx_drop_num b + 1\<rparr>) ra rhi sent rd"
    by (rule rcv_inv_cong [OF inv]) simp_all
  have inwin: "(sz + pseq p - recwndpos b) mod sz \<ge> wd \<longleftrightarrow> \<not> (?n \<le> g \<and> g < ?n + unat wd)"
  proof (cases "?n \<le> g")
    case True
    then have "unat ((sz + pseq p - recwndpos b) mod sz) = g - ?n"
      using p rw g wd_half by (intro seq_ofs) auto
    then show ?thesis using True by (auto simp: word_le_nat_alt)
  next
    case False
    then have "unat ((sz + pseq p - recwndpos b) mod sz) = g + unat sz - ?n"
      using p rw g wd_less by (intro seq_ofs_behind) auto
    then show ?thesis using False g wd_half by (auto simp: word_le_nat_alt)
  qed
  show thesis
  proof (cases "?n \<le> g \<and> g < ?n + unat wd \<and> \<not> recvalids b ! (g mod unat wd)")
    case False
    then have "receive_data p b = Some (b\<lparr>rx_drop_num := rx_drop_num b + 1\<rparr>)"
      using inwin ws p sl by (auto simp: receive_data_def well_sized_def not_le)
    then show thesis using keep by (rule dropped)
  next
    case True
    let ?v = "(recvalids b)[g mod unat wd := True]"
    let ?r = "(recbuf b)[g mod unat wd := pdata p]"
    let ?b = "b\<lparr>recbuf := ?r, recvalids := ?v\<rparr>"
    have ws': "well_sized sz wd ?b" using ws by (simp add: well_sized_def)
    have upd: "?v ! (i mod unat wd) = (i = g \<or> recvalids b ! (i mod unat wd))"
      "?r ! (i mod unat wd) = (if i = g then sent ! g else recbuf b ! (i mod unat wd))"
      if "?n \<le> i" "i < ?n + unat wd" for i
    proof -
      have "i mod unat wd \<noteq> g mod unat wd" if "i \<noteq> g"
        using that \<open>?n \<le> i\<close> \<open>i < ?n + unat wd\<close> True by (intro slot_neq) simp_all
      then show "?v ! (i mod unat wd) = (i = g \<or> recvalids b ! (i mod unat wd))"
        "?r ! (i mod unat wd) = (if i = g then sent ! g else recbuf b ! (i mod unat wd))"
        using ws wd_pos p by (cases "i = g"; simp add: well_sized_def)+
    qed
    have "ack_inv ?b ?n ra ?b"
      unfolding ack_inv_def
    proof (intro conjI allI impI)
      show "\<exists>p. ?b = ?b\<lparr>recackpos := p\<rparr>" by (rule exI [of _ "recackpos b"]) simp
      show "recvalids ?b ! (i mod unat wd)" if "?n \<le> i" "i < ra" for i
        using that upd(1) [of i] inv by (simp add: rcv_inv_def)
    qed (use inv in \<open>simp_all add: rcv_inv_def\<close>)
    from ack_loop [OF ws' _ this]
    have "\<exists>c r'. while_option ack_more ack_step ?b = Some c \<and> ack_inv ?b ?n r' c \<and> ra \<le> r' \<and>
        (r' < ?n + unat wd \<longrightarrow> \<not> ?v ! (r' mod unat wd))"
      using rw by simp
    then obtain c r' where loop: "while_option ack_more ack_step ?b = Some c" and
      c: "ack_inv ?b ?n r' c" "ra \<le> r'" "r' < ?n + unat wd \<longrightarrow> \<not> ?v ! (r' mod unat wd)"
      by blast
    let ?c = "c\<lparr>RecvTimer := Continue (RecvTimer c)\<rparr>"
    have some: "receive_data p b = Some ?c"
      using loop True inwin ws p sl by (simp add: receive_data_def ack_advance_def well_sized_def)
    have eq: "recvalids c = ?v" "recbuf c = ?r" "recwndpos c = recwndpos b" "well_sized sz wd c"
      "unat (recackpos c) = (r' + unat sz - 1) mod unat sz" "?n \<le> r'" "r' \<le> ?n + unat wd"
      using c ws' by (auto simp: ack_inv_def well_sized_def)
    have all: "?v ! (i mod unat wd)" if "?n \<le> i" "i < r'" for i
      using c(1) eq(1) that by (auto simp: ack_inv_def)
    have V: "i < max rhi (Suc g) \<and> ?r ! (i mod unat wd) = sent ! i"
      if "?n \<le> i" "i < ?n + unat wd" "?v ! (i mod unat wd)" for i
      using upd [OF that(1,2)] that inv by (auto simp: rcv_inv_def)
    have hi: "r' \<le> max rhi (Suc g)"
    proof (cases "r' = ?n")
      case False
      then have "r' - 1 < max rhi (Suc g)"
        using V [of "r' - 1"] all [of "r' - 1"] eq(6,7) by auto
      then show ?thesis by linarith
    qed (use inv in \<open>auto simp: rcv_inv_def\<close>)
    have bounds: "max rhi (Suc g) \<le> ?n + unat wd" "max rhi (Suc g) \<le> length sent"
      "rd = take ?n sent"
      using inv True g(1) by (auto simp: rcv_inv_def)
    have "rcv_inv sz wd ?c r' (max rhi (Suc g)) sent rd"
      unfolding rcv_inv_def
    proof (intro conjI)
      show "well_sized sz wd ?c" using eq(4) by (simp add: well_sized_def)
    qed (use eq V all hi bounds rw c(3) in \<open>simp_all\<close>)
    then show thesis by (rule that(1) [OF some c(2) hi])
  qed
qed

end

end
