(* ===== verification/Arq_Net.thy ===== *)
theory Arq_Net
  imports Arq_Window "HOL-Library.Sublist"
begin

text \<open>
  Two ARQ endpoints over a channel in each direction that keeps the order of packets but may
  lose and duplicate them, with the users' calls, the timer ticks and the channel's events in
  any interleaving. The main result is the protocol's promise: what one side reads is a
  prefix of what the other side's \<open>Send\<close> accepted.
\<close>

subsection \<open>The system\<close>

record 'p net =
  left :: "'p arq"
  right :: "'p arq"
  chan_lr :: "'p packet list"
  chan_rl :: "'p packet list"
  sent_l :: "'p list"
  read_l :: "'p list"
  sent_r :: "'p list"
  read_r :: "'p list"

definition swap :: "'p net \<Rightarrow> 'p net" where
  "swap n = \<lparr>left = right n, right = left n, chan_lr = chan_rl n, chan_rl = chan_lr n,
     sent_l = sent_r n, read_l = read_r n, sent_r = sent_l n, read_r = read_l n\<rparr>"

text \<open>The steps of the left endpoint and of the channel that leads to the right one.\<close>

inductive step :: "'p net \<Rightarrow> 'p net \<Rightarrow> bool" where
  send: "Send p (left n) = (r, a) \<Longrightarrow>
     step n (n\<lparr>left := a, sent_l := (if r = 1 then sent_l n @ [p] else sent_l n)\<rparr>)"
| getsend: "GetSendData (left n) = (q, a) \<Longrightarrow>
     step n (n\<lparr>left := a, chan_lr := chan_lr n @ (case q of None \<Rightarrow> [] | Some p \<Rightarrow> [p])\<rparr>)"
| receive: "chan_rl n = p # ps \<Longrightarrow> Receive p (left n) = Some a \<Longrightarrow>
     step n (n\<lparr>left := a, chan_rl := ps\<rparr>)"
| read: "Read (left n) = Some (x, a) \<Longrightarrow> step n (n\<lparr>left := a, read_l := read_l n @ [x]\<rparr>)"
| tick: "step n (n\<lparr>left := arq_Tick (left n)\<rparr>)"
| timeouts: "step n (n\<lparr>left := SetTimeouts tx rx (left n)\<rparr>)"
| stats: "step n (n\<lparr>left := ClearStats (left n)\<rparr>)"
| lose: "chan_lr n = xs @ p # ys \<Longrightarrow> step n (n\<lparr>chan_lr := xs @ ys\<rparr>)"
| duplicate: "chan_lr n = xs @ p # ys \<Longrightarrow> step n (n\<lparr>chan_lr := xs @ p # p # ys\<rparr>)"

text \<open>Both endpoints start as constructed, with the same sizes and whatever tags, timeouts and
  uninitialised memory.\<close>

inductive reach :: "u32 \<Rightarrow> u32 \<Rightarrow> 'p net \<Rightarrow> bool" for sz wd where
  start: "left n = ARQ_new m d t sz wd st rt \<Longrightarrow> right n = ARQ_new m' d' t' sz wd st' rt' \<Longrightarrow>
     chan_lr n = [] \<Longrightarrow> chan_rl n = [] \<Longrightarrow> sent_l n = [] \<Longrightarrow> read_l n = [] \<Longrightarrow>
     sent_r n = [] \<Longrightarrow> read_r n = [] \<Longrightarrow> reach sz wd n"
| left: "reach sz wd n \<Longrightarrow> step n n' \<Longrightarrow> reach sz wd n'"
| right: "reach sz wd n \<Longrightarrow> step (swap n) n' \<Longrightarrow> reach sz wd (swap n')"

inductive_cases stepE: "step n n'"

subsection \<open>The invariant of one direction\<close>

text \<open>The data packets in flight are numbered \<open>gs\<close>, the acks in flight name the counts \<open>as\<close>.\<close>

definition data_chan :: "u32 \<Rightarrow> u32 \<Rightarrow> 'p packet list \<Rightarrow> nat list \<Rightarrow> nat \<Rightarrow> nat \<Rightarrow> 'p list \<Rightarrow> bool" where
  "data_chan sz wd cd gs sp rhi sent \<longleftrightarrow>
     list_all2 (\<lambda>p g. unat (pseq p) = g mod unat sz \<and> pdata p = sent ! g) (filter seqvalid cd) gs \<and>
     sorted_wrt (\<lambda>x y. x < y + unat wd) gs \<and>
     (\<forall>g\<in>set gs. g < sp \<and> rhi \<le> g + unat wd)"

definition ack_chan :: "u32 \<Rightarrow> 'p packet list \<Rightarrow> nat list \<Rightarrow> nat \<Rightarrow> nat \<Rightarrow> bool" where
  "ack_chan sz ca ks sw ra \<longleftrightarrow>
     list_all2 (\<lambda>p k. unat (pack p) = (k + unat sz - 1) mod unat sz) ca ks \<and>
     sorted ks \<and> (\<forall>k\<in>set ks. sw \<le> k \<and> k \<le> ra)"

definition dir_inv :: "u32 \<Rightarrow> u32 \<Rightarrow> 'p arq \<Rightarrow> 'p arq \<Rightarrow> 'p packet list \<Rightarrow> 'p packet list \<Rightarrow>
    'p list \<Rightarrow> 'p list \<Rightarrow> bool" where
  "dir_inv sz wd a b cd ca sent rd \<longleftrightarrow>
     (\<exists>sw sp ra rhi gs ks. snd_inv sz wd a sw sp sent \<and> rcv_inv sz wd b ra rhi sent rd \<and>
        data_chan sz wd cd gs sp rhi sent \<and> ack_chan sz ca ks sw ra \<and> sw \<le> ra \<and> rhi \<le> sp)"

lemma dir_invI:
  "snd_inv sz wd a sw sp sent \<Longrightarrow> rcv_inv sz wd b ra rhi sent rd \<Longrightarrow>
   data_chan sz wd cd gs sp rhi sent \<Longrightarrow> ack_chan sz ca ks sw ra \<Longrightarrow> sw \<le> ra \<Longrightarrow> rhi \<le> sp \<Longrightarrow>
   dir_inv sz wd a b cd ca sent rd"
  unfolding dir_inv_def by blast

definition net_inv :: "u32 \<Rightarrow> u32 \<Rightarrow> 'p net \<Rightarrow> bool" where
  "net_inv sz wd n \<longleftrightarrow>
     dir_inv sz wd (left n) (right n) (chan_lr n) (chan_rl n) (sent_l n) (read_r n) \<and>
     dir_inv sz wd (right n) (left n) (chan_rl n) (chan_lr n) (sent_r n) (read_l n)"

lemma net_inv_swap [simp]: "net_inv sz wd (swap n) = net_inv sz wd n"
  by (auto simp: net_inv_def swap_def)

text \<open>Losing and duplicating packets.\<close>

lemma list_all2_split:
  "list_all2 P (xs @ p # ys) zs \<longleftrightarrow>
   (\<exists>us g vs. zs = us @ g # vs \<and> list_all2 P xs us \<and> P p g \<and> list_all2 P ys vs)"
proof
  assume "list_all2 P (xs @ p # ys) zs"
  then show "\<exists>us g vs. zs = us @ g # vs \<and> list_all2 P xs us \<and> P p g \<and> list_all2 P ys vs"
    by (auto simp: list_all2_append1 list_all2_Cons1)
next
  assume "\<exists>us g vs. zs = us @ g # vs \<and> list_all2 P xs us \<and> P p g \<and> list_all2 P ys vs"
  then show "list_all2 P (xs @ p # ys) zs"
    by (auto intro: list_all2_appendI)
qed

lemma data_chan_lose:
  assumes "data_chan sz wd (xs @ p # ys) gs sp rhi sent"
  shows "\<exists>gs. data_chan sz wd (xs @ ys) gs sp rhi sent"
proof (cases "seqvalid p")
  case True
  then obtain us g vs where "gs = us @ g # vs"
    "list_all2 (\<lambda>p g. unat (pseq p) = g mod unat sz \<and> pdata p = sent ! g) (filter seqvalid xs) us"
    "list_all2 (\<lambda>p g. unat (pseq p) = g mod unat sz \<and> pdata p = sent ! g) (filter seqvalid ys) vs"
    using assms by (auto simp: data_chan_def list_all2_split)
  then show ?thesis
    using assms by (intro exI [of _ "us @ vs"])
      (auto simp: data_chan_def sorted_wrt_append intro: list_all2_appendI)
next
  case False
  then show ?thesis using assms by (auto simp: data_chan_def)
qed

lemma data_chan_duplicate:
  assumes "data_chan sz wd (xs @ p # ys) gs sp rhi sent" and "0 < unat wd"
  shows "\<exists>gs. data_chan sz wd (xs @ p # p # ys) gs sp rhi sent"
proof (cases "seqvalid p")
  case True
  then obtain us g vs where "gs = us @ g # vs"
    "list_all2 (\<lambda>p g. unat (pseq p) = g mod unat sz \<and> pdata p = sent ! g) (filter seqvalid xs) us"
    "list_all2 (\<lambda>p g. unat (pseq p) = g mod unat sz \<and> pdata p = sent ! g) (filter seqvalid ys) vs"
    "unat (pseq p) = g mod unat sz \<and> pdata p = sent ! g"
    using assms by (auto simp: data_chan_def list_all2_split)
  then show ?thesis
    using assms True by (intro exI [of _ "us @ g # g # vs"])
      (auto simp: data_chan_def sorted_wrt_append intro: list_all2_appendI)
next
  case False
  then show ?thesis using assms by (auto simp: data_chan_def)
qed

lemma ack_chan_lose:
  assumes "ack_chan sz (xs @ p # ys) ks sw ra"
  shows "\<exists>ks. ack_chan sz (xs @ ys) ks sw ra"
proof -
  obtain us g vs where "ks = us @ g # vs"
    "list_all2 (\<lambda>p k. unat (pack p) = (k + unat sz - 1) mod unat sz) xs us"
    "list_all2 (\<lambda>p k. unat (pack p) = (k + unat sz - 1) mod unat sz) ys vs"
    using assms by (auto simp: ack_chan_def list_all2_split)
  then show ?thesis
    using assms by (intro exI [of _ "us @ vs"])
      (auto simp: ack_chan_def sorted_append intro: list_all2_appendI)
qed

lemma ack_chan_duplicate:
  assumes "ack_chan sz (xs @ p # ys) ks sw ra"
  shows "\<exists>ks. ack_chan sz (xs @ p # p # ys) ks sw ra"
proof -
  obtain us g vs where "ks = us @ g # vs"
    "list_all2 (\<lambda>p k. unat (pack p) = (k + unat sz - 1) mod unat sz) xs us"
    "list_all2 (\<lambda>p k. unat (pack p) = (k + unat sz - 1) mod unat sz) ys vs"
    "unat (pack p) = (g + unat sz - 1) mod unat sz"
    using assms by (auto simp: ack_chan_def list_all2_split)
  then show ?thesis
    using assms by (intro exI [of _ "us @ g # g # vs"])
      (auto simp: ack_chan_def sorted_append intro: list_all2_appendI)
qed

subsection \<open>The operations keep the invariant of a direction\<close>

lemma GetSendData_frame:
  "recbuf (snd (GetSendData b)) = recbuf b" "recvalids (snd (GetSendData b)) = recvalids b"
  "recwndpos (snd (GetSendData b)) = recwndpos b" "recackpos (snd (GetSendData b)) = recackpos b"
  "SEQ_S (snd (GetSendData b)) = SEQ_S b" "WND_S (snd (GetSendData b)) = WND_S b"
  "sendbuf (snd (GetSendData b)) = sendbuf b"
  by (simp_all add: GetSendData_def sent_one_def Let_def)

lemma GetSendData_pack: "fst (GetSendData b) = Some p \<Longrightarrow> pack p = recackpos b"
  by (auto simp: GetSendData_def mk_packet_def Let_def split: if_splits)

lemma Send_frame:
  "recbuf (snd (Send p b)) = recbuf b" "recvalids (snd (Send p b)) = recvalids b"
  "recwndpos (snd (Send p b)) = recwndpos b" "recackpos (snd (Send p b)) = recackpos b"
  "SEQ_S (snd (Send p b)) = SEQ_S b" "WND_S (snd (Send p b)) = WND_S b"
  "length (sendbuf (snd (Send p b))) = length (sendbuf b)"
  by (simp_all add: Send_def)

lemma receive_ack_frame:
  "recbuf (receive_ack p b) = recbuf b" "recvalids (receive_ack p b) = recvalids b"
  "recwndpos (receive_ack p b) = recwndpos b" "recackpos (receive_ack p b) = recackpos b"
  "SEQ_S (receive_ack p b) = SEQ_S b" "WND_S (receive_ack p b) = WND_S b"
  "sendbuf (receive_ack p b) = sendbuf b"
  by (simp_all add: receive_ack_def Let_def)

lemma ack_advance_frame:
  assumes "ack_advance b = Some c"
  shows "\<exists>q. c = b\<lparr>recackpos := q\<rparr>"
proof (rule while_option_rule [where P = "\<lambda>c. \<exists>q. c = b\<lparr>recackpos := q\<rparr>"])
  show "while_option ack_more ack_step b = Some c" using assms by (simp add: ack_advance_def)
  show "\<exists>q. b = b\<lparr>recackpos := q\<rparr>" by (rule exI [of _ "recackpos b"]) simp
qed (auto simp: ack_step_def)

lemma receive_data_frame:
  assumes "receive_data p b = Some c"
  shows "sendbuf c = sendbuf b" "seqpos c = seqpos b" "wndpos c = wndpos b" "sendpos c = sendpos b"
    "SendTimer c = SendTimer b" "SEQ_S c = SEQ_S b" "WND_S c = WND_S b"
    "length (recbuf c) = length (recbuf b)" "length (recvalids c) = length (recvalids b)"
  using assms by (auto simp: receive_data_def split: if_splits dest!: ack_advance_frame)

lemma Read_frame:
  assumes "Read b = Some (x, c)"
  shows "sendbuf c = sendbuf b" "seqpos c = seqpos b" "wndpos c = wndpos b" "sendpos c = sendpos b"
    "SendTimer c = SendTimer b" "SEQ_S c = SEQ_S b" "WND_S c = WND_S b"
    "length (recbuf c) = length (recbuf b)" "length (recvalids c) = length (recvalids b)"
  using assms by (auto simp: Read_def split: if_splits)

lemma rcv_inv_more_sent: "rcv_inv sz wd b ra rhi sent rd \<Longrightarrow> rcv_inv sz wd b ra rhi (sent @ [p]) rd"
proof -
  assume inv: "rcv_inv sz wd b ra rhi sent rd"
  have "(sent @ [p]) ! i = sent ! i" if "i < rhi" for i
    using inv that by (simp add: rcv_inv_def nth_append)
  then show ?thesis
    using inv by (simp add: rcv_inv_def)
qed

lemma data_chan_more_sent:
  "data_chan sz wd cd gs sp rhi sent \<Longrightarrow> sp \<le> length sent \<Longrightarrow>
   data_chan sz wd cd gs sp rhi (sent @ [p])"
  unfolding data_chan_def
  by (elim conjE, intro conjI; (erule list.rel_mono_strong)?)
    (auto simp: nth_append dest: less_le_trans)

context arq_sizes
begin

lemma dir_send:
  assumes "dir_inv sz wd a b cd ca sent rd"
  shows "dir_inv sz wd (snd (Send p a)) b cd ca
    (if fst (Send p a) = 1 then sent @ [p] else sent) rd"
proof -
  obtain sw sp ra rhi gs ks where inv: "snd_inv sz wd a sw sp sent" "rcv_inv sz wd b ra rhi sent rd"
    "data_chan sz wd cd gs sp rhi sent" "ack_chan sz ca ks sw ra" "sw \<le> ra" "rhi \<le> sp"
    using assms by (auto simp: dir_inv_def)
  have len: "sp \<le> length sent" using inv(1) by (simp add: snd_inv_def)
  show ?thesis
    using Send_snd [OF inv(1), of p] dir_invI [OF inv]
      dir_invI [OF _ rcv_inv_more_sent [OF inv(2)] data_chan_more_sent [OF inv(3) len] inv(4,5,6)]
    by (auto split: if_splits)
qed

lemma dir_getsend_snd:
  assumes "dir_inv sz wd a b cd ca sent rd"
  shows "dir_inv sz wd (snd (GetSendData a)) b
    (cd @ (case fst (GetSendData a) of None \<Rightarrow> [] | Some p \<Rightarrow> [p])) ca sent rd"
proof -
  obtain sw sp ra rhi gs ks where inv: "snd_inv sz wd a sw sp sent" "rcv_inv sz wd b ra rhi sent rd"
    "data_chan sz wd cd gs sp rhi sent" "ack_chan sz ca ks sw ra" "sw \<le> ra" "rhi \<le> sp"
    using assms by (auto simp: dir_inv_def)
  have win: "sw \<le> sp" "sp \<le> sw + unat wd" using inv(1) by (auto simp: snd_inv_def)
  have gs: "g < sp" "rhi \<le> g + unat wd" if "g \<in> set gs" for g
    using inv(3) that by (auto simp: data_chan_def)
  show ?thesis
    using inv(1)
  proof (cases rule: GetSendData_snd)
    case (resend p)
    have "data_chan sz wd (cd @ [p]) (gs @ [sw]) sp rhi sent"
      using inv(3,6) win resend gs
      by (auto simp: data_chan_def sorted_wrt_append intro!: list_all2_appendI dest: gs(1))
    then show ?thesis
      using resend inv by (auto intro: dir_invI)
  next
    case (new p)
    have "data_chan sz wd (cd @ [p]) (gs @ [sp]) (Suc sp) rhi sent"
      using inv(3,6) win new gs wd_pos
      by (auto simp: data_chan_def sorted_wrt_append less_SucI trans_less_add1 trans_le_add1
          intro!: list_all2_appendI)
    then show ?thesis
      using new inv by (auto intro: dir_invI)
  next
    case (bare p)
    have "data_chan sz wd (cd @ [p]) gs sp rhi sent"
      using inv(3) bare by (simp add: data_chan_def)
    then show ?thesis
      using bare inv by (auto intro: dir_invI)
  next
    case idle
    then show ?thesis using inv by (auto intro: dir_invI)
  qed
qed

lemma dir_getsend_rcv:
  assumes "dir_inv sz wd a b cd ca sent rd"
  shows "dir_inv sz wd a (snd (GetSendData b)) cd
    (ca @ (case fst (GetSendData b) of None \<Rightarrow> [] | Some p \<Rightarrow> [p])) sent rd"
proof -
  obtain sw sp ra rhi gs ks where inv: "snd_inv sz wd a sw sp sent" "rcv_inv sz wd b ra rhi sent rd"
    "data_chan sz wd cd gs sp rhi sent" "ack_chan sz ca ks sw ra" "sw \<le> ra" "rhi \<le> sp"
    using assms by (auto simp: dir_inv_def)
  have keep: "rcv_inv sz wd (snd (GetSendData b)) ra rhi sent rd"
    by (rule rcv_inv_cong [OF inv(2)]) (simp_all add: GetSendData_frame)
  show ?thesis
  proof (cases "fst (GetSendData b)")
    case None
    then show ?thesis using keep inv by (auto intro: dir_invI)
  next
    case (Some p)
    have "ack_chan sz (ca @ [p]) (ks @ [ra]) sw ra"
      using inv(2,4,5) GetSendData_pack [OF Some]
      by (auto simp: ack_chan_def rcv_inv_def sorted_append intro!: list_all2_appendI)
    then show ?thesis using Some keep inv by (auto intro: dir_invI)
  qed
qed

lemma dir_receive_rcv:
  assumes "dir_inv sz wd a b (p # cd) ca sent rd"
  obtains c where "Receive p b = Some c" "dir_inv sz wd a c cd ca sent rd"
proof -
  obtain sw sp ra rhi gs ks where inv: "snd_inv sz wd a sw sp sent" "rcv_inv sz wd b ra rhi sent rd"
    "data_chan sz wd (p # cd) gs sp rhi sent" "ack_chan sz ca ks sw ra" "sw \<le> ra" "rhi \<le> sp"
    using assms by (auto simp: dir_inv_def)
  let ?b = "b\<lparr>rx_pck_num := rx_pck_num b + 1\<rparr>"
  have inv': "rcv_inv sz wd ?b ra rhi sent rd"
    by (rule rcv_inv_cong [OF inv(2)]) simp_all
  have ack: "rcv_inv sz wd (receive_ack p c) r h sent rd" if "rcv_inv sz wd c r h sent rd" for c r h
    by (rule rcv_inv_cong [OF that]) (simp_all add: receive_ack_frame)
  show thesis
  proof (cases "seqvalid p")
    case False
    then have "Receive p b = Some (receive_ack p ?b)"
      by (simp add: Receive_def receive_data_def)
    moreover have "data_chan sz wd cd gs sp rhi sent"
      using inv(3) False by (simp add: data_chan_def)
    ultimately show thesis using that ack [OF inv'] inv by (auto intro: dir_invI)
  next
    case True
    obtain g gs' where gs: "gs = g # gs'" "unat (pseq p) = g mod unat sz" "pdata p = sent ! g"
      "g < sp" "rhi \<le> g + unat wd" "\<And>h. h \<in> set gs' \<Longrightarrow> g < h + unat wd"
      "data_chan sz wd cd gs' sp rhi sent"
      using inv(3) True by (cases gs) (auto simp: data_chan_def)
    have win: "sp \<le> length sent" "length sent \<le> sw + unat wd" "ra \<le> rhi" "length rd \<le> ra"
      "rhi \<le> length rd + unat wd"
      using inv(1,2) by (auto simp: snd_inv_def rcv_inv_def)
    have b: "g < length sent" "g < length rd + 2 * unat wd" "length rd \<le> g + unat wd"
      using win gs(4,5) inv(5) by linarith+
    from inv' True gs(2,3) b show thesis
    proof (cases rule: receive_data_rcv)
      case (1 c r)
      have "data_chan sz wd cd gs' sp (max rhi (Suc g)) sent"
        using gs(6,7) by (auto simp: data_chan_def Suc_le_eq)
      moreover have "ack_chan sz ca ks sw r"
        using inv(4) 1(2) by (auto simp: ack_chan_def)
      moreover have "Receive p b = Some (receive_ack p c)"
        using 1(1) by (simp add: Receive_def)
      moreover have "sw \<le> r" "max rhi (Suc g) \<le> sp"
        using inv(5,6) 1(2) gs(4) by auto
      ultimately show thesis
        using that dir_invI [OF inv(1) ack [OF 1(4)]] by blast
    next
      case (dropped c)
      moreover have "Receive p b = Some (receive_ack p c)"
        using dropped(1) by (simp add: Receive_def)
      ultimately show thesis
        using that ack [OF dropped(2)] gs(7) inv by (auto intro: dir_invI)
    qed
  qed
qed

lemma dir_receive_snd:
  assumes "dir_inv sz wd a b cd (p # ca) sent rd" and "Receive p a = Some c"
  shows "dir_inv sz wd c b cd ca sent rd"
proof -
  obtain sw sp ra rhi gs ks where inv: "snd_inv sz wd a sw sp sent" "rcv_inv sz wd b ra rhi sent rd"
    "data_chan sz wd cd gs sp rhi sent" "ack_chan sz (p # ca) ks sw ra" "sw \<le> ra" "rhi \<le> sp"
    using assms by (auto simp: dir_inv_def)
  obtain d where d: "receive_data p (a\<lparr>rx_pck_num := rx_pck_num a + 1\<rparr>) = Some d" "c = receive_ack p d"
    using assms(2) by (auto simp: Receive_def)
  have "snd_inv sz wd d sw sp sent"
    by (rule snd_inv_cong [OF inv(1)]) (simp_all add: receive_data_frame [OF d(1)])
  moreover obtain k ks' where k: "ks = k # ks'" "unat (pack p) = (k + unat sz - 1) mod unat sz"
    "sw \<le> k" "k \<le> ra" "ack_chan sz ca ks' k ra"
    using inv(4) by (cases ks) (auto simp: ack_chan_def)
  ultimately have "snd_inv sz wd c k sp sent"
    using receive_ack_snd [of d sw sp sent p k] d(2) inv(2,6) by (auto simp: rcv_inv_def)
  then show ?thesis
    using k inv by (auto intro: dir_invI)
qed

lemma dir_read_rcv:
  assumes "dir_inv sz wd a b cd ca sent rd" and "Read b = Some (x, c)"
  shows "dir_inv sz wd a c cd ca sent (rd @ [x])"
proof -
  obtain sw sp ra rhi gs ks where inv: "snd_inv sz wd a sw sp sent" "rcv_inv sz wd b ra rhi sent rd"
    "data_chan sz wd cd gs sp rhi sent" "ack_chan sz ca ks sw ra" "sw \<le> ra" "rhi \<le> sp"
    using assms by (auto simp: dir_inv_def)
  then show ?thesis
    using Read_rcv(3) [OF inv(2) assms(2)] by (auto intro: dir_invI)
qed

lemma dir_snd_cong:
  assumes "dir_inv sz wd a b cd ca sent rd" and "\<And>sw sp. snd_inv sz wd a sw sp sent \<Longrightarrow> snd_inv sz wd c sw sp sent"
  shows "dir_inv sz wd c b cd ca sent rd"
  using assms unfolding dir_inv_def by blast

lemma dir_rcv_cong:
  assumes "dir_inv sz wd a b cd ca sent rd" and "\<And>ra rhi. rcv_inv sz wd b ra rhi sent rd \<Longrightarrow> rcv_inv sz wd c ra rhi sent rd"
  shows "dir_inv sz wd a c cd ca sent rd"
  using assms unfolding dir_inv_def by blast

lemma dir_data_lose: "dir_inv sz wd a b (xs @ p # ys) ca sent rd \<Longrightarrow> dir_inv sz wd a b (xs @ ys) ca sent rd"
  unfolding dir_inv_def by (metis data_chan_lose)

lemma dir_ack_lose: "dir_inv sz wd a b cd (xs @ p # ys) sent rd \<Longrightarrow> dir_inv sz wd a b cd (xs @ ys) sent rd"
  unfolding dir_inv_def by (metis ack_chan_lose)

lemma dir_data_duplicate:
  "dir_inv sz wd a b (xs @ p # ys) ca sent rd \<Longrightarrow> dir_inv sz wd a b (xs @ p # p # ys) ca sent rd"
  unfolding dir_inv_def using data_chan_duplicate wd_pos by metis

lemma dir_ack_duplicate:
  "dir_inv sz wd a b cd (xs @ p # ys) sent rd \<Longrightarrow> dir_inv sz wd a b cd (xs @ p # p # ys) sent rd"
  unfolding dir_inv_def by (metis ack_chan_duplicate)

lemma net_left_cong:
  assumes "net_inv sz wd n"
    and "\<And>sw sp. snd_inv sz wd (left n) sw sp (sent_l n) \<Longrightarrow> snd_inv sz wd a sw sp (sent_l n)"
    and "\<And>ra rhi. rcv_inv sz wd (left n) ra rhi (sent_r n) (read_l n) \<Longrightarrow>
      rcv_inv sz wd a ra rhi (sent_r n) (read_l n)"
  shows "net_inv sz wd (n\<lparr>left := a\<rparr>)"
  using assms dir_snd_cong dir_rcv_cong by (simp add: net_inv_def) blast

lemma step_inv:
  assumes "step n n'" and "net_inv sz wd n"
  shows "net_inv sz wd n'"
  using assms
proof (cases rule: step.cases)
  case (send p r a)
  have eq: "r = fst (Send p (left n))" "a = snd (Send p (left n))" using send by simp_all
  have "dir_inv sz wd (right n) a (chan_rl n) (chan_lr n) (sent_r n) (read_l n)"
    using assms(2) unfolding net_inv_def eq
    by (elim conjE dir_rcv_cong) (rule rcv_inv_cong, simp_all add: Send_frame)
  then show ?thesis
    using assms(2) send(1) eq dir_send [of "left n" _ _ _ _ _ p] by (simp add: net_inv_def)
next
  case (getsend q a)
  have eq: "q = fst (GetSendData (left n))" "a = snd (GetSendData (left n))"
    using getsend by simp_all
  show ?thesis
    using assms(2) getsend(1) eq dir_getsend_snd [of "left n"] dir_getsend_rcv [of "right n" "left n"]
    by (simp add: net_inv_def)
next
  case (receive p ps a)
  have "dir_inv sz wd (right n) (left n) (p # ps) (chan_lr n) (sent_r n) (read_l n)"
    using assms(2) receive(2) by (simp add: net_inv_def)
  then obtain c where "Receive p (left n) = Some c"
    "dir_inv sz wd (right n) c ps (chan_lr n) (sent_r n) (read_l n)"
    by (rule dir_receive_rcv)
  moreover have "dir_inv sz wd a (right n) (chan_lr n) ps (sent_l n) (read_r n)"
    by (rule dir_receive_snd) (use assms(2) receive(2,3) in \<open>simp_all add: net_inv_def\<close>)
  ultimately show ?thesis using receive by (simp add: net_inv_def)
next
  case (read x a)
  have "dir_inv sz wd a (right n) (chan_lr n) (chan_rl n) (sent_l n) (read_r n)"
    using assms(2) unfolding net_inv_def
    by (elim conjE dir_snd_cong) (rule snd_inv_cong, simp_all add: Read_frame [OF read(2)])
  then show ?thesis
    using assms(2) read dir_read_rcv [OF _ read(2)] by (simp add: net_inv_def)
next
  case tick
  have "net_inv sz wd (n\<lparr>left := arq_Tick (left n)\<rparr>)"
    by (rule net_left_cong [OF assms(2)]; rule snd_inv_cong rcv_inv_cong)
      (simp_all add: arq_Tick_def)
  then show ?thesis using tick by simp
next
  case (timeouts tx rx)
  have "net_inv sz wd (n\<lparr>left := SetTimeouts tx rx (left n)\<rparr>)"
    by (rule net_left_cong [OF assms(2)]; rule snd_inv_cong rcv_inv_cong)
      (simp_all add: SetTimeouts_def)
  then show ?thesis using timeouts by simp
next
  case stats
  have "net_inv sz wd (n\<lparr>left := ClearStats (left n)\<rparr>)"
    by (rule net_left_cong [OF assms(2)]; rule snd_inv_cong rcv_inv_cong)
      (simp_all add: ClearStats_def)
  then show ?thesis using stats by simp
next
  case (lose xs p ys)
  then show ?thesis using assms(2) by (auto simp: net_inv_def dest: dir_data_lose dir_ack_lose)
next
  case (duplicate xs p ys)
  then show ?thesis
    using assms(2) by (auto simp: net_inv_def dest: dir_data_duplicate dir_ack_duplicate)
qed

lemma new_inv:
  "snd_inv sz wd (ARQ_new m d t sz wd st rt) 0 0 []"
  "rcv_inv sz wd (ARQ_new m d t sz wd st rt) 0 0 [] []"
proof -
  show "snd_inv sz wd (ARQ_new m d t sz wd st rt) 0 0 []"
    using wd_pos by (simp add: ARQ_new_def Reset_def snd_inv_def well_sized_def)
  have "unat (sz - 1) = unat sz - 1"
    using sz_pos by (simp add: unat_minus_one word_neq_0_conv word_less_nat_alt)
  then show "rcv_inv sz wd (ARQ_new m d t sz wd st rt) 0 0 [] []"
    using wd_pos sz_pos by (simp add: ARQ_new_def Reset_def rcv_inv_def well_sized_def)
qed

lemma reach_inv: "reach sz wd n \<Longrightarrow> net_inv sz wd n"
proof (induction rule: reach.induct)
  case (start n m d t st rt m' d' t' st' rt')
  then show ?case
    using new_inv by (auto simp: net_inv_def data_chan_def ack_chan_def
        intro!: dir_invI [of sz wd _ 0 0 _ _ 0 0 _ _ "[]" _ "[]"])
next
  case (left n n')
  then show ?case using step_inv by blast
next
  case (right n n')
  then show ?case using step_inv [of "swap n" n'] by simp
qed

lemma dir_read_prefix: "dir_inv sz wd a b cd ca sent rd \<Longrightarrow> prefix rd sent"
  unfolding dir_inv_def rcv_inv_def using take_is_prefix by metis

lemma reach_prefix:
  assumes "reach sz wd n"
  shows "prefix (read_r n) (sent_l n)" "prefix (read_l n) (sent_r n)"
  using reach_inv [OF assms] by (auto simp: net_inv_def intro: dir_read_prefix)

end

end
