(* ===== verification/Arq_Props.thy ===== *)
theory Arq_Props
  imports Arq_Net
begin

text \<open>
  What the ARQ promises its users, as properties of every reachable state of two endpoints;
  the pipe interface that the layers above rely on, interpreted on the protocol with the
  window sizes of the link layer (\<open>linklayer.h\<close>: 64 sequence numbers, 16 slots); and what
  happens to an endpoint whose ack got lost.
\<close>

subsection \<open>Safety of the protocol\<close>

text \<open>Claim C1: whatever the channels lose or duplicate and however the calls, ticks and
  deliveries interleave, each side has read a prefix of what the other side's \<open>Send\<close> accepted:
  nothing is lost, repeated, reordered or altered.\<close>

theorem arq_delivers_in_order:
  assumes "arq_sizes sz wd" and "reach sz wd n"
  shows "prefix (read_r n) (sent_l n) \<and> prefix (read_l n) (sent_r n)"
  using arq_sizes.reach_prefix [OF assms] by simp

lemma arq_sizes_4_2: "arq_sizes 4 2"
  by unfold_locales simp_all

definition arq_blank :: "nat arq" where
  "arq_blank = \<lparr>tagid = 0, SEQ_S = 0, WND_S = 0, sendbuf = [], seqpos = 0, wndpos = 0, sendpos = 0,
     SendTimer = Timer_new 0 0, recbuf = [], recvalids = [], recwndpos = 0, recackpos = 0,
     RecvTimer = Timer_new 0 0, tx_timeout_num = 0, rx_timeout_num = 0, rx_pck_num = 0,
     tx_pck_num = 0, rx_drop_num = 0\<rparr>"

definition net_new :: "nat net" where
  "net_new = (let a = ARQ_new arq_blank 0 0 4 2 0 0 in
     \<lparr>left = a, right = a, chan_lr = [], chan_rl = [], sent_l = [], read_l = [], sent_r = [], read_r = []\<rparr>)"

definition do_send :: "nat \<Rightarrow> nat net \<Rightarrow> nat net" where
  "do_send p n = (case Send p (left n) of (r, a) \<Rightarrow>
     n\<lparr>left := a, sent_l := (if r = 1 then sent_l n @ [p] else sent_l n)\<rparr>)"

definition do_getsend :: "nat net \<Rightarrow> nat net" where
  "do_getsend n = (case GetSendData (left n) of (q, a) \<Rightarrow>
     n\<lparr>left := a, chan_lr := chan_lr n @ (case q of None \<Rightarrow> [] | Some p \<Rightarrow> [p])\<rparr>)"

definition do_receive :: "nat net \<Rightarrow> nat net" where
  "do_receive n = (case chan_rl n of [] \<Rightarrow> n | p # ps \<Rightarrow>
     (case Receive p (left n) of None \<Rightarrow> n | Some a \<Rightarrow> n\<lparr>left := a, chan_rl := ps\<rparr>))"

definition do_read :: "nat net \<Rightarrow> nat net" where
  "do_read n = (case Read (left n) of None \<Rightarrow> n | Some (x, a) \<Rightarrow> n\<lparr>left := a, read_l := read_l n @ [x]\<rparr>)"

definition do_tick :: "nat net \<Rightarrow> nat net" where
  "do_tick n = n\<lparr>left := arq_Tick (left n)\<rparr>"

lemma reach_new: "reach 4 2 net_new"
  by (rule reach.start [of _ arq_blank 0 0 _ _ 0 0 arq_blank 0 0 0 0]) (simp_all add: net_new_def Let_def)

lemma reach_do:
  assumes "reach sz wd n"
  shows "reach sz wd (do_send p n)" "reach sz wd (do_getsend n)" "reach sz wd (do_tick n)"
    "reach sz wd (do_receive n)" "reach sz wd (do_read n)"
    "reach sz wd (swap (do_send p (swap n)))" "reach sz wd (swap (do_getsend (swap n)))"
    "reach sz wd (swap (do_tick (swap n)))" "reach sz wd (swap (do_receive (swap n)))"
    "reach sz wd (swap (do_read (swap n)))"
proof -
  have s: "step m (do_send p m)" "step m (do_getsend m)" "step m (do_tick m)" for m
    using step.send [of p m "fst (Send p (left m))" "snd (Send p (left m))"]
    by (auto simp: do_send_def do_getsend_def do_tick_def case_prod_beta intro: step.intros)
  have r: "do_receive m = m \<or> step m (do_receive m)" "do_read m = m \<or> step m (do_read m)" for m
    by (auto simp: do_receive_def do_read_def split: list.split option.split prod.split
        intro: step.intros)
  have sw: "swap (swap n) = n" by (simp add: swap_def)
  show "reach sz wd (do_send p n)" "reach sz wd (do_getsend n)" "reach sz wd (do_tick n)"
    using reach.left [OF assms] s by blast+
  show "reach sz wd (do_receive n)" "reach sz wd (do_read n)"
    using reach.left [OF assms] assms r by metis+
  show "reach sz wd (swap (do_send p (swap n)))" "reach sz wd (swap (do_getsend (swap n)))"
    "reach sz wd (swap (do_tick (swap n)))"
    using reach.right [OF assms] s by blast+
  show "reach sz wd (swap (do_receive (swap n)))" "reach sz wd (swap (do_read (swap n)))"
    using reach.right [OF assms] assms r sw by metis+
qed

text \<open>A run: two packets sent, the first lost in the channel and sent again after the timeout.\<close>

definition right_do :: "(nat net \<Rightarrow> nat net) \<Rightarrow> nat net \<Rightarrow> nat net" where
  "right_do f n = swap (f (swap n))"

lemmas run_defs = right_do_def do_send_def do_getsend_def do_receive_def do_read_def do_tick_def
  net_new_def arq_blank_def

definition run1 :: "nat net" where
  "run1 = right_do do_read (right_do do_receive (do_getsend (do_send 7 net_new)))"

lemma run1_reach: "reach 4 2 run1"
  unfolding run1_def right_do_def by (intro reach_do reach_new)

lemma run1_eval: "read_r run1 = [7] \<and> sent_l run1 = [7] \<and> wndpos (left run1) \<noteq> sendpos (left run1)"
  by code_simp

theorem arq_delivers_in_order_witness:
  "prefix (read_r run1) (sent_l run1) \<and> read_r run1 = [7]"
  using arq_delivers_in_order [OF arq_sizes_4_2 run1_reach] run1_eval by simp

text \<open>Claim C2: \<open>Receive\<close> returns in every reachable state: the loop that moves the ack
  position ends for every packet that can arrive.\<close>

theorem arq_receive_returns:
  assumes "arq_sizes sz wd" and "reach sz wd n" and "chan_rl n = p # ps"
  shows "\<exists>a. Receive p (left n) = Some a"
proof -
  have "net_inv sz wd n" using arq_sizes.reach_inv [OF assms(1,2)] .
  then show ?thesis
    using assms(3) arq_sizes.dir_receive_rcv [OF assms(1)] by (metis net_inv_def)
qed

definition run2 :: "nat net" where
  "run2 = right_do do_getsend (right_do (do_send 7) net_new)"

lemma run2_reach: "reach 4 2 run2"
  unfolding run2_def right_do_def by (intro reach_do reach_new)

lemma run2_eval: "chan_rl run2 = [mk_packet 0 True 0 3 7]"
  by code_simp

theorem arq_receive_returns_witness: "\<exists>a. Receive (mk_packet 0 True 0 3 7) (left run2) = Some a"
  using arq_receive_returns [OF arq_sizes_4_2 run2_reach run2_eval] .

lemma arq_halves:
  assumes "arq_sizes sz wd" and "reach sz wd n"
  obtains sw sp ra rhi where "snd_inv sz wd (left n) sw sp (sent_l n)"
    "rcv_inv sz wd (right n) ra rhi (sent_l n) (read_r n)" "sw \<le> ra" "rhi \<le> sp"
  using arq_sizes.reach_inv [OF assms] by (auto simp: net_inv_def dir_inv_def)

text \<open>Claim C3: the acknowledged packets have arrived. Once \<open>SendDone\<close> holds, everything sent is
  read or waits, complete and in order, in the other side's buffer; so the other side either
  has read it all or has read data.\<close>

theorem arq_send_done:
  assumes "arq_sizes sz wd" and "reach sz wd n" and "SendDone (left n)"
  shows "(read_r n = sent_l n \<or> HasReadData (right n)) \<and>
    length (sent_l n) \<le> length (read_r n) + unat wd"
proof -
  obtain sw sp ra rhi where inv: "snd_inv sz wd (left n) sw sp (sent_l n)"
    "rcv_inv sz wd (right n) ra rhi (sent_l n) (read_r n)" "sw \<le> ra" "rhi \<le> sp"
    by (rule arq_halves [OF assms(1,2)])
  have "length (sent_l n) = ra"
    using arq_sizes.SendDone_iff [OF assms(1) inv(1)] assms(3) inv by (simp add: snd_inv_def rcv_inv_def)
  moreover have "read_r n = take (length (read_r n)) (sent_l n)"
    using inv(2) by (simp add: rcv_inv_def)
  ultimately show ?thesis
    using arq_sizes.HasReadData_iff [OF assms(1) inv(2)] inv(2)
    by (cases "length (read_r n) < ra") (auto simp: rcv_inv_def)
qed

text \<open>The ack comes back: everything sent is read and acknowledged.\<close>

definition run3 :: "nat net" where
  "run3 = do_receive (right_do do_getsend (right_do do_tick run1))"

lemma run3_reach: "reach 4 2 run3"
  unfolding run3_def right_do_def by (intro reach_do run1_reach)

lemma run3_eval: "SendDone (left run3) \<and> sent_l run3 = [7]"
  by code_simp

theorem arq_send_done_witness: "read_r run3 = [7] \<or> HasReadData (right run3)"
  using arq_send_done [OF arq_sizes_4_2 run3_reach] run3_eval by simp

text \<open>Claim C4: the send timer is active exactly while packets are out and unacknowledged, and when
  it has expired the next packet sent is the oldest unacknowledged one, with its data.\<close>

theorem arq_retransmits_oldest:
  assumes "arq_sizes sz wd" and "reach sz wd n"
  shows "active (SendTimer (left n)) = (wndpos (left n) \<noteq> sendpos (left n)) \<and>
    (timeout (SendTimer (left n)) \<longrightarrow>
      (\<exists>p. fst (GetSendData (left n)) = Some p \<and> seqvalid p \<and> pseq p = wndpos (left n) \<and>
        pdata p = sent_l n ! (length (sent_l n) - unat (send_valids (left n)))))"
proof -
  let ?a = "left n"
  obtain sw sp ra rhi where inv: "snd_inv sz wd ?a sw sp (sent_l n)"
    by (rule arq_halves [OF assms])
  have sw: "sw \<le> sp" "sp \<le> length (sent_l n)" "sp < sw + unat sz"
    using inv arq_sizes.wd_less [OF assms(1)] by (auto simp: snd_inv_def)
  have eq: "wndpos ?a = sendpos ?a \<longleftrightarrow> sw = sp"
    using arq_sizes.seq_eq_iff [OF assms(1), of "sendpos ?a" sp "wndpos ?a" sw] inv sw
    by (auto simp: snd_inv_def)
  have pos: "length (sent_l n) - unat (send_valids ?a) = sw"
    using arq_sizes.send_valids_count [OF assms(1) inv] sw by simp
  have re: "\<exists>p. fst (GetSendData ?a) = Some p \<and> seqvalid p \<and> pseq p = wndpos ?a \<and> pdata p = sent_l n ! sw"
    if t: "timeout (SendTimer ?a)"
  proof -
    have out: "sw < sp" using t inv by (simp add: snd_inv_def active_def)
    then have "seqpos ?a \<noteq> wndpos ?a"
      using arq_sizes.seqpos_eq_wndpos [OF assms(1) inv] sw by simp
    moreover have "sendbuf ?a ! slot ?a (wndpos ?a) = sent_l n ! sw"
      by (rule arq_sizes.sendbuf_at [OF assms(1) inv]) (use inv out sw in \<open>auto simp: snd_inv_def\<close>)
    ultimately show ?thesis
      using t by (simp add: GetSendData_def mk_packet_def slot_def)
  qed
  have "active (SendTimer ?a) = (sw < sp)" using inv by (simp add: snd_inv_def)
  then show ?thesis
    using re pos eq sw(1) by auto
qed

definition run4 :: "nat net" where
  "run4 = do_tick (do_getsend (do_send 5 run3))"

lemma run4_reach: "reach 4 2 run4"
  unfolding run4_def by (intro reach_do run3_reach)

lemma run4_eval: "timeout (SendTimer (left run4)) \<and> length (sent_l run4) = 2 \<and>
    unat (send_valids (left run4)) = 1 \<and> sent_l run4 = [7, 5] \<and> wndpos (left run4) = 1"
  by code_simp

theorem arq_retransmits_oldest_witness:
  "\<exists>p. fst (GetSendData (left run4)) = Some p \<and> seqvalid p \<and> pseq p = 1 \<and> pdata p = 5"
  using arq_retransmits_oldest [OF arq_sizes_4_2 run4_reach] run4_eval by simp

datatype 'p event = Put 'p | Got 'p | Internal

inductive fifo_step :: "nat \<Rightarrow> 'p list \<Rightarrow> 'p event \<Rightarrow> 'p list \<Rightarrow> bool" for cap where
  put: "length q < cap \<Longrightarrow> fifo_step cap q (Put x) (q @ [x])"
| got: "fifo_step cap (x # q) (Got x) q"
| internal: "fifo_step cap q Internal q"

definition content :: "'p net \<Rightarrow> 'p list" where
  "content n = drop (length (read_r n)) (sent_l n)"

fun event_put :: "'p event \<Rightarrow> 'p list" where
  "event_put (Put x) = [x]"
| "event_put _ = []"

fun event_got :: "'p event \<Rightarrow> 'p list" where
  "event_got (Got x) = [x]"
| "event_got _ = []"

lemma left_step_refines:
  assumes "arq_sizes sz wd" and "reach sz wd n" and "step n n'"
  shows "\<exists>e. fifo_step (2 * unat wd) (content n) e (content n') \<and>
    sent_l n' = sent_l n @ event_put e \<and> read_r n' = read_r n @ event_got e"
proof -
  have stay: ?thesis if "sent_l n' = sent_l n" "read_r n' = read_r n"
    using that fifo_step.internal by (intro exI [of _ Internal]) (simp add: content_def)
  show ?thesis
    using assms(3)
  proof (cases rule: step.cases)
    case (send p r a)
    obtain sw sp ra rhi where inv: "snd_inv sz wd (left n) sw sp (sent_l n)"
      "rcv_inv sz wd (right n) ra rhi (sent_l n) (read_r n)" "sw \<le> ra" "rhi \<le> sp"
      by (rule arq_halves [OF assms(1,2)])
    show ?thesis
    proof (cases "r = 1")
      case True
      then have "length (sent_l n) < sw + unat wd"
        using arq_sizes.Send_snd [OF assms(1) inv(1), of p] send(2) by (auto split: if_splits)
      then have "length (content n) < 2 * unat wd"
        using inv by (auto simp: content_def rcv_inv_def)
      moreover have "content n' = content n @ [p]"
        using send(1) True inv(2) by (simp add: content_def rcv_inv_def)
      ultimately show ?thesis
        using fifo_step.put send(1) True by (intro exI [of _ "Put p"]) simp
    qed (use stay send in simp)
  qed (use stay in simp_all)
qed

lemma right_step_refines:
  assumes "arq_sizes sz wd" and "reach sz wd n" and "step (swap n) m"
  shows "\<exists>e. fifo_step (2 * unat wd) (content n) e (content (swap m)) \<and>
    sent_l (swap m) = sent_l n @ event_put e \<and> read_r (swap m) = read_r n @ event_got e"
proof -
  have stay: ?thesis if "sent_l (swap m) = sent_l n" "read_r (swap m) = read_r n"
    using that fifo_step.internal by (intro exI [of _ Internal]) (simp add: content_def)
  show ?thesis
    using assms(3)
  proof (cases rule: step.cases)
    case (read x a)
    obtain sw sp ra rhi where inv: "rcv_inv sz wd (right n) ra rhi (sent_l n) (read_r n)"
      by (rule arq_halves [OF assms(1,2)])
    have got: "Read (right n) = Some (x, a)" using read(2) by (simp add: swap_def)
    have "length (read_r n) < length (sent_l n)" "x = sent_l n ! length (read_r n)"
      using arq_sizes.Read_rcv(1,2) [OF assms(1) inv got] inv by (auto simp: rcv_inv_def)
    then have "content n = x # content (swap m)"
      using read(1) by (simp add: content_def swap_def Cons_nth_drop_Suc)
    then show ?thesis
      using fifo_step.got read(1) by (intro exI [of _ "Got x"]) (simp add: swap_def)
  qed (use stay in \<open>simp_all add: swap_def\<close>)
qed

text \<open>Claim C5: seen from one user to the other, a direction of the protocol is a FIFO of at most
  twice the window: every step appends one accepted payload, hands over the oldest one, or
  leaves the content as it is.\<close>

theorem arq_refines_fifo:
  assumes "arq_sizes sz wd" and "reach sz wd n" and "step n n' \<or> (\<exists>m. step (swap n) m \<and> n' = swap m)"
  shows "\<exists>e. fifo_step (2 * unat wd) (content n) e (content n') \<and>
    sent_l n' = sent_l n @ event_put e \<and> read_r n' = read_r n @ event_got e"
  using assms left_step_refines right_step_refines by blast

theorem arq_refines_fifo_witness:
  "\<exists>e. fifo_step 4 (content run3) e (content (do_send 5 run3)) \<and>
    sent_l (do_send 5 run3) = sent_l run3 @ event_put e \<and> read_r (do_send 5 run3) = read_r run3 @ event_got e"
proof -
  have "step run3 (do_send 5 run3)"
    using step.send [of 5 run3 "fst (Send 5 (left run3))" "snd (Send 5 (left run3))"]
    by (simp add: do_send_def case_prod_beta)
  then show ?thesis
    using arq_refines_fifo [OF arq_sizes_4_2 run3_reach] by simp
qed

subsection \<open>The pipe interface of the layers above\<close>

text \<open>What a user of a link relies on: \<open>put\<close> accepts or refuses, \<open>get\<close> hands over the oldest
  content, the link's own activity changes nothing, and the content is bounded.\<close>

inductive pipe_run :: "('p \<Rightarrow> 's \<Rightarrow> bool \<times> 's) \<Rightarrow> ('s \<Rightarrow> ('p \<times> 's) option) \<Rightarrow> ('s \<Rightarrow> 's \<Rightarrow> bool) \<Rightarrow>
    's \<Rightarrow> 'p list \<Rightarrow> 'p list \<Rightarrow> 's \<Rightarrow> bool" for enq deq act where
  begin_run: "pipe_run enq deq act s [] [] s"
| put_run: "pipe_run enq deq act s ins outs t \<Longrightarrow> enq x t = (b, u) \<Longrightarrow>
     pipe_run enq deq act s (if b then ins @ [x] else ins) outs u"
| get_run: "pipe_run enq deq act s ins outs t \<Longrightarrow> deq t = Some (x, u) \<Longrightarrow>
     pipe_run enq deq act s ins (outs @ [x]) u"
| act_run: "pipe_run enq deq act s ins outs t \<Longrightarrow> act t u \<Longrightarrow> pipe_run enq deq act s ins outs u"

locale pipe =
  fixes ok :: "'s \<Rightarrow> bool"
    and enq :: "'p \<Rightarrow> 's \<Rightarrow> bool \<times> 's"
    and deq :: "'s \<Rightarrow> ('p \<times> 's) option"
    and act :: "'s \<Rightarrow> 's \<Rightarrow> bool"
    and held :: "'s \<Rightarrow> 'p list"
    and cap :: nat
  assumes enq_law: "ok s \<Longrightarrow> enq x s = (b, t) \<Longrightarrow> ok t \<and> held t = (if b then held s @ [x] else held s)"
    and deq_law: "ok s \<Longrightarrow> deq s = Some (x, t) \<Longrightarrow> ok t \<and> held s = x # held t"
    and act_law: "ok s \<Longrightarrow> act s t \<Longrightarrow> ok t \<and> held t = held s"
    and bounded: "ok s \<Longrightarrow> length (held s) \<le> cap"
begin

lemma run_content:
  assumes "pipe_run enq deq act s ins outs t" and "ok s"
  shows "ok t \<and> held s @ ins = outs @ held t"
  using assms
proof (induction rule: pipe_run.induct)
  case (put_run s ins outs t x b u)
  then show ?case using enq_law [of t x b u] by auto
next
  case (get_run s ins outs t x u)
  then show ?case using deq_law [of t x u] by auto
next
  case (act_run s ins outs t u)
  then show ?case using act_law [of t u] by auto
qed simp

lemma run_from_empty:
  assumes "pipe_run enq deq act s ins outs t" and "ok s" and "held s = []"
  shows "prefix outs ins \<and> length ins \<le> length outs + cap"
  using run_content [OF assms(1,2)] bounded [of t] assms(3) by auto

end

text \<open>The left-to-right direction of the protocol as such a pipe.\<close>

definition net_put :: "'p \<Rightarrow> 'p net \<Rightarrow> bool \<times> 'p net" where
  "net_put p n = (case Send p (left n) of (r, a) \<Rightarrow>
     (r = 1, n\<lparr>left := a, sent_l := (if r = 1 then sent_l n @ [p] else sent_l n)\<rparr>))"

definition net_get :: "'p net \<Rightarrow> ('p \<times> 'p net) option" where
  "net_get n = map_option (\<lambda>(x, a). (x, n\<lparr>right := a, read_r := read_r n @ [x]\<rparr>)) (Read (right n))"

text \<open>Any step of either endpoint or channel that is not one of these two calls.\<close>

definition net_act :: "'p net \<Rightarrow> 'p net \<Rightarrow> bool" where
  "net_act n n' \<longleftrightarrow> (step n n' \<or> (\<exists>m. step (swap n) m \<and> n' = swap m)) \<and>
     sent_l n' = sent_l n \<and> read_r n' = read_r n"

lemma content_bounded:
  assumes "arq_sizes sz wd" and "reach sz wd n"
  shows "length (content n) \<le> 2 * unat wd"
proof -
  obtain sw sp ra rhi where "snd_inv sz wd (left n) sw sp (sent_l n)"
    "rcv_inv sz wd (right n) ra rhi (sent_l n) (read_r n)" "sw \<le> ra" "rhi \<le> sp"
    by (rule arq_halves [OF assms])
  then show ?thesis by (auto simp: content_def snd_inv_def rcv_inv_def)
qed

lemma net_put_law:
  assumes "arq_sizes sz wd" and "reach sz wd n" and "net_put p n = (b, n')"
  shows "reach sz wd n' \<and> content n' = (if b then content n @ [p] else content n)"
proof -
  have n': "b = (fst (Send p (left n)) = 1)"
    "n' = n\<lparr>left := snd (Send p (left n)),
      sent_l := (if fst (Send p (left n)) = 1 then sent_l n @ [p] else sent_l n)\<rparr>"
    using assms(3) by (auto simp: net_put_def case_prod_beta)
  have "step n n'"
    unfolding n'(2) by (rule step.send) simp
  moreover obtain ra rhi where "rcv_inv sz wd (right n) ra rhi (sent_l n) (read_r n)"
    by (rule arq_halves [OF assms(1,2)])
  ultimately show ?thesis
    using n' reach.left [OF assms(2)] by (auto simp: content_def rcv_inv_def)
qed

lemma net_get_law:
  assumes "arq_sizes sz wd" and "reach sz wd n" and "net_get n = Some (x, n')"
  shows "reach sz wd n' \<and> content n = x # content n'"
proof -
  obtain a where a: "Read (right n) = Some (x, a)" "n' = n\<lparr>right := a, read_r := read_r n @ [x]\<rparr>"
    using assms(3) by (auto simp: net_get_def)
  have st: "step (swap n) (swap n')"
    using step.read [of "swap n" x a] a by (simp add: swap_def)
  obtain e where e: "fifo_step (2 * unat wd) (content n) e (content (swap (swap n')))"
    "read_r (swap (swap n')) = read_r n @ event_got e" "sent_l (swap (swap n')) = sent_l n @ event_put e"
    using right_step_refines [OF assms(1,2) st] by auto
  have ss: "swap (swap n') = n'" by (simp add: swap_def)
  have "e = Got x" using e(2) a ss by (cases e) auto
  then show ?thesis
    using e(1) ss reach.right [OF assms(2) st] by (auto elim: fifo_step.cases)
qed

lemma net_act_law:
  assumes "reach sz wd n" and "net_act n n'"
  shows "reach sz wd n' \<and> content n' = content n"
  using assms by (auto simp: net_act_def content_def intro: reach.left reach.right)

text \<open>The sizes of \<open>linklayer.h\<close>.\<close>

definition SEQ_SIZE :: u32 where "SEQ_SIZE = 64"
definition WND_SIZE :: u32 where "WND_SIZE = 16"
definition SEND_TIMEOUT :: u32 where "SEND_TIMEOUT = WND_SIZE * 2"
definition RECV_TIMEOUT :: u32 where "RECV_TIMEOUT = 0"

interpretation link_sizes: arq_sizes SEQ_SIZE WND_SIZE
  by unfold_locales (simp_all add: SEQ_SIZE_def WND_SIZE_def)

interpretation link_pipe: pipe "reach SEQ_SIZE WND_SIZE" net_put net_get net_act content 32
proof
  fix n t :: "'a net" and x b
  assume ok: "reach SEQ_SIZE WND_SIZE n"
  show "net_put x n = (b, t) \<Longrightarrow>
      reach SEQ_SIZE WND_SIZE t \<and> content t = (if b then content n @ [x] else content n)"
    by (rule net_put_law [OF link_sizes.arq_sizes_axioms ok])
  show "net_get n = Some (x, t) \<Longrightarrow> reach SEQ_SIZE WND_SIZE t \<and> content n = x # content t"
    by (rule net_get_law [OF link_sizes.arq_sizes_axioms ok])
  show "net_act n t \<Longrightarrow> reach SEQ_SIZE WND_SIZE t \<and> content t = content n"
    by (rule net_act_law [OF ok])
  show "length (content n) \<le> 32"
    using content_bounded [OF link_sizes.arq_sizes_axioms ok] by (simp add: WND_SIZE_def)
qed

text \<open>the link layer's sizes make it a pipe: over any run of calls and internal activity
  from two fresh endpoints, the payloads got are a prefix of the payloads put, and at most 32
  are on their way.\<close>

theorem link_layer_pipe:
  assumes "left n = ARQ_new m d t SEQ_SIZE WND_SIZE SEND_TIMEOUT RECV_TIMEOUT"
    and "right n = ARQ_new m' d' t' SEQ_SIZE WND_SIZE SEND_TIMEOUT RECV_TIMEOUT"
    and "chan_lr n = []" and "chan_rl n = []"
    and "sent_l n = []" and "read_l n = []" and "sent_r n = []" and "read_r n = []"
    and "pipe_run net_put net_get net_act n ins outs n'"
  shows "prefix outs ins \<and> length ins \<le> length outs + 32"
proof (rule link_pipe.run_from_empty [OF assms(9)])
  show "reach SEQ_SIZE WND_SIZE n" by (rule reach.start [OF assms(1-8)])
  show "content n = []" using assms by (simp add: content_def)
qed

definition link_new :: "nat net" where
  "link_new = (let a = ARQ_new arq_blank 0 0 SEQ_SIZE WND_SIZE SEND_TIMEOUT RECV_TIMEOUT in
     \<lparr>left = a, right = a, chan_lr = [], chan_rl = [], sent_l = [], read_l = [], sent_r = [], read_r = []\<rparr>)"

definition link_run :: "nat net" where
  "link_run = right_do do_receive (do_getsend (do_send 3 link_new))"

lemma net_act_getsend: "net_act n (do_getsend n)"
  unfolding net_act_def
  by (auto simp: do_getsend_def case_prod_beta intro: step.getsend)

lemma net_act_receive: "chan_lr n \<noteq> [] \<Longrightarrow> Receive (hd (chan_lr n)) (right n) \<noteq> None \<Longrightarrow>
  net_act n (right_do do_receive n)"
proof -
  assume "chan_lr n \<noteq> []" and "Receive (hd (chan_lr n)) (right n) \<noteq> None"
  then obtain p ps a where a: "chan_rl (swap n) = p # ps" "Receive p (left (swap n)) = Some a"
    by (auto simp: neq_Nil_conv swap_def)
  then have "step (swap n) (do_receive (swap n))"
    using step.receive [OF a] by (simp add: do_receive_def)
  moreover have "sent_l (right_do do_receive n) = sent_l n \<and> read_r (right_do do_receive n) = read_r n"
    using a by (simp add: right_do_def do_receive_def) (simp add: swap_def)
  ultimately show ?thesis
    unfolding net_act_def right_do_def by blast
qed

theorem link_layer_pipe_witness:
  "pipe_run net_put net_get net_act link_new [3] [3] (snd (the (net_get link_run))) \<and>
    prefix [3] [3::nat] \<and> length [3::nat] \<le> length [3::nat] + 32"
proof -
  have put: "net_put 3 link_new = (True, do_send 3 link_new)"
    by (auto simp: net_put_def do_send_def case_prod_beta) (code_simp)
  have "pipe_run net_put net_get net_act link_new [3] [] (do_send 3 link_new)"
    using pipe_run.put_run [OF pipe_run.begin_run [of net_put net_get net_act link_new] put] by simp
  then have "pipe_run net_put net_get net_act link_new [3] [] (do_getsend (do_send 3 link_new))"
    by (rule pipe_run.act_run) (rule net_act_getsend)
  moreover have "chan_lr (do_getsend (do_send 3 link_new)) \<noteq> []"
    "Receive (hd (chan_lr (do_getsend (do_send 3 link_new)))) (right (do_getsend (do_send 3 link_new))) \<noteq> None"
    by code_simp+
  ultimately have "pipe_run net_put net_get net_act link_new [3] [] link_run"
    unfolding link_run_def by - (rule pipe_run.act_run, assumption, rule net_act_receive)
  moreover have "map_option fst (net_get link_run) = Some 3"
    by code_simp
  then have "net_get link_run = Some (3, snd (the (net_get link_run)))"
    by (cases "net_get link_run") auto
  ultimately have run: "pipe_run net_put net_get net_act link_new [3] [3] (snd (the (net_get link_run)))"
    using pipe_run.get_run by fastforce
  have "prefix [3] [3::nat] \<and> length [3::nat] \<le> length [3::nat] + 32"
    by (rule link_layer_pipe [of link_new arq_blank 0 0 arq_blank 0 0, OF _ _ _ _ _ _ _ _ run])
      (simp_all add: link_new_def Let_def)
  then show ?thesis using run by blast
qed

subsection \<open>An ack that got lost\<close>

text \<open>An endpoint with nothing to send that has sent its acks, and a packet it has already read:
  a retransmission the other side makes because an ack did not arrive.\<close>

definition quiet :: "'p arq \<Rightarrow> bool" where
  "quiet a \<longleftrightarrow> seqpos a = sendpos a \<and> sendpos a = wndpos a \<and>
     \<not> active (SendTimer a) \<and> \<not> active (RecvTimer a)"

definition stale :: "'p arq \<Rightarrow> 'p packet \<Rightarrow> bool" where
  "stale a p \<longleftrightarrow> seqvalid p \<and> WND_S a \<le> (SEQ_S a + pseq p - recwndpos a) mod SEQ_S a"

text \<open>The endpoint ticks k times, then receives the packet, for each entry of the list.\<close>

fun serve :: "(nat \<times> 'p packet) list \<Rightarrow> 'p arq \<Rightarrow> 'p arq option" where
  "serve [] a = Some a"
| "serve ((k, p) # ps) a = Option.bind (Receive p ((arq_Tick ^^ k) a)) (serve ps)"

lemma quiet_ticks:
  "quiet a \<Longrightarrow> quiet ((arq_Tick ^^ k) a) \<and> recwndpos ((arq_Tick ^^ k) a) = recwndpos a \<and>
    SEQ_S ((arq_Tick ^^ k) a) = SEQ_S a \<and> WND_S ((arq_Tick ^^ k) a) = WND_S a"
  by (induction k) (auto simp: quiet_def arq_Tick_def)

lemma quiet_receive:
  assumes "quiet a" and "stale a p"
  shows "\<exists>b. Receive p a = Some b \<and> quiet b \<and> recwndpos b = recwndpos a \<and>
    SEQ_S b = SEQ_S a \<and> WND_S b = WND_S a"
  using assms
  by (auto simp: Receive_def receive_data_def receive_ack_def stale_def quiet_def Let_def)

lemma quiet_silent: "quiet a \<Longrightarrow> \<not> HasSendData a \<and> fst (GetSendData a) = None"
  by (auto simp: quiet_def HasSendData_def GetSendData_def active_def)

text \<open>Claim C6: a retransmitted packet is never acknowledged again: however many retransmissions of
  packets it has already read an otherwise quiet endpoint receives, and however long it ticks,
  it has nothing to send. When the ack of a packet is lost and the acknowledging side has no
  data of its own to send, the sender retransmits for ever.\<close>

theorem lost_ack_never_repeated:
  assumes "quiet a" and "\<forall>(k, p)\<in>set ps. stale a p"
  shows "\<exists>b. serve ps a = Some b \<and> \<not> HasSendData b \<and> fst (GetSendData b) = None"
proof -
  have "\<exists>b. serve ps a = Some b \<and> quiet b"
    using assms
  proof (induction ps arbitrary: a)
    case (Cons kp ps)
    obtain k p where kp: "kp = (k, p)" by force
    let ?a = "(arq_Tick ^^ k) a"
    have t: "quiet ?a \<and> recwndpos ?a = recwndpos a \<and> SEQ_S ?a = SEQ_S a \<and> WND_S ?a = WND_S a"
      by (rule quiet_ticks [OF Cons.prems(1)])
    moreover from this have "stale ?a p" using Cons.prems(2) kp by (simp add: stale_def)
    ultimately obtain b where b: "Receive p ?a = Some b" "quiet b" "recwndpos b = recwndpos a"
      "SEQ_S b = SEQ_S a" "WND_S b = WND_S a"
      using quiet_receive [of ?a p] by auto
    have "\<forall>(k, p)\<in>set ps. stale b p"
      using Cons.prems(2) b by (auto simp: stale_def)
    then show ?case
      using Cons.IH [OF b(2)] b(1) kp by simp
  qed simp
  then show ?thesis using quiet_silent by blast
qed

text \<open>The run behind it: packet 7 is read and acknowledged, the ack is lost, the sender's timer
  expires and it sends packet 0 again.\<close>

definition run5 :: "nat net" where
  "run5 = right_do do_getsend (right_do do_tick run1)"

theorem lost_ack_never_repeated_witness:
  "\<exists>b. serve (replicate 5 (40, mk_packet 0 True 0 3 7)) (right run5) = Some b \<and>
    \<not> HasSendData b \<and> fst (GetSendData b) = None"
proof -
  have "quiet (right run5)" "stale (right run5) (mk_packet 0 True 0 3 7)"
    by code_simp+
  then show ?thesis
    by (intro lost_ack_never_repeated) simp_all
qed

text \<open>A data packet the endpoint does store is acknowledged: the ack timer runs after it, or its ack
  leaves with the next packet sent.\<close>

lemma stored_packet_acked:
  assumes "receive_data p a = Some b" and "recvalids b \<noteq> recvalids a"
  shows "enabled (RecvTimer b)"
  using assms by (auto simp: receive_data_def split: if_splits)

end
