(* ===== verification/Ctrlmod.thy ===== *)
theory Ctrlmod
  imports Prelude
begin

text \<open>
  The path every control module of a HICANN uses to reach its registers: \<open>CtrlModule\<close>
  (\<open>ctrlmod.cpp\<close>) over \<open>Stage2Ctrl\<close> (\<open>s2ctrl.h\<close>) over \<open>Stage2Comm\<close> (\<open>s2comm.cpp\<close>), for one
  HICANN; the chip's address map (\<open>hardware_base.h\<close>); and the contract of the modules that keep
  a copy of the registers they write.
\<close>

subsection \<open>The communication object\<close>

record ci_payload =
  pwrite :: u32
  paddr :: u16
  pdat :: u32

text \<open>The state of \<open>Stage2Comm\<close> for one HICANN: what was handed to its link layers, with the tag,
  and the queues \<open>rxdata\<close>. What the link layer will do is the environment: for each command
  whether \<open>Send\<close> accepts it, and the payload \<open>Read\<close> then yields, if any (nothing more listed:
  commands are accepted and nothing arrives).\<close>

record bus =
  issued :: "(u32 \<times> ci_payload) list"
  rxdata :: "u32 \<Rightarrow> ci_payload list"
  env :: "(bool \<times> ci_payload option) list"

definition issueCommand :: "u32 \<Rightarrow> ci_payload \<Rightarrow> (bus, int) hal" where
  "issueCommand tag p = (\<lambda>s.
     let (accepted, arrived) = (case env s of [] \<Rightarrow> (True, None) | e # _ \<Rightarrow> e);
         s = s\<lparr>env := tl (env s)\<rparr> in
     if \<not> accepted then (Inl Runtime_error, s)
     else
       let s = s\<lparr>issued := issued s @ [(tag, p)]\<rparr> in
       (Inr 1, case arrived of None \<Rightarrow> s
               | Some d \<Rightarrow> s\<lparr>rxdata := (rxdata s)(tag := rxdata s tag @ [d])\<rparr>))"

definition recvData :: "u32 \<Rightarrow> (bus, ci_payload) hal" where
  "recvData tag = (\<lambda>s.
     case rxdata s tag of
       [] \<Rightarrow> (Inl Runtime_error, s)
     | d # ds \<Rightarrow> (Inr d, s\<lparr>rxdata := (rxdata s)(tag := ds)\<rparr>))"

subsection \<open>The control module\<close>

record ctrlmod =
  bus :: bus
  ctag :: u32
  startaddr :: u16
  maxaddr :: u16

definition on_bus :: "(bus, 'a) hal \<Rightarrow> ('z ctrlmod_scheme, 'a) hal" where
  "on_bus m = (\<lambda>s. case m (bus s) of (r, b) \<Rightarrow> (r, s\<lparr>bus := b\<rparr>))"

definition checkAddr :: "u16 \<Rightarrow> ('z ctrlmod_scheme, unit) hal" where
  "checkAddr a = (\<lambda>s. if a > maxaddr s then (Inl Range_error, s) else (Inr (), s))"

definition write_cmd :: "u16 \<Rightarrow> u32 \<Rightarrow> ('z ctrlmod_scheme, int) hal" where
  "write_cmd a d = hseq (checkAddr a) (\<lambda>s.
     on_bus (issueCommand (ctag s) \<lparr>pwrite = 1, paddr = a + startaddr s, pdat = d\<rparr>) s)"

definition read_cmd :: "u16 \<Rightarrow> ('z ctrlmod_scheme, int) hal" where
  "read_cmd a = hseq (checkAddr a) (\<lambda>s.
     on_bus (issueCommand (ctag s) \<lparr>pwrite = 0, paddr = a + startaddr s, pdat = push_bit 31 1\<rparr>) s)"

definition get_data :: "('z ctrlmod_scheme, ci_payload) hal" where
  "get_data = (\<lambda>s. on_bus (recvData (ctag s)) s)"

lemma on_bus_app: "on_bus m s = (fst (m (bus s)), s\<lparr>bus := snd (m (bus s))\<rparr>)"
  by (simp add: on_bus_def case_prod_beta)

text \<open>What a write command does, and all it can do.\<close>

lemma issueCommand_cases:
  obtains (refused) s' where "issueCommand tag p s = (Inl Runtime_error, s')" "issued s' = issued s"
  | (issued) s' where "issueCommand tag p s = (Inr 1, s')" "issued s' = issued s @ [(tag, p)]"
proof (cases "fst (case env s of [] \<Rightarrow> (True, None) | e # _ \<Rightarrow> e)")
  case True
  then show thesis
    by (intro issued [of "snd (issueCommand tag p s)"])
      (auto simp: issueCommand_def Let_def split: list.splits option.splits)
next
  case False
  then show thesis
    by (intro refused [of "snd (issueCommand tag p s)"])
      (auto simp: issueCommand_def Let_def split: list.splits)
qed

lemma write_cmd_cases:
  obtains (range) "write_cmd a d s = (Inl Range_error, s)" "a > maxaddr s"
  | (refused) b where "write_cmd a d s = (Inl Runtime_error, s\<lparr>bus := b\<rparr>)" "a \<le> maxaddr s"
      "issued b = issued (bus s)"
  | (written) b where "write_cmd a d s = (Inr 1, s\<lparr>bus := b\<rparr>)" "a \<le> maxaddr s"
      "issued b = issued (bus s) @ [(ctag s, \<lparr>pwrite = 1, paddr = a + startaddr s, pdat = d\<rparr>)]"
proof (cases "a > maxaddr s")
  case True
  then show thesis by (intro range) (simp_all add: write_cmd_def checkAddr_def hseq_def hbind_def)
next
  case False
  show thesis
    by (rule issueCommand_cases [of "ctag s" "\<lparr>pwrite = 1, paddr = a + startaddr s, pdat = d\<rparr>" "bus s"])
      (use False in \<open>auto intro: refused written
        simp: write_cmd_def checkAddr_def hseq_def hbind_def on_bus_app\<close>)
qed

text \<open>With an environment that accepts every command, a write in range succeeds.\<close>

lemma write_cmd_ok:
  "env (bus s) = [] \<Longrightarrow> a \<le> maxaddr s \<Longrightarrow>
   write_cmd a d s = (Inr 1, s\<lparr>bus := (bus s)\<lparr>issued := issued (bus s) @
     [(ctag s, \<lparr>pwrite = 1, paddr = a + startaddr s, pdat = d\<rparr>)]\<rparr>\<rparr>)"
  by (simp add: write_cmd_def checkAddr_def hseq_def hbind_def on_bus_app issueCommand_def)

subsection \<open>The registers behind the bus\<close>

text \<open>The value last written to each bus address by a sequence of commands.\<close>

primrec written :: "(u32 \<times> ci_payload) list \<Rightarrow> u16 \<Rightarrow> u32 option" where
  "written [] a = None"
| "written (c # cs) a = (case written cs a of Some d \<Rightarrow> Some d
     | None \<Rightarrow> if pwrite (snd c) \<noteq> 0 \<and> paddr (snd c) = a then Some (pdat (snd c)) else None)"

lemma written_append [simp]:
  "written (xs @ [c]) a = (if pwrite (snd c) \<noteq> 0 \<and> paddr (snd c) = a then Some (pdat (snd c)) else written xs a)"
  by (induction xs) simp_all

definition regs :: "'z ctrlmod_scheme \<Rightarrow> u16 \<Rightarrow> u32 option" where
  "regs s a = written (issued (bus s)) a"

lemma written_appends: "written (xs @ ys) a = (case written ys a of Some d \<Rightarrow> Some d | None \<Rightarrow> written xs a)"
  by (induction xs) (auto split: option.split)

text \<open>The commands of a list of writes to a module's addresses.\<close>

definition cmds :: "'z ctrlmod_scheme \<Rightarrow> (u16 \<times> u32) list \<Rightarrow> (u32 \<times> ci_payload) list" where
  "cmds s ws = map (\<lambda>(a, d). (ctag s, \<lparr>pwrite = 1, paddr = a + startaddr s, pdat = d\<rparr>)) ws"

text \<open>An operation that, when it returns, has sent just the writes \<open>ws\<close> and changed nothing but the
  bus; and returns when every command is accepted and every address is in range.\<close>

definition emits :: "(u16 \<times> u32) list \<Rightarrow> ('z ctrlmod_scheme, 'a) hal \<Rightarrow> bool" where
  "emits ws m \<longleftrightarrow> (\<forall>s. (\<forall>r t. m s = (Inr r, t) \<longrightarrow>
       (\<exists>b. t = s\<lparr>bus := b\<rparr> \<and> issued b = issued (bus s) @ cmds s ws)) \<and>
     (env (bus s) = [] \<and> (\<forall>w\<in>set ws. fst w \<le> maxaddr s) \<longrightarrow>
       (\<exists>r b. m s = (Inr r, s\<lparr>bus := b\<rparr>) \<and> env b = [] \<and> rxdata b = rxdata (bus s) \<and>
          issued b = issued (bus s) @ cmds s ws)))"

named_theorems emits_intros

lemma emits_returns:
  assumes "emits ws m" and "m s = (Inr r, t)"
  obtains b where "t = s\<lparr>bus := b\<rparr>" and "issued b = issued (bus s) @ cmds s ws"
  using assms unfolding emits_def by blast

lemma emits_accepted:
  assumes "emits ws m" and "env (bus s) = []" and "\<forall>w\<in>set ws. fst w \<le> maxaddr s"
  obtains r b where "m s = (Inr r, s\<lparr>bus := b\<rparr>)" and "env b = []" and "rxdata b = rxdata (bus s)"
    and "issued b = issued (bus s) @ cmds s ws"
  using assms unfolding emits_def by blast

lemma emits_write [emits_intros]: "emits [(a, d)] (write_cmd a d)"
  unfolding emits_def
proof (intro allI conjI impI)
  fix s :: "'z ctrlmod_scheme" and r t
  show "\<exists>b. t = s\<lparr>bus := b\<rparr> \<and> issued b = issued (bus s) @ cmds s [(a, d)]"
    if r: "write_cmd a d s = (Inr r, t)"
  proof (cases rule: write_cmd_cases [of a d s])
    case (written b)
    then show ?thesis using r by (intro exI [of _ b]) (simp add: cmds_def)
  qed (use r in simp_all)
  show "\<exists>r b. write_cmd a d s = (Inr r, s\<lparr>bus := b\<rparr>) \<and> env b = [] \<and> rxdata b = rxdata (bus s) \<and>
      issued b = issued (bus s) @ cmds s [(a, d)]"
    if "env (bus s) = [] \<and> (\<forall>w\<in>set [(a, d)]. fst w \<le> maxaddr s)"
    using write_cmd_ok [of s a d] that
    by (intro exI [of _ 1] exI [of _ "(bus s)\<lparr>issued := issued (bus s) @ cmds s [(a, d)]\<rparr>"])
      (simp add: cmds_def)
qed

lemma emits_hret [emits_intros]: "emits [] (hret x)"
  unfolding emits_def
proof (intro allI conjI impI)
  fix s :: "'z ctrlmod_scheme"
  show "\<exists>b. t = s\<lparr>bus := b\<rparr> \<and> issued b = issued (bus s) @ cmds s []" if "hret x s = (Inr r, t)" for r t
    using that by (intro exI [of _ "bus s"]) (simp add: cmds_def)
  show "\<exists>r b. hret x s = (Inr r, s\<lparr>bus := b\<rparr>) \<and> env b = [] \<and> rxdata b = rxdata (bus s) \<and>
      issued b = issued (bus s) @ cmds s []" if "env (bus s) = [] \<and> (\<forall>w\<in>set []. fst w \<le> maxaddr s)"
    using that by (intro exI [of _ x] exI [of _ "bus s"]) (simp add: cmds_def)
qed

lemma cmds_append: "cmds s (ws @ ws') = cmds s ws @ cmds s ws'"
  by (simp add: cmds_def)

lemma cmds_bus [simp]: "cmds (s\<lparr>bus := b\<rparr>) ws = cmds s ws"
  by (simp add: cmds_def)

lemma emits_hbind [emits_intros]:
  fixes m :: "('z ctrlmod_scheme, 'a) hal"
  assumes "emits ws m" and "\<And>x. emits ws' (k x)"
  shows "emits (ws @ ws') (hbind m k)"
  unfolding emits_def
proof (intro allI conjI impI)
  fix s :: "'z ctrlmod_scheme" and r t
  show "\<exists>b. t = s\<lparr>bus := b\<rparr> \<and> issued b = issued (bus s) @ cmds s (ws @ ws')"
    if r: "hbind m k s = (Inr r, t)"
  proof (cases rule: hbind_cases [OF r])
    case (2 x s')
    obtain b where b: "s' = s\<lparr>bus := b\<rparr>" "issued b = issued (bus s) @ cmds s ws"
      by (rule emits_returns [OF assms(1) 2(1)])
    obtain b' where "t = s'\<lparr>bus := b'\<rparr>" "issued b' = issued (bus s') @ cmds s' ws'"
      by (rule emits_returns [OF assms(2) 2(2)])
    then show ?thesis using b by (intro exI [of _ b']) (simp add: cmds_append)
  qed simp
  assume ok: "env (bus s) = [] \<and> (\<forall>w\<in>set (ws @ ws'). fst w \<le> maxaddr s)"
  obtain x b where b: "m s = (Inr x, s\<lparr>bus := b\<rparr>)" "env b = []" "rxdata b = rxdata (bus s)"
      "issued b = issued (bus s) @ cmds s ws"
    by (rule emits_accepted [OF assms(1), of s]) (use ok in auto)
  obtain y b' where b': "k x (s\<lparr>bus := b\<rparr>) = (Inr y, (s\<lparr>bus := b\<rparr>)\<lparr>bus := b'\<rparr>)" "env b' = []"
      "rxdata b' = rxdata (bus (s\<lparr>bus := b\<rparr>))"
      "issued b' = issued (bus (s\<lparr>bus := b\<rparr>)) @ cmds (s\<lparr>bus := b\<rparr>) ws'"
    by (rule emits_accepted [OF assms(2), of "s\<lparr>bus := b\<rparr>" x]) (use ok b in auto)
  show "\<exists>r b. hbind m k s = (Inr r, s\<lparr>bus := b\<rparr>) \<and> env b = [] \<and> rxdata b = rxdata (bus s) \<and>
      issued b = issued (bus s) @ cmds s (ws @ ws')"
    using b b' by (intro exI [of _ y] exI [of _ b']) (simp add: hbind_Inr cmds_append)
qed

lemma emits_hseq [emits_intros]: "emits ws m \<Longrightarrow> emits ws' n \<Longrightarrow> emits (ws @ ws') (hseq m n)"
  unfolding hseq_def by (rule emits_hbind)

lemma emits_hvoid: "emits ws m \<Longrightarrow> emits ws (hvoid m)"
  unfolding hvoid_def using emits_hbind [of ws m "[]" "\<lambda>_. hret ()", OF _ emits_hret] by simp

lemma emits_void_write [emits_intros]: "emits [(a, d)] (hvoid (write_cmd a d))"
  by (rule emits_hvoid) (rule emits_write)

lemma emits_hfor:
  "(\<And>x. x \<in> set xs \<Longrightarrow> emits (f x) (m x)) \<Longrightarrow> emits (concat (map f xs)) (hfor xs m)"
  by (induction xs) (auto intro: emits_intros)

lemma emits_hfor1:
  assumes "\<And>x. x \<in> set xs \<Longrightarrow> emits [f x] (m x)"
  shows "emits (map f xs) (hfor xs m)"
proof -
  have "concat (map (\<lambda>x. [f x]) xs) = map f xs" by (induction xs) simp_all
  then show ?thesis using emits_hfor [of xs "\<lambda>x. [f x]" m] assms by simp
qed

text \<open>The registers after a list of writes: the last write to an address counts.\<close>

primrec last_to :: "(u16 \<times> u32) list \<Rightarrow> u16 \<Rightarrow> u32 option" where
  "last_to [] a = None"
| "last_to (w # ws) a = (case last_to ws a of Some d \<Rightarrow> Some d
     | None \<Rightarrow> if fst w = a then Some (snd w) else None)"

lemma last_to_append: "last_to (xs @ ys) a = (case last_to ys a of Some d \<Rightarrow> Some d | None \<Rightarrow> last_to xs a)"
  by (induction xs) (auto split: option.split)

lemma last_to_none: "a \<notin> fst ` set ws \<Longrightarrow> last_to ws a = None"
  by (induction ws) auto

lemma last_to_distinct: "inj_on f (set xs) \<Longrightarrow> x \<in> set xs \<Longrightarrow> last_to (map (\<lambda>x. (f x, g x)) xs) (f x) = Some (g x)"
proof (induction xs)
  case (Cons y xs)
  show ?case
  proof (cases "x \<in> set xs")
    case True
    then show ?thesis using Cons by simp
  next
    case False
    then have "x = y" using Cons.prems(2) by simp
    moreover have "last_to (map (\<lambda>x. (f x, g x)) xs) (f x) = None"
      by (rule last_to_none) (use False Cons.prems in \<open>auto simp: inj_on_def\<close>)
    ultimately show ?thesis by simp
  qed
qed simp

lemma written_cmds: "written (cmds s ws) (a + startaddr s) = last_to ws a"
  by (induction ws) (auto simp: cmds_def split: option.split)

lemma emits_regs:
  assumes "emits ws m" and "m s = (Inr r, t)"
  shows "regs t (a + startaddr s) = (case last_to ws a of Some d \<Rightarrow> Some d | None \<Rightarrow> regs s (a + startaddr s))"
proof -
  obtain b where "t = s\<lparr>bus := b\<rparr>" and "issued b = issued (bus s) @ cmds s ws"
    by (rule emits_returns [OF assms])
  then show ?thesis by (simp add: regs_def written_appends written_cmds split: option.split)
qed

text \<open>The contract of a module with a copy of its registers: register \<open>i\<close> lives at \<open>addr i\<close>, the
  copy says what it holds, and an operation on register \<open>i\<close> either throws and leaves copy and
  registers alone, or changes both to the same value.\<close>

locale shadowed =
  fixes nr :: nat
    and addr :: "'s \<Rightarrow> nat \<Rightarrow> u16"
    and copy :: "'s \<Rightarrow> nat \<Rightarrow> u32"
    and reg :: "'s \<Rightarrow> u16 \<Rightarrow> u32 option"
    and ok :: "'s \<Rightarrow> bool"
    and set_reg :: "nat \<Rightarrow> u32 \<Rightarrow> ('s, unit) hal"
  assumes addr_inj: "ok s \<Longrightarrow> i < nr \<Longrightarrow> j < nr \<Longrightarrow> addr s i = addr s j \<Longrightarrow> i = j"
    and set_throws: "ok s \<Longrightarrow> i < nr \<Longrightarrow> set_reg i v s = (Inl e, t) \<Longrightarrow>
      ok t \<and> copy t = copy s \<and> reg t = reg s \<and> addr t = addr s"
    and set_returns: "ok s \<Longrightarrow> i < nr \<Longrightarrow> set_reg i v s = (Inr u, t) \<Longrightarrow>
      ok t \<and> copy t = (copy s)(i := v) \<and> reg t = (reg s)(addr s i \<mapsto> v) \<and> addr t = addr s"
begin

definition coherent :: "'s \<Rightarrow> bool" where
  "coherent s \<longleftrightarrow> ok s \<and> (\<forall>i<nr. \<forall>v. reg s (addr s i) = Some v \<longrightarrow> v = copy s i)"

lemma set_coherent:
  assumes "coherent s" and "i < nr"
  shows "coherent (snd (set_reg i v s))"
proof (cases "set_reg i v s")
  case (Pair r t)
  show ?thesis
  proof (cases r)
    case (Inl e)
    then show ?thesis
      using set_throws [of s i v e t] assms Pair by (simp add: coherent_def)
  next
    case (Inr u)
    then have "ok t \<and> copy t = (copy s)(i := v) \<and> reg t = (reg s)(addr s i \<mapsto> v) \<and> addr t = addr s"
      using set_returns [of s i v u t] assms Pair by (simp add: coherent_def)
    then show ?thesis
      using assms addr_inj [of s] Pair by (auto simp: coherent_def)
  qed
qed

text \<open>A loop over registers that throws nowhere leaves each of them written.\<close>

lemma all_set:
  assumes "ok s" and "distinct ixs" and "\<forall>i\<in>set ixs. i < nr"
    and "hfor ixs (\<lambda>i. set_reg i (f i)) s = (Inr u, t)"
  shows "ok t \<and> addr t = addr s \<and>
    (\<forall>i<nr. copy t i = (if i \<in> set ixs then f i else copy s i) \<and>
      reg t (addr s i) = (if i \<in> set ixs then Some (f i) else reg s (addr s i)))"
  using assms
proof (induction ixs arbitrary: s)
  case (Cons i ixs)
  obtain r s' where one: "set_reg i (f i) s = (r, s')" by force
  have "r = Inr ()"
    using Cons.prems(4) one by (cases r) (auto simp: hseq_def hbind_def)
  then have st: "ok s' \<and> copy s' = (copy s)(i := f i) \<and> reg s' = (reg s)(addr s i \<mapsto> f i) \<and> addr s' = addr s"
    using set_returns [of s i "f i" "()" s'] Cons.prems one by simp
  have "hfor ixs (\<lambda>i. set_reg i (f i)) s' = (Inr u, t)"
    using Cons.prems(4) one \<open>r = Inr ()\<close> by (simp add: hseq_Inr)
  then have "ok t \<and> addr t = addr s' \<and>
    (\<forall>j<nr. copy t j = (if j \<in> set ixs then f j else copy s' j) \<and>
      reg t (addr s' j) = (if j \<in> set ixs then Some (f j) else reg s' (addr s' j)))"
    using Cons.IH [of s'] Cons.prems st by simp
  then show ?case
    using st Cons.prems addr_inj [of s] by auto
qed simp

end

subsection \<open>The address map\<close>

record adrspc =
  amax :: u16
  astart :: u16

definition OcpSyn_tr :: adrspc where "OcpSyn_tr = \<lparr>amax = 0x1ff, astart = 0xd000\<rparr>"
definition OcpSyn_tl :: adrspc where "OcpSyn_tl = \<lparr>amax = 0x7ff, astart = 0xe000\<rparr>"
definition OcpSyn_br :: adrspc where "OcpSyn_br = \<lparr>amax = 0x1ff, astart = 0xd200\<rparr>"
definition OcpSyn_bl :: adrspc where "OcpSyn_bl = \<lparr>amax = 0xfff, astart = 0xa000\<rparr>"
definition OcpCb_r :: adrspc where "OcpCb_r = \<lparr>amax = 0x1ff, astart = 0xd400\<rparr>"
definition OcpCb_l :: adrspc where "OcpCb_l = \<lparr>amax = 0x1fff, astart = 0x0000\<rparr>"
definition OcpRep_l :: adrspc where "OcpRep_l = \<lparr>amax = 0x1fff, astart = 0x2000\<rparr>"
definition OcpRep_r :: adrspc where "OcpRep_r = \<lparr>amax = 0x1ff, astart = 0xd600\<rparr>"
definition OcpRep_tl :: adrspc where "OcpRep_tl = \<lparr>amax = 0x7ff, astart = 0xe800\<rparr>"
definition OcpRep_bl :: adrspc where "OcpRep_bl = \<lparr>amax = 0xfff, astart = 0xc000\<rparr>"
definition OcpRep_tr :: adrspc where "OcpRep_tr = \<lparr>amax = 0x1ff, astart = 0xd800\<rparr>"
definition OcpRep_br :: adrspc where "OcpRep_br = \<lparr>amax = 0x1ff, astart = 0xda00\<rparr>"
definition OcpDncIf :: adrspc where "OcpDncIf = \<lparr>amax = 0x7ff, astart = 0xf000\<rparr>"
definition OcpSpl1 :: adrspc where "OcpSpl1 = \<lparr>amax = 0x7ff, astart = 0xf800\<rparr>"
definition OcpNeuronCtrl :: adrspc where "OcpNeuronCtrl = \<lparr>amax = 0x1fff, astart = 0x4000\<rparr>"
definition OcpNeuronBuilder :: adrspc where "OcpNeuronBuilder = \<lparr>amax = 0x1fff, astart = 0x6000\<rparr>"
definition OcpFgate_tl :: adrspc where "OcpFgate_tl = \<lparr>amax = 0x1fff, astart = 0x8000\<rparr>"
definition OcpFgate_tr :: adrspc where "OcpFgate_tr = \<lparr>amax = 0x1ff, astart = 0xdc00\<rparr>"
definition OcpFgate_bl :: adrspc where "OcpFgate_bl = \<lparr>amax = 0xfff, astart = 0xb000\<rparr>"
definition OcpFgate_br :: adrspc where "OcpFgate_br = \<lparr>amax = 0x1ff, astart = 0xde00\<rparr>"
definition OcpStdpCtrl_t :: adrspc where "OcpStdpCtrl_t = \<lparr>amax = 0x7fff, astart = 0x0000\<rparr>"
definition OcpStdpCtrl_b :: adrspc where "OcpStdpCtrl_b = \<lparr>amax = 0x7fff, astart = 0x8000\<rparr>"

lemmas ocp_defs = OcpSyn_tr_def OcpSyn_tl_def OcpSyn_br_def OcpSyn_bl_def OcpCb_r_def OcpCb_l_def
  OcpRep_l_def OcpRep_r_def OcpRep_tl_def OcpRep_bl_def OcpRep_tr_def OcpRep_br_def OcpDncIf_def
  OcpSpl1_def OcpNeuronCtrl_def OcpNeuronBuilder_def OcpFgate_tl_def OcpFgate_tr_def
  OcpFgate_bl_def OcpFgate_br_def OcpStdpCtrl_t_def OcpStdpCtrl_b_def

text \<open>The modules behind the slow and the fast tag.\<close>

definition tag0_map :: "adrspc list" where
  "tag0_map = [OcpSyn_tr, OcpSyn_tl, OcpSyn_br, OcpSyn_bl, OcpCb_r, OcpCb_l, OcpRep_l, OcpRep_r,
     OcpRep_tl, OcpRep_bl, OcpRep_tr, OcpRep_br, OcpDncIf, OcpSpl1, OcpNeuronCtrl,
     OcpNeuronBuilder, OcpFgate_tl, OcpFgate_tr, OcpFgate_bl, OcpFgate_br]"

definition tag1_map :: "adrspc list" where
  "tag1_map = [OcpStdpCtrl_t, OcpStdpCtrl_b]"

end
