(* ===== verification/L1switch.thy ===== *)
theory L1switch
  imports Ctrlmod
begin

text \<open>
  The layer-1 switches (\<open>l1switch_control.cpp\<close>): crossbars and synapse switches, whose rows of
  switch bits the module writes over the bus and keeps in \<open>config\<close>. The main results are that
  \<open>transline\<close> gives each reachable pair of lines its own bit, and that \<open>switch_connect\<close>
  implements adding and removing a pair in the set of connections.
\<close>

datatype hicann_v = HV1 | HV2

datatype switch_loc = CBL | CBR | SYNTL | SYNTR | SYNBL | SYNBR

definition CB_NUMH :: nat where "CB_NUMH = 8"
definition SYN_NUMH :: nat where "SYN_NUMH = 16"

record l1switch = ctrlmod +
  sloc :: switch_loc
  config :: "u32 list"

definition rows :: "switch_loc \<Rightarrow> nat" where
  "rows l = (if l = CBL \<or> l = CBR then 64 else 112)"

definition L1SwitchControl_new :: "switch_loc \<Rightarrow> bus \<Rightarrow> u32 \<Rightarrow> u16 \<Rightarrow> u16 \<Rightarrow> l1switch" where
  "L1SwitchControl_new sl c ta sa ma = \<lparr>bus = c, ctag = ta, startaddr = sa, maxaddr = ma,
     sloc = sl, config = replicate (rows sl) 0\<rparr>"

subsection \<open>Rows on the bus\<close>

definition bits_word :: "bool list \<Rightarrow> u32" where
  "bits_word cfg = sum_list (map (\<lambda>l. push_bit l (of_bool (cfg ! l))) [0..<length cfg])"

definition write_cfg_bits :: "u16 \<Rightarrow> bool list \<Rightarrow> (l1switch, int) hal" where
  "write_cfg_bits rowaddr cfg = write_cmd rowaddr (bits_word cfg)"

definition write_cfg :: "u16 \<Rightarrow> u32 \<Rightarrow> (l1switch, int) hal" where
  "write_cfg rowaddr cfg = write_cmd rowaddr cfg"

definition read_cfg :: "u16 \<Rightarrow> (l1switch, int) hal" where
  "read_cfg rowaddr = read_cmd rowaddr"

definition word_bits :: "nat \<Rightarrow> u32 \<Rightarrow> bool list" where
  "word_bits n d = map (\<lambda>l. drop_bit l d AND 1 = 1) [0..<n]"

definition get_read_cfg_bits :: "(l1switch, u16 \<times> bool list) hal" where
  "get_read_cfg_bits = hbind get_data (\<lambda>tmp s.
     (Inr (paddr tmp AND 0x1ff,
           word_bits (if sloc s = CBL \<or> sloc s = CBR then CB_NUMH div 2 else SYN_NUMH) (pdat tmp)), s))"

definition get_read_cfg :: "(l1switch, u16 \<times> u32) hal" where
  "get_read_cfg = hbind get_data (\<lambda>tmp. hret (paddr tmp AND 0x1ff, pdat tmp))"

definition get_offs :: "switch_loc \<Rightarrow> u32" where
  "get_offs l = ucast (astart (case l of SYNTR \<Rightarrow> OcpSyn_tr | SYNTL \<Rightarrow> OcpSyn_tl
     | SYNBR \<Rightarrow> OcpSyn_br | SYNBL \<Rightarrow> OcpSyn_bl | CBR \<Rightarrow> OcpCb_r | CBL \<Rightarrow> OcpCb_l))"

definition get_loc :: "u32 \<Rightarrow> switch_loc" where
  "get_loc ad =
     (let offs = ad AND 0xfffffe00 in
      if offs = ucast (astart OcpSyn_tr) then SYNTR
      else if offs = ucast (astart OcpSyn_tl) then SYNTL
      else if offs = ucast (astart OcpSyn_br) then SYNBR
      else if offs = ucast (astart OcpSyn_bl) then SYNBL
      else if offs = ucast (astart OcpCb_r) then CBR
      else if offs = ucast (astart OcpCb_l) then CBL
      else CBL)"

definition bitrotate :: "u32 \<Rightarrow> u32" where
  "bitrotate ad = fold (\<lambda>i ra. ra OR (if ad AND push_bit i 1 \<noteq> 0 then push_bit (15 - i) 1 else 0)) [0..<16] 0"

subsection \<open>Which bit connects two lines\<close>

text \<open>The code's \<open>z\<close> is an \<open>int\<close>; \<open>bit_at z k\<close> is the value returned for the bit number it gives.\<close>

definition bit_at :: "u32 \<Rightarrow> u32 \<Rightarrow> u32" where
  "bit_at z r = (if 0 \<le> sint z \<and> sint z \<le> 3 then r else 0)"

definition transline_cb :: "hicann_v \<Rightarrow> u32 \<Rightarrow> u32 \<Rightarrow> u32" where
  "transline_cb v hor ver =
     (let h = (case v of HV1 \<Rightarrow> hor AND 0x1f | HV2 \<Rightarrow> hor div 2); z = (ver - h) div 32 in
      bit_at z (push_bit (unat z) 1))"

definition cb_guard :: "hicann_v \<Rightarrow> u32 \<Rightarrow> u32 \<Rightarrow> bool" where
  "cb_guard v hor ver \<longleftrightarrow>
     (ver - (case v of HV1 \<Rightarrow> hor AND 0x1f | HV2 \<Rightarrow> hor div 2)) mod 32 = 0 \<and> hor < 64"

definition transline_syn :: "u32 \<Rightarrow> u32 \<Rightarrow> u32 \<Rightarrow> u32" where
  "transline_syn hor ver mo =
     (let z = (ver + 2 * (hor AND 0x3f) + 4) div 32 - (hor AND 0x3f) div 16 - 1 in
      bit_at z (bitrotate (push_bit (4 * unat z + unat mo) 1)))"

definition syn_guard :: "u32 \<Rightarrow> u32 \<Rightarrow> bool" where
  "syn_guard hor ver \<longleftrightarrow> (ver + 2 * (hor AND 0x3f) + 4) mod 32 = 0 \<and> hor < 112"

definition transline :: "hicann_v \<Rightarrow> switch_loc \<Rightarrow> u32 \<Rightarrow> u32 \<Rightarrow> u32" where
  "transline v loc hor ver =
     (if loc = CBL then
        (if cb_guard v hor ver \<and> ver < 128 then transline_cb v hor ver else 0)
      else if loc = CBR then
        (if cb_guard v hor ver \<and> ver > 127 \<and> ver < 256 then transline_cb v hor (ver - 128) else 0)
      else
        (let hor = (if hor mod 2 \<noteq> 0 then hor - 1 else hor); mo = ver mod 4;
             ver = (if mo \<noteq> 0 then ver - mo else ver) in
         if loc = SYNTL \<or> loc = SYNBL then
           (if syn_guard hor ver \<and> ver + mo < 128 then transline_syn hor ver mo else 0)
         else
           (if syn_guard hor ver \<and> ver + mo > 127 \<and> ver + mo < 256
            then transline_syn hor (ver - 128) mo else 0)))"

subsection \<open>Operations on the module\<close>

definition configure :: "(l1switch, unit) hal" where
  "configure = (\<lambda>s. hfor [0..<length (config s)] (\<lambda>i.
     hseq (read_cfg (of_nat i)) (hbind get_read_cfg (\<lambda>(_, d).
       hmodify (\<lambda>s. s\<lparr>config := (config s)[i := d]\<rparr>)))) s)"

definition reset :: "(l1switch, unit) hal" where
  "reset = (\<lambda>s. hfor [0..<length (config s)] (\<lambda>i.
     hseq (write_cfg (of_nat i) 0) (hmodify (\<lambda>s. s\<lparr>config := (config s)[i := 0]\<rparr>))) s)"

definition switch_connect :: "hicann_v \<Rightarrow> u32 \<Rightarrow> u32 \<Rightarrow> bool \<Rightarrow> (l1switch, unit) hal" where
  "switch_connect v hor ver connection = (\<lambda>s.
     let con = transline v (sloc s) hor ver; h = unat hor in
     if con \<noteq> 0 then
       if connection then
         hseq (write_cfg (ucast hor) (config s ! h OR con))
           (hmodify (\<lambda>s. s\<lparr>config := (config s)[h := config s ! h OR con]\<rparr>)) s
       else
         hseq (write_cfg (ucast hor) (config s ! h AND (con XOR 0xffff)))
           (hmodify (\<lambda>s. s\<lparr>config := (config s)[h := config s ! h AND (con XOR 0xffff)]\<rparr>)) s
     else (Inr (), s))"

text \<open>The vectors of lines and flags; reading past the end of one of them is undefined.\<close>

definition switch_connects :: "hicann_v \<Rightarrow> u32 list \<Rightarrow> u32 list \<Rightarrow> bool list \<Rightarrow> (l1switch, unit) hal" where
  "switch_connects v hs vs cs = hfor [0..<length hs] (\<lambda>i.
     if i < length vs \<and> i < length cs then switch_connect v (hs ! i) (vs ! i) (cs ! i)
     else hthrow Undefined_behaviour)"

subsection \<open>The documented wiring\<close>

lemma unat_mod32: "unat ((x :: u32) mod 32) = unat x mod 32"
  by (simp add: unat_mod)

lemma ofs32:
  fixes ver h :: u32
  assumes "unat h < 32"
  shows "(ver - h) mod 32 = 0 \<longleftrightarrow> unat ver mod 32 = unat h"
proof -
  have *: "(ver - h) mod 32 = 0 \<longleftrightarrow> unat (ver - h) mod 32 = 0"
    by (simp add: word_unat_eq_iff unat_mod)
  show ?thesis
  proof (cases "unat h \<le> unat ver")
    case True
    then have "unat (ver - h) mod 32 = 0 \<longleftrightarrow> unat ver mod 32 = unat h mod 32"
      by (simp add: unat_sub word_le_nat_alt mod_eq_dvd_iff_nat mod_eq_0_iff_dvd)
    then show ?thesis using * assms by simp
  next
    case False
    then have "unat (ver - h) = 32 * 134217727 + (32 - (unat h - unat ver))"
      using assms by (simp add: unat_sub_if')
    then have "unat (ver - h) mod 32 = (32 - (unat h - unat ver)) mod 32"
      by (simp only: mod_mult_self4)
    then show ?thesis using * False assms by simp
  qed
qed

lemma div32:
  fixes ver h :: u32
  assumes "unat ver mod 32 = unat h"
  shows "unat ((ver - h) div 32) = unat ver div 32"
proof -
  have "h \<le> ver" using assms by (metis mod_less_eq_dividend word_le_nat_alt)
  then have "unat ((ver - h) div 32) = (unat ver - unat ver mod 32) div 32"
    using assms by (simp add: unat_div unat_sub)
  then show ?thesis
    by (simp add: minus_mod_eq_mult_div)
qed

lemma sint_split: "sint (z :: u32) = (if uint z < 2 ^ 31 then uint z else uint z - 2 ^ 32)"
proof -
  have "sint z = (uint z + 2 ^ 31) mod 2 ^ 32 - 2 ^ 31"
    using int_word_sint [of "uint z", where 'a = 32] by simp
  moreover have "(uint z + 2 ^ 31) mod 2 ^ 32 = (if uint z < 2 ^ 31 then uint z + 2 ^ 31 else uint z - 2 ^ 31)"
  proof (cases "uint z < 2 ^ 31")
    case True
    then show ?thesis by (simp add: mod_pos_pos_trivial)
  next
    case False
    have "(uint z - 2 ^ 31 + 2 ^ 32) mod 2 ^ 32 = uint z - 2 ^ 31"
      using False uint_lt2p [of z] by (simp only: mod_add_self2) (simp add: mod_pos_pos_trivial)
    then show ?thesis using False by (simp add: add.commute)
  qed
  ultimately show ?thesis by simp
qed

lemma bit_at_unat: "bit_at z r = (if unat z \<le> 3 then r else 0)"
proof -
  have "0 \<le> sint z \<and> sint z \<le> 3 \<longleftrightarrow> uint z \<le> 3"
  proof (cases "uint z < 2 ^ 31")
    case True
    then show ?thesis by (simp add: sint_split)
  next
    case False
    moreover have "uint z < 2 ^ 32" using uint_lt2p [of z] by simp
    ultimately show ?thesis by (simp add: sint_split)
  qed
  moreover have "uint z \<le> 3 \<longleftrightarrow> unat z \<le> 3"
    using word_le_nat_alt [of z 3] word_le_def [of z 3] by simp
  ultimately show ?thesis by (simp add: bit_at_def)
qed

lemma bitrotate_bit: "k < 16 \<Longrightarrow> bitrotate (push_bit k 1) = push_bit (15 - k) 1"
proof -
  have "\<forall>k\<in>set [0..<16]. bitrotate (push_bit k 1) = push_bit (15 - k) 1"
    by code_simp
  then show "k < 16 \<Longrightarrow> ?thesis" by simp
qed

definition right_side :: "switch_loc \<Rightarrow> bool" where
  "right_side loc \<longleftrightarrow> loc = CBR \<or> loc = SYNTR \<or> loc = SYNBR"

definition line_bit :: "hicann_v \<Rightarrow> switch_loc \<Rightarrow> nat \<Rightarrow> nat \<Rightarrow> nat option" where
  "line_bit v loc h l =
     (let k = (if right_side loc then l - 128 else l) in
      if (if right_side loc then 128 \<le> l \<and> l < 256 else l < 128) then
        if loc = CBL \<or> loc = CBR then
          (if h < 64 \<and> k mod 32 = (case v of HV1 \<Rightarrow> h mod 32 | HV2 \<Rightarrow> h div 2) then Some (k div 32) else None)
        else
          (let e = (h - h mod 2) mod 64; q = k - k mod 4 + 2 * e + 4 in
           if h < 112 \<and> q mod 32 = 0 then Some (15 - (4 * (q div 32 - e div 16 - 1) + k mod 4)) else None)
      else None)"

lemma unat_half: "unat ((x :: u32) div 2) = unat x div 2"
  by (simp add: unat_div)

lemma unat_and_31: "unat ((x :: u32) AND 0x1f) = unat x mod 32"
proof -
  have "x AND 0x1f = take_bit 5 x" by (simp add: take_bit_eq_mask mask_eq_exp_minus_1)
  then have "unat (x AND 0x1f) = take_bit 5 (unat x)" by (simp only: unsigned_take_bit_eq)
  then show ?thesis by (simp add: take_bit_eq_mod)
qed

lemma unat_and_63: "unat ((x :: u32) AND 0x3f) = unat x mod 64"
proof -
  have "x AND 0x3f = take_bit 6 x" by (simp add: take_bit_eq_mask mask_eq_exp_minus_1)
  then have "unat (x AND 0x3f) = take_bit 6 (unat x)" by (simp only: unsigned_take_bit_eq)
  then show ?thesis by (simp add: take_bit_eq_mod)
qed

lemma cb_guard_iff:
  "cb_guard v hor ver \<longleftrightarrow> unat hor < 64 \<and>
     unat ver mod 32 = (case v of HV1 \<Rightarrow> unat hor mod 32 | HV2 \<Rightarrow> unat hor div 2)"
proof (cases "unat hor < 64")
  case True
  let ?h = "case v of HV1 \<Rightarrow> hor AND 0x1f | HV2 \<Rightarrow> hor div 2"
  have h: "unat ?h = (case v of HV1 \<Rightarrow> unat hor mod 32 | HV2 \<Rightarrow> unat hor div 2)"
    by (cases v) (simp_all add: unat_half unat_and_31)
  moreover have "unat ?h < 32" using True h by (cases v) auto
  ultimately show ?thesis
    using True ofs32 [of ?h ver] by (simp add: cb_guard_def word_less_nat_alt)
qed (simp add: cb_guard_def word_less_nat_alt)

lemma transline_cb_bit:
  assumes "cb_guard v hor ver" and "unat ver < 128"
  shows "transline_cb v hor ver = push_bit (unat ver div 32) 1"
proof -
  let ?h = "case v of HV1 \<Rightarrow> hor AND 0x1f | HV2 \<Rightarrow> hor div 2"
  have "unat ver mod 32 = unat ?h"
    using assms(1) cb_guard_iff [of v hor ver] by (cases v) (simp_all add: unat_half unat_and_31)
  then have "unat ((ver - ?h) div 32) = unat ver div 32" by (rule div32)
  then show ?thesis
    using assms(2) by (simp add: transline_cb_def bit_at_unat Let_def)
qed

lemma syn_sum:
  fixes ver hor :: u32
  assumes "unat ver < 256"
  shows "unat (ver + 2 * (hor AND 0x3f) + 4) = unat ver + 2 * (unat hor mod 64) + 4"
proof -
  have "unat (2 * (hor AND 0x3f)) = 2 * (unat hor mod 64)"
    by (simp add: unat_word_ariths unat_and_63)
  moreover have "unat ver + 2 * (unat hor mod 64) + 4 < 2 ^ 32"
    using assms by simp
  ultimately show ?thesis
    using assms by (simp add: unat_word_ariths)
qed

lemma syn_guard_iff:
  assumes "unat ver < 256"
  shows "syn_guard hor ver \<longleftrightarrow> unat hor < 112 \<and> (unat ver + 2 * (unat hor mod 64) + 4) mod 32 = 0"
  using syn_sum [OF assms, of hor]
  by (auto simp: syn_guard_def word_less_nat_alt word_unat_eq_iff unat_mod)

lemma syn_group:
  fixes l e :: nat
  assumes "(l + 2 * e + 4) mod 32 = 0" and "l < 128" and "even e"
  defines "z \<equiv> (l + 2 * e + 4) div 32 - e div 16 - 1"
  shows "z \<le> 3" "l + 2 * e + 4 = 32 * (z + e div 16 + 1)"
proof -
  obtain q where q: "l + 2 * e + 4 = 32 * q" using assms(1) by (auto simp: mod_eq_0_iff_dvd elim: dvdE)
  define a where "a = e div 16"
  define b where "b = e mod 16"
  have ab: "e = 16 * a + b" "b < 16" by (simp_all add: a_def b_def)
  have "even b" using ab(1) assms(3) by simp
  then have "b \<noteq> 15" by auto
  then have "b \<le> 14" using ab(2) by simp
  then have "32 * a < 32 * q" "32 * q < 32 * (a + 5)" using q ab(1) assms(2) by simp_all
  then have qa: "a + 1 \<le> q" "q \<le> a + 4" by simp_all
  have "z = q - a - 1" unfolding z_def q a_def by simp
  then show "z \<le> 3" "l + 2 * e + 4 = 32 * (z + e div 16 + 1)"
    using qa q by (simp_all add: a_def)
qed

lemma transline_syn_bit:
  assumes "syn_guard hor ver" and "unat ver < 128" and "unat ver mod 4 = 0" and "unat mo < 4"
    and "even (unat hor)"
  defines "e \<equiv> unat hor mod 64"
  defines "z \<equiv> (unat ver + 2 * e + 4) div 32 - e div 16 - 1"
  shows "transline_syn hor ver mo = push_bit (15 - (4 * z + unat mo)) 1" "z \<le> 3"
proof -
  have m: "(unat ver + 2 * e + 4) mod 32 = 0"
    using assms(1,2) syn_guard_iff [of ver hor] by (simp add: e_def)
  have "even e" unfolding e_def using assms(5) by (intro dvd_mod) simp_all
  then have g: "z \<le> 3" "unat ver + 2 * e + 4 = 32 * (z + e div 16 + 1)"
    using syn_group [OF m assms(2)] by (simp_all add: z_def)
  then show z3: "z \<le> 3" by simp
  define a where "a = e div 16"
  define q where "q = z + a + 1"
  have q: "unat ver + 2 * e + 4 = 32 * q" "a + 1 \<le> q" "z = q - a - 1" using g by (simp_all add: q_def a_def)
  let ?s = "(ver + 2 * (hor AND 0x3f) + 4) div 32"
  let ?t = "(hor AND 0x3f) div 16"
  have s: "unat ?s = q" using syn_sum [of ver hor] assms(2) q(1) by (simp add: unat_div e_def)
  have t: "unat ?t = a" by (simp add: unat_div unat_and_63 e_def a_def)
  have "unat (?s - ?t) = q - a"
    using s t q(2) by (simp add: unat_sub word_le_nat_alt)
  then have "unat (?s - ?t - 1) = z"
    using q(2,3) by (simp add: unat_sub word_le_nat_alt)
  then show "transline_syn hor ver mo = push_bit (15 - (4 * z + unat mo)) 1"
    using z3 assms(4) bitrotate_bit [of "4 * z + unat mo"] by (simp add: transline_syn_def Let_def bit_at_unat)
qed

lemma line_bit_left:
  assumes "\<not> right_side loc"
  shows "line_bit v loc h l = (if l < 128 then
      if loc = CBL \<or> loc = CBR then
        (if h < 64 \<and> l mod 32 = (case v of HV1 \<Rightarrow> h mod 32 | HV2 \<Rightarrow> h div 2) then Some (l div 32) else None)
      else
        (let e = (h - h mod 2) mod 64; q = l - l mod 4 + 2 * e + 4 in
         if h < 112 \<and> q mod 32 = 0 then Some (15 - (4 * (q div 32 - e div 16 - 1) + l mod 4)) else None)
    else None)"
  using assms by (simp add: line_bit_def Let_def)

text \<open>The right half of the chip is the left one with 128 added to the vertical lines.\<close>

definition mirror :: "switch_loc \<Rightarrow> switch_loc" where
  "mirror loc = (case loc of CBR \<Rightarrow> CBL | SYNTR \<Rightarrow> SYNTL | SYNBR \<Rightarrow> SYNBL | _ \<Rightarrow> loc)"

lemma mirror_left: "\<not> right_side (mirror loc)"
  by (cases loc) (simp_all add: mirror_def right_side_def)

lemma line_bit_right:
  assumes "right_side loc"
  shows "line_bit v loc h l = (if 128 \<le> l then line_bit v (mirror loc) h (l - 128) else None)"
proof (cases "128 \<le> l")
  case True
  then have "l < 256 \<longleftrightarrow> l - 128 < 128" by linarith
  then show ?thesis
    using assms True by (cases loc) (simp_all add: line_bit_def right_side_def mirror_def Let_def)
qed (use assms in \<open>simp add: line_bit_def Let_def\<close>)

lemma line_bit_less_left:
  assumes "\<not> right_side loc" and "line_bit v loc h l = Some k"
  shows "k < 16"
proof -
  have "(k = l div 32 \<and> l < 128) \<or> (\<exists>x. k = 15 - x)"
    using assms(2) unfolding line_bit_left [OF assms(1)] Let_def
    by (auto simp only: option.inject option.distinct split: if_splits)
  then show ?thesis by auto
qed

lemma line_bit_less: "line_bit v loc h l = Some k \<Longrightarrow> k < 16"
  using line_bit_less_left [of loc v h l k] line_bit_less_left [OF mirror_left, of v loc h "l - 128" k]
    line_bit_right [of loc v h l] by (cases "right_side loc") (auto split: if_splits)

lemma sub4: "unat (if ver mod 4 \<noteq> 0 then ver - ver mod 4 else (ver :: u32)) = unat ver - unat ver mod 4"
proof (cases "ver mod 4 = 0")
  case True
  have "unat ver mod 4 = unat (ver mod 4)" by (simp add: unat_mod)
  also have "\<dots> = 0" using True by (simp only: unat_0)
  finally show ?thesis using True by simp
next
  case False
  have "unat (ver - ver mod 4) = unat ver - unat (ver mod 4)"
    by (rule unat_sub) (simp add: word_le_nat_alt unat_mod)
  then show ?thesis using False by (simp add: unat_mod)
qed

lemma sub2: "unat (if hor mod 2 \<noteq> 0 then hor - 1 else (hor :: u32)) = unat hor - unat hor mod 2"
proof (cases "hor mod 2 = 0")
  case True
  have "unat hor mod 2 = unat (hor mod 2)" by (simp add: unat_mod)
  also have "\<dots> = 0" using True by (simp only: unat_0)
  finally show ?thesis using True by simp
next
  case False
  then have "unat (hor mod 2) \<noteq> 0" by (simp add: unat_eq_zero)
  then have *: "unat hor mod 2 = 1" by (simp add: unat_mod)
  then have "unat hor \<noteq> 0" by auto
  then show ?thesis using False * by (simp add: unat_sub word_le_nat_alt)
qed

lemma unat_sub_128: "128 \<le> unat (ver :: u32) \<Longrightarrow> unat (ver - 128) = unat ver - 128"
  by (simp add: unat_sub word_le_nat_alt)

lemma transline_left_cb: "transline v CBL hor ver =
    (case line_bit v CBL (unat hor) (unat ver) of None \<Rightarrow> 0 | Some k \<Rightarrow> push_bit k 1)"
  using cb_guard_iff [of v hor ver] transline_cb_bit [of v hor ver]
  by (auto simp: transline_def line_bit_left right_side_def word_less_nat_alt)

lemma mod_shift: "128 \<le> x \<Longrightarrow> (x - 128) mod 32 = x mod (32 :: nat)"
proof -
  assume "128 \<le> x"
  then obtain y where "x = y + 128" by (metis le_add_diff_inverse2)
  then have "x mod 32 = (y + 4 * 32) mod 32" by simp
  also have "\<dots> = y mod 32" by (simp only: mod_mult_self1)
  finally show ?thesis using \<open>x = y + 128\<close> by simp
qed

lemma transline_right_cb: "transline v CBR hor ver =
    (case line_bit v CBR (unat hor) (unat ver) of None \<Rightarrow> 0 | Some k \<Rightarrow> push_bit k 1)"
proof (cases "128 \<le> unat ver \<and> unat ver < 256")
  case True
  then have "cb_guard v hor (ver - 128) = cb_guard v hor ver"
    by (simp add: cb_guard_iff unat_sub_128 mod_shift)
  then have "transline v CBR hor ver = transline v CBL hor (ver - 128)"
    using True by (simp add: transline_def word_less_nat_alt unat_sub_128 less_diff_conv2)
  then show ?thesis
    using True transline_left_cb [of v hor "ver - 128"]
    by (simp add: line_bit_right right_side_def mirror_def unat_sub_128)
next
  case False
  then show ?thesis
    by (auto simp: transline_def line_bit_def right_side_def word_less_nat_alt)
qed

definition even_line :: "u32 \<Rightarrow> u32" where
  "even_line hor = (if hor mod 2 \<noteq> 0 then hor - 1 else hor)"

definition quad_line :: "u32 \<Rightarrow> u32" where
  "quad_line ver = (if ver mod 4 \<noteq> 0 then ver - ver mod 4 else ver)"

lemma quad_line_add: "quad_line ver + ver mod 4 = ver"
  by (simp add: quad_line_def)

lemma left_syn_code:
  assumes "loc = SYNTL \<or> loc = SYNBL"
  shows "transline v loc hor ver =
    (if syn_guard (even_line hor) (quad_line ver) \<and> unat ver < 128
     then transline_syn (even_line hor) (quad_line ver) (ver mod 4) else 0)"
  using assms quad_line_add [of ver]
  by (auto simp: transline_def Let_def even_line_def quad_line_def word_less_nat_alt)

lemma transline_left_syn:
  assumes "loc = SYNTL \<or> loc = SYNBL"
  shows "transline v loc hor ver =
    (case line_bit v loc (unat hor) (unat ver) of None \<Rightarrow> 0 | Some k \<Rightarrow> push_bit k 1)"
proof -
  note code = left_syn_code [OF assms]
  have l: "\<not> right_side loc" "loc \<noteq> CBL" "loc \<noteq> CBR" using assms by (auto simp: right_side_def)
  show ?thesis
  proof (cases "unat ver < 128")
    case True
    let ?h = "unat hor - unat hor mod 2" and ?q = "unat ver - unat ver mod 4"
    have u: "unat (even_line hor) = ?h" "unat (quad_line ver) = ?q" "unat (ver mod 4) = unat ver mod 4"
      by (simp_all only: even_line_def quad_line_def sub2 sub4) (simp add: unat_mod)
    have lt: "?q < 128" using True by simp
    have h: "?h < 112 \<longleftrightarrow> unat hor < 112"
    proof
      assume a: "?h < 112"
      have "?h = 2 * (unat hor div 2)" by (simp add: minus_mod_eq_mult_div)
      then have "unat hor div 2 < 56" using a by simp
      then show "unat hor < 112" by (simp add: div_less_iff_less_mult)
    qed linarith
    have g: "syn_guard (even_line hor) (quad_line ver) \<longleftrightarrow>
        unat hor < 112 \<and> (?q + 2 * (?h mod 64) + 4) mod 32 = 0"
      using syn_guard_iff [of "quad_line ver" "even_line hor"] u lt h by simp
    have r: "transline_syn (even_line hor) (quad_line ver) (ver mod 4) =
        push_bit (15 - (4 * ((?q + 2 * (?h mod 64) + 4) div 32 - ?h mod 64 div 16 - 1) + unat ver mod 4)) 1"
      if "syn_guard (even_line hor) (quad_line ver)"
    proof -
      have a: "(unat ver - unat ver mod 4) mod 4 = 0" "even (unat hor - unat hor mod 2)"
        "unat ver mod 4 < 4"
        by (simp_all add: minus_mod_eq_mult_div)
      show ?thesis
        by (rule transline_syn_bit(1) [OF that, of "ver mod 4", unfolded u, OF lt a(1,3,2)])
    qed
    have lb: "line_bit v loc (unat hor) (unat ver) =
        (if syn_guard (even_line hor) (quad_line ver)
         then Some (15 - (4 * ((?q + 2 * (?h mod 64) + 4) div 32 - ?h mod 64 div 16 - 1) + unat ver mod 4))
         else None)"
      unfolding g by (simp only: line_bit_left [OF l(1)] Let_def l(2,3) simp_thms if_True if_False True)
    show ?thesis
    proof (cases "syn_guard (even_line hor) (quad_line ver)")
      case G: True
      then show ?thesis
        using True by (simp only: code lb r [OF G] simp_thms if_True option.case)
    next
      case G: False
      then show ?thesis
        by (simp only: code lb simp_thms if_False option.case)
    qed
  qed (use code line_bit_left [OF l(1)] in simp)
qed

lemma mod_shift4: "128 \<le> x \<Longrightarrow> (x - 128) mod 4 = x mod (4 :: nat)"
proof -
  assume "128 \<le> x"
  then obtain y where "x = y + 128" by (metis le_add_diff_inverse2)
  then have "x mod 4 = (y + 32 * 4) mod 4" by simp
  also have "\<dots> = y mod 4" by (simp only: mod_mult_self1)
  finally show ?thesis using \<open>x = y + 128\<close> by simp
qed

lemma mod_shift32: "(128 + x) mod 32 = x mod (32 :: nat)"
  using mod_mult_self1 [of x 4 32] by (simp add: add.commute)

lemma transline_right_syn:
  assumes "loc = SYNTR \<or> loc = SYNBR"
  shows "transline v loc hor ver =
    (case line_bit v loc (unat hor) (unat ver) of None \<Rightarrow> 0 | Some k \<Rightarrow> push_bit k 1)"
proof -
  have code: "transline v loc hor ver =
    (if syn_guard (even_line hor) (quad_line ver) \<and> 128 \<le> unat ver \<and> unat ver < 256
     then transline_syn (even_line hor) (quad_line ver - 128) (ver mod 4) else 0)"
    using assms quad_line_add [of ver]
    by (auto simp: transline_def Let_def even_line_def quad_line_def word_less_nat_alt)
  have r: "right_side loc" using assms by (auto simp: right_side_def)
  show ?thesis
  proof (cases "128 \<le> unat ver \<and> unat ver < 256")
    case True
    have m4: "(ver - 128) mod 4 = ver mod 4"
      using True by (simp add: word_unat_eq_iff unat_mod unat_sub_128 mod_shift4)
    then have q: "quad_line (ver - 128) = quad_line ver - 128"
      by (simp add: quad_line_def)
    have u: "unat (quad_line ver) = unat ver - unat ver mod 4"
      by (simp only: quad_line_def sub4)
    have le: "128 \<le> unat (quad_line ver)"
      using True u div_le_mono [of 128 "unat ver" 4] by (simp add: minus_mod_eq_mult_div)
    have lt: "unat (quad_line ver) < 256"
      unfolding u using True by (intro le_less_trans [OF diff_le_self]) simp
    have "unat (quad_line ver) = 128 + unat (quad_line (ver - 128))"
      using le q by (simp add: unat_sub_128)
    then have "syn_guard (even_line hor) (quad_line (ver - 128)) = syn_guard (even_line hor) (quad_line ver)"
      using lt mod_shift32 [of "unat (quad_line (ver - 128)) + 2 * (unat (even_line hor) mod 64) + 4"]
        syn_guard_iff [of "quad_line ver"] syn_guard_iff [of "quad_line (ver - 128)"]
      by (simp only: add.assoc)
    moreover have mir: "mirror loc = SYNTL \<or> mirror loc = SYNBL" using assms by (auto simp: mirror_def)
    ultimately have "transline v loc hor ver = transline v (mirror loc) hor (ver - 128)"
      unfolding code left_syn_code [OF mir] q m4 using True by (simp add: unat_sub_128 less_diff_conv2)
    then show ?thesis
      using transline_left_syn [OF mir, of v hor "ver - 128"] True
      by (simp add: line_bit_right [OF r] unat_sub_128)
  next
    case False
    then have no: "\<not> (if right_side loc then 128 \<le> unat ver \<and> unat ver < 256 else unat ver < 128)"
      using r by simp
    have "line_bit v loc (unat hor) (unat ver) = None"
      unfolding line_bit_def Let_def by (simp only: no if_False)
    then show ?thesis using code False by simp
  qed
qed

text \<open>Claim C7: \<open>transline\<close> is right for every switch block: it returns the word with exactly the
  bit the documentation assigns to the pair of lines, and 0 for lines that cannot be connected.\<close>

theorem transline_correct:
  "transline v loc hor ver =
    (case line_bit v loc (unat hor) (unat ver) of None \<Rightarrow> 0 | Some k \<Rightarrow> push_bit k 1)"
  using transline_left_cb transline_right_cb transline_left_syn transline_right_syn
  by (cases loc) simp_all

lemma line_bit_inj_left:
  assumes "\<not> right_side loc" and "line_bit v loc h l = Some k" and "line_bit v loc h m = Some k"
  shows "l = m"
proof (cases "loc = CBL \<or> loc = CBR")
  case True
  have "line_bit v loc h l = (if l < 128 then
      if h < 64 \<and> l mod 32 = (case v of HV1 \<Rightarrow> h mod 32 | HV2 \<Rightarrow> h div 2) then Some (l div 32) else None
      else None)" for l
    by (simp only: line_bit_left [OF assms(1)] True if_True)
  then have "l mod 32 = m mod 32 \<and> l div 32 = m div 32"
    using assms(2,3) by (simp only: option.inject option.distinct split: if_splits)
  then show ?thesis by (metis mult_div_mod_eq)
next
  case False
  define e where "e = (h - h mod 2) mod 64"
  define q where "q l = l - l mod 4 + 2 * e + 4" for l
  define z where "z l = q l div 32 - e div 16 - 1" for l
  have k: "q l mod 32 = 0 \<and> k = 15 - (4 * z l + l mod 4) \<and> l < 128"
    if "line_bit v loc h l = Some k" for l
  proof -
    have "line_bit v loc h l = (if l < 128 then
        if h < 112 \<and> q l mod 32 = 0 then Some (15 - (4 * z l + l mod 4)) else None else None)"
      using False by (simp only: line_bit_left [OF assms(1)] Let_def e_def q_def z_def if_False)
    then show ?thesis using that by (simp split: if_splits)
  qed
  have "even e" unfolding e_def by (intro dvd_mod) (simp_all add: minus_mod_eq_mult_div)
  have z: "z l \<le> 3 \<and> q l = 32 * (z l + e div 16 + 1)" if "line_bit v loc h l = Some k" for l
  proof -
    have "l - l mod 4 < 128" using k [OF that] by (intro le_less_trans [OF diff_le_self]) simp
    moreover have "(l - l mod 4 + 2 * e + 4) mod 32 = 0"
      using k [OF that, THEN conjunct1] unfolding q_def .
    ultimately show ?thesis
      unfolding q_def z_def
      using syn_group(1) [OF _ _ \<open>even e\<close>, of "l - l mod 4"]
        syn_group(2) [OF _ _ \<open>even e\<close>, of "l - l mod 4"] by (intro conjI) assumption+
  qed
  have "k = 15 - (4 * z l + l mod 4)" "k = 15 - (4 * z m + m mod 4)" "z l \<le> 3" "z m \<le> 3"
    using k [OF assms(2)] k [OF assms(3)] z [OF assms(2)] z [OF assms(3)] by simp_all
  moreover have "l mod 4 < 4" "m mod 4 < 4" by simp_all
  ultimately have "4 * z l + l mod 4 = 4 * z m + m mod 4" by linarith
  then have "(4 * z l + l mod 4) div 4 = (4 * z m + m mod 4) div 4" "(4 * z l + l mod 4) mod 4 = (4 * z m + m mod 4) mod 4"
    by (simp_all only:)
  then have "z l = z m" "l mod 4 = m mod 4" by simp_all
  then have "q l = q m" using z [OF assms(2)] z [OF assms(3)] by simp
  then have "l - l mod 4 = m - m mod 4" by (simp add: q_def)
  then show ?thesis using \<open>l mod 4 = m mod 4\<close> by (metis le_add_diff_inverse2 mod_less_eq_dividend)
qed

lemma line_bit_inj: "line_bit v loc h l = Some k \<Longrightarrow> line_bit v loc h m = Some k \<Longrightarrow> l = m"
  using line_bit_inj_left [of loc v h l k m] line_bit_inj_left [OF mirror_left, of v loc h "l - 128" k "m - 128"]
    line_bit_right [of loc v h l] line_bit_right [of loc v h m]
  by (cases "right_side loc") (auto split: if_splits)

lemma line_bit_row: "line_bit v loc h l = Some k \<Longrightarrow> h < rows loc"
  unfolding line_bit_def Let_def rows_def by (auto simp only: option.distinct split: if_splits)


text \<open>within a row of a switch block no two vertical lines share a bit: lines that
  \<open>transline\<close> maps to the same non-zero word are the same line.\<close>

theorem transline_injective:
  assumes "transline v loc hor ver = transline v loc hor ver'" and "transline v loc hor ver \<noteq> 0"
  shows "ver = ver'"
proof -
  obtain k where k: "line_bit v loc (unat hor) (unat ver) = Some k"
    using assms(2) by (auto simp: transline_correct split: option.splits)
  obtain m where m: "line_bit v loc (unat hor) (unat ver') = Some m"
    using assms by (auto simp: transline_correct split: option.splits)
  have "push_bit k (1 :: u32) = push_bit m 1"
    using assms(1) k m by (simp add: transline_correct)
  then have "bit (push_bit k (1 :: u32)) k = bit (push_bit m (1 :: u32)) k" by simp
  then have "k = m"
    using line_bit_less [OF k] by (simp add: bit_exp_iff)
  then show ?thesis
    using line_bit_inj [OF k] m by (simp add: word_unat_eq_iff)
qed

theorem transline_injective_witness: "(0 :: u32) = 0 \<and> transline HV2 CBL 0 0 = 1"
proof -
  have "transline HV2 CBL 0 0 = transline HV2 CBL 0 0" "transline HV2 CBL 0 0 \<noteq> 0"
    "transline HV2 CBL 0 0 = 1"
    by code_simp+
  then show ?thesis using transline_injective [of HV2 CBL 0 0 0] by simp
qed

subsection \<open>The module keeps the set of connections\<close>

text \<open>The rows of the switch as a register file: writing a row and the copy of it.\<close>

definition set_row :: "nat \<Rightarrow> u32 \<Rightarrow> (l1switch, unit) hal" where
  "set_row i d = hseq (write_cfg (of_nat i) d) (hmodify (\<lambda>s. s\<lparr>config := (config s)[i := d]\<rparr>))"

definition row_ok :: "nat \<Rightarrow> l1switch \<Rightarrow> bool" where
  "row_ok n s \<longleftrightarrow> length (config s) = n"

definition row_addr :: "l1switch \<Rightarrow> nat \<Rightarrow> u16" where
  "row_addr s i = of_nat i + startaddr s"

definition row_copy :: "l1switch \<Rightarrow> nat \<Rightarrow> u32" where
  "row_copy s i = (if i < length (config s) then config s ! i else 0)"

lemma set_row_cases:
  obtains (throws) e b where "set_row i d s = (Inl e, s\<lparr>bus := b\<rparr>)" "issued b = issued (bus s)"
  | (sets) b where "set_row i d s = (Inr (), s\<lparr>bus := b, config := (config s)[i := d]\<rparr>)"
      "issued b = issued (bus s) @ [(ctag s, \<lparr>pwrite = 1, paddr = row_addr s i, pdat = d\<rparr>)]"
proof (cases rule: write_cmd_cases [of "of_nat i" d s])
  case range
  then show thesis
    by (intro throws [of Range_error "bus s"]) (simp_all add: set_row_def write_cfg_def hseq_Inl)
next
  case (refused b)
  then show thesis
    by (intro throws [of Runtime_error b]) (simp_all add: set_row_def write_cfg_def hseq_Inl)
next
  case (written b)
  then show thesis
    by (intro sets [of b]) (simp_all add: set_row_def write_cfg_def hseq_Inr row_addr_def)
qed

lemma row_addr_inj: "i < 2 ^ 16 \<Longrightarrow> j < 2 ^ 16 \<Longrightarrow> row_addr s i = row_addr s j \<Longrightarrow> i = j"
proof -
  assume "i < 2 ^ 16" "j < 2 ^ 16" "row_addr s i = row_addr s j"
  then have "unat (of_nat i :: u16) = unat (of_nat j :: u16)" by (simp add: row_addr_def)
  then show "i = j"
    using \<open>i < 2 ^ 16\<close> \<open>j < 2 ^ 16\<close> by (simp add: unsigned_of_nat take_bit_nat_eq_self)
qed

lemma shadowed_rows:
  assumes "n \<le> 2 ^ 16"
  shows "shadowed n row_addr row_copy regs (row_ok n) set_row"
proof
  fix s t :: l1switch and i j v e u
  show "row_ok n s \<Longrightarrow> i < n \<Longrightarrow> j < n \<Longrightarrow> row_addr s i = row_addr s j \<Longrightarrow> i = j"
    using row_addr_inj [of i j s] assms by simp
  show "row_ok n t \<and> row_copy t = row_copy s \<and> regs t = regs s \<and> row_addr t = row_addr s"
    if "row_ok n s" "i < n" "set_row i v s = (Inl e, t)"
    by (rule set_row_cases [of i v s]) (use that in \<open>auto simp: row_ok_def row_copy_def regs_def row_addr_def fun_eq_iff\<close>)
  show "row_ok n t \<and> row_copy t = (row_copy s)(i := v) \<and> regs t = (regs s)(row_addr s i \<mapsto> v) \<and> row_addr t = row_addr s"
    if "row_ok n s" "i < n" "set_row i v s = (Inr u, t)"
    by (rule set_row_cases [of i v s]) (use that in \<open>auto simp: row_ok_def row_copy_def regs_def row_addr_def fun_eq_iff nth_list_update\<close>)
qed

interpretation crossbar: shadowed 64 row_addr row_copy regs "row_ok 64" set_row
  by (rule shadowed_rows) simp

interpretation synswitch: shadowed 112 row_addr row_copy regs "row_ok 112" set_row
  by (rule shadowed_rows) simp

lemma set_row_code:
  "hseq (write_cfg (ucast hor) d) (hmodify (\<lambda>s. s\<lparr>config := (config s)[unat hor := f s]\<rparr>)) s =
   set_row (unat hor) d s"
  if "\<And>b. f (s\<lparr>bus := b\<rparr>) = d" "f s = d"
proof (cases rule: write_cmd_cases [of "ucast hor" d s])
  case range
  then show ?thesis by (simp add: set_row_def write_cfg_def hseq_Inl)
next
  case (refused b)
  then show ?thesis by (simp add: set_row_def write_cfg_def hseq_Inl)
next
  case (written b)
  then show ?thesis using that by (simp add: set_row_def write_cfg_def hseq_Inr)
qed

definition row_with :: "u32 \<Rightarrow> nat \<Rightarrow> bool \<Rightarrow> u32" where
  "row_with r k c = (if c then r OR push_bit k 1 else r AND (push_bit k 1 XOR 0xffff))"

lemma switch_connect_set_row:
  "switch_connect v hor ver c s =
    (case line_bit v (sloc s) (unat hor) (unat ver) of None \<Rightarrow> (Inr (), s)
     | Some k \<Rightarrow> set_row (unat hor) (row_with (config s ! unat hor) k c) s)"
proof (cases "line_bit v (sloc s) (unat hor) (unat ver)")
  case None
  then show ?thesis by (simp add: switch_connect_def transline_correct)
next
  case (Some k)
  then have "push_bit k (1 :: u32) \<noteq> 0"
    using line_bit_less [OF Some] by (simp add: push_bit_eq_mult)
  then show ?thesis
    using Some by (simp add: switch_connect_def transline_correct row_with_def set_row_code Let_def)
qed

text \<open>The connections the module's copy stands for, and those the chip's registers stand for where
  they have been written.\<close>

definition connections :: "hicann_v \<Rightarrow> l1switch \<Rightarrow> (nat \<times> nat) set" where
  "connections v s = {(h, l). \<exists>k. line_bit v (sloc s) h l = Some k \<and> bit (config s ! h) k}"

lemma bit_row_with:
  assumes "k < 16" and "j < 16"
  shows "bit (row_with r k c) j = (if j = k then c else bit r j)"
proof -
  have m: "bit (0xffff :: u32) j" if "j < 16" for j
  proof -
    have "bit (mask 16 :: u32) j" using that by (simp add: bit_mask_iff)
    then show ?thesis by (simp add: mask_eq_exp_minus_1)
  qed
  show ?thesis
    using assms m [OF assms(2)] by (cases c) (auto simp: row_with_def bit_or_iff bit_and_iff bit_xor_iff bit_exp_iff)
qed

lemma connections_set_row:
  assumes "length (config s) = rows (sloc s)" and "line_bit v (sloc s) h l = Some k"
    and "config t = (config s)[h := row_with (config s ! h) k c]" and "sloc t = sloc s"
  shows "connections v t = (if c then insert (h, l) (connections v s) else connections v s - {(h, l)})"
proof -
  have h: "h < length (config s)" using line_bit_row [OF assms(2)] assms(1) by simp
  have "(i, m) \<in> connections v t \<longleftrightarrow> (if (i, m) = (h, l) then c else (i, m) \<in> connections v s)" for i m
  proof (cases "i = h")
    case False
    then show ?thesis using assms(3,4) by (simp add: connections_def)
  next
    case True
    show ?thesis
    proof (cases "line_bit v (sloc s) h m")
      case None
      then show ?thesis using True assms(2,4) by (auto simp: connections_def)
    next
      case (Some j)
      have "j = k \<longleftrightarrow> m = l"
      proof
        assume "j = k"
        then show "m = l" using line_bit_inj [OF Some, of l] assms(2) by simp
      qed (use Some assms(2) in simp)
      moreover have "bit (config t ! h) j = (if j = k then c else bit (config s ! h) j)"
        using h assms(3) bit_row_with [OF line_bit_less [OF assms(2)] line_bit_less [OF Some]] by simp
      ultimately show ?thesis
        using True Some assms(4) by (simp add: connections_def)
    qed
  qed
  then have "x \<in> connections v t \<longleftrightarrow> (if x = (h, l) then c else x \<in> connections v s)" for x
    by (cases x) (simp only:)
  then show ?thesis by (intro set_eqI) simp
qed

text \<open>Claim C8: \<open>switch_connect\<close> implements adding and removing one pair of lines: for lines that
  can be connected it either throws and leaves the module's copy as it was, or changes exactly
  that connection; for others it does nothing.\<close>

theorem switch_connect_refines:
  assumes "length (config s) = rows (sloc s)" and "switch_connect v hor ver c s = (r, t)"
  shows "case line_bit v (sloc s) (unat hor) (unat ver) of
      None \<Rightarrow> r = Inr () \<and> t = s
    | Some k \<Rightarrow> (\<exists>e. r = Inl e \<and> connections v t = connections v s) \<or>
        (r = Inr () \<and> connections v t =
          (if c then insert (unat hor, unat ver) (connections v s)
           else connections v s - {(unat hor, unat ver)}))"
proof (cases "line_bit v (sloc s) (unat hor) (unat ver)")
  case None
  then show ?thesis using assms(2) by (simp add: switch_connect_set_row)
next
  case (Some k)
  then have run: "set_row (unat hor) (row_with (config s ! unat hor) k c) s = (r, t)"
    using assms(2) by (simp add: switch_connect_set_row)
  show ?thesis
  proof (cases rule: set_row_cases [of "unat hor" "row_with (config s ! unat hor) k c" s])
    case (throws e b)
    then show ?thesis using run Some by (auto simp: connections_def)
  next
    case (sets b)
    then show ?thesis
      using run Some connections_set_row [OF assms(1) Some, of t c] by auto
  qed
qed

definition demo_switch :: l1switch where
  "demo_switch = L1SwitchControl_new CBL \<lparr>issued = [], rxdata = (\<lambda>_. []), env = []\<rparr> 0
     (astart OcpCb_l) (amax OcpCb_l)"

theorem switch_connect_refines_witness:
  "fst (switch_connect HV2 6 35 True demo_switch) = Inr () \<and>
   connections HV2 (snd (switch_connect HV2 6 35 True demo_switch)) = insert (6, 35) (connections HV2 demo_switch)"
proof -
  have len: "length (config demo_switch) = rows (sloc demo_switch)"
    by (simp add: demo_switch_def L1SwitchControl_new_def)
  have lb: "line_bit HV2 (sloc demo_switch) (unat (6 :: u32)) (unat (35 :: u32)) = Some 1"
    by code_simp
  have ok: "fst (switch_connect HV2 6 35 True demo_switch) = Inr ()"
    by code_simp
  then have run: "switch_connect HV2 6 35 True demo_switch =
      (Inr (), snd (switch_connect HV2 6 35 True demo_switch))"
    by (metis prod.collapse)
  have "connections HV2 (snd (switch_connect HV2 6 35 True demo_switch)) =
      insert (unat (6 :: u32), unat (35 :: u32)) (connections HV2 demo_switch)"
    using switch_connect_refines [OF len run] unfolding lb by simp
  then show ?thesis using ok by simp
qed

text \<open>the copy stays true to the chip: if every row of a crossbar that was ever written
  holds what the copy says, this is so after any \<open>switch_connect\<close>, whether it returns or throws.\<close>

theorem switch_connect_coherent:
  assumes "length (config s) = 64" and "sloc s = CBL \<or> sloc s = CBR"
    and "\<forall>i<64. \<forall>d. regs s (row_addr s i) = Some d \<longrightarrow> d = config s ! i"
  shows "\<forall>i<64. \<forall>d. regs (snd (switch_connect v hor ver c s)) (row_addr s i) = Some d \<longrightarrow>
    d = config (snd (switch_connect v hor ver c s)) ! i"
proof (cases "line_bit v (sloc s) (unat hor) (unat ver)")
  case None
  then show ?thesis using assms(3) by (simp add: switch_connect_set_row)
next
  case (Some k)
  let ?d = "row_with (config s ! unat hor) k c"
  let ?t = "snd (set_row (unat hor) ?d s)"
  have h: "unat hor < 64" using line_bit_row [OF Some] assms(2) by (auto simp: rows_def)
  have "crossbar.coherent s"
    using assms by (auto simp: crossbar.coherent_def row_ok_def row_copy_def)
  then have "crossbar.coherent ?t" by (rule crossbar.set_coherent [OF _ h])
  moreover have "row_addr ?t = row_addr s"
    by (rule set_row_cases [of "unat hor" ?d s]) (simp_all add: row_addr_def fun_eq_iff)
  ultimately have "length (config ?t) = 64 \<and> (\<forall>i<64. \<forall>d. regs ?t (row_addr s i) = Some d \<longrightarrow> d = row_copy ?t i)"
    by (simp add: crossbar.coherent_def row_ok_def)
  then have "\<forall>i<64. \<forall>d. regs ?t (row_addr s i) = Some d \<longrightarrow> d = config ?t ! i"
    by (auto simp only: row_copy_def if_True)
  then show ?thesis
    using Some by (simp add: switch_connect_set_row)
qed

theorem switch_connect_coherent_witness:
  "regs (snd (switch_connect HV2 6 35 True demo_switch)) (row_addr demo_switch 6) = Some 2 \<and>
   config (snd (switch_connect HV2 6 35 True demo_switch)) ! 6 = 2"
proof -
  have reg: "regs (snd (switch_connect HV2 6 35 True demo_switch)) (row_addr demo_switch 6) = Some 2"
    by code_simp
  have "\<forall>i<64. \<forall>d. regs (snd (switch_connect HV2 6 35 True demo_switch)) (row_addr demo_switch i) = Some d \<longrightarrow>
    d = config (snd (switch_connect HV2 6 35 True demo_switch)) ! i"
    by (rule switch_connect_coherent)
      (simp_all add: demo_switch_def L1SwitchControl_new_def rows_def regs_def)
  then show ?thesis using reg by fastforce
qed

end
