(* ===== verification/Repeater.thy ===== *)
theory Repeater
  imports L1switch
begin

text \<open>
  The layer-1 repeaters (\<open>repeater_control.cpp\<close>): the SRAM word of each repeater with its copy
  \<open>config\<close>, the busy flags of the two test outputs, and the start bits. The results: the
  addresses are a permutation, the copy stays true to the chip, the two drivers of a repeater
  are never both on, and how the busy flag of a test output gets lost.
\<close>

datatype rep_loc = REPL | REPR | REPTL | REPBL | REPTR | REPBR

datatype rep_direction = OUTWARDS | INWARDS

datatype rep_mode = FORWARD | TESTIN | TESTOUT | SPL1OUT

definition rc_config :: u32 where "rc_config = 0x80"
definition rc_status :: u32 where "rc_status = 0x80"
definition rc_td0 :: u32 where "rc_td0 = 0x81"
definition rc_td1 :: u32 where "rc_td1 = 0x87"

definition rc_touten :: u32 where "rc_touten = 0x80"
definition rc_tinen :: u32 where "rc_tinen = 0x40"
definition rc_recen :: u32 where "rc_recen = 0x20"
definition rc_dir :: u32 where "rc_dir = 0x10"

definition rc_drvresetb :: u32 where "rc_drvresetb = 0x20"
definition rc_dllresetb :: u32 where "rc_dllresetb = 0x10"
definition rc_start_tdi1 :: u32 where "rc_start_tdi1 = 8"
definition rc_start_tdi0 :: u32 where "rc_start_tdi0 = 4"
definition rc_start_tdo1 :: u32 where "rc_start_tdo1 = 2"
definition rc_start_tdo0 :: u32 where "rc_start_tdo0 = 1"

definition addrmsb_repctrl :: nat where "addrmsb_repctrl = 7"
definition cnfgadr_repctrl :: nat where "cnfgadr_repctrl = 5"

lemmas rc_defs = rc_config_def rc_status_def rc_td0_def rc_td1_def rc_touten_def rc_tinen_def
  rc_recen_def rc_dir_def rc_drvresetb_def rc_dllresetb_def rc_start_tdi1_def rc_start_tdi0_def
  rc_start_tdo1_def rc_start_tdo0_def addrmsb_repctrl_def cnfgadr_repctrl_def

record repeater = ctrlmod +
  rloc :: rep_loc
  rconfig :: "u32 list"
  outputflag :: "u32 list"
  startconf :: u32

definition rep_count :: "rep_loc \<Rightarrow> nat" where
  "rep_count l = (if l = REPL \<or> l = REPR then 32 else 64)"

definition RepeaterControl_new :: "rep_loc \<Rightarrow> bus \<Rightarrow> u32 \<Rightarrow> u16 \<Rightarrow> u16 \<Rightarrow> repeater" where
  "RepeaterControl_new cl c ta sa ma = \<lparr>bus = c, ctag = ta, startaddr = sa, maxaddr = ma,
     rloc = cl, rconfig = replicate (rep_count cl) 0, outputflag = [65, 65], startconf = 0\<rparr>"

subsection \<open>Addresses and single words\<close>

definition bitrev7 :: "u32 \<Rightarrow> u32" where
  "bitrev7 ad = fold (\<lambda>i ra. ra OR (if ad AND push_bit i 1 \<noteq> 0 then push_bit (6 - i) 1 else 0)) [0..<7] 0"

definition repaddr :: "hicann_v \<Rightarrow> rep_loc \<Rightarrow> u32 \<Rightarrow> u32" where
  "repaddr v l ad = (case v of
     HV2 \<Rightarrow> if l = REPL \<or> l = REPBL \<or> l = REPBR then ad
            else if l = REPTL \<or> l = REPTR then (ad + 1) AND 0x3f
            else if l = REPR then (32 - ad) AND 0x1f
            else 0xffffffff
   | HV1 \<Rightarrow> bitrev7 ad)"

definition rep_read :: "u32 \<Rightarrow> (repeater, u32) hal" where
  "rep_read commaddr = hseq (read_cmd (ucast commaddr)) (hbind get_data (\<lambda>tmp. hret (pdat tmp AND 0xff)))"

definition rep_write :: "u32 \<Rightarrow> u32 \<Rightarrow> (repeater, int) hal" where
  "rep_write commaddr d = write_cmd (ucast commaddr) d"

text \<open>\<open>config[rep_nr]\<close>: an index past the vector's end is undefined.\<close>

definition rcfg :: "u32 \<Rightarrow> (repeater, u32) hal" where
  "rcfg r = (\<lambda>s. if unat r < length (rconfig s) then (Inr (rconfig s ! unat r), s)
     else (Inl Undefined_behaviour, s))"

definition set_rcfg :: "u32 \<Rightarrow> u32 \<Rightarrow> (repeater, unit) hal" where
  "set_rcfg r d = hmodify (\<lambda>s. s\<lparr>rconfig := (rconfig s)[unat r := d]\<rparr>)"

text \<open>Write the word of a repeater, then the copy.\<close>

definition put_rcfg :: "hicann_v \<Rightarrow> u32 \<Rightarrow> u32 \<Rightarrow> (repeater, unit) hal" where
  "put_rcfg v r d = hbind (hget rloc) (\<lambda>l. hseq (rep_write (repaddr v l r) d) (set_rcfg r d))"

text \<open>The pattern of all single-bit operations: set or clear the bits \<open>m\<close> in word and copy.\<close>

definition switch_bits :: "hicann_v \<Rightarrow> u32 \<Rightarrow> u32 \<Rightarrow> bool \<Rightarrow> (repeater, unit) hal" where
  "switch_bits v r m on = hbind (rcfg r) (\<lambda>d.
     if on then put_rcfg v r (d OR m) else put_rcfg v r (d AND (m XOR 0xff)))"

subsection \<open>Operations\<close>

definition rep_configure :: "hicann_v \<Rightarrow> (repeater, unit) hal" where
  "rep_configure v = (\<lambda>s. hfor [0..<length (rconfig s)] (\<lambda>i.
     hbind (rep_read (repaddr v (rloc s) (of_nat i))) (\<lambda>d.
       hseq (set_rcfg (of_nat i) d)
        (hwhen (d AND rc_touten \<noteq> 0)
          (hmodify (\<lambda>s. s\<lparr>outputflag := (outputflag s)[i mod 2 := of_nat i]\<rparr>))))) s)"

definition is_spl1rep :: "rep_loc \<Rightarrow> u32 \<Rightarrow> bool" where
  "is_spl1rep l r \<longleftrightarrow> \<not> (l \<noteq> REPL \<or> r > 28 \<or> r mod 4 \<noteq> 0)"

definition rep_reset :: "hicann_v \<Rightarrow> (repeater, unit) hal" where
  "rep_reset v = hbind (hget rloc) (\<lambda>l.
     hseq (hfor [0..<rep_count l] (\<lambda>r. put_rcfg v (of_nat r) 0))
     (hseq (hmodify (\<lambda>s. s\<lparr>startconf := rc_drvresetb\<rparr>))
     (hseq (hbind (hget startconf) (rep_write rc_config))
        (hmodify (\<lambda>s. s\<lparr>outputflag := [65, 65]\<rparr>)))))"

definition reset_dll :: "(repeater, unit) hal" where
  "reset_dll = hseq (rep_write rc_config (rc_dllresetb OR rc_drvresetb))
     (hmodify (\<lambda>s. s\<lparr>startconf := rc_dllresetb OR rc_drvresetb\<rparr>))"

definition set_dir :: "hicann_v \<Rightarrow> u32 \<Rightarrow> bool \<Rightarrow> (repeater, unit) hal" where
  "set_dir v r dir = switch_bits v r rc_dir dir"

definition enable :: "hicann_v \<Rightarrow> u32 \<Rightarrow> bool \<Rightarrow> (repeater, unit) hal" where
  "enable v r sw = switch_bits v r rc_recen sw"

text \<open>The branches of \<open>tout\<close> and \<open>tin\<close> that switch off; the others call them.\<close>

definition tout_off :: "hicann_v \<Rightarrow> u32 \<Rightarrow> (repeater, unit) hal" where
  "tout_off v r = hseq (switch_bits v r rc_touten False)
     (hmodify (\<lambda>s. s\<lparr>outputflag := (outputflag s)[unat (r mod 2) := 65]\<rparr>))"

definition tin_off :: "hicann_v \<Rightarrow> u32 \<Rightarrow> (repeater, unit) hal" where
  "tin_off v r = switch_bits v r rc_tinen False"

definition tout :: "hicann_v \<Rightarrow> u32 \<Rightarrow> bool \<Rightarrow> (repeater, unit) hal" where
  "tout v r sw =
     (if sw then
        hbind (hget (\<lambda>s. outputflag s ! unat (r mod 2))) (\<lambda>f.
          if f = 65 \<or> f = r then
            hseq (if v = HV1 then hbind (rcfg r) (\<lambda>d. hbind (hget rloc) (\<lambda>l.
                    hwhen (d AND rc_tinen \<noteq> 0 \<and> \<not> is_spl1rep l r) (tin_off v r)))
                  else hret ())
            (hseq (switch_bits v r rc_touten True)
              (hmodify (\<lambda>s. s\<lparr>outputflag := (outputflag s)[unat (r mod 2) := r]\<rparr>)))
          else hret ())
      else tout_off v r)"

definition tin :: "hicann_v \<Rightarrow> u32 \<Rightarrow> bool \<Rightarrow> (repeater, unit) hal" where
  "tin v r sw =
     (if sw then
        hseq (if v = HV1 then hbind (rcfg r) (\<lambda>d. hbind (hget rloc) (\<lambda>l.
                hwhen (d AND rc_tinen \<noteq> 0 \<and> \<not> is_spl1rep l r) (tout_off v r)))
              else hret ())
          (switch_bits v r rc_tinen True)
      else tin_off v r)"

definition conf_repeater :: "hicann_v \<Rightarrow> u32 \<Rightarrow> rep_mode \<Rightarrow> rep_direction \<Rightarrow> bool \<Rightarrow> (repeater, unit) hal" where
  "conf_repeater v r mode dir sw =
     hseq (case mode of
             TESTIN \<Rightarrow> tout v r sw
           | TESTOUT \<Rightarrow> tin v r sw
           | FORWARD \<Rightarrow> hseq (tout v r False) (tin v r False)
           | SPL1OUT \<Rightarrow> hret ())
     (case v of
        HV2 \<Rightarrow> if dir = OUTWARDS then hseq (set_dir v r False) (enable v r sw)
               else hseq (enable v r False) (set_dir v r sw)
      | HV1 \<Rightarrow> hseq (if dir = OUTWARDS then hwhen sw (set_dir v r False)
                     else hwhen sw (set_dir v r True))
                 (enable v r sw))"

definition conf_spl1_repeater :: "hicann_v \<Rightarrow> u32 \<Rightarrow> rep_mode \<Rightarrow> rep_direction \<Rightarrow> bool \<Rightarrow> (repeater, unit) hal" where
  "conf_spl1_repeater v r mode dir sw =
     hseq (case mode of
             TESTIN \<Rightarrow> tout v r sw
           | SPL1OUT \<Rightarrow> hseq (tout v r False) (tin v r sw)
           | FORWARD \<Rightarrow> hseq (tout v r False) (tin v r False)
           | TESTOUT \<Rightarrow> hret ())
     (if dir = INWARDS then hseq (set_dir v r sw) (enable v r False)
      else hseq (enable v r sw) (set_dir v r False))"

text \<open>The vectors of repeaters and flags; reading past the end of the second is undefined.\<close>

definition for_pairs :: "(u32 \<Rightarrow> bool \<Rightarrow> (repeater, unit) hal) \<Rightarrow> u32 list \<Rightarrow> bool list \<Rightarrow> (repeater, unit) hal" where
  "for_pairs f rs bs = hfor [0..<length rs] (\<lambda>i.
     if i < length bs then f (rs ! i) (bs ! i) else hthrow Undefined_behaviour)"

definition set_dirs :: "hicann_v \<Rightarrow> u32 list \<Rightarrow> bool list \<Rightarrow> (repeater, unit) hal" where
  "set_dirs v = for_pairs (set_dir v)"

definition enables :: "hicann_v \<Rightarrow> u32 list \<Rightarrow> bool list \<Rightarrow> (repeater, unit) hal" where
  "enables v = for_pairs (enable v)"

definition touts :: "hicann_v \<Rightarrow> u32 list \<Rightarrow> bool list \<Rightarrow> (repeater, unit) hal" where
  "touts v = for_pairs (tout v)"

definition tins :: "hicann_v \<Rightarrow> u32 list \<Rightarrow> bool list \<Rightarrow> (repeater, unit) hal" where
  "tins v = for_pairs (tin v)"

subsection \<open>Test data\<close>

text \<open>From the second chip version on the channels are swapped in the lower repeaters.\<close>

definition test_channel :: "hicann_v \<Rightarrow> rep_loc \<Rightarrow> u32 \<Rightarrow> u32" where
  "test_channel v l ch =
     (if v = HV2 \<and> (l = REPBL \<or> l = REPBR) then of_bool (ch AND 1 = 0) else ch)"

definition td_addr :: "u32 \<Rightarrow> u32 \<Rightarrow> u32" where
  "td_addr ch entry = (if ch mod 2 \<noteq> 0 then rc_td1 + 2 * entry else rc_td0 + 2 * entry)"

definition tdata_write :: "hicann_v \<Rightarrow> u32 \<Rightarrow> u32 \<Rightarrow> u32 \<Rightarrow> u32 \<Rightarrow> (repeater, unit) hal" where
  "tdata_write v ch entry neuron_nr time =
     (if entry < 3 \<and> ch < 2 then
        hbind (hget rloc) (\<lambda>l.
          let ch = test_channel v l ch;
              lb = drop_bit 2 time AND 0xff;
              hb = push_bit 6 (time AND 3) OR (neuron_nr AND 0x3f) in
          hseq (rep_write (td_addr ch entry) hb)
            (hseq (rep_write (td_addr ch entry + 1) lb) (hret ())))
      else hret ())"

definition gtob :: "u32 \<Rightarrow> u32" where
  "gtob time = (let t = time AND 0x3ff in
     fold (\<lambda>i b. b OR ((t XOR drop_bit 1 b) AND push_bit i 1)) (rev [0..<9]) (t AND 0x200))"

definition flip6 :: "u32 \<Rightarrow> u32" where
  "flip6 n = fold (\<lambda>i nn. let nn = push_bit 1 nn in if n AND push_bit i 1 \<noteq> 0 then nn OR 1 else nn) [0..<6] 0"

text \<open>Neuron number and time read back; with a bad entry or channel the caller's variables stay
  as they were (\<open>None\<close>).\<close>

definition tdata_read :: "hicann_v \<Rightarrow> u32 \<Rightarrow> u32 \<Rightarrow> (repeater, (u32 \<times> u32) option) hal" where
  "tdata_read v ch entry =
     (if entry < 3 \<and> ch < 2 then
        hbind (hget rloc) (\<lambda>l.
          let ch = test_channel v l ch in
          hbind (rep_read (td_addr ch entry)) (\<lambda>hb.
          hbind (rep_read (td_addr ch entry + 1)) (\<lambda>lb.
            hret (Some (case v of HV1 \<Rightarrow> flip6 (hb AND 0x3f) | HV2 \<Rightarrow> hb AND 0x3f,
                        gtob (push_bit 2 lb OR drop_bit 6 (hb AND 0xc0)))))))
      else hret None)"

text \<open>The four start and stop operations differ in the bit of the channel.\<close>

definition start_bit :: "hicann_v \<Rightarrow> u32 \<Rightarrow> u32 \<Rightarrow> u32 \<Rightarrow> (repeater, unit) hal" where
  "start_bit v ch bit1 bit0 =
     (if ch > 1 then hret ()
      else hbind (hget id) (\<lambda>s.
        let m = (if test_channel v (rloc s) ch \<noteq> 0 then bit1 else bit0) in
        hseq (rep_write rc_config (m OR startconf s))
          (hmodify (\<lambda>s. s\<lparr>startconf := startconf s OR m\<rparr>))))"

definition stop_bit :: "hicann_v \<Rightarrow> u32 \<Rightarrow> u32 \<Rightarrow> u32 \<Rightarrow> (repeater, unit) hal" where
  "stop_bit v ch bit1 bit0 =
     (if ch > 1 then hret ()
      else hbind (hget id) (\<lambda>s.
        let m = (if test_channel v (rloc s) ch \<noteq> 0 then bit1 else bit0) in
        hseq (rep_write rc_config (startconf s AND (m XOR 0xff)))
          (hmodify (\<lambda>s. s\<lparr>startconf := startconf s AND (m XOR 0xff)\<rparr>))))"

definition startin :: "hicann_v \<Rightarrow> u32 \<Rightarrow> (repeater, unit) hal" where
  "startin v ch = start_bit v ch rc_start_tdi1 rc_start_tdi0"

definition stopin :: "hicann_v \<Rightarrow> u32 \<Rightarrow> (repeater, unit) hal" where
  "stopin v ch = stop_bit v ch rc_start_tdi1 rc_start_tdi0"

definition startout :: "hicann_v \<Rightarrow> u32 \<Rightarrow> (repeater, unit) hal" where
  "startout v ch = start_bit v ch rc_start_tdo1 rc_start_tdo0"

definition stopout :: "hicann_v \<Rightarrow> u32 \<Rightarrow> (repeater, unit) hal" where
  "stopout v ch = stop_bit v ch rc_start_tdo1 rc_start_tdo0"

definition fullflag :: "hicann_v \<Rightarrow> u32 \<Rightarrow> (repeater, bool) hal" where
  "fullflag v ch =
     (if ch > 1 then hret False
      else hbind (hget rloc) (\<lambda>l.
        hbind (rep_read rc_status) (\<lambda>d.
          hret ((d AND 3) AND push_bit (unat (test_channel v l ch)) 1 \<noteq> 0))))"

definition sram_base :: u32 where
  "sram_base = push_bit addrmsb_repctrl 1 + push_bit cnfgadr_repctrl 1"

definition set_sram_timings :: "u32 \<Rightarrow> u32 \<Rightarrow> u32 \<Rightarrow> (repeater, unit) hal" where
  "set_sram_timings read_delay setup_precharge write_delay =
     (if read_delay \<ge> push_bit 8 1 then hthrow Runtime_error
      else if setup_precharge \<ge> push_bit 4 1 then hthrow Runtime_error
      else if write_delay \<ge> push_bit 4 1 then hthrow Runtime_error
      else hseq (rep_write sram_base (read_delay AND 0xff))
        (hseq (rep_write (sram_base + 1) (push_bit 4 (setup_precharge AND 0xf) + (write_delay AND 0xf)))
          (hret ())))"

definition get_sram_timings :: "(repeater, u32 \<times> u32 \<times> u32) hal" where
  "get_sram_timings =
     hbind (rep_read sram_base) (\<lambda>d0. hbind (rep_read (sram_base + 1)) (\<lambda>d1.
       hret (d0 AND 0xff, drop_bit 4 d1 AND 0xf, d1 AND 0xf)))"

subsection \<open>The addresses of the repeaters\<close>

lemma bitrev7_table:
  "list_all (\<lambda>i. bitrev7 (of_nat i) < 0x80 \<and> bitrev7 (bitrev7 (of_nat i)) = of_nat i) [0..<64]"
  by code_simp

lemma top_table:
  "list_all (\<lambda>i. ((of_nat i + 1) AND 0x3f :: u32) < 0x80 \<and>
     (((of_nat i + 1) AND 0x3f) - 1) AND 0x3f = (of_nat i :: u32)) [0..<64]"
  by code_simp

lemma right_table:
  "list_all (\<lambda>i. ((32 - of_nat i) AND 0x1f :: u32) < 0x80 \<and>
     (32 - ((32 - of_nat i) AND 0x1f)) AND 0x1f = (of_nat i :: u32)) [0..<32]"
  by code_simp

definition rep_inverse :: "hicann_v \<Rightarrow> rep_loc \<Rightarrow> u32 \<Rightarrow> u32" where
  "rep_inverse v l ad = (case v of
     HV2 \<Rightarrow> if l = REPTL \<or> l = REPTR then (ad - 1) AND 0x3f
            else if l = REPR then (32 - ad) AND 0x1f else ad
   | HV1 \<Rightarrow> bitrev7 ad)"

lemma repaddr_inverse:
  assumes "i < rep_count l"
  shows "repaddr v l (of_nat i) < 0x80" "rep_inverse v l (repaddr v l (of_nat i)) = of_nat i"
proof -
  have i: "i < 64" "l = REPR \<Longrightarrow> i < 32" using assms by (auto simp: rep_count_def split: if_splits)
  have id: "(of_nat i :: u32) < 0x80"
    using i by (simp add: word_less_nat_alt unsigned_of_nat take_bit_nat_eq_self)
  have "repaddr v l (of_nat i) < 0x80 \<and> rep_inverse v l (repaddr v l (of_nat i)) = of_nat i"
    using i id bitrev7_table top_table right_table
    by (cases v; cases l) (simp_all add: repaddr_def rep_inverse_def list_all_iff)
  then show "repaddr v l (of_nat i) < 0x80" "rep_inverse v l (repaddr v l (of_nat i)) = of_nat i"
    by simp_all
qed

lemma repaddr_inj:
  assumes "i < rep_count l" and "j < rep_count l" and "repaddr v l (of_nat i) = repaddr v l (of_nat j)"
  shows "i = j"
proof (rule small_of_nat)
  have "(of_nat i :: u32) = rep_inverse v l (repaddr v l (of_nat i))"
    by (rule repaddr_inverse(2) [OF assms(1), symmetric])
  also have "\<dots> = rep_inverse v l (repaddr v l (of_nat j))"
    by (rule arg_cong [OF assms(3)])
  also have "\<dots> = of_nat j"
    by (rule repaddr_inverse(2) [OF assms(2)])
  finally show "(of_nat i :: u32) = of_nat j" .
qed (use assms(1,2) in \<open>auto simp: rep_count_def split: if_splits\<close>)

text \<open>the addresses of the repeaters of a block are distinct, for both chip versions and
  all blocks, and none of them is an address of the block's test and configuration registers.\<close>

theorem repaddr_permutes:
  assumes "i < rep_count l" and "j < rep_count l" and "repaddr v l (of_nat i) = repaddr v l (of_nat j)"
  shows "i = j \<and> repaddr v l (of_nat i) < rc_config"
  using repaddr_inj [OF assms] repaddr_inverse(1) [OF assms(1)] by (simp only: rc_config_def simp_thms)

theorem repaddr_permutes_witness: "repaddr HV2 REPTL (of_nat 63) < rc_config \<and> repaddr HV2 REPTL 63 = 0"
proof -
  have "repaddr HV2 REPTL 63 = 0" by code_simp
  then show ?thesis
    using repaddr_permutes [of 63 REPTL 63 HV2] by (simp add: rep_count_def)
qed

subsection \<open>The copy and the chip\<close>

definition rep_addr :: "hicann_v \<Rightarrow> repeater \<Rightarrow> nat \<Rightarrow> u16" where
  "rep_addr v s i = ucast (repaddr v (rloc s) (of_nat i)) + startaddr s"

definition rep_copy :: "repeater \<Rightarrow> nat \<Rightarrow> u32" where
  "rep_copy s i = (if i < length (rconfig s) then rconfig s ! i else 0)"

definition rep_ok :: "nat \<Rightarrow> repeater \<Rightarrow> bool" where
  "rep_ok n s \<longleftrightarrow> length (rconfig s) = n \<and> rep_count (rloc s) = n"

lemma rep_addr_inj:
  assumes "i < rep_count (rloc s)" and "j < rep_count (rloc s)" and "rep_addr v s i = rep_addr v s j"
  shows "i = j"
proof -
  let ?a = "repaddr v (rloc s) (of_nat i)" and ?b = "repaddr v (rloc s) (of_nat j)"
  have lt: "unat ?a < 2 ^ 16" "unat ?b < 2 ^ 16"
    using repaddr_inverse(1) [OF assms(1), of v] repaddr_inverse(1) [OF assms(2), of v]
    by (simp_all add: word_less_nat_alt)
  have "unat (ucast ?a :: u16) = unat (ucast ?b :: u16)" using assms(3) by (simp add: rep_addr_def)
  then have "unat ?a = unat ?b"
    using lt by (simp add: unsigned_ucast_eq take_bit_nat_eq_self)
  then have "?a = ?b" by (simp add: word_unat_eq_iff)
  then show ?thesis
    by (intro repaddr_inj [OF assms(1,2)])
qed

lemma put_rcfg_cases:
  obtains (throws) e b where "put_rcfg v r d s = (Inl e, s\<lparr>bus := b\<rparr>)" "issued b = issued (bus s)"
  | (sets) b where "put_rcfg v r d s = (Inr (), s\<lparr>bus := b, rconfig := (rconfig s)[unat r := d]\<rparr>)"
      "issued b = issued (bus s) @ [(ctag s, \<lparr>pwrite = 1,
         paddr = ucast (repaddr v (rloc s) r) + startaddr s, pdat = d\<rparr>)]"
proof (cases rule: write_cmd_cases [of "ucast (repaddr v (rloc s) r)" d s])
  case range
  then show thesis
    by (intro throws [of Range_error "bus s"])
      (simp_all add: put_rcfg_def rep_write_def hbind_def hseq_def)
next
  case (refused b)
  then show thesis
    by (intro throws [of Runtime_error b]) (simp_all add: put_rcfg_def rep_write_def hbind_def hseq_def)
next
  case (written b)
  then show thesis
    by (intro sets [of b]) (simp_all add: put_rcfg_def rep_write_def set_rcfg_def hbind_def hseq_def)
qed

lemma shadowed_reps:
  assumes "n \<le> 64"
  shows "shadowed n (rep_addr v) rep_copy regs (rep_ok n) (\<lambda>i. put_rcfg v (of_nat i))"
proof
  fix s t :: repeater and i j d e u
  show "rep_ok n s \<Longrightarrow> i < n \<Longrightarrow> j < n \<Longrightarrow> rep_addr v s i = rep_addr v s j \<Longrightarrow> i = j"
    using rep_addr_inj [of i s j v] by (simp add: rep_ok_def)
  show "rep_ok n t \<and> rep_copy t = rep_copy s \<and> regs t = regs s \<and> rep_addr v t = rep_addr v s"
    if "rep_ok n s" "i < n" "put_rcfg v (of_nat i) d s = (Inl e, t)"
    by (rule put_rcfg_cases [of v "of_nat i" d s])
      (use that in \<open>auto simp: rep_ok_def rep_copy_def regs_def rep_addr_def fun_eq_iff\<close>)
  have i: "unat (of_nat i :: u32) = i" if "i < n"
    using that assms by (simp add: unsigned_of_nat take_bit_nat_eq_self)
  show "rep_ok n t \<and> rep_copy t = (rep_copy s)(i := d) \<and> regs t = (regs s)(rep_addr v s i \<mapsto> d) \<and>
      rep_addr v t = rep_addr v s"
    if "rep_ok n s" "i < n" "put_rcfg v (of_nat i) d s = (Inr u, t)"
    by (rule put_rcfg_cases [of v "of_nat i" d s])
      (use that i in \<open>auto simp: rep_ok_def rep_copy_def regs_def rep_addr_def fun_eq_iff nth_list_update\<close>)
qed

interpretation side_reps: shadowed 32 "rep_addr v" rep_copy regs "rep_ok 32" "\<lambda>i. put_rcfg v (of_nat i)" for v
  by (rule shadowed_reps) simp

interpretation vert_reps: shadowed 64 "rep_addr v" rep_copy regs "rep_ok 64" "\<lambda>i. put_rcfg v (of_nat i)" for v
  by (rule shadowed_reps) simp

definition rep_coherent :: "hicann_v \<Rightarrow> repeater \<Rightarrow> bool" where
  "rep_coherent v s \<longleftrightarrow> length (rconfig s) = rep_count (rloc s) \<and>
     (\<forall>i<rep_count (rloc s). \<forall>d. regs s (rep_addr v s i) = Some d \<longrightarrow> d = rconfig s ! i)"

lemma rep_coherent_iff:
  "rep_coherent v s \<longleftrightarrow> (if rep_count (rloc s) = 32 then side_reps.coherent v s else vert_reps.coherent v s)"
proof -
  have "rep_count (rloc s) = 32 \<or> rep_count (rloc s) = 64" by (simp add: rep_count_def)
  then show ?thesis
    by (auto simp: rep_coherent_def side_reps.coherent_def vert_reps.coherent_def rep_ok_def rep_copy_def)
qed

lemma put_rcfg_coherent:
  assumes "rep_coherent v s" and "unat r < length (rconfig s)"
  shows "rep_coherent v (snd (put_rcfg v r d s))"
proof -
  let ?t = "snd (put_rcfg v r d s)"
  have loc: "rloc ?t = rloc s"
    by (rule put_rcfg_cases [of v r d s]) simp_all
  have r: "unat r < rep_count (rloc s)" using assms by (simp add: rep_coherent_def)
  show ?thesis
  proof (cases "rep_count (rloc s) = 32")
    case True
    then have "side_reps.coherent v ?t"
      using assms(1) r side_reps.set_coherent [of v s "unat r" d] by (simp add: rep_coherent_iff)
    then show ?thesis using True loc by (simp add: rep_coherent_iff)
  next
    case False
    then have n: "rep_count (rloc s) = 64" by (simp add: rep_count_def split: if_splits)
    then have "vert_reps.coherent v ?t"
      using assms(1) r vert_reps.set_coherent [of v s "unat r" d] by (simp add: rep_coherent_iff)
    then show ?thesis using n loc by (simp add: rep_coherent_iff)
  qed
qed

lemma rcfg_bind: "hbind (rcfg r) k s =
    (if unat r < length (rconfig s) then k (rconfig s ! unat r) s else (Inl Undefined_behaviour, s))"
  by (simp add: rcfg_def hbind_def)

lemma switch_bits_coherent [keeps_intros]: "keeps (rep_coherent v) (switch_bits v r m on)"
  by (auto simp: keeps_def switch_bits_def rcfg_bind intro: put_rcfg_coherent)

lemma keeps_flag [keeps_intros]: "keeps (rep_coherent v) (hmodify (\<lambda>s. s\<lparr>outputflag := f s\<rparr>))"
  "keeps (rep_coherent v) (hmodify (\<lambda>s. s\<lparr>startconf := g s\<rparr>))"
  by (simp_all add: keeps_def rep_coherent_def regs_def rep_addr_def)

lemma keeps_rcfg [keeps_intros]: "keeps P (rcfg r)"
  by (simp add: keeps_def rcfg_def)

lemma rep_ops_coherent [keeps_intros]:
  "keeps (rep_coherent v) (set_dir v r b)" "keeps (rep_coherent v) (enable v r b)"
  "keeps (rep_coherent v) (tout_off v r)" "keeps (rep_coherent v) (tin_off v r)"
  by (auto simp: set_dir_def enable_def tout_off_def tin_off_def intro!: keeps_intros)

lemma tio_coherent [keeps_intros]:
  "keeps (rep_coherent v) (tout v r b)" "keeps (rep_coherent v) (tin v r b)"
  by (auto simp: tout_def tin_def intro!: keeps_intros)

text \<open>the copy of the repeaters' words stays true to the chip: when every word that was
  written to a repeater is the one in \<open>config\<close>, this is still so after \<open>conf_repeater\<close> and
  \<open>conf_spl1_repeater\<close> with any arguments, whether they return or throw on the way.\<close>

theorem conf_repeater_coherent:
  assumes "rep_coherent v s"
  shows "rep_coherent v (snd (conf_repeater v r mode dir sw s)) \<and>
    rep_coherent v (snd (conf_spl1_repeater v r mode dir sw s))"
proof -
  have "keeps (rep_coherent v) (conf_repeater v r mode dir sw)"
    unfolding conf_repeater_def by (cases mode; cases v) (auto intro!: keeps_intros)
  moreover have "keeps (rep_coherent v) (conf_spl1_repeater v r mode dir sw)"
    unfolding conf_spl1_repeater_def by (cases mode) (auto intro!: keeps_intros)
  ultimately show ?thesis using assms by (simp add: keepsD)
qed

definition demo_repeater :: repeater where
  "demo_repeater = RepeaterControl_new REPTR \<lparr>issued = [], rxdata = (\<lambda>_. []), env = []\<rparr> 0
     (astart OcpRep_tr) (amax OcpRep_tr)"

lemma demo_coherent: "rep_coherent v demo_repeater"
  by (simp add: rep_coherent_def demo_repeater_def RepeaterControl_new_def regs_def)

theorem conf_repeater_coherent_witness:
  "rep_coherent HV2 (snd (conf_repeater HV2 5 TESTIN OUTWARDS True demo_repeater)) \<and>
   rconfig (snd (conf_repeater HV2 5 TESTIN OUTWARDS True demo_repeater)) ! 5 = rc_touten OR rc_recen"
proof -
  have "rconfig (snd (conf_repeater HV2 5 TESTIN OUTWARDS True demo_repeater)) ! 5 = rc_touten OR rc_recen"
    by code_simp
  then show ?thesis using conf_repeater_coherent [OF demo_coherent] by simp
qed

subsection \<open>The drivers of a repeater\<close>

definition one_driver :: "u32 \<Rightarrow> bool" where
  "one_driver d \<longleftrightarrow> \<not> (d AND rc_recen \<noteq> 0 \<and> d AND rc_dir \<noteq> 0)"

definition exclusive :: "repeater \<Rightarrow> bool" where
  "exclusive s \<longleftrightarrow> list_all one_driver (rconfig s)"

lemma rc_bits: "rc_touten = push_bit 7 1" "rc_tinen = push_bit 6 1" "rc_recen = push_bit 5 1"
  "rc_dir = push_bit 4 1"
  by (simp_all add: rc_defs)

lemma one_driver_bits: "one_driver d \<longleftrightarrow> \<not> (bit d 5 \<and> bit d 4)"
  by (simp only: one_driver_def rc_bits and_pow)

lemma switch_bits_cases:
  obtains (throws) e t where "switch_bits v r m on s = (Inl e, t)" "rconfig t = rconfig s"
  | (sets) t where "switch_bits v r m on s = (Inr (), t)" "unat r < length (rconfig s)"
      "rconfig t = (rconfig s)[unat r := if on then rconfig s ! unat r OR m
         else rconfig s ! unat r AND (m XOR 0xff)]"
proof (cases "unat r < length (rconfig s)")
  case True
  define d where "d = (if on then rconfig s ! unat r OR m else rconfig s ! unat r AND (m XOR 0xff))"
  have "switch_bits v r m on s = put_rcfg v r d s"
    using True by (simp add: switch_bits_def rcfg_bind d_def)
  then show thesis
    using put_rcfg_cases [of v r d s thesis] True
      throws [of _ "s\<lparr>bus := _\<rparr>"] sets [of "s\<lparr>bus := _, rconfig := (rconfig s)[unat r := d]\<rparr>"]
    by (simp add: d_def)
next
  case False
  then show thesis by (intro throws) (simp_all add: switch_bits_def rcfg_bind)
qed

lemma exclusive_update:
  "exclusive s \<Longrightarrow> rconfig t = (rconfig s)[i := d] \<Longrightarrow> one_driver d \<Longrightarrow> exclusive t"
  unfolding exclusive_def list_all_iff by (auto dest!: set_update_subset_insert [THEN subsetD])

lemma exclusive_nth: "exclusive s \<Longrightarrow> i < length (rconfig s) \<Longrightarrow> one_driver (rconfig s ! i)"
  by (simp add: exclusive_def list_all_length)

lemma one_driver_or: "k \<noteq> 4 \<Longrightarrow> k \<noteq> 5 \<Longrightarrow> one_driver d \<Longrightarrow> one_driver (d OR push_bit k 1)"
  by (auto simp: one_driver_bits bit_or_iff bit_pow)

lemma one_driver_and: "one_driver d \<Longrightarrow> one_driver (d AND m)"
  by (auto simp: one_driver_bits bit_and_iff)

lemma off_exclusive [keeps_intros]: "keeps exclusive (switch_bits v r m False)"
  unfolding keeps_def
proof (intro allI impI)
  fix s assume "exclusive s"
  show "exclusive (snd (switch_bits v r m False s))"
  proof (cases rule: switch_bits_cases [of v r m False s])
    case (throws e t)
    then show ?thesis using \<open>exclusive s\<close> by (simp add: exclusive_def)
  next
    case (sets t)
    have "exclusive t"
      by (rule exclusive_update [OF \<open>exclusive s\<close> sets(3)])
        (simp add: one_driver_and exclusive_nth [OF \<open>exclusive s\<close> sets(2)])
    then show ?thesis using sets(1) by simp
  qed
qed

lemma on_exclusive: "k \<noteq> 4 \<Longrightarrow> k \<noteq> 5 \<Longrightarrow> keeps exclusive (switch_bits v r (push_bit k 1) True)"
  unfolding keeps_def
proof (intro allI impI)
  fix s assume k: "k \<noteq> 4" "k \<noteq> 5" and ex: "exclusive s"
  show "exclusive (snd (switch_bits v r (push_bit k 1) True s))"
  proof (cases rule: switch_bits_cases [of v r "push_bit k 1" True s])
    case (throws e t)
    then show ?thesis using ex by (simp add: exclusive_def)
  next
    case (sets t)
    have "exclusive t"
      using one_driver_or [OF k exclusive_nth [OF ex sets(2)]]
      by (intro exclusive_update [OF ex sets(3)]) simp
    then show ?thesis using sets(1) by simp
  qed
qed

lemma test_exclusive [keeps_intros]:
  "keeps exclusive (tout v r b)" "keeps exclusive (tin v r b)"
proof -
  have flag: "keeps exclusive (hmodify (\<lambda>s. s\<lparr>outputflag := f s\<rparr>))" for f
    by (simp add: keeps_def exclusive_def)
  have on: "keeps exclusive (switch_bits v r rc_touten True)" "keeps exclusive (switch_bits v r rc_tinen True)" for v
    unfolding rc_bits by (rule on_exclusive; simp)+
  have off: "keeps exclusive (tout_off v r)" "keeps exclusive (tin_off v r)" for v
    unfolding tout_off_def tin_off_def by (intro keeps_intros flag)+
  show "keeps exclusive (tout v r b)" "keeps exclusive (tin v r b)"
    unfolding tout_def tin_def by (cases v; auto intro!: keeps_intros intro: flag on off)+
qed

text \<open>Switching one driver off first, then the other one as wanted.\<close>

lemma off_then_exclusive:
  assumes "{k, j} = {4, 5}"
  shows "keeps exclusive (hseq (switch_bits v r (push_bit k 1) False) (switch_bits v r (push_bit j 1) b))"
  unfolding keeps_def
proof (intro allI impI)
  fix s assume ex: "exclusive s"
  show "exclusive (snd (hseq (switch_bits v r (push_bit k 1) False) (switch_bits v r (push_bit j 1) b) s))"
  proof (cases rule: switch_bits_cases [of v r "push_bit k 1" False s])
    case (throws e t)
    then show ?thesis using ex by (simp add: hseq_Inl exclusive_def)
  next
    case (sets t)
    have ex': "exclusive t"
      using keepsD [OF off_exclusive ex, of v r "push_bit k 1"] sets(1) by simp
    have "\<not> bit (rconfig t ! unat r) k"
      using sets(2,3) assms bit_0xff [of k] bit_pow [of k k] by (auto simp: bit_and_iff bit_xor_iff doubleton_eq_iff)
    then have one: "one_driver (if b then rconfig t ! unat r OR push_bit j 1
        else rconfig t ! unat r AND (push_bit j 1 XOR 0xff))"
      using assms exclusive_nth [OF ex'] sets(2,3)
      by (auto simp: one_driver_bits bit_or_iff bit_and_iff bit_pow doubleton_eq_iff)
    have "exclusive (snd (switch_bits v r (push_bit j 1) b t))"
    proof (cases rule: switch_bits_cases [of v r "push_bit j 1" b t])
      case (throws e u)
      then show ?thesis using ex' by (simp add: exclusive_def)
    next
      case (sets u)
      then show ?thesis using exclusive_update [OF ex' sets(3) one] by simp
    qed
    then show ?thesis using sets(1) by (simp add: hseq_Inr)
  qed
qed



text \<open>the busy flag of a test output does not protect it: \<open>tout\<close> refuses a second
  repeater of the same parity, but switching off any repeater of the parity, here one that
  never drove it, clears the flag, and then a second one is switched on beside the first.\<close>

theorem tout_flag_lost:
  "let s1 = snd (tout HV2 0 True demo_repeater);
       s2 = snd (tout HV2 4 True s1);
       s3 = snd (tout HV2 4 True (snd (tout HV2 2 False s1))) in
   rconfig s2 ! 0 = rc_touten \<and> rconfig s2 ! 4 = 0 \<and>
   rconfig s3 ! 0 = rc_touten \<and> rconfig s3 ! 4 = rc_touten"
  by code_simp

definition shaky_repeater :: repeater where
  "shaky_repeater = RepeaterControl_new REPL \<lparr>issued = [], rxdata = (\<lambda>_. []),
     env = replicate 4 (True, None) @ [(True, None), (True, None), (True, None), (False, None)]\<rparr> 0
     (astart OcpRep_l) (amax OcpRep_l)"

text \<open>\<open>conf_spl1_repeater\<close> switches in the other order: when the second command of the pair
  is refused by the link, a repeater is left with both drivers on, in the copy and on the chip.\<close>

theorem conf_spl1_repeater_both_drivers:
  "let s1 = snd (conf_spl1_repeater HV2 4 FORWARD INWARDS True shaky_repeater);
       s2 = snd (conf_spl1_repeater HV2 4 FORWARD OUTWARDS True s1) in
   exclusive s1 \<and> fst (conf_spl1_repeater HV2 4 FORWARD OUTWARDS True s1) = Inl Runtime_error \<and>
   rconfig s2 ! 4 = (rc_recen OR rc_dir) \<and> regs s2 (rep_addr HV2 s2 4) = Some (rc_recen OR rc_dir)"
  by code_simp

subsection \<open>Test data and timings\<close>

definition gray_step :: "u32 \<Rightarrow> nat \<Rightarrow> u32 \<Rightarrow> u32" where
  "gray_step g i b = b OR ((g XOR drop_bit 1 b) AND push_bit i 1)"

lemma gray_step_bits:
  assumes "\<forall>n. bit b n \<longleftrightarrow> bit t n \<and> Suc i \<le> n \<and> n \<le> 9" and "i < 9"
    and "bit g i \<longleftrightarrow> bit t i \<noteq> bit t (Suc i)"
  shows "\<forall>n. bit (gray_step g i b) n \<longleftrightarrow> bit t n \<and> i \<le> n \<and> n \<le> 9"
proof
  fix n
  have "bit (gray_step g i b) n \<longleftrightarrow> bit b n \<or> (bit g n \<noteq> bit b (Suc n)) \<and> bit (push_bit i (1 :: u32)) n"
    by (simp only: gray_step_def bit_or_iff bit_and_iff bit_xor_iff bit_drop_bit_eq comp_def plus_1_eq_Suc)
  moreover have "bit (push_bit i (1 :: u32)) n \<longleftrightarrow> n = i"
    using bit_pow [of i n] assms(2) by auto
  ultimately have "bit (gray_step g i b) n \<longleftrightarrow> bit b n \<or> (bit g n \<noteq> bit b (Suc n)) \<and> n = i"
    by simp
  then show "bit (gray_step g i b) n \<longleftrightarrow> bit t n \<and> i \<le> n \<and> n \<le> 9"
    using assms(2,3) by (cases "n = i") (auto simp: assms(1) Suc_le_eq)
qed

lemma gray_fold_bits:
  assumes "\<forall>n. bit b n \<longleftrightarrow> bit t n \<and> m \<le> n \<and> n \<le> 9" and "m \<le> 9"
    and "\<forall>n<9. bit g n \<longleftrightarrow> bit t n \<noteq> bit t (Suc n)"
  shows "\<forall>n. bit (fold (gray_step g) (rev [0..<m]) b) n \<longleftrightarrow> bit t n \<and> n \<le> 9"
  using assms(1,2)
proof (induction m arbitrary: b)
  case (Suc m)
  have "\<forall>n. bit (gray_step g m b) n \<longleftrightarrow> bit t n \<and> m \<le> n \<and> n \<le> 9"
    using Suc.prems assms(3) by (intro gray_step_bits) simp_all
  then show ?case using Suc.IH [of "gray_step g m b"] Suc.prems(2) by simp
qed simp

text \<open>\<open>gtob\<close> decodes the Gray code the chip counts time in: applied to the Gray code of
  a 10-bit time it gives the time.\<close>

theorem gtob_gray:
  assumes "t < 0x400"
  shows "gtob (t XOR drop_bit 1 t) = t"
proof -
  let ?g = "(t XOR drop_bit 1 t) AND 0x3ff"
  have m: "bit (0x3ff :: u32) n \<longleftrightarrow> n < 10" for n
  proof -
    have "(0x3ff :: u32) = mask 10" by (simp add: mask_eq_exp_minus_1)
    then have "bit (0x3ff :: u32) n \<longleftrightarrow> n < 32 \<and> n < 10" by (simp only: bit_mask_iff) simp
    then show ?thesis by auto
  qed
  have "take_bit 10 t = t" 
    using assms by (simp add: word_unat_eq_iff unsigned_take_bit_eq take_bit_nat_eq_self word_less_nat_alt)
  then have "bit t n = (n < 10 \<and> bit t n)" for n
    using bit_take_bit_iff [of 10 t n] by simp
  then have top: "bit t n \<Longrightarrow> n < 10" for n by blast
  have bits: "bit ?g n \<longleftrightarrow> n < 10 \<and> bit t n \<noteq> bit t (Suc n)" for n
    by (simp only: bit_and_iff bit_xor_iff bit_drop_bit_eq comp_def plus_1_eq_Suc m) blast
  have b9: "bit (0x200 :: u32) n \<longleftrightarrow> n = 9" for n
    using bit_pow [of 9 n] by auto
  have "\<forall>n. bit (?g AND 0x200) n \<longleftrightarrow> bit t n \<and> 9 \<le> n \<and> n \<le> 9"
  proof
    fix n
    show "bit (?g AND 0x200) n \<longleftrightarrow> bit t n \<and> 9 \<le> n \<and> n \<le> 9"
      unfolding bit_and_iff [of ?g "0x200"] bits b9 using top [of 10] by (cases "n = 9") auto
  qed
  then have "\<forall>n. bit (fold (gray_step ?g) (rev [0..<9]) (?g AND 0x200)) n \<longleftrightarrow> bit t n \<and> n \<le> 9"
    by (rule gray_fold_bits) (use bits in simp_all)
  moreover have "gtob (t XOR drop_bit 1 t) = fold (gray_step ?g) (rev [0..<9]) (?g AND 0x200)"
    by (simp only: gtob_def Let_def gray_step_def [abs_def])
  ultimately have all: "bit (gtob (t XOR drop_bit 1 t)) n \<longleftrightarrow> bit t n \<and> n \<le> 9" for n
    by simp
  show ?thesis
  proof (rule bit_eqI)
    fix n
    show "bit (gtob (t XOR drop_bit 1 t)) n \<longleftrightarrow> bit t n"
      unfolding all using top [of n] by auto
  qed
qed

theorem gtob_gray_witness: "gtob (693 XOR drop_bit 1 693) = 693"
  by (rule gtob_gray) simp

lemma pack_nibbles:
  assumes "sp < 16" and "wr < (16 :: u32)"
  shows "(push_bit 4 (sp AND 0xf) + (wr AND 0xf)) AND 0xf = wr"
    "drop_bit 4 (push_bit 4 (sp AND 0xf) + (wr AND 0xf)) AND 0xf = sp"
    "push_bit 4 (sp AND 0xf) + (wr AND 0xf) < 256"
proof -
  have f: "(0xf :: u32) = mask 4" by (simp add: mask_eq_exp_minus_1)
  have s: "take_bit 4 sp = sp" "take_bit 4 wr = wr"
    using assms by (simp_all add: word_unat_eq_iff unsigned_take_bit_eq take_bit_nat_eq_self word_less_nat_alt)
  have u: "unat (push_bit 4 sp + wr) = 16 * unat sp + unat wr"
    using assms by (simp add: push_bit_eq_mult unat_word_ariths word_less_nat_alt)
  have w: "unat wr < 16" "unat sp < 16" using assms by (simp_all add: word_less_nat_alt)
  have a: "sp AND 0xf = sp" "wr AND 0xf = wr" using s by (simp_all only: f take_bit_eq_mask [symmetric])
  show "push_bit 4 (sp AND 0xf) + (wr AND 0xf) < 256"
    unfolding a word_less_nat_alt u using w by simp
  have "unat ((push_bit 4 sp + wr) AND 0xf) = unat wr"
    unfolding f take_bit_eq_mask [symmetric] unsigned_take_bit_eq u
    using w(1) by (simp add: take_bit_eq_mod)
  then show "(push_bit 4 (sp AND 0xf) + (wr AND 0xf)) AND 0xf = wr"
    unfolding a by (simp only: word_unat_eq_iff)
  have "unat (drop_bit 4 (push_bit 4 sp + wr) AND 0xf) = unat sp"
    unfolding f take_bit_eq_mask [symmetric] unsigned_take_bit_eq unsigned_drop_bit_eq u
    using w by (simp add: take_bit_eq_mod drop_bit_eq_div)
  then show "drop_bit 4 (push_bit 4 (sp AND 0xf) + (wr AND 0xf)) AND 0xf = sp"
    unfolding a by (simp only: word_unat_eq_iff)
qed

lemma rep_read_queue:
  assumes "env (bus s) = []" and "rxdata (bus s) (ctag s) = p # ps" and "ucast a \<le> maxaddr s"
  obtains t where "rep_read a s = (Inr (pdat p AND 0xff), t)" "env (bus t) = []" "ctag t = ctag s"
    "rxdata (bus t) (ctag t) = ps" "maxaddr t = maxaddr s"
  using assms
  by (simp add: rep_read_def read_cmd_def checkAddr_def get_data_def hseq_def hbind_def on_bus_app
      issueCommand_def recvData_def not_less)

lemma rep_write_regs:
  assumes "rep_write a d s = (Inr u, t)"
  shows "regs t x = (if x = ucast a + startaddr s then Some d else regs s x)" "startaddr t = startaddr s"
    "ctag t = ctag s"
  by (rule write_cmd_cases [of "ucast a" d s]; use assms in \<open>auto simp: rep_write_def regs_def\<close>)+

text \<open>the SRAM timings survive the chip: when \<open>set_sram_timings\<close> returns, and the
  chip answers the reads of \<open>get_sram_timings\<close> with the two words written, the timings read
  are those set.\<close>

theorem sram_timings_roundtrip:
  assumes "set_sram_timings rd sp wr s = (Inr (), t)"
    and "regs t (ucast sram_base + startaddr s) = Some (pdat p)"
    and "regs t (ucast (sram_base + 1) + startaddr s) = Some (pdat q)"
    and "env (bus c) = []" and "rxdata (bus c) (ctag c) = [p, q]" and "0xa1 \<le> maxaddr c"
  shows "fst (get_sram_timings c) = Inr (rd, sp, wr)"
proof -
  have lim: "rd < 256" "sp < 16" "wr < 16"
    using assms(1) by (auto simp: set_sram_timings_def not_le split: if_splits)
  define w0 where "w0 = rd AND 0xff"
  define w1 where "w1 = push_bit 4 (sp AND 0xf) + (wr AND 0xf)"
  have n: "\<not> push_bit 8 1 \<le> rd" "\<not> push_bit 4 1 \<le> sp" "\<not> push_bit 4 1 \<le> wr"
    using lim by (simp_all add: not_le)
  have run: "hseq (rep_write sram_base w0) (hseq (rep_write (sram_base + 1) w1) (hret ())) s = (Inr (), t)"
    using assms(1) by (simp only: set_sram_timings_def n if_False w0_def w1_def)
  then obtain u s1 where one: "rep_write sram_base w0 s = (Inr u, s1)"
      and r1: "hseq (rep_write (sram_base + 1) w1) (hret ()) s1 = (Inr (), t)"
    unfolding hseq_def by (auto elim: hbind_cases)
  then obtain u' where two: "rep_write (sram_base + 1) w1 s1 = (Inr u', t)"
    unfolding hseq_def by (auto elim: hbind_cases)
  have ne: "(ucast sram_base :: u16) \<noteq> ucast (sram_base + 1)"
    by (simp add: sram_base_def rc_defs)
  have p: "pdat p = w0" "pdat q = w1"
    using assms(2,3) rep_write_regs [OF one] rep_write_regs [OF two] ne by simp_all
  have a: "ucast sram_base \<le> maxaddr c" "ucast (sram_base + 1) \<le> maxaddr c"
    using assms(6) by (simp_all add: sram_base_def rc_defs word_le_nat_alt)
  obtain c1 where c1: "rep_read sram_base c = (Inr (w0 AND 0xff), c1)" "env (bus c1) = []"
    "ctag c1 = ctag c" "rxdata (bus c1) (ctag c1) = [q]" "maxaddr c1 = maxaddr c"
    using rep_read_queue [OF assms(4,5) a(1)] p by metis
  obtain c2 where c2: "rep_read (sram_base + 1) c1 = (Inr (w1 AND 0xff), c2)"
    using rep_read_queue [OF c1(2,4)] a(2) c1(5) p by metis
  have w1: "w1 AND 0xff = w1"
    unfolding w1_def by (rule byte_mask [OF pack_nibbles(3) [OF lim(2,3)]])
  have w0: "w0 = rd" "rd AND 0xff = rd" using byte_mask [OF lim(1)] by (simp_all add: w0_def)
  show ?thesis
    using c1(1) c2 pack_nibbles [OF lim(2,3)]
    by (simp add: get_sram_timings_def hbind_Inr w0 w1) (simp add: w1_def)
qed

theorem sram_timings_roundtrip_witness:
  "fst (get_sram_timings (demo_repeater\<lparr>bus := (bus demo_repeater)\<lparr>rxdata := (\<lambda>_.
     [\<lparr>pwrite = 0, paddr = 0xa0, pdat = 7\<rparr>, \<lparr>pwrite = 0, paddr = 0xa1, pdat = 0x35\<rparr>])\<rparr>\<rparr>)) = Inr (7, 3, 5)"
proof (rule sram_timings_roundtrip [of 7 3 5 demo_repeater "snd (set_sram_timings 7 3 5 demo_repeater)"])
  show "set_sram_timings 7 3 5 demo_repeater = (Inr (), snd (set_sram_timings 7 3 5 demo_repeater))"
    by code_simp
  show "regs (snd (set_sram_timings 7 3 5 demo_repeater)) (ucast sram_base + startaddr demo_repeater) =
      Some (pdat \<lparr>pwrite = 0, paddr = 0xa0, pdat = 7\<rparr>)"
    by code_simp
  show "regs (snd (set_sram_timings 7 3 5 demo_repeater)) (ucast (sram_base + 1) + startaddr demo_repeater) =
      Some (pdat \<lparr>pwrite = 0, paddr = 0xa1, pdat = 0x35\<rparr>)"
    by code_simp
qed (simp_all add: demo_repeater_def RepeaterControl_new_def ocp_defs)

end
