(* ===== verification/Neuron.thy ===== *)
theory Neuron
  imports L1switch
begin

text \<open>
  The neuron control module (\<open>neuron_control.cpp\<close>): the sixteen-bit registers of the SPL1 merger
  tree, the background event generators and the DNC channels, with the software copy
  \<open>config\<close>. The results: which operations keep the copy true to the chip even when a write
  throws and which only when they return, what the merger settings read back as, and the two
  operations whose copy and chip part.
\<close>

type_synonym nc_merger = u32

definition BG :: "nat \<Rightarrow> nc_merger" where "BG i = push_bit i 1"
definition L0 :: "nat \<Rightarrow> nc_merger" where "L0 i = push_bit i 0x100"
definition L1 :: "nat \<Rightarrow> nc_merger" where "L1 i = push_bit i 0x1000"
definition L2_0 :: nc_merger where "L2_0 = 0x4000"
definition DNC :: "nat \<Rightarrow> nc_merger" where "DNC i = push_bit i 1 OR 0x8000"
definition MERG_ALL :: nc_merger where "MERG_ALL = 0x4fff"

definition nc_enable :: nat where "nc_enable = 0"
definition nc_select :: nat where "nc_select = 1"
definition nc_slow :: nat where "nc_slow = 2"
definition nc_dncloopb :: nat where "nc_dncloopb = 3"
definition nc_randomreset :: nat where "nc_randomreset = 4"
definition nc_phase :: nat where "nc_phase = 5"
definition nc_seed :: nat where "nc_seed = 6"
definition nc_period :: nat where "nc_period = 7"
definition nc_dncmerger :: nat where "nc_dncmerger = 15"
definition nc_nnumber :: nat where "nc_nnumber = 16"

lemmas nc_reg_defs = nc_enable_def nc_select_def nc_slow_def nc_dncloopb_def nc_randomreset_def
  nc_phase_def nc_seed_def nc_period_def nc_dncmerger_def nc_nnumber_def

record neuron_control = ctrlmod +
  nconfig :: "u32 list"

definition nc_count :: "hicann_v \<Rightarrow> nat" where
  "nc_count v = (case v of HV2 \<Rightarrow> 20 | HV1 \<Rightarrow> 15)"

definition NeuronControl_new :: "hicann_v \<Rightarrow> bus \<Rightarrow> u32 \<Rightarrow> u16 \<Rightarrow> u16 \<Rightarrow> neuron_control" where
  "NeuronControl_new v c ta sa ma = \<lparr>bus = c, ctag = ta, startaddr = sa, maxaddr = ma,
     nconfig = replicate (nc_count v) 0\<rparr>"

subsection \<open>Registers and copy\<close>

definition nc_write_bits :: "u32 \<Rightarrow> bool list \<Rightarrow> (neuron_control, int) hal" where
  "nc_write_bits rowaddr cfg = write_cmd (ucast rowaddr) (bits_word cfg)"

definition nc_write :: "u32 \<Rightarrow> u32 \<Rightarrow> (neuron_control, int) hal" where
  "nc_write rowaddr cfg = write_cmd (ucast rowaddr) cfg"

definition nc_read :: "u32 \<Rightarrow> (neuron_control, int) hal" where
  "nc_read rowaddr = read_cmd (ucast rowaddr)"

definition nc_get_read_data :: "(neuron_control, u16 \<times> u32) hal" where
  "nc_get_read_data = hbind get_data (\<lambda>tmp. hret (paddr tmp AND 0xf, pdat tmp AND 0xffff))"

text \<open>\<open>config[i]\<close> read and written; an index past the vector's end is undefined.\<close>

definition ncfg :: "nat \<Rightarrow> (neuron_control, u32) hal" where
  "ncfg i = (\<lambda>s. if i < length (nconfig s) then (Inr (nconfig s ! i), s) else (Inl Undefined_behaviour, s))"

definition set_ncfg :: "nat \<Rightarrow> u32 \<Rightarrow> (neuron_control, unit) hal" where
  "set_ncfg i d = (\<lambda>s. if i < length (nconfig s) then (Inr (), s\<lparr>nconfig := (nconfig s)[i := d]\<rparr>)
     else (Inl Undefined_behaviour, s))"

text \<open>The two orders the operations use: the chip, then the copy; and the copy, then the chip.\<close>

definition nc_put :: "nat \<Rightarrow> u32 \<Rightarrow> (neuron_control, unit) hal" where
  "nc_put i d = hseq (nc_write (of_nat i) d) (set_ncfg i d)"

definition nc_set :: "nat \<Rightarrow> u32 \<Rightarrow> (neuron_control, unit) hal" where
  "nc_set i d = hseq (set_ncfg i d) (hseq (nc_write (of_nat i) d) (hret ()))"

definition nc_configure :: "hicann_v \<Rightarrow> (neuron_control, unit) hal" where
  "nc_configure v = hfor [0..<nc_count v] (\<lambda>i.
     hseq (nc_read (of_nat i)) (hbind nc_get_read_data (\<lambda>ad. set_ncfg i (snd ad))))"

definition nc_reset :: "hicann_v \<Rightarrow> (neuron_control, unit) hal" where
  "nc_reset v = hfor [0..<nc_count v] (\<lambda>i. nc_put i 0)"

subsection \<open>Background event generators\<close>

definition set_seed :: "u32 \<Rightarrow> (neuron_control, unit) hal" where
  "set_seed seed = nc_put nc_seed seed"

definition beg_on :: "u32 \<Rightarrow> (neuron_control, unit) hal" where
  "beg_on gen_nr =
     (if gen_nr > 8 then hret ()
      else if gen_nr = 8 then hbind (ncfg nc_randomreset) (\<lambda>d. nc_put nc_randomreset (d OR 0xff))
      else let g = push_bit (unat gen_nr) 1
           in hbind (ncfg nc_randomreset) (\<lambda>d. nc_put nc_randomreset (d OR g)))"

definition beg_off :: "u32 \<Rightarrow> (neuron_control, unit) hal" where
  "beg_off gen_nr =
     (if gen_nr > 8 then hret ()
      else if gen_nr = 8 then hbind (ncfg nc_randomreset) (\<lambda>d. nc_put nc_randomreset (d AND 0xff00))
      else let g = push_bit (unat gen_nr) 1 XOR 0xffff
           in hbind (ncfg nc_randomreset) (\<lambda>d. nc_put nc_randomreset (d AND g)))"

definition beg_configure :: "u32 \<Rightarrow> bool \<Rightarrow> u32 \<Rightarrow> (neuron_control, unit) hal" where
  "beg_configure gen_nr poisson period =
     (if gen_nr > 8 then hret ()
      else if gen_nr = 8 then
        hseq (hbind (ncfg nc_randomreset) (\<lambda>d.
               if poisson then nc_put nc_randomreset (d OR 0xff00)
               else nc_put nc_randomreset (d AND 0xff)))
          (hfor [0..<8] (\<lambda>i. nc_put (7 + i) (period AND 0xffff)))
      else
        hseq (nc_put (7 + unat gen_nr) (period AND 0xffff))
          (hbind (ncfg nc_randomreset) (\<lambda>d.
             if poisson then nc_put nc_randomreset (d OR push_bit (unat gen_nr + 8) 1)
             else nc_put nc_randomreset (d AND (push_bit (unat gen_nr + 8) 1 XOR 0xffff)))))"

definition beg_set_number :: "hicann_v \<Rightarrow> u32 \<Rightarrow> u32 \<Rightarrow> (neuron_control, unit) hal" where
  "beg_set_number v gen_nr nnumber = (case v of
     HV2 \<Rightarrow> if nnumber < 64 \<and> gen_nr < 8 then
              let a = nc_nnumber + unat (gen_nr div 2) in
              if gen_nr mod 2 = 0
              then hbind (ncfg a) (\<lambda>d. nc_set a ((d AND 0xff00) OR nnumber))
              else hbind (ncfg a) (\<lambda>d. nc_set a ((d AND 0xff) OR push_bit 8 nnumber))
            else hret ()
   | HV1 \<Rightarrow> hret ())"

subsection \<open>Mergers\<close>

text \<open>Set or clear the bits \<open>m\<close> of register \<open>i\<close>: the copy first, then the chip.\<close>

definition set_or_clear :: "nat \<Rightarrow> u32 \<Rightarrow> bool \<Rightarrow> (neuron_control, unit) hal" where
  "set_or_clear i m on = hbind (ncfg i) (\<lambda>d.
     if on then nc_set i (d OR m) else nc_set i (d AND (m XOR 0xffff)))"

definition merger_set :: "hicann_v \<Rightarrow> nc_merger \<Rightarrow> bool \<Rightarrow> bool \<Rightarrow> bool \<Rightarrow> (neuron_control, unit) hal" where
  "merger_set v merg en sel slw =
     (if v = HV2 \<and> merg > 0x4fff then
        hseq (set_or_clear nc_dncmerger (merg AND 0xff) en)
        (hseq (set_or_clear nc_dncloopb (push_bit 8 (merg AND 0xff)) sel)
              (set_or_clear nc_dncmerger (push_bit 8 (merg AND 0xff)) slw))
      else
        hseq (set_or_clear nc_enable merg en)
        (hseq (set_or_clear nc_select merg sel)
              (set_or_clear nc_slow merg slw)))"

definition merger_sets :: "hicann_v \<Rightarrow> nc_merger list \<Rightarrow> bool list \<Rightarrow> bool list \<Rightarrow> bool list \<Rightarrow>
    (neuron_control, unit) hal" where
  "merger_sets v merg en sel slw = hfor [0..<length merg] (\<lambda>i.
     if i < length en \<and> i < length sel \<and> i < length slw
     then merger_set v (merg ! i) (en ! i) (sel ! i) (slw ! i)
     else hthrow Undefined_behaviour)"

definition merger_get :: "nc_merger \<Rightarrow> (neuron_control, bool \<times> bool \<times> bool) hal" where
  "merger_get merg = hbind (ncfg nc_enable) (\<lambda>e. hbind (ncfg nc_select) (\<lambda>l. hbind (ncfg nc_slow) (\<lambda>w.
     hret (e AND merg \<noteq> 0, l AND merg \<noteq> 0, w AND merg \<noteq> 0))))"

subsection \<open>Channels\<close>

definition outputphase_set :: "bool list \<Rightarrow> (neuron_control, unit) hal" where
  "outputphase_set reg = nc_put nc_phase
     (of_bool (reg ! 0) + of_bool (reg ! 1) * 2 + of_bool (reg ! 2) * 4 + of_bool (reg ! 3) * 8
      + of_bool (reg ! 4) * 16 + of_bool (reg ! 5) * 32 + of_bool (reg ! 6) * 64 + of_bool (reg ! 7) * 128)"

definition dnc_enable_set :: "bool list \<Rightarrow> (neuron_control, unit) hal" where
  "dnc_enable_set dnc =
     (let newcon = push_bit 8 (of_bool (dnc ! 0) + of_bool (dnc ! 1) * 2 + of_bool (dnc ! 2) * 4
            + of_bool (dnc ! 3) * 8 + of_bool (dnc ! 4) * 16 + of_bool (dnc ! 5) * 32
            + of_bool (dnc ! 6) * 64 + of_bool (dnc ! 7) * 128)
      in hbind (ncfg nc_dncloopb) (\<lambda>d. nc_put nc_dncloopb ((d AND 0xff) OR newcon)))"

definition loopback_on :: "u32 \<Rightarrow> u32 \<Rightarrow> (neuron_control, unit) hal" where
  "loopback_on src tgt =
     (if max src tgt mod 2 \<noteq> 0 \<and> max src tgt - min src tgt = 1 \<and> max src tgt < 8 then
        let clear = push_bit (unat (min src tgt)) 3 XOR 0xffff;
            newcon = push_bit (unat tgt) 1
        in hbind (ncfg nc_dncloopb) (\<lambda>d. nc_put nc_dncloopb ((d AND clear) OR newcon))
      else hret ())"

definition loopback_off :: "u32 \<Rightarrow> (neuron_control, unit) hal" where
  "loopback_off number =
     (if number < 9 then
        if number = 8 then
          hbind (ncfg nc_dncloopb) (\<lambda>d. hseq (nc_write (of_nat nc_dncloopb) (d AND 0xff00)) (hret ()))
        else
          let n = (if number mod 2 \<noteq> 0 then number - 1 else number);
              clear = push_bit (unat n) 3 XOR 0xffff
          in hbind (ncfg nc_dncloopb) (\<lambda>d. nc_put nc_dncloopb (d AND clear))
      else hret ())"

subsection \<open>The copy and the chip\<close>

definition nc_addr :: "neuron_control \<Rightarrow> nat \<Rightarrow> u16" where
  "nc_addr s i = of_nat i + startaddr s"

definition nc_copy :: "neuron_control \<Rightarrow> nat \<Rightarrow> u32" where
  "nc_copy s i = (if i < length (nconfig s) then nconfig s ! i else 0)"

definition nc_ok :: "hicann_v \<Rightarrow> neuron_control \<Rightarrow> bool" where
  "nc_ok v s \<longleftrightarrow> length (nconfig s) = nc_count v"

lemma nc_count_le: "nc_count v \<le> 20" "15 \<le> nc_count v"
  by (simp_all add: nc_count_def split: hicann_v.split)

text \<open>Register \<open>i\<close> has been set to \<open>d\<close> in chip and copy.\<close>

definition nc_written :: "nat \<Rightarrow> u32 \<Rightarrow> neuron_control \<Rightarrow> neuron_control \<Rightarrow> bool" where
  "nc_written i d s t \<longleftrightarrow> nconfig t = (nconfig s)[i := d] \<and> i < length (nconfig s) \<and>
     startaddr t = startaddr s \<and> regs t = (regs s)(of_nat i + startaddr s \<mapsto> d)"

lemma nc_addr_cast: "i < 20 \<Longrightarrow> (ucast (of_nat i :: u32) :: u16) = of_nat i"
  by (simp add: word_unat_eq_iff unsigned_ucast_eq unsigned_of_nat take_bit_nat_eq_self)

lemma nc_addr_inj: "i < 20 \<Longrightarrow> j < 20 \<Longrightarrow> (of_nat i :: u16) = of_nat j \<Longrightarrow> i = j"
  by (simp add: word_unat_eq_iff unsigned_of_nat take_bit_nat_eq_self)

lemma nc_put_cases:
  assumes "i < length (nconfig s)" and "i < 20"
  obtains (throws) e b where "nc_put i d s = (Inl e, s\<lparr>bus := b\<rparr>)" "issued b = issued (bus s)"
  | (sets) t where "nc_put i d s = (Inr (), t)" "nc_written i d s t"
proof (cases rule: write_cmd_cases [of "of_nat i" d s])
  case range
  then show thesis
    by (intro throws [of Range_error "bus s"])
      (simp_all add: nc_put_def nc_write_def hbind_def hseq_def nc_addr_cast assms)
next
  case (refused b)
  then show thesis
    by (intro throws [of Runtime_error b]) (simp_all add: nc_put_def nc_write_def hbind_def hseq_def nc_addr_cast assms)
next
  case (written b)
  then show thesis
    by (intro sets [of "s\<lparr>bus := b, nconfig := (nconfig s)[i := d]\<rparr>"])
      (use assms in \<open>simp_all add: nc_put_def nc_write_def set_ncfg_def hbind_def hseq_def nc_addr_cast
        nc_written_def regs_def fun_eq_iff\<close>)
qed

lemma nc_set_returns:
  assumes "nc_set i d s = (Inr u, t)" and "i < 20"
  shows "nc_written i d s t"
proof -
  let ?s = "s\<lparr>nconfig := (nconfig s)[i := d]\<rparr>"
  have i: "i < length (nconfig s)"
    using assms by (simp add: nc_set_def set_ncfg_def hseq_def hbind_def split: if_splits)
  then have w: "hseq (write_cmd (of_nat i) d) (hret ()) ?s = (Inr u, t)"
    using assms by (simp add: nc_set_def set_ncfg_def hseq_Inr nc_write_def nc_addr_cast)
  show ?thesis
    by (rule write_cmd_cases [of "of_nat i" d ?s])
      (use w i in \<open>auto simp: hseq_def hbind_def nc_written_def regs_def fun_eq_iff\<close>)
qed

interpretation nc: shadowed "nc_count v" nc_addr nc_copy regs "nc_ok v" nc_put for v
proof
  fix s t :: neuron_control and i j d e u
  show "nc_ok v s \<Longrightarrow> i < nc_count v \<Longrightarrow> j < nc_count v \<Longrightarrow> nc_addr s i = nc_addr s j \<Longrightarrow> i = j"
    using nc_addr_inj [of i j] nc_count_le [of v] by (simp add: nc_addr_def)
  show "nc_ok v t \<and> nc_copy t = nc_copy s \<and> regs t = regs s \<and> nc_addr t = nc_addr s"
    if "nc_ok v s" "i < nc_count v" "nc_put i d s = (Inl e, t)"
    by (rule nc_put_cases [of i s d])
      (use that nc_count_le [of v] in \<open>auto simp: nc_ok_def nc_copy_def regs_def nc_addr_def fun_eq_iff\<close>)
  show "nc_ok v t \<and> nc_copy t = (nc_copy s)(i := d) \<and> regs t = (regs s)(nc_addr s i \<mapsto> d) \<and>
      nc_addr t = nc_addr s"
    if "nc_ok v s" "i < nc_count v" "nc_put i d s = (Inr u, t)"
    by (rule nc_put_cases [of i s d])
      (use that nc_count_le [of v] in \<open>auto simp: nc_ok_def nc_copy_def nc_addr_def nc_written_def
        fun_eq_iff nth_list_update\<close>)
qed

definition nc_coherent :: "hicann_v \<Rightarrow> neuron_control \<Rightarrow> bool" where
  "nc_coherent v s \<longleftrightarrow> length (nconfig s) = nc_count v \<and>
     (\<forall>i<nc_count v. regs s (of_nat i + startaddr s) \<in> {None, Some (nconfig s ! i)})"

lemma nc_coherent_iff: "nc_coherent v = nc.coherent v"
proof (rule ext)
  fix s
  have "(\<forall>d. r = Some d \<longrightarrow> d = c) \<longleftrightarrow> r \<in> {None, Some c}" for r and c :: u32 by (cases r) auto
  then show "nc_coherent v s = nc.coherent v s"
    by (simp only: nc_coherent_def nc.coherent_def nc_ok_def nc_copy_def nc_addr_def) auto
qed

lemma nc_put_coherent [keeps_intros]: "i < nc_count v \<Longrightarrow> keeps (nc_coherent v) (nc_put i d)"
  by (simp add: keeps_def nc_coherent_iff nc.set_coherent)

lemma ncfg_coherent [keeps_intros]: "keeps P (ncfg i)"
  by (simp add: keeps_def ncfg_def)

lemma nc_set_coherent [settles_intros]:
  assumes "i < nc_count v"
  shows "settles (nc_coherent v) (nc_set i d)"
  unfolding settles_def
proof (intro allI impI)
  fix s r t assume P: "nc_coherent v s" and "nc_set i d s = (Inr r, t)"
  then have w: "nc_written i d s t"
    using nc_set_returns [of i d s r t] assms nc_count_le [of v] by simp
  show "nc_coherent v t"
    unfolding nc_coherent_def
  proof (intro conjI allI impI)
    show "length (nconfig t) = nc_count v" using w P by (simp add: nc_written_def nc_coherent_def)
    fix j assume j: "j < nc_count v"
    show "regs t (of_nat j + startaddr t) \<in> {None, Some (nconfig t ! j)}"
      using w P j assms nc_addr_inj [of i j] nc_count_le [of v]
      by (cases "i = j") (auto simp: nc_written_def nc_coherent_def split: if_splits)
  qed
qed

lemma set_or_clear_coherent [settles_intros]:
  "i < nc_count v \<Longrightarrow> settles (nc_coherent v) (set_or_clear i m on)"
  unfolding set_or_clear_def
  by (intro settles_hbind settles_if nc_set_coherent keeps_settles keeps_intros ncfg_coherent)

lemma nc_regs_count: "nc_enable < nc_count v" "nc_select < nc_count v" "nc_slow < nc_count v"
  "nc_dncloopb < nc_count v" "nc_randomreset < nc_count v" "nc_phase < nc_count v" "nc_seed < nc_count v"
  using nc_count_le(2) [of v] by (simp_all add: nc_reg_defs)

lemma beg_coherent [keeps_intros]:
  "keeps (nc_coherent v) (beg_on g)" "keeps (nc_coherent v) (beg_off g)"
  unfolding beg_on_def beg_off_def Let_def by (intro keeps_intros nc_regs_count)+

lemma beg_configure_coherent [keeps_intros]: "keeps (nc_coherent v) (beg_configure g p d)"
proof -
  have "keeps (nc_coherent v) (nc_put (7 + unat g) e)" if "\<not> 8 < g" "g \<noteq> 8" for e
  proof (rule nc_put_coherent)
    have "unat g < 8" using that by (simp add: word_less_nat_alt word_unat_eq_iff)
    then show "7 + unat g < nc_count v" using nc_count_le(2) [of v] by simp
  qed
  moreover have "keeps (nc_coherent v) (hfor [0..<8] (\<lambda>i. nc_put (7 + i) e))" for e
    by (rule keeps_loop) (use nc_count_le(2) [of v] in \<open>simp add: nc_put_coherent\<close>)
  ultimately show ?thesis
    unfolding beg_configure_def
    by (intro keeps_if keeps_hseq keeps_hbind keeps_hret ncfg_coherent nc_put_coherent [OF nc_regs_count(5)]) simp_all
qed

lemma outputphase_coherent [keeps_intros]: "keeps (nc_coherent v) (outputphase_set bs)"
  unfolding outputphase_set_def by (rule nc_put_coherent nc_regs_count)+

lemma dnc_enable_coherent [keeps_intros]: "keeps (nc_coherent v) (dnc_enable_set bs)"
  unfolding dnc_enable_set_def Let_def
  by (rule keeps_hbind, rule ncfg_coherent, rule nc_put_coherent, rule nc_regs_count)

lemma loopback_on_coherent [keeps_intros]: "keeps (nc_coherent v) (loopback_on a b)"
  unfolding loopback_on_def Let_def
  by (rule keeps_if keeps_hbind keeps_hret ncfg_coherent nc_put_coherent nc_regs_count)+

lemma loopback_off_coherent [keeps_intros]: "n \<noteq> 8 \<Longrightarrow> keeps (nc_coherent v) (loopback_off n)"
  unfolding loopback_off_def Let_def by (simp add: keeps_intros nc_regs_count)

lemma nc_reset_coherent [keeps_intros]: "keeps (nc_coherent v) (nc_reset v)"
  unfolding nc_reset_def by (rule keeps_loop) (simp add: nc_put_coherent)

lemma merger_set_coherent [settles_intros]: "settles (nc_coherent v) (merger_set v m e l w)"
proof -
  have "nc_dncmerger < nc_count v" if "v = HV2" using that by (simp add: nc_dncmerger_def nc_count_def)
  then show ?thesis
    unfolding merger_set_def by (intro settles_intros nc_regs_count) auto
qed

lemma beg_set_number_coherent [settles_intros]: "settles (nc_coherent v) (beg_set_number v g n)"
proof (cases v)
  case HV2
  have g: "nc_nnumber + unat (g div 2) < nc_count HV2" if "g < 8"
    using that by (simp add: nc_nnumber_def nc_count_def unat_div word_less_nat_alt)
  show ?thesis
    unfolding beg_set_number_def HV2 hicann_v.case Let_def
    by (intro settles_intros g keeps_settles [OF ncfg_coherent]) simp_all
qed (simp add: beg_set_number_def settles_hret)


definition demo_neuron :: neuron_control where
  "demo_neuron = NeuronControl_new HV2 \<lparr>issued = [], rxdata = (\<lambda>_. []), env = []\<rparr> 0
     (astart OcpNeuronCtrl) (amax OcpNeuronCtrl)"

lemma demo_neuron_coherent: "nc_coherent HV2 demo_neuron"
  by (simp add: nc_coherent_def demo_neuron_def NeuronControl_new_def regs_def nc_count_def)


subsection \<open>What the mergers read back as\<close>

lemma set_or_clear_returns:
  assumes "set_or_clear i m on s = (Inr u, t)" and "i < 20"
  shows "i < length (nconfig s) \<and> nconfig t = (nconfig s)[i := (if on then nconfig s ! i OR m
    else nconfig s ! i AND (m XOR 0xffff))]"
proof -
  have i: "i < length (nconfig s)"
    using assms by (simp add: set_or_clear_def ncfg_def hbind_def split: if_splits)
  then have "nc_set i (if on then nconfig s ! i OR m else nconfig s ! i AND (m XOR 0xffff)) s = (Inr u, t)"
    using assms by (simp add: set_or_clear_def ncfg_def hbind_def split: if_splits)
  then show ?thesis
    using nc_set_returns [of i _ s u t] assms(2) i by (simp add: nc_written_def)
qed

lemma write_returns:
  assumes "hseq (write_cmd a d) (hret ()) s = (Inr u, t)"
  shows "\<exists>b. t = s\<lparr>bus := b\<rparr> \<and>
    issued b = issued (bus s) @ [(ctag s, \<lparr>pwrite = 1, paddr = a + startaddr s, pdat = d\<rparr>)]"
proof (cases rule: write_cmd_cases [of a d s])
  case (written b)
  then show ?thesis using assms by (auto simp: hseq_def hbind_def)
qed (use assms in \<open>simp_all add: hseq_def hbind_def\<close>)

lemma hseq_returns: "hseq m n s = (Inr u, t) \<Longrightarrow> \<exists>x s'. m s = (Inr x, s') \<and> n s' = (Inr u, t)"
  unfolding hseq_def by (erule hbind_cases) auto

lemma merger_get_app:
  "2 < length (nconfig s) \<Longrightarrow> merger_get m s = (Inr (nconfig s ! 0 AND m \<noteq> 0,
     nconfig s ! 1 AND m \<noteq> 0, nconfig s ! 2 AND m \<noteq> 0), s)"
  by (cases "nconfig s") (auto simp: merger_get_def ncfg_def hbind_def nc_reg_defs)

lemma below_2_15: "m \<le> (0x4fff :: u32) \<Longrightarrow> bit m n \<Longrightarrow> n < 16"
proof (rule ccontr)
  assume m: "m \<le> 0x4fff" "bit m n" and "\<not> n < 16"
  have "unat m < 2 ^ 16" using m(1) by (simp add: word_le_nat_alt)
  then have "take_bit 16 m = m"
    by (simp add: word_unat_eq_iff unsigned_take_bit_eq take_bit_nat_eq_self)
  then have "bit (take_bit 16 m) n" using m(2) by simp
  then show False using \<open>\<not> n < 16\<close> by (simp add: bit_take_bit_iff)
qed

lemma bit_0xffff: "bit (0xffff :: u32) k \<longleftrightarrow> k < 16"
proof -
  have "(0xffff :: u32) = mask 16" by (simp add: mask_eq_exp_minus_1)
  then have "bit (0xffff :: u32) k \<longleftrightarrow> k < 32 \<and> k < 16" by (simp only: bit_mask_iff) simp
  then show ?thesis by auto
qed

lemma merger_bits:
  assumes "m \<le> (0x4fff :: u32)"
  shows "(d OR m) AND m = m" "(d AND (m XOR 0xffff)) AND m = 0"
    "m' AND m = 0 \<Longrightarrow> (d OR m) AND m' = d AND m'"
    "m' \<le> 0x4fff \<Longrightarrow> m' AND m = 0 \<Longrightarrow> (d AND (m XOR 0xffff)) AND m' = d AND m'"
  using below_2_15 [OF assms] below_2_15 [of m']
  by (simp_all only: bit_eq_iff [where 'a = "32 word"] bit_and_iff bit_or_iff bit_xor_iff bit_0xffff bit_0_eq) auto

text \<open>One of the three settings: what it leaves in its register and in the others.\<close>

abbreviation masked :: "u32 \<Rightarrow> u32 \<Rightarrow> bool \<Rightarrow> u32" where
  "masked d m on \<equiv> (if on then d OR m else d AND (m XOR 0xffff))"

lemma merger_set_config:
  assumes "merger_set v m en sel slw s = (Inr u, t)" and "m \<le> 0x4fff"
  shows "2 < length (nconfig s)" and "nconfig t = (nconfig s)
    [0 := masked (nconfig s ! 0) m en, 1 := masked (nconfig s ! 1) m sel, 2 := masked (nconfig s ! 2) m slw]"
proof -
  have "hseq (set_or_clear nc_enable m en) (hseq (set_or_clear nc_select m sel) (set_or_clear nc_slow m slw)) s
      = (Inr u, t)"
    using assms by (simp add: merger_set_def not_le [symmetric])
  then obtain s1 s2 x y where st: "set_or_clear nc_enable m en s = (Inr x, s1)"
      "set_or_clear nc_select m sel s1 = (Inr y, s2)" "set_or_clear nc_slow m slw s2 = (Inr u, t)"
    by (blast dest: hseq_returns)
  have c1: "0 < length (nconfig s) \<and> nconfig s1 = (nconfig s)[0 := masked (nconfig s ! 0) m en]"
    using set_or_clear_returns [OF st(1)] by (simp add: nc_enable_def)
  have c2: "1 < length (nconfig s1) \<and> nconfig s2 = (nconfig s1)[1 := masked (nconfig s1 ! 1) m sel]"
    using set_or_clear_returns [OF st(2)] by (simp add: nc_select_def)
  have c3: "2 < length (nconfig s2) \<and> nconfig t = (nconfig s2)[2 := masked (nconfig s2 ! 2) m slw]"
    using set_or_clear_returns [OF st(3)] by (simp add: nc_slow_def)
  show "2 < length (nconfig s)" using c1 c2 c3 by simp
  have "nconfig s1 ! 1 = nconfig s ! 1" using c1 by simp
  moreover have "nconfig s2 ! 2 = nconfig s ! 2" using c1 c2 by simp
  ultimately show "nconfig t = (nconfig s)
    [0 := masked (nconfig s ! 0) m en, 1 := masked (nconfig s ! 1) m sel, 2 := masked (nconfig s ! 2) m slw]"
    using c1 c2 c3 by simp
qed

text \<open>The settings of a merger of the tree (or of several at once, as MERG_ALL) read back
  through merger_get as they were set by merger_set, and no setting of a merger that shares no
  bit with them changes.\<close>

theorem merger_roundtrip:
  assumes "merger_set v m en sel slw s = (Inr (), t)" and "m \<le> MERG_ALL" and "m \<noteq> 0"
  shows "fst (merger_get m t) = Inr (en, sel, slw) \<and>
    (m' \<le> MERG_ALL \<and> m' AND m = 0 \<longrightarrow> fst (merger_get m' t) = fst (merger_get m' s))"
proof (intro conjI impI)
  have m: "m \<le> 0x4fff" using assms(2) by (simp only: MERG_ALL_def)
  note c = merger_set_config [OF assms(1) m]
  have len: "2 < length (nconfig t)" using c by simp
  have at: "nconfig t ! 0 = masked (nconfig s ! 0) m en" "nconfig t ! 1 = masked (nconfig s ! 1) m sel"
      "nconfig t ! 2 = masked (nconfig s ! 2) m slw"
    unfolding c(2) using c(1) less_trans [OF _ c(1), of 0] by (simp_all add: nth_list_update del: length_greater_0_conv)
  have on: "masked d m b AND m \<noteq> 0 \<longleftrightarrow> b" for d b
    using merger_bits(1,2) [OF m, of d] assms(3) by simp
  show "fst (merger_get m t) = Inr (en, sel, slw)"
    unfolding merger_get_app [OF len] at on by simp
  assume "m' \<le> MERG_ALL \<and> m' AND m = 0"
  then have m': "m' \<le> 0x4fff" "m' AND m = 0" by (simp_all only: MERG_ALL_def)
  have "masked d m b AND m' = d AND m'" for d b
    using merger_bits(3) [OF m m'(2), of d] merger_bits(4) [OF m m', of d] by (simp only: split: if_split) blast
  then show "fst (merger_get m' t) = fst (merger_get m' s)"
    unfolding merger_get_app [OF len] merger_get_app [OF c(1)] at by simp
qed

theorem merger_roundtrip_witness:
  "fst (merger_get (L1 1) (snd (merger_set HV2 (L1 1) True False True demo_neuron))) = Inr (True, False, True)"
proof -
  have "fst (merger_set HV2 (L1 1) True False True demo_neuron) = Inr ()" by code_simp
  then have "merger_set HV2 (L1 1) True False True demo_neuron
      = (Inr (), snd (merger_set HV2 (L1 1) True False True demo_neuron))"
    by (metis prod.collapse)
  then show ?thesis
    by (rule merger_roundtrip [THEN conjunct1]) (simp_all add: L1_def MERG_ALL_def)
qed

text \<open>On the second chip version the settings of a DNC merger never show in merger_get,
  which answers for every merger, the DNC merger included, as if merger_set had not run.\<close>

theorem merger_get_misses_dnc:
  assumes "merger_set HV2 (DNC k) en sel slw s = (Inr (), t)" and "k < 8"
  shows "fst (merger_get m t) = fst (merger_get m s)"
proof -
  let ?b = "DNC k AND 0xff"
  have "k \<in> {0, 1, 2, 3, 4, 5, 6, 7}" using assms(2) by auto
  then have "DNC k > 0x4fff" by (auto simp: DNC_def)
  then have "hseq (set_or_clear nc_dncmerger ?b en) (hseq (set_or_clear nc_dncloopb (push_bit 8 ?b) sel)
      (set_or_clear nc_dncmerger (push_bit 8 ?b) slw)) s = (Inr (), t)"
    using assms(1) by (simp only: merger_set_def simp_thms if_True)
  then obtain s1 s2 x y where st: "set_or_clear nc_dncmerger ?b en s = (Inr x, s1)"
      "set_or_clear nc_dncloopb (push_bit 8 ?b) sel s1 = (Inr y, s2)"
      "set_or_clear nc_dncmerger (push_bit 8 ?b) slw s2 = (Inr (), t)"
    by (blast dest: hseq_returns)
  obtain d where c1: "nc_dncmerger < length (nconfig s)" "nconfig s1 = (nconfig s)[nc_dncmerger := d]"
    using set_or_clear_returns [OF st(1)] by (auto simp: nc_dncmerger_def)
  obtain e where c2: "nconfig s2 = (nconfig s1)[nc_dncloopb := e]"
    using set_or_clear_returns [OF st(2)] by (auto simp: nc_dncloopb_def)
  obtain f where c3: "nconfig t = (nconfig s2)[nc_dncmerger := f]"
    using set_or_clear_returns [OF st(3)] by (auto simp: nc_dncmerger_def)
  have len: "2 < length (nconfig s)" "2 < length (nconfig t)"
    using c1 c2 c3 by (simp_all add: nc_reg_defs)
  have "nconfig t ! i = nconfig s ! i" if "i < 3" for i
    using that c1 c2 c3 by (simp add: nc_reg_defs)
  then show ?thesis
    unfolding merger_get_app [OF len(1)] merger_get_app [OF len(2)] by simp
qed

theorem merger_get_misses_dnc_witness:
  "fst (merger_get (DNC 0) (snd (merger_set HV2 (DNC 0) True True True demo_neuron))) = Inr (False, False, False)"
proof -
  have "fst (merger_set HV2 (DNC 0) True True True demo_neuron) = Inr ()" by code_simp
  then have "merger_set HV2 (DNC 0) True True True demo_neuron
      = (Inr (), snd (merger_set HV2 (DNC 0) True True True demo_neuron))"
    by (metis prod.collapse)
  then have "fst (merger_get (DNC 0) (snd (merger_set HV2 (DNC 0) True True True demo_neuron)))
      = fst (merger_get (DNC 0) demo_neuron)"
    by (rule merger_get_misses_dnc) simp
  moreover have "fst (merger_get (DNC 0) demo_neuron) = Inr (False, False, False)" by code_simp
  ultimately show ?thesis by simp
qed

subsection \<open>Switching all loopbacks off\<close>

text \<open>loopback_off with the number 8 clears the loopback bits on the chip and leaves the
  copy as it was: the two agree afterwards only if no loopback was on, and the next operation on
  the register brings the loopbacks back.\<close>

theorem loopback_off_all_stale:
  assumes "nc_coherent v s" and "loopback_off 8 s = (Inr (), t)"
  shows "nconfig t = nconfig s \<and>
    regs t (of_nat nc_dncloopb + startaddr t) = Some (nconfig s ! nc_dncloopb AND 0xff00) \<and>
    (nc_coherent v t \<longleftrightarrow> nconfig s ! nc_dncloopb AND 0xff00 = nconfig s ! nc_dncloopb)"
proof (intro conjI)
  let ?w = "nconfig s ! nc_dncloopb AND 0xff00"
  have len: "nc_dncloopb < length (nconfig s)"
    using assms(1) nc_regs_count(4) [of v] by (simp add: nc_coherent_def)
  have three: "(ucast (of_nat nc_dncloopb :: u32) :: u16) = 3" by (simp add: nc_dncloopb_def)
  have w: "hseq (write_cmd 3 ?w) (hret ()) s = (Inr (), t)"
    using assms(2) len by (simp add: loopback_off_def ncfg_def hbind_def nc_write_def three)
  obtain b where t: "t = s\<lparr>bus := b\<rparr>"
      and b: "issued b = issued (bus s) @ [(ctag s, \<lparr>pwrite = 1, paddr = 3 + startaddr s, pdat = ?w\<rparr>)]"
    using write_returns [OF w] by blast
  show cfg: "nconfig t = nconfig s" unfolding t by simp
  have r: "regs t = (regs s)(3 + startaddr s \<mapsto> ?w)"
    by (rule ext) (simp add: t regs_def b)
  have sa: "startaddr t = startaddr s" unfolding t by simp
  show "regs t (of_nat nc_dncloopb + startaddr t) = Some ?w"
    unfolding r by (simp add: nc_dncloopb_def t)
  have other: "i = 3" if "i < nc_count v" "(of_nat i :: u16) = 3" for i
    using nc_addr_inj [of i 3] that nc_count_le [of v] by simp
  have same: "regs t (of_nat i + startaddr t) = regs s (of_nat i + startaddr s)"
    if "i < nc_count v" "i \<noteq> nc_dncloopb" for i
    using that other [of i] by (auto simp: r sa nc_dncloopb_def)
  have "nc_coherent v t \<longleftrightarrow> regs t (of_nat nc_dncloopb + startaddr t) \<in> {None, Some (nconfig s ! nc_dncloopb)}"
    using assms(1) nc_regs_count(4) [of v] same unfolding nc_coherent_def cfg by metis
  then show "nc_coherent v t \<longleftrightarrow> ?w = nconfig s ! nc_dncloopb"
    by (simp add: \<open>regs t (of_nat nc_dncloopb + startaddr t) = Some ?w\<close>)
qed

theorem loopback_off_all_stale_witness:
  "\<not> nc_coherent HV2 (snd (loopback_off 8 (snd (loopback_on 0 1 demo_neuron))))"
proof -
  let ?s = "snd (loopback_on 0 1 demo_neuron)"
  have coh: "nc_coherent HV2 ?s"
    by (rule keepsD [OF loopback_on_coherent demo_neuron_coherent])
  have "fst (loopback_off 8 ?s) = Inr ()" by code_simp
  then have off: "loopback_off 8 ?s = (Inr (), snd (loopback_off 8 ?s))" by (metis prod.collapse)
  have "nconfig ?s ! nc_dncloopb AND 0xff00 \<noteq> nconfig ?s ! nc_dncloopb" by code_simp
  then show ?thesis using loopback_off_all_stale [OF coh off] by simp
qed

end
