(* ===== verification/Fg.thy ===== *)
theory Fg
  imports L1switch
begin

text \<open>
  The floating-gate controllers (\<open>fg_control.cpp\<close>): the two RAM banks of cell values, the
  biasing, operation and instruction registers, and the polling of the busy flag. The results:
  what a RAM word holds and reads back as on both chip versions, what the array initialisers
  leave in every word, and that programming a line ends when the chip stops being busy.
\<close>

datatype fg_loc = FGTL | FGTR | FGBL | FGBR

datatype ControlInstruction = fg_read | writeUp | writeDown | getNextFalse
  | fg_stimulateNeurons | fg_stimulateNeuronsContinuous

definition instr_code :: "ControlInstruction \<Rightarrow> u32" where
  "instr_code i = (case i of fg_read \<Rightarrow> 0 | writeUp \<Rightarrow> 1 | writeDown \<Rightarrow> 2 | getNextFalse \<Rightarrow> 3
     | fg_stimulateNeurons \<Rightarrow> 4 | fg_stimulateNeuronsContinuous \<Rightarrow> 5)"

definition fg_lines :: nat where "fg_lines = 129"
definition fg_bias_dw :: nat where "fg_bias_dw = 4"
definition fg_pulselength_dw :: nat where "fg_pulselength_dw = 4"

definition REG_BASE :: u32 where "REG_BASE = 256"
definition REG_OP :: u32 where "REG_OP = REG_BASE + 2"
definition REG_ADDRINS :: u32 where "REG_ADDRINS = REG_BASE + 1"
definition REG_SLAVE :: u32 where "REG_SLAVE = REG_BASE + 4"
definition REG_BIAS :: u32 where "REG_BIAS = REG_BASE + 8"
definition MEM_SIZE :: nat where "MEM_SIZE = fg_lines div 2 + fg_lines mod 2"
definition MEM_WIDTH :: nat where "MEM_WIDTH = 20"

record fgctl = ctrlmod +
  floc :: fg_loc
  maxcycle :: u32
  currentwritetime :: u32
  voltagewritetime :: u32
  readtime :: u32
  acceleratorstep :: u32
  pulselength :: u32
  groundVM :: u32
  calib :: u32
  fg_biasn :: u32
  fg_bias :: u32

definition FGControl_new :: "fg_loc \<Rightarrow> bus \<Rightarrow> u32 \<Rightarrow> u16 \<Rightarrow> u16 \<Rightarrow> fgctl" where
  "FGControl_new fgl c ta sa ma = \<lparr>bus = c, ctag = ta, startaddr = sa, maxaddr = ma,
     floc = fgl, maxcycle = 255, currentwritetime = 1, voltagewritetime = 15, readtime = 63,
     acceleratorstep = 9, pulselength = 4, groundVM = 0, calib = 0, fg_biasn = 5, fg_bias = 8\<rparr>"

subsection \<open>Words\<close>

definition fg_write_bits :: "u32 \<Rightarrow> bool list \<Rightarrow> (fgctl, int) hal" where
  "fg_write_bits rowaddr cfg = write_cmd (ucast rowaddr) (bits_word cfg)"

definition fg_write :: "u32 \<Rightarrow> u32 \<Rightarrow> (fgctl, int) hal" where
  "fg_write rowaddr cfg = write_cmd (ucast rowaddr) cfg"

definition fg_read_data :: "u32 \<Rightarrow> (fgctl, int) hal" where
  "fg_read_data rowaddr = read_cmd (ucast rowaddr)"

definition revert10bits :: "u32 \<Rightarrow> u32" where
  "revert10bits val = fold (\<lambda>i result. result OR (if val AND push_bit i 1 \<noteq> 0 then push_bit (9 - i) 1 else 0))
     [0..<10] 0"

definition ram_word :: "hicann_v \<Rightarrow> u32 \<Rightarrow> u32 \<Rightarrow> u32" where
  "ram_word v val1 val2 = (case v of
     HV2 \<Rightarrow> push_bit (MEM_WIDTH div 2) val2 + val1
   | HV1 \<Rightarrow> push_bit (MEM_WIDTH div 2) (revert10bits val2) + revert10bits val1)"

definition get_read_data_ram :: "hicann_v \<Rightarrow> (fgctl, u16 \<times> u32) hal" where
  "get_read_data_ram v = hbind get_data (\<lambda>tmp.
     let val1 = pdat tmp mod 1024;
         val2 = pdat tmp div 1024
     in hret (paddr tmp AND 0x1ff, case v of
          HV2 \<Rightarrow> push_bit (MEM_WIDTH div 2) val2 + val1
        | HV1 \<Rightarrow> push_bit (MEM_WIDTH div 2) (revert10bits val2) + revert10bits val1))"

definition fg_get_read_data :: "(fgctl, u16 \<times> u32) hal" where
  "fg_get_read_data = hbind get_data (\<lambda>tmp. hret (paddr tmp AND 0x1ff, pdat tmp))"

definition write_ram :: "hicann_v \<Rightarrow> u32 \<Rightarrow> u32 \<Rightarrow> u32 \<Rightarrow> u32 \<Rightarrow> (fgctl, int) hal" where
  "write_ram v bank addr val1 val2 = fg_write (addr + bank * 128) (ram_word v val1 val2)"

definition read_ram :: "u32 \<Rightarrow> u32 \<Rightarrow> (fgctl, int) hal" where
  "read_ram bank addr = fg_read_data (addr + bank * 128)"

subsection \<open>Filling a bank\<close>

definition initval :: "hicann_v \<Rightarrow> u32 \<Rightarrow> u32 \<Rightarrow> (fgctl, int) hal" where
  "initval v bank val = hseq (hfor [0..<MEM_SIZE] (\<lambda>i. hvoid (write_ram v bank (of_nat i) val val))) (hret 1)"

definition initzeros :: "hicann_v \<Rightarrow> u32 \<Rightarrow> (fgctl, int) hal" where
  "initzeros v bank = hseq (hfor [0..<MEM_SIZE] (\<lambda>i. hvoid (write_ram v bank (of_nat i) 0 0))) (hret 1)"

definition initmax :: "hicann_v \<Rightarrow> u32 \<Rightarrow> (fgctl, int) hal" where
  "initmax v bank = hseq (hfor [0..<MEM_SIZE] (\<lambda>i. hvoid (write_ram v bank (of_nat i) 1023 1023))) (hret 1)"

definition initSquare :: "hicann_v \<Rightarrow> u32 \<Rightarrow> u32 \<Rightarrow> (fgctl, int) hal" where
  "initSquare v bank val =
     hseq (hfor [0..<MEM_SIZE div 2] (\<lambda>i. hvoid (write_ram v bank (of_nat i) val val)))
     (hseq (hfor [MEM_SIZE div 2..<MEM_SIZE] (\<lambda>i. hvoid (write_ram v bank (of_nat i) 0 0))) (hret 1))"

definition initRamp :: "hicann_v \<Rightarrow> u32 \<Rightarrow> u32 \<Rightarrow> (fgctl, int) hal" where
  "initRamp v bank val = hseq (hfor [0..<MEM_SIZE] (\<lambda>i.
     let ramp_value = of_nat i * val div of_nat MEM_SIZE
     in hvoid (write_ram v bank (of_nat i) ramp_value ramp_value))) (hret 1)"

definition initval1 :: "hicann_v \<Rightarrow> u32 \<Rightarrow> u32 \<Rightarrow> u32 \<Rightarrow> (fgctl, int) hal" where
  "initval1 v bank val1 val2 = hseq (write_ram v bank 0 val1 val2)
     (hseq (case v of
        HV2 \<Rightarrow> hfor [1..<MEM_SIZE] (\<lambda>i. hvoid (write_ram v bank (of_nat i) val2 val2))
      | HV1 \<Rightarrow> hseq (hfor [1..<MEM_SIZE - 1] (\<lambda>i. hvoid (write_ram v bank (of_nat i) val2 val2)))
                 (hvoid (write_ram v bank (of_nat (MEM_SIZE - 1)) val1 val2)))
      (hret 1))"

text \<open>\<open>val[i]\<close> of a vector of ints, as the uint that \<open>write_ram\<close> takes.\<close>

definition at :: "int list \<Rightarrow> nat \<Rightarrow> ('s, u32) hal" where
  "at val i = (if i < length val then hret (word_of_int (val ! i)) else hthrow Undefined_behaviour)"

definition write_pair :: "hicann_v \<Rightarrow> u32 \<Rightarrow> nat \<Rightarrow> int list \<Rightarrow> nat \<Rightarrow> nat \<Rightarrow> (fgctl, unit) hal" where
  "write_pair v bank w val i j = hbind (at val i) (\<lambda>a. hbind (at val j) (\<lambda>b.
     hvoid (write_ram v bank (of_nat w) a b)))"

definition initArray :: "hicann_v \<Rightarrow> u32 \<Rightarrow> int list \<Rightarrow> (fgctl, int) hal" where
  "initArray v bank val = hseq (hfor [0..<MEM_SIZE - 1] (\<lambda>i.
     hseq (write_pair v bank i val (2 * i) (2 * i + 1))
      (hwhen (i = MEM_SIZE - 2) (case v of
         HV2 \<Rightarrow> hbind (at val (2 * i + 2)) (\<lambda>a. hvoid (write_ram v bank (of_nat (i + 1)) a 0))
       | HV1 \<Rightarrow> write_pair v bank i val 0 1))))
     (hret 1)"

definition initArray_neuron :: "hicann_v \<Rightarrow> u32 \<Rightarrow> int list \<Rightarrow> int \<Rightarrow> (fgctl, int) hal" where
  "initArray_neuron v bank val neuron = hseq (write_pair v bank 0 val 0 1)
     (if neuron = 0 then hret 1
      else let neuron = neuron + 1 in
        hseq (if neuron < 0 then hthrow Undefined_behaviour
              else write_pair v bank (nat neuron div 2) val (nat neuron) (nat neuron + 1))
        (hseq (case v of HV2 \<Rightarrow> hret () | HV1 \<Rightarrow> write_pair v bank (MEM_SIZE - 1) val 0 1)
          (hret 1)))"

subsection \<open>Registers\<close>

definition biasing_word :: "fgctl \<Rightarrow> u32" where
  "biasing_word s = push_bit (2 * fg_bias_dw + fg_pulselength_dw + 1) (calib s)
     + push_bit (2 * fg_bias_dw + fg_pulselength_dw) (groundVM s)
     + push_bit (2 * fg_bias_dw) (pulselength s) + push_bit fg_bias_dw (fg_biasn s) + fg_bias s"

definition write_biasingreg :: "(fgctl, int) hal" where
  "write_biasingreg = hbind (hget biasing_word) (fg_write REG_BIAS)"

definition operation_word :: "fgctl \<Rightarrow> u32" where
  "operation_word s = push_bit 26 (currentwritetime s) + push_bit 20 (voltagewritetime s)
     + push_bit 14 (acceleratorstep s) + push_bit 8 (readtime s) + maxcycle s"

definition write_operationreg :: "(fgctl, int) hal" where
  "write_operationreg = hbind (hget operation_word) (fg_write REG_OP)"

definition write_biasingreg_val :: "u32 \<Rightarrow> (fgctl, int) hal" where
  "write_biasingreg_val val = fg_write REG_BIAS val"

definition write_operationreg_val :: "u32 \<Rightarrow> (fgctl, int) hal" where
  "write_operationreg_val val = fg_write REG_OP val"

definition write_instructionreg :: "u32 \<Rightarrow> u32 \<Rightarrow> u32 \<Rightarrow> ControlInstruction \<Rightarrow> (fgctl, int) hal" where
  "write_instructionreg collumn line bank instruction = fg_write REG_ADDRINS
     (push_bit 14 (instr_code instruction) + push_bit 13 bank + push_bit 5 line + collumn)"

definition program_cells :: "u32 \<Rightarrow> u32 \<Rightarrow> u32 \<Rightarrow> (fgctl, int) hal" where
  "program_cells collumn bank dir =
     (if dir > 0 then write_instructionreg collumn 0 bank writeUp
      else write_instructionreg collumn 0 bank writeDown)"

definition readout_cell :: "u32 \<Rightarrow> u32 \<Rightarrow> (fgctl, int) hal" where
  "readout_cell collumn line = write_instructionreg collumn line 0 fg_read"

definition get_regslave :: "(fgctl, u32) hal" where
  "get_regslave = hseq (fg_read_data REG_SLAVE) (hbind fg_get_read_data (\<lambda>av. hret (snd av)))"

definition get_next_false :: "(fgctl, u32) hal" where
  "get_next_false = hseq (write_instructionreg 0 0 0 getNextFalse)
     (hseq (fg_read_data REG_SLAVE) (hbind fg_get_read_data (\<lambda>av. hret (snd av AND 0xff))))"

definition stimulateNeurons :: "u32 \<Rightarrow> (fgctl, int) hal" where
  "stimulateNeurons bank = write_instructionreg 0 0 bank fg_stimulateNeurons"

definition stimulateNeuronsContinuous :: "u32 \<Rightarrow> (fgctl, int) hal" where
  "stimulateNeuronsContinuous bank = write_instructionreg 0 0 bank fg_stimulateNeuronsContinuous"

definition isError :: "(fgctl, bool) hal" where
  "isError = hseq (fg_read_data REG_SLAVE) (hbind fg_get_read_data (\<lambda>av. hret (snd av AND 0x200 \<noteq> 0)))"

definition isBusy :: "(fgctl, bool) hal" where
  "isBusy = hseq (fg_read_data REG_SLAVE) (hbind fg_get_read_data (\<lambda>av. hret (snd av AND 0x100 \<noteq> 0)))"

text \<open>\<open>while(isBusy());\<close>: the loop need not end, so its value is None when it does not.\<close>

partial_function (option) wait_idle :: "fgctl \<Rightarrow> ((hal_error + unit) \<times> fgctl) option" where
  "wait_idle s = (case isBusy s of
     (Inl e, t) \<Rightarrow> Some (Inl e, t)
   | (Inr busy, t) \<Rightarrow> if busy then wait_idle t else Some (Inr (), t))"

definition programLine :: "hicann_v \<Rightarrow> u32 \<Rightarrow> u32 \<Rightarrow> u32 \<Rightarrow> fgctl \<Rightarrow> ((hal_error + int) \<times> fgctl) option" where
  "programLine v row val0 val1 s = (case wait_idle s of
     None \<Rightarrow> None
   | Some (Inl e, t) \<Rightarrow> Some (Inl e, t)
   | Some (Inr u, t) \<Rightarrow> Some (hseq (initval1 v 0 val0 val1) (hseq (program_cells row 0 1) (hret 1)) t))"

definition rev4 :: "u32 \<Rightarrow> u32" where
  "rev4 d = (d AND 8) div 8 * 1 + (d AND 4) div 4 * 2 + (d AND 2) div 2 * 4 + (d AND 1) * 8"

definition get_fg_biasn :: "hicann_v \<Rightarrow> (fgctl, u32) hal" where
  "get_fg_biasn v = hget (\<lambda>s. case v of HV2 \<Rightarrow> fg_biasn s | HV1 \<Rightarrow> rev4 (fg_biasn s))"

definition set_fg_biasn :: "hicann_v \<Rightarrow> u32 \<Rightarrow> (fgctl, unit) hal" where
  "set_fg_biasn v d = hmodify (\<lambda>s. s\<lparr>fg_biasn := case v of HV2 \<Rightarrow> d | HV1 \<Rightarrow> rev4 d\<rparr>)"

definition get_fg_bias :: "hicann_v \<Rightarrow> (fgctl, u32) hal" where
  "get_fg_bias v = hget (\<lambda>s. case v of HV2 \<Rightarrow> fg_bias s | HV1 \<Rightarrow> rev4 (fg_bias s))"

definition set_fg_bias :: "hicann_v \<Rightarrow> u32 \<Rightarrow> (fgctl, unit) hal" where
  "set_fg_bias v d = hmodify (\<lambda>s. s\<lparr>fg_bias := case v of HV2 \<Rightarrow> d | HV1 \<Rightarrow> rev4 d\<rparr>)"

text \<open>The remaining setters; their getters are the fields of the record.\<close>

definition set_maxcycle :: "u32 \<Rightarrow> (fgctl, unit) hal" where
  "set_maxcycle d = hmodify (\<lambda>s. s\<lparr>maxcycle := d\<rparr>)"

definition set_currentwritetime :: "u32 \<Rightarrow> (fgctl, unit) hal" where
  "set_currentwritetime d = hmodify (\<lambda>s. s\<lparr>currentwritetime := d\<rparr>)"

definition set_voltagewritetime :: "u32 \<Rightarrow> (fgctl, unit) hal" where
  "set_voltagewritetime d = hmodify (\<lambda>s. s\<lparr>voltagewritetime := d\<rparr>)"

definition set_readtime :: "u32 \<Rightarrow> (fgctl, unit) hal" where
  "set_readtime d = hmodify (\<lambda>s. s\<lparr>readtime := d\<rparr>)"

definition set_acceleratorstep :: "u32 \<Rightarrow> (fgctl, unit) hal" where
  "set_acceleratorstep d = hmodify (\<lambda>s. s\<lparr>acceleratorstep := d\<rparr>)"

definition set_pulselength :: "u32 \<Rightarrow> (fgctl, unit) hal" where
  "set_pulselength d = hmodify (\<lambda>s. s\<lparr>pulselength := d\<rparr>)"

definition set_calib :: "u32 \<Rightarrow> (fgctl, unit) hal" where
  "set_calib d = hmodify (\<lambda>s. s\<lparr>calib := d\<rparr>)"

definition fg_reset :: "(fgctl, unit) hal" where
  "fg_reset = hfor [0..<512] (\<lambda>i. hvoid (fg_write (of_nat i) 0))"

subsection \<open>A word of the RAM\<close>

lemma bit_revert10bits: "bit (revert10bits d) n \<longleftrightarrow> n < 10 \<and> bit d (9 - n)"
proof -
  let ?f = "\<lambda>i result. result OR (if d AND push_bit i 1 \<noteq> 0 then push_bit (9 - i) (1 :: u32) else 0)"
  have f: "bit (fold ?f xs acc) n \<longleftrightarrow> bit acc n \<or> (\<exists>i\<in>set xs. bit d i \<and> n = 9 - i)" for xs acc
  proof (induction xs arbitrary: acc)
    case (Cons i xs)
    have "bit (?f i acc) n \<longleftrightarrow> bit acc n \<or> bit d i \<and> n = 9 - i"
      unfolding and_pow by (cases "bit d i") (auto simp: bit_or_iff bit_pow)
    then show ?case
      by (simp only: fold_simps Cons.IH list.set) auto
  qed simp
  have "bit (revert10bits d) n \<longleftrightarrow> (\<exists>i<10. bit d i \<and> n = 9 - i)"
    unfolding revert10bits_def f by auto
  also have "\<dots> \<longleftrightarrow> n < 10 \<and> bit d (9 - n)"
  proof
    assume "n < 10 \<and> bit d (9 - n)"
    then show "\<exists>i<10. bit d i \<and> n = 9 - i" by (intro exI [of _ "9 - n"]) simp
  qed auto
  finally show ?thesis .
qed

lemma ten_bits: "d < 1024 \<longleftrightarrow> (\<forall>n. bit d n \<longrightarrow> n < 10)" for d :: u32
proof -
  have "d < 1024 \<longleftrightarrow> take_bit 10 d = d"
    by (simp add: take_bit_eq_mod word_unat_eq_iff word_less_nat_alt unat_mod mod_eq_self_iff_div_eq_0)
      (simp add: div_eq_0_iff)
  then show ?thesis
    using bit_imp_le_length [of d] by (auto simp: bit_eq_iff bit_take_bit_iff)
qed

lemma revert10bits_small: "revert10bits d < 1024"
  by (simp add: ten_bits bit_revert10bits)

lemma revert10bits_inverse: "d < 1024 \<Longrightarrow> revert10bits (revert10bits d) = d"
proof (rule bit_eqI)
  fix n assume "d < 1024"
  then show "bit (revert10bits (revert10bits d)) n = bit d n"
    by (auto simp: ten_bits bit_revert10bits)
qed

lemma two_cells:
  assumes "a < 1024" and "b < (1024 :: u32)"
  shows "(push_bit 10 b + a) mod 1024 = a" and "(push_bit 10 b + a) div 1024 = b"
proof -
  have u: "unat a < 1024" "unat b < 1024" using assms by (simp_all add: word_less_nat_alt)
  have s: "unat (push_bit 10 b + a) = 1024 * unat b + unat a"
    using u by (simp add: push_bit_eq_mult unat_word_ariths)
  show "(push_bit 10 b + a) mod 1024 = a" "(push_bit 10 b + a) div 1024 = b"
    by (simp_all add: word_unat_eq_iff unat_mod unat_div s u)
qed

lemma get_data_queue: "rxdata (bus s) (ctag s) = p # ps \<Longrightarrow>
    get_data s = (Inr p, s\<lparr>bus := (bus s)\<lparr>rxdata := (rxdata (bus s))(ctag s := ps)\<rparr>\<rparr>)"
  by (simp add: get_data_def on_bus_def recvData_def)

text \<open>A pair of ten-bit cell values written to a RAM word is read back from that word as
  the same pair, on both chip versions (the first stores each value bit-reversed).\<close>

theorem ram_word_roundtrip:
  assumes "val1 < 1024" and "val2 < 1024"
    and "rxdata (bus s) (ctag s) = p # ps" and "pdat p = ram_word v val1 val2"
  shows "fst (get_read_data_ram v s) = Inr (paddr p AND 0x1ff, push_bit 10 val2 + val1)"
proof (cases v)
  case HV2
  then show ?thesis
    using assms two_cells [OF assms(1,2)]
    by (simp add: get_read_data_ram_def hbind_def get_data_queue ram_word_def MEM_WIDTH_def Let_def)
next
  case HV1
  then show ?thesis
    using assms two_cells [OF revert10bits_small revert10bits_small, of val2 val1]
    by (simp add: get_read_data_ram_def hbind_def get_data_queue ram_word_def MEM_WIDTH_def Let_def
        revert10bits_inverse)
qed

definition demo_fg :: fgctl where
  "demo_fg = FGControl_new FGTL \<lparr>issued = [], rxdata = (\<lambda>_. []), env = []\<rparr> 0 (astart OcpFgate_tl) (amax OcpFgate_tl)"

definition answered :: "u32 list \<Rightarrow> fgctl \<Rightarrow> fgctl" where
  "answered ds s = s\<lparr>bus := (bus s)\<lparr>env := map (\<lambda>d. (True, Some \<lparr>pwrite = 0, paddr = 0, pdat = d\<rparr>)) ds\<rparr>\<rparr>"

theorem ram_word_roundtrip_witness:
  "fst (get_read_data_ram HV1 (demo_fg\<lparr>bus := (bus demo_fg)\<lparr>rxdata :=
      (\<lambda>_. [\<lparr>pwrite = 0, paddr = 3, pdat = ram_word HV1 1000 77\<rparr>])\<rparr>\<rparr>))
    = Inr (3, push_bit 10 77 + 1000)"
  using ram_word_roundtrip [of 1000 77 "demo_fg\<lparr>bus := (bus demo_fg)\<lparr>rxdata :=
      (\<lambda>_. [\<lparr>pwrite = 0, paddr = 3, pdat = ram_word HV1 1000 77\<rparr>])\<rparr>\<rparr>"
      "\<lparr>pwrite = 0, paddr = 3, pdat = ram_word HV1 1000 77\<rparr>" "[]" HV1]
  by simp

subsection \<open>Filling a bank from an array\<close>

definition fg_at :: "u32 \<Rightarrow> nat \<Rightarrow> u16" where
  "fg_at bank i = ucast (of_nat i + bank * 128)"

abbreviation cell :: "int list \<Rightarrow> nat \<Rightarrow> u32" where
  "cell val j \<equiv> word_of_int (val ! j)"

lemma fg_at_unat: "bank < 2 \<Longrightarrow> i < 128 \<Longrightarrow> unat (fg_at bank i) = i + unat bank * 128"
proof -
  assume "bank < 2" and i: "i < 128"
  then have b: "unat bank < 2" by (simp add: word_less_nat_alt)
  have m: "unat (bank * 128) = unat bank * 128"
    using b by (simp add: unat_word_ariths)
  have "unat (of_nat i + bank * 128 :: u32) = i + unat bank * 128"
    using b i by (simp add: unat_word_ariths m unsigned_of_nat take_bit_nat_eq_self)
  then show ?thesis
    using b i by (simp add: fg_at_def unsigned_ucast_eq take_bit_nat_eq_self)
qed

lemma fg_at_inj: "bank < 2 \<Longrightarrow> i < 128 \<Longrightarrow> j < 128 \<Longrightarrow> fg_at bank i = fg_at bank j \<Longrightarrow> i = j"
proof -
  assume b: "bank < 2" and i: "i < 128" and j: "j < 128" and "fg_at bank i = fg_at bank j"
  then have "i + unat bank * 128 = j + unat bank * 128"
    unfolding fg_at_unat [OF b i, symmetric] fg_at_unat [OF b j, symmetric] by simp
  then show "i = j" by simp
qed

lemma emits_write_ram [emits_intros]:
  "emits [(fg_at bank i, ram_word v a b)] (hvoid (write_ram v bank (of_nat i) a b))"
  unfolding write_ram_def fg_write_def fg_at_def by (rule emits_void_write)

lemma emits_write_pair [emits_intros]:
  "i < length val \<Longrightarrow> j < length val \<Longrightarrow>
   emits [(fg_at bank w, ram_word v (cell val i) (cell val j))] (write_pair v bank w val i j)"
  unfolding write_pair_def at_def by (simp only: if_True hbind_hret) (rule emits_write_ram)

definition array_tail :: "hicann_v \<Rightarrow> u32 \<Rightarrow> int list \<Rightarrow> u16 \<times> u32" where
  "array_tail v bank val = (case v of HV2 \<Rightarrow> (fg_at bank 64, ram_word v (cell val 128) 0)
     | HV1 \<Rightarrow> (fg_at bank 63, ram_word v (cell val 0) (cell val 1)))"

lemma initArray_emits:
  assumes "length val = 129"
  shows "emits (map (\<lambda>i. (fg_at bank i, ram_word v (cell val (2 * i)) (cell val (2 * i + 1)))) [0..<64]
    @ [array_tail v bank val]) (initArray v bank val)"
proof -
  let ?w = "\<lambda>i. (fg_at bank i, ram_word v (cell val (2 * i)) (cell val (2 * i + 1)))"
  let ?e = "\<lambda>i. ?w i # (if i = 63 then [array_tail v bank val] else [])"
  let ?m = "\<lambda>i. hseq (write_pair v bank i val (2 * i) (2 * i + 1))
      (hwhen (i = 63) (case v of
         HV2 \<Rightarrow> hbind (at val (2 * i + 2)) (\<lambda>a. hvoid (write_ram v bank (of_nat (i + 1)) a 0))
       | HV1 \<Rightarrow> write_pair v bank i val 0 1))"
  have tail: "emits [array_tail v bank val] (case v of
         HV2 \<Rightarrow> hbind (at val (2 * i + 2)) (\<lambda>a. hvoid (write_ram v bank (of_nat (i + 1)) a 0))
       | HV1 \<Rightarrow> write_pair v bank i val 0 1)" if i: "i = 63" for i
  proof (cases v)
    case HV2
    have a: "at val (2 * i + 2) = (hret (cell val 128) :: (fgctl, u32) hal)" and n: "i + 1 = 64"
      using assms i by (simp_all add: at_def)
    show ?thesis
      unfolding HV2 hicann_v.case array_tail_def a n hbind_hret by (rule emits_write_ram)
  next
    case HV1
    show ?thesis
      unfolding HV1 hicann_v.case array_tail_def i by (rule emits_write_pair) (simp_all add: assms)
  qed
  have step: "emits (?e i) (?m i)" if "i \<in> set [0..<64]" for i
  proof -
    have p: "emits [?w i] (write_pair v bank i val (2 * i) (2 * i + 1))"
      by (rule emits_write_pair) (use assms that in auto)
    show ?thesis
    proof (cases "i = 63")
      case True
      then have e: "?e i = [?w i] @ [array_tail v bank val]" by simp
      show ?thesis
        unfolding e by (rule emits_hseq [OF p]) (simp only: hwhen_simps True simp_thms tail [OF refl])
    next
      case False
      then show ?thesis using emits_hseq [OF p emits_hret] by simp
    qed
  qed
  have u: "[0..<64] = [0..<63] @ [63]" by (simp only: upt_Suc_append [symmetric]) simp
  have "concat (map ?e [0..<63]) = map ?w [0..<63]"
  proof -
    have "concat (map ?e xs) = map ?w xs" if "63 \<notin> set xs" for xs
      using that by (induction xs) simp_all
    then show ?thesis by simp
  qed
  then have c: "concat (map ?e [0..<64]) = map ?w [0..<64] @ [array_tail v bank val]"
    unfolding u by simp
  have n: "MEM_SIZE - 1 = 64" "MEM_SIZE - 2 = 63" by (simp_all add: MEM_SIZE_def fg_lines_def)
  have "emits ((map ?w [0..<64] @ [array_tail v bank val]) @ []) (hseq (hfor [0..<64] ?m) (hret 1))"
    unfolding c [symmetric] by (rule emits_hseq [OF emits_hfor emits_hret]) (rule step)
  then show ?thesis
    unfolding initArray_def n by simp
qed

lemma array_words_gen:
  assumes "initArray v bank val s = (Inr r, t)" and "bank < 2" and "length val = 129" and "i < MEM_SIZE"
  shows "regs t (fg_at bank i + startaddr s) = (case v of
      HV2 \<Rightarrow> Some (if i = 64 then ram_word v (cell val 128) 0
        else ram_word v (cell val (2 * i)) (cell val (2 * i + 1)))
    | HV1 \<Rightarrow> if i = 64 then regs s (fg_at bank i + startaddr s)
        else Some (if i = 63 then ram_word v (cell val 0) (cell val 1)
          else ram_word v (cell val (2 * i)) (cell val (2 * i + 1))))"
proof -
  let ?w = "\<lambda>i. ram_word v (cell val (2 * i)) (cell val (2 * i + 1))"
  let ?ws = "map (\<lambda>i. (fg_at bank i, ?w i)) [0..<64]"
  have inj: "inj_on (fg_at bank) (set [0..<64])"
    by (rule inj_onI) (rule fg_at_inj [OF assms(2)], auto)
  have i: "i \<le> 64" using assms(4) by (simp add: MEM_SIZE_def fg_lines_def)
  have body: "last_to ?ws (fg_at bank i) = (if i = 64 then None else Some (?w i))"
  proof (cases "i = 64")
    case True
    have "fg_at bank i \<notin> fst ` set ?ws"
    proof
      assume "fg_at bank i \<in> fst ` set ?ws"
      then obtain j where "j < 64" "fg_at bank i = fg_at bank j" by auto
      then show False using fg_at_inj [OF assms(2), of i j] True by simp
    qed
    then show ?thesis using True by (simp add: last_to_none)
  next
    case False
    then have "i \<in> set [0..<64]" using i by simp
    then show ?thesis using last_to_distinct [OF inj, of i ?w] False by simp
  qed
  have eq: "fg_at bank i = fg_at bank j \<longleftrightarrow> i = j" if "j < 128" for j
    using fg_at_inj [OF assms(2), of i j] i that by auto
  have "last_to (?ws @ [array_tail v bank val]) (fg_at bank i) =
      (case v of HV2 \<Rightarrow> Some (if i = 64 then ram_word v (cell val 128) 0 else ?w i)
       | HV1 \<Rightarrow> if i = 64 then None else Some (if i = 63 then ram_word v (cell val 0) (cell val 1) else ?w i))"
    using i body eq [of 63] eq [of 64]
    by (cases v) (auto simp: last_to_append array_tail_def)
  then show ?thesis
    unfolding emits_regs [OF initArray_emits [OF assms(3)] assms(1)]
    by (cases v) auto
qed

text \<open>Claim C12: When initArray returns, every word of the bank holds what the array says. On the
  second chip version that is the pair of values 2i and 2i+1 in word i, and the last, odd value in
  word 64. On the first version word 63 holds the values 0 and 1 instead of 126 and 127, and word
  64 keeps what it had: the correction meant for the last word goes to the one before.\<close>

theorem array_words:
  assumes "initArray v bank val s = (Inr r, t)" and "bank < 2" and "length val = 129" and "i < MEM_SIZE"
  shows "regs t (fg_at bank i + startaddr s) = (case v of
      HV2 \<Rightarrow> Some (if i = 64 then ram_word v (cell val 128) 0
        else ram_word v (cell val (2 * i)) (cell val (2 * i + 1)))
    | HV1 \<Rightarrow> if i = 64 then regs s (fg_at bank i + startaddr s)
        else Some (if i = 63 then ram_word v (cell val 0) (cell val 1)
          else ram_word v (cell val (2 * i)) (cell val (2 * i + 1))))"
  by (rule array_words_gen [OF assms])

lemma demo_fg_simps: "env (bus demo_fg) = []" "regs demo_fg a = None" "startaddr demo_fg = 0x8000"
    "maxaddr demo_fg = 0x1fff"
  by (simp_all add: regs_def demo_fg_def FGControl_new_def OcpFgate_tl_def)

lemma demo_fg_range: "i < 128 \<Longrightarrow> fg_at 0 i \<le> maxaddr demo_fg"
  using fg_at_unat [of 0 i] by (simp add: word_le_nat_alt demo_fg_simps)

lemma demo_array:
  assumes "length val = 129"
  obtains r b where "initArray v 0 val demo_fg = (Inr r, demo_fg\<lparr>bus := b\<rparr>)"
proof -
  have "\<forall>w\<in>set (map (\<lambda>i. (fg_at 0 i, ram_word v (cell val (2 * i)) (cell val (2 * i + 1)))) [0..<64]
      @ [array_tail v 0 val]). fst w \<le> maxaddr demo_fg"
    by (cases v) (auto simp: array_tail_def intro!: demo_fg_range)
  then show thesis
    by (rule emits_accepted [OF initArray_emits [OF assms] demo_fg_simps(1)]) (rule that)
qed

theorem array_words_witness:
  "let val = map int [0..<129]; t = snd (initArray HV1 0 val demo_fg) in
   regs t (fg_at 0 63 + startaddr demo_fg) = Some (ram_word HV1 0 1) \<and>
   regs t (fg_at 0 64 + startaddr demo_fg) = None"
proof -
  let ?val = "map int [0..<129]"
  obtain r b where r: "initArray HV1 0 ?val demo_fg = (Inr r, demo_fg\<lparr>bus := b\<rparr>)"
    by (rule demo_array [of ?val]) simp_all
  have "word_of_int (?val ! 0) = (0 :: u32)" "word_of_int (?val ! 1) = (1 :: u32)"
    by (simp_all add: nth_map nth_upt)
  then show ?thesis
    using array_words [OF r, of 63] array_words [OF r, of 64] r demo_fg_simps(2)
    by (simp add: MEM_SIZE_def fg_lines_def Let_def)
qed

subsection \<open>Filling the words of one neuron\<close>

lemma initArray_neuron_emits:
  assumes "length val = 129" and "1 \<le> n" and "n \<le> 126"
  shows "emits [(fg_at bank 0, ram_word HV2 (cell val 0) (cell val 1)),
      (fg_at bank ((n + 1) div 2), ram_word HV2 (cell val (n + 1)) (cell val (n + 2)))]
    (initArray_neuron HV2 bank val (int n))"
proof -
  have n: "int n \<noteq> 0" "\<not> int n + 1 < 0" "nat (int n + 1) = n + 1" "nat (int n + 1) + 1 = n + 2"
    using assms by auto
  have w: "emits [(fg_at bank 0, ram_word HV2 (cell val 0) (cell val 1))] (write_pair HV2 bank 0 val 0 1)"
    "emits [(fg_at bank ((n + 1) div 2), ram_word HV2 (cell val (n + 1)) (cell val (n + 2)))]
      (write_pair HV2 bank ((n + 1) div 2) val (n + 1) (n + 2))"
    by (rule emits_write_pair; use assms in simp)+
  have "emits ([(fg_at bank 0, ram_word HV2 (cell val 0) (cell val 1))]
     @ ([(fg_at bank ((n + 1) div 2), ram_word HV2 (cell val (n + 1)) (cell val (n + 2)))] @ ([] @ [])))
    (initArray_neuron HV2 bank val (int n))"
    unfolding initArray_neuron_def Let_def n hicann_v.case
    using n by (simp only: if_False) (intro emits_hseq w emits_hret)
  then show ?thesis by simp
qed

lemma ram_word_eq:
  assumes "a < 1024" "b < 1024" "c < 1024" "d < (1024 :: u32)"
  shows "ram_word HV2 a b = ram_word HV2 c d \<longleftrightarrow> a = c \<and> b = d"
proof
  assume "ram_word HV2 a b = ram_word HV2 c d"
  then have e: "push_bit 10 b + a = push_bit 10 d + c" by (simp add: ram_word_def MEM_WIDTH_def)
  show "a = c \<and> b = d"
    using two_cells [OF assms(1,2)] two_cells [OF assms(3,4)] unfolding e by simp
qed simp

lemma cell_small:
  assumes "\<forall>x\<in>set val. 0 \<le> x \<and> x < 1024" and "i < length val"
  shows "cell val i < 1024" and "unat (cell val i) = nat (val ! i)"
proof -
  have "0 \<le> val ! i \<and> val ! i < 1024" using assms by simp
  then show "unat (cell val i) = nat (val ! i)"
    by (simp add: unsigned_of_int take_bit_int_eq_self)
  moreover have "nat (val ! i) < 1024" using \<open>0 \<le> val ! i \<and> val ! i < 1024\<close> by linarith
  ultimately show "cell val i < 1024" by (simp add: word_less_nat_alt)
qed

lemma cell_eq:
  assumes "\<forall>x\<in>set val. 0 \<le> x \<and> x < 1024" and "i < length val" and "j < length val"
  shows "cell val i = cell val j \<longleftrightarrow> val ! i = val ! j"
proof -
  have "0 \<le> val ! i" "0 \<le> val ! j" using assms by simp_all
  then show ?thesis
    using cell_small(2) [OF assms(1,2)] cell_small(2) [OF assms(1,3)]
    by (simp add: word_unat_eq_iff eq_nat_nat_iff)
qed

text \<open>The two array initialisers agree on the word of a neuron only for odd neuron numbers:
  for an even one the single-neuron variant writes the pair shifted by one value, so the word
  differs unless the three values involved are equal.\<close>

theorem array_neuron_shifted:
  assumes "initArray_neuron HV2 bank val (int n) s = (Inr r, t)" and "initArray HV2 bank val s' = (Inr r', t')"
    and "startaddr s' = startaddr s" and "bank < 2" and "length val = 129"
    and "\<forall>x\<in>set val. 0 \<le> x \<and> x < 1024" and "1 \<le> n" and "n \<le> 126"
  shows "regs t (fg_at bank ((n + 1) div 2) + startaddr s) = regs t' (fg_at bank ((n + 1) div 2) + startaddr s)
    \<longleftrightarrow> odd n \<or> val ! n = val ! (n + 1) \<and> val ! (n + 1) = val ! (n + 2)"
proof -
  let ?i = "(n + 1) div 2"
  have i: "?i < 64" "?i \<noteq> 0" using assms(7,8) by simp_all
  have ne: "fg_at bank ?i \<noteq> fg_at bank 0"
    using fg_at_inj [OF assms(4), of ?i 0] i by auto
  have one: "regs t (fg_at bank ?i + startaddr s) = Some (ram_word HV2 (cell val (n + 1)) (cell val (n + 2)))"
    unfolding emits_regs [OF initArray_neuron_emits [OF assms(5,7,8)] assms(1)] by simp
  have all: "regs t' (fg_at bank ?i + startaddr s) = Some (ram_word HV2 (cell val (2 * ?i)) (cell val (2 * ?i + 1)))"
    using array_words_gen [OF assms(2,4,5), of ?i] i assms(3) by (simp add: MEM_SIZE_def fg_lines_def)
  have lt: "n + 2 < length val" "2 * ?i + 1 < length val" using assms(5,8) by simp_all
  have sm: "cell val j < 1024" if "j < length val" for j
    by (rule cell_small(1) [OF assms(6) that])
  have "regs t (fg_at bank ?i + startaddr s) = regs t' (fg_at bank ?i + startaddr s) \<longleftrightarrow>
      cell val (n + 1) = cell val (2 * ?i) \<and> cell val (n + 2) = cell val (2 * ?i + 1)"
    unfolding one all using lt by (simp add: ram_word_eq sm)
  also have "\<dots> \<longleftrightarrow> val ! (n + 1) = val ! (2 * ?i) \<and> val ! (n + 2) = val ! (2 * ?i + 1)"
    using lt by (simp add: cell_eq [OF assms(6)])
  also have "\<dots> \<longleftrightarrow> odd n \<or> val ! n = val ! (n + 1) \<and> val ! (n + 1) = val ! (n + 2)"
  proof (cases "odd n")
    case True
    then have "2 * ?i = n + 1" by simp
    then show ?thesis using True by simp
  next
    case False
    then have "2 * ?i = n" by simp
    then show ?thesis using False by auto
  qed
  finally show ?thesis .
qed

theorem array_neuron_shifted_witness:
  "let val = map int [0..<129]; a = fg_at 0 1 + startaddr demo_fg in
   regs (snd (initArray_neuron HV2 0 val 2 demo_fg)) a \<noteq> regs (snd (initArray HV2 0 val demo_fg)) a"
proof -
  let ?val = "map int [0..<129]"
  obtain r b where r: "initArray HV2 0 ?val demo_fg = (Inr r, demo_fg\<lparr>bus := b\<rparr>)"
    by (rule demo_array [of ?val]) simp_all
  have "\<forall>w\<in>set [(fg_at 0 0, ram_word HV2 (cell ?val 0) (cell ?val 1)),
      (fg_at 0 ((2 + 1) div 2), ram_word HV2 (cell ?val (2 + 1)) (cell ?val (2 + 2)))]. fst w \<le> maxaddr demo_fg"
    by (auto intro!: demo_fg_range)
  moreover have "emits [(fg_at 0 0, ram_word HV2 (cell ?val 0) (cell ?val 1)),
      (fg_at 0 ((2 + 1) div 2), ram_word HV2 (cell ?val (2 + 1)) (cell ?val (2 + 2)))]
      (initArray_neuron HV2 0 ?val (int 2))"
    by (rule initArray_neuron_emits) simp_all
  ultimately obtain r' b' where r': "initArray_neuron HV2 0 ?val (int 2) demo_fg = (Inr r', demo_fg\<lparr>bus := b'\<rparr>)"
    using emits_accepted [OF _ demo_fg_simps(1)] by metis
  have "\<not> (odd (2 :: nat) \<or> ?val ! 2 = ?val ! (2 + 1) \<and> ?val ! (2 + 1) = ?val ! (2 + 2))" by simp
  then show ?thesis
    using array_neuron_shifted [OF r' r] r r' by (simp add: Let_def)
qed

subsection \<open>Programming a line\<close>

definition status_read :: "fgctl \<Rightarrow> u32 \<times> ci_payload" where
  "status_read s = (ctag s, \<lparr>pwrite = 0, paddr = ucast REG_SLAVE + startaddr s, pdat = push_bit 31 1\<rparr>)"

lemma isBusy_answered:
  assumes "rxdata (bus s) (ctag s) = []" and "ucast REG_SLAVE \<le> maxaddr s" and "env (bus s) = []"
  shows "isBusy (answered (d # ds) s) = (Inr (d AND 0x100 \<noteq> 0),
      answered ds (s\<lparr>bus := (bus s)\<lparr>issued := issued (bus s) @ [status_read s]\<rparr>\<rparr>))"
proof -
  have "(rxdata (bus s))(ctag s := []) = rxdata (bus s)" using assms(1) by auto
  then show ?thesis
    using assms
    by (simp add: isBusy_def answered_def fg_read_data_def read_cmd_def checkAddr_def hseq_def hbind_def
        on_bus_def issueCommand_def fg_get_read_data_def get_data_def recvData_def status_read_def)
qed

lemma isBusy_silent:
  assumes "rxdata (bus s) (ctag s) = []" and "ucast REG_SLAVE \<le> maxaddr s" and "env (bus s) = []"
  shows "isBusy s = (Inl Runtime_error, s\<lparr>bus := (bus s)\<lparr>issued := issued (bus s) @ [status_read s]\<rparr>\<rparr>)"
  using assms
  by (simp add: isBusy_def fg_read_data_def read_cmd_def checkAddr_def hseq_def hbind_def
      on_bus_def issueCommand_def fg_get_read_data_def get_data_def recvData_def status_read_def)

lemma answered_nil: "env (bus s) = [] \<Longrightarrow> answered [] s = s"
  by (simp add: answered_def)

lemma wait_idle_answered:
  assumes "\<forall>d\<in>set ds. d AND 0x100 \<noteq> 0"
    and "rxdata (bus s) (ctag s) = []" and "ucast REG_SLAVE \<le> maxaddr s" and "env (bus s) = []"
  shows "wait_idle (answered (ds @ ans) s) = wait_idle (answered ans
    (s\<lparr>bus := (bus s)\<lparr>issued := issued (bus s) @ replicate (length ds) (status_read s)\<rparr>\<rparr>))"
  using assms
proof (induction ds arbitrary: s)
  case (Cons d ds)
  have b: "isBusy (answered (d # (ds @ ans)) s) = (Inr (d AND 0x100 \<noteq> 0),
      answered (ds @ ans) (s\<lparr>bus := (bus s)\<lparr>issued := issued (bus s) @ [status_read s]\<rparr>\<rparr>))"
    by (rule isBusy_answered) (use Cons.prems in simp_all)
  have "wait_idle (answered (d # (ds @ ans)) s)
      = wait_idle (answered (ds @ ans) (s\<lparr>bus := (bus s)\<lparr>issued := issued (bus s) @ [status_read s]\<rparr>\<rparr>))"
    by (subst wait_idle.simps) (use b Cons.prems(1) in simp)
  also have "\<dots> = wait_idle (answered ans (s\<lparr>bus := (bus s)\<lparr>issued := (issued (bus s) @ [status_read s])
      @ replicate (length ds) (status_read s)\<rparr>\<rparr>))"
    using Cons.IH [of "s\<lparr>bus := (bus s)\<lparr>issued := issued (bus s) @ [status_read s]\<rparr>\<rparr>"] Cons.prems
    by (simp add: status_read_def)
  finally show ?case by simp
qed simp

lemma wait_idle_done:
  assumes "d AND 0x100 = 0"
    and "rxdata (bus s) (ctag s) = []" and "ucast REG_SLAVE \<le> maxaddr s" and "env (bus s) = []"
  shows "wait_idle (answered [d] s) = Some (Inr (), s\<lparr>bus := (bus s)\<lparr>issued := issued (bus s) @ [status_read s]\<rparr>\<rparr>)"
  using isBusy_answered [OF assms(2-4), of d "[]"] assms
  by (subst wait_idle.simps) (simp add: answered_nil)

lemma wait_idle_silent:
  assumes "rxdata (bus s) (ctag s) = []" and "ucast REG_SLAVE \<le> maxaddr s" and "env (bus s) = []"
  shows "wait_idle s = Some (Inl Runtime_error, s\<lparr>bus := (bus s)\<lparr>issued := issued (bus s) @ [status_read s]\<rparr>\<rparr>)"
  using isBusy_silent [OF assms] by (subst wait_idle.simps) simp

definition line_writes :: "hicann_v \<Rightarrow> u32 \<Rightarrow> u32 \<Rightarrow> u32 \<Rightarrow> (u16 \<times> u32) list" where
  "line_writes v row val0 val1 =
     map (\<lambda>i. (fg_at 0 i, if i = 0 \<or> v = HV1 \<and> i = 64 then ram_word v val0 val1 else ram_word v val1 val1)) [0..<65]
     @ [(ucast REG_ADDRINS, push_bit 14 1 + row)]"

lemma initval1_emits:
  "emits (map (\<lambda>i. (fg_at 0 i, if i = 0 \<or> v = HV1 \<and> i = 64 then ram_word v val0 val1 else ram_word v val1 val1)) [0..<65])
    (initval1 v 0 val0 val1)"
proof -
  let ?w = "\<lambda>i. (fg_at 0 i, if i = 0 \<or> v = HV1 \<and> i = 64 then ram_word v val0 val1 else ram_word v val1 val1)"
  have first: "emits [?w 0] (write_ram v 0 0 val0 val1)"
    using emits_write [of "fg_at 0 0" "ram_word v val0 val1"] by (simp add: write_ram_def fg_write_def fg_at_def)
  have mid: "emits [?w i] (hvoid (write_ram v 0 (of_nat i) val1 val1))" if "i \<noteq> 0" "i \<noteq> 64 \<or> v = HV2" for i
    using emits_write_ram [of 0 i v val1 val1] that by auto
  have n: "MEM_SIZE = 65" "MEM_SIZE - 1 = 64" by (simp_all add: MEM_SIZE_def fg_lines_def)
  have split: "[0..<65] = 0 # [1..<65]" "[1..<65] = [1..<64] @ [64]"
    by (simp_all only: upt_Suc_append [symmetric]) (simp_all add: upt_conv_Cons)
  have rest: "emits (map ?w [1..<65]) (case v of
        HV2 \<Rightarrow> hfor [1..<MEM_SIZE] (\<lambda>i. hvoid (write_ram v 0 (of_nat i) val1 val1))
      | HV1 \<Rightarrow> hseq (hfor [1..<MEM_SIZE - 1] (\<lambda>i. hvoid (write_ram v 0 (of_nat i) val1 val1)))
                 (hvoid (write_ram v 0 (of_nat (MEM_SIZE - 1)) val0 val1)))"
  proof (cases v)
    case HV2
    then show ?thesis
      unfolding n HV2 hicann_v.case by (intro emits_hfor1) (rule mid [unfolded HV2], auto)
  next
    case HV1
    have "emits [?w 64] (hvoid (write_ram v 0 (of_nat 64) val0 val1))"
      using emits_write_ram [of 0 64 v val0 val1] HV1 by simp
    moreover have "emits (map ?w [1..<64]) (hfor [1..<64] (\<lambda>i. hvoid (write_ram v 0 (of_nat i) val1 val1)))"
      by (rule emits_hfor1) (rule mid, auto)
    ultimately have "emits (map ?w [1..<64] @ [?w 64]) (hseq (hfor [1..<64]
        (\<lambda>i. hvoid (write_ram v 0 (of_nat i) val1 val1))) (hvoid (write_ram v 0 (of_nat 64) val0 val1)))"
      by (rule emits_hseq [rotated])
    then show ?thesis
      unfolding n HV1 hicann_v.case split(2) map_append list.map by (simp add: HV1)
  qed
  have "emits ([?w 0] @ (map ?w [1..<65] @ [])) (initval1 v 0 val0 val1)"
    unfolding initval1_def by (rule emits_hseq [OF first emits_hseq [OF rest emits_hret]])
  then show ?thesis unfolding split(1) by simp
qed

lemma line_emits:
  "emits (line_writes v row val0 val1) (hseq (initval1 v 0 val0 val1) (hseq (program_cells row 0 1) (hret 1)))"
proof -
  have "emits [(ucast REG_ADDRINS, push_bit 14 1 + row)] (program_cells row 0 1)"
    using emits_write [of "ucast REG_ADDRINS" "push_bit 14 1 + row"]
    by (simp add: program_cells_def write_instructionreg_def fg_write_def instr_code_def)
  from emits_hseq [OF initval1_emits emits_hseq [OF this emits_hret]] show ?thesis
    by (simp add: line_writes_def)
qed

text \<open>Claim C11: programLine polls the busy flag until the chip is idle and no longer: after n busy
  answers and an idle one it has read the status n+1 times, filled the RAM bank and started
  programming upwards. When the chip stays busy and stops answering, it throws before it has
  written anything.\<close>

theorem programLine_ends:
  assumes "\<forall>d\<in>set busy. d AND 0x100 \<noteq> 0" and "idle AND 0x100 = 0"
    and "rxdata (bus s) (ctag s) = []" and "0x1ff \<le> maxaddr s" and "env (bus s) = []"
  shows "(\<exists>r b. programLine v row val0 val1 (answered (busy @ [idle]) s) = Some (Inr r, s\<lparr>bus := b\<rparr>) \<and>
      issued b = issued (bus s) @ replicate (Suc (length busy)) (status_read s) @ cmds s (line_writes v row val0 val1)) \<and>
    (\<exists>b. programLine v row val0 val1 (answered busy s) = Some (Inl Runtime_error, s\<lparr>bus := b\<rparr>) \<and>
      issued b = issued (bus s) @ replicate (Suc (length busy)) (status_read s))"
proof -
  have m: "ucast REG_SLAVE \<le> maxaddr s"
    by (rule order_trans [OF _ assms(4)]) (simp add: REG_SLAVE_def REG_BASE_def)
  let ?t = "\<lambda>n. s\<lparr>bus := (bus s)\<lparr>issued := issued (bus s) @ replicate n (status_read s)\<rparr>\<rparr>"
  have q: "rxdata (bus (?t n)) (ctag (?t n)) = []" "ucast REG_SLAVE \<le> maxaddr (?t n)" "env (bus (?t n)) = []"
      "status_read (?t n) = status_read s" for n
    using assms(3,5) m by (simp_all add: status_read_def)
  have snoc: "(?t n)\<lparr>bus := (bus (?t n))\<lparr>issued := issued (bus (?t n)) @ [status_read (?t n)]\<rparr>\<rparr> = ?t (Suc n)" for n
    by (simp add: status_read_def replicate_append_same)
  have idle: "wait_idle (answered (busy @ [idle]) s) = Some (Inr (), ?t (Suc (length busy)))"
    unfolding wait_idle_answered [OF assms(1,3) m assms(5)] wait_idle_done [OF assms(2) q(1-3)] snoc ..
  have silent: "wait_idle (answered busy s) = Some (Inl Runtime_error, ?t (Suc (length busy)))"
    using wait_idle_answered [OF assms(1,3) m assms(5), of "[]"] wait_idle_silent [OF q(1-3)] q(3)
    by (simp only: append_Nil2 answered_nil snoc)
  have range: "\<forall>w\<in>set (line_writes v row val0 val1). fst w \<le> maxaddr (?t (Suc (length busy)))"
  proof -
    have "fg_at 0 i \<le> maxaddr s" if "i < 65" for i
      by (rule order_trans [OF _ assms(4)]) (use that fg_at_unat [of 0 i] in \<open>simp add: word_le_nat_alt\<close>)
    moreover have "ucast REG_ADDRINS \<le> maxaddr s"
      by (rule order_trans [OF _ assms(4)]) (simp add: REG_ADDRINS_def REG_BASE_def)
    ultimately show ?thesis by (auto simp: line_writes_def)
  qed
  obtain r b where "hseq (initval1 v 0 val0 val1) (hseq (program_cells row 0 1) (hret (1 :: int))) (?t (Suc (length busy)))
      = (Inr r, (?t (Suc (length busy)))\<lparr>bus := b\<rparr>)"
    and "issued b = issued (bus (?t (Suc (length busy)))) @ cmds (?t (Suc (length busy))) (line_writes v row val0 val1)"
    by (rule emits_accepted [OF line_emits q(3) range])
  then have "\<exists>r b. programLine v row val0 val1 (answered (busy @ [idle]) s) = Some (Inr r, s\<lparr>bus := b\<rparr>) \<and>
      issued b = issued (bus s) @ replicate (Suc (length busy)) (status_read s) @ cmds s (line_writes v row val0 val1)"
    by (intro exI [of _ r] exI [of _ b]) (simp add: programLine_def idle)
  moreover have "\<exists>b. programLine v row val0 val1 (answered busy s) = Some (Inl Runtime_error, s\<lparr>bus := b\<rparr>) \<and>
      issued b = issued (bus s) @ replicate (Suc (length busy)) (status_read s)"
    by (intro exI [of _ "(bus s)\<lparr>issued := issued (bus s) @ replicate (Suc (length busy)) (status_read s)\<rparr>"])
      (simp add: programLine_def silent)
  ultimately show ?thesis ..
qed

theorem programLine_ends_witness:
  "\<exists>r b. programLine HV2 5 1000 200 (answered [0x100, 0x1ff, 0] demo_fg) = Some (Inr r, demo_fg\<lparr>bus := b\<rparr>) \<and>
      issued b = replicate 3 (status_read demo_fg) @ cmds demo_fg (line_writes HV2 5 1000 200)"
proof -
  have "issued (bus demo_fg) = []" "rxdata (bus demo_fg) (ctag demo_fg) = []"
    by (simp_all add: demo_fg_def FGControl_new_def)
  then show ?thesis
    using programLine_ends [of "[0x100, 0x1ff]" 0 demo_fg HV2 5 1000 200] demo_fg_simps
    by (simp add: numeral_3_eq_3)
qed

end
