(* ===== verification/Neuronbuilder.thy ===== *)
theory Neuronbuilder
  imports L1switch
begin

text \<open>
  The neuron builder (\<open>neuronbuilder_control.cpp\<close>): the software image of the denmem SRAM, a word
  of bit fields per address, the analog in- and output bits, and the two configuration vectors.
  The results: every operation keeps the image one that check_sram accepts, writing the image
  puts it on the chip, and what selecting an analog output or input does to the other denmems
  and to the rest of the word.
\<close>

definition n_numslow :: nat where "n_numslow = 3"
definition n_numfast :: nat where "n_numfast = 3"
definition n_numd :: nat where "n_numd = 8"
definition spl1_numd :: nat where "spl1_numd = 6"
definition nspl1_numa :: nat where "nspl1_numa = 9"
definition aoutselect_dw :: nat where "aoutselect_dw = 10"
definition addrmsb_nrnbuilder :: nat where "addrmsb_nrnbuilder = 9"
definition cnfgadr_nrnbuilder :: nat where "cnfgadr_nrnbuilder = 4"

lemmas nb_const_defs = n_numslow_def n_numfast_def n_numd_def spl1_numd_def nspl1_numa_def
  aoutselect_dw_def addrmsb_nrnbuilder_def cnfgadr_nrnbuilder_def

definition MAXADR :: u32 where "MAXADR = push_bit nspl1_numa 1 - 1"
definition NREGBASE :: u32 where "NREGBASE = MAXADR + 1"
definition OUTREGBASE :: u32 where "OUTREGBASE = MAXADR + 2"

subsection \<open>The unions of bit fields\<close>

text \<open>A field is its lowest bit and its width; the word is the member \<open>integer\<close>.\<close>

type_synonym field = "nat \<times> nat"

abbreviation get :: "field \<Rightarrow> u32 \<Rightarrow> u32" where
  "get f d \<equiv> bf_get (fst f) (snd f) d"

abbreviation put :: "field \<Rightarrow> u32 \<Rightarrow> u32 \<Rightarrow> u32" where
  "put f x d \<equiv> bf_put (fst f) (snd f) x d"

definition pc_inout :: field where "pc_inout = (0, 3)"
definition interconnect_neuron_pair :: field where "interconnect_neuron_pair = (3, 1)"
definition activate_firing_left :: field where "activate_firing_left = (4, 1)"
definition enable_left_fire_input :: field where "enable_left_fire_input = (5, 1)"
definition enable_right_fire_input :: field where "enable_right_fire_input = (6, 1)"
definition activate_firing_right :: field where "activate_firing_right = (7, 1)"

definition spl1 :: field where "spl1 = (0, spl1_numd)"
definition nmem_top :: field where "nmem_top = (spl1_numd, n_numd)"
definition nmem_bot :: field where "nmem_bot = (spl1_numd + n_numd, n_numd)"
definition vertical :: field where "vertical = (spl1_numd + 2 * n_numd, 1)"
definition firet :: field where "firet = (spl1_numd + 2 * n_numd + 1, 1)"
definition fireb :: field where "fireb = (spl1_numd + 2 * n_numd + 2, 1)"

definition aout_r :: field where "aout_r = (0, 1)"
definition aout_l :: field where "aout_l = (1, 1)"
definition currentin_r :: field where "currentin_r = (2, 1)"
definition currentin_l :: field where "currentin_l = (3, 1)"

lemmas nb_fields = pc_inout_def interconnect_neuron_pair_def activate_firing_left_def
  enable_left_fire_input_def enable_right_fire_input_def activate_firing_right_def
  spl1_def nmem_top_def nmem_bot_def vertical_def firet_def fireb_def aout_r_def aout_l_def
  currentin_r_def currentin_l_def spl1_numd_def n_numd_def

definition nbdata :: "u32 \<Rightarrow> u32 \<Rightarrow> u32 \<Rightarrow> u32 \<Rightarrow> u32 \<Rightarrow> u32 \<Rightarrow> u32" where
  "nbdata fb ft vert ntop nbot sp = push_bit (2 * n_numd + spl1_numd) (4 * fb + 2 * ft + vert)
     + push_bit (n_numd + spl1_numd) nbot + push_bit spl1_numd ntop + sp"

text \<open>The map \<open>IOmap_\<close> from the four in- and output bits to the three of the hardware.\<close>

definition IOmap :: "u32 \<Rightarrow> u32 option" where
  "IOmap = [0 \<mapsto> 0, 1 \<mapsto> 1, 2 \<mapsto> 2, 3 \<mapsto> 3, 4 \<mapsto> 4, 5 \<mapsto> 5, 10 \<mapsto> 6, 8 \<mapsto> 7]"

record neuronbuilder = ctrlmod +
  outputcfg :: "bool list"
  neuroncfg :: "bool list"
  sram :: "u32 list"
  inout_top :: "u32 list"
  inout_bot :: "u32 list"

definition NeuronBuilderControl_new :: "bus \<Rightarrow> u32 \<Rightarrow> u16 \<Rightarrow> u16 \<Rightarrow> neuronbuilder" where
  "NeuronBuilderControl_new c ta sa ma = \<lparr>bus = c, ctag = ta, startaddr = sa, maxaddr = ma,
     outputcfg = replicate (2 * aoutselect_dw + 2) False,
     neuroncfg = replicate (2 + 1 + 2 + 2 * n_numslow + 2 * n_numfast) False,
     sram = replicate (unat MAXADR + 1) 0, inout_top = replicate (unat MAXADR + 1) 0,
     inout_bot = replicate (unat MAXADR + 1) 0\<rparr>"

definition clear_sram :: "(neuronbuilder, unit) hal" where
  "clear_sram = hfor [0..<unat MAXADR + 1] (\<lambda>i s.
     if i < length (sram s) \<and> i < length (inout_top s) \<and> i < length (inout_bot s)
     then (Inr (), s\<lparr>sram := (sram s)[i := 0], inout_top := (inout_top s)[i := 0],
       inout_bot := (inout_bot s)[i := 0]\<rparr>)
     else (Inl Out_of_range, s))"

subsection \<open>Access to words\<close>

definition nb_write_bits :: "u32 \<Rightarrow> bool list \<Rightarrow> (neuronbuilder, int) hal" where
  "nb_write_bits rowaddr cfg = write_cmd (ucast rowaddr) (bits_word cfg)"

definition nb_write :: "u32 \<Rightarrow> u32 \<Rightarrow> (neuronbuilder, int) hal" where
  "nb_write rowaddr cfg = write_cmd (ucast rowaddr) cfg"

definition nb_read :: "u32 \<Rightarrow> (neuronbuilder, int) hal" where
  "nb_read rowaddr = read_cmd (ucast rowaddr)"

definition nb_get_read_data :: "(neuronbuilder, u16 \<times> u32) hal" where
  "nb_get_read_data = hbind get_data (\<lambda>tmp. hret (paddr tmp AND 0x1ff, pdat tmp))"

text \<open>\<open>sram_.at(a)\<close> and the like, which throw outside the vector.\<close>

definition sram_at :: "u32 \<Rightarrow> (neuronbuilder, u32) hal" where
  "sram_at a = (\<lambda>s. if unat a < length (sram s) then (Inr (sram s ! unat a), s) else (Inl Out_of_range, s))"

definition upd_sram :: "u32 \<Rightarrow> (u32 \<Rightarrow> u32) \<Rightarrow> (neuronbuilder, unit) hal" where
  "upd_sram a f = (\<lambda>s. if unat a < length (sram s)
     then (Inr (), s\<lparr>sram := (sram s)[unat a := f (sram s ! unat a)]\<rparr>) else (Inl Out_of_range, s))"

definition inout_at :: "bool \<Rightarrow> u32 \<Rightarrow> (neuronbuilder, u32) hal" where
  "inout_at upper a = (\<lambda>s. let io = (if upper then inout_top s else inout_bot s)
     in if unat a < length io then (Inr (io ! unat a), s) else (Inl Out_of_range, s))"

definition upd_inout :: "bool \<Rightarrow> u32 \<Rightarrow> (u32 \<Rightarrow> u32) \<Rightarrow> (neuronbuilder, unit) hal" where
  "upd_inout upper a f = hbind (inout_at upper a) (\<lambda>d. hmodify (\<lambda>s.
     if upper then s\<lparr>inout_top := (inout_top s)[unat a := f d]\<rparr>
     else s\<lparr>inout_bot := (inout_bot s)[unat a := f d]\<rparr>))"

definition IOmap_at :: "u32 \<Rightarrow> (neuronbuilder, u32) hal" where
  "IOmap_at d = (case IOmap d of Some x \<Rightarrow> hret x | None \<Rightarrow> hthrow Out_of_range)"

subsection \<open>The SRAM image\<close>

definition write_sram :: "(neuronbuilder, unit) hal" where
  "write_sram = hfor [0..<unat MAXADR + 1] (\<lambda>i.
     hbind (sram_at (of_nat i)) (\<lambda>d. hvoid (nb_write (of_nat i) d)))"

definition check_entry :: "nat \<Rightarrow> u32 \<Rightarrow> bool" where
  "check_entry i d \<longleftrightarrow>
     nbdata (get fireb d) (get firet d) (get vertical d) (get nmem_top d) (get nmem_bot d) (get spl1 d) = d \<and>
     \<not> (i mod 4 \<noteq> 3 \<and> (get nmem_top d \<noteq> 0 \<or> get nmem_bot d \<noteq> 0)) \<and>
     \<not> (i mod 2 \<noteq> 0 \<and> (get vertical d \<noteq> 0 \<or> get fireb d \<noteq> 0)) \<and>
     \<not> (i mod 2 \<noteq> 1 \<and> get firet d \<noteq> 0)"

definition check_sram :: "(neuronbuilder, bool) hal" where
  "check_sram = (\<lambda>s. if unat MAXADR < length (sram s)
     then (Inr (list_all (\<lambda>i. check_entry i (sram s ! i)) [0..<unat MAXADR + 1]), s)
     else (Inl Out_of_range, s))"

definition hassert :: "bool \<Rightarrow> ('s, unit) hal" where
  "hassert b = (if b then hret () else hthrow Assertion_failed)"

definition enable_firing :: "u32 \<Rightarrow> (neuronbuilder, unit) hal" where
  "enable_firing denmem = hseq (hassert (denmem \<le> MAXADR))
     (let is_top = denmem \<le> MAXADR div 2; is_left = denmem mod 2 = 0;
          act = (if is_left then activate_firing_left else activate_firing_right) in
      if is_top then
        hseq (upd_sram (denmem * 2 + 1) (put firet 1))
         (let a = denmem div 2 * 4 + 3 in hbind (sram_at a) (\<lambda>d.
            upd_sram a (put nmem_top (put act 1 (get nmem_top d)))))
      else
        hseq (upd_sram ((denmem - (MAXADR + 1) div 2) * 2) (put fireb 1))
         (let a = (denmem - (MAXADR + 1) div 2) div 2 * 4 + 3 in hbind (sram_at a) (\<lambda>d.
            upd_sram a (put nmem_bot (put act 1 (get nmem_bot d))))))"

definition rev6 :: "u32 \<Rightarrow> u32" where
  "rev6 sp = fold (\<lambda>i num. num OR (if sp AND push_bit i 1 \<noteq> 0 then push_bit (5 - i) 1 else 0)) [0..<6] 0"

definition set_spl1address :: "u32 \<Rightarrow> u32 \<Rightarrow> (neuronbuilder, unit) hal" where
  "set_spl1address denmem sp = hseq (hassert (denmem \<le> MAXADR))
     (upd_sram (if denmem \<le> MAXADR div 2 then denmem mod 256 * 2 + 1 else denmem mod 256 * 2)
       (put spl1 (rev6 sp)))"

definition connect_vertical :: "u32 \<Rightarrow> (neuronbuilder, unit) hal" where
  "connect_vertical denmem = hseq (hassert (denmem \<le> MAXADR div 2)) (upd_sram (denmem * 2) (put vertical 1))"

text \<open>Set the field \<open>f\<close> of the pair configuration \<open>nmem\<close> at \<open>a\<close>, and \<open>g\<close> too when \<open>also\<close> holds.\<close>

definition set_pair :: "field \<Rightarrow> u32 \<Rightarrow> field \<Rightarrow> (neuronbuilder, unit) hal" where
  "set_pair nmem a f = hbind (sram_at a) (\<lambda>d. upd_sram a (put nmem (put f 1 (get nmem d))))"

definition set_pair_fire :: "field \<Rightarrow> u32 \<Rightarrow> field \<Rightarrow> field \<Rightarrow> u32 \<Rightarrow> field \<Rightarrow> (neuronbuilder, unit) hal" where
  "set_pair_fire nmem a f g b fire = hbind (sram_at a) (\<lambda>d. hbind (sram_at b) (\<lambda>e.
     upd_sram a (put nmem (if get fire e \<noteq> 0 then put g 1 (put f 1 (get nmem d)) else put f 1 (get nmem d)))))"

definition connect_horizontal_top :: "u32 \<Rightarrow> int \<Rightarrow> (neuronbuilder, unit) hal" where
  "connect_horizontal_top denmem direction =
     (if denmem mod 2 = 0 then set_pair nmem_top (denmem * 2 + 3) interconnect_neuron_pair
      else if direction = 1 then
        set_pair_fire nmem_top ((denmem + 1) * 2 + 3) enable_left_fire_input activate_firing_left
          (denmem * 2 + 1) firet
      else if direction = -1 then
        set_pair_fire nmem_top (denmem * 2 + 1) enable_right_fire_input activate_firing_right
          (denmem * 2 + 3) firet
      else hthrow Assertion_failed)"

definition connect_horizontal_bottom :: "u32 \<Rightarrow> int \<Rightarrow> (neuronbuilder, unit) hal" where
  "connect_horizontal_bottom denmem direction =
     (if denmem mod 2 = 0 then set_pair nmem_bot (denmem * 2 + 3) interconnect_neuron_pair
      else if direction = 1 then
        set_pair_fire nmem_bot ((denmem + 1) * 2 + 3) enable_left_fire_input activate_firing_left
          (denmem * 2) fireb
      else if direction = -1 then
        set_pair_fire nmem_bot (denmem * 2 + 1) enable_right_fire_input activate_firing_right
          (denmem * 2 + 2) fireb
      else hthrow Assertion_failed)"

subsection \<open>Analog outputs and inputs\<close>

definition nmem_addrs :: "u32 list" where
  "nmem_addrs = map (\<lambda>k. of_nat (4 * k + 3)) [0..<128]"

text \<open>Copy the in- and output bits of every address into the hardware field of its word.\<close>

definition spread_inout :: "bool \<Rightarrow> (neuronbuilder, unit) hal" where
  "spread_inout upper = (let nmem = (if upper then nmem_top else nmem_bot) in
     hfor nmem_addrs (\<lambda>a. hbind (sram_at a) (\<lambda>d. hbind (inout_at upper a) (\<lambda>io. hbind (IOmap_at io) (\<lambda>x.
       upd_sram a (put nmem (put pc_inout x (get nmem d))))))))"

definition set_aout :: "u32 \<Rightarrow> (neuronbuilder, unit) hal" where
  "set_aout denmem =
     (let is_top = denmem \<le> MAXADR div 2; is_left = denmem mod 2 = 0 in
      if is_top then
        let a = denmem div 2 * 4 + 3 in
        hseq (if is_left then hseq (hfor nmem_addrs (\<lambda>n. upd_inout True n (put aout_l 0)))
                                (upd_inout True a (put aout_l 1))
              else hseq (hfor nmem_addrs (\<lambda>n. upd_inout True n (put aout_r 0)))
                     (upd_inout True a (put aout_r 1)))
          (hseq (spread_inout True) (hvoid (sram_at a)))
      else
        let a = (denmem - (MAXADR + 1) div 2) div 2 * 4 + 3 in
        hseq (if is_left then hseq (hfor nmem_addrs (\<lambda>n. upd_inout False n (put aout_l 0)))
                                (upd_inout False a (put aout_l 1))
              else hseq (hfor nmem_addrs (\<lambda>n. upd_inout False n (put aout_l 0)))
                     (upd_inout False a (put aout_r 1)))
          (hseq (spread_inout False) (hvoid (sram_at a))))"

definition set_currentin :: "u32 \<Rightarrow> (neuronbuilder, unit) hal" where
  "set_currentin denmem =
     (let is_top = denmem \<le> MAXADR div 2; is_left = denmem mod 2 = 0;
          a = (if is_top then denmem div 2 * 4 + 3 else (denmem - (MAXADR + 1) div 2) div 2 * 4 + 3) in
      hseq (upd_inout is_top a (put (if is_left then currentin_l else currentin_r) 1))
        (hseq (hbind (sram_at a) (\<lambda>_. hbind (inout_at is_top a) (\<lambda>io. hbind (IOmap_at io) (\<lambda>x.
            upd_sram a (put (if is_top then nmem_top else nmem_bot) x)))))
          (hvoid (sram_at a))))"

subsection \<open>Registers\<close>

definition writeTRD :: "u32 \<Rightarrow> (neuronbuilder, int) hal" where
  "writeTRD trd = nb_write (push_bit nspl1_numa 1 + 0x10) trd"

definition readTRD :: "(neuronbuilder, int) hal" where
  "readTRD = nb_read (push_bit nspl1_numa 1 + 0x10)"

definition writeTSUTWR :: "u32 \<Rightarrow> (neuronbuilder, int) hal" where
  "writeTSUTWR d = nb_write (push_bit nspl1_numa 1 + 0x11) d"

definition readTSUTWR :: "(neuronbuilder, int) hal" where
  "readTSUTWR = nb_read (push_bit nspl1_numa 1 + 0x11)"

definition nb_initzeros :: "(neuronbuilder, int) hal" where
  "nb_initzeros = hseq (hfor [0..<unat MAXADR + 1] (\<lambda>i. hvoid (nb_write (of_nat i) 0))) (hret 1)"

definition configNeuronsGbl :: "(neuronbuilder, int) hal" where
  "configNeuronsGbl = hbind (hget neuroncfg) (nb_write_bits NREGBASE)"

definition configOutputs :: "(neuronbuilder, int) hal" where
  "configOutputs = hbind (hget outputcfg) (nb_write_bits OUTREGBASE)"

text \<open>Assignments to elements of the two vectors; an index past the end is undefined.\<close>

definition set_outs :: "(nat \<times> bool) list \<Rightarrow> (neuronbuilder, unit) hal" where
  "set_outs xs = hfor xs (\<lambda>(i, b) s. if i < length (outputcfg s)
     then (Inr (), s\<lparr>outputcfg := (outputcfg s)[i := b]\<rparr>) else (Inl Undefined_behaviour, s))"

definition set_cfgs :: "(nat \<times> bool) list \<Rightarrow> (neuronbuilder, unit) hal" where
  "set_cfgs xs = hfor xs (\<lambda>(i, b) s. if i < length (neuroncfg s)
     then (Inr (), s\<lparr>neuroncfg := (neuroncfg s)[i := b]\<rparr>) else (Inl Undefined_behaviour, s))"

definition setOutputMux :: "u32 \<Rightarrow> u32 \<Rightarrow> (neuronbuilder, int) hal" where
  "setOutputMux op1 op2 = hseq (set_outs (map (\<lambda>i. (i, False)) (rev [0..<2 * aoutselect_dw])))
     (hseq (hwhen (unat op1 < aoutselect_dw) (set_outs [(2 * aoutselect_dw - 1 - unat op1, True)]))
     (hseq (hwhen (unat op2 < aoutselect_dw) (set_outs [(aoutselect_dw - unat op2 - 1, True)]))
       configOutputs))"

definition setOutputEn :: "bool \<Rightarrow> bool \<Rightarrow> (neuronbuilder, int) hal" where
  "setOutputEn op1 op2 = hseq (set_outs [(aoutselect_dw * 2 + 1, op1), (aoutselect_dw * 2, op2)]) configOutputs"

definition write_nmem :: "u32 \<Rightarrow> u32 \<Rightarrow> (neuronbuilder, int) hal" where
  "write_nmem addr d = nb_write (4 * addr + 3) (push_bit spl1_numd d)"

definition read_nmem :: "u32 \<Rightarrow> (neuronbuilder, int) hal" where
  "read_nmem addr = nb_read (4 * addr + 3)"

definition get_read_data_nmem :: "(neuronbuilder, u16 \<times> u32) hal" where
  "get_read_data_nmem = hbind nb_get_read_data (\<lambda>(addr, d).
     hret (if addr < 3 then 0 else (addr - 3) div 4, drop_bit spl1_numd d AND 0xffff))"

definition setNeuronGl :: "bool \<Rightarrow> bool \<Rightarrow> bool \<Rightarrow> bool \<Rightarrow> (neuronbuilder, int) hal" where
  "setNeuronGl slow0 slow1 fast0 fast1 = hseq (set_cfgs [(2, fast1), (n_numfast + 2, fast0),
     (2 * n_numfast + 2, slow1), (2 * n_numfast + n_numslow + 2, slow0)]) configNeuronsGbl"

definition setNeuronGladapt :: "bool \<Rightarrow> bool \<Rightarrow> bool \<Rightarrow> bool \<Rightarrow> (neuronbuilder, int) hal" where
  "setNeuronGladapt slow0 slow1 fast0 fast1 = hseq (set_cfgs [(1, fast1), (n_numfast + 1, fast0),
     (2 * n_numfast + 1, slow1), (2 * n_numfast + n_numslow + 1, slow0)]) configNeuronsGbl"

definition setNeuronRadapt :: "bool \<Rightarrow> bool \<Rightarrow> bool \<Rightarrow> bool \<Rightarrow> (neuronbuilder, int) hal" where
  "setNeuronRadapt slow0 slow1 fast0 fast1 = hseq (set_cfgs [(0, fast1), (n_numfast + 0, fast0),
     (2 * n_numfast + 0, slow1), (2 * n_numfast + n_numslow + 0, slow0)]) configNeuronsGbl"

definition setNeuronBigCap :: "bool \<Rightarrow> bool \<Rightarrow> (neuronbuilder, int) hal" where
  "setNeuronBigCap n0 n1 = hseq (set_cfgs [(2 * n_numfast + 2 * n_numslow, n1),
     (2 * n_numfast + 2 * n_numslow + 1, n0)]) configNeuronsGbl"

definition setNeuronReset :: "bool \<Rightarrow> bool \<Rightarrow> (neuronbuilder, int) hal" where
  "setNeuronReset n0 n1 = hseq (set_cfgs [(2 * n_numfast + 2 * n_numslow + 3, n1),
     (2 * n_numfast + 2 * n_numslow + 4, n0)]) configNeuronsGbl"

definition setSpl1Reset :: "bool \<Rightarrow> (neuronbuilder, int) hal" where
  "setSpl1Reset r = hseq (set_cfgs [(2 * n_numfast + 2 * n_numslow + 2, r)]) configNeuronsGbl"

definition nb_timing_base :: u32 where
  "nb_timing_base = push_bit addrmsb_nrnbuilder 1 + push_bit cnfgadr_nrnbuilder 1"

definition nb_set_sram_timings :: "u32 \<Rightarrow> u32 \<Rightarrow> u32 \<Rightarrow> (neuronbuilder, unit) hal" where
  "nb_set_sram_timings read_delay setup_precharge write_delay =
     (if read_delay \<ge> push_bit 8 1 then hthrow Runtime_error
      else if setup_precharge \<ge> push_bit 4 1 then hthrow Runtime_error
      else if write_delay \<ge> push_bit 4 1 then hthrow Runtime_error
      else hseq (nb_write nb_timing_base (read_delay AND 0xff))
        (hvoid (nb_write (nb_timing_base + 1)
           (push_bit 4 (setup_precharge AND 0xf) + (write_delay AND 0xf)))))"

definition nb_get_sram_timings :: "(neuronbuilder, u32 \<times> u32 \<times> u32) hal" where
  "nb_get_sram_timings = hseq (nb_read nb_timing_base) (hseq (nb_read (nb_timing_base + 1))
     (hbind nb_get_read_data (\<lambda>(_, d0). hbind nb_get_read_data (\<lambda>(_, d1).
       hret (d0 AND 0xff, drop_bit 4 d1 AND 0xf, d1 AND 0xf)))))"

definition nb_reset :: "(neuronbuilder, unit) hal" where
  "nb_reset = hfor [0..<unat OUTREGBASE + 1] (\<lambda>i. hvoid (nb_write (of_nat i) 0))"

subsection \<open>What check\_sram accepts\<close>

lemma take_bit_step: "m + w \<le> 32 \<Longrightarrow> take_bit (m + w) d = push_bit m (bf_get m w d) + take_bit m (d :: u32)"
proof -
  assume "m + w \<le> 32"
  have "push_bit m (bf_get m w d) + take_bit m d = push_bit m (bf_get m w d) OR take_bit m d"
    by (rule disjunctive_add) (auto simp: bit_push_bit_iff bit_take_bit_iff)
  also have "\<dots> = take_bit (m + w) d"
    by (rule bit_eqI) (auto simp: bit_or_iff bit_push_bit_iff bit_take_bit_iff bit_bf_get dest: bit_imp_le_length)
  finally show ?thesis by simp
qed

lemma nbdata_fields:
  "nbdata (get fireb d) (get firet d) (get vertical d) (get nmem_top d) (get nmem_bot d) (get spl1 d) = take_bit 25 d"
proof -
  have "take_bit 25 d = push_bit 24 (bf_get 24 1 d) + take_bit 24 d"
    "take_bit 24 d = push_bit 23 (bf_get 23 1 d) + take_bit 23 d"
    "take_bit 23 d = push_bit 22 (bf_get 22 1 d) + take_bit 22 d"
    "take_bit 22 d = push_bit 14 (bf_get 14 8 d) + take_bit 14 d"
    "take_bit 14 d = push_bit 6 (bf_get 6 8 d) + take_bit 6 d"
    using take_bit_step [of 24 1 d] take_bit_step [of 23 1 d] take_bit_step [of 22 1 d]
      take_bit_step [of 14 8 d] take_bit_step [of 6 8 d] by simp_all
  moreover have "take_bit 6 d = bf_get 0 6 d" by (simp add: bf_get_def)
  ultimately show ?thesis
    by (simp add: nbdata_def nb_fields push_bit_eq_mult algebra_simps)
qed

lemma check_entry_iff: "check_entry i d \<longleftrightarrow> take_bit 25 d = d \<and>
    (i mod 4 \<noteq> 3 \<longrightarrow> get nmem_top d = 0 \<and> get nmem_bot d = 0) \<and>
    (odd i \<longrightarrow> get vertical d = 0 \<and> get fireb d = 0) \<and> (even i \<longrightarrow> get firet d = 0)"
  by (auto simp: check_entry_def nbdata_fields odd_iff_mod_2_eq_one even_iff_mod_2_eq_zero)

lemma take_bit_put: "take_bit m d = d \<Longrightarrow> lo + w \<le> m \<Longrightarrow> take_bit m (bf_put lo w x d) = bf_put lo w x d"
proof (rule bit_eqI)
  fix n assume a: "take_bit m d = d" "lo + w \<le> m"
  have "bit d n \<Longrightarrow> n < m" for n
    using arg_cong [OF a(1), of "\<lambda>e. bit e n"] by (simp add: bit_take_bit_iff)
  then show "bit (take_bit m (bf_put lo w x d)) n = bit (bf_put lo w x d) n"
    using a(2) by (auto simp: bit_take_bit_iff bit_bf_put)
qed

text \<open>Putting a field where the address allows it keeps an entry acceptable.\<close>

lemma check_put:
  assumes "check_entry i d"
  shows "check_entry i (put spl1 x d)" and "i mod 4 = 3 \<Longrightarrow> check_entry i (put nmem_top x d)"
    and "i mod 4 = 3 \<Longrightarrow> check_entry i (put nmem_bot x d)" and "even i \<Longrightarrow> check_entry i (put vertical x d)"
    and "even i \<Longrightarrow> check_entry i (put fireb x d)" and "odd i \<Longrightarrow> check_entry i (put firet x d)"
  using assms by (simp_all add: check_entry_iff take_bit_put bf_get_put_other nb_fields)

definition image_ok :: "neuronbuilder \<Rightarrow> bool" where
  "image_ok s \<longleftrightarrow> length (sram s) = 512 \<and> (\<forall>i<512. check_entry i (sram s ! i))"

lemma MAXADR_simps: "MAXADR = 511" "unat MAXADR = 511" "MAXADR div 2 = 255" "(MAXADR + 1) div 2 = 256"
  by (simp_all add: MAXADR_def nspl1_numa_def)

lemma check_sram_iff: "length (sram s) = 512 \<Longrightarrow> check_sram s = (Inr (image_ok s), s)"
  by (simp add: check_sram_def MAXADR_simps list_all_iff image_ok_def Ball_def)

lemma keeps_upd_sram:
  assumes "\<And>d. check_entry (unat a) d \<Longrightarrow> check_entry (unat a) (f d)"
  shows "keeps image_ok (upd_sram a f)"
  using assms unfolding keeps_def upd_sram_def
  by (auto simp: image_ok_def nth_list_update)

lemma keeps_reads [keeps_intros]:
  "keeps P (sram_at a)" "keeps P (inout_at u a)" "keeps P (IOmap_at x)" "keeps P (hassert b)"
  by (simp_all add: keeps_def sram_at_def inout_at_def IOmap_at_def hassert_def Let_def split: option.split)

lemma keeps_upd_inout [keeps_intros]: "keeps image_ok (upd_inout u a f)"
  unfolding upd_inout_def
  by (rule keeps_hbind, rule keeps_reads) (simp add: keeps_def image_ok_def)

lemma word_mod_4: "unat (x :: u32) mod 4 = unat (x mod 4)" "odd (unat x) \<longleftrightarrow> unat (x mod 2) = 1"
  by (simp_all add: unat_mod odd_iff_mod_2_eq_one)

lemma at_3: "unat (x * 4 + 3 :: u32) mod 4 = 3"
proof -
  have "unat (x * 4 + 3 :: u32) = (unat x * 4 + 3) mod 2 ^ 32"
    by (simp add: unat_word_ariths mod_simps)
  then show ?thesis by (simp add: mod_mod_cancel)
qed

lemma at_even: "even (unat (x * 2 :: u32))" and at_odd: "odd (unat (x * 2 + 1 :: u32))"
  by (simp_all add: unat_word_ariths even_mod_2_iff dvd_mod_iff mod_simps)

lemma half_even: "x mod 2 = 0 \<Longrightarrow> x = (x div 2) * (2 :: u32)"
  using div_mult_mod_eq [of x 2] by simp

lemma half_odd: "x mod 2 \<noteq> 0 \<Longrightarrow> x = (x div 2) * (2 :: u32) + 1"
proof -
  assume "x mod 2 \<noteq> 0"
  moreover have "x mod 2 = 0 \<or> x mod 2 = 1"
    by (simp add: word_unat_eq_iff unat_mod) arith
  ultimately show ?thesis using div_mult_mod_eq [of x 2] by simp
qed

lemma pair_addr:
  "x mod 2 = 0 \<Longrightarrow> unat (x * 2 + 3 :: u32) mod 4 = 3"
  "x mod 2 \<noteq> 0 \<Longrightarrow> unat (x * 2 + 1 :: u32) mod 4 = 3"
  "x mod 2 \<noteq> 0 \<Longrightarrow> unat ((x + 1) * 2 + 3 :: u32) mod 4 = 3"
proof -
  show "unat (x * 2 + 3) mod 4 = 3" if "x mod 2 = 0"
    using at_3 [of "x div 2"] by (subst half_even [OF that]) (simp add: algebra_simps)
  show "unat (x * 2 + 1) mod 4 = 3" if "x mod 2 \<noteq> 0"
    using at_3 [of "x div 2"] by (subst half_odd [OF that]) (simp add: algebra_simps)
  show "unat ((x + 1) * 2 + 3) mod 4 = 3" if "x mod 2 \<noteq> 0"
    using at_3 [of "x div 2 + 1"] by (subst half_odd [OF that]) (simp add: algebra_simps)
qed

lemma nmem_addrs_at_3: "a \<in> set nmem_addrs \<Longrightarrow> unat a mod 4 = 3"
proof -
  assume "a \<in> set nmem_addrs"
  then obtain k where "a = of_nat k * 4 + 3" by (auto simp: nmem_addrs_def algebra_simps)
  then show ?thesis using at_3 by simp
qed

lemma keeps_nmem:
  assumes "unat a mod 4 = 3" and "nmem = nmem_top \<or> nmem = nmem_bot"
  shows "keeps image_ok (upd_sram a (put nmem x))"
  by (rule keeps_upd_sram) (use assms check_put in auto)

lemma keeps_set_pair:
  assumes "unat a mod 4 = 3" and "nmem = nmem_top \<or> nmem = nmem_bot"
  shows "keeps image_ok (set_pair nmem a f)" and "keeps image_ok (set_pair_fire nmem a f g b fire)"
  unfolding set_pair_def set_pair_fire_def
  by (intro keeps_hbind keeps_reads keeps_nmem assms)+

lemma keeps_fire_bits:
  "keeps image_ok (upd_sram (x * 2 + 1) (put firet 1))" "keeps image_ok (upd_sram (x * 2) (put fireb 1))"
  by (rule keeps_upd_sram, erule check_put, rule at_odd) (rule keeps_upd_sram, erule check_put, rule at_even)

lemma keeps_pair_bits:
  assumes "nmem = nmem_top \<or> nmem = nmem_bot"
  shows "keeps image_ok (hbind (sram_at (x * 4 + 3)) (\<lambda>d. upd_sram (x * 4 + 3) (put nmem (g d))))"
  by (rule keeps_hbind, rule keeps_reads) (rule keeps_nmem [OF at_3 assms])

lemma keeps_enable_firing [keeps_intros]: "keeps image_ok (enable_firing denmem)"
  unfolding enable_firing_def Let_def
  by (rule keeps_hseq, rule keeps_reads, rule keeps_if)
    (rule keeps_hseq, rule keeps_fire_bits, rule keeps_pair_bits, simp)+

lemma keeps_single [keeps_intros]:
  "keeps image_ok (set_spl1address denmem sp)" "keeps image_ok (connect_vertical denmem)"
proof -
  show "keeps image_ok (set_spl1address denmem sp)"
    unfolding set_spl1address_def by (intro keeps_hseq keeps_reads keeps_upd_sram check_put)
  show "keeps image_ok (connect_vertical denmem)"
    unfolding connect_vertical_def by (intro keeps_hseq keeps_reads keeps_upd_sram check_put at_even)
qed

lemma keeps_horizontal [keeps_intros]:
  "keeps image_ok (connect_horizontal_top denmem dir)" "keeps image_ok (connect_horizontal_bottom denmem dir)"
  unfolding connect_horizontal_top_def connect_horizontal_bottom_def
  by (intro keeps_if keeps_set_pair pair_addr keeps_hthrow; simp)+

lemma keeps_spread [keeps_intros]: "keeps image_ok (spread_inout u)"
  unfolding spread_inout_def Let_def
  by (rule keeps_loop, intro keeps_hbind keeps_reads keeps_nmem nmem_addrs_at_3) auto

lemma keeps_analog [keeps_intros]: "keeps image_ok (set_aout denmem)" "keeps image_ok (set_currentin denmem)"
proof -
  have l: "keeps image_ok (hfor nmem_addrs (\<lambda>n. upd_inout u n f))" for u f
    by (rule keeps_loop) (rule keeps_upd_inout)
  show "keeps image_ok (set_aout denmem)"
    unfolding set_aout_def Let_def
    by (intro keeps_if keeps_hseq l keeps_upd_inout keeps_spread keeps_hvoid keeps_reads)
  show "keeps image_ok (set_currentin denmem)"
    unfolding set_currentin_def Let_def
    by (intro keeps_hseq keeps_hbind keeps_upd_inout keeps_reads keeps_hvoid keeps_nmem) (auto simp: at_3)
qed

lemma check_entry_0: "check_entry i 0"
  by (simp add: check_entry_iff bf_get_def)

lemma clear_sram_image: "image_ok s \<Longrightarrow> image_ok (snd (clear_sram s))"
  unfolding clear_sram_def
  by (rule hfor_invariant [where P = image_ok])
    (auto simp: image_ok_def nth_list_update check_entry_0)

text \<open>Claim C13: Every operation on the SRAM image keeps it one that check\_sram accepts, whatever its
  arguments and also when it throws half way: entries of the pair configurations only at every
  fourth address, firing and vertical bits at their parity, nothing above the fields.\<close>

theorem image_stays_valid:
  assumes "length (sram s) = 512" and "check_sram s = (Inr True, s)"
    and "t \<in> {snd (enable_firing denmem s), snd (set_spl1address denmem sp s), snd (connect_vertical denmem s),
      snd (connect_horizontal_top denmem dir s), snd (connect_horizontal_bottom denmem dir s),
      snd (set_aout denmem s), snd (set_currentin denmem s), snd (clear_sram s)}"
  shows "check_sram t = (Inr True, t)"
proof -
  have s: "image_ok s" using assms(1,2) by (simp add: check_sram_iff)
  have "image_ok t"
    using assms(3) keepsD [OF keeps_enable_firing s, of denmem] keepsD [OF keeps_single(1) s, of denmem sp]
      keepsD [OF keeps_single(2) s, of denmem] keepsD [OF keeps_horizontal(1) s, of denmem dir]
      keepsD [OF keeps_horizontal(2) s, of denmem dir] keepsD [OF keeps_analog(1) s, of denmem]
      keepsD [OF keeps_analog(2) s, of denmem] clear_sram_image [OF s]
    by blast
  moreover then have "length (sram t) = 512" by (simp add: image_ok_def)
  ultimately show ?thesis by (simp add: check_sram_iff)
qed

definition demo_builder :: neuronbuilder where
  "demo_builder = NeuronBuilderControl_new \<lparr>issued = [], rxdata = (\<lambda>_. []), env = []\<rparr> 0
     (astart OcpNeuronBuilder) (amax OcpNeuronBuilder)"

lemma demo_builder_ok: "length (sram demo_builder) = 512" "check_sram demo_builder = (Inr True, demo_builder)"
proof -
  show len: "length (sram demo_builder) = 512"
    by (simp add: demo_builder_def NeuronBuilderControl_new_def MAXADR_simps)
  have "image_ok demo_builder"
    by (simp add: image_ok_def demo_builder_def NeuronBuilderControl_new_def MAXADR_simps check_entry_0 nth_append)
  then show "check_sram demo_builder = (Inr True, demo_builder)" using len by (simp add: check_sram_iff)
qed

theorem image_stays_valid_witness:
  "let t = snd (enable_firing 300 demo_builder) in
   check_sram t = (Inr True, t) \<and> get fireb (sram t ! 88) = 1 \<and> sram t ! 91 = push_bit 14 0x10"
proof -
  let ?t = "snd (enable_firing 300 demo_builder)"
  have d: "unat (300 :: u32) = 300" "sram demo_builder = replicate 512 0"
    by (simp_all add: demo_builder_def NeuronBuilderControl_new_def MAXADR_simps)
  have "get fireb (sram ?t ! 88) = 1 \<and> sram ?t ! 91 = push_bit 14 0x10"
    by (simp add: enable_firing_def hassert_def MAXADR_simps hseq_def hbind_def upd_sram_def sram_at_def d
        nth_list_update Let_def bf_put_def bf_get_def nb_fields)
  then show ?thesis using image_stays_valid [OF demo_builder_ok, of ?t 300 0 0] by (simp add: Let_def)
qed

subsection \<open>One denmem per analog output\<close>

definition io :: "bool \<Rightarrow> neuronbuilder \<Rightarrow> u32 list" where
  "io u s = (if u then inout_top s else inout_bot s)"

lemma upd_inout_returns:
  "upd_inout u a f s = (Inr x, t) \<Longrightarrow> unat a < length (io u s) \<and>
     io u t = (io u s)[unat a := f (io u s ! unat a)]"
  by (auto simp: upd_inout_def inout_at_def io_def hbind_def Let_def split: if_splits)

lemma loop_returns:
  "hfor as (\<lambda>a. upd_inout u a f) s = (Inr x, t) \<Longrightarrow> distinct (map unat as) \<Longrightarrow>
     length (io u t) = length (io u s) \<and>
     (\<forall>i. io u t ! i = (if i \<in> unat ` set as then f (io u s ! i) else io u s ! i))"
proof (induction as arbitrary: s)
  case (Cons a as)
  obtain y s' where one: "upd_inout u a f s = (Inr y, s')" and rest: "hfor as (\<lambda>a. upd_inout u a f) s' = (Inr x, t)"
    using hbind_cases [OF Cons.prems(1) [unfolded hfor.simps hseq_def]] by (metis sum.distinct(1))
  have s': "unat a < length (io u s)" "io u s' = (io u s)[unat a := f (io u s ! unat a)]"
    using upd_inout_returns [OF one] by simp_all
  have IH: "length (io u t) = length (io u s')"
    "\<forall>i. io u t ! i = (if i \<in> unat ` set as then f (io u s' ! i) else io u s' ! i)"
    using Cons.IH [OF rest] Cons.prems(2) by simp_all
  show ?case
    using IH s' Cons.prems(2) by (auto simp: nth_list_update)
qed simp

lemma keeps_io: "keeps (\<lambda>s. io u s = c) (spread_inout u')"
  unfolding spread_inout_def Let_def
  by (rule keeps_hfor, intro keeps_hbind keeps_reads) (auto simp: keeps_def upd_sram_def io_def)

lemma nmem_addrs_unat: "map unat nmem_addrs = map (\<lambda>k. 4 * k + 3) [0..<128]"
  by (auto simp: nmem_addrs_def unsigned_of_nat take_bit_nat_eq_self unat_word_ariths)

lemma nmem_addrs_distinct: "distinct (map unat nmem_addrs)"
  unfolding nmem_addrs_unat by (auto simp: distinct_map inj_on_def)

lemma nmem_addrs_in: "k < 128 \<Longrightarrow> 4 * k + 3 \<in> unat ` set nmem_addrs"
proof -
  assume "k < 128"
  then have "4 * k + 3 \<in> set (map unat nmem_addrs)" unfolding nmem_addrs_unat by auto
  then show ?thesis by simp
qed

definition aout_steps :: "bool \<Rightarrow> field \<Rightarrow> u32 \<Rightarrow> field \<Rightarrow> (neuronbuilder, unit) hal" where
  "aout_steps u clr a line = hseq (hseq (hfor nmem_addrs (\<lambda>n. upd_inout u n (put clr 0)))
     (upd_inout u a (put line 1))) (hseq (spread_inout u) (hvoid (sram_at a)))"

lemma hseq_returnsE:
  assumes "hseq m n s = (Inr x, t)"
  obtains y s' where "m s = (Inr y, s')" and "n s' = (Inr x, t)"
  using hbind_cases [OF assms [unfolded hseq_def]] by (metis sum.distinct(1))

lemma aout_steps_returns:
  assumes "aout_steps u clr a line s = (Inr x, t)" and "unat a = 4 * ka + 3" and "k < 128"
  shows "io u t ! (4 * k + 3) = (if k = ka then put line 1 (put clr 0 (io u s ! (4 * k + 3)))
    else put clr 0 (io u s ! (4 * k + 3)))"
proof -
  obtain y s1 where one: "hseq (hfor nmem_addrs (\<lambda>n. upd_inout u n (put clr 0))) (upd_inout u a (put line 1)) s = (Inr y, s1)"
      and rest: "hseq (spread_inout u) (hvoid (sram_at a)) s1 = (Inr x, t)"
    by (rule hseq_returnsE [OF assms(1) [unfolded aout_steps_def]])
  obtain z s0 where loop: "hfor nmem_addrs (\<lambda>n. upd_inout u n (put clr 0)) s = (Inr z, s0)"
      and set: "upd_inout u a (put line 1) s0 = (Inr y, s1)"
    by (rule hseq_returnsE [OF one])
  have "keeps (\<lambda>s. io u s = io u s1) (hseq (spread_inout u) (hvoid (sram_at a)))"
    by (intro keeps_hseq keeps_io keeps_hvoid keeps_reads)
  from keepsD [OF this refl] have t: "io u t = io u s1" using rest by simp
  have "io u s0 ! (4 * k + 3) = put clr 0 (io u s ! (4 * k + 3))"
    using loop_returns [OF loop nmem_addrs_distinct] nmem_addrs_in [OF assms(3)] by simp
  then show ?thesis
    using upd_inout_returns [OF set] by (auto simp: t assms(2) nth_list_update)
qed

lemma set_aout_steps:
  "set_aout denmem = (if denmem \<le> 255
     then aout_steps True (if denmem mod 2 = 0 then aout_l else aout_r) (denmem div 2 * 4 + 3)
            (if denmem mod 2 = 0 then aout_l else aout_r)
     else aout_steps False aout_l ((denmem - 256) div 2 * 4 + 3) (if denmem mod 2 = 0 then aout_l else aout_r))"
  by (simp add: set_aout_def aout_steps_def MAXADR_simps Let_def)

lemma quad_addr: "x \<le> 511 \<Longrightarrow> unat (x div 2 * 4 + 3 :: u32) = 4 * (unat x div 2) + 3"
proof -
  assume "x \<le> 511"
  then have u: "unat x \<le> 511" by (simp add: word_le_nat_alt)
  have "unat (x div 2) = unat x div 2" by (simp add: unat_div)
  moreover have "unat (x div 2 * 4) = unat (x div 2) * 4"
    using u by (simp add: unat_word_ariths calculation)
  ultimately show ?thesis using u by (simp add: unat_word_ariths)
qed

lemma put_line: "get aout_l (put aout_l x d) = take_bit 1 x" "get aout_r (put aout_r x d) = take_bit 1 x"
    "get aout_l (put aout_r x d) = get aout_l d" "get aout_r (put aout_l x d) = get aout_r d"
  by (simp_all add: nb_fields bf_get_put bf_get_put_other)

lemma lower_addr:
  assumes "\<not> denmem \<le> 255" and "denmem \<le> MAXADR"
  shows "unat ((denmem - 256) div 2 * 4 + 3) = 4 * (unat denmem mod 256 div 2) + 3"
proof -
  have u: "255 < unat denmem" "unat denmem \<le> 511"
    using assms by (simp_all add: word_le_nat_alt MAXADR_simps)
  have m: "unat (denmem - 256) = unat denmem - 256"
    using u by (simp add: unat_sub word_le_nat_alt)
  have "unat denmem mod 256 = unat denmem - 256" using u by (simp add: mod_if)
  then show ?thesis
    unfolding m [symmetric] by (simp only:) (rule quad_addr, use u m in \<open>simp add: word_le_nat_alt\<close>)
qed

text \<open>When set\_aout returns for a denmem of the upper block, or for a left one of the lower
  block, that denmem is the only one of its block connected to its analog output line.\<close>

theorem set_aout_exclusive:
  assumes "set_aout denmem s = (Inr (), t)" and "denmem \<le> MAXADR" and "k < 128"
    and "denmem \<le> 255 \<or> denmem mod 2 = 0"
  shows "get (if denmem mod 2 = 0 then aout_l else aout_r) (io (denmem \<le> 255) t ! (4 * k + 3)) \<noteq> 0
    \<longleftrightarrow> k = unat denmem mod 256 div 2"
proof (cases "denmem \<le> 255")
  case True
  then have u: "unat denmem \<le> 255" by (simp add: word_le_nat_alt)
  have a: "unat (denmem div 2 * 4 + 3) = 4 * (unat denmem div 2) + 3"
    by (rule quad_addr) (use True order_trans in fastforce)
  show ?thesis
    using aout_steps_returns [OF _ a assms(3)] assms(1) u True
    by (auto simp: set_aout_steps put_line split: if_splits)
next
  case False
  then show ?thesis
    using aout_steps_returns [OF _ lower_addr [OF False assms(2)] assms(3)] assms
    by (auto simp: set_aout_steps put_line)
qed

text \<open>For a right denmem of the lower block set\_aout clears the left line of the block in
  place of the right one: denmems selected before stay connected to the right line beside the new
  one, and whatever was on the left line is cut off.\<close>

theorem set_aout_lower_right:
  assumes "set_aout denmem s = (Inr (), t)" and "denmem \<le> MAXADR" and "k < 128"
    and "\<not> denmem \<le> 255" and "denmem mod 2 \<noteq> 0"
  shows "get aout_l (io False t ! (4 * k + 3)) = 0 \<and>
    get aout_r (io False t ! (4 * k + 3)) =
      (if k = unat denmem mod 256 div 2 then 1 else get aout_r (io False s ! (4 * k + 3)))"
  using aout_steps_returns [OF _ lower_addr [OF assms(4,2)] assms(3)] assms
  by (simp add: set_aout_steps put_line)

text \<open>A block whose bits are all the same is left with settings that the hardware has.\<close>

lemma spread_total:
  assumes "length (sram s) = 512" and "length (io u s) = 512" and "\<forall>k<128. IOmap (io u s ! (4 * k + 3)) \<noteq> None"
  shows "\<exists>t. spread_inout u s = (Inr (), t) \<and> length (sram t) = 512 \<and> io u t = io u s"
  unfolding spread_inout_def Let_def
proof (rule hfor_total [where P = "\<lambda>t. length (sram t) = 512 \<and> io u t = io u s"])
  fix a t assume "a \<in> set nmem_addrs" and t: "length (sram t) = 512 \<and> io u t = io u s"
  then have "unat a \<in> set (map unat nmem_addrs)" by simp
  then obtain k where k: "k < 128" "unat a = 4 * k + 3" unfolding nmem_addrs_unat by auto
  obtain x where x: "IOmap (io u s ! (4 * k + 3)) = Some x" using assms(3) k(1) by auto
  have "inout_at u a t = (Inr (io u t ! unat a), t)"
    using t k assms(2) by (simp add: inout_at_def io_def Let_def)
  then have i: "inout_at u a t = (Inr (io u s ! (4 * k + 3)), t)" using t k by simp
  have "io u (t\<lparr>sram := z\<rparr>) = io u t" for z by (simp add: io_def)
  then show "\<exists>t'. hbind (sram_at a) (\<lambda>d. hbind (inout_at u a) (\<lambda>io. hbind (IOmap_at io) (\<lambda>x.
       upd_sram a (put (if u then nmem_top else nmem_bot) (put pc_inout x (get (if u then nmem_top else nmem_bot) d)))))) t
      = (Inr (), t') \<and> length (sram t') = 512 \<and> io u t' = io u s"
    using t k by (simp add: hbind_def sram_at_def i IOmap_at_def x upd_sram_def)
qed (use assms in simp)

lemma upd_inout_total: "unat a < 512 \<Longrightarrow> length (io u s) = 512 \<and> length (sram s) = 512 \<Longrightarrow>
    \<exists>t. upd_inout u a f s = (Inr (), t) \<and> length (io u t) = 512 \<and> length (sram t) = 512"
  by (auto simp: upd_inout_def inout_at_def io_def hbind_def Let_def)

lemma aout_steps_total:
  assumes "length (sram s) = 512" and "length (io u s) = 512" and "unat a = 4 * ka + 3" and "ka < 128"
    and "\<forall>k<128. IOmap (put clr 0 (io u s ! (4 * k + 3))) \<noteq> None"
    and "IOmap (put line 1 (put clr 0 (io u s ! (4 * ka + 3)))) \<noteq> None"
  shows "\<exists>t. aout_steps u clr a line s = (Inr (), t)"
proof -
  have "\<exists>t. hfor nmem_addrs (\<lambda>n. upd_inout u n (put clr 0)) s = (Inr (), t) \<and>
      length (io u t) = 512 \<and> length (sram t) = 512"
  proof (rule hfor_total [where P = "\<lambda>t. length (io u t) = 512 \<and> length (sram t) = 512"])
    fix n t assume "n \<in> set nmem_addrs" and t: "length (io u t) = 512 \<and> length (sram t) = 512"
    then have "unat n \<in> set (map unat nmem_addrs)" by simp
    then have "unat n < 512" unfolding nmem_addrs_unat by auto
    then show "\<exists>t'. upd_inout u n (put clr 0) t = (Inr (), t') \<and> length (io u t') = 512 \<and> length (sram t') = 512"
      using upd_inout_total t by blast
  qed (use assms in simp)
  then obtain s0 where s0: "hfor nmem_addrs (\<lambda>n. upd_inout u n (put clr 0)) s = (Inr (), s0)"
      "length (io u s0) = 512 \<and> length (sram s0) = 512" by auto
  obtain s1 where s1: "upd_inout u a (put line 1) s0 = (Inr (), s1)" "length (io u s1) = 512" "length (sram s1) = 512"
    using upd_inout_total [OF _ s0(2), of a "put line 1"] assms(3,4) by auto
  have "io u s0 ! (4 * k + 3) = put clr 0 (io u s ! (4 * k + 3))" if "k < 128" for k
    using loop_returns [OF s0(1) nmem_addrs_distinct] nmem_addrs_in [OF that] by simp
  then have "\<forall>k<128. IOmap (io u s1 ! (4 * k + 3)) \<noteq> None"
    using upd_inout_returns [OF s1(1)] assms(3-6) by (auto simp: nth_list_update)
  then obtain s2 where s2: "spread_inout u s1 = (Inr (), s2)" "length (sram s2) = 512"
    using spread_total [OF s1(3,2)] by blast
  have "sram_at a s2 = (Inr (sram s2 ! unat a), s2)" using s2(2) assms(3,4) by (simp add: sram_at_def)
  then show ?thesis
    by (simp add: aout_steps_def hseq_Inr [of _ _ "()", OF _] hseq_def hbind_def s0(1) s1(1) s2(1) hvoid_def)
qed

lemma put_one_bit: "put aout_l 0 0 = 0" "put aout_r 0 0 = 0" "put aout_l 1 0 = 2" "put aout_r 1 0 = 1"
    "put aout_l 0 1 = 1" "put aout_r 0 1 = 0" "put aout_l 1 1 = 3" "put aout_r 1 1 = 1"
  by code_simp+

lemma demo_bits: "c \<in> {0, 1} \<Longrightarrow> f \<in> {aout_l, aout_r} \<Longrightarrow> g \<in> {aout_l, aout_r} \<Longrightarrow>
    IOmap (put f 0 c) \<noteq> None \<and> IOmap (put g 1 (put f 0 c)) \<noteq> None"
  by (elim insertE emptyE; hypsubst; simp only: put_one_bit; simp add: IOmap_def)

lemma demo_total:
  assumes "length (sram s) = 512" and "io u s = replicate 512 c" and "c \<in> {0, 1}"
    and "clr \<in> {aout_l, aout_r}" and "line \<in> {aout_l, aout_r}" and "unat a = 15"
  shows "\<exists>t. aout_steps u clr a line s = (Inr (), t)"
proof (rule aout_steps_total [OF assms(1), where ka = 3])
  have c: "io u s ! (4 * k + 3) = c" if "k < 128" for k using that by (simp add: assms(2))
  show "\<forall>k<128. IOmap (put clr 0 (io u s ! (4 * k + 3))) \<noteq> None"
    using c demo_bits [OF assms(3,4,5)] by simp
  show "IOmap (put line 1 (put clr 0 (io u s ! (4 * 3 + 3)))) \<noteq> None"
    using c [of 3] demo_bits [OF assms(3,4,5)] by simp
qed (simp_all add: assms(2,6))

theorem set_aout_exclusive_witness:
  "\<exists>t. set_aout 7 demo_builder = (Inr (), t) \<and> get aout_r (io True t ! 15) \<noteq> 0"
proof -
  have "io True demo_builder = replicate 512 0"
    by (simp add: io_def demo_builder_def NeuronBuilderControl_new_def MAXADR_simps)
  then have "\<exists>t. aout_steps True aout_r 15 aout_r demo_builder = (Inr (), t)"
    by (rule demo_total [OF demo_builder_ok(1)]) simp_all
  then obtain t where "set_aout 7 demo_builder = (Inr (), t)" by (auto simp: set_aout_steps)
  then show ?thesis using set_aout_exclusive [of 7 demo_builder t 3] by (simp add: MAXADR_simps)
qed

theorem set_aout_lower_right_witness:
  "let s = demo_builder\<lparr>inout_bot := replicate 512 1\<rparr> in
   \<exists>t. set_aout 263 s = (Inr (), t) \<and> get aout_r (io False t ! 15) = 1 \<and> get aout_r (io False t ! 19) = 1"
proof -
  let ?s = "demo_builder\<lparr>inout_bot := replicate 512 1\<rparr>"
  have d: "io False ?s = replicate 512 1" by (simp add: io_def)
  have "length (sram ?s) = 512" using demo_builder_ok(1) by simp
  then have "\<exists>t. aout_steps False aout_l 15 aout_r ?s = (Inr (), t)"
    by (rule demo_total [OF _ d]) simp_all
  then obtain t where t: "set_aout 263 ?s = (Inr (), t)" by (auto simp: set_aout_steps)
  have "get aout_r 1 = 1" by (simp add: nb_fields bf_get_def)
  then have "get aout_r (io False t ! 15) = 1 \<and> get aout_r (io False t ! 19) = 1"
    using set_aout_lower_right [OF t, of 3] set_aout_lower_right [OF t, of 4] by (simp add: MAXADR_simps d)
  then show ?thesis using t by (auto simp: Let_def)
qed

end
