(* ===== verification/Synapse.thy ===== *)
theory Synapse
  imports L1switch
begin

text \<open>
  The synapse array and its drivers (\<open>synapse_control.cpp\<close>): rows of weights and of decoder
  values behind the sequencer of the array, the permutations of their bits, the configuration,
  pre-driver and gmax words of the drivers, and the waiting for the array. The results: the two
  decoder permutations are inverse, setting one decoder value changes no other of the two rows it
  rewrites, and the row drv\_set\_gmax takes its top configuration from.
\<close>

datatype syn_loc = DSCT | DSCB

definition sc_encfg :: u32 where "sc_encfg = 0"
definition sc_endrv :: u32 where "sc_endrv = 0x100"
definition sc_engmax :: u32 where "sc_engmax = 0x200"
definition sc_synw :: u32 where "sc_synw = 0x600"

definition sc_ctrlreg :: "hicann_v \<Rightarrow> u32" where
  "sc_ctrlreg v = (case v of HV2 \<Rightarrow> 0x4000 | HV1 \<Rightarrow> 0x400)"
definition sc_cnfgreg :: "hicann_v \<Rightarrow> u32" where
  "sc_cnfgreg v = (case v of HV2 \<Rightarrow> 0x4001 | HV1 \<Rightarrow> 0x401)"
definition sc_status :: u32 where "sc_status = 0x4002"
definition sc_synin :: u32 where "sc_synin = 0x4200"
definition sc_synout :: u32 where "sc_synout = 0x4300"
definition sc_synd :: u32 where "sc_synd = 0x406"

definition sc_newcmd_p :: nat where "sc_newcmd_p = 6"
definition sc_adr_p :: nat where "sc_adr_p = 8"
definition sc_colset_p :: nat where "sc_colset_p = 24"

definition sc_cmd_idle :: u32 where "sc_cmd_idle = 0"
definition sc_cmd_read :: u32 where "sc_cmd_read = 1"
definition sc_cmd_st_dec :: u32 where "sc_cmd_st_dec = 2"
definition sc_cmd_write :: u32 where "sc_cmd_write = 3"
definition sc_cmd_wdec :: u32 where "sc_cmd_wdec = 5"
definition sc_cmd_rdec :: u32 where "sc_cmd_rdec = 6"
definition sc_cmd_st_rd :: u32 where "sc_cmd_st_rd = 7"
definition sc_cmd_close :: u32 where "sc_cmd_close = 9"

definition sc_cfg_endel_p :: nat where "sc_cfg_endel_p = 8"
definition sc_cfg_predel_p :: nat where "sc_cfg_predel_p = 12"
definition sc_cfg_dllresetb_p :: nat where "sc_cfg_dllresetb_p = 20"
definition sc_cfg_oedel_p :: nat where "sc_cfg_oedel_p = 22"
definition sc_cfg_wrdel_p :: nat where "sc_cfg_wrdel_p = 26"

definition sc_senx :: u32 where "sc_senx = 1"
definition sc_seni :: u32 where "sc_seni = 2"
definition sc_ctop_dep :: u32 where "sc_ctop_dep = 0x80"
definition sc_cbot_topin :: u32 where "sc_cbot_topin = 0x10"
definition sc_cbot_locin :: u32 where "sc_cbot_locin = 0x20"
definition sc_cbot_en :: u32 where "sc_cbot_en = 0x40"
definition sc_cbot_enstdf :: u32 where "sc_cbot_enstdf = 0x80"

definition sc_auto_busy :: u32 where "sc_auto_busy = 4"
definition sc_slice_busy :: u32 where "sc_slice_busy = 2"
definition sc_syndrv_busy :: u32 where "sc_syndrv_busy = 1"

definition addrmsb_syndrvctrl :: nat where "addrmsb_syndrvctrl = 10"
definition cnfgadr_syndrvctrl :: nat where "cnfgadr_syndrvctrl = 8"

record synapse = ctrlmod +
  syloc :: syn_loc

definition SynapseControl_new :: "syn_loc \<Rightarrow> bus \<Rightarrow> u32 \<Rightarrow> u16 \<Rightarrow> u16 \<Rightarrow> synapse" where
  "SynapseControl_new sl c ta sa ma = \<lparr>bus = c, ctag = ta, startaddr = sa, maxaddr = ma, syloc = sl\<rparr>"

subsection \<open>Registers\<close>

definition syn_read :: "u32 \<Rightarrow> (synapse, u32) hal" where
  "syn_read commaddr = hseq (read_cmd (ucast commaddr)) (hbind get_data (\<lambda>tmp. hret (pdat tmp AND 0xffffffff)))"

definition syn_write :: "u32 \<Rightarrow> u32 \<Rightarrow> (synapse, int) hal" where
  "syn_write commaddr writedata = write_cmd (ucast commaddr) writedata"

definition syn_reset_dll :: "hicann_v \<Rightarrow> (synapse, unit) hal" where
  "syn_reset_dll v = (case v of
     HV2 \<Rightarrow> hseq (syn_write (sc_cnfgreg v) (push_bit sc_cfg_dllresetb_p 0 OR push_bit sc_cfg_predel_p 0xf
              OR push_bit sc_cfg_endel_p 0xf OR push_bit sc_cfg_oedel_p 0xf OR push_bit sc_cfg_wrdel_p 2))
            (hvoid (syn_write (sc_ctrlreg v) (push_bit sc_newcmd_p 1 OR sc_cmd_idle)))
   | HV1 \<Rightarrow> hvoid (syn_write (sc_cnfgreg v) (push_bit sc_cfg_dllresetb_p 0 OR push_bit sc_cfg_predel_p 3
              OR push_bit sc_cfg_endel_p 5)))"

definition syn_configure :: "hicann_v \<Rightarrow> (synapse, unit) hal" where
  "syn_configure v = (case v of
     HV2 \<Rightarrow> hseq (syn_write (sc_cnfgreg v) (push_bit sc_cfg_dllresetb_p 3 OR push_bit sc_cfg_predel_p 0xf
              OR push_bit sc_cfg_endel_p 0xf OR push_bit sc_cfg_oedel_p 0xf OR push_bit sc_cfg_wrdel_p 2))
            (hvoid (syn_write (sc_ctrlreg v) (push_bit sc_newcmd_p 1 OR sc_cmd_idle)))
   | HV1 \<Rightarrow> hvoid (syn_write (sc_cnfgreg v) (push_bit sc_cfg_dllresetb_p 3 OR push_bit sc_cfg_predel_p 3
              OR push_bit sc_cfg_endel_p 5)))"

definition rev_bits :: "nat \<Rightarrow> u32 \<Rightarrow> u32" where
  "rev_bits n d = fold (\<lambda>i sd. sd OR (if d AND push_bit i 1 \<noteq> 0 then push_bit (n - 1 - i) 1 else 0)) [0..<n] 0"

definition todriver :: "hicann_v \<Rightarrow> u32 \<Rightarrow> u32 \<Rightarrow> u32" where
  "todriver v d adr = (case v of
     HV2 \<Rightarrow> if adr mod 4 > 1 then push_bit 8 d else d
   | HV1 \<Rightarrow> let sd = rev_bits 8 d in if adr AND 1 = 0 then push_bit 8 sd else sd)"

text \<open>On the first chip version the result is ORed into a variable that was never initialised: its
  content \<open>junk\<close> is a parameter.\<close>

definition fromdriver :: "hicann_v \<Rightarrow> u32 \<Rightarrow> u32 \<Rightarrow> u32 \<Rightarrow> u32" where
  "fromdriver v junk sd adr = (case v of
     HV2 \<Rightarrow> (if adr mod 4 > 1 then drop_bit 8 sd else sd) AND 0xff
   | HV1 \<Rightarrow> let d = junk OR rev_bits 8 sd in if adr AND 1 = 0 then drop_bit 8 d else d)"

definition bits4 :: "bool \<Rightarrow> bool \<Rightarrow> bool \<Rightarrow> bool \<Rightarrow> u32" where
  "bits4 b0 b1 b2 b3 = of_bool b0 OR push_bit 1 (of_bool b1) OR push_bit 2 (of_bool b2) OR push_bit 3 (of_bool b3)"

definition todecoder :: "u32 \<times> u32 \<Rightarrow> u32 \<times> u32" where
  "todecoder tb = (let t = bit (fst tb AND 0xf); b = bit (snd tb AND 0xf);
       temp0 = t 0; temp1 = t 1;
       t0 = b 3; t1 = t 2; t2 = b 2; t3 = t 3;
       b3 = temp1; b2 = b 0; b0 = b 1; b1 = temp0
     in (bits4 t0 t1 t2 t3, bits4 b0 b1 b2 b3))"

definition fromdecoder :: "u32 \<times> u32 \<Rightarrow> u32 \<times> u32" where
  "fromdecoder tb = (let t = bit (fst tb AND 0xf); b = bit (snd tb AND 0xf);
       temp0 = t 0; temp1 = t 2;
       t0 = b 1; t2 = t 1; t1 = b 3; t3 = t 3;
       b1 = b 0; b0 = b 2; b2 = temp1; b3 = temp0
     in (bits4 t0 t1 t2 t3, bits4 b0 b1 b2 b3))"

definition status_bits :: "hicann_v \<Rightarrow> u32 \<Rightarrow> (synapse, bool) hal" where
  "status_bits v m = (case v of HV2 \<Rightarrow> hbind (syn_read sc_status) (\<lambda>d. hret (d AND m \<noteq> 0)) | HV1 \<Rightarrow> hret False)"

definition syn_busy :: "hicann_v \<Rightarrow> (synapse, bool) hal" where
  "syn_busy v = status_bits v (sc_slice_busy OR sc_syndrv_busy OR sc_auto_busy)"

definition autobusy :: "hicann_v \<Rightarrow> (synapse, bool) hal" where
  "autobusy v = status_bits v sc_auto_busy"

definition arraybusy :: "hicann_v \<Rightarrow> (synapse, bool) hal" where
  "arraybusy v = status_bits v sc_slice_busy"

definition driverbusy :: "hicann_v \<Rightarrow> (synapse, bool) hal" where
  "driverbusy v = status_bits v sc_syndrv_busy"

text \<open>\<open>while(arraybusy());\<close>. Every poll that returns uses up an answer of the chip, of which the
  environment lists finitely many, so the loop ends: idle, or with the exception of a read that
  nothing answers.\<close>

definition answers :: "synapse \<Rightarrow> nat" where
  "answers s = length (env (bus s)) + length (rxdata (bus s) (ctag s))"

lemma status_bits_answers:
  assumes "status_bits v m s = (Inr True, t)"
  shows "answers t < answers s"
proof (cases v)
  case HV2
  obtain d t1 where one: "syn_read sc_status s = (Inr d, t1)" and two: "hret (d AND m \<noteq> 0) t1 = (Inr True, t)"
    using assms hbind_cases [of "syn_read sc_status" "\<lambda>d. hret (d AND m \<noteq> 0)" s "Inr True" t]
    by (auto simp: status_bits_def HV2)
  have "answers t1 < answers s"
    using one
    by (auto simp: syn_read_def read_cmd_def checkAddr_def hseq_def hbind_def on_bus_def issueCommand_def
        get_data_def recvData_def answers_def Let_def split: if_splits list.splits option.splits prod.splits)
      (auto dest: arg_cong [where f = length])
  then show ?thesis using two by simp
qed (use assms in \<open>simp add: status_bits_def\<close>)

function wait_while :: "hicann_v \<Rightarrow> u32 \<Rightarrow> synapse \<Rightarrow> (hal_error + unit) \<times> synapse" where
  "wait_while v m s = (case status_bits v m s of
     (Inl e, t) \<Rightarrow> (Inl e, t)
   | (Inr b, t) \<Rightarrow> if b then wait_while v m t else (Inr (), t))"
  by pat_completeness auto
termination
  by (relation "measure (\<lambda>(v, m, s). answers s)") (auto simp: status_bits_answers)

declare wait_while.simps [simp del]

definition wait_array :: "hicann_v \<Rightarrow> (synapse, unit) hal" where
  "wait_array v = wait_while v sc_slice_busy"

definition wait_driver :: "hicann_v \<Rightarrow> (synapse, unit) hal" where
  "wait_driver v = wait_while v sc_syndrv_busy"

subsection \<open>Rows\<close>

definition hwhen_opt :: "bool \<Rightarrow> ('s, 'a) hal \<Rightarrow> 'a \<Rightarrow> ('s, 'a) hal" where
  "hwhen_opt b m d = (if b then m else hret d)"

definition write_row :: "hicann_v \<Rightarrow> u32 \<Rightarrow> u32 list \<Rightarrow> bool \<Rightarrow> (synapse, unit) hal" where
  "write_row v row d decoder =
     (if length d \<noteq> 32 then hret ()
      else if row > 223 then hret ()
      else case v of
        HV2 \<Rightarrow>
          let d = map (rev_bits 32) d in
          hfor [0..<8] (\<lambda>colset.
            hseq (hfor [0..<4] (\<lambda>i. hvoid (syn_write (sc_synin + of_nat i) (d ! (8 * i + colset)))))
            (hseq (syn_write (sc_ctrlreg v) ((if decoder then sc_cmd_wdec else sc_cmd_write)
                OR push_bit sc_adr_p row OR push_bit sc_colset_p (of_nat colset) OR push_bit sc_newcmd_p 1))
              (wait_array v)))
      | HV1 \<Rightarrow>
          hseq (hfor [0..<32] (\<lambda>w. hvoid (syn_write (sc_synw + of_nat w) (rev_bits 32 (d ! w)))))
          (hbind (syn_read (sc_ctrlreg v)) (\<lambda>c.
             let nc = \<not> (c AND push_bit sc_newcmd_p 1 \<noteq> 0) in
             hvoid (syn_write (sc_ctrlreg v) ((if decoder then sc_cmd_wdec else sc_cmd_write)
               OR push_bit sc_adr_p row OR push_bit sc_newcmd_p (of_bool nc))))))"

text \<open>\<open>read_row\<close> fills the caller's vector: the argument is its content before, the result after.\<close>

definition read_row :: "hicann_v \<Rightarrow> u32 \<Rightarrow> u32 list \<Rightarrow> bool \<Rightarrow> (synapse, u32 list) hal" where
  "read_row v row d decoder =
     (if length d \<noteq> 32 then hret d
      else if row > 223 then hret d
      else case v of
        HV2 \<Rightarrow>
          hseq (syn_write (sc_ctrlreg v) ((if decoder then sc_cmd_st_dec else sc_cmd_st_rd)
              OR push_bit sc_newcmd_p 1 OR push_bit sc_adr_p row))
          (hseq (wait_array v)
          (hbind (hmap [0..<8] (\<lambda>colset.
             hseq (syn_write (sc_ctrlreg v) ((if decoder then sc_cmd_rdec else sc_cmd_read)
                OR push_bit sc_colset_p (of_nat colset) OR push_bit sc_newcmd_p 1 OR push_bit sc_adr_p row))
             (hseq (wait_array v)
               (hmap [0..<4] (\<lambda>i. hbind (syn_read (sc_synout + of_nat i)) (\<lambda>sd. hret (rev_bits 32 sd)))))))
           (\<lambda>cols.
             hseq (syn_write (sc_ctrlreg v) (sc_cmd_close OR push_bit sc_newcmd_p 1 OR push_bit sc_adr_p row))
             (hseq (wait_array v)
               (hret (map (\<lambda>k. cols ! (k mod 8) ! (k div 8)) [0..<32]))))))
      | HV1 \<Rightarrow>
          hbind (syn_read (sc_ctrlreg v)) (\<lambda>c.
            let nc = \<not> (c AND push_bit sc_newcmd_p 1 \<noteq> 0) in
            hseq (syn_write (sc_ctrlreg v) ((if decoder then sc_cmd_rdec else sc_cmd_read)
               OR push_bit sc_adr_p row OR push_bit sc_newcmd_p (of_bool nc)))
              (hmap [0..<32] (\<lambda>i. hbind (syn_read (sc_synd + of_nat i)) (\<lambda>x. hret (rev_bits 32 x))))))"

subsection \<open>Weights\<close>

text \<open>The four bits of a column within its word.\<close>

definition nib :: "u32 \<Rightarrow> nat \<Rightarrow> u32" where
  "nib x m = drop_bit (4 * m) (x AND push_bit (4 * m) 0xf)"

definition put_nib :: "u32 \<Rightarrow> nat \<Rightarrow> u32 \<Rightarrow> u32" where
  "put_nib x m val = (x AND NOT (push_bit (4 * m) 0xf)) OR push_bit (4 * m) (val AND 0xf)"

definition zeros :: "u32 list" where "zeros = replicate 32 0"

definition write_weights :: "hicann_v \<Rightarrow> u32 \<Rightarrow> u32 list \<Rightarrow> (synapse, unit) hal" where
  "write_weights v row d = (if length d \<noteq> 32 then hret () else if row > 224 then hret () else write_row v row d False)"

definition read_weights :: "hicann_v \<Rightarrow> u32 \<Rightarrow> u32 list \<Rightarrow> (synapse, u32 list) hal" where
  "read_weights v row d = (if length d \<noteq> 32 then hret d else if row > 224 then hret d else read_row v row d False)"

definition write_weight :: "hicann_v \<Rightarrow> u32 \<Rightarrow> u32 \<Rightarrow> u32 \<Rightarrow> (synapse, unit) hal" where
  "write_weight v trow tcol val =
     (if trow < 224 \<and> tcol < 256 then
        hbind (read_row v trow zeros False) (\<lambda>d.
          let col = unat (tcol div 8); m = unat (tcol mod 8)
          in write_weights v trow (d[col := put_nib (d ! col) m val]))
      else hret ())"

definition read_weight :: "hicann_v \<Rightarrow> u32 \<Rightarrow> u32 \<Rightarrow> (synapse, u32) hal" where
  "read_weight v trow tcol =
     (if trow < 224 \<and> tcol < 256 then
        hbind (read_row v trow zeros False) (\<lambda>d. hret (nib (d ! unat (tcol div 8)) (unat (tcol mod 8))))
      else hret 0xffffffff)"

subsection \<open>Decoder values\<close>

text \<open>The two rows of a driver: whether a row is the upper one, and the row it is paired with.\<close>

definition upper_row :: "hicann_v \<Rightarrow> u32 \<Rightarrow> bool" where
  "upper_row v trow = (case v of HV2 \<Rightarrow> \<not> trow mod 2 = 0 | HV1 \<Rightarrow> \<not> (trow mod 4 = 0 \<or> trow mod 4 = 1))"

definition partner :: "hicann_v \<Rightarrow> u32 \<Rightarrow> u32" where
  "partner v trow = (case v of
     HV2 \<Rightarrow> if upper_row v trow then trow - 1 else trow + 1
   | HV1 \<Rightarrow> if upper_row v trow then trow - 2 else trow + 2)"

definition write_decoder :: "hicann_v \<Rightarrow> u32 \<Rightarrow> u32 \<Rightarrow> u32 \<Rightarrow> (synapse, unit) hal" where
  "write_decoder v trow tcol val =
     (if trow < 224 \<and> tcol < 256 then
        hbind (read_row v trow zeros True) (\<lambda>own. hbind (read_row v (partner v trow) zeros True) (\<lambda>other.
          let topflag = upper_row v trow;
              (tp, bot) = (if topflag then (own, other) else (other, own));
              col = unat (tcol div 8); m = unat (tcol mod 8);
              (ttop, tbot) = fromdecoder (nib (tp ! col) m, nib (bot ! col) m);
              (ttop, tbot) = (if topflag then (val AND 0xf, tbot) else (ttop, val AND 0xf));
              (ttop, tbot) = todecoder (ttop, tbot);
              tp = tp[col := put_nib (tp ! col) m ttop];
              bot = bot[col := put_nib (bot ! col) m tbot]
          in if topflag
             then hseq (write_row v trow tp True) (write_row v (partner v trow) bot True)
             else hseq (write_row v trow bot True) (write_row v (partner v trow) tp True)))
      else hret ())"

definition read_decoder :: "hicann_v \<Rightarrow> u32 \<Rightarrow> u32 \<Rightarrow> (synapse, u32) hal" where
  "read_decoder v trow tcol =
     (if trow < 224 \<and> tcol < 256 then
        hbind (read_row v trow zeros True) (\<lambda>own. hbind (read_row v (partner v trow) zeros True) (\<lambda>other.
          let topflag = upper_row v trow;
              (tp, bot) = (if topflag then (own, other) else (other, own));
              col = unat (tcol div 8); m = unat (tcol mod 8);
              (ttop, tbot) = fromdecoder (nib (tp ! col) m, nib (bot ! col) m)
          in hret (if topflag then ttop else tbot)))
      else hret 0xffffffff)"

text \<open>Both rows at once: the eight values of each word pair go through the permutation.\<close>

definition permute_words :: "(u32 \<times> u32 \<Rightarrow> u32 \<times> u32) \<Rightarrow> u32 \<Rightarrow> u32 \<Rightarrow> u32 \<times> u32" where
  "permute_words f t b = fold (\<lambda>i (newtop, newbot).
     let (tt, tb) = f (nib t i, nib b i)
     in (newtop OR push_bit (4 * i) tt, newbot OR push_bit (4 * i) tb)) [0..<8] (0, 0)"

definition partner_up :: "hicann_v \<Rightarrow> u32 \<Rightarrow> u32" where
  "partner_up v row = (case v of HV2 \<Rightarrow> row + 1 | HV1 \<Rightarrow> row + 2)"

definition write_decoders :: "hicann_v \<Rightarrow> u32 \<Rightarrow> u32 list \<Rightarrow> u32 list \<Rightarrow> (synapse, unit) hal" where
  "write_decoders v bot_row data_bot data_top =
     (if length data_bot \<noteq> 32 \<or> length data_top \<noteq> 32 then hret ()
      else if bot_row > 222 then hret ()
      else
        let pairs = map (\<lambda>x. permute_words todecoder (data_top ! x) (data_bot ! x)) [0..<32] in
        hseq (write_row v bot_row (map snd pairs) True)
             (write_row v (partner_up v bot_row) (map fst pairs) True))"

definition read_decoders :: "hicann_v \<Rightarrow> u32 \<Rightarrow> u32 list \<Rightarrow> u32 list \<Rightarrow> (synapse, u32 list \<times> u32 list) hal" where
  "read_decoders v bot_row data_bot data_top =
     (if length data_bot \<noteq> 32 \<or> length data_top \<noteq> 32 then hret (data_bot, data_top)
      else if bot_row > 222 then hret (data_bot, data_top)
      else
        hbind (read_row v bot_row data_bot True) (\<lambda>bot.
        hbind (read_row v (partner_up v bot_row) data_top True) (\<lambda>tp.
          let pairs = map (\<lambda>x. permute_words fromdecoder (tp ! x) (bot ! x)) [0..<32]
          in hret (map snd pairs, map fst pairs))))"

subsection \<open>Drivers\<close>

text \<open>The words of the two rows of a driver, at the driver's address and its partner's.\<close>

definition write_pair_at :: "hicann_v \<Rightarrow> u32 \<Rightarrow> u32 \<Rightarrow> u32 \<Rightarrow> u32 \<Rightarrow> (synapse, unit) hal" where
  "write_pair_at v base drv_nr bottom upper =
     hseq (syn_write (base + drv_nr) (todriver v bottom drv_nr))
       (hvoid (syn_write (base + partner_up v drv_nr) (todriver v upper (partner_up v drv_nr))))"

definition flag :: "bool \<Rightarrow> u32 \<Rightarrow> u32" where
  "flag b m = (if b then m else 0)"

definition drv_config :: "hicann_v \<Rightarrow> u32 \<Rightarrow> bool \<Rightarrow> bool \<Rightarrow> bool \<Rightarrow> bool \<Rightarrow> bool \<Rightarrow> bool \<Rightarrow> bool \<Rightarrow>
    (synapse, unit) hal" where
  "drv_config v drv_nr top_ex top_in bot_ex bot_in en loc_input top_input =
     (let upper = flag top_ex sc_senx OR flag top_in sc_seni;
          bottom = flag bot_ex sc_senx OR flag bot_in sc_seni OR flag en sc_cbot_en
            OR flag loc_input sc_cbot_locin OR flag top_input sc_cbot_topin
      in write_pair_at v sc_encfg drv_nr bottom upper)"

definition drv_config_stdf :: "hicann_v \<Rightarrow> u32 \<Rightarrow> bool \<Rightarrow> bool \<Rightarrow> bool \<Rightarrow> bool \<Rightarrow> bool \<Rightarrow> bool \<Rightarrow> bool \<Rightarrow> bool \<Rightarrow>
    bool \<Rightarrow> u32 \<Rightarrow> u32 \<Rightarrow> u32 \<Rightarrow> (synapse, unit) hal" where
  "drv_config_stdf v drv_nr top_ex top_in bot_ex bot_in en loc_input top_input stdf_enable dep top_selgm bot_selgm cap =
     (let cap = cap AND 7; bot_selgm = bot_selgm AND 3; top_selgm = top_selgm AND 3;
          upper = flag top_ex sc_senx OR flag top_in sc_seni OR flag dep sc_ctop_dep
            OR push_bit 2 top_selgm OR push_bit 4 cap;
          bottom = flag bot_ex sc_senx OR flag bot_in sc_seni OR flag en sc_cbot_en OR flag stdf_enable sc_cbot_enstdf
            OR flag loc_input sc_cbot_locin OR flag top_input sc_cbot_topin OR push_bit 2 bot_selgm
      in write_pair_at v sc_encfg drv_nr bottom upper)"

text \<open>Values out of range are only reported; the operation goes on.\<close>

definition drv_set_gmax :: "hicann_v \<Rightarrow> u32 \<Rightarrow> u32 \<Rightarrow> u32 \<Rightarrow> u32 \<Rightarrow> u32 \<Rightarrow> (synapse, unit) hal" where
  "drv_set_gmax v drv_nr selbot seltop fracbot fractop =
     (let fracbot = fracbot OR push_bit 4 fracbot; fractop = fractop OR push_bit 4 fractop;
          selbot = push_bit 2 selbot; seltop = push_bit 2 seltop;
          rest = (\<lambda>cfgbot cfgtop.
            hseq (write_pair_at v sc_encfg drv_nr ((cfgbot AND 0xf3) OR selbot) ((cfgtop AND 0xf3) OR seltop))
              (write_pair_at v sc_engmax drv_nr fracbot fractop))
      in case v of
        HV2 \<Rightarrow>
          hseq (syn_read (sc_encfg + drv_nr))
          (hbind (syn_read (sc_encfg + drv_nr)) (\<lambda>db.
          hseq (syn_read (sc_encfg + drv_nr + 1))
          (hbind (syn_read (sc_encfg + drv_nr)) (\<lambda>dt.
            rest (fromdriver v 0 db (sc_encfg + drv_nr)) (fromdriver v 0 dt (sc_encfg + drv_nr + 1))))))
      | HV1 \<Rightarrow>
          hbind (syn_read (sc_encfg + drv_nr)) (\<lambda>cfgbot.
          hbind (syn_read (sc_encfg + drv_nr + 2)) (\<lambda>cfgtop. rest cfgbot cfgtop)))"

text \<open>These two address the upper row as the second chip version does, on both versions.\<close>

definition gmax_frac_set :: "hicann_v \<Rightarrow> u32 \<Rightarrow> u32 \<Rightarrow> u32 \<Rightarrow> (synapse, unit) hal" where
  "gmax_frac_set v drv_nr fracbot fractop =
     (let fracbot = fracbot OR push_bit 4 fracbot; fractop = fractop OR push_bit 4 fractop in
      hseq (syn_write (sc_engmax + drv_nr) (todriver v fracbot drv_nr))
        (hvoid (syn_write (sc_engmax + drv_nr + 1) (todriver v fractop (drv_nr + 1)))))"

definition gmax_frac_set4 :: "hicann_v \<Rightarrow> u32 \<Rightarrow> u32 \<Rightarrow> u32 \<Rightarrow> u32 \<Rightarrow> u32 \<Rightarrow> (synapse, unit) hal" where
  "gmax_frac_set4 v drv_nr fracbotexc fracbotinh fractopexc fractopinh =
     (let fracbot = (fracbotexc OR push_bit 4 fracbotinh) AND 0xff;
          fractop = (fractopexc OR push_bit 4 fractopinh) AND 0xff in
      hseq (syn_write (sc_engmax + drv_nr) (todriver v fracbot drv_nr))
        (hvoid (syn_write (sc_engmax + drv_nr + 1) (todriver v fractop (drv_nr + 1)))))"

definition drv_set_pdrv :: "hicann_v \<Rightarrow> u32 \<Rightarrow> u32 \<Rightarrow> u32 \<Rightarrow> (synapse, unit) hal" where
  "drv_set_pdrv v drv_nr pdrvbot pdrvtop = write_pair_at v sc_endrv drv_nr pdrvbot pdrvtop"

definition preout_words :: "u32 \<Rightarrow> u32 \<Rightarrow> u32 \<Rightarrow> u32 \<Rightarrow> u32 \<times> u32" where
  "preout_words pout0 pout1 pout2 pout3 =
     (let p0 = (pout0 AND 1) OR push_bit 1 (pout0 AND 2);
          p1 = push_bit 3 (pout1 AND 1) OR (pout1 AND 2);
          p2 = (pout2 AND 1) OR push_bit 1 (pout2 AND 2);
          p3 = push_bit 3 (pout3 AND 1) OR (pout3 AND 2)
      in (push_bit 4 p2 OR p0, push_bit 4 p3 OR p1))"

definition preout_set :: "hicann_v \<Rightarrow> u32 \<Rightarrow> u32 \<Rightarrow> u32 \<Rightarrow> u32 \<Rightarrow> u32 \<Rightarrow> (synapse, unit) hal" where
  "preout_set v drv_nr pout0 pout1 pout2 pout3 =
     (if pout0 > 3 \<or> pout1 > 3 \<or> pout2 > 3 \<or> pout3 > 3 then hret ()
      else if drv_nr > 224 then hret ()
      else let (bottom, upper) = preout_words pout0 pout1 pout2 pout3
           in drv_set_pdrv v drv_nr bottom upper)"

text \<open>The six values read back on the second chip version; the first leaves the caller's variables
  alone (\<open>None\<close>).\<close>

definition read_twice :: "hicann_v \<Rightarrow> u32 \<Rightarrow> u32 \<Rightarrow> (synapse, u32) hal" where
  "read_twice v dummy a = hseq (syn_read dummy) (hbind (syn_read a) (\<lambda>d. hret (fromdriver v 0 d a)))"

definition read_driver :: "hicann_v \<Rightarrow> u32 \<Rightarrow> (synapse, u32 list option) hal" where
  "read_driver v addr = (case v of
     HV2 \<Rightarrow>
       hbind (read_twice v (sc_encfg + addr) (sc_encfg + addr)) (\<lambda>cfgbot.
       hbind (read_twice v (sc_endrv + addr) (sc_endrv + addr)) (\<lambda>pdrvbot.
       hbind (read_twice v (sc_engmax + addr) (sc_endrv + addr)) (\<lambda>gmaxbot.
       hbind (read_twice v (sc_encfg + addr + 1) (sc_encfg + addr + 1)) (\<lambda>cfgtop.
       hbind (read_twice v (sc_endrv + addr + 1) (sc_endrv + addr + 1)) (\<lambda>pdrvtop.
       hbind (read_twice v (sc_engmax + addr + 1) (sc_endrv + addr + 1)) (\<lambda>gmaxtop.
         hret (Some [cfgbot, pdrvbot, gmaxbot, cfgtop, pdrvtop, gmaxtop])))))))
   | HV1 \<Rightarrow> hret None)"

subsection \<open>Resets and timings\<close>

definition reset_drivers :: "hicann_v \<Rightarrow> (synapse, unit) hal" where
  "reset_drivers v = hseq (wait_driver v) (hfor [0..<224] (\<lambda>r.
     hseq (syn_write (sc_encfg + of_nat r) (todriver v 0 (sc_encfg + of_nat r)))
     (hseq (wait_driver v)
     (hseq (syn_write (sc_endrv + of_nat r) (todriver v 0 (sc_endrv + of_nat r)))
     (hseq (wait_driver v)
     (hseq (syn_write (sc_engmax + of_nat r) (todriver v 0 (sc_engmax + of_nat r)))
       (wait_driver v)))))))"

definition reset_weights :: "hicann_v \<Rightarrow> (synapse, unit) hal" where
  "reset_weights v = hseq (wait_array v) (hfor [0..<224] (\<lambda>r. write_weights v (of_nat r) zeros))"

definition reset_decoders :: "hicann_v \<Rightarrow> (synapse, unit) hal" where
  "reset_decoders v = hseq (wait_array v) (hfor [0..<224] (\<lambda>r.
     hwhen (case v of HV2 \<Rightarrow> r mod 4 = 0 \<or> r mod 4 = 2 | HV1 \<Rightarrow> r mod 4 = 0 \<or> r mod 4 = 1)
       (write_decoders v (of_nat r) zeros zeros)))"

definition reset_all :: "hicann_v \<Rightarrow> (synapse, unit) hal" where
  "reset_all v = hseq (reset_weights v) (hseq (reset_decoders v) (reset_drivers v))"

definition syn_timing_base :: u32 where
  "syn_timing_base = push_bit addrmsb_syndrvctrl 1 + push_bit cnfgadr_syndrvctrl 1"

definition syn_set_sram_timings :: "hicann_v \<Rightarrow> u32 \<Rightarrow> u32 \<Rightarrow> u32 \<Rightarrow> (synapse, unit) hal" where
  "syn_set_sram_timings v read_delay setup_precharge write_delay =
     (if read_delay \<ge> push_bit 8 1 then hthrow Runtime_error
      else if setup_precharge \<ge> push_bit 4 1 then hthrow Runtime_error
      else if write_delay \<ge> push_bit 4 1 then hthrow Runtime_error
      else hseq (wait_driver v)
        (hseq (syn_write syn_timing_base (read_delay AND 0xff))
        (hvoid (syn_write (syn_timing_base + 1)
           (push_bit 4 (setup_precharge AND 0xf) + (write_delay AND 0xf))))))"

definition syn_get_sram_timings :: "(synapse, u32 \<times> u32 \<times> u32) hal" where
  "syn_get_sram_timings =
     hseq (syn_read syn_timing_base) (hbind (syn_read syn_timing_base) (\<lambda>d0.
     hseq (syn_read (syn_timing_base + 1)) (hbind (syn_read (syn_timing_base + 1)) (\<lambda>d1.
       hret (d0 AND 0xff, drop_bit 4 d1 AND 0xf, d1 AND 0xf)))))"

subsection \<open>The decoder permutations\<close>

lemma bits4_small: "bit (bits4 b0 b1 b2 b3) n \<longleftrightarrow>
    n = 0 \<and> b0 \<or> n = 1 \<and> b1 \<or> n = 2 \<and> b2 \<or> n = 3 \<and> b3"
  unfolding bits4_def bit_or_iff bit_push_bit_iff bit_of_bool_iff by auto

lemma bit_0xf: "bit (0xf :: u32) k \<longleftrightarrow> k < 4"
proof -
  have "(0xf :: u32) = mask 4" by (simp add: mask_eq_exp_minus_1)
  then have "bit (0xf :: u32) k \<longleftrightarrow> k < 32 \<and> k < 4" by (simp only: bit_mask_iff) simp
  then show ?thesis by auto
qed

lemma bits4_id: "bits4 (bit x 0) (bit x 1) (bit x 2) (bit x 3) = x AND 0xf"
proof (rule bit_eqI)
  fix n show "bit (bits4 (bit x 0) (bit x 1) (bit x 2) (bit x 3)) n = bit (x AND 0xf) n"
    by (simp only: bits4_small bit_and_iff bit_0xf) (auto simp: less_Suc_eq numeral_eq_Suc)
qed

lemma decoder_inverse:
  "fromdecoder (todecoder (t, b)) = (t AND 0xf, b AND 0xf)" (is ?A)
  "todecoder (fromdecoder (t, b)) = (t AND 0xf, b AND 0xf)" (is ?B)
proof -
  have b: "bit (bits4 b0 b1 b2 b3 AND 0xf) k = (k = 0 \<and> b0 \<or> k = 1 \<and> b1 \<or> k = 2 \<and> b2 \<or> k = 3 \<and> b3)" for b0 b1 b2 b3 k
    by (simp only: bit_and_iff bits4_small bit_0xf) auto
  have m: "bit (x AND 0xf) 0 = bit x 0" "bit (x AND 0xf) 1 = bit x 1" "bit (x AND 0xf) 2 = bit x 2"
      "bit (x AND 0xf) 3 = bit x 3" for x :: u32
    by (simp_all only: bit_and_iff bit_0xf) simp_all
  show ?A ?B
    by (simp_all only: todecoder_def fromdecoder_def Let_def fst_conv snd_conv b m) (simp_all add: bits4_small bits4_id [symmetric])
qed

lemma nibble_mask: "x < 16 \<Longrightarrow> x AND 0xf = (x :: u32)"
proof -
  assume "x < 16"
  then have "take_bit 4 x = x"
    by (simp add: word_unat_eq_iff unsigned_take_bit_eq take_bit_nat_eq_self word_less_nat_alt)
  then show ?thesis by (simp add: take_bit_eq_mask mask_eq_exp_minus_1)
qed

text \<open>The permutation of the two rows' decoder bits and its inverse undo each other, in both
  directions, on four-bit values.\<close>

theorem decoder_roundtrip:
  "t < 16 \<and> b < 16 \<longrightarrow> fromdecoder (todecoder (t, b)) = (t, b) \<and> todecoder (fromdecoder (t, b)) = (t, b)"
proof
  assume "t < 16 \<and> b < 16"
  then have "t AND 0xf = t" "b AND 0xf = b" by (simp_all add: nibble_mask)
  then show "fromdecoder (todecoder (t, b)) = (t, b) \<and> todecoder (fromdecoder (t, b)) = (t, b)"
    by (simp add: decoder_inverse)
qed

theorem decoder_roundtrip_witness:
  "fromdecoder (todecoder (11, 6)) = (11, 6) \<and> todecoder (11, 6) \<noteq> (11, 6)"
proof -
  have "todecoder (11, 6) \<noteq> (11, 6)" by code_simp
  then show ?thesis using decoder_roundtrip [of 11 6] by simp
qed

subsection \<open>One decoder value\<close>

lemma bit_nib: "bit (nib x m) n \<longleftrightarrow> n < 4 \<and> bit x (4 * m + n)"
proof -
  have "bit (nib x m) n \<longleftrightarrow> bit x (4 * m + n) \<and> 4 * m + n < 32 \<and> n < 4"
    unfolding nib_def bit_drop_bit_eq o_def bit_and_iff bit_push_bit_iff bit_0xf by auto
  then show ?thesis using bit_imp_le_length [of x "4 * m + n"] by auto
qed

lemma bit_put_nib: "bit (put_nib x m v) n \<longleftrightarrow>
    (if 4 * m \<le> n \<and> n < 4 * m + 4 then n < 32 \<and> bit v (n - 4 * m) else bit x n)"
  unfolding put_nib_def bit_or_iff bit_and_iff bit_not_iff bit_push_bit_iff bit_0xf
  by (auto dest: bit_imp_le_length)

lemma nib_put: "m < 8 \<Longrightarrow> k < 8 \<Longrightarrow> nib (put_nib x m v) k = (if k = m then v AND 0xf else nib x k)"
proof (rule bit_eqI)
  fix n assume "m < 8" "k < 8"
  have "4 * m \<le> 4 * k + n \<and> 4 * k + n < 4 * m + 4 \<longleftrightarrow> k = m" if "n < 4" using that by arith
  then show "bit (nib (put_nib x m v) k) n = bit (if k = m then v AND 0xf else nib x k) n"
    unfolding if_distrib [of "\<lambda>w. bit w n"] bit_nib bit_put_nib bit_and_iff bit_0xf
    using \<open>k < 8\<close> by (cases "k = m") auto
qed

text \<open>The value of a column in a row.\<close>

definition val_at :: "u32 list \<Rightarrow> nat \<Rightarrow> u32" where
  "val_at d c = nib (d ! (c div 8)) (c mod 8)"

lemma val_at_put:
  assumes "length d = 32" and "c < 256" and "c' < 256"
  shows "val_at (d[c div 8 := put_nib (d ! (c div 8)) (c mod 8) v]) c' = (if c' = c then v AND 0xf else val_at d c')"
proof (cases "c' div 8 = c div 8")
  case True
  have "c' = c \<longleftrightarrow> c' mod 8 = c mod 8"
    using True by (metis div_mult_mod_eq)
  then show ?thesis using True assms by (simp add: val_at_def nib_put)
next
  case False
  then show ?thesis using assms by (auto simp: val_at_def)
qed

lemma hmap_length: "hmap xs f s = (Inr ys, t) \<Longrightarrow> length ys = length xs"
proof (induction xs arbitrary: s ys t)
  case (Cons x xs)
  obtain y s1 where one: "hbind (hmap xs f) (\<lambda>ys. hret (y # ys)) s1 = (Inr ys, t)"
    using Cons.prems by (auto elim: hbind_cases)
  then obtain zs where "hmap xs f s1 = (Inr zs, t)" "ys = y # zs"
    by (auto elim: hbind_cases)
  then show ?case using Cons.IH by simp
qed simp

lemma hret_returns [simp]: "hret x s = (Inr y, t) \<longleftrightarrow> x = y \<and> s = t"
  by auto

lemma read_row_length: "read_row v row d decoder s = (Inr d', t) \<Longrightarrow> length d = 32 \<Longrightarrow> length d' = 32"
proof (cases "row > 223")
  case False
  assume r: "read_row v row d decoder s = (Inr d', t)" and l: "length d = 32"
  show "length d' = 32"
  proof (cases v)
    case HV2
    then show ?thesis using r l False
      by (simp add: read_row_def hseq_def) (auto elim!: hbind_cases)
  next
    case HV1
    then show ?thesis using r l False
      by (simp add: read_row_def hseq_def Let_def) (auto elim!: hbind_cases dest: hmap_length)
  qed
qed (auto simp: read_row_def)

text \<open>The pair of decoder values that two stored rows stand for, in a column.\<close>

definition decoded :: "hicann_v \<Rightarrow> u32 \<Rightarrow> u32 list \<Rightarrow> u32 list \<Rightarrow> nat \<Rightarrow> u32 \<times> u32" where
  "decoded v trow own other c = fromdecoder
     (if upper_row v trow then (val_at own c, val_at other c) else (val_at other c, val_at own c))"

lemma and_15_idem: "(x AND 0xf) AND 0xf = (x AND 0xf :: u32)"
  by (simp add: and.assoc)

lemma todecoder_masked: "todecoder tb = (fst (todecoder tb) AND 0xf, snd (todecoder tb) AND 0xf)"
proof -
  have "bits4 a b c d AND 0xf = bits4 a b c d" for a b c d
    by (rule bit_eqI) (auto simp: bit_and_iff bit_0xf bits4_small)
  then show ?thesis by (simp add: todecoder_def Let_def)
qed

lemma fromdecoder_masked: "fst (fromdecoder tb) AND 0xf = fst (fromdecoder tb)"
    "snd (fromdecoder tb) AND 0xf = snd (fromdecoder tb)"
proof -
  have "bits4 a b c d AND 0xf = bits4 a b c d" for a b c d
    by (rule bit_eqI) (auto simp: bit_and_iff bit_0xf bits4_small)
  then show "fst (fromdecoder tb) AND 0xf = fst (fromdecoder tb)" "snd (fromdecoder tb) AND 0xf = snd (fromdecoder tb)"
    by (simp_all add: fromdecoder_def Let_def)
qed

text \<open>Claim C14: write\_decoder reads the two rows of a driver and writes both back with the one value
  set: read through the inverse permutation, the pair of values in the addressed column has the
  new value in the addressed row and the old one in the other, and every other column of both rows
  is as before.\<close>

theorem write_decoder_one:
  assumes "read_row v trow zeros True s = (Inr own, s1)"
    and "read_row v (partner v trow) zeros True s1 = (Inr other, s2)"
    and "trow < 224" and "tcol < 256"
  shows "\<exists>own' other'. write_decoder v trow tcol val s =
      hseq (write_row v trow own' True) (write_row v (partner v trow) other' True) s2 \<and>
    length own' = 32 \<and> length other' = 32 \<and>
    (\<forall>c<256. decoded v trow own' other' c =
      (if c = unat tcol
       then if upper_row v trow then (val AND 0xf, snd (decoded v trow own other c))
            else (fst (decoded v trow own other c), val AND 0xf)
       else decoded v trow own other c))"
proof -
  let ?c = "unat tcol"
  have len: "length own = 32" "length other = 32"
    using read_row_length [OF assms(1)] read_row_length [OF assms(2)] by (simp_all add: zeros_def)
  have c: "?c < 256" using assms(4) by (simp add: word_less_nat_alt)
  have cm: "unat (tcol div 8) = ?c div 8" "unat (tcol mod 8) = ?c mod 8"
    by (simp_all add: unat_div unat_mod)
  define new where "new = (if upper_row v trow then (val AND 0xf, snd (decoded v trow own other ?c))
            else (fst (decoded v trow own other ?c), val AND 0xf))"
  define enc where "enc = todecoder new"
  define put where "put = (\<lambda>d x. d[?c div 8 := put_nib (d ! (?c div 8)) (?c mod 8) x])"
  define own' where "own' = put own (if upper_row v trow then fst enc else snd enc)"
  define other' where "other' = put other (if upper_row v trow then snd enc else fst enc)"
  have w: "write_decoder v trow tcol val s = hseq (write_row v trow own' True) (write_row v (partner v trow) other' True) s2"
    unfolding write_decoder_def Let_def cm
    using assms
    by (simp add: hbind_Inr own'_def other'_def put_def enc_def new_def decoded_def val_at_def split_beta)
  have dec: "decoded v trow own' other' x = (if x = ?c then new else decoded v trow own other x)" if x: "x < 256" for x
  proof -
    have v: "val_at (put d y) x = (if x = ?c then y AND 0xf else val_at d x)" if "length d = 32" for d y
      unfolding put_def by (rule val_at_put [OF that c x])
    have m: "(fst new AND 0xf, snd new AND 0xf) = new"
      by (simp add: new_def decoded_def fromdecoder_masked and_15_idem)
    show ?thesis
    proof (cases "x = ?c")
      case True
      have "decoded v trow own' other' x = fromdecoder (fst enc AND 0xf, snd enc AND 0xf)"
        unfolding decoded_def own'_def other'_def v [OF len(1)] v [OF len(2)] using True by simp
      also have "\<dots> = fromdecoder (todecoder new)"
        unfolding enc_def using todecoder_masked [of new] by simp
      also have "\<dots> = new"
        using decoder_inverse(1) [of "fst new" "snd new"] m by simp
      finally show ?thesis using True by simp
    next
      case False
      then show ?thesis
        unfolding decoded_def own'_def other'_def v [OF len(1)] v [OF len(2)] by simp
    qed
  qed
  have "length own' = 32" "length other' = 32" by (simp_all add: own'_def other'_def put_def len)
  then show ?thesis
    using w dec unfolding new_def by (intro exI [of _ own'] exI [of _ other']) simp
qed

subsection \<open>Where the upper configuration comes from\<close>

text \<open>The state after a read that the chip answered at once.\<close>

definition read_command :: "synapse \<Rightarrow> u32 \<Rightarrow> u32 \<times> ci_payload" where
  "read_command s a = (ctag s, \<lparr>pwrite = 0, paddr = ucast a + startaddr s, pdat = push_bit 31 1\<rparr>)"

definition ask :: "u32 \<Rightarrow> synapse \<Rightarrow> synapse" where
  "ask a s = s\<lparr>bus := (bus s)\<lparr>env := tl (env (bus s)),
     issued := issued (bus s) @ [read_command s a]\<rparr>\<rparr>"

lemma syn_read_answered:
  assumes "env (bus s) = (True, Some p) # es" and "rxdata (bus s) (ctag s) = []" and "ucast a \<le> maxaddr s"
  shows "syn_read a s = (Inr (pdat p), ask a s)"
proof -
  have "(rxdata (bus s))(ctag s := []) = rxdata (bus s)" using assms(2) by auto
  moreover have "d AND 0xffffffff = d" for d :: u32
  proof -
    have "(0xffffffff :: u32) = mask 32" by (simp add: mask_eq_exp_minus_1)
    then show ?thesis by (simp only: take_bit_eq_mask [symmetric]) (simp add: take_bit_word_eq_self)
  qed
  ultimately show ?thesis
    using assms
    by (simp add: syn_read_def read_cmd_def checkAddr_def hseq_def hbind_def on_bus_def issueCommand_def
        get_data_def recvData_def ask_def read_command_def)
qed

lemma emits_write_pair_at:
  "emits [(ucast (base + n), todriver v bottom n),
      (ucast (base + partner_up v n), todriver v upper (partner_up v n))] (write_pair_at v base n bottom upper)"
  using emits_hseq [OF emits_write emits_void_write, of "ucast (base + n)" "todriver v bottom n"
      "ucast (base + partner_up v n)" "todriver v upper (partner_up v n)"]
  by (simp add: write_pair_at_def syn_write_def)

definition answer :: "u32 \<Rightarrow> bool \<times> ci_payload option" where
  "answer d = (True, Some \<lparr>pwrite = 0, paddr = 0, pdat = d\<rparr>)"

definition gmax_writes :: "u32 \<Rightarrow> u32 \<Rightarrow> u32 \<Rightarrow> u32 \<Rightarrow> u32 \<Rightarrow> u32 \<Rightarrow> u32 \<Rightarrow> (u16 \<times> u32) list" where
  "gmax_writes n selbot seltop fracbot fractop db dt =
     [(ucast (sc_encfg + n), todriver HV2 ((fromdriver HV2 0 db (sc_encfg + n) AND 0xf3) OR push_bit 2 selbot) n),
      (ucast (sc_encfg + (n + 1)),
         todriver HV2 ((fromdriver HV2 0 dt (sc_encfg + n + 1) AND 0xf3) OR push_bit 2 seltop) (n + 1)),
      (ucast (sc_engmax + n), todriver HV2 (fracbot OR push_bit 4 fracbot) n),
      (ucast (sc_engmax + (n + 1)), todriver HV2 (fractop OR push_bit 4 fractop) (n + 1))]"

lemma driver_addr: "n < 224 \<Longrightarrow> b \<in> {sc_encfg, sc_engmax} \<Longrightarrow> (ucast (b + n) :: u16) \<le> 0x7fff"
  "n < 224 \<Longrightarrow> b \<in> {sc_encfg, sc_engmax} \<Longrightarrow> (ucast (b + (n + 1)) :: u16) \<le> 0x7fff"
proof -
  assume n: "n < 224" and b: "b \<in> {sc_encfg, sc_engmax}"
  have u: "unat n < 224" using n by (simp add: word_less_nat_alt)
  have ub: "unat b = 0 \<or> unat b = 512" using b by (auto simp: sc_encfg_def sc_engmax_def)
  have n1: "unat (n + 1) = unat n + 1" using u by (simp add: unat_word_ariths)
  have s: "unat (b + n) = unat b + unat n" "unat (b + (n + 1)) = unat b + (unat n + 1)"
    using u ub n1 by (auto simp: unat_word_ariths)
  show "(ucast (b + n) :: u16) \<le> 0x7fff" "(ucast (b + (n + 1)) :: u16) \<le> 0x7fff"
    unfolding word_le_nat_alt unsigned_ucast_eq s using u ub by (auto simp: take_bit_nat_eq_self)
qed

text \<open>On the second chip version drv\_set\_gmax takes the configuration of both rows of a driver
  from the answer to a read of the lower row: the address of the upper one is only read as the
  dummy cycle. Setting the gmax select bits therefore replaces the upper row's configuration by the
  lower row's.\<close>

theorem gmax_upper_from_lower:
  assumes "env (bus s) = map answer [d0, d1, d2, d3]" and "rxdata (bus s) (ctag s) = []"
    and "n < 224" and "0x7fff \<le> maxaddr s"
  shows "\<exists>b. drv_set_gmax HV2 n selbot seltop fracbot fractop s = (Inr (), s\<lparr>bus := b\<rparr>) \<and>
    issued b = issued (bus s) @ map (read_command s) [sc_encfg + n, sc_encfg + n, sc_encfg + n + 1, sc_encfg + n]
      @ cmds s (gmax_writes n selbot seltop fracbot fractop d1 d3)"
proof -
  have range: "(ucast (sc_encfg + n) :: u16) \<le> maxaddr s" "(ucast (sc_encfg + n + 1) :: u16) \<le> maxaddr s"
      "(ucast (sc_engmax + n) :: u16) \<le> maxaddr s" "(ucast (sc_engmax + (n + 1)) :: u16) \<le> maxaddr s"
    using driver_addr [OF assms(3)] order_trans [OF _ assms(4)] by (simp_all add: add.assoc)
  let ?s1 = "ask (sc_encfg + n) s"
  let ?s2 = "ask (sc_encfg + n) ?s1"
  let ?s3 = "ask (sc_encfg + n + 1) ?s2"
  let ?s4 = "ask (sc_encfg + n) ?s3"
  have keep: "ctag (ask a u) = ctag u" "maxaddr (ask a u) = maxaddr u" "rxdata (bus (ask a u)) = rxdata (bus u)"
      "env (bus (ask a u)) = tl (env (bus u))" "startaddr (ask a u) = startaddr u" for a u
    by (simp_all add: ask_def)
  have r: "syn_read (sc_encfg + n) s = (Inr d0, ?s1)" "syn_read (sc_encfg + n) ?s1 = (Inr d1, ?s2)"
      "syn_read (sc_encfg + n + 1) ?s2 = (Inr d2, ?s3)" "syn_read (sc_encfg + n) ?s3 = (Inr d3, ?s4)"
    using syn_read_answered [of s "\<lparr>pwrite = 0, paddr = 0, pdat = d0\<rparr>" "map answer [d1, d2, d3]" "sc_encfg + n"]
      syn_read_answered [of ?s1 "\<lparr>pwrite = 0, paddr = 0, pdat = d1\<rparr>" "map answer [d2, d3]" "sc_encfg + n"]
      syn_read_answered [of ?s2 "\<lparr>pwrite = 0, paddr = 0, pdat = d2\<rparr>" "map answer [d3]" "sc_encfg + n + 1"]
      syn_read_answered [of ?s3 "\<lparr>pwrite = 0, paddr = 0, pdat = d3\<rparr>" "[]" "sc_encfg + n"] range assms(1,2)
    by (simp_all add: keep answer_def)
  let ?cb = "fromdriver HV2 0 d1 (sc_encfg + n)" and ?ct = "fromdriver HV2 0 d3 (sc_encfg + n + 1)"
  let ?rest = "hseq (write_pair_at HV2 sc_encfg n ((?cb AND 0xf3) OR push_bit 2 selbot) ((?ct AND 0xf3) OR push_bit 2 seltop))
              (write_pair_at HV2 sc_engmax n (fracbot OR push_bit 4 fracbot) (fractop OR push_bit 4 fractop))"
  have e: "emits (gmax_writes n selbot seltop fracbot fractop d1 d3) ?rest"
    using emits_hseq [OF emits_write_pair_at emits_write_pair_at, of sc_encfg n HV2
        "(?cb AND 0xf3) OR push_bit 2 selbot" "(?ct AND 0xf3) OR push_bit 2 seltop" sc_engmax n HV2
        "fracbot OR push_bit 4 fracbot" "fractop OR push_bit 4 fractop"]
    by (simp add: gmax_writes_def partner_up_def)
  have "env (bus ?s4) = []" using assms(1) by (simp add: keep)
  moreover have "\<forall>w\<in>set (gmax_writes n selbot seltop fracbot fractop d1 d3). fst w \<le> maxaddr ?s4"
    using range by (simp add: gmax_writes_def keep add.assoc)
  ultimately obtain x b where b: "?rest ?s4 = (Inr x, ?s4\<lparr>bus := b\<rparr>)"
      "issued b = issued (bus ?s4) @ cmds ?s4 (gmax_writes n selbot seltop fracbot fractop d1 d3)"
    by (rule emits_accepted [OF e])
  have "drv_set_gmax HV2 n selbot seltop fracbot fractop s = ?rest ?s4"
    unfolding drv_set_gmax_def Let_def hicann_v.case
    unfolding hseq_def [of "syn_read a" for a] hbind_def [of "syn_read a" for a] by (simp only: r prod.case sum.case)
  moreover have "?s4\<lparr>bus := b\<rparr> = s\<lparr>bus := b\<rparr>" by (simp add: ask_def)
  moreover have "issued b = issued (bus s) @ map (read_command s) [sc_encfg + n, sc_encfg + n, sc_encfg + n + 1, sc_encfg + n]
      @ cmds s (gmax_writes n selbot seltop fracbot fractop d1 d3)"
    unfolding b(2) by (simp add: ask_def read_command_def cmds_def)
  ultimately show ?thesis using b(1) by (intro exI [of _ b]) simp
qed

definition demo_synapse :: "(bool \<times> ci_payload option) list \<Rightarrow> synapse" where
  "demo_synapse es = SynapseControl_new DSCT \<lparr>issued = [], rxdata = (\<lambda>_. []), env = es\<rparr> 1
     (astart OcpStdpCtrl_t) (amax OcpStdpCtrl_t)"

text \<open>A driver whose lower row is configured as 0x41 and whose upper row as 0x82 has 0x41 in both
  afterwards.\<close>

theorem gmax_upper_from_lower_witness:
  "\<exists>b. drv_set_gmax HV2 4 0 0 1 1 (demo_synapse (map answer [0x41, 0x41, 0x82, 0x41])) =
      (Inr (), (demo_synapse (map answer [0x41, 0x41, 0x82, 0x41]))\<lparr>bus := b\<rparr>) \<and>
    (1, \<lparr>pwrite = 1, paddr = 5, pdat = 0x41\<rparr>) \<in> set (issued b)"
proof -
  let ?s = "demo_synapse (map answer [0x41, 0x41, 0x82, 0x41])"
  have p: "env (bus ?s) = map answer [0x41, 0x41, 0x82, 0x41]" "rxdata (bus ?s) (ctag ?s) = []"
      "0x7fff \<le> maxaddr ?s" "ctag ?s = 1" "startaddr ?s = 0"
    by (simp_all add: demo_synapse_def SynapseControl_new_def OcpStdpCtrl_t_def)
  have w: "gmax_writes 4 0 0 1 1 0x41 0x41 ! 1 = (5, 0x41)" "length (gmax_writes 4 0 0 1 1 0x41 0x41) = 4"
    by code_simp+
  then have "(5, 0x41) \<in> set (gmax_writes 4 0 0 1 1 0x41 0x41)"
    by (metis nth_mem one_less_numeral_iff semiring_norm(76))
  then have "(1, \<lparr>pwrite = 1, paddr = 5, pdat = 0x41\<rparr>) \<in> set (cmds ?s (gmax_writes 4 0 0 1 1 0x41 0x41))"
    unfolding cmds_def p(4,5) by (simp add: image_iff) (rule bexI [of _ "(5, 0x41)"], simp_all)
  then show ?thesis
    using gmax_upper_from_lower [OF p(1,2) _ p(3), of 4 0 0 1 1] by auto
qed

text \<open>An array of the first chip version whose rows are zero: what it answers while a row is read.\<close>

definition row_answers :: "(bool \<times> ci_payload option) list" where
  "row_answers = [answer 0, (True, None)] @ replicate 32 (answer 0)"

definition calm :: "(bool \<times> ci_payload option) list \<Rightarrow> synapse \<Rightarrow> bool" where
  "calm es s \<longleftrightarrow> env (bus s) = es \<and> rxdata (bus s) (ctag s) = [] \<and> maxaddr s = 0x7fff"

lemma calm_read: "calm (answer d # es) s \<Longrightarrow> ucast a \<le> (0x7fff :: u16) \<Longrightarrow> syn_read a s = (Inr d, ask a s) \<and> calm es (ask a s)"
  using syn_read_answered [of s "\<lparr>pwrite = 0, paddr = 0, pdat = d\<rparr>" es a] by (simp add: calm_def answer_def ask_def)

lemma calm_write: "calm ((True, None) # es) s \<Longrightarrow> ucast a \<le> (0x7fff :: u16) \<Longrightarrow>
    \<exists>t. hvoid (syn_write a d) s = (Inr (), t) \<and> calm es t \<and> (\<exists>x. syn_write a d s = (Inr x, t))"
  by (simp add: calm_def syn_write_def hvoid_def write_cmd_def checkAddr_def hseq_def hbind_def on_bus_def issueCommand_def)

lemma calm_reads:
  assumes "calm (replicate (length as) (answer 0) @ es) s" and "\<forall>a\<in>set as. ucast a \<le> (0x7fff :: u16)"
  shows "\<exists>t. hmap as (\<lambda>a. hbind (syn_read a) (\<lambda>x. hret (rev_bits 32 x))) s = (Inr (replicate (length as) 0), t) \<and> calm es t"
  using assms
proof (induction as arbitrary: s)
  case (Cons a as)
  have "calm (answer 0 # (replicate (length as) (answer 0) @ es)) s" using Cons.prems(1) by simp
  then have r: "syn_read a s = (Inr 0, ask a s)" "calm (replicate (length as) (answer 0) @ es) (ask a s)"
    using calm_read [of 0] Cons.prems(2) by auto
  obtain t where t: "hmap as (\<lambda>a. hbind (syn_read a) (\<lambda>x. hret (rev_bits 32 x))) (ask a s)
      = (Inr (replicate (length as) 0), t)" "calm es t"
    using Cons.IH [OF r(2)] Cons.prems(2) by (meson list.set_intros(2))
  have "rev_bits 32 0 = 0" by code_simp
  then have one: "hbind (syn_read a) (\<lambda>x. hret (rev_bits 32 x)) s = (Inr 0, ask a s)"
    using r(1) by (simp add: hbind_Inr)
  have "hmap (a # as) (\<lambda>a. hbind (syn_read a) (\<lambda>x. hret (rev_bits 32 x))) s = (Inr (replicate (length (a # as)) 0), t)"
    unfolding hmap.simps using one t(1)
    by (simp add: hbind_Inr [where m = "hbind (syn_read a) (\<lambda>x. hret (rev_bits 32 x))"]
        hbind_Inr [where m = "hmap as (\<lambda>a. hbind (syn_read a) (\<lambda>x. hret (rev_bits 32 x)))"])
  then show ?case using t(2) by blast
qed simp

lemma hmap_map: "hmap xs (\<lambda>x. f (g x)) = hmap (map g xs) f"
  by (induction xs) simp_all

lemma calm_row:
  assumes "calm (row_answers @ es) s" and "row \<le> 223"
  shows "\<exists>t. read_row HV1 row zeros True s = (Inr zeros, t) \<and> calm es t"
proof -
  have "calm (answer 0 # (True, None) # replicate 32 (answer 0) @ es) s"
    using assms(1) by (simp add: row_answers_def)
  then have r: "syn_read (sc_ctrlreg HV1) s = (Inr 0, ask (sc_ctrlreg HV1) s)"
      and "calm ((True, None) # replicate 32 (answer 0) @ es) (ask (sc_ctrlreg HV1) s)"
    using calm_read [of 0 _ s "sc_ctrlreg HV1"] by (simp_all add: sc_ctrlreg_def)
  then obtain x t where w: "syn_write (sc_ctrlreg HV1) (sc_cmd_rdec OR push_bit sc_adr_p row OR push_bit sc_newcmd_p (of_bool True))
      (ask (sc_ctrlreg HV1) s) = (Inr x, t)" and t: "calm (replicate 32 (answer 0) @ es) t"
    using calm_write [of "replicate 32 (answer 0) @ es" "ask (sc_ctrlreg HV1) s" "sc_ctrlreg HV1"
        "sc_cmd_rdec OR push_bit sc_adr_p row OR push_bit sc_newcmd_p (of_bool True)"] by (auto simp: sc_ctrlreg_def)
  let ?as = "map (\<lambda>i. sc_synd + of_nat i) [0..<32]"
  have "\<forall>a\<in>set ?as. ucast a \<le> (0x7fff :: u16)"
  proof
    fix a assume "a \<in> set ?as"
    then obtain i where i: "i < 32" "a = sc_synd + of_nat i" by auto
    then have "unat a = 0x406 + i"
      by (simp add: sc_synd_def unat_word_ariths unsigned_of_nat take_bit_nat_eq_self)
    then show "ucast a \<le> (0x7fff :: u16)"
      using i(1) by (simp add: word_le_nat_alt unsigned_ucast_eq take_bit_nat_eq_self)
  qed
  then obtain t' where t': "hmap ?as (\<lambda>a. hbind (syn_read a) (\<lambda>x. hret (rev_bits 32 x))) t = (Inr zeros, t')" "calm es t'"
    using calm_reads [of ?as es t] t by (auto simp: zeros_def)
  have "hmap [0..<32] (\<lambda>i. hbind (syn_read (sc_synd + of_nat i)) (\<lambda>x. hret (rev_bits 32 x))) t = (Inr zeros, t')"
    using t'(1) by (simp only: hmap_map [symmetric])
  then have "read_row HV1 row zeros True s = (Inr zeros, t')"
    using assms(2) r w
    by (simp add: read_row_def hseq_def hbind_def zeros_def not_less)
  then show ?thesis using t'(2) by blast
qed

theorem write_decoder_one_witness:
  "\<exists>own' other' s2. write_decoder HV1 0 9 5 (demo_synapse (row_answers @ row_answers)) =
      hseq (write_row HV1 0 own' True) (write_row HV1 2 other' True) s2 \<and>
    decoded HV1 0 own' other' 9 = (0, 5) \<and> decoded HV1 0 own' other' 8 = (0, 0)"
proof -
  let ?s = "demo_synapse (row_answers @ row_answers)"
  have "calm (row_answers @ row_answers) ?s"
    by (simp add: calm_def demo_synapse_def SynapseControl_new_def OcpStdpCtrl_t_def)
  then obtain s1 where one: "read_row HV1 0 zeros True ?s = (Inr zeros, s1)" "calm row_answers s1"
    using calm_row [of row_answers ?s 0] by auto
  obtain s2 where two: "read_row HV1 (partner HV1 0) zeros True s1 = (Inr zeros, s2)"
    using calm_row [of "[]" s1 "partner HV1 0"] one(2) by (auto simp: partner_def upper_row_def)
  have p: "partner HV1 0 = 2" "\<not> upper_row HV1 0" by (simp_all add: partner_def upper_row_def)
  have z: "decoded HV1 0 zeros zeros 8 = (0, 0)" "decoded HV1 0 zeros zeros 9 = (0, 0)" by code_simp+
  have u: "unat (9 :: u32) = 9" "(0 :: u32) < 224" "(9 :: u32) < 256" "5 AND 0xf = (5 :: u32)" by simp_all
  obtain own' other' where w: "write_decoder HV1 0 9 5 ?s =
      hseq (write_row HV1 0 own' True) (write_row HV1 (partner HV1 0) other' True) s2"
    and c: "\<forall>c<256. decoded HV1 0 own' other' c =
      (if c = unat (9 :: u32)
       then if upper_row HV1 0 then (5 AND 0xf, snd (decoded HV1 0 zeros zeros c))
            else (fst (decoded HV1 0 zeros zeros c), 5 AND 0xf)
       else decoded HV1 0 zeros zeros c)"
    using write_decoder_one [OF one(1) two u(2,3), of 5] by blast
  have "decoded HV1 0 own' other' 9 = (0, 5)" "decoded HV1 0 own' other' 8 = (0, 0)"
    using c [rule_format, of 9] c [rule_format, of 8] p(2) z u by simp_all
  then show ?thesis using w unfolding p by blast
qed

end
