(* ===== verification/Syn_trans.thy ===== *)
theory Syn_trans
  imports Ctrlmod
begin

text \<open>
  The typed view of the synapse controller's registers (\<open>syn_trans.h\<close>, \<open>syn_trans.cpp\<close>): the
  control and the configuration register packed into and out of words, the look-up table and the
  SYNIN, SYNOUT and SYNRST registers as arrays. The results: the control register survives a
  round trip, the configuration register does not, and the look-up table reads back as written.
\<close>

definition creg_addr :: u32 where "creg_addr = 0x4000"
definition cfg_addr :: u32 where "cfg_addr = 0x4001"
definition busy_addr :: u32 where "busy_addr = 0x4002"
definition lut_addr :: u32 where "lut_addr = 0x4100"
definition synin_addr :: u32 where "synin_addr = 0x4200"
definition synout_addr :: u32 where "synout_addr = 0x4300"
definition synrst_addr :: u32 where "synrst_addr = 0x4500"

definition CORR_READ_CAUSAL :: u32 where "CORR_READ_CAUSAL = 8"
definition CORR_READ_ACAUSAL :: u32 where "CORR_READ_ACAUSAL = 1"

subsection \<open>The control register\<close>

text \<open>The member \<open>cmd\<close> is an enum of eleven named commands whose type holds the four-bit values;
  it is kept as its value.\<close>

record control_reg =
  sca :: bool
  scc :: bool
  without_reset :: bool
  sel :: u32
  lastadr :: u32
  adr :: u32
  newcmd :: bool
  continuous :: bool
  encr :: bool
  cmd :: u32

definition Control_reg_new :: control_reg where
  "Control_reg_new = \<lparr>sca = True, scc = True, without_reset = False, sel = 0, lastadr = 0, adr = 0,
     newcmd = False, continuous = False, encr = False, cmd = 0\<rparr>"

definition control_pack :: "control_reg \<Rightarrow> u32" where
  "control_pack r = (cmd r AND 0xf) OR push_bit 4 (of_bool (encr r)) OR push_bit 5 (of_bool (continuous r))
     OR push_bit 6 (of_bool (newcmd r)) OR push_bit 8 (adr r AND 0xff) OR push_bit 16 (lastadr r AND 0xff)
     OR push_bit 24 (sel r AND 7) OR push_bit 27 (of_bool (without_reset r))
     OR push_bit 28 (of_bool (scc r)) OR push_bit 29 (of_bool (sca r))"

definition control_unpack :: "u32 \<Rightarrow> control_reg" where
  "control_unpack v = \<lparr>sca = v AND 0x20000000 \<noteq> 0, scc = v AND 0x10000000 \<noteq> 0,
     without_reset = v AND 0x8000000 \<noteq> 0, sel = drop_bit 24 (v AND 0x7000000),
     lastadr = drop_bit 16 (v AND 0xff0000), adr = drop_bit 8 (v AND 0xff00),
     newcmd = v AND 0x40 \<noteq> 0, continuous = v AND 0x20 \<noteq> 0, encr = v AND 0x10 \<noteq> 0, cmd = v AND 0xf\<rparr>"

subsection \<open>The configuration register\<close>

record config_reg =
  oedel :: u32
  wrdel :: u32
  dllresetb0 :: bool
  dllresetb1 :: bool
  gen0 :: bool
  gen1 :: bool
  gen2 :: bool
  gen3 :: bool
  predel :: u32
  endel :: u32
  pattern0 :: u32
  pattern1 :: u32

text \<open>The default constructor leaves the two delays \<open>oedel\<close> and \<open>wrdel\<close> as the memory was.\<close>

definition Config_reg_new :: "u32 \<Rightarrow> u32 \<Rightarrow> config_reg" where
  "Config_reg_new oe wr = \<lparr>oedel = oe, wrdel = wr, dllresetb0 = False, dllresetb1 = False,
     gen0 = False, gen1 = False, gen2 = False, gen3 = False, predel = 0xf, endel = 0xf,
     pattern0 = CORR_READ_CAUSAL, pattern1 = CORR_READ_ACAUSAL\<rparr>"

definition config_pack :: "config_reg \<Rightarrow> u32" where
  "config_pack r = fold (\<lambda>i rv. rv OR push_bit (i * 2) (drop_bit i (pattern0 r) AND 1)
       OR push_bit (i * 2 + 1) (drop_bit i (pattern1 r) AND 1)) [0..<4] 0
     OR push_bit 8 (endel r AND 0xf) OR push_bit 12 (predel r AND 0xf)
     OR push_bit 16 (of_bool (gen0 r)) OR push_bit 17 (of_bool (gen1 r))
     OR push_bit 18 (of_bool (gen2 r)) OR push_bit 19 (of_bool (gen3 r))
     OR push_bit 20 (of_bool (dllresetb0 r)) OR push_bit 21 (of_bool (dllresetb1 r))
     OR push_bit 22 (oedel r AND 0xf) OR push_bit 26 (wrdel r AND 3)"

text \<open>\<open>unpack\<close> ORs the patterns into those the object had.\<close>

definition config_unpack :: "u32 \<Rightarrow> config_reg \<Rightarrow> config_reg" where
  "config_unpack v old = \<lparr>oedel = drop_bit 22 (v AND 0x1e00000), wrdel = drop_bit 26 (v AND 0x6000000),
     dllresetb0 = v AND 0x100000 \<noteq> 0, dllresetb1 = v AND 0x200000 \<noteq> 0,
     gen0 = v AND 0x10000 \<noteq> 0, gen1 = v AND 0x20000 \<noteq> 0, gen2 = v AND 0x40000 \<noteq> 0, gen3 = v AND 0x80000 \<noteq> 0,
     predel = drop_bit 12 (v AND 0xf000), endel = drop_bit 8 (v AND 0xf00),
     pattern0 = fold (\<lambda>i p. p OR drop_bit i (v AND push_bit (i * 2) 1)) [0..<4] (pattern0 old),
     pattern1 = fold (\<lambda>i p. p OR drop_bit (i + 1) (v AND push_bit (i * 2 + 1) 1)) [0..<4] (pattern1 old)\<rparr>"

text \<open>\<open>randomize\<close> unpacks what the library's \<open>random\<close> returned.\<close>

definition config_randomize :: "u32 \<Rightarrow> config_reg \<Rightarrow> config_reg" where
  "config_randomize rnd old = config_unpack rnd old"

definition control_randomize :: "u32 \<Rightarrow> control_reg" where
  "control_randomize rnd = control_unpack rnd"

subsection \<open>Access\<close>

definition get_config_reg :: "u32 \<Rightarrow> u32 \<Rightarrow> (ctrlmod, config_reg) hal" where
  "get_config_reg oe wr = hseq (read_cmd (ucast cfg_addr)) (hbind get_data (\<lambda>res.
     hret (config_unpack (pdat res) (Config_reg_new oe wr))))"

definition set_config_reg :: "config_reg \<Rightarrow> (ctrlmod, unit) hal" where
  "set_config_reg cfg = hvoid (write_cmd (ucast cfg_addr) (config_pack cfg))"

definition get_control_reg :: "(ctrlmod, control_reg) hal" where
  "get_control_reg = hseq (read_cmd (ucast creg_addr)) (hbind get_data (\<lambda>res. hret (control_unpack (pdat res))))"

definition set_control_reg :: "control_reg \<Rightarrow> (ctrlmod, unit) hal" where
  "set_control_reg creg = hvoid (write_cmd (ucast creg_addr) (control_pack creg))"

text \<open>Eight four-bit values in a word, the first one highest.\<close>

definition pack8 :: "u8 list \<Rightarrow> u32" where
  "pack8 ds = fold (\<lambda>j p. p OR push_bit (28 - 4 * j) (ucast (ds ! j) AND 0xf)) [0..<8] 0"

definition unpack8 :: "u32 \<Rightarrow> u8 list" where
  "unpack8 d = map (\<lambda>j. ucast (drop_bit (28 - 4 * j) (d AND push_bit (28 - 4 * j) 0xf))) [0..<8]"

definition lut_at :: "u32 \<Rightarrow> u16" where
  "lut_at pattern = ucast (lut_addr + push_bit 1 pattern)"

definition get_lut :: "u32 \<Rightarrow> (ctrlmod, u8 list) hal" where
  "get_lut pattern = hseq (read_cmd (lut_at pattern)) (hseq (read_cmd (lut_at pattern + 1))
     (hbind (hmap [0..<2] (\<lambda>i. hbind get_data (\<lambda>res. hret (unpack8 (pdat res)))))
       (\<lambda>halves. hret (concat halves))))"

definition set_lut :: "u8 list \<Rightarrow> u32 \<Rightarrow> (ctrlmod, unit) hal" where
  "set_lut d pattern = hfor [0..<2] (\<lambda>i.
     hvoid (write_cmd (lut_at pattern + of_nat i) (pack8 (map (\<lambda>j. d ! (j + i * 8)) [0..<8]))))"

definition set_synin :: "u8 list list \<Rightarrow> (ctrlmod, unit) hal" where
  "set_synin synin = hfor [0..<4] (\<lambda>i. hvoid (write_cmd (ucast synin_addr + of_nat i) (pack8 (synin ! i))))"

definition get_synout :: "(ctrlmod, u8 list list) hal" where
  "get_synout = hseq (hfor [0..<4] (\<lambda>i. hvoid (read_cmd (ucast synout_addr + of_nat i))))
     (hmap [0..<4] (\<lambda>i. hbind get_data (\<lambda>res. hret (unpack8 (pdat res)))))"

text \<open>SYNRST: byte \<open>j\<close> of word \<open>i\<close> is element \<open>i\<close> of row \<open>j\<close>.\<close>

definition set_synrst :: "u8 list list \<Rightarrow> (ctrlmod, unit) hal" where
  "set_synrst synrst = hfor [0..<2] (\<lambda>i. hvoid (write_cmd (ucast synrst_addr + of_nat i)
     (fold (\<lambda>j buf. buf OR push_bit (j * 8) (ucast (synrst ! j ! i) AND 0xff)) [0..<4] 0)))"

definition get_synrst :: "(ctrlmod, u8 list list) hal" where
  "get_synrst = hseq (hfor [0..<2] (\<lambda>i. hvoid (read_cmd (ucast synrst_addr + of_nat i))))
     (hbind (hmap [0..<2] (\<lambda>i. hbind get_data (\<lambda>res. hret (pdat res))))
       (\<lambda>ws. hret (map (\<lambda>j. map (\<lambda>i. ucast (drop_bit (j * 8) (ws ! i AND push_bit (j * 8) 0xff))) [0..<2]) [0..<4])))"

definition busy_word :: "(ctrlmod, u32) hal" where
  "busy_word = hseq (read_cmd (ucast busy_addr)) (hbind get_data (\<lambda>res. hret (pdat res)))"

partial_function (option) wait_while_busy :: "ctrlmod \<Rightarrow> ((hal_error + unit) \<times> ctrlmod) option" where
  "wait_while_busy s = (case busy_word s of
     (Inl e, t) \<Rightarrow> Some (Inl e, t)
   | (Inr d, t) \<Rightarrow> if d AND 7 \<noteq> 0 then wait_while_busy t else Some (Inr (), t))"

subsection \<open>Round trips\<close>

text \<open>A masked and shifted part of a word is a bit field of it.\<close>

lemma masked_field: "drop_bit lo (v AND push_bit lo (mask w)) = take_bit w (drop_bit lo (v :: u32))"
  by (rule bit_eqI) (auto simp: bit_drop_bit_eq bit_and_iff bit_push_bit_iff bit_mask_iff bit_take_bit_iff
      dest: bit_imp_le_length)

lemma push_mask: "0x7000000 = push_bit 24 (mask 3 :: u32)" "0xff0000 = push_bit 16 (mask 8 :: u32)"
    "0xff00 = push_bit 8 (mask 8 :: u32)" "0xf = (mask 4 :: u32)" "0xff = (mask 8 :: u32)" "7 = (mask 3 :: u32)"
    "3 = (mask 2 :: u32)" "0xf000 = push_bit 12 (mask 4 :: u32)" "0xf00 = push_bit 8 (mask 4 :: u32)"
  by (simp_all add: mask_eq_exp_minus_1)

lemma one_bit: "0x20000000 = push_bit 29 (1 :: u32)" "0x10000000 = push_bit 28 (1 :: u32)"
    "0x8000000 = push_bit 27 (1 :: u32)" "0x40 = push_bit 6 (1 :: u32)" "0x20 = push_bit 5 (1 :: u32)"
    "0x10 = push_bit 4 (1 :: u32)" "0x100000 = push_bit 20 (1 :: u32)" "0x200000 = push_bit 21 (1 :: u32)"
    "0x10000 = push_bit 16 (1 :: u32)" "0x20000 = push_bit 17 (1 :: u32)" "0x40000 = push_bit 18 (1 :: u32)"
    "0x80000 = push_bit 19 (1 :: u32)"
  by simp_all

lemma below: "x < 16 \<Longrightarrow> take_bit 4 x = (x :: u32)" "x < 256 \<Longrightarrow> take_bit 8 x = (x :: u32)"
    "x < 8 \<Longrightarrow> take_bit 3 x = (x :: u32)" "x < 4 \<Longrightarrow> take_bit 2 x = (x :: u32)"
  by (simp_all add: word_unat_eq_iff unsigned_take_bit_eq take_bit_nat_eq_self word_less_nat_alt)

text \<open>The bits of a flag and of a number put at a place of a word.\<close>

lemma bit_flag: "k < 32 \<Longrightarrow> bit (push_bit k (of_bool b) :: u32) n \<longleftrightarrow> n = k \<and> b"
  by (auto simp: bit_push_bit_iff bit_of_bool_iff)

lemma bit_part: "k + w \<le> 32 \<Longrightarrow> bit (push_bit k (x AND mask w) :: u32) n \<longleftrightarrow> k \<le> n \<and> n < k + w \<and> bit x (n - k)"
  by (auto simp: bit_push_bit_iff bit_and_iff bit_mask_iff)

lemma bit_low: "w \<le> 32 \<Longrightarrow> bit (x AND mask w :: u32) n \<longleftrightarrow> n < w \<and> bit x n"
  by (auto simp: bit_and_iff bit_mask_iff)

lemma control_pack_bits: "bit (control_pack r) n \<longleftrightarrow>
    n < 4 \<and> bit (cmd r) n \<or> n = 4 \<and> encr r \<or> n = 5 \<and> continuous r \<or> n = 6 \<and> newcmd r
     \<or> 8 \<le> n \<and> n < 8 + 8 \<and> bit (adr r) (n - 8) \<or> 16 \<le> n \<and> n < 16 + 8 \<and> bit (lastadr r) (n - 16)
     \<or> 24 \<le> n \<and> n < 24 + 3 \<and> bit (sel r) (n - 24) \<or> n = 27 \<and> without_reset r \<or> n = 28 \<and> scc r \<or> n = 29 \<and> sca r"
proof -
  have l: "(4 :: nat) < 32" "(5 :: nat) < 32" "(6 :: nat) < 32" "(27 :: nat) < 32" "(28 :: nat) < 32" "(29 :: nat) < 32"
      "(4 :: nat) \<le> 32" "8 + 8 \<le> (32 :: nat)" "16 + 8 \<le> (32 :: nat)" "24 + 3 \<le> (32 :: nat)" by simp_all
  show ?thesis
    unfolding control_pack_def push_mask bit_or_iff bit_flag [OF l(1)] bit_flag [OF l(2)] bit_flag [OF l(3)]
      bit_flag [OF l(4)] bit_flag [OF l(5)] bit_flag [OF l(6)] bit_low [OF l(7)] bit_part [OF l(8)] bit_part [OF l(9)]
      bit_part [OF l(10)] by blast
qed

lemma control_pack_at:
  "n < 4 \<Longrightarrow> bit (control_pack r) n \<longleftrightarrow> bit (cmd r) n" "n < 8 \<Longrightarrow> bit (control_pack r) (8 + n) \<longleftrightarrow> bit (adr r) n"
  "n < 8 \<Longrightarrow> bit (control_pack r) (16 + n) \<longleftrightarrow> bit (lastadr r) n" "n < 3 \<Longrightarrow> bit (control_pack r) (24 + n) \<longleftrightarrow> bit (sel r) n"
  by (simp_all add: control_pack_bits)

lemma control_pack_flags:
  "bit (control_pack r) 4 = encr r" "bit (control_pack r) 5 = continuous r" "bit (control_pack r) 6 = newcmd r"
  "bit (control_pack r) 27 = without_reset r" "bit (control_pack r) 28 = scc r" "bit (control_pack r) 29 = sca r"
  "\<not> bit (control_pack r) 7" "30 \<le> n \<Longrightarrow> \<not> bit (control_pack r) n"
  by (simp_all add: control_pack_bits)

text \<open>Reading a flag or a field of a word through its bits.\<close>

lemma flag_read: "(v AND push_bit k 1 \<noteq> 0) = bit (v :: u32) k"
  by (rule and_pow)

lemma field_read: "bit (drop_bit lo (v AND push_bit lo (mask w))) n \<longleftrightarrow> n < w \<and> bit (v :: u32) (lo + n)"
  unfolding masked_field by (auto simp: bit_take_bit_iff bit_drop_bit_eq)

lemma control_unpack_bits:
  "sca (control_unpack v) = bit v 29" "scc (control_unpack v) = bit v 28" "without_reset (control_unpack v) = bit v 27"
  "newcmd (control_unpack v) = bit v 6" "continuous (control_unpack v) = bit v 5" "encr (control_unpack v) = bit v 4"
  "bit (sel (control_unpack v)) n \<longleftrightarrow> n < 3 \<and> bit v (24 + n)" "bit (lastadr (control_unpack v)) n \<longleftrightarrow> n < 8 \<and> bit v (16 + n)"
  "bit (adr (control_unpack v)) n \<longleftrightarrow> n < 8 \<and> bit v (8 + n)" "bit (cmd (control_unpack v)) n \<longleftrightarrow> n < 4 \<and> bit v n"
proof -
  have "(4 :: nat) \<le> 32" by simp
  note low = bit_low [OF this]
  show "sca (control_unpack v) = bit v 29" "scc (control_unpack v) = bit v 28" "without_reset (control_unpack v) = bit v 27"
    "newcmd (control_unpack v) = bit v 6" "continuous (control_unpack v) = bit v 5" "encr (control_unpack v) = bit v 4"
    by (simp_all only: control_unpack_def control_reg.select_convs one_bit flag_read)
  show "bit (sel (control_unpack v)) n \<longleftrightarrow> n < 3 \<and> bit v (24 + n)" "bit (lastadr (control_unpack v)) n \<longleftrightarrow> n < 8 \<and> bit v (16 + n)"
    "bit (adr (control_unpack v)) n \<longleftrightarrow> n < 8 \<and> bit v (8 + n)" "bit (cmd (control_unpack v)) n \<longleftrightarrow> n < 4 \<and> bit v n"
    by (simp_all only: control_unpack_def control_reg.select_convs push_mask field_read low)
qed

lemma small_bits: "x < 16 \<Longrightarrow> bit (x :: u32) n \<Longrightarrow> n < 4" "x < 256 \<Longrightarrow> bit (x :: u32) n \<Longrightarrow> n < 8"
    "x < 8 \<Longrightarrow> bit (x :: u32) n \<Longrightarrow> n < 3" "x < 4 \<Longrightarrow> bit (x :: u32) n \<Longrightarrow> n < 2"
  by (metis below bit_take_bit_iff)+

text \<open>The control register survives packing and unpacking when its numbers fit their fields,
  and packing what a word unpacks to gives back its bits except bit 7 and the highest two, which
  no field holds.\<close>

theorem control_reg_roundtrip:
  "(cmd r < 16 \<and> adr r < 256 \<and> lastadr r < 256 \<and> sel r < 8 \<longrightarrow> control_unpack (control_pack r) = r) \<and>
   (\<forall>n. bit (control_pack (control_unpack v)) n \<longleftrightarrow> bit v n \<and> n \<noteq> 7 \<and> n < 30)"
proof (intro conjI impI allI)
  assume r: "cmd r < 16 \<and> adr r < 256 \<and> lastadr r < 256 \<and> sel r < 8"
  have "cmd (control_unpack (control_pack r)) = cmd r"
    by (rule bit_eqI) (use r small_bits(1) [of "cmd r"] control_pack_at(1) in \<open>auto simp: control_unpack_bits\<close>)
  moreover have "adr (control_unpack (control_pack r)) = adr r"
    by (rule bit_eqI) (use r small_bits(2) [of "adr r"] control_pack_at(2) in \<open>auto simp: control_unpack_bits\<close>)
  moreover have "lastadr (control_unpack (control_pack r)) = lastadr r"
    by (rule bit_eqI) (use r small_bits(2) [of "lastadr r"] control_pack_at(3) in \<open>auto simp: control_unpack_bits\<close>)
  moreover have "sel (control_unpack (control_pack r)) = sel r"
    by (rule bit_eqI) (use r small_bits(3) [of "sel r"] control_pack_at(4) in \<open>auto simp: control_unpack_bits\<close>)
  ultimately show "control_unpack (control_pack r) = r"
    by (intro control_reg.equality) (simp_all add: control_unpack_bits control_pack_flags)
next
  fix n :: nat
  consider "n < 4" | "n \<in> {4, 5, 6, 7, 27, 28, 29}" | k where "k < 8" "n = 8 + k" | k where "k < 8" "n = 16 + k"
    | k where "k < 3" "n = 24 + k" | "30 \<le> n"
  proof -
    have "n < 4 \<or> n \<in> {4, 5, 6, 7, 27, 28, 29} \<or> (8 \<le> n \<and> n < 16) \<or> (16 \<le> n \<and> n < 24) \<or> (24 \<le> n \<and> n < 27) \<or> 30 \<le> n"
      by auto
    then show thesis 
      using that(1,2,6) that(3) [of "n - 8"] that(4) [of "n - 16"] that(5) [of "n - 24"] by (elim disjE) auto
  qed
  then show "bit (control_pack (control_unpack v)) n \<longleftrightarrow> bit v n \<and> n \<noteq> 7 \<and> n < 30"
    by cases (auto simp: control_unpack_bits control_pack_at control_pack_flags)
qed

theorem control_reg_roundtrip_witness:
  "let r = Control_reg_new\<lparr>adr := 200, sel := 5, cmd := 7\<rparr> in control_unpack (control_pack r) = r \<and> adr r = 200"
proof -
  let ?r = "Control_reg_new\<lparr>adr := 200, sel := 5, cmd := 7\<rparr>"
  have "cmd ?r < 16 \<and> adr ?r < 256 \<and> lastadr ?r < 256 \<and> sel ?r < 8" by (simp add: Control_reg_new_def)
  then show ?thesis using control_reg_roundtrip [of ?r 0] by (simp add: Let_def)
qed

subsection \<open>What the configuration register loses\<close>

lemma bit_pick: "k < 32 \<Longrightarrow> bit (push_bit k (drop_bit i p AND 1) :: u32) n \<longleftrightarrow> n = k \<and> bit p i"
  unfolding bit_push_bit_iff bit_and_iff bit_1_iff bit_drop_bit_eq o_def by auto

lemma bit_unpick: "k < 32 \<Longrightarrow> bit (drop_bit i (v AND push_bit k 1) :: u32) n \<longleftrightarrow> i + n = k \<and> bit v k"
  unfolding bit_drop_bit_eq o_def bit_and_iff bit_push_bit_iff bit_1_iff by auto

lemma upt4: "[0..<4] = [0, 1, 2, 3 :: nat]" by (simp add: upt_rec)

lemma config_pack_bits: "bit (config_pack r) n \<longleftrightarrow>
    n = 0 \<and> bit (pattern0 r) 0 \<or> n = 1 \<and> bit (pattern1 r) 0 \<or> n = 2 \<and> bit (pattern0 r) 1 \<or> n = 3 \<and> bit (pattern1 r) 1
    \<or> n = 4 \<and> bit (pattern0 r) 2 \<or> n = 5 \<and> bit (pattern1 r) 2 \<or> n = 6 \<and> bit (pattern0 r) 3 \<or> n = 7 \<and> bit (pattern1 r) 3
    \<or> 8 \<le> n \<and> n < 8 + 4 \<and> bit (endel r) (n - 8) \<or> 12 \<le> n \<and> n < 12 + 4 \<and> bit (predel r) (n - 12)
    \<or> n = 16 \<and> gen0 r \<or> n = 17 \<and> gen1 r \<or> n = 18 \<and> gen2 r \<or> n = 19 \<and> gen3 r
    \<or> n = 20 \<and> dllresetb0 r \<or> n = 21 \<and> dllresetb1 r
    \<or> 22 \<le> n \<and> n < 22 + 4 \<and> bit (oedel r) (n - 22) \<or> 26 \<le> n \<and> n < 26 + 2 \<and> bit (wrdel r) (n - 26)"
proof -
  have p: "bit (push_bit (0 * 2) (drop_bit 0 x AND 1) :: u32) n \<longleftrightarrow> n = 0 \<and> bit x 0"
    "bit (push_bit (0 * 2 + 1) (drop_bit 0 x AND 1) :: u32) n \<longleftrightarrow> n = 1 \<and> bit x 0"
    "bit (push_bit (1 * 2) (drop_bit 1 x AND 1) :: u32) n \<longleftrightarrow> n = 2 \<and> bit x 1"
    "bit (push_bit (1 * 2 + 1) (drop_bit 1 x AND 1) :: u32) n \<longleftrightarrow> n = 3 \<and> bit x 1"
    "bit (push_bit (2 * 2) (drop_bit 2 x AND 1) :: u32) n \<longleftrightarrow> n = 4 \<and> bit x 2"
    "bit (push_bit (2 * 2 + 1) (drop_bit 2 x AND 1) :: u32) n \<longleftrightarrow> n = 5 \<and> bit x 2"
    "bit (push_bit (3 * 2) (drop_bit 3 x AND 1) :: u32) n \<longleftrightarrow> n = 6 \<and> bit x 3"
    "bit (push_bit (3 * 2 + 1) (drop_bit 3 x AND 1) :: u32) n \<longleftrightarrow> n = 7 \<and> bit x 3" for x
    by (subst bit_pick; simp)+
  have q: "bit (push_bit 8 (x AND mask 4) :: u32) n \<longleftrightarrow> 8 \<le> n \<and> n < 8 + 4 \<and> bit x (n - 8)"
    "bit (push_bit 12 (x AND mask 4) :: u32) n \<longleftrightarrow> 12 \<le> n \<and> n < 12 + 4 \<and> bit x (n - 12)"
    "bit (push_bit 22 (x AND mask 4) :: u32) n \<longleftrightarrow> 22 \<le> n \<and> n < 22 + 4 \<and> bit x (n - 22)"
    "bit (push_bit 26 (x AND mask 2) :: u32) n \<longleftrightarrow> 26 \<le> n \<and> n < 26 + 2 \<and> bit x (n - 26)" for x
    by (subst bit_part; simp)+
  have g: "bit (push_bit 16 (of_bool b) :: u32) n \<longleftrightarrow> n = 16 \<and> b" "bit (push_bit 17 (of_bool b) :: u32) n \<longleftrightarrow> n = 17 \<and> b"
    "bit (push_bit 18 (of_bool b) :: u32) n \<longleftrightarrow> n = 18 \<and> b" "bit (push_bit 19 (of_bool b) :: u32) n \<longleftrightarrow> n = 19 \<and> b"
    "bit (push_bit 20 (of_bool b) :: u32) n \<longleftrightarrow> n = 20 \<and> b" "bit (push_bit 21 (of_bool b) :: u32) n \<longleftrightarrow> n = 21 \<and> b" for b
    by (subst bit_flag; simp)+
  have z: "bit (0 :: u32) n = False" by simp
  show ?thesis
    unfolding config_pack_def push_mask upt4 fold_simps bit_or_iff p q g z by (simp only: simp_thms disj_assoc)
qed

lemma config_pack_at:
  "n < 4 \<Longrightarrow> bit (config_pack r) (8 + n) \<longleftrightarrow> bit (endel r) n" "n < 4 \<Longrightarrow> bit (config_pack r) (12 + n) \<longleftrightarrow> bit (predel r) n"
  "n < 3 \<Longrightarrow> bit (config_pack r) (22 + n) \<longleftrightarrow> bit (oedel r) n" "bit (config_pack r) 26 \<longleftrightarrow> bit (wrdel r) 0"
  "bit (config_pack r) 16 = gen0 r" "bit (config_pack r) 17 = gen1 r" "bit (config_pack r) 18 = gen2 r"
  "bit (config_pack r) 19 = gen3 r" "bit (config_pack r) 20 = dllresetb0 r" "bit (config_pack r) 21 = dllresetb1 r"
  by (simp_all add: config_pack_bits)

lemma config_pack_pattern:
  "bit (config_pack r) 0 = bit (pattern0 r) 0" "bit (config_pack r) 2 = bit (pattern0 r) 1"
  "bit (config_pack r) 4 = bit (pattern0 r) 2" "bit (config_pack r) 6 = bit (pattern0 r) 3"
  "bit (config_pack r) 1 = bit (pattern1 r) 0" "bit (config_pack r) 3 = bit (pattern1 r) 1"
  "bit (config_pack r) 5 = bit (pattern1 r) 2" "bit (config_pack r) 7 = bit (pattern1 r) 3"
  by (simp_all only: config_pack_bits) simp_all

lemma odd_masks: "0x1e00000 = push_bit 21 (mask 4 :: u32)" "0x6000000 = push_bit 25 (mask 2 :: u32)"
  by (simp_all add: mask_eq_exp_minus_1)

text \<open>A shift one further than the mask reaches loses the lowest bit of the field.\<close>

lemma field_read1: "bit (drop_bit (lo + 1) (v AND push_bit lo (mask (w + 1)))) n \<longleftrightarrow> n < w \<and> bit (v :: u32) (lo + 1 + n)"
  unfolding bit_drop_bit_eq o_def bit_and_iff bit_push_bit_iff bit_mask_iff using bit_imp_le_length [of v "lo + 1 + n"] by auto

lemma field_read_delays:
  "bit (drop_bit 22 (v AND 0x1e00000)) n \<longleftrightarrow> n < 3 \<and> bit (v :: u32) (22 + n)"
  "bit (drop_bit 26 (v AND 0x6000000)) n \<longleftrightarrow> n < 1 \<and> bit (v :: u32) (26 + n)"
  unfolding odd_masks using field_read1 [of 21 v 3 n] field_read1 [of 25 v 1 n] by (simp_all add: numeral_2_eq_2)

lemma config_unpack_flags:
  "dllresetb0 (config_unpack v old) = bit v 20" "dllresetb1 (config_unpack v old) = bit v 21"
  "gen0 (config_unpack v old) = bit v 16" "gen1 (config_unpack v old) = bit v 17"
  "gen2 (config_unpack v old) = bit v 18" "gen3 (config_unpack v old) = bit v 19"
  by (simp_all only: config_unpack_def config_reg.select_convs one_bit flag_read)

lemma config_unpack_numbers:
  "bit (oedel (config_unpack v old)) n \<longleftrightarrow> n < 3 \<and> bit v (22 + n)" "bit (wrdel (config_unpack v old)) n \<longleftrightarrow> n < 1 \<and> bit v (26 + n)"
  "bit (predel (config_unpack v old)) n \<longleftrightarrow> n < 4 \<and> bit v (12 + n)" "bit (endel (config_unpack v old)) n \<longleftrightarrow> n < 4 \<and> bit v (8 + n)"
  by (simp_all only: config_unpack_def config_reg.select_convs field_read_delays) (simp_all only: push_mask field_read)

lemma config_unpack_pattern:
  "bit (pattern0 (config_unpack v old)) n \<longleftrightarrow>
     bit (pattern0 old) n \<or> n = 0 \<and> bit v 0 \<or> n = 1 \<and> bit v 2 \<or> n = 2 \<and> bit v 4 \<or> n = 3 \<and> bit v 6" (is ?A)
  "bit (pattern1 (config_unpack v old)) n \<longleftrightarrow>
     bit (pattern1 old) n \<or> n = 0 \<and> bit v 1 \<or> n = 1 \<and> bit v 3 \<or> n = 2 \<and> bit v 5 \<or> n = 3 \<and> bit v 7" (is ?B)
proof -
  have u: "bit (drop_bit i (v AND push_bit k 1)) n \<longleftrightarrow> n = k - i \<and> bit v k" if "k < 32" "i \<le> k" for i k
    using bit_unpick [OF that(1)] that(2) by auto
  show ?A unfolding config_unpack_def config_reg.select_convs upt4 fold_simps bit_or_iff
    by (subst u, simp, simp)+ (simp only: simp_thms disj_assoc, simp)
  show ?B unfolding config_unpack_def config_reg.select_convs upt4 fold_simps bit_or_iff
    by (subst u, simp, simp)+ (simp only: simp_thms disj_assoc, simp)
qed

lemma below4: "x < 16 \<Longrightarrow> bit (x :: u32) n \<Longrightarrow> n = 0 \<or> n = 1 \<or> n = 2 \<or> n = 3"
  using small_bits(1) [of x n] by auto

text \<open>Reading the configuration register back does not give what was written: of the four
  bits of \<open>oedel\<close> the highest is lost, of the two of \<open>wrdel\<close> the highest, and each correlation pattern
  is the union of the written one and the one the object had; everything else survives.\<close>

theorem config_reg_loses:
  assumes "endel r < 16" "predel r < 16" "oedel r < 16" "wrdel r < 4" "pattern0 r < 16" "pattern1 r < 16"
  shows "config_unpack (config_pack r) old = r\<lparr>oedel := oedel r AND 7, wrdel := wrdel r AND 1,
    pattern0 := pattern0 r OR pattern0 old, pattern1 := pattern1 r OR pattern1 old\<rparr>"
proof -
  let ?c = "config_unpack (config_pack r) old"
  have three: "bit (7 :: u32) n \<longleftrightarrow> n < 3" for n
    unfolding push_mask by (simp only: bit_mask_iff) (auto simp: min_def)
  have "oedel ?c = oedel r AND 7"
    by (rule bit_eqI) (use config_pack_at(3) in \<open>auto simp only: config_unpack_numbers bit_and_iff three\<close>)
  moreover have "wrdel ?c = wrdel r AND 1"
    by (rule bit_eqI) (auto simp only: config_unpack_numbers bit_and_iff bit_1_iff less_one add_0_right config_pack_at)
  moreover have "predel ?c = predel r"
    by (rule bit_eqI) (use small_bits(1) [OF assms(2)] config_pack_at(2) in \<open>auto simp: config_unpack_numbers\<close>)
  moreover have "endel ?c = endel r"
    by (rule bit_eqI) (use small_bits(1) [OF assms(1)] config_pack_at(1) in \<open>auto simp: config_unpack_numbers\<close>)
  moreover have "pattern0 ?c = pattern0 r OR pattern0 old"
    by (rule bit_eqI) (use below4 [OF assms(5)] in \<open>auto simp only: config_unpack_pattern config_pack_pattern bit_or_iff\<close>)
  moreover have "pattern1 ?c = pattern1 r OR pattern1 old"
    by (rule bit_eqI) (use below4 [OF assms(6)] in \<open>auto simp only: config_unpack_pattern config_pack_pattern bit_or_iff\<close>)
  ultimately show ?thesis
    by (intro config_reg.equality) (simp_all add: config_unpack_flags config_pack_at)
qed

theorem config_reg_loses_witness:
  "let r = (Config_reg_new 12 3)\<lparr>pattern0 := 2\<rparr> in config_unpack (config_pack r) (Config_reg_new 0 0)
     = r\<lparr>oedel := 4, wrdel := 1, pattern0 := 10\<rparr>"
proof -
  let ?r = "(Config_reg_new 12 3)\<lparr>pattern0 := 2\<rparr>" and ?o = "Config_reg_new 0 0"
  note d = Config_reg_new_def CORR_READ_CAUSAL_def CORR_READ_ACAUSAL_def
  have "endel ?r < 16" "predel ?r < 16" "oedel ?r < 16" "wrdel ?r < 4" "pattern0 ?r < 16" "pattern1 ?r < 16"
    by (simp_all add: d)
  from config_reg_loses [OF this, of ?o] show ?thesis by (simp add: Let_def d)
qed

end
