(* ===== verification/Jtag.thy ===== *)
theory Jtag
  imports Prelude
begin

text \<open>
  The JTAG state machine and the Digilent cable (\<open>jtag_state.cpp\<close>, \<open>jtag_digilent.cpp\<close>): the table of
  TMS patterns, the buffer of TMS/TDI pairs with its flush, navigation between the states of the
  TAP controller and the scans of the instruction and data registers. The results: the buffer
  is a queue of pairs (what the driver was handed is what was put, in order, across every flush),
  the transitions a scan makes reach the states the object believes in, a data scan clocks its
  bits through the data register, and a scan of no bits leaves the controller elsewhere.
\<close>

subsection \<open>States and TMS patterns\<close>

datatype eJtagState = TEST_LOGIC_RESET | RUN_TEST_IDLE | SELECT_DR_SCAN | CAPTURE_DR | SHIFT_DR
  | EXIT1_DR | EXIT2_DR | PAUSE_DR | UPDATE_DR | SELECT_IR_SCAN | CAPTURE_IR | SHIFT_IR
  | EXIT1_IR | EXIT2_IR | PAUSE_IR | UPDATE_IR | UNKNOWN_JTAG_STATE

definition states :: "eJtagState list" where
  "states = [TEST_LOGIC_RESET, RUN_TEST_IDLE, SELECT_DR_SCAN, CAPTURE_DR, SHIFT_DR, EXIT1_DR, EXIT2_DR, PAUSE_DR,
     UPDATE_DR, SELECT_IR_SCAN, CAPTURE_IR, SHIFT_IR, EXIT1_IR, EXIT2_IR, PAUSE_IR, UPDATE_IR]"

text \<open>The number of an enumerator.\<close>

fun enum_of :: "eJtagState \<Rightarrow> nat" where
  "enum_of TEST_LOGIC_RESET = 0" | "enum_of RUN_TEST_IDLE = 1" | "enum_of SELECT_DR_SCAN = 2"
| "enum_of CAPTURE_DR = 3" | "enum_of SHIFT_DR = 4" | "enum_of EXIT1_DR = 5" | "enum_of EXIT2_DR = 6"
| "enum_of PAUSE_DR = 7" | "enum_of UPDATE_DR = 8" | "enum_of SELECT_IR_SCAN = 9" | "enum_of CAPTURE_IR = 10"
| "enum_of SHIFT_IR = 11" | "enum_of EXIT1_IR = 12" | "enum_of EXIT2_IR = 13" | "enum_of PAUSE_IR = 14"
| "enum_of UPDATE_IR = 15" | "enum_of UNKNOWN_JTAG_STATE = 16"

text \<open>Length and pattern, by the state left and the state entered.\<close>

definition m_cTMSPattern :: "(u8 \<times> u8) list list" where
  "m_cTMSPattern =
    [[(1, 0x01), (1, 0x00), (2, 0x01), (3, 0x02), (4, 0x04), (4, 0x05), (5, 0x0A), (6, 0x15), (5, 0x0B), (3, 0x03), (4, 0x06), (5, 0x0C), (5, 0x0D), (6, 0x1A), (7, 0x35), (6, 0x1B)],
     [(3, 0x07), (1, 0x00), (1, 0x01), (2, 0x01), (3, 0x04), (3, 0x05), (4, 0x0A), (5, 0x15), (4, 0x0B), (2, 0x03), (3, 0x03), (4, 0x0C), (4, 0x0D), (5, 0x1A), (6, 0x35), (5, 0x1B)],
     [(2, 0x03), (4, 0x06), (0, 0x00), (1, 0x00), (2, 0x00), (2, 0x01), (3, 0x02), (4, 0x05), (3, 0x03), (1, 0x01), (2, 0x02), (3, 0x04), (3, 0x05), (4, 0x0A), (5, 0x15), (4, 0x0B)],
     [(5, 0x1F), (3, 0x06), (3, 0x07), (0, 0x00), (1, 0x00), (1, 0x01), (2, 0x02), (3, 0x05), (2, 0x03), (4, 0x0F), (5, 0x1E), (6, 0x3C), (6, 0x3D), (7, 0x7A), (8, 0xF4), (7, 0x7B)],
     [(5, 0x1F), (3, 0x06), (3, 0x07), (4, 0x0E), (0, 0x00), (1, 0x01), (2, 0x02), (3, 0x05), (2, 0x03), (4, 0x0F), (5, 0x1E), (6, 0x3C), (6, 0x3D), (7, 0x7A), (8, 0xF4), (7, 0x7B)],
     [(4, 0x0F), (2, 0x01), (2, 0x03), (3, 0x06), (4, 0x0C), (0, 0x00), (1, 0x00), (2, 0x01), (1, 0x01), (3, 0x07), (4, 0x0E), (5, 0x1C), (5, 0x1D), (6, 0x3A), (7, 0x74), (6, 0x3B)],
     [(5, 0x1F), (3, 0x06), (3, 0x07), (4, 0x0E), (2, 0x02), (3, 0x05), (0, 0x00), (1, 0x01), (2, 0x03), (4, 0x0F), (5, 0x1E), (6, 0x3C), (6, 0x3D), (7, 0x7A), (8, 0xF4), (7, 0x7B)],
     [(4, 0x0F), (2, 0x02), (2, 0x03), (3, 0x06), (4, 0x0C), (2, 0x01), (3, 0x02), (0, 0x00), (1, 0x01), (3, 0x07), (4, 0x0E), (5, 0x1C), (5, 0x1D), (6, 0x3A), (7, 0x74), (6, 0x3B)],
     [(3, 0x07), (1, 0x00), (1, 0x01), (2, 0x02), (3, 0x04), (3, 0x05), (4, 0x0A), (5, 0x15), (0, 0x00), (2, 0x03), (3, 0x06), (4, 0x0C), (4, 0x0D), (6, 0x1A), (6, 0x34), (5, 0x1B)],
     [(1, 0x01), (4, 0x06), (4, 0x07), (5, 0x0E), (6, 0x1C), (6, 0x1D), (7, 0x3A), (8, 0x75), (7, 0x3B), (0, 0x00), (1, 0x00), (2, 0x00), (2, 0x01), (3, 0x02), (4, 0x04), (3, 0x03)],
     [(5, 0x1F), (3, 0x06), (3, 0x07), (4, 0x0E), (5, 0x1C), (5, 0x1D), (6, 0x3A), (7, 0x75), (6, 0x3B), (4, 0x0F), (0, 0x00), (1, 0x00), (1, 0x01), (2, 0x02), (3, 0x04), (2, 0x03)],
     [(5, 0x1F), (3, 0x06), (3, 0x07), (4, 0x0E), (5, 0x1C), (5, 0x1D), (6, 0x3A), (7, 0x75), (6, 0x3B), (4, 0x0F), (5, 0x1E), (0, 0x00), (1, 0x01), (2, 0x02), (3, 0x04), (2, 0x03)],
     [(4, 0x0F), (2, 0x01), (2, 0x03), (3, 0x06), (4, 0x0C), (4, 0x0D), (5, 0x1A), (6, 0x35), (5, 0x1B), (3, 0x07), (4, 0x0E), (5, 0x1C), (0, 0x00), (1, 0x00), (2, 0x00), (1, 0x01)],
     [(5, 0x1F), (3, 0x06), (3, 0x07), (4, 0x0E), (5, 0x1C), (5, 0x1D), (6, 0x3A), (7, 0x75), (6, 0x3B), (4, 0x0F), (5, 0x1E), (2, 0x02), (3, 0x05), (0, 0x00), (1, 0x01), (2, 0x03)],
     [(4, 0x0F), (2, 0x02), (2, 0x03), (3, 0x06), (4, 0x0C), (4, 0x0D), (5, 0x1A), (6, 0x35), (5, 0x1B), (3, 0x07), (4, 0x0E), (1, 0x01), (2, 0x01), (3, 0x02), (0, 0x00), (1, 0x01)],
     [(3, 0x07), (1, 0x00), (1, 0x01), (2, 0x02), (3, 0x04), (3, 0x05), (4, 0x0A), (5, 0x15), (4, 0x0B), (2, 0x03), (3, 0x06), (4, 0x0C), (4, 0x0D), (5, 0x1A), (6, 0x35), (0, 0x00)]]"

definition getTmsPatternForState :: "eJtagState \<Rightarrow> eJtagState \<Rightarrow> ((u16 \<times> u8) \<times> eJtagState) option" where
  "getTmsPatternForState e cur =
    (if enum_of e \<ge> enum_of UNKNOWN_JTAG_STATE then None
     else let start = (if cur = UNKNOWN_JTAG_STATE then TEST_LOGIC_RESET else cur);
              (len, pat) = m_cTMSPattern ! enum_of start ! enum_of e
          in Some (if cur = UNKNOWN_JTAG_STATE then (push_bit 5 (ucast pat) OR 0x1F, len + 5) else (ucast pat, len), e))"

subsection \<open>The cable\<close>

text \<open>
  The cable keeps up to 1024 pairs in a buffer of 256 bytes, four to a byte, TDI in the lower bit of
  a pair and TMS in the upper. \<open>wire\<close> is what the vendor's driver was handed so far. The driver is a
  parameter: from what was shifted before and the pairs to shift now it gives the TDO bytes, or
  \<open>None\<close> when the call fails.
\<close>

type_synonym driver = "(bool \<times> bool) list \<Rightarrow> (bool \<times> bool) list \<Rightarrow> u8 list option"

record digilent =
  cable_open :: bool
  tx :: "u8 list"
  rx :: "u8 list"
  bitcount :: u16
  jstate :: eJtagState
  wire :: "(bool \<times> bool) list"

datatype eScanMode = SCAN_MODE_READ | SCAN_MODE_WRITE | SCAN_MODE_READ_WRITE

definition pair_at :: "u8 list \<Rightarrow> nat \<Rightarrow> bool \<times> bool" where
  "pair_at b i = (bit (b ! (i div 4)) (2 * (i mod 4) + 1), bit (b ! (i div 4)) (2 * (i mod 4)))"

definition pairs :: "u8 list \<Rightarrow> nat \<Rightarrow> (bool \<times> bool) list" where
  "pairs b n = map (pair_at b) [0..<n]"

definition flushCable :: "driver \<Rightarrow> bool \<Rightarrow> digilent \<Rightarrow> bool \<times> digilent" where
  "flushCable drv bReadTDO d =
    (if \<not> cable_open d then (False, d)
     else if bitcount d = 0 then (True, d)
     else let ps = pairs (tx d) (unat (bitcount d)) in
       case drv (wire d) ps of
         None \<Rightarrow> (False, d)
       | Some r \<Rightarrow> (True, d\<lparr>wire := wire d @ ps, rx := if bReadTDO then r @ drop (length r) (rx d) else rx d,
             tx := (tx d)[0 := 0], bitcount := 0\<rparr>))"

text \<open>
  One pair put into the buffer, the step all loops share: the next position is \<open>uiByte\<close> and
  \<open>uiBit\<close>; \<open>full\<close> tells when the byte is used up and \<open>first\<close> is where the next one begins. The
  result has the next position and whether the buffer was flushed, or \<open>None\<close> when the flush failed.
\<close>

definition put_pair :: "driver \<Rightarrow> (u8 \<Rightarrow> bool) \<Rightarrow> u8 \<Rightarrow> bool \<Rightarrow> u8 \<Rightarrow> u8 \<times> u8 \<Rightarrow> digilent \<Rightarrow> ((u8 \<times> u8) \<times> bool) option \<times> digilent" where
  "put_pair drv full first rd data slot d = (let (uiByte, uiBit) = slot;
     d1 = d\<lparr>tx := (tx d)[unat uiByte := tx d ! unat uiByte OR push_bit (unat uiBit) data], bitcount := bitcount d + 1\<rparr> in
     if full (uiBit + 2) then
       if bitcount d1 = 1024 then
         (case flushCable drv rd d1 of
            (False, d2) \<Rightarrow> (None, d2)
          | (True, d2) \<Rightarrow> (Some ((0, first), True), d2\<lparr>tx := (tx d2)[0 := 0]\<rparr>))
       else (Some ((uiByte + 1, first), False), d1\<lparr>tx := (tx d1)[unat (uiByte + 1) := 0]\<rparr>)
     else (Some ((uiByte, uiBit + 2), False), d1))"

definition put_tms :: "driver \<Rightarrow> u16 \<Rightarrow> u8 \<times> u8 \<Rightarrow> digilent \<Rightarrow> ((u8 \<times> u8) \<times> bool) option \<times> digilent" where
  "put_tms drv pat = put_pair drv (\<lambda>b. b > 8) 1 False (ucast (pat AND 1))"

definition put_data :: "driver \<Rightarrow> bool \<Rightarrow> u8 \<Rightarrow> u8 \<times> u8 \<Rightarrow> digilent \<Rightarrow> ((u8 \<times> u8) \<times> bool) option \<times> digilent" where
  "put_data drv rd = put_pair drv (\<lambda>b. b = 8) 0 rd"

text \<open>Where the next pair goes: in \<open>navigate\<close> the position of its TMS bit, in a scan that of its TDI bit.\<close>

definition nav_slot :: "digilent \<Rightarrow> u8 \<times> u8" where
  "nav_slot d = (ucast (drop_bit 2 (bitcount d)), ucast (push_bit 1 (bitcount d AND 3)) + 1)"

definition scan_slot :: "digilent \<Rightarrow> u8 \<times> u8" where
  "scan_slot d = (ucast (drop_bit 2 (bitcount d)), ucast (push_bit 1 (bitcount d AND 3)))"

fun tms_loop :: "driver \<Rightarrow> nat \<Rightarrow> u16 \<Rightarrow> u8 \<times> u8 \<Rightarrow> digilent \<Rightarrow> (u8 \<times> u8) option \<times> digilent" where
  "tms_loop drv 0 pat slot d = (Some slot, d)"
| "tms_loop drv (Suc n) pat slot d =
    (case put_tms drv pat slot d of
       (None, d1) \<Rightarrow> (None, d1)
     | (Some (slot1, _), d1) \<Rightarrow> tms_loop drv n (drop_bit 1 pat) slot1 d1)"

text \<open>The counter has 8 bits, its bound 16: the loop does not end for a bound above 255.\<close>

partial_function (option) clock_loop :: "driver \<Rightarrow> u8 \<Rightarrow> u16 \<Rightarrow> u16 \<Rightarrow> u8 \<times> u8 \<Rightarrow> digilent \<Rightarrow> (bool \<times> digilent) option" where
  "clock_loop drv cnt clocks pat slot d =
    (if ucast cnt < clocks then
       (case put_tms drv pat slot d of
          (None, d1) \<Rightarrow> Some (False, d1)
        | (Some (slot1, _), d1) \<Rightarrow> clock_loop drv (cnt + 1) clocks pat slot1 d1)
     else Some (True, d))"

definition navigate :: "driver \<Rightarrow> eJtagState \<Rightarrow> u16 \<Rightarrow> digilent \<Rightarrow> (bool \<times> digilent) option" where
  "navigate drv e clocks d =
    (case getTmsPatternForState e (jstate d) of
       None \<Rightarrow> Some (False, d)
     | Some ((pat, bits), e1) \<Rightarrow>
         (let d0 = d\<lparr>jstate := e1\<rparr> in
          case tms_loop drv (unat bits) pat (nav_slot d0) d0 of
            (None, d1) \<Rightarrow> Some (False, d1)
          | (Some slot, d1) \<Rightarrow>
              (case getTmsPatternForState e (jstate d1) of
                 None \<Rightarrow> Some (True, d1)
               | Some ((pat2, bits2), e2) \<Rightarrow>
                   (let d2 = d1\<lparr>jstate := e2\<rparr> in
                    if clocks = 0 \<or> bits2 > 1 then Some (True, d2) else clock_loop drv 0 clocks pat2 slot d2))))"

text \<open>\<open>nav_then\<close>: go on when navigation succeeded.\<close>

definition nav_then :: "(bool \<times> digilent) option \<Rightarrow> (digilent \<Rightarrow> (bool \<times> 'a \<times> digilent) option) \<Rightarrow> 'a \<Rightarrow> (bool \<times> 'a \<times> digilent) option" where
  "nav_then r k a = (case r of None \<Rightarrow> None | Some (False, d) \<Rightarrow> Some (False, a, d) | Some (True, d) \<Rightarrow> k d)"

subsection \<open>Scans\<close>

text \<open>
  The loops run over the bit numbers. The TDI buffer is a list of bytes; a byte is fetched
  at every eighth bit. The last bit is clocked with TMS set.
\<close>

fun ir_loop :: "driver \<Rightarrow> u8 list \<Rightarrow> nat \<Rightarrow> nat list \<Rightarrow> u8 \<times> u8 \<Rightarrow> u8 \<Rightarrow> digilent \<Rightarrow> bool \<times> digilent" where
  "ir_loop drv tdi n [] slot pat d = (True, d)"
| "ir_loop drv tdi n (i # is) slot pat d =
    (let pat1 = if i mod 8 = 0 then tdi ! (i div 8) else pat;
         tms = if i = n - 1 then 2 else 0 in
     case put_data drv False ((pat1 AND 1) OR tms) slot d of
       (None, d1) \<Rightarrow> (False, d1)
     | (Some (slot1, _), d1) \<Rightarrow> ir_loop drv tdi n is slot1 (drop_bit 1 pat1) d1)"

fun dr_loop :: "driver \<Rightarrow> eScanMode \<Rightarrow> u8 list \<Rightarrow> nat \<Rightarrow> nat list \<Rightarrow> u8 \<times> u8 \<Rightarrow> u8 \<Rightarrow> u8 list \<Rightarrow> digilent \<Rightarrow> bool \<times> u8 list \<times> digilent" where
  "dr_loop drv mode tdi n [] slot pat tdo d = (True, tdo, d)"
| "dr_loop drv mode tdi n (i # is) slot pat tdo d =
    (let pat1 = if i mod 8 = 0 \<and> mode \<noteq> SCAN_MODE_READ then tdi ! (i div 8) else pat;
         tms = if i = n - 1 then 2 else 0;
         uiTdi = if mode \<noteq> SCAN_MODE_READ then pat1 AND 1 else 0;
         pat2 = if mode \<noteq> SCAN_MODE_READ then drop_bit 1 pat1 else pat1 in
     case put_data drv (mode \<noteq> SCAN_MODE_WRITE) (uiTdi OR tms) slot d of
       (None, d1) \<Rightarrow> (False, tdo, d1)
     | (Some (slot1, flushed), d1) \<Rightarrow>
         dr_loop drv mode tdi n is slot1 pat2
           (if flushed \<and> mode \<noteq> SCAN_MODE_WRITE then tdo @ take 128 (rx d1) else tdo) d1)"

definition shiftChainIR :: "driver \<Rightarrow> u8 list option \<Rightarrow> u32 \<Rightarrow> digilent \<Rightarrow> (bool \<times> unit \<times> digilent) option" where
  "shiftChainIR drv tdi uiBitCount d =
    (if uiBitCount \<noteq> 0 \<and> tdi = None then Some (False, (), d)
     else nav_then (navigate drv CAPTURE_IR 0 d) (\<lambda>d1.
       if uiBitCount = 0 then nav_then (navigate drv RUN_TEST_IDLE 0 d1) (\<lambda>d2. Some (True, (), d2)) ()
       else nav_then (navigate drv SHIFT_IR 0 d1) (\<lambda>d2.
         (case ir_loop drv (the tdi) (unat uiBitCount) [0..<unat uiBitCount] (scan_slot d2) 0 d2 of
            (False, d3) \<Rightarrow> Some (False, (), d3)
          | (True, d3) \<Rightarrow>
              nav_then (navigate drv RUN_TEST_IDLE 0 (d3\<lparr>jstate := EXIT1_IR\<rparr>)) (\<lambda>d4. Some (True, (), d4)) ())) ()) ())"

text \<open>Besides the result, the bytes written to the TDO buffer, from its start. \<open>tdo\<close> tells whether there is one.\<close>

definition shift_rest :: "driver \<Rightarrow> eScanMode \<Rightarrow> u8 list \<Rightarrow> digilent \<Rightarrow> bool \<times> u8 list \<times> digilent" where
  "shift_rest drv mode out d =
    (if bitcount d \<noteq> 0 \<and> mode \<noteq> SCAN_MODE_WRITE then
       (let uiBytes = ucast (drop_bit 3 (bitcount d + 7)) :: u8 in
        case flushCable drv True d of
          (False, d1) \<Rightarrow> (False, out, d1)
        | (True, d1) \<Rightarrow> (True, out @ take (unat uiBytes) (rx d1), d1))
     else (True, out, d))"

definition shiftChainDR :: "driver \<Rightarrow> u8 list option \<Rightarrow> bool \<Rightarrow> u32 \<Rightarrow> eScanMode \<Rightarrow> digilent \<Rightarrow> (bool \<times> u8 list \<times> digilent) option" where
  "shiftChainDR drv tdi tdo uiBitCount mode d =
    (if mode \<noteq> SCAN_MODE_WRITE \<and> \<not> tdo \<and> uiBitCount \<noteq> 0 then Some (False, [], d)
     else if mode \<noteq> SCAN_MODE_READ \<and> tdi = None \<and> uiBitCount \<noteq> 0 then Some (False, [], d)
     else nav_then (navigate drv CAPTURE_DR 0 d) (\<lambda>d1.
       if uiBitCount = 0 then nav_then (navigate drv RUN_TEST_IDLE 0 d1) (\<lambda>d2. Some (True, [], d2)) []
       else nav_then (navigate drv SHIFT_DR 0 d1) (\<lambda>d2.
         (case (if mode \<noteq> SCAN_MODE_WRITE then flushCable drv False d2 else (True, d2)) of
            (False, d3) \<Rightarrow> Some (False, [], d3)
          | (True, d3) \<Rightarrow>
         (case dr_loop drv mode (case tdi of None \<Rightarrow> [] | Some b \<Rightarrow> b) (unat uiBitCount) [0..<unat uiBitCount] (scan_slot d3) 0 [] d3 of
            (False, out, d4) \<Rightarrow> Some (False, out, d4)
          | (True, out, d4) \<Rightarrow>
         (case shift_rest drv mode out d4 of
            (False, out1, d5) \<Rightarrow> Some (False, out1, d5)
          | (True, out1, d5) \<Rightarrow>
              nav_then (navigate drv RUN_TEST_IDLE 0 (d5\<lparr>jstate := EXIT1_DR\<rparr>)) (\<lambda>d6. Some (True, out1, d6)) out1)))) []) [])"

definition setJtagState :: "eJtagState \<Rightarrow> digilent \<Rightarrow> bool \<times> digilent" where
  "setJtagState e d = (if enum_of e > enum_of UNKNOWN_JTAG_STATE then (False, d) else (True, d\<lparr>jstate := e\<rparr>))"

text \<open>\<open>closeCable\<close> with the answers of the two calls that disable the port and close the device.\<close>

definition closeCable :: "driver \<Rightarrow> bool \<Rightarrow> bool \<Rightarrow> digilent \<Rightarrow> bool \<times> digilent" where
  "closeCable drv disabled closed d =
    (if cable_open d then
       (let d1 = snd (flushCable drv False d) in
        if \<not> disabled then (False, d1) else if \<not> closed then (False, d1) else (False, d1\<lparr>cable_open := False\<rparr>))
     else (False, d\<lparr>cable_open := False\<rparr>))"

text \<open>The end of \<open>openCable\<close>, once the vendor's calls have succeeded, before the frequency is set:
  the transmit buffer is not cleared.\<close>

definition opened :: "digilent \<Rightarrow> digilent" where
  "opened d = d\<lparr>cable_open := True, bitcount := 0, jstate := UNKNOWN_JTAG_STATE\<rparr>"

text \<open>The two pins calls that change the state: \<open>pulsePin\<close> does nothing, \<open>setPin\<close> flushes first.\<close>

datatype eJtagPin = JTAG_PIN_TCK | JTAG_PIN_TDI | JTAG_PIN_TMS | JTAG_PIN_TDO

definition pulsePin :: "eJtagPin \<Rightarrow> u16 \<Rightarrow> digilent \<Rightarrow> bool" where
  "pulsePin pin cnt d = (if \<not> cable_open d \<or> pin = JTAG_PIN_TDO then False else cnt = 0)"

text \<open>\<open>jtag_access::resetJtag\<close>, the only use of clocks in the library.\<close>

definition resetJtag :: "driver \<Rightarrow> digilent \<Rightarrow> (bool \<times> unit \<times> digilent) option" where
  "resetJtag drv d = (if \<not> cable_open d then Some (False, (), d)
     else nav_then (navigate drv TEST_LOGIC_RESET 5 d) (\<lambda>d1.
       nav_then (navigate drv RUN_TEST_IDLE 0 d1) (\<lambda>d2. Some (True, (), d2)) ()) ())"

subsection \<open>The buffer is a queue\<close>

text \<open>What was clocked or is waiting in the buffer, in order.\<close>

definition stream :: "digilent \<Rightarrow> (bool \<times> bool) list" where
  "stream d = wire d @ pairs (tx d) (unat (bitcount d))"

text \<open>The buffer is sound when the part of its current byte that is not used yet is zero.\<close>

definition buf_ok :: "digilent \<Rightarrow> bool" where
  "buf_ok d \<longleftrightarrow> cable_open d \<and> length (tx d) = 256 \<and> unat (bitcount d) < 1024 \<and>
     (\<forall>k<8. 2 * (unat (bitcount d) mod 4) \<le> k \<longrightarrow> \<not> bit (tx d ! (unat (bitcount d) div 4)) k)"

lemma pair_at_upd: "i div 4 \<noteq> j \<Longrightarrow> pair_at (b[j := x]) i = pair_at b i"
  by (simp add: pair_at_def)

lemma pairs_upd: "\<forall>i<n. i div 4 \<noteq> j \<Longrightarrow> pairs (b[j := x]) n = pairs b n"
  by (simp add: pairs_def pair_at_upd)

lemma pairs_Suc: "pairs b (Suc n) = pairs b n @ [pair_at b n]"
  by (simp add: pairs_def)

text \<open>Setting the bits of one pair in the current byte leaves the pairs before it.\<close>

lemma pairs_put:
  assumes j: "j = n div 4" "j < length b"
    and x: "\<And>k. bit x k \<longleftrightarrow> k = 2 * (n mod 4) \<and> td \<or> k = 2 * (n mod 4) + 1 \<and> tm"
    and z: "\<And>k. k < 8 \<Longrightarrow> 2 * (n mod 4) \<le> k \<Longrightarrow> \<not> bit (b ! j) k"
  shows "pairs (b[j := b ! j OR (x :: u8)]) (Suc n) = pairs b n @ [(tm, td)]"
proof -
  have "pair_at (b[j := b ! j OR x]) i = pair_at b i" if "i < n" for i
  proof (cases "i div 4 = j")
    case True
    have "i = 4 * j + i mod 4" "n = 4 * j + n mod 4" using True j(1) by (metis mult_div_mod_eq)+
    then have "i mod 4 < n mod 4" using that by linarith
    then show ?thesis using True j(2) by (auto simp: pair_at_def bit_or_iff x)
  qed (simp add: pair_at_upd)
  then have "pairs (b[j := b ! j OR x]) n = pairs b n" by (simp add: pairs_def)
  moreover have "n mod 4 < 4" by simp
  then have "2 * (n mod 4) < 8" "2 * (n mod 4) + 1 < 8" by linarith+
  then have "pair_at (b[j := b ! j OR x]) n = (tm, td)"
    using z [of "2 * (n mod 4)"] z [of "2 * (n mod 4) + 1"] j by (auto simp: pair_at_def bit_or_iff x)
  ultimately show ?thesis by (simp add: pairs_Suc)
qed

text \<open>A driver that never fails.\<close>

definition driver_ok :: "driver \<Rightarrow> bool" where
  "driver_ok drv \<longleftrightarrow> (\<forall>h ps. drv h ps \<noteq> None)"

lemma flush_ok:
  assumes "driver_ok drv" "cable_open d" "length (tx d) = 256"
  shows "\<exists>d1. flushCable drv rd d = (True, d1) \<and> stream d1 = stream d \<and> bitcount d1 = 0 \<and> jstate d1 = jstate d \<and>
    cable_open d1 \<and> length (tx d1) = 256 \<and> (bitcount d = 0 \<longrightarrow> tx d1 = tx d) \<and> (bitcount d \<noteq> 0 \<longrightarrow> tx d1 ! 0 = 0)"
proof (cases "bitcount d = 0")
  case True then show ?thesis using assms by (simp add: flushCable_def)
next
  case False
  obtain r where "drv (wire d) (pairs (tx d) (unat (bitcount d))) = Some r" using assms(1) by (auto simp: driver_ok_def)
  then show ?thesis using False assms(2,3) by (simp add: flushCable_def Let_def stream_def pairs_def)
qed

lemma flush_buf_ok:
  assumes "driver_ok drv" "buf_ok d"
  shows "\<exists>d1. flushCable drv rd d = (True, d1) \<and> stream d1 = stream d \<and> buf_ok d1 \<and> jstate d1 = jstate d \<and> bitcount d1 = 0"
  using flush_ok [OF assms(1), of d rd] assms(2) by (cases "bitcount d = 0") (fastforce simp: buf_ok_def)+

text \<open>The positions as numbers.\<close>

lemma unat_slot:
  assumes "unat (bitcount d) < 1024"
  shows "unat (fst (nav_slot d)) = unat (bitcount d) div 4" "unat (snd (nav_slot d)) = 2 * (unat (bitcount d) mod 4) + 1"
    "unat (fst (scan_slot d)) = unat (bitcount d) div 4" "unat (snd (scan_slot d)) = 2 * (unat (bitcount d) mod 4) + 0"
proof -
  let ?b = "bitcount d"
  have q: "unat (ucast (drop_bit 2 ?b) :: u8) = unat ?b div 4"
    using assms by (simp add: unsigned_ucast_eq unsigned_drop_bit_eq take_bit_nat_eq_self drop_bit_nat_def)
  have three: "(3 :: u16) = mask 2" by (simp add: mask_eq_exp_minus_1)
  have m: "unat (?b AND 3) = unat ?b mod 4"
    by (simp add: three take_bit_eq_mask [symmetric] unsigned_take_bit_eq take_bit_nat_def)
  have m4: "unat ?b mod 4 < 4" by simp
  have "unat (ucast (push_bit 1 w) :: u8) = 2 * unat w" if "unat w < 4" for w :: u16
  proof -
    have "unat (push_bit 1 w) = 2 * unat w" using that by (simp add: unat_word_ariths(2) mult.commute)
    then show ?thesis using that by (simp add: unsigned_ucast_eq take_bit_nat_def)
  qed
  from this [of "?b AND 3"] have r: "unat (ucast (push_bit 1 (?b AND 3)) :: u8) = 2 * (unat ?b mod 4)"
    using m m4 by argo
  have r1: "unat ((ucast (push_bit 1 (?b AND 3)) :: u8) + 1) = 2 * (unat ?b mod 4) + 1"
    using m4 r by (subst unat_word_ariths(1)) simp
  show "unat (fst (nav_slot d)) = unat ?b div 4" "unat (snd (nav_slot d)) = 2 * (unat ?b mod 4) + 1"
    "unat (fst (scan_slot d)) = unat ?b div 4" "unat (snd (scan_slot d)) = 2 * (unat ?b mod 4) + 0"
    using q r r1 by (simp_all add: nav_slot_def scan_slot_def)
qed

lemma count_cases:
  fixes n :: nat
  assumes "n < 1024"
  obtains "n mod 4 < 3" "Suc n div 4 = n div 4" "Suc n mod 4 = Suc (n mod 4)" "Suc n < 1024"
  | "n mod 4 = 3" "Suc n = 1024" "n div 4 = 255"
  | "n mod 4 = 3" "Suc n < 1024" "Suc n mod 4 = 0" "Suc n div 4 = Suc (n div 4)" "n div 4 < 255"
proof -
  have n: "n = 4 * (n div 4) + n mod 4" by simp
  have "n mod 4 < 4" by simp
  then consider "n mod 4 < 3" | "n mod 4 = 3" by linarith
  then show thesis
  proof cases
    case 1
    have "Suc n mod 4 = Suc (n mod 4)" using 1 by (simp add: mod_Suc)
    moreover have "Suc n div 4 = n div 4" using 1 by (simp add: div_Suc mod_Suc)
    moreover have "n \<noteq> 1023" using 1 by auto
    then have "Suc n < 1024" using assms by simp
    ultimately show thesis using that(1) 1 by blast
  next
    case 2
    show thesis
    proof (cases "Suc n = 1024")
      case True then show thesis using that(2) 2 by simp
    next
      case False
      then have "Suc n < 1024" using assms by simp
      moreover have "Suc n mod 4 = 0" "Suc n div 4 = Suc (n div 4)" using 2 by (simp_all add: mod_Suc div_Suc)
      moreover have "n div 4 < 255" using n 2 \<open>Suc n < 1024\<close> by linarith
      ultimately show thesis by (rule that(3) [OF 2])
    qed
  qed
qed

lemma put_pair_ok:
  assumes drv: "driver_ok drv" and ok: "buf_ok d"
    and slot: "unat yb = unat (bitcount d) div 4" "unat bi = 2 * (unat (bitcount d) mod 4) + c" "c < 2"
    and x: "\<And>k. bit (push_bit (unat bi) data) k \<longleftrightarrow>
      k = 2 * (unat (bitcount d) mod 4) \<and> td \<or> k = 2 * (unat (bitcount d) mod 4) + 1 \<and> tm"
    and full: "full (bi + 2) \<longleftrightarrow> unat (bitcount d) mod 4 = 3"
  shows "\<exists>yb1 bi1 fl d1. put_pair drv full (of_nat c) rd data (yb, bi) d = (Some ((yb1, bi1), fl), d1) \<and>
    buf_ok d1 \<and> stream d1 = stream d @ [(tm, td)] \<and> jstate d1 = jstate d \<and>
    unat yb1 = unat (bitcount d1) div 4 \<and> unat bi1 = 2 * (unat (bitcount d1) mod 4) + c"
proof -
  let ?n = "unat (bitcount d)"
  let ?d1 = "d\<lparr>tx := (tx d)[unat yb := tx d ! unat yb OR push_bit (unat bi) data], bitcount := bitcount d + 1\<rparr>"
  have n: "?n < 1024" and len: "length (tx d) = 256" and open_: "cable_open d"
    and z: "\<And>k. k < 8 \<Longrightarrow> 2 * (?n mod 4) \<le> k \<Longrightarrow> \<not> bit (tx d ! (?n div 4)) k"
    using ok by (auto simp: buf_ok_def)
  have yb: "unat yb < 256" using n slot(1) by simp
  have cnt: "unat (bitcount d + 1) = Suc ?n" using n by (subst unat_word_ariths(1)) simp
  have p: "pairs (tx ?d1) (Suc ?n) = pairs (tx d) ?n @ [(tm, td)]"
    using pairs_put [OF slot(1), of "tx d" "push_bit (unat bi) data" td tm] len x z slot(1) yb by simp
  then have st: "stream ?d1 = stream d @ [(tm, td)]" by (simp add: stream_def cnt)
  have bi2: "unat (bi + 2) = unat bi + 2" if "unat bi < 250" using that by (subst unat_word_ariths(1)) simp
  from n show ?thesis
  proof (cases rule: count_cases)
    case 1
    have "\<not> bit (tx ?d1 ! unat yb) k" if "k < 8" "2 * Suc (?n mod 4) \<le> k" for k
      using that z [of k] len slot(1) yb by (simp add: bit_or_iff x)
    then have "buf_ok ?d1" using 1 open_ len slot(1) by (simp add: buf_ok_def cnt)
    moreover have "\<not> full (bi + 2)" using full 1 by simp
    ultimately show ?thesis using st 1 slot bi2 by (auto simp: put_pair_def Let_def cnt)
  next
    case 2
    have b: "bitcount ?d1 = 1024" using cnt 2 by (simp add: word_unat_eq_iff)
    obtain d2 where d2: "flushCable drv rd ?d1 = (True, d2)" "stream d2 = stream ?d1" "bitcount d2 = 0" "jstate d2 = jstate d"
        "cable_open d2" "length (tx d2) = 256" 
      using flush_ok [OF drv, of ?d1 rd] open_ len by auto
    have "stream (d2\<lparr>tx := (tx d2)[0 := 0]\<rparr>) = stream d2" using d2(3) by (simp add: stream_def pairs_def)
    moreover have "buf_ok (d2\<lparr>tx := (tx d2)[0 := 0]\<rparr>)" using d2 by (simp add: buf_ok_def)
    ultimately show ?thesis using d2 st full 2 b slot(3)
      by (auto simp: put_pair_def Let_def take_bit_nat_eq_self unat_of_nat)
  next
    case 3
    have b: "bitcount ?d1 \<noteq> 1024" using cnt 3 by (auto simp: word_unat_eq_iff)
    have yb1: "unat (yb + 1) = Suc (?n div 4)" using 3 slot(1) by (subst unat_word_ariths(1)) simp
    let ?d2 = "?d1\<lparr>tx := (tx ?d1)[unat (yb + 1) := 0]\<rparr>"
    have "i div 4 \<noteq> unat (yb + 1)" if "i < Suc ?n" for i using div_le_mono [of i ?n 4] that yb1 by simp
    then have "stream ?d2 = stream ?d1" by (simp add: stream_def cnt pairs_upd)
    moreover have "buf_ok ?d2" using 3 yb1 len open_ cnt by (simp add: buf_ok_def)
    ultimately show ?thesis using st full 3 b yb1 slot(3) cnt
      by (auto simp: put_pair_def Let_def take_bit_nat_eq_self unat_of_nat)
  qed
qed

lemma low_bit: "ucast (pat AND 1 :: u16) = (of_bool (bit pat 0) :: u8)" "(b :: u8) AND 1 = of_bool (bit b 0)"
  by (simp_all add: and_one_eq mod_2_eq_odd bit_0)

lemma bit_one_pair:
  "j < 8 \<Longrightarrow> bit (push_bit j (of_bool b) :: u8) k \<longleftrightarrow> k = j \<and> b"
  "j < 7 \<Longrightarrow> bit (push_bit j (of_bool td OR (if tm then 2 else 0)) :: u8) k \<longleftrightarrow> k = j \<and> td \<or> k = j + 1 \<and> tm"
proof -
  show "j < 8 \<Longrightarrow> bit (push_bit j (of_bool b) :: u8) k \<longleftrightarrow> k = j \<and> b"
    by (auto simp: bit_push_bit_iff bit_of_bool_iff)
  have two: "bit (2 :: u8) i \<longleftrightarrow> i = 1" for i
    using bit_exp_iff [of 1 i, where 'a = u8] by auto
  have e: "bit (if tm then 2 else 0 :: u8) i \<longleftrightarrow> i = 1 \<and> tm" for i
    by (cases tm) (simp_all only: two if_True if_False bit_0 simp_thms, simp_all)
  show "j < 7 \<Longrightarrow> bit (push_bit j (of_bool td OR (if tm then 2 else 0)) :: u8) k \<longleftrightarrow> k = j \<and> td \<or> k = j + 1 \<and> tm"
    unfolding bit_push_bit_iff bit_or_iff bit_of_bool_iff e by auto
qed

lemma unat_up: "unat (ucast (c :: u8) :: u16) = unat c"
  using unsigned_less [of c, where 'a = nat] by (simp add: unsigned_ucast_eq take_bit_nat_eq_self)

lemma put_tms_ok:
  assumes "driver_ok drv" "buf_ok d"
  shows "\<exists>fl d1. put_tms drv pat (nav_slot d) d = (Some (nav_slot d1, fl), d1) \<and> buf_ok d1 \<and>
    stream d1 = stream d @ [(bit pat 0, False)] \<and> jstate d1 = jstate d"
proof -
  obtain yb bi where sl: "nav_slot d = (yb, bi)" by fastforce
  have n: "unat (bitcount d) < 1024" using assms(2) by (simp add: buf_ok_def)
  note u = unat_slot(1,2) [OF n, unfolded sl fst_conv snd_conv]
  have m: "unat (bitcount d) mod 4 < 4" by simp
  then have bi: "unat (bi + 2) = 2 * (unat (bitcount d) mod 4) + 3" using u(2) by (subst unat_word_ariths(1)) simp
  have full: "(bi + 2 > 8) \<longleftrightarrow> unat (bitcount d) mod 4 = 3" using m by (simp add: word_less_nat_alt bi) arith
  have x: "bit (push_bit (unat bi) (of_bool (bit pat 0)) :: u8) k \<longleftrightarrow>
      k = 2 * (unat (bitcount d) mod 4) \<and> False \<or> k = 2 * (unat (bitcount d) mod 4) + 1 \<and> bit pat 0" for k
    using bit_one_pair(1) [of "unat bi"] m u(2) by simp
  obtain yb1 bi1 fl d1 where p: "put_pair drv (\<lambda>b. b > 8) (of_nat 1) False (of_bool (bit pat 0)) (yb, bi) d = (Some ((yb1, bi1), fl), d1)"
      "buf_ok d1" "stream d1 = stream d @ [(bit pat 0, False)]" "jstate d1 = jstate d"
      "unat yb1 = unat (bitcount d1) div 4" "unat bi1 = 2 * (unat (bitcount d1) mod 4) + 1"
    using put_pair_ok [where full = "\<lambda>b. b > 8" and rd = False and c = 1 and data = "of_bool (bit pat 0)", OF assms u _ x full] by auto
  have "unat (bitcount d1) < 1024" using p(2) by (simp add: buf_ok_def)
  from unat_slot(1,2) [OF this] have "nav_slot d1 = (yb1, bi1)" using p(5,6) by (simp add: prod_eq_iff word_unat_eq_iff)
  then show ?thesis using p by (simp add: put_tms_def sl low_bit)
qed

lemma put_data_ok:
  assumes "driver_ok drv" "buf_ok d"
  shows "\<exists>fl d1. put_data drv rd (of_bool td OR (if tm then 2 else 0)) (scan_slot d) d = (Some (scan_slot d1, fl), d1) \<and>
    buf_ok d1 \<and> stream d1 = stream d @ [(tm, td)] \<and> jstate d1 = jstate d"
proof -
  obtain yb bi where sl: "scan_slot d = (yb, bi)" by fastforce
  have n: "unat (bitcount d) < 1024" using assms(2) by (simp add: buf_ok_def)
  note u = unat_slot(3,4) [OF n, unfolded sl fst_conv snd_conv]
  have m: "unat (bitcount d) mod 4 < 4" by simp
  then have bi: "unat (bi + 2) = 2 * (unat (bitcount d) mod 4) + 2" using u(2) by (subst unat_word_ariths(1)) simp
  have full: "(bi + 2 = 8) \<longleftrightarrow> unat (bitcount d) mod 4 = 3" using m by (simp add: word_unat_eq_iff bi)
  have x: "bit (push_bit (unat bi) (of_bool td OR (if tm then 2 else 0)) :: u8) k \<longleftrightarrow>
      k = 2 * (unat (bitcount d) mod 4) \<and> td \<or> k = 2 * (unat (bitcount d) mod 4) + 1 \<and> tm" for k
    using bit_one_pair(2) [of "unat bi" td tm k] m u(2) by simp
  obtain yb1 bi1 fl d1 where p: "put_pair drv (\<lambda>b. b = 8) (of_nat 0) rd (of_bool td OR (if tm then 2 else 0)) (yb, bi) d = (Some ((yb1, bi1), fl), d1)"
      "buf_ok d1" "stream d1 = stream d @ [(tm, td)]" "jstate d1 = jstate d"
      "unat yb1 = unat (bitcount d1) div 4" "unat bi1 = 2 * (unat (bitcount d1) mod 4) + 0"
    using put_pair_ok [where full = "\<lambda>b. b = 8" and rd = rd and c = 0 and data = "of_bool td OR (if tm then 2 else 0)", OF assms u _ x full] by auto
  have "unat (bitcount d1) < 1024" using p(2) by (simp add: buf_ok_def)
  from unat_slot(3,4) [OF this] have "scan_slot d1 = (yb1, bi1)" using p(5,6) by (simp add: prod_eq_iff word_unat_eq_iff)
  then show ?thesis using p by (simp add: put_data_def sl)
qed

definition tms_bits :: "u16 \<Rightarrow> nat \<Rightarrow> (bool \<times> bool) list" where
  "tms_bits pat n = map (\<lambda>k. (bit pat k, False)) [0..<n]"

lemma tms_bits_Suc: "tms_bits pat (Suc n) = (bit pat 0, False) # tms_bits (drop_bit 1 pat) n"
  by (simp add: tms_bits_def upt_conv_Cons map_Suc_upt [symmetric] bit_drop_bit_eq del: upt_Suc)

lemma tms_loop_ok:
  assumes "driver_ok drv" "buf_ok d"
  shows "\<exists>d1. tms_loop drv n pat (nav_slot d) d = (Some (nav_slot d1), d1) \<and> buf_ok d1 \<and>
    stream d1 = stream d @ tms_bits pat n \<and> jstate d1 = jstate d"
  using assms(2)
proof (induction n arbitrary: d pat)
  case 0 then show ?case by (simp add: tms_bits_def)
next
  case (Suc n)
  obtain fl d1 where p: "put_tms drv pat (nav_slot d) d = (Some (nav_slot d1, fl), d1)" "buf_ok d1"
      "stream d1 = stream d @ [(bit pat 0, False)]" "jstate d1 = jstate d"
    using put_tms_ok [OF assms(1) Suc.prems] by blast
  from Suc.IH [OF p(2)] show ?case using p by (auto simp: tms_bits_Suc)
qed

lemma clock_loop_ok:
  assumes "driver_ok drv" "buf_ok d" "unat cnt \<le> unat clocks" "unat clocks < 256"
  shows "\<exists>d1. clock_loop drv cnt clocks pat (nav_slot d) d = Some (True, d1) \<and> buf_ok d1 \<and>
    stream d1 = stream d @ replicate (unat clocks - unat cnt) (bit pat 0, False) \<and> jstate d1 = jstate d"
  using assms(2,3)
proof (induction "unat clocks - unat cnt" arbitrary: d cnt)
  case 0
  then have "\<not> ucast cnt < clocks" by (simp add: word_less_nat_alt unat_up)
  then show ?case using 0 by (subst clock_loop.simps) simp
next
  case (Suc n)
  have lt: "unat cnt < unat clocks" using Suc.hyps(2) by linarith
  then have g: "ucast cnt < clocks" by (simp add: word_less_nat_alt unat_up)
  have c: "unat (cnt + 1) = Suc (unat cnt)" using lt assms(4) by (subst unat_word_ariths(1)) simp
  obtain fl d1 where p: "put_tms drv pat (nav_slot d) d = (Some (nav_slot d1, fl), d1)" "buf_ok d1"
      "stream d1 = stream d @ [(bit pat 0, False)]" "jstate d1 = jstate d"
    using put_tms_ok [OF assms(1) Suc.prems(1)] by blast
  have "n = unat clocks - unat (cnt + 1)" "unat (cnt + 1) \<le> unat clocks" using Suc.hyps(2) c lt by linarith+
  from Suc.hyps(1) [OF this(1) p(2) this(2)] obtain d2 where q:
      "clock_loop drv (cnt + 1) clocks pat (nav_slot d1) d1 = Some (True, d2)" "buf_ok d2"
      "stream d2 = stream d1 @ replicate (unat clocks - unat (cnt + 1)) (bit pat 0, False)" "jstate d2 = jstate d1"
    by blast
  have "unat clocks - unat cnt = Suc (unat clocks - unat (cnt + 1))" using c lt by linarith
  then show ?case using p q g by (subst clock_loop.simps) simp
qed

text \<open>A bound above 255 is never reached.\<close>

lemma clock_loop_endless:
  assumes "driver_ok drv" "256 \<le> unat clocks" "buf_ok d"
  shows "clock_loop drv cnt clocks pat (nav_slot d) d = None"
proof (rule ccontr)
  assume "clock_loop drv cnt clocks pat (nav_slot d) d \<noteq> None"
  then obtain r where r: "clock_loop drv cnt clocks pat (nav_slot d) d = Some r" by auto
  have "drv = drv \<longrightarrow> clocks = clocks \<longrightarrow> nav_slot d = nav_slot d \<longrightarrow> buf_ok d \<longrightarrow> False"
  proof (rule clock_loop.raw_induct [where P = "\<lambda>drv' _ clocks' _ slot e _. drv' = drv \<longrightarrow> clocks' = clocks \<longrightarrow> slot = nav_slot e \<longrightarrow> buf_ok e \<longrightarrow> False", OF _ r])
    fix f drv' clocks' pat' slot e y and cnt' :: u8
    assume IH: "\<And>drv' cnt' clocks' pat' slot e y. f drv' cnt' clocks' pat' slot e = Some y \<Longrightarrow>
        drv' = drv \<longrightarrow> clocks' = clocks \<longrightarrow> slot = nav_slot e \<longrightarrow> buf_ok e \<longrightarrow> False"
      and body: "(if ucast cnt' < clocks' then
         (case put_tms drv' pat' slot e of (None, d1) \<Rightarrow> Some (False, d1)
          | (Some (slot1, _), d1) \<Rightarrow> f drv' (cnt' + 1) clocks' pat' slot1 d1)
         else Some (True, e)) = Some y"
    show "drv' = drv \<longrightarrow> clocks' = clocks \<longrightarrow> slot = nav_slot e \<longrightarrow> buf_ok e \<longrightarrow> False"
    proof (intro impI)
      assume e: "drv' = drv" "clocks' = clocks" "slot = nav_slot e" "buf_ok e"
      have "unat cnt' < 256" using unsigned_less [of cnt', where 'a = nat] by simp
      then have g: "ucast cnt' < clocks" using assms(2) by (simp add: word_less_nat_alt unat_up)
      obtain fl d1 where p: "put_tms drv pat' (nav_slot e) e = (Some (nav_slot d1, fl), d1)" "buf_ok d1"
        using put_tms_ok [OF assms(1) e(4)] by blast
      then show False using body IH [of drv "cnt' + 1" clocks pat' "nav_slot d1" d1 y] e g by simp
    qed
  qed
  then show False using assms(3) by simp
qed

lemma enum_table: "e \<noteq> UNKNOWN_JTAG_STATE \<Longrightarrow> enum_of e < 16"
  by (cases e) simp_all

text \<open>The diagonal of the table: no move, or one clock in the two states that allow it.\<close>

lemma stay:
  assumes "e \<noteq> UNKNOWN_JTAG_STATE"
  shows "\<exists>pat bits. getTmsPatternForState e e = Some ((pat, bits), e) \<and> \<not> bits > 1 \<and> bit pat 0 = (e = TEST_LOGIC_RESET)"
  using assms by (cases e) (simp_all add: getTmsPatternForState_def m_cTMSPattern_def)

lemma navigate_tms:
  assumes "driver_ok drv" "buf_ok d" "getTmsPatternForState e (jstate d) = Some ((pat, bits), e)"
  obtains d1 pat2 where "navigate drv e clocks d = (if clocks = 0 then Some (True, d1) else clock_loop drv 0 clocks pat2 (nav_slot d1) d1)"
    "buf_ok d1" "stream d1 = stream d @ tms_bits pat (unat bits)" "jstate d1 = e" "bit pat2 0 = (e = TEST_LOGIC_RESET)"
proof -
  have "e \<noteq> UNKNOWN_JTAG_STATE" using assms(3) by (auto simp: getTmsPatternForState_def)
  from stay [OF this] obtain pat2 bits2 where st: "getTmsPatternForState e e = Some ((pat2, bits2), e)" "\<not> bits2 > 1"
      "bit pat2 0 = (e = TEST_LOGIC_RESET)" by blast
  let ?d0 = "d\<lparr>jstate := e\<rparr>"
  have ok0: "buf_ok ?d0" "stream ?d0 = stream d" using assms(2) by (simp_all add: buf_ok_def stream_def)
  obtain d1 where d1: "tms_loop drv (unat bits) pat (nav_slot ?d0) ?d0 = (Some (nav_slot d1), d1)" "buf_ok d1"
      "stream d1 = stream d @ tms_bits pat (unat bits)" "jstate d1 = e"
    using tms_loop_ok [OF assms(1) ok0(1), of "unat bits" pat] ok0(2) by auto
  have same: "d1\<lparr>jstate := e\<rparr> = d1" using d1(4) by simp
  have "navigate drv e clocks d = (if clocks = 0 then Some (True, d1) else clock_loop drv 0 clocks pat2 (nav_slot d1) d1)"
    using assms(3) d1(1,4) st(1,2) by (simp add: navigate_def Let_def same)
  then show thesis using that d1 st(3) by blast
qed

lemma navigate_ok:
  assumes "driver_ok drv" "buf_ok d" "getTmsPatternForState e (jstate d) = Some ((pat, bits), e)" "unat clocks < 256"
  shows "\<exists>d1. navigate drv e clocks d = Some (True, d1) \<and> buf_ok d1 \<and> jstate d1 = e \<and>
    stream d1 = stream d @ tms_bits pat (unat bits) @ replicate (unat clocks) (e = TEST_LOGIC_RESET, False)"
proof -
  obtain d1 pat2 where nav: "navigate drv e clocks d = (if clocks = 0 then Some (True, d1) else clock_loop drv 0 clocks pat2 (nav_slot d1) d1)"
    "buf_ok d1" "stream d1 = stream d @ tms_bits pat (unat bits)" "jstate d1 = e" "bit pat2 0 = (e = TEST_LOGIC_RESET)"
    by (rule navigate_tms [OF assms(1-3)])
  show ?thesis
  proof (cases "clocks = 0")
    case True then show ?thesis using nav by simp
  next
    case False
    have "unat (0 :: u8) \<le> unat clocks" by simp
    from clock_loop_ok [OF assms(1) nav(2) this assms(4), of pat2] False nav show ?thesis by auto
  qed
qed

text \<open>Claim C15: With a sound buffer and a driver that does not fail, \<open>navigate\<close> puts the pattern of
  the table, lowest bit first, and then the clocks asked for, TMS staying high in Test-Logic-Reset
  and low elsewhere, at the end of what was put before, and takes the object to the state; with a
  number of clocks above 255 it does not return.\<close>

theorem navigate_puts:
  assumes "driver_ok drv" "buf_ok d" "getTmsPatternForState e (jstate d) = Some ((pat, bits), e)"
  shows "if unat clocks < 256
    then \<exists>d1. navigate drv e clocks d = Some (True, d1) \<and> buf_ok d1 \<and> jstate d1 = e \<and>
      stream d1 = stream d @ tms_bits pat (unat bits) @ replicate (unat clocks) (e = TEST_LOGIC_RESET, False)
    else navigate drv e clocks d = None"
proof (cases "unat clocks < 256")
  case True then show ?thesis using navigate_ok [OF assms] by simp
next
  case False
  then have "clocks \<noteq> 0" by auto
  obtain d1 pat2 where "navigate drv e clocks d = (if clocks = 0 then Some (True, d1) else clock_loop drv 0 clocks pat2 (nav_slot d1) d1)"
    "buf_ok d1" by (rule navigate_tms [OF assms])
  then show ?thesis using clock_loop_endless [OF assms(1), of clocks d1 0 pat2] False \<open>clocks \<noteq> 0\<close> by simp
qed

subsection \<open>The controller at the other end\<close>

text \<open>The state diagram of IEEE 1149.1: the next state for a value of TMS at a clock edge.\<close>

fun tap_next :: "eJtagState \<Rightarrow> bool \<Rightarrow> eJtagState" where
  "tap_next TEST_LOGIC_RESET t = (if t then TEST_LOGIC_RESET else RUN_TEST_IDLE)"
| "tap_next RUN_TEST_IDLE t = (if t then SELECT_DR_SCAN else RUN_TEST_IDLE)"
| "tap_next SELECT_DR_SCAN t = (if t then SELECT_IR_SCAN else CAPTURE_DR)"
| "tap_next CAPTURE_DR t = (if t then EXIT1_DR else SHIFT_DR)"
| "tap_next SHIFT_DR t = (if t then EXIT1_DR else SHIFT_DR)"
| "tap_next EXIT1_DR t = (if t then UPDATE_DR else PAUSE_DR)"
| "tap_next PAUSE_DR t = (if t then EXIT2_DR else PAUSE_DR)"
| "tap_next EXIT2_DR t = (if t then UPDATE_DR else SHIFT_DR)"
| "tap_next UPDATE_DR t = (if t then SELECT_DR_SCAN else RUN_TEST_IDLE)"
| "tap_next SELECT_IR_SCAN t = (if t then TEST_LOGIC_RESET else CAPTURE_IR)"
| "tap_next CAPTURE_IR t = (if t then EXIT1_IR else SHIFT_IR)"
| "tap_next SHIFT_IR t = (if t then EXIT1_IR else SHIFT_IR)"
| "tap_next EXIT1_IR t = (if t then UPDATE_IR else PAUSE_IR)"
| "tap_next PAUSE_IR t = (if t then EXIT2_IR else PAUSE_IR)"
| "tap_next EXIT2_IR t = (if t then UPDATE_IR else SHIFT_IR)"
| "tap_next UPDATE_IR t = (if t then SELECT_DR_SCAN else RUN_TEST_IDLE)"
| "tap_next UNKNOWN_JTAG_STATE t = UNKNOWN_JTAG_STATE"

text \<open>The state after a list of pairs, and the TDI bits clocked while in a given state.\<close>

definition tap_run :: "eJtagState \<Rightarrow> (bool \<times> bool) list \<Rightarrow> eJtagState" where
  "tap_run s ps = fold (\<lambda>p s. tap_next s (fst p)) ps s"

fun clocked_in :: "eJtagState \<Rightarrow> eJtagState \<Rightarrow> (bool \<times> bool) list \<Rightarrow> bool list" where
  "clocked_in st s [] = []"
| "clocked_in st s (p # ps) = (if s = st then [snd p] else []) @ clocked_in st (tap_next s (fst p)) ps"

lemma tap_run_simps [simp]:
  "tap_run s [] = s" "tap_run s (p # ps) = tap_run (tap_next s (fst p)) ps"
  "tap_run s (ps @ qs) = tap_run (tap_run s ps) qs"
  by (simp_all add: tap_run_def)

lemma clocked_in_append: "clocked_in st s (ps @ qs) = clocked_in st s ps @ clocked_in st (tap_run s ps) qs"
  by (induction ps arbitrary: s) simp_all

text \<open>Does the pattern for a move, clocked the way \<open>navigate\<close> clocks it, make that move?\<close>

definition reaches :: "eJtagState \<Rightarrow> eJtagState \<Rightarrow> bool" where
  "reaches a b = (case getTmsPatternForState b a of None \<Rightarrow> False
     | Some ((pat, bits), _) \<Rightarrow> tap_run a (tms_bits pat (unat bits)) = b)"

lemma tms_bits_numeral: "tms_bits pat 0 = []" "tms_bits pat 1 = [(bit pat 0, False)]"
  "tms_bits pat (numeral k) = (bit pat 0, False) # tms_bits (drop_bit 1 pat) (pred_numeral k)"
  by (simp add: tms_bits_def) (simp add: tms_bits_def, simp add: numeral_eq_Suc tms_bits_Suc)

text \<open>The moves of the scans.\<close>

definition scan_moves :: "(eJtagState \<times> eJtagState) list" where
  "scan_moves = [(RUN_TEST_IDLE, CAPTURE_DR), (CAPTURE_DR, SHIFT_DR), (EXIT1_DR, RUN_TEST_IDLE),
     (RUN_TEST_IDLE, CAPTURE_IR), (CAPTURE_IR, SHIFT_IR), (EXIT1_IR, RUN_TEST_IDLE)]"

text \<open>The patterns of the moves a scan makes lead the controller where the object believes it
  to be; but of the 256 entries of the table only 86 do, for most are written with the first bit
  highest while \<open>navigate\<close> clocks the lowest bit first.\<close>

theorem tap_patterns:
  "list_all (\<lambda>(a, b). reaches a b) scan_moves \<and> length [(a, b) \<leftarrow> List.product states states. reaches a b] = 86"
proof (rule conjI)
  show "list_all (\<lambda>(a, b). reaches a b) scan_moves" by code_simp
  show "length [(a, b) \<leftarrow> List.product states states. reaches a b] = 86" by code_simp
qed

lemma all_states: "s \<in> set (UNKNOWN_JTAG_STATE # states)"
  by (cases s) (simp_all add: states_def)

lemma reset_pattern:
  "\<exists>pat bits. getTmsPatternForState TEST_LOGIC_RESET s = Some ((pat, bits), TEST_LOGIC_RESET) \<and>
    tms_bits pat (unat bits) = replicate (unat bits) (True, False)"
proof -
  have "list_all (\<lambda>s. case getTmsPatternForState TEST_LOGIC_RESET s of None \<Rightarrow> False
      | Some ((pat, bits), e) \<Rightarrow> e = TEST_LOGIC_RESET \<and> tms_bits pat (unat bits) = replicate (unat bits) (True, False))
    (UNKNOWN_JTAG_STATE # states)" by code_simp
  from this [unfolded list_all_iff, rule_format, OF all_states [of s]] show ?thesis by (auto split: option.splits)
qed

lemma tap_reset: "a \<noteq> UNKNOWN_JTAG_STATE \<Longrightarrow> tap_run a (replicate (n + 5) (True, False)) = TEST_LOGIC_RESET"
proof -
  assume "a \<noteq> UNKNOWN_JTAG_STATE"
  then have "tap_run a (replicate 5 (True, False)) = TEST_LOGIC_RESET" by (cases a) (simp_all add: numeral_eq_Suc)
  moreover have "tap_run TEST_LOGIC_RESET (replicate n (True, False)) = TEST_LOGIC_RESET" by (induction n) simp_all
  ultimately show ?thesis using tap_run_simps(3) [of a "replicate 5 (True, False)" "replicate n (True, False)"]
    by (simp add: replicate_add [symmetric] add.commute)
qed

text \<open>Claim C16: Whatever state the object believes in and whatever state the controller is in, resetting
  JTAG leaves both in Run-Test-Idle.\<close>

theorem resetJtag_synchronises:
  assumes "driver_ok drv" "buf_ok d" "a \<noteq> UNKNOWN_JTAG_STATE"
  shows "\<exists>d1 ps. resetJtag drv d = Some (True, (), d1) \<and> buf_ok d1 \<and> jstate d1 = RUN_TEST_IDLE \<and>
    stream d1 = stream d @ ps \<and> tap_run a ps = RUN_TEST_IDLE"
proof -
  obtain pat bits where t: "getTmsPatternForState TEST_LOGIC_RESET (jstate d) = Some ((pat, bits), TEST_LOGIC_RESET)"
      "tms_bits pat (unat bits) = replicate (unat bits) (True, False)" using reset_pattern by blast
  obtain d1 where d1: "navigate drv TEST_LOGIC_RESET 5 d = Some (True, d1)" "buf_ok d1" "jstate d1 = TEST_LOGIC_RESET"
      "stream d1 = stream d @ replicate (unat bits + 5) (True, False)"
    using navigate_ok [OF assms(1,2) t(1), of 5] by (auto simp: t(2) replicate_add)
  have "getTmsPatternForState RUN_TEST_IDLE (jstate d1) = Some ((0, 1), RUN_TEST_IDLE)"
    by (simp add: d1(3) getTmsPatternForState_def m_cTMSPattern_def)
  from navigate_ok [OF assms(1) d1(2) this, of 0] obtain d2 where d2: "navigate drv RUN_TEST_IDLE 0 d1 = Some (True, d2)"
      "buf_ok d2" "jstate d2 = RUN_TEST_IDLE" "stream d2 = stream d1 @ [(False, False)]"
    by (auto simp: tms_bits_def)
  have "resetJtag drv d = Some (True, (), d2)"
    using d1(1) d2(1) assms(2) by (simp add: resetJtag_def nav_then_def buf_ok_def)
  moreover have "tap_run a (replicate (unat bits + 5) (True, False) @ [(False, False)]) = RUN_TEST_IDLE"
    by (simp add: tap_reset [OF assms(3)])
  ultimately show ?thesis using d1(4) d2 by (metis append_assoc)
qed

subsection \<open>Scanning\<close>

text \<open>The pairs of a scan of \<open>n\<close> bits.\<close>

definition data_bit :: "u8 list \<Rightarrow> nat \<Rightarrow> bool" where
  "data_bit tdi i = bit (tdi ! (i div 8)) (i mod 8)"

definition scan_bits :: "bool \<Rightarrow> u8 list \<Rightarrow> nat \<Rightarrow> nat list \<Rightarrow> (bool \<times> bool) list" where
  "scan_bits w tdi n is = map (\<lambda>i. (i = n - 1, w \<and> data_bit tdi i)) is"

lemma next_byte:
  assumes "i mod 8 \<noteq> 0 \<longrightarrow> pat = drop_bit (i mod 8) (tdi ! (i div 8) :: u8)"
  defines "p \<equiv> if i mod 8 = 0 then tdi ! (i div 8) else pat"
  shows "bit p 0 = data_bit tdi i" "Suc i mod 8 \<noteq> 0 \<longrightarrow> drop_bit 1 p = drop_bit (Suc i mod 8) (tdi ! (Suc i div 8))"
proof -
  have p: "p = drop_bit (i mod 8) (tdi ! (i div 8))" using assms by (cases "i mod 8 = 0") simp_all
  show "bit p 0 = data_bit tdi i" by (simp add: p data_bit_def bit_drop_bit_eq)
  show "Suc i mod 8 \<noteq> 0 \<longrightarrow> drop_bit 1 p = drop_bit (Suc i mod 8) (tdi ! (Suc i div 8))"
    by (simp add: p mod_Suc div_Suc)
qed

lemma dr_loop_ok:
  assumes "driver_ok drv" "buf_ok d" "mode \<noteq> SCAN_MODE_READ \<longrightarrow> i mod 8 \<noteq> 0 \<longrightarrow> pat = drop_bit (i mod 8) (tdi ! (i div 8))"
  shows "\<exists>out d1. dr_loop drv mode tdi n [i..<n] (scan_slot d) pat tdo d = (True, out, d1) \<and> buf_ok d1 \<and>
    stream d1 = stream d @ scan_bits (mode \<noteq> SCAN_MODE_READ) tdi n [i..<n] \<and> jstate d1 = jstate d"
  using assms(2,3)
proof (induction "n - i" arbitrary: i d pat tdo)
  case 0 then show ?case by (simp add: scan_bits_def)
next
  case (Suc k)
  have l: "[i..<n] = i # [Suc i..<n]" using Suc.hyps(2) by (simp add: upt_conv_Cons)
  let ?w = "mode \<noteq> SCAN_MODE_READ"
  let ?p = "if i mod 8 = 0 \<and> ?w then tdi ! (i div 8) else pat"
  let ?q = "if ?w then drop_bit 1 ?p else ?p"
  have b: "(if ?w then ?p AND 1 else 0) = of_bool (?w \<and> data_bit tdi i)"
    using next_byte(1) [of i pat tdi] Suc.prems(2) by (simp add: low_bit(2))
  have q: "?w \<longrightarrow> Suc i mod 8 \<noteq> 0 \<longrightarrow> ?q = drop_bit (Suc i mod 8) (tdi ! (Suc i div 8))"
    using next_byte(2) [of i pat tdi] Suc.prems(2) by simp
  obtain fl d1 where p: "put_data drv (mode \<noteq> SCAN_MODE_WRITE) (of_bool (?w \<and> data_bit tdi i) OR (if i = n - 1 then 2 else 0)) (scan_slot d) d
      = (Some (scan_slot d1, fl), d1)" "buf_ok d1" "stream d1 = stream d @ [(i = n - 1, ?w \<and> data_bit tdi i)]" "jstate d1 = jstate d"
    using put_data_ok [OF assms(1) Suc.prems(1)] by blast
  have "k = n - Suc i" using Suc.hyps(2) by simp
  from Suc.hyps(1) [OF this p(2) q] show ?case
    unfolding l dr_loop.simps Let_def b p(1) prod.case option.case using p(3,4) by (simp add: scan_bits_def) 
qed

lemma ir_loop_ok:
  assumes "driver_ok drv" "buf_ok d" "i mod 8 \<noteq> 0 \<longrightarrow> pat = drop_bit (i mod 8) (tdi ! (i div 8))"
  shows "\<exists>d1. ir_loop drv tdi n [i..<n] (scan_slot d) pat d = (True, d1) \<and> buf_ok d1 \<and>
    stream d1 = stream d @ scan_bits True tdi n [i..<n] \<and> jstate d1 = jstate d"
  using assms(2,3)
proof (induction "n - i" arbitrary: i d pat)
  case 0 then show ?case by (simp add: scan_bits_def)
next
  case (Suc k)
  have l: "[i..<n] = i # [Suc i..<n]" using Suc.hyps(2) by (simp add: upt_conv_Cons)
  let ?p = "if i mod 8 = 0 then tdi ! (i div 8) else pat"
  have b: "?p AND 1 = of_bool (data_bit tdi i)" using next_byte(1) [OF Suc.prems(2)] by (simp add: low_bit(2))
  note q = next_byte(2) [OF Suc.prems(2)]
  obtain fl d1 where p: "put_data drv False (of_bool (data_bit tdi i) OR (if i = n - 1 then 2 else 0)) (scan_slot d) d
      = (Some (scan_slot d1, fl), d1)" "buf_ok d1" "stream d1 = stream d @ [(i = n - 1, data_bit tdi i)]" "jstate d1 = jstate d"
    using put_data_ok [OF assms(1) Suc.prems(1)] by blast
  have "k = n - Suc i" using Suc.hyps(2) by simp
  from Suc.hyps(1) [OF this p(2) q] show ?case
    unfolding l ir_loop.simps Let_def b p(1) prod.case option.case using p(3,4) by (simp add: scan_bits_def)
qed

lemma shift_rest_ok:
  assumes "driver_ok drv" "buf_ok d"
  shows "\<exists>out1 d1. shift_rest drv mode out d = (True, out1, d1) \<and> buf_ok d1 \<and> stream d1 = stream d"
  using flush_buf_ok [OF assms, of True] assms(2) by (auto simp: shift_rest_def Let_def)

text \<open>The moves of a scan, as pairs.\<close>

lemma scan_patterns:
  "getTmsPatternForState CAPTURE_DR RUN_TEST_IDLE = Some ((1, 2), CAPTURE_DR)"
  "getTmsPatternForState SHIFT_DR CAPTURE_DR = Some ((0, 1), SHIFT_DR)"
  "getTmsPatternForState RUN_TEST_IDLE EXIT1_DR = Some ((1, 2), RUN_TEST_IDLE)"
  "getTmsPatternForState RUN_TEST_IDLE CAPTURE_DR = Some ((6, 3), RUN_TEST_IDLE)"
  "getTmsPatternForState CAPTURE_IR RUN_TEST_IDLE = Some ((3, 3), CAPTURE_IR)"
  "getTmsPatternForState SHIFT_IR CAPTURE_IR = Some ((0, 1), SHIFT_IR)"
  "getTmsPatternForState RUN_TEST_IDLE EXIT1_IR = Some ((1, 2), RUN_TEST_IDLE)"
  "getTmsPatternForState RUN_TEST_IDLE CAPTURE_IR = Some ((6, 3), RUN_TEST_IDLE)"
  by (simp_all add: getTmsPatternForState_def m_cTMSPattern_def)

lemma scan_tms:
  "tms_bits 1 2 = [(True, False), (False, False)]" "tms_bits 0 1 = [(False, False)]"
  "tms_bits 6 3 = [(False, False), (True, False), (True, False)]" "tms_bits 3 3 = [(True, False), (True, False), (False, False)]"
  by code_simp+

lemma move:
  assumes "driver_ok drv" "buf_ok d" "getTmsPatternForState e (jstate d) = Some ((pat, bits), e)"
  obtains d1 where "navigate drv e 0 d = Some (True, d1)" "buf_ok d1" "jstate d1 = e" "stream d1 = stream d @ tms_bits pat (unat bits)"
  using navigate_ok [OF assms, of 0] by auto

lemma tap_stays: "\<forall>p\<in>set ps. \<not> fst p \<Longrightarrow> s = SHIFT_DR \<or> s = SHIFT_IR \<Longrightarrow> tap_run s ps = s \<and> clocked_in s s ps = map snd ps"
  by (induction ps) auto

lemma tap_scan:
  assumes "0 < n" "s = SHIFT_DR \<or> s = SHIFT_IR"
  shows "clocked_in s s (scan_bits w tdi n [0..<n]) = map (\<lambda>i. w \<and> data_bit tdi i) [0..<n]"
    "tap_run s (scan_bits w tdi n [0..<n]) = (if s = SHIFT_DR then EXIT1_DR else EXIT1_IR)"
proof -
  obtain m where n: "n = Suc m" using assms(1) by (cases n) auto
  have sc: "scan_bits w tdi n [0..<n] = map (\<lambda>i. (False, w \<and> data_bit tdi i)) [0..<m] @ [(True, w \<and> data_bit tdi m)]"
    by (simp add: n scan_bits_def)
  have st: "tap_run s (map (\<lambda>i. (False, w \<and> data_bit tdi i)) [0..<m]) = s"
    "clocked_in s s (map (\<lambda>i. (False, w \<and> data_bit tdi i)) [0..<m]) = map (\<lambda>i. w \<and> data_bit tdi i) [0..<m]"
    using tap_stays [of "map (\<lambda>i. (False, w \<and> data_bit tdi i)) [0..<m]" s] assms(2) by (auto simp: comp_def)
  show "clocked_in s s (scan_bits w tdi n [0..<n]) = map (\<lambda>i. w \<and> data_bit tdi i) [0..<n]"
    unfolding sc clocked_in_append st by (simp add: n)
  show "tap_run s (scan_bits w tdi n [0..<n]) = (if s = SHIFT_DR then EXIT1_DR else EXIT1_IR)"
    unfolding sc tap_run_simps st using assms(2) by auto
qed

lemma dr_scan_ok:
  assumes "driver_ok drv" "buf_ok d" "jstate d = RUN_TEST_IDLE" "cnt \<noteq> 0"
    "mode = SCAN_MODE_WRITE \<or> tdo" "mode = SCAN_MODE_READ \<or> tdi = Some b"
  shows "\<exists>out d1 ps. shiftChainDR drv tdi tdo cnt mode d = Some (True, out, d1) \<and> buf_ok d1 \<and>
    jstate d1 = RUN_TEST_IDLE \<and> stream d1 = stream d @ ps \<and> tap_run RUN_TEST_IDLE ps = RUN_TEST_IDLE \<and>
    clocked_in SHIFT_DR RUN_TEST_IDLE ps = map (\<lambda>i. mode \<noteq> SCAN_MODE_READ \<and> data_bit b i) [0..<unat cnt]"
proof -
  let ?n = "unat cnt" and ?w = "mode \<noteq> SCAN_MODE_READ"
  let ?b = "case tdi of None \<Rightarrow> [] | Some b \<Rightarrow> b"
  have n: "0 < ?n" using assms(4) by (simp add: unat_gt_0)
  obtain d1 where d1: "navigate drv CAPTURE_DR 0 d = Some (True, d1)" "buf_ok d1" "jstate d1 = CAPTURE_DR" "stream d1 = stream d @ tms_bits 1 (unat (2 :: u8))"
    by (rule move [OF assms(1,2)]) (use assms(3) scan_patterns(1) in auto)
  obtain d2 where d2: "navigate drv SHIFT_DR 0 d1 = Some (True, d2)" "buf_ok d2" "stream d2 = stream d1 @ tms_bits 0 (unat (1 :: u8))"
    by (rule move [OF assms(1) d1(2)]) (use d1(3) scan_patterns(2) in auto)
  obtain d3 where d3: "(if mode \<noteq> SCAN_MODE_WRITE then flushCable drv False d2 else (True, d2)) = (True, d3)" "buf_ok d3" "stream d3 = stream d2"
    using flush_buf_ok [OF assms(1) d2(2), of False] d2(2) by (cases "mode = SCAN_MODE_WRITE") auto
  obtain out d4 where d4: "dr_loop drv mode ?b ?n [0..<?n] (scan_slot d3) 0 [] d3 = (True, out, d4)" "buf_ok d4"
      "stream d4 = stream d3 @ scan_bits ?w ?b ?n [0..<?n]"
    using dr_loop_ok [OF assms(1) d3(2), of mode 0 0 ?b ?n "[]"] by auto
  obtain out1 d5 where d5: "shift_rest drv mode out d4 = (True, out1, d5)" "buf_ok d5" "stream d5 = stream d4"
    using shift_rest_ok [OF assms(1) d4(2)] by blast
  let ?d = "d5\<lparr>jstate := EXIT1_DR\<rparr>"
  have e: "buf_ok ?d" "stream ?d = stream d5" using d5(2) by (simp_all add: buf_ok_def stream_def)
  obtain d6 where d6: "navigate drv RUN_TEST_IDLE 0 ?d = Some (True, d6)" "buf_ok d6" "jstate d6 = RUN_TEST_IDLE" "stream d6 = stream ?d @ tms_bits 1 (unat (2 :: u8))"
    by (rule move [OF assms(1) e(1)]) (use scan_patterns(3) in auto)
  have "shiftChainDR drv tdi tdo cnt mode d = Some (True, out1, d6)"
  proof -
    have g: "(mode \<noteq> SCAN_MODE_WRITE \<and> \<not> tdo \<and> cnt \<noteq> 0) = False" "(mode \<noteq> SCAN_MODE_READ \<and> tdi = None \<and> cnt \<noteq> 0) = False"
      using assms(5,6) by auto
    show ?thesis unfolding shiftChainDR_def g if_False d1(1) nav_then_def option.case prod.case bool.case
      using assms(4) by (simp only: if_False d2(1) d3(1) d4(1) d5(1) d6(1) option.case prod.case bool.case)
  qed
  moreover let ?ps = "[(True, False), (False, False), (False, False)] @ scan_bits ?w ?b ?n [0..<?n] @ [(True, False), (False, False)]"
  have "stream d6 = stream d @ ?ps"
    using d1(4) d2(3) d3(3) d4(3) d5(3) e(2) d6(4) by (simp add: scan_tms scan_tms(2) [unfolded One_nat_def])
  moreover note t = tap_scan [OF n, of SHIFT_DR ?w ?b]
  have "tap_run RUN_TEST_IDLE ?ps = RUN_TEST_IDLE" using t(2) by simp
  moreover have "clocked_in SHIFT_DR RUN_TEST_IDLE ?ps = map (\<lambda>i. ?w \<and> data_bit b i) [0..<?n]"
  proof -
    have "clocked_in SHIFT_DR RUN_TEST_IDLE ?ps = map (\<lambda>i. ?w \<and> data_bit ?b i) [0..<?n]"
      using t by (simp add: clocked_in_append)
    also have "\<dots> = map (\<lambda>i. ?w \<and> data_bit b i) [0..<?n]" using assms(6) by (intro map_cong) auto
    finally show ?thesis .
  qed
  ultimately show ?thesis using d6(2,3) by (intro exI conjI)
qed

text \<open>Claim C17: A scan of the data register from Run-Test-Idle, in any mode and of any number of bits
  but none, returns to Run-Test-Idle, in the object and in the controller, after clocking exactly the bits
  of the TDI buffer, lowest first, through the data register (zeros when only reading).\<close>

theorem shiftChainDR_scans:
  assumes "driver_ok drv" "buf_ok d" "jstate d = RUN_TEST_IDLE" "cnt \<noteq> 0"
    "mode = SCAN_MODE_WRITE \<or> tdo" "mode = SCAN_MODE_READ \<or> tdi = Some b"
  shows "\<exists>out d1 ps. shiftChainDR drv tdi tdo cnt mode d = Some (True, out, d1) \<and> buf_ok d1 \<and>
    jstate d1 = RUN_TEST_IDLE \<and> stream d1 = stream d @ ps \<and> tap_run RUN_TEST_IDLE ps = RUN_TEST_IDLE \<and>
    clocked_in SHIFT_DR RUN_TEST_IDLE ps = map (\<lambda>i. mode \<noteq> SCAN_MODE_READ \<and> data_bit b i) [0..<unat cnt]"
  using dr_scan_ok [OF assms] .

lemma shiftChainIR_scans:
  assumes "driver_ok drv" "buf_ok d" "jstate d = RUN_TEST_IDLE" "cnt \<noteq> 0" "tdi = Some b"
  shows "\<exists>d1 ps. shiftChainIR drv tdi cnt d = Some (True, (), d1) \<and> buf_ok d1 \<and> jstate d1 = RUN_TEST_IDLE \<and>
    stream d1 = stream d @ ps \<and> tap_run RUN_TEST_IDLE ps = RUN_TEST_IDLE \<and>
    clocked_in SHIFT_IR RUN_TEST_IDLE ps = map (data_bit b) [0..<unat cnt]"
proof -
  let ?n = "unat cnt"
  have n: "0 < ?n" using assms(4) by (simp add: unat_gt_0)
  obtain d1 where d1: "navigate drv CAPTURE_IR 0 d = Some (True, d1)" "buf_ok d1" "jstate d1 = CAPTURE_IR" "stream d1 = stream d @ tms_bits 3 (unat (3 :: u8))"
    by (rule move [OF assms(1,2)]) (use assms(3) scan_patterns(5) in auto)
  obtain d2 where d2: "navigate drv SHIFT_IR 0 d1 = Some (True, d2)" "buf_ok d2" "stream d2 = stream d1 @ tms_bits 0 (unat (1 :: u8))"
    by (rule move [OF assms(1) d1(2)]) (use d1(3) scan_patterns(6) in auto)
  obtain d3 where d3: "ir_loop drv b ?n [0..<?n] (scan_slot d2) 0 d2 = (True, d3)" "buf_ok d3"
      "stream d3 = stream d2 @ scan_bits True b ?n [0..<?n]"
    using ir_loop_ok [OF assms(1) d2(2), of 0 0 b ?n] by auto
  let ?d = "d3\<lparr>jstate := EXIT1_IR\<rparr>"
  have e: "buf_ok ?d" "stream ?d = stream d3" using d3(2) by (simp_all add: buf_ok_def stream_def)
  obtain d4 where d4: "navigate drv RUN_TEST_IDLE 0 ?d = Some (True, d4)" "buf_ok d4" "jstate d4 = RUN_TEST_IDLE" "stream d4 = stream ?d @ tms_bits 1 (unat (2 :: u8))"
    by (rule move [OF assms(1) e(1)]) (use scan_patterns(7) in auto)
  have "shiftChainIR drv tdi cnt d = Some (True, (), d4)"
    using assms(4,5) d1(1) d2(1) d3(1) d4(1) unfolding shiftChainIR_def nav_then_def by simp
  moreover let ?ps = "[(True, False), (True, False), (False, False), (False, False)] @ scan_bits True b ?n [0..<?n] @ [(True, False), (False, False)]"
  have "stream d4 = stream d @ ?ps"
    using d1(4) d2(3) d3(3) e(2) d4(4) by (simp add: scan_tms scan_tms(2) [unfolded One_nat_def])
  moreover note t = tap_scan [OF n, of SHIFT_IR True b]
  have "tap_run RUN_TEST_IDLE ?ps = RUN_TEST_IDLE" using t(2) by simp
  moreover have "clocked_in SHIFT_IR RUN_TEST_IDLE ?ps = map (data_bit b) [0..<?n]"
    using t by (simp add: clocked_in_append)
  ultimately show ?thesis using d4(2,3) by (intro exI conjI)
qed

text \<open>A scan of no bits from Run-Test-Idle reports success and the object believes to be back in
  Run-Test-Idle, but the controller is left in the update state: the pattern for leaving the capture
  state is written for the other order of bits.\<close>

theorem empty_scan_desynchronises:
  assumes "driver_ok drv" "buf_ok d" "jstate d = RUN_TEST_IDLE"
  shows "(\<exists>d1 ps. shiftChainDR drv tdi tdo 0 mode d = Some (True, [], d1) \<and> jstate d1 = RUN_TEST_IDLE \<and>
      stream d1 = stream d @ ps \<and> tap_run RUN_TEST_IDLE ps = UPDATE_DR) \<and>
    (\<exists>d1 ps. shiftChainIR drv tdi 0 d = Some (True, (), d1) \<and> jstate d1 = RUN_TEST_IDLE \<and>
      stream d1 = stream d @ ps \<and> tap_run RUN_TEST_IDLE ps = UPDATE_IR)"
proof (rule conjI)
  obtain d1 where d1: "navigate drv CAPTURE_DR 0 d = Some (True, d1)" "buf_ok d1" "jstate d1 = CAPTURE_DR" "stream d1 = stream d @ tms_bits 1 (unat (2 :: u8))"
    by (rule move [OF assms(1,2)]) (use assms(3) scan_patterns(1) in auto)
  obtain d2 where d2: "navigate drv RUN_TEST_IDLE 0 d1 = Some (True, d2)" "jstate d2 = RUN_TEST_IDLE" "stream d2 = stream d1 @ tms_bits 6 (unat (3 :: u8))"
    by (rule move [OF assms(1) d1(2)]) (use d1(3) scan_patterns(4) in auto)
  have "stream d2 = stream d @ [(True, False), (False, False), (False, False), (True, False), (True, False)]"
    using d1(4) d2(3) by (simp add: scan_tms)
  then show "\<exists>d1 ps. shiftChainDR drv tdi tdo 0 mode d = Some (True, [], d1) \<and> jstate d1 = RUN_TEST_IDLE \<and>
      stream d1 = stream d @ ps \<and> tap_run RUN_TEST_IDLE ps = UPDATE_DR"
    using d1(1) d2(1,2) by (intro exI conjI) (auto simp: shiftChainDR_def nav_then_def)
next
  obtain d1 where d1: "navigate drv CAPTURE_IR 0 d = Some (True, d1)" "buf_ok d1" "jstate d1 = CAPTURE_IR" "stream d1 = stream d @ tms_bits 3 (unat (3 :: u8))"
    by (rule move [OF assms(1,2)]) (use assms(3) scan_patterns(5) in auto)
  obtain d2 where d2: "navigate drv RUN_TEST_IDLE 0 d1 = Some (True, d2)" "jstate d2 = RUN_TEST_IDLE" "stream d2 = stream d1 @ tms_bits 6 (unat (3 :: u8))"
    by (rule move [OF assms(1) d1(2)]) (use d1(3) scan_patterns(8) in auto)
  have "stream d2 = stream d @ [(True, False), (True, False), (False, False), (False, False), (True, False), (True, False)]"
    using d1(4) d2(3) by (simp add: scan_tms)
  then show "\<exists>d1 ps. shiftChainIR drv tdi 0 d = Some (True, (), d1) \<and> jstate d1 = RUN_TEST_IDLE \<and>
      stream d1 = stream d @ ps \<and> tap_run RUN_TEST_IDLE ps = UPDATE_IR"
    using d1(1) d2(1,2) by (intro exI conjI) (auto simp: shiftChainIR_def nav_then_def)
qed

subsection \<open>Witnesses\<close>

definition demo_driver :: driver where
  "demo_driver h ps = Some (replicate 128 0)"

definition demo_cable :: digilent where
  "demo_cable = \<lparr>cable_open = True, tx = replicate 256 0, rx = replicate 256 0, bitcount = 0,
     jstate = RUN_TEST_IDLE, wire = []\<rparr>"

lemma demo_ok: "driver_ok demo_driver" "buf_ok demo_cable" "jstate demo_cable = RUN_TEST_IDLE" "stream demo_cable = []"
  by (simp_all add: driver_ok_def demo_driver_def buf_ok_def demo_cable_def stream_def pairs_def)

theorem navigate_puts_witness:
  "(\<exists>d1. navigate demo_driver CAPTURE_DR 2 demo_cable = Some (True, d1) \<and>
      stream d1 = [(True, False), (False, False), (False, False), (False, False)]) \<and>
   navigate demo_driver CAPTURE_DR 300 demo_cable = None"
proof -
  have t: "getTmsPatternForState CAPTURE_DR (jstate demo_cable) = Some ((1, 2), CAPTURE_DR)"
    by (simp add: demo_ok(3) scan_patterns)
  note n = navigate_puts [OF demo_ok(1,2) t]
  have "\<exists>d1. navigate demo_driver CAPTURE_DR 2 demo_cable = Some (True, d1) \<and>
      stream d1 = stream demo_cable @ tms_bits 1 (unat (2 :: u8)) @ replicate (unat (2 :: u16)) (False, False)"
    using n [of 2] by auto
  then have "\<exists>d1. navigate demo_driver CAPTURE_DR 2 demo_cable = Some (True, d1) \<and>
      stream d1 = [(True, False), (False, False), (False, False), (False, False)]"
    by (simp add: demo_ok(4) scan_tms numeral_2_eq_2 [symmetric]) (simp add: numeral_2_eq_2)
  moreover have "navigate demo_driver CAPTURE_DR 300 demo_cable = None" using n [of 300] by simp
  ultimately show ?thesis ..
qed

theorem resetJtag_synchronises_witness:
  "\<exists>d1 ps. resetJtag demo_driver demo_cable = Some (True, (), d1) \<and> stream d1 = ps \<and> tap_run PAUSE_IR ps = RUN_TEST_IDLE"
  using resetJtag_synchronises [OF demo_ok(1,2), of PAUSE_IR] demo_ok(4) by auto

theorem shiftChainDR_scans_witness:
  "\<exists>out d1. shiftChainDR demo_driver (Some [0x35, 1]) False 9 SCAN_MODE_WRITE demo_cable = Some (True, out, d1) \<and>
     clocked_in SHIFT_DR RUN_TEST_IDLE (stream d1) = [True, False, True, False, True, True, False, False, True]"
proof -
  have "map (data_bit [0x35, 1]) [0..<9] = [True, False, True, False, True, True, False, False, True]"
    by code_simp
  then show ?thesis
    using shiftChainDR_scans [OF demo_ok(1-3), of 9 SCAN_MODE_WRITE False "Some [0x35, 1]" "[0x35, 1]"] demo_ok(4) by auto
qed

theorem empty_scan_desynchronises_witness:
  "\<exists>d1. shiftChainDR demo_driver None False 0 SCAN_MODE_READ demo_cable = Some (True, [], d1) \<and>
     jstate d1 = RUN_TEST_IDLE \<and> tap_run RUN_TEST_IDLE (stream d1) = UPDATE_DR"
  using empty_scan_desynchronises [OF demo_ok(1-3), of None False SCAN_MODE_READ] demo_ok(4) by auto

end
