(* ===== verification/Packets.thy ===== *)
theory Packets
  imports Ctrlmod
begin

text \<open>
  The packets between host and hardware (\<open>s2_types.h\<close>, \<open>s2_types.cpp\<close>): global time, command
  payloads and packets as 64-bit words and as bytes, pulses and their envelope, and the
  configuration packets of DNC and FPGA. The results: words and packets are in bijection, payloads,
  pulses and DNC configuration survive the way through bytes, FPGA routing data does not.
\<close>

subsection \<open>Global time\<close>

text \<open>Held in DNC cycles; \<open>size_t\<close> has 64 bits.\<close>

record global_time =
  m_raw :: u64

definition dnc_cycles_per_fpga_cycle :: u64 where "dnc_cycles_per_fpga_cycle = 2"
definition nano_sec_per_dnc_cycle :: u64 where "nano_sec_per_dnc_cycle = 4"

definition create_from_dnc_cycles :: "u64 \<Rightarrow> global_time" where
  "create_from_dnc_cycles t = \<lparr>m_raw = t\<rparr>"

definition create_from_fpga_cycles :: "u64 \<Rightarrow> global_time" where
  "create_from_fpga_cycles t = \<lparr>m_raw = t * dnc_cycles_per_fpga_cycle\<rparr>"

definition create_from_nano_sec :: "u64 \<Rightarrow> global_time" where
  "create_from_nano_sec t = \<lparr>m_raw = t div nano_sec_per_dnc_cycle\<rparr>"

definition get_dnc_time :: "global_time \<Rightarrow> u64" where "get_dnc_time t = m_raw t"
definition get_fpga_time :: "global_time \<Rightarrow> u64" where "get_fpga_time t = get_dnc_time t div dnc_cycles_per_fpga_cycle"
definition get_nano_sec :: "global_time \<Rightarrow> u64" where "get_nano_sec t = get_dnc_time t * nano_sec_per_dnc_cycle"

definition time_add :: "global_time \<Rightarrow> global_time \<Rightarrow> global_time" where
  "time_add t inc = t\<lparr>m_raw := m_raw t + m_raw inc\<rparr>"

definition time_sub :: "global_time \<Rightarrow> global_time \<Rightarrow> global_time" where
  "time_sub t s = t\<lparr>m_raw := m_raw t - m_raw s\<rparr>"

definition time_less :: "global_time \<Rightarrow> global_time \<Rightarrow> bool" where "time_less t u = (m_raw t < m_raw u)"
definition time_leq :: "global_time \<Rightarrow> global_time \<Rightarrow> bool" where "time_leq t u = (m_raw t \<le> m_raw u)"

subsection \<open>Bytes\<close>

text \<open>The lowest \<open>n\<close> bytes of a word, lowest first, and the word they give.\<close>

definition to_bytes :: "nat \<Rightarrow> u64 \<Rightarrow> u8 list" where
  "to_bytes n v = map (\<lambda>i. ucast (drop_bit (8 * i) v AND 0xff)) [0..<n]"

definition from_bytes :: "nat \<Rightarrow> u8 list \<Rightarrow> u64" where
  "from_bytes n b = fold (\<lambda>i t. t OR push_bit (i * 8) (ucast (b ! i))) [0..<n] 0"

text \<open>A field of \<open>w\<close> bits at \<open>p\<close>, put and taken the way all conversions do.\<close>

definition put_field :: "nat \<Rightarrow> nat \<Rightarrow> u64 \<Rightarrow> u64" where
  "put_field p w x = push_bit p (x AND (push_bit w 1 - 1))"

definition get_field :: "nat \<Rightarrow> nat \<Rightarrow> u64 \<Rightarrow> u64" where
  "get_field p w v = drop_bit p v AND (push_bit w 1 - 1)"

subsection \<open>Command payload\<close>

definition payload_size :: nat where "payload_size = (1 + 16 + 32 + 7) div 8"

definition payload_word :: "ci_payload \<Rightarrow> u64" where
  "payload_word p = put_field 48 1 (ucast (pwrite p)) OR put_field 32 16 (ucast (paddr p)) OR put_field 0 32 (ucast (pdat p))"

definition payload_serialize :: "ci_payload \<Rightarrow> u8 list" where
  "payload_serialize p = to_bytes payload_size (payload_word p)"

definition payload_deserialize :: "u8 list \<Rightarrow> ci_payload" where
  "payload_deserialize b = (let temp = from_bytes payload_size b in
     \<lparr>pwrite = ucast (get_field 48 1 temp), paddr = ucast (get_field 32 16 temp), pdat = ucast (get_field 0 32 temp)\<rparr>)"

text \<open>\<open>GetRaw\<close> and the constructor from raw bytes check the size; the constructor leaves the
  object as the default one when it is wrong.\<close>

definition payload_GetRaw :: "ci_payload \<Rightarrow> int \<Rightarrow> u8 list \<times> int" where
  "payload_GetRaw p max_size = (if max_size = int payload_size then (payload_serialize p, int payload_size) else ([], 0))"

definition payload_from_raw :: "ci_payload \<Rightarrow> u8 list \<Rightarrow> int \<Rightarrow> ci_payload" where
  "payload_from_raw uninit b sz = (if sz = int payload_size then payload_deserialize b else uninit)"

subsection \<open>Command packet\<close>

record ci_packet_t =
  TagID :: u32
  SeqValid :: u32
  Seq :: u32
  Ack :: u32
  Write :: u32
  Addr :: u16
  Data :: u32

definition packet_clear :: ci_packet_t where
  "packet_clear = \<lparr>TagID = 0, SeqValid = 0, Seq = 0, Ack = - 1, Write = 0, Addr = 0, Data = 0\<rparr>"

definition to_uint64 :: "ci_packet_t \<Rightarrow> u64" where
  "to_uint64 p = put_field 62 2 (ucast (TagID p)) OR put_field 61 1 (ucast (SeqValid p)) OR put_field 55 6 (ucast (Seq p))
     OR put_field 49 6 (ucast (Ack p)) OR put_field 48 1 (ucast (Write p)) OR put_field 32 16 (ucast (Addr p))
     OR put_field 0 32 (ucast (Data p))"

definition of_uint64 :: "u64 \<Rightarrow> ci_packet_t" where
  "of_uint64 d = \<lparr>TagID = ucast (get_field 62 2 d), SeqValid = ucast (get_field 61 1 d), Seq = ucast (get_field 55 6 d),
     Ack = ucast (get_field 49 6 d), Write = ucast (get_field 48 1 d), Addr = ucast (get_field 32 16 d),
     Data = ucast (get_field 0 32 d)\<rparr>"

text \<open>
  The bytes the serialiser writes: the size, then the lowest byte of the word again and again, the
  loop neither shifting the word nor starting at zero. The deserialiser shifts a byte, promoted to
  \<open>int\<close>, by up to 56 places, which is undefined; \<open>None\<close> stands for that.
\<close>

definition packet_serialize :: "ci_packet_t \<Rightarrow> bool \<Rightarrow> u8 list" where
  "packet_serialize p verbose = (if verbose then [] else 9 # map (\<lambda>i. ucast (to_uint64 p AND 0xff)) [1..<8])"

definition packet_deserialize :: "u8 list \<Rightarrow> ci_packet_t option" where
  "packet_deserialize b = (if b ! 0 > 9 then Some packet_clear else None)"

text \<open>The packet of the ARQ layer has the same fields; its bytes are those of the same word.\<close>

record arq_packet =
  atag :: u32
  aseqvalid :: bool
  aseq :: u32
  aack :: u32
  adata :: ci_payload

definition arq_word :: "arq_packet \<Rightarrow> u64" where
  "arq_word p = put_field 62 2 (ucast (atag p)) OR put_field 61 1 (of_bool (aseqvalid p)) OR put_field 55 6 (ucast (aseq p))
     OR put_field 49 6 (ucast (aack p)) OR put_field 48 1 (ucast (pwrite (adata p))) OR put_field 32 16 (ucast (paddr (adata p)))
     OR put_field 0 32 (ucast (pdat (adata p)))"

definition arq_size :: nat where "arq_size = (1 + 6 + 6 + 1 + 16 + 32 + 7) div 8"

definition arq_GetRaw_bytes :: "arq_packet \<Rightarrow> u8 list" where
  "arq_GetRaw_bytes p = to_bytes arq_size (arq_word p)"

definition arq_GetRaw :: "u64 \<Rightarrow> arq_packet" where
  "arq_GetRaw v = \<lparr>atag = ucast (get_field 62 2 v), aseqvalid = get_field 61 1 v \<noteq> 0, aseq = ucast (get_field 55 6 v),
     aack = ucast (get_field 49 6 v), adata = \<lparr>pwrite = ucast (get_field 48 1 v), paddr = ucast (get_field 32 16 v),
       pdat = ucast (get_field 0 32 v)\<rparr>\<rparr>"

text \<open>The constructor from bytes shifts an \<open>int\<close> too: undefined from the fifth byte on, and a
  fourth byte above 127 shifts into the sign.\<close>

definition arq_from_bytes :: "u8 list \<Rightarrow> nat \<Rightarrow> arq_packet option" where
  "arq_from_bytes b sz = (if sz > 4 \<or> sz = 4 \<and> b ! 3 > 127 then None
     else Some (arq_GetRaw (fold (\<lambda>i t. t + ucast (push_bit (i * 8) (ucast (b ! i) :: u32))) [0..<sz] 0)))"

subsection \<open>Pulses and their envelope\<close>

record l2_pulse =
  laddr :: u32
  ltime :: u32

definition low_bytes :: "nat \<Rightarrow> u32 \<Rightarrow> u8 list" where
  "low_bytes n v = map (\<lambda>i. ucast (drop_bit (8 * i) v AND 0xff)) [0..<n]"

text \<open>\<open>n\<close> bytes of a buffer from position \<open>pos\<close>, added up.\<close>

definition sum_bytes :: "nat \<Rightarrow> u8 list \<Rightarrow> nat \<Rightarrow> u32" where
  "sum_bytes n b pos = fold (\<lambda>i t. t + push_bit (8 * i) (ucast (b ! (pos + i)) AND 0xff)) [0..<n] 0"

text \<open>A label of 12 bits takes two bytes, a time of 20 bits three; the size is 5 with its own byte.\<close>

definition pulse_serialize :: "l2_pulse \<Rightarrow> bool \<Rightarrow> u8 list" where
  "pulse_serialize p verbose = (if verbose then [] else low_bytes 1 5 @ low_bytes 2 (laddr p) @ low_bytes 3 (ltime p))"

definition pulse_deserialize :: "u8 list \<Rightarrow> l2_pulse" where
  "pulse_deserialize b = (if sum_bytes 1 b 0 > 5 then \<lparr>laddr = 0, ltime = 0\<rparr>
     else \<lparr>laddr = sum_bytes 2 b 1, ltime = sum_bytes 3 b 3\<rparr>)"

text \<open>The order of pulses: by time, then by label.\<close>

definition pulse_less :: "l2_pulse \<Rightarrow> l2_pulse \<Rightarrow> bool" where
  "pulse_less p q = (if ltime p = ltime q then laddr p < laddr q else ltime p < ltime q)"

text \<open>\<open>IData\<close>; the payload type is kept as its number. Of the six types two are serialised.\<close>

record idata =
  icmd :: ci_packet_t
  ievent :: l2_pulse
  iaddr :: u32
  ipayload :: u32

definition p_empty :: u32 where "p_empty = 0"
definition p_ci :: u32 where "p_ci = 1"
definition p_event :: u32 where "p_event = 2"
definition p_layer2 :: u32 where "p_layer2 = 3"

definition idata_serialize :: "idata \<Rightarrow> bool \<Rightarrow> u8 list" where
  "idata_serialize d verbose = low_bytes 1 (ipayload d) @ low_bytes 2 (iaddr d) @
     (if ipayload d = p_ci then packet_serialize (icmd d) verbose
      else if ipayload d = p_event then pulse_serialize (ievent d) verbose else [])"

definition idata_deserialize :: "u8 list \<Rightarrow> idata \<Rightarrow> idata option" where
  "idata_deserialize b d = (let d1 = d\<lparr>iaddr := sum_bytes 2 b 1, ipayload := sum_bytes 1 b 0\<rparr>;
       rest = drop 3 b in
     if ipayload d1 = p_ci then
       (case packet_deserialize rest of None \<Rightarrow> None | Some c \<Rightarrow> Some (d1\<lparr>icmd := c\<rparr>))
     else if ipayload d1 = p_event then Some (d1\<lparr>ievent := pulse_deserialize rest\<rparr>)
     else Some d1)"

subsection \<open>Configuration packets of DNC and FPGA\<close>

datatype l2_type_t = EMPTY | DNC_ROUTING | DNC_DIRECTIONS | FPGA_ROUTING

record l2_packet_t =
  ltype :: l2_type_t
  lid :: u32
  lsub_id :: u32
  ldata :: "u64 list"

fun entry_width :: "l2_type_t \<Rightarrow> nat" where
  "entry_width DNC_ROUTING = 24"
| "entry_width FPGA_ROUTING = 47"
| "entry_width _ = 64"

text \<open>The two bytes of the header; those of an empty packet are question marks.\<close>

fun l2_header :: "l2_type_t \<Rightarrow> u8 list" where
  "l2_header DNC_ROUTING = [0x1d, 0x1a]"
| "l2_header FPGA_ROUTING = [0x0c, 0xaa]"
| "l2_header DNC_DIRECTIONS = [0x0e, 0x55]"
| "l2_header EMPTY = [0x3f, 0x3f]"

text \<open>The inner loop: whole bytes of an entry go out, from its highest bits; \<open>c\<close> is the byte begun and
  \<open>pos\<close> its bits used, always below 8.\<close>

function emit :: "u64 \<Rightarrow> nat \<Rightarrow> u8 \<Rightarrow> nat \<Rightarrow> u8 list \<Rightarrow> u8 list \<times> u8 \<times> nat \<times> nat" where
  "emit d remaining c pos out =
    (if pos < 8 \<and> remaining \<ge> 8 - pos then
       emit d (remaining - (8 - pos)) 0 0
         (out @ [c OR ucast (push_bit pos (drop_bit (remaining - (8 - pos)) d mod push_bit (8 - pos) 1))])
     else (out, c, pos, remaining))"
  by pat_completeness auto
termination by (relation "measure (\<lambda>(d, remaining, c, pos, out). remaining)") auto

definition emit_entry :: "nat \<Rightarrow> u64 \<Rightarrow> u8 list \<times> u8 \<times> nat \<Rightarrow> u8 list \<times> u8 \<times> nat" where
  "emit_entry w d st = (case st of (out, c, pos) \<Rightarrow>
     (case emit d w c pos out of (out1, c1, pos1, remaining) \<Rightarrow>
        if remaining > 0 then (out1, ucast (d mod of_nat remaining), remaining) else (out1, c1, pos1)))"

definition l2_serialize :: "l2_packet_t \<Rightarrow> u8 list" where
  "l2_serialize p =
    (case fold (emit_entry (entry_width (ltype p))) (ldata p)
       ([ucast (drop_bit 8 (lid p) mod push_bit 8 1), ucast (lid p mod push_bit 8 1),
         ucast (drop_bit 8 (lsub_id p) mod push_bit 8 1), ucast (lsub_id p mod push_bit 8 1)] @ l2_header (ltype p), 0, 0) of
       (out, c, pos) \<Rightarrow> if pos > 0 then out @ [c] else out)"

text \<open>Reading: entries that lie within a byte, and one byte.\<close>

function inner_entries :: "nat \<Rightarrow> u8 \<Rightarrow> nat \<Rightarrow> u64 list \<Rightarrow> nat \<times> u64 list" where
  "inner_entries w c rem_charbits acc =
    (if rem_charbits \<ge> w \<and> 0 < w then
       inner_entries w c (rem_charbits - w) (acc @ [drop_bit (rem_charbits - w) (ucast c) mod push_bit w 1])
     else (rem_charbits, acc))"
  by pat_completeness auto
termination by (relation "measure (\<lambda>(w, c, r, acc). r)") auto

definition read_char :: "nat \<Rightarrow> u8 \<Rightarrow> u64 list \<times> u64 \<times> nat \<Rightarrow> u64 list \<times> u64 \<times> nat" where
  "read_char w c st = (case st of (acc, cur, remaining) \<Rightarrow>
     if remaining \<ge> 8 then (acc, cur + push_bit (remaining - 8) (ucast c), remaining - 8)
     else (case inner_entries w c (8 - remaining) (acc @ [cur + drop_bit (8 - remaining) (ucast c)]) of
        (r, acc1) \<Rightarrow> (acc1, push_bit (w - r) (ucast c mod push_bit r 1), w - r)))"

definition type_of_header :: "u8 \<Rightarrow> u8 \<Rightarrow> l2_type_t" where
  "type_of_header a b = (if a = 0x1d \<and> b = 0x1a then DNC_ROUTING
     else if a = 0x0c \<and> b = 0xaa then FPGA_ROUTING
     else if a = 0x0e \<and> b = 0x55 then DNC_DIRECTIONS else EMPTY)"

definition l2_deserialize :: "u8 list \<Rightarrow> l2_packet_t \<Rightarrow> bool \<times> l2_packet_t" where
  "l2_deserialize s p =
    (if length s \<le> 6 then (False, p)
     else let t = type_of_header (s ! 4) (s ! 5);
              p1 = p\<lparr>lid := push_bit 8 (ucast (s ! 0)) + ucast (s ! 1), lsub_id := push_bit 8 (ucast (s ! 2)) + ucast (s ! 3), ltype := t\<rparr> in
       if t = EMPTY then (False, p1)
       else (case fold (read_char (entry_width t)) (drop 6 s) ([], 0, entry_width t) of
         (acc, cur, remaining) \<Rightarrow> (True, p1\<lparr>ldata := (if remaining = 0 then acc @ [cur] else acc)\<rparr>)))"

subsection \<open>Words and packets\<close>

lemma field_mask: "push_bit w 1 - 1 = (mask w :: u64)"
  by (simp add: mask_eq_exp_minus_1 push_bit_of_1)

lemma bit_put_field: "bit (put_field p w x) n \<longleftrightarrow> p \<le> n \<and> n < p + w \<and> n < 64 \<and> bit x (n - p)"
  unfolding put_field_def field_mask bit_push_bit_iff bit_and_iff bit_mask_iff
  using bit_imp_le_length [of x "n - p"] by auto

lemma bit_get_field: "bit (get_field p w v) n \<longleftrightarrow> n < w \<and> bit v (p + n)"
  unfolding get_field_def field_mask bit_drop_bit_eq bit_and_iff bit_mask_iff o_def
  using bit_imp_le_length [of v "p + n"] by auto

lemma lt_bit: "unat (x :: 'a :: len word) < 2 ^ w \<Longrightarrow> bit x n \<Longrightarrow> n < w"
proof -
  assume a: "unat x < 2 ^ w" "bit x n"
  have "take_bit w x = x" using a(1) by (simp add: word_unat_eq_iff unsigned_take_bit_eq take_bit_nat_eq_self)
  then show "n < w" using a(2) by (metis bit_take_bit_iff)
qed

lemmas packet_bits = bit_or_iff bit_put_field bit_get_field bit_ucast_iff

text \<open>Taking a field of fields put together.\<close>

lemma get_field_or: "get_field p w (a OR b) = get_field p w a OR get_field p w b"
  by (rule bit_eqI) (auto simp: bit_get_field bit_or_iff)

lemma get_put_field: "p + w \<le> 64 \<Longrightarrow> get_field p w (put_field p w x) = take_bit w x"
  by (rule bit_eqI) (auto simp: bit_get_field bit_put_field bit_take_bit_iff)

lemma get_put_other: "p + w \<le> p1 \<or> p1 + w1 \<le> p \<Longrightarrow> get_field p w (put_field p1 w1 x) = 0"
  by (rule bit_eqI) (auto simp: bit_get_field bit_put_field)

lemma take_small: "unat (x :: 'a :: len word) < 2 ^ w \<Longrightarrow> take_bit w x = x"
  by (simp add: word_unat_eq_iff unsigned_take_bit_eq take_bit_nat_eq_self)

lemma ucast_take_bit: "LENGTH('a :: len) \<le> 64 \<Longrightarrow> ucast (take_bit w (ucast (x :: 'a word) :: u64)) = take_bit w x"
  by (rule bit_eqI) (auto simp: bit_ucast_iff bit_take_bit_iff dest: bit_imp_le_length)

lemma ucast_mod_2: "unat (x :: u32) < 2 \<Longrightarrow> ucast ((ucast x :: u64) mod 2) = x"
  using ucast_take_bit [of 1 x] take_small [of x 1] by simp

lemma take_all: "take_bit 32 (x :: u32) = x" "take_bit 16 (y :: u16) = y"
  by (rule bit_eqI; auto simp: bit_take_bit_iff dest: bit_imp_le_length)+

lemmas fields = get_field_or get_put_field get_put_other ucast_take_bit take_all

lemma packet_of_word:
  assumes "TagID p < 4" "SeqValid p < 2" "Seq p < 64" "Ack p < 64" "Write p < 2"
  shows "of_uint64 (to_uint64 p) = p"
proof -
  have l: "unat (TagID p) < 2 ^ 2" "unat (SeqValid p) < 2 ^ 1" "unat (Seq p) < 2 ^ 6" "unat (Ack p) < 2 ^ 6" "unat (Write p) < 2 ^ 1"
    using assms by (simp_all add: word_less_nat_alt)
  then show ?thesis
    by (simp add: of_uint64_def to_uint64_def fields l [THEN take_small] ucast_mod_2 l [simplified])
qed

lemma word_of_packet [simp]: "to_uint64 (of_uint64 v) = v"
proof (rule bit_word_eqI)
  fix n :: nat
  assume "n < LENGTH(64)"
  then have n: "n < 64" by simp
  then consider "n < 32" | "32 \<le> n" "n < 48" | "n = 48" | "49 \<le> n" "n < 55" | "55 \<le> n" "n < 61" | "n = 61" | "62 \<le> n"
    by linarith
  then show "bit (to_uint64 (of_uint64 v)) n = bit v n"
    using n by cases (auto simp: of_uint64_def to_uint64_def packet_bits)
qed

text \<open>Claim C18: Command packets whose numbers fit their fields and 64-bit words are in bijection: the
  packet of a packet's word is the packet, and the word of a word's packet is the word.\<close>

theorem packet_word_bijection:
  "(TagID p < 4 \<and> SeqValid p < 2 \<and> Seq p < 64 \<and> Ack p < 64 \<and> Write p < 2 \<longrightarrow> of_uint64 (to_uint64 p) = p) \<and>
   to_uint64 (of_uint64 v) = v"
  by (simp add: packet_of_word)

theorem packet_word_bijection_witness:
  "let p = \<lparr>TagID = 1, SeqValid = 1, Seq = 33, Ack = 5, Write = 1, Addr = 0xC0DE, Data = 0xDEADBEEF\<rparr> in
     of_uint64 (to_uint64 p) = p"
  using packet_word_bijection [of "\<lparr>TagID = 1, SeqValid = 1, Seq = 33, Ack = 5, Write = 1, Addr = 0xC0DE, Data = 0xDEADBEEF\<rparr>" 0]
  by (simp add: Let_def)

text \<open>The packet of the ARQ layer is built of the same word.\<close>

lemma arq_word_roundtrip:
  assumes "atag p < 4" "aseq p < 64" "aack p < 64" "pwrite (adata p) < 2"
  shows "arq_GetRaw (arq_word p) = p"
proof -
  have l: "unat (atag p) < 2 ^ 2" "unat (aseq p) < 2 ^ 6" "unat (aack p) < 2 ^ 6" "unat (pwrite (adata p)) < 2 ^ 1"
    using assms by (simp_all add: word_less_nat_alt)
  have "get_field 61 1 (arq_word p) = of_bool (aseqvalid p)"
    by (simp add: arq_word_def fields)
  then show ?thesis by (simp add: arq_GetRaw_def arq_word_def fields l [THEN take_small] ucast_mod_2 l [simplified])
qed

subsection \<open>Bytes of words\<close>

lemma bit_byte_at: "bit (push_bit (n * 8) (ucast (x :: u8)) :: u64) k \<longleftrightarrow> k < 64 \<and> k div 8 = n \<and> bit x (k mod 8)"
proof -
  have q: "n * 8 \<le> k \<and> k - n * 8 < 8 \<longleftrightarrow> k div 8 = n" 
  proof
    assume a: "n * 8 \<le> k \<and> k - n * 8 < 8"
    then obtain j where "k = n * 8 + j" by (metis le_iff_add)
    then show "k div 8 = n" using a by simp
  next
    assume "k div 8 = n"
    then show "n * 8 \<le> k \<and> k - n * 8 < 8" using div_mult_mod_eq [of k 8] mod_less_divisor [of 8 k] by linarith
  qed
  moreover have "k div 8 = n \<Longrightarrow> k - n * 8 = k mod 8" using div_mult_mod_eq [of k 8] by linarith
  ultimately show ?thesis
    using bit_imp_le_length [of x "k - n * 8"] bit_imp_le_length [of x "k mod 8"]
    by (auto simp: bit_push_bit_iff bit_ucast_iff)
qed

lemma bit_from_bytes: "n \<le> 8 \<Longrightarrow> bit (from_bytes n b) k \<longleftrightarrow> k div 8 < n \<and> bit (b ! (k div 8)) (k mod 8)"
proof (induction n)
  case 0 then show ?case by (simp add: from_bytes_def)
next
  case (Suc n)
  have "from_bytes (Suc n) b = from_bytes n b OR push_bit (n * 8) (ucast (b ! n))"
    by (simp add: from_bytes_def)
  moreover have "k div 8 = n \<Longrightarrow> k < 64" using Suc.prems by linarith
  ultimately show ?case using Suc bit_byte_at [of n "b ! n" k] by (auto simp: bit_or_iff less_Suc_eq)
qed

lemma nth_to_bytes: "i < n \<Longrightarrow> bit (to_bytes n v ! i) k \<longleftrightarrow> k < 8 \<and> bit v (8 * i + k)"
proof -
  assume "i < n"
  have m: "(0xff :: u64) = mask 8" by (simp add: mask_eq_exp_minus_1)
  show ?thesis using \<open>i < n\<close> bit_imp_le_length [of v "8 * i + k"]
    by (auto simp: to_bytes_def bit_ucast_iff m bit_and_iff bit_mask_iff bit_drop_bit_eq)
qed

lemma bytes_roundtrip: "n \<le> 8 \<Longrightarrow> from_bytes n (to_bytes n v) = take_bit (8 * n) v"
proof (rule bit_eqI)
  fix k assume n: "n \<le> 8"
  have "k < 8 * n \<Longrightarrow> k div 8 < n" by (simp add: less_mult_imp_div_less mult.commute)
  then show "bit (from_bytes n (to_bytes n v)) k = bit (take_bit (8 * n) v) k"
    using n by (auto simp: bit_from_bytes nth_to_bytes bit_take_bit_iff)
qed

text \<open>A command payload survives the way through the seven bytes of its raw form, and any
  other size is refused on both sides.\<close>

theorem payload_roundtrip:
  assumes "pwrite p < 2"
  shows "payload_from_raw u (fst (payload_GetRaw p 7)) (snd (payload_GetRaw p 7)) = p \<and>
    (sz = 7 \<or> payload_GetRaw p sz = ([], 0) \<and> payload_from_raw u b sz = u)"
proof -
  have l: "unat (pwrite p) < 2 ^ 1" using assms by (simp add: word_less_nat_alt)
  have w: "from_bytes payload_size (payload_serialize p) = payload_word p"
    unfolding payload_serialize_def payload_size_def
    by (subst bytes_roundtrip) (auto intro!: bit_eqI simp: bit_take_bit_iff payload_word_def packet_bits)
  have "payload_deserialize (payload_serialize p) = p"
    by (simp add: payload_deserialize_def w Let_def payload_word_def fields l [THEN take_small] ucast_mod_2 l [simplified])
  then show ?thesis by (auto simp: payload_GetRaw_def payload_from_raw_def payload_size_def)
qed

theorem payload_roundtrip_witness:
  "let p = \<lparr>pwrite = 1, paddr = 0x1234, pdat = 0xCAFEBABE\<rparr>; u = \<lparr>pwrite = 0, paddr = 0, pdat = 0\<rparr>; r = payload_GetRaw p 7 in
     payload_from_raw u (fst r) (snd r) = p"
  using payload_roundtrip [of "\<lparr>pwrite = 1, paddr = 0x1234, pdat = 0xCAFEBABE\<rparr>" "\<lparr>pwrite = 0, paddr = 0, pdat = 0\<rparr>" 7 "[]"]
  by (simp add: Let_def)

subsection \<open>Pulses through their envelope\<close>

text \<open>Adding bytes at their places is a bit by bit affair.\<close>

lemma add_part:
  assumes "r \<le> r1"
  shows "take_bit r v + push_bit r (take_bit (r1 - r) (drop_bit r v)) = take_bit r1 (v :: 'a :: len word)"
proof -
  have "take_bit r v AND push_bit r (take_bit (r1 - r) (drop_bit r v)) = 0"
    by (rule bit_eqI) (auto simp: bit_and_iff bit_take_bit_iff bit_push_bit_iff)
  then have "take_bit r v + push_bit r (take_bit (r1 - r) (drop_bit r v)) = take_bit r v OR push_bit r (take_bit (r1 - r) (drop_bit r v))"
    by (rule disjunctive_add_eq_or)
  also have "\<dots> = take_bit r1 v"
    using assms bit_imp_le_length [of v] by (auto intro!: bit_eqI simp: bit_or_iff bit_take_bit_iff bit_push_bit_iff bit_drop_bit_eq)
  finally show ?thesis .
qed

lemma nth_low_bytes: "i < n \<Longrightarrow> (ucast (low_bytes n v ! i) :: u32) AND 0xff = take_bit 8 (drop_bit (8 * i) v)"
proof -
  assume i: "i < n"
  have m: "(0xff :: u32) = mask 8" by (simp add: mask_eq_exp_minus_1)
  show ?thesis using i unfolding low_bytes_def m
    by (auto intro!: bit_eqI simp: bit_ucast_iff bit_and_iff bit_mask_iff bit_take_bit_iff bit_drop_bit_eq)
qed

lemma sum_low_bytes:
  assumes "\<And>i. i < n \<Longrightarrow> b ! (pos + i) = low_bytes m v ! i" "n \<le> m"
  shows "sum_bytes n b pos = take_bit (8 * n) v"
  using assms
proof (induction n)
  case 0 then show ?case by (simp add: sum_bytes_def)
next
  case (Suc n)
  have "sum_bytes (Suc n) b pos = sum_bytes n b pos + push_bit (8 * n) (ucast (b ! (pos + n)) AND 0xff)"
    by (simp add: sum_bytes_def)
  also have "\<dots> = take_bit (8 * n) v + push_bit (8 * n) (take_bit (8 * Suc n - 8 * n) (drop_bit (8 * n) v))"
    using Suc by (simp add: nth_low_bytes)
  also have "\<dots> = take_bit (8 * Suc n) v" by (rule add_part) simp
  finally show ?case .
qed

lemma low_bytes_length [simp]: "length (low_bytes n v) = n"
  by (simp add: low_bytes_def)

lemma sum_low_bytes_at: "n = m \<Longrightarrow> length xs = pos \<Longrightarrow> sum_bytes n (xs @ low_bytes m v @ ys) pos = take_bit (8 * n) v"
  by (rule sum_low_bytes [where m = m]) (auto simp: nth_append)

lemma pulse_roundtrip:
  assumes "laddr p < 2 ^ 16" "ltime p < 2 ^ 24"
  shows "pulse_deserialize (pulse_serialize p False) = p"
proof -
  have t: "take_bit 16 (laddr p) = laddr p" "take_bit 24 (ltime p) = ltime p"
    using assms by (intro take_small; simp add: word_less_nat_alt)+
  have "sum_bytes 1 (pulse_serialize p False) 0 = take_bit (8 * 1) 5"
    using sum_low_bytes_at [of 1 1 "[]" 0 5 "low_bytes 2 (laddr p) @ low_bytes 3 (ltime p)"] by (simp add: pulse_serialize_def)
  moreover have "sum_bytes 2 (pulse_serialize p False) 1 = take_bit (8 * 2) (laddr p)"
    using sum_low_bytes_at [of 2 2 "low_bytes 1 5" 1 "laddr p" "low_bytes 3 (ltime p)"] by (simp add: pulse_serialize_def)
  moreover have "sum_bytes 3 (pulse_serialize p False) 3 = take_bit (8 * 3) (ltime p)"
    using sum_low_bytes_at [of 3 3 "low_bytes 1 5 @ low_bytes 2 (laddr p)" 3 "ltime p" "[]"] by (simp add: pulse_serialize_def)
  ultimately show ?thesis by (simp add: pulse_deserialize_def t)
qed

text \<open>A pulse whose label fits two bytes and whose time fits three, sent in an envelope with a
  16-bit address, is received with its type and address, whatever the receiving object held.\<close>

theorem idata_event_roundtrip:
  assumes "ipayload d = p_event" "iaddr d < 2 ^ 16" "laddr (ievent d) < 2 ^ 16" "ltime (ievent d) < 2 ^ 24"
  shows "idata_deserialize (idata_serialize d False) d0 = Some (d0\<lparr>ievent := ievent d, iaddr := iaddr d, ipayload := p_event\<rparr>)"
proof -
  let ?b = "idata_serialize d False" and ?rest = "pulse_serialize (ievent d) False"
  have b: "?b = low_bytes 1 p_event @ low_bytes 2 (iaddr d) @ ?rest"
    using assms(1) by (simp add: idata_serialize_def p_event_def p_ci_def)
  have "sum_bytes 1 ?b 0 = take_bit (8 * 1) p_event"
    using sum_low_bytes_at [of 1 1 "[]" 0 p_event "low_bytes 2 (iaddr d) @ ?rest"] by (simp add: b)
  then have t: "sum_bytes 1 ?b 0 = p_event" by (simp add: p_event_def)
  have "sum_bytes 2 ?b 1 = take_bit (8 * 2) (iaddr d)"
    using sum_low_bytes_at [of 2 2 "low_bytes 1 p_event" 1 "iaddr d" ?rest] by (simp add: b)
  moreover have "take_bit 16 (iaddr d) = iaddr d" using assms(2) by (intro take_small) (simp add: word_less_nat_alt)
  ultimately have a: "sum_bytes 2 ?b 1 = iaddr d" by simp
  have "drop 3 ?b = ?rest" by (simp add: b)
  then show ?thesis
    using pulse_roundtrip [OF assms(3,4)] unfolding idata_deserialize_def Let_def t a by (simp add: p_event_def p_ci_def)
qed

theorem idata_event_roundtrip_witness:
  "let d = \<lparr>icmd = packet_clear, ievent = \<lparr>laddr = 0xABC, ltime = 0x12345\<rparr>, iaddr = 7, ipayload = p_event\<rparr> in
     idata_deserialize (idata_serialize d False) (d\<lparr>ievent := \<lparr>laddr = 0, ltime = 0\<rparr>, ipayload := 0\<rparr>) = Some d"
  using idata_event_roundtrip [of "\<lparr>icmd = packet_clear, ievent = \<lparr>laddr = 0xABC, ltime = 0x12345\<rparr>, iaddr = 7, ipayload = p_event\<rparr>"
    "\<lparr>icmd = packet_clear, ievent = \<lparr>laddr = 0, ltime = 0\<rparr>, iaddr = 7, ipayload = 0\<rparr>"]
  by (simp add: Let_def)

text \<open>A command in an envelope cannot be read back: its bytes are wrong, and reading them is undefined.\<close>

lemma idata_command_undefined:
  assumes "ipayload d = p_ci" "iaddr d < 2 ^ 16"
  shows "idata_deserialize (idata_serialize d False) d0 = None"
proof -
  let ?b = "idata_serialize d False" and ?rest = "packet_serialize (icmd d) False"
  have b: "?b = low_bytes 1 p_ci @ low_bytes 2 (iaddr d) @ ?rest" using assms(1) by (simp add: idata_serialize_def)
  have "sum_bytes 1 ?b 0 = take_bit (8 * 1) p_ci"
    using sum_low_bytes_at [of 1 1 "[]" 0 p_ci "low_bytes 2 (iaddr d) @ ?rest"] by (simp add: b)
  then have t: "sum_bytes 1 ?b 0 = p_ci" by (simp add: p_ci_def)
  have "drop 3 ?b = ?rest" by (simp add: b)
  then show ?thesis unfolding idata_deserialize_def Let_def t by (simp add: packet_deserialize_def packet_serialize_def)
qed

subsection \<open>Configuration packets\<close>

declare emit.simps [simp del] inner_entries.simps [simp del]

text \<open>The bytes of an entry of \<open>n\<close> bytes, highest first.\<close>

fun be_bytes :: "nat \<Rightarrow> u64 \<Rightarrow> u8 list" where
  "be_bytes 0 d = []"
| "be_bytes (Suc n) d = ucast (drop_bit (8 * n) d mod 256) # be_bytes n d"

lemma emit_bytes: "emit d (8 * n) 0 0 out = (out @ be_bytes n d, 0, 0, 0)"
proof (induction n arbitrary: out)
  case 0 then show ?case by (simp add: emit.simps)
next
  case (Suc n)
  have "8 * Suc n - 8 = 8 * n" by simp
  then show ?case by (subst emit.simps) (simp add: Suc.IH)
qed

lemma emit_entry_bytes: "emit_entry (8 * n) d (out, 0, 0) = (out @ be_bytes n d, 0, 0)"
  by (simp add: emit_entry_def emit_bytes)

lemma emit_entries: "fold (emit_entry (8 * n)) ds (out, 0, 0) = (out @ concat (map (be_bytes n) ds), 0, 0)"
  by (induction ds arbitrary: out) (simp_all add: emit_entry_bytes)

lemma mod_byte: "y mod push_bit 8 1 = take_bit 8 (y :: 'a :: len word)"
  by (simp only: take_bit_eq_mod push_bit_eq_mult mult_1_left)

lemma byte_value: "ucast (ucast (drop_bit r d mod 256) :: u8) = take_bit 8 (drop_bit r (d :: u64))"
proof -
  have "drop_bit r d mod 256 = take_bit 8 (drop_bit r d)" by (simp add: take_bit_eq_mod)
  then show ?thesis by (auto intro!: bit_eqI simp: bit_ucast_iff bit_take_bit_iff)
qed

text \<open>The value collected while \<open>r\<close> bits are missing, and one byte more.\<close>

lemma collect_byte:
  "push_bit (r + 8) (drop_bit (r + 8) d) + push_bit r (take_bit 8 (drop_bit r d)) = push_bit r (drop_bit r (d :: u64))"
proof -
  have "push_bit (r + 8) (drop_bit (r + 8) d) AND push_bit r (take_bit 8 (drop_bit r d)) = 0"
    by (rule bit_eqI) (auto simp: bit_and_iff bit_push_bit_iff bit_take_bit_iff)
  then have "push_bit (r + 8) (drop_bit (r + 8) d) + push_bit r (take_bit 8 (drop_bit r d))
      = push_bit (r + 8) (drop_bit (r + 8) d) OR push_bit r (take_bit 8 (drop_bit r d))"
    by (rule disjunctive_add_eq_or)
  also have "\<dots> = push_bit r (drop_bit r d)"
  proof (rule bit_eqI)
    fix n
    show "bit (push_bit (r + 8) (drop_bit (r + 8) d) OR push_bit r (take_bit 8 (drop_bit r d))) n = bit (push_bit r (drop_bit r d)) n"
      by (cases "r + 8 \<le> n") (auto simp: bit_or_iff bit_push_bit_iff bit_take_bit_iff bit_drop_bit_eq)
  qed
  finally show ?thesis .
qed

lemma read_rest: "fold (read_char w) (be_bytes n d) (acc, push_bit (8 * n) (drop_bit (8 * n) d), 8 * n) = (acc, d, 0)"
proof (induction n)
  case (Suc n)
  have "read_char w (ucast (drop_bit (8 * n) d mod 256)) (acc, push_bit (8 * Suc n) (drop_bit (8 * Suc n) d), 8 * Suc n)
      = (acc, push_bit (8 * n) (drop_bit (8 * n) d), 8 * n)"
    using collect_byte [of "8 * n" d] by (simp add: read_char_def byte_value add.commute)
  then show ?case using Suc by simp
qed simp

text \<open>One entry, read first or after another that is waiting to be stored.\<close>

lemma read_entry:
  assumes "unat d < 2 ^ (8 * Suc m)" "0 < m"
  shows "fold (read_char (8 * Suc m)) (be_bytes (Suc m) d) ([], 0, 8 * Suc m) = ([], d, 0)"
    "fold (read_char (8 * Suc m)) (be_bytes (Suc m) d) (acc, cur, 0) = (acc @ [cur], d, 0)"
proof -
  have "take_bit 8 (drop_bit (8 * m) d) = drop_bit (8 * m) d"
    by (rule bit_eqI) (auto simp: bit_take_bit_iff bit_drop_bit_eq dest: lt_bit [OF assms(1)])
  then have v: "ucast (ucast (drop_bit (8 * m) d mod 256) :: u8) = drop_bit (8 * m) d" by (simp add: byte_value)
  let ?c = "ucast (drop_bit (8 * m) d mod 256) :: u8"
  have f: "read_char (8 * Suc m) ?c ([], 0, 8 * Suc m) = ([], push_bit (8 * m) (drop_bit (8 * m) d), 8 * m)"
    by (simp add: read_char_def v)
  have i: "inner_entries (8 * Suc m) ?c 8 l = (8, l)" for l using assms(2) by (simp add: inner_entries.simps)
  have "drop_bit 8 (ucast ?c :: u64) = 0"
    by (rule bit_eqI) (auto simp: bit_drop_bit_eq bit_ucast_iff dest: bit_imp_le_length)
  moreover have "(ucast ?c :: u64) mod push_bit 8 1 = ucast ?c"
    unfolding mod_byte by (rule bit_eqI) (auto simp: bit_take_bit_iff bit_ucast_iff dest: bit_imp_le_length)
  ultimately have g: "read_char (8 * Suc m) ?c (acc, cur, 0) = (acc @ [cur], push_bit (8 * m) (drop_bit (8 * m) d), 8 * m)"
    using i by (simp add: read_char_def v del: push_bit_of_1)
  show "fold (read_char (8 * Suc m)) (be_bytes (Suc m) d) ([], 0, 8 * Suc m) = ([], d, 0)"
    using f read_rest [of "8 * Suc m" m d "[]"] by simp
  show "fold (read_char (8 * Suc m)) (be_bytes (Suc m) d) (acc, cur, 0) = (acc @ [cur], d, 0)"
    using g read_rest [of "8 * Suc m" m d "acc @ [cur]"] by simp
qed

lemma read_entries:
  assumes "list_all (\<lambda>d. unat d < 2 ^ (8 * Suc m)) ds" "0 < m"
  shows "fold (read_char (8 * Suc m)) (concat (map (be_bytes (Suc m)) ds)) (acc, cur, 0) = (butlast (acc @ cur # ds), last (cur # ds), 0)"
  using assms(1)
proof (induction ds arbitrary: acc cur)
  case (Cons d ds)
  then show ?case using read_entry(2) [OF _ assms(2), of d acc cur] by (simp del: be_bytes.simps)
qed simp

lemma id_bytes:
  assumes "x < 2 ^ 16"
  shows "push_bit 8 (ucast (ucast (drop_bit 8 x mod push_bit 8 1) :: u8)) + ucast (ucast (x mod push_bit 8 1) :: u8) = (x :: u32)"
proof -
  have b: "ucast (ucast (y mod push_bit 8 1 :: u32) :: u8) = take_bit 8 y" for y :: u32
    unfolding mod_byte by (auto intro!: bit_eqI simp: bit_ucast_iff bit_take_bit_iff)
  have "take_bit 8 x + push_bit 8 (take_bit (16 - 8) (drop_bit 8 x)) = take_bit 16 x" by (rule add_part) simp
  moreover have "take_bit 16 x = x" using assms by (intro take_small) (simp add: word_less_nat_alt)
  ultimately show ?thesis unfolding b by (simp add: add.commute)
qed

text \<open>Claim C19: Configuration packets of the DNC, routing and directions, survive the way through bytes when they
  have data, the identifiers fit 16 bits and each entry its width; the receiving object's old
  contents do not matter.\<close>

theorem l2_roundtrip:
  assumes "ltype p = DNC_ROUTING \<or> ltype p = DNC_DIRECTIONS" "ldata p \<noteq> []" "lid p < 2 ^ 16" "lsub_id p < 2 ^ 16"
    "list_all (\<lambda>d. unat d < 2 ^ entry_width (ltype p)) (ldata p)"
  shows "l2_deserialize (l2_serialize p) q = (True, p)"
proof -
  obtain m where w: "entry_width (ltype p) = 8 * Suc m" "0 < m"
    using assms(1) that [of 2] that [of 7] by auto
  let ?ids = "[ucast (drop_bit 8 (lid p) mod push_bit 8 1), ucast (lid p mod push_bit 8 1),
    ucast (drop_bit 8 (lsub_id p) mod push_bit 8 1), ucast (lsub_id p mod push_bit 8 1)] :: u8 list"
  let ?bytes = "concat (map (be_bytes (Suc m)) (ldata p))"
  obtain h1 h2 where h: "l2_header (ltype p) = [h1, h2]" "type_of_header h1 h2 = ltype p"
    using assms(1) by (auto simp: type_of_header_def)
  obtain d ds where ds: "ldata p = d # ds" using assms(2) by (cases "ldata p") auto
  have ser: "l2_serialize p = (?ids @ [h1, h2]) @ ?bytes"
    unfolding l2_serialize_def w(1) emit_entries h(1) by simp
  have "fold (read_char (8 * Suc m)) ?bytes ([], 0, 8 * Suc m) = (butlast (ldata p), last (ldata p), 0)"
    using assms(5) read_entry(1) [OF _ w(2), of d] read_entries [OF _ w(2), of ds "[]" d] unfolding ds w(1)
    by (simp del: be_bytes.simps)
  moreover have "length (l2_serialize p) > 6" unfolding ser ds by simp
  moreover have "ltype p \<noteq> EMPTY" using assms(1) by auto
  ultimately have "l2_deserialize (l2_serialize p) q = (True, q\<lparr>lid := lid p, lsub_id := lsub_id p, ltype := ltype p, ldata := ldata p\<rparr>)"
    using id_bytes [OF assms(3)] id_bytes [OF assms(4)] ds
    by (simp add: l2_deserialize_def Let_def ser h(2) w(1))
  then show ?thesis by simp
qed

theorem l2_roundtrip_witness:
  "let p = \<lparr>ltype = DNC_ROUTING, lid = 0x102, lsub_id = 3, ldata = [0xABCDEF, 5]\<rparr> in
     l2_deserialize (l2_serialize p) \<lparr>ltype = EMPTY, lid = 9, lsub_id = 9, ldata = []\<rparr> = (True, p)"
  using l2_roundtrip [of "\<lparr>ltype = DNC_ROUTING, lid = 0x102, lsub_id = 3, ldata = [0xABCDEF, 5]\<rparr>"] by (simp add: Let_def)

text \<open>The remainder of an FPGA entry is taken modulo the number of its bits: the entry 1 is read back as 0.\<close>

lemma fpga_routing_lost:
  "snd (l2_deserialize (l2_serialize \<lparr>ltype = FPGA_ROUTING, lid = 1, lsub_id = 0, ldata = [1]\<rparr>) q) =
     \<lparr>ltype = FPGA_ROUTING, lid = 1, lsub_id = 0, ldata = [0]\<rparr>"
  by (simp add: l2_serialize_def emit_entry_def emit.simps inner_entries.simps l2_deserialize_def read_char_def type_of_header_def Let_def)

end
