(* ===== verification/Hostal.thy ===== *)
theory Hostal
  imports Packets
begin

text \<open>
  The host's end of the connection to an FPGA (\<open>host_al_controller.h\<close>, \<open>host_al_controller.cpp\<close>): the state
  of \<open>HostALController\<close>, frames handed to and received from the ARQ stream of the transport
  library, the bulk of HICANN commands, the queues of their answers, and the decoding of traced
  pulses. The playback program is built in the theory \<open>Playback\<close>. The results: a bulk of commands
  goes out in order, in frames that fit, and what is answered lands in the queue of its HICANN and tag; waiting for an
  answer ends; traced pulses get the time their overflow count gives them.
\<close>

subsection \<open>State\<close>

text \<open>Frame types, the enumeration \<open>application_layer_packet_types\<close>.\<close>

definition JTAGBULK :: u32 where "JTAGBULK = 0x06A4"
definition FPGATRACE :: u32 where "FPGATRACE = 0x0CA5"
definition FPGAPLAYBACK :: u32 where "FPGAPLAYBACK = 0x0C5A"
definition FPGACONFIG :: u32 where "FPGACONFIG = 0x0C1B"
definition FPGADEBUG :: u32 where "FPGADEBUG = 0x0DB0"
definition HICANNCONFIG :: u32 where "HICANNCONFIG = 0x2A1B"

definition MAX_TIMESTAMP_CNT :: u64 where "MAX_TIMESTAMP_CNT = 0x8000"

record hicann_config_t =
  hc_dnc :: u32
  hc_hicann :: u32
  hc_data :: u64

text \<open>A packet of the transport library; its length is that of its data.\<close>

record frame =
  pid :: u32
  pdu :: "u64 list"

text \<open>
  The members the operations use. The ARQ stream is the environment: \<open>arq_set\<close> tells whether the
  pointer was set, \<open>sent\<close> lists the frames it took, \<open>accepts\<close> what it will answer to \<open>send\<close> (nothing
  more listed: it accepts), \<open>inbox\<close> the packets that have arrived and \<open>later\<close> what will arrive during
  each of the next waits (nothing more listed: nothing).
\<close>

record hostal =
  hiconf_bulk_buffer :: "hicann_config_t list"
  playback_entry_buffer :: "u32 list"
  last_playback_reltime :: u64
  last_group_start_in_buffer :: int
  jtag_receive_buffer :: "frame list"
  hiconf_receive_buffer :: "nat \<Rightarrow> u64 list"
  received_pulses_count :: u64
  recpulse_buffer :: "(u64 \<times> u16) list"
  trace_overflow_count :: u64
  last_traced_tstamp :: u64
  rec_trace_entries :: u32
  pb_end_address_received :: u32
  pulse_loopback_enable :: bool
  pb_systime_replace_enable :: bool
  spikes_to_binfile_enable :: bool
  ethernet_init :: bool
  arq_set :: bool
  sent :: "frame list"
  accepts :: "bool list"
  inbox :: "frame list"
  later :: "frame list list"

definition reset_playback_buffers :: "hostal \<Rightarrow> hostal" where
  "reset_playback_buffers s = s\<lparr>playback_entry_buffer := [], last_group_start_in_buffer := - 1\<rparr>"

definition reset_trace_buffers :: "hostal \<Rightarrow> hostal" where
  "reset_trace_buffers s = s\<lparr>trace_overflow_count := 0, last_traced_tstamp := 0, rec_trace_entries := 0,
     received_pulses_count := 0, recpulse_buffer := []\<rparr>"

definition reset_hiconf_buffers :: "hostal \<Rightarrow> hostal" where
  "reset_hiconf_buffers s = s\<lparr>hiconf_bulk_buffer := [], hiconf_receive_buffer := \<lambda>i. []\<rparr>"

definition reset_fpga_times :: "hostal \<Rightarrow> hostal" where
  "reset_fpga_times s = s\<lparr>pb_end_address_received := 0, last_playback_reltime := 0\<rparr>"

definition reset :: "hostal \<Rightarrow> hostal" where
  "reset s = reset_hiconf_buffers (reset_trace_buffers (reset_playback_buffers (reset_fpga_times
     (s\<lparr>ethernet_init := False, pulse_loopback_enable := False, pb_systime_replace_enable := False,
        pb_end_address_received := 0\<rparr>))))"

definition activateBinarySpikeDataFileWrite :: "bool \<Rightarrow> hostal \<Rightarrow> hostal" where
  "activateBinarySpikeDataFileWrite b s = s\<lparr>spikes_to_binfile_enable := b\<rparr>"

definition isInitialized :: "hostal \<Rightarrow> bool" where
  "isInitialized s = ethernet_init s"

subsection \<open>Sending frames\<close>

text \<open>The length is in bytes; the words copied are those that hold it. The words of \<open>payload\<close> are the
  memory behind the pointer.\<close>

definition sendSingleFrame :: "u32 \<Rightarrow> nat \<Rightarrow> u64 list \<Rightarrow> (hostal, bool) hal" where
  "sendSingleFrame frametype pllength payload = (\<lambda>s.
     if pllength = 0 then (Inr True, s)
     else if \<not> arq_set s then (Inr False, s)
     else let ok = (case accepts s of [] \<Rightarrow> True | b # _ \<Rightarrow> b);
              s1 = s\<lparr>accepts := tl (accepts s)\<rparr> in
       if \<not> ok then (Inr False, s1)
       else (Inr True, s1\<lparr>sent := sent s @ [\<lparr>pid = frametype, pdu = take ((pllength + 7) div 8) payload\<rparr>]\<rparr>))"

text \<open>Frames of at most \<open>n\<close> entries; \<open>n\<close> is a positive constant of the transport library.\<close>

function chunks :: "nat \<Rightarrow> 'a list \<Rightarrow> 'a list list" where
  "chunks n xs = (if xs = [] \<or> n = 0 then [] else take n xs # chunks n (drop n xs))"
  by pat_completeness auto
termination by (relation "measure (\<lambda>(n, xs). length xs)") auto

declare chunks.simps [simp del]

text \<open>Frames sent one after the other; the result is true when all were taken.\<close>

primrec send_frames :: "u32 \<Rightarrow> (nat \<times> u64 list) list \<Rightarrow> bool \<Rightarrow> (hostal, bool) hal" where
  "send_frames t [] retval = hret retval"
| "send_frames t (f # fs) retval = hbind (sendSingleFrame t (fst f) (snd f)) (\<lambda>ok. send_frames t fs (retval \<and> ok))"

definition sendJTAG :: "nat \<Rightarrow> u64 list \<Rightarrow> (hostal, bool) hal" where
  "sendJTAG pllength payload = sendSingleFrame JTAGBULK pllength payload"

text \<open>The functions that are not implemented.\<close>

definition sendI2C :: "(hostal, bool) hal" where "sendI2C = hret False"
definition readHICANN :: "(hostal, bool) hal" where "readHICANN = hret False"

subsection \<open>HICANN commands\<close>

definition hicann_dest :: "u32 \<Rightarrow> u32 \<Rightarrow> u32" where
  "hicann_dest dnc hicann = push_bit 3 (dnc AND 3) OR (hicann AND 7)"

definition hicann_word :: "u64 \<Rightarrow> u32 \<Rightarrow> u32 \<Rightarrow> u64" where
  "hicann_word payload dnc hicann = (payload AND 0x3ffffffffffff) OR push_bit 59 (ucast (hicann_dest dnc hicann))"

definition sendSingleHICANNConfig :: "u64 \<Rightarrow> u32 \<Rightarrow> u32 \<Rightarrow> (hostal, bool) hal" where
  "sendSingleHICANNConfig payload dnc hicann = sendSingleFrame HICANNCONFIG 8 [hicann_word payload dnc hicann]"

definition addHICANNConfigBulk :: "u64 \<Rightarrow> u32 \<Rightarrow> u32 \<Rightarrow> hostal \<Rightarrow> hostal" where
  "addHICANNConfigBulk payload dnc hicann s =
     s\<lparr>hiconf_bulk_buffer := hiconf_bulk_buffer s @ [\<lparr>hc_dnc = dnc, hc_hicann = hicann, hc_data = payload\<rparr>]\<rparr>"

definition config_word :: "hicann_config_t \<Rightarrow> u64" where
  "config_word c = hicann_word (hc_data c) (hc_dnc c) (hc_hicann c)"

definition sendHICANNConfigBulk :: "nat \<Rightarrow> (hostal, bool) hal" where
  "sendHICANNConfigBulk max_config_per_frame = (\<lambda>s.
     hbind (send_frames HICANNCONFIG
         (map (\<lambda>cs. (8 * length cs, map config_word cs)) (chunks max_config_per_frame (hiconf_bulk_buffer s))) True)
       (\<lambda>retval. hseq (hmodify (\<lambda>s. s\<lparr>hiconf_bulk_buffer := []\<rparr>)) (hret retval)) s)"

subsection \<open>Receiving\<close>

text \<open>An answer of a HICANN goes to the queue of its tag (bit 0), HICANN (bits 1 to 3) and DNC.\<close>

definition queue_of_word :: "u64 \<Rightarrow> nat" where
  "queue_of_word w = unat (get_field 49 1 w OR push_bit 1 (get_field 59 3 w) OR push_bit 4 (get_field 62 2 w))"

definition receive_config :: "u64 \<Rightarrow> hostal \<Rightarrow> hostal" where
  "receive_config w s = s\<lparr>hiconf_receive_buffer :=
     (hiconf_receive_buffer s)(queue_of_word w := hiconf_receive_buffer s (queue_of_word w) @ [get_field 0 49 w])\<rparr>"

text \<open>
  An entry of the trace memory holds two pulses, each with 15 bits of time, 14 of label and the
  highest bit of the FPGA's counter; or, when bit 63 is set, an overflow and at most one pulse.
  \<open>ii\<close> is the round of the loop.
\<close>

definition trace_pulse :: "u64 \<Rightarrow> nat \<Rightarrow> hostal \<Rightarrow> hostal" where
  "trace_pulse raw ii s =
    (let ov_packet = bit raw 63 in
     if ov_packet \<and> (ii = 0 \<or> bit raw 30) then s
     else
       let base = (if ii = 1 \<and> \<not> ov_packet then 32 else 0);
           curr_tstamp = get_field base 15 raw;
           curr_id = ucast (get_field (base + 15) 14 raw) :: u16;
           fpga_msb = bit raw (base + 29);
           tstamp_msb = drop_bit 14 curr_tstamp \<noteq> 0;
           inttime = curr_tstamp + trace_overflow_count s * MAX_TIMESTAMP_CNT;
           early = (\<not> fpga_msb \<and> tstamp_msb);
           curr_inttime = (if early \<and> inttime \<ge> MAX_TIMESTAMP_CNT then inttime - MAX_TIMESTAMP_CNT else inttime);
           ignore_early_pulse = (early \<and> inttime < MAX_TIMESTAMP_CNT);
           s1 = s\<lparr>last_traced_tstamp := curr_tstamp\<rparr>;
           back = last (recpulse_buffer s) in
       if recpulse_buffer s \<noteq> [] \<and> snd back = curr_id \<and>
          (fst back = curr_inttime \<or> fst back + MAX_TIMESTAMP_CNT = curr_inttime) then s1
       else if ignore_early_pulse then s1
       else s1\<lparr>received_pulses_count := received_pulses_count s + 1,
               recpulse_buffer := recpulse_buffer s @ [(curr_inttime, curr_id)]\<rparr>)"

definition trace_entry :: "u64 \<Rightarrow> hostal \<Rightarrow> hostal" where
  "trace_entry raw s = (let s1 = trace_pulse raw 1 (trace_pulse raw 0 s) in
     if bit raw 63 then s1\<lparr>trace_overflow_count := trace_overflow_count s1 + 1\<rparr> else s1)"

definition receive_packet :: "frame \<Rightarrow> hostal \<Rightarrow> hostal" where
  "receive_packet p s =
    (if pdu p = [] then s
     else if pid p = HICANNCONFIG then fold receive_config (pdu p) s
     else if pid p = FPGATRACE then
       fold trace_entry (pdu p) (s\<lparr>rec_trace_entries := rec_trace_entries s + of_nat (length (pdu p))\<rparr>)
     else if pid p = FPGAPLAYBACK then s\<lparr>pb_end_address_received := ucast (hd (pdu p))\<rparr>
     else if pid p = JTAGBULK then s\<lparr>jtag_receive_buffer := jtag_receive_buffer s @ [p]\<rparr>
     else s)"

definition fill_receive_buffer :: "hostal \<Rightarrow> hostal" where
  "fill_receive_buffer s = fold receive_packet (inbox s) (s\<lparr>inbox := []\<rparr>)"

definition getReceivedJTAGData :: "hostal \<Rightarrow> frame option \<times> hostal" where
  "getReceivedJTAGData s = (let s1 = fill_receive_buffer s in
     case jtag_receive_buffer s1 of [] \<Rightarrow> (None, s1) | p # ps \<Rightarrow> (Some p, s1\<lparr>jtag_receive_buffer := ps\<rparr>))"

text \<open>Taking from an empty trace buffer is undefined: the error is only logged.\<close>

definition getTracePulse :: "(hostal, u64 \<times> u16) hal" where
  "getTracePulse = (\<lambda>s. case recpulse_buffer s of [] \<Rightarrow> (Inl Undefined_behaviour, s)
     | p # ps \<Rightarrow> (Inr p, s\<lparr>recpulse_buffer := ps\<rparr>))"

definition getTraceBufferSize :: "(hostal, nat) hal" where
  "getTraceBufferSize = (\<lambda>s. let s1 = fill_receive_buffer s in (Inr (length (recpulse_buffer s1)), s1))"

definition getFPGATracePulses :: "(hostal, (u64 \<times> u16) list) hal" where
  "getFPGATracePulses = hseq (hmodify fill_receive_buffer)
     (hbind getTraceBufferSize (\<lambda>n. hmap [0..<n] (\<lambda>_. getTracePulse)))"

definition getPlaybackEndAddress :: "(hostal, u32) hal" where
  "getPlaybackEndAddress = (\<lambda>s. let s1 = fill_receive_buffer s in (Inr (pb_end_address_received s1), s1))"

subsection \<open>Waiting for an answer\<close>

text \<open>
  Times are in microseconds. A wait lets the environment deliver; the intervals grow, the last one is
  repeated. \<open>waited\<close> is the sum so far and \<open>limit\<close> the timeout. \<open>None\<close> is the timeout, after
  which the function returns 0.
\<close>

definition sleep_intervals :: "nat list" where
  "sleep_intervals = [5, 10, 100, 500, 1000, 5000, 10000, 50000, 100000, 500000]"

definition deliver :: "hostal \<Rightarrow> hostal" where
  "deliver s = (case later s of [] \<Rightarrow> s | ps # pss \<Rightarrow> s\<lparr>inbox := inbox s @ ps, later := pss\<rparr>)"

lemma sleep_pos: "idx < 10 \<Longrightarrow> 5 \<le> sleep_intervals ! idx"
proof -
  have "list_all (\<lambda>t. 5 \<le> t) sleep_intervals" "length sleep_intervals = 10" by (simp_all add: sleep_intervals_def)
  then show "idx < 10 \<Longrightarrow> 5 \<le> sleep_intervals ! idx" by (simp add: list_all_length)
qed

lemma receive_packet_frame:
  "inbox (receive_packet p s) = inbox s" "later (receive_packet p s) = later s"
proof -
  have c: "inbox (fold receive_config ws s) = inbox s" "later (fold receive_config ws s) = later s" for ws s
    by (induction ws arbitrary: s) (simp_all add: receive_config_def)
  have p: "inbox (trace_pulse w i s) = inbox s" "later (trace_pulse w i s) = later s" for w i s
    by (simp_all add: trace_pulse_def Let_def)
  have "inbox (trace_entry w s) = inbox s" "later (trace_entry w s) = later s" for w s
    by (simp_all add: trace_entry_def Let_def p)
  then have t: "inbox (fold trace_entry ws s) = inbox s" "later (fold trace_entry ws s) = later s" for ws s
    by (induction ws arbitrary: s) simp_all
  show "inbox (receive_packet p s) = inbox s" "later (receive_packet p s) = later s"
    by (simp_all add: receive_packet_def c t)
qed

lemma fill_frame [simp]: "inbox (fill_receive_buffer s) = []" "later (fill_receive_buffer s) = later s"
proof -
  have "inbox (fold receive_packet ps s) = inbox s \<and> later (fold receive_packet ps s) = later s" for ps s
    by (induction ps arbitrary: s) (simp_all add: receive_packet_frame)
  then show "inbox (fill_receive_buffer s) = []" "later (fill_receive_buffer s) = later s"
    by (simp_all add: fill_receive_buffer_def)
qed

function wait_config :: "nat \<Rightarrow> nat \<Rightarrow> nat \<Rightarrow> nat \<Rightarrow> hostal \<Rightarrow> u64 option \<times> hostal" where
  "wait_config q limit idx waited s =
    (case hiconf_receive_buffer s q of
       d # ds \<Rightarrow> (Some d, s\<lparr>hiconf_receive_buffer := (hiconf_receive_buffer s)(q := ds)\<rparr>)
     | [] \<Rightarrow>
         (let sleeps = (inbox s = []);
              s1 = (if sleeps then deliver s else s);
              waited1 = (if sleeps then waited + sleep_intervals ! min idx 9 else waited);
              idx1 = (if sleeps then (if min idx 9 + 1 < 10 then min idx 9 + 1 else min idx 9) else min idx 9);
              s2 = fill_receive_buffer s1 in
          case hiconf_receive_buffer s2 q of
            d # ds \<Rightarrow> (Some d, s2\<lparr>hiconf_receive_buffer := (hiconf_receive_buffer s2)(q := ds)\<rparr>)
          | [] \<Rightarrow> if waited1 > limit then (None, s2) else wait_config q limit idx1 waited1 s2))"
  by pat_completeness auto
termination
proof (relation "measure (\<lambda>(q, limit, idx, waited, s). 2 * (limit + 1 - waited) + (if inbox s = [] then 0 else 1))", goal_cases)
  case (2 q limit idx waited s sleeps s1 waited1 idx1 s2)
  show ?case
  proof (cases "inbox s = []")
    case True
    then have "waited1 \<ge> waited + 5" using 2 sleep_pos [of "min idx 9"] by simp
    then show ?thesis using 2 True by simp
  next
    case False
    then show ?thesis using 2 by simp
  qed
qed simp

declare wait_config.simps [simp del]

definition config_queue :: "u32 \<Rightarrow> u32 \<Rightarrow> u32 \<Rightarrow> nat" where
  "config_queue dnc hicann tagid = unat (push_bit 4 (dnc AND 3) OR push_bit 1 (hicann AND 7) OR (tagid AND 1))"

definition getReceivedHICANNConfig :: "u32 \<Rightarrow> u32 \<Rightarrow> u32 \<Rightarrow> nat \<Rightarrow> (hostal, u64) hal" where
  "getReceivedHICANNConfig dnc hicann tagid limit = (\<lambda>s.
     if dnc > 3 \<or> hicann > 7 then (Inr 0, s)
     else case wait_config (config_queue dnc hicann tagid) limit 0 0 s of
       (None, s1) \<Rightarrow> (Inr 0, s1) | (Some d, s1) \<Rightarrow> (Inr d, s1))"

definition getReceivedHICANNConfigCount :: "u32 \<Rightarrow> u32 \<Rightarrow> u32 \<Rightarrow> (hostal, nat) hal" where
  "getReceivedHICANNConfigCount dnc hicann tagid = (\<lambda>s.
     if dnc > 3 \<or> hicann > 7 then (Inl Out_of_range, s)
     else let s1 = fill_receive_buffer s in (Inr (length (hiconf_receive_buffer s1 (config_queue dnc hicann tagid))), s1))"

subsection \<open>FPGA configuration\<close>

text \<open>The response is the next packet to arrive before the timeout of 15 seconds, whatever it is.\<close>

definition next_packet :: "hostal \<Rightarrow> frame option \<times> hostal" where
  "next_packet s = (case inbox s of
     p # ps \<Rightarrow> (Some p, s\<lparr>inbox := ps\<rparr>)
   | [] \<Rightarrow> (case dropWhile (\<lambda>ps. ps = []) (later s) of
       [] \<Rightarrow> (None, s\<lparr>later := []\<rparr>)
     | ps # pss \<Rightarrow> (Some (hd ps), s\<lparr>inbox := tl ps, later := pss\<rparr>)))"

definition sendFPGAConfigPacket :: "u64 \<Rightarrow> (hostal, bool) hal" where
  "sendFPGAConfigPacket payload = hbind (sendSingleFrame FPGACONFIG 8 [payload]) (\<lambda>ok.
     if \<not> ok then hthrow Runtime_error
     else (\<lambda>s. case next_packet s of
         (None, s1) \<Rightarrow> (Inl Runtime_error, s1)
       | (Some p, s1) \<Rightarrow>
           if pid p \<noteq> FPGACONFIG then (Inl Runtime_error, s1)
           else if length (pdu p) > 1 then (Inl Runtime_error, s1)
           else if pdu p = [] then (Inl Undefined_behaviour, s1)
           else if hd (pdu p) \<noteq> payload then (Inl Runtime_error, s1) else (Inr True, s1)))"

text \<open>The two modes every configuration word carries along.\<close>

definition mode_bits :: "hostal \<Rightarrow> u64" where
  "mode_bits s = push_bit 24 (of_bool (pulse_loopback_enable s)) OR push_bit 23 (of_bool (pb_systime_replace_enable s))"

definition setSystime :: "bool \<Rightarrow> bool \<Rightarrow> bool \<Rightarrow> (hostal, bool) hal" where
  "setSystime enable listen_global expstart_mode = (\<lambda>s.
     sendFPGAConfigPacket (push_bit 22 1 OR push_bit 21 (of_bool enable) OR push_bit 20 (of_bool listen_global)
       OR push_bit 19 (of_bool expstart_mode) OR mode_bits s) s)"

definition startPlaybackTrace :: "(hostal, bool) hal" where
  "startPlaybackTrace = hseq (hmodify reset_fpga_times) (\<lambda>s. sendFPGAConfigPacket (push_bit 29 1 OR mode_bits s) s)"

definition stopTrace :: "(hostal, bool) hal" where
  "stopTrace = (\<lambda>s. sendFPGAConfigPacket (push_bit 27 1 OR mode_bits s) s)"

definition startTraceRead :: "(hostal, bool) hal" where
  "startTraceRead = hseq (hmodify reset_trace_buffers) (\<lambda>s. sendFPGAConfigPacket (push_bit 26 1 OR mode_bits s) s)"

definition setFPGAPulseLoopback :: "bool \<Rightarrow> (hostal, bool) hal" where
  "setFPGAPulseLoopback loopback_enable = (\<lambda>s.
     if pulse_loopback_enable s \<noteq> loopback_enable then
       (let s1 = s\<lparr>pulse_loopback_enable := loopback_enable\<rparr> in sendFPGAConfigPacket (mode_bits s1) s1)
     else (Inr True, s))"

definition setPlaybackSystimeReplacing :: "bool \<Rightarrow> (hostal, bool) hal" where
  "setPlaybackSystimeReplacing replace_enable = (\<lambda>s.
     if pb_systime_replace_enable s \<noteq> replace_enable then
       (let s1 = s\<lparr>pb_systime_replace_enable := replace_enable\<rparr> in sendFPGAConfigPacket (mode_bits s1) s1)
     else (Inr True, s))"

definition setHicannARQLoopback :: "bool \<Rightarrow> (hostal, bool) hal" where
  "setHicannARQLoopback loopback_enable = sendSingleFrame FPGADEBUG 8 [of_bool loopback_enable]"

subsection \<open>A bulk of commands\<close>

lemma concat_chunks: "0 < n \<Longrightarrow> concat (chunks n xs) = xs"
proof (induction n xs rule: chunks.induct)
  case (1 n xs)
  then show ?case by (subst chunks.simps) simp
qed

lemma chunks_size: "0 < n \<Longrightarrow> list_all (\<lambda>c. c \<noteq> [] \<and> length c \<le> n) (chunks n xs)"
proof (induction n xs rule: chunks.induct)
  case (1 n xs)
  then show ?case by (subst chunks.simps) simp
qed

text \<open>The frames the transport library takes, of those offered.\<close>

fun taken :: "bool list \<Rightarrow> 'a list \<Rightarrow> 'a list" where
  "taken [] fs = fs"
| "taken (b # bs) [] = []"
| "taken (b # bs) (f # fs) = (if b then f # taken bs fs else taken bs fs)"

lemma taken_Nil [simp]: "taken bs [] = []"
  by (cases bs) simp_all

lemma taken_map: "taken bs (map f xs) = map f (taken bs xs)"
  by (induction bs xs rule: taken.induct) simp_all

lemma taken_le: "length (taken bs fs) \<le> length fs"
  by (induction bs fs rule: taken.induct) auto

lemma taken_all: "length (taken bs fs) = length fs \<Longrightarrow> taken bs fs = fs"
proof (induction bs fs rule: taken.induct)
  case (3 b bs f fs)
  then show ?case using taken_le [of bs fs] by (cases b) auto
qed auto

lemma send_frames_sent:
  assumes "arq_set s" "list_all (\<lambda>f. 0 < fst f \<and> (fst f + 7) div 8 = length (snd f)) fs"
  shows "\<exists>s1. send_frames t fs r s = (Inr (r \<and> length (taken (accepts s) fs) = length fs), s1) \<and>
    s1 = s\<lparr>accepts := drop (length fs) (accepts s), sent := sent s @ map (\<lambda>f. \<lparr>pid = t, pdu = snd f\<rparr>) (taken (accepts s) fs)\<rparr>"
  using assms
proof (induction fs arbitrary: s r)
  case (Cons f fs)
  let ?ok = "case accepts s of [] \<Rightarrow> True | b # _ \<Rightarrow> b"
  let ?s = "s\<lparr>accepts := tl (accepts s), sent := sent s @ (if ?ok then [\<lparr>pid = t, pdu = snd f\<rparr>] else [])\<rparr>"
  have f: "sendSingleFrame t (fst f) (snd f) s = (Inr ?ok, ?s)"
    using Cons.prems by (auto simp: sendSingleFrame_def Let_def)
  have "arq_set ?s" using Cons.prems(1) by simp
  from Cons.IH [OF this, of "r \<and> ?ok"] Cons.prems(2)
  have "send_frames t fs (r \<and> ?ok) ?s = (Inr ((r \<and> ?ok) \<and> length (taken (accepts ?s) fs) = length fs),
      ?s\<lparr>accepts := drop (length fs) (accepts ?s), sent := sent ?s @ map (\<lambda>f. \<lparr>pid = t, pdu = snd f\<rparr>) (taken (accepts ?s) fs)\<rparr>)"
    by auto
  then show ?case
    using taken_le [of "tl (accepts s)" fs] unfolding send_frames.simps hbind_def f prod.case sum.case
    by (cases "accepts s") (auto split: if_splits)
qed simp

lemma bulk_frames:
  assumes "arq_set s"
  shows "sendHICANNConfigBulk n s = (let cs = chunks n (hiconf_bulk_buffer s) in
    (Inr (length (taken (accepts s) cs) = length cs),
     s\<lparr>accepts := drop (length cs) (accepts s), hiconf_bulk_buffer := [],
       sent := sent s @ map (\<lambda>c. \<lparr>pid = HICANNCONFIG, pdu = map config_word c\<rparr>) (taken (accepts s) cs)\<rparr>))"
proof -
  let ?cs = "chunks n (hiconf_bulk_buffer s)"
  let ?fs = "map (\<lambda>cs. (8 * length cs, map config_word cs)) ?cs"
  have "list_all (\<lambda>c. c \<noteq> []) ?cs"
  proof (cases "n = 0")
    case True then show ?thesis by (simp add: chunks.simps)
  next
    case False then show ?thesis using chunks_size [of n "hiconf_bulk_buffer s"] by (simp add: list_all_iff)
  qed
  then have "list_all (\<lambda>f. 0 < fst f \<and> (fst f + 7) div 8 = length (snd f)) ?fs" by (auto simp: list_all_iff)
  from send_frames_sent [OF assms this, of HICANNCONFIG True] show ?thesis
    by (auto simp: sendHICANNConfigBulk_def hbind_def hseq_def Let_def taken_map comp_def)
qed

text \<open>Claim C20: A bulk of HICANN commands goes out in frames of at most \<open>n\<close> commands, in the order
  the commands were added and each with its destination; the result tells whether the transport library
  took all frames; and the bulk is empty afterwards in any case, so that refused commands are lost.\<close>

theorem bulk_sent_in_order:
  assumes "arq_set s" "0 < n" "sendHICANNConfigBulk n s = (r, s1)"
  shows "\<exists>fs offered. sent s1 = sent s @ map (\<lambda>f. \<lparr>pid = HICANNCONFIG, pdu = f\<rparr>) fs \<and> fs = taken (accepts s) offered \<and>
    concat offered = map config_word (hiconf_bulk_buffer s) \<and> list_all (\<lambda>f. f \<noteq> [] \<and> length f \<le> n) offered \<and>
    r = Inr (length fs = length offered) \<and> hiconf_bulk_buffer s1 = []"
proof -
  let ?cs = "chunks n (hiconf_bulk_buffer s)"
  let ?offered = "map (map config_word) ?cs"
  have "concat ?offered = map config_word (hiconf_bulk_buffer s)"
    using concat_chunks [OF assms(2), of "hiconf_bulk_buffer s"] by (simp flip: map_concat)
  moreover have "list_all (\<lambda>f. f \<noteq> [] \<and> length f \<le> n) ?offered"
    using chunks_size [OF assms(2), of "hiconf_bulk_buffer s"] by (simp add: list_all_iff)
  moreover have "sent s1 = sent s @ map (\<lambda>f. \<lparr>pid = HICANNCONFIG, pdu = f\<rparr>) (taken (accepts s) ?offered)"
    "r = Inr (length (taken (accepts s) ?offered) = length ?offered)" "hiconf_bulk_buffer s1 = []"
    using assms(3) unfolding bulk_frames [OF assms(1)] Let_def by (auto simp: taken_map comp_def)
  ultimately show ?thesis by blast
qed

text \<open>A host with two commands waiting.\<close>

definition demo_host :: hostal where
  "demo_host = \<lparr>hiconf_bulk_buffer = [\<lparr>hc_dnc = 1, hc_hicann = 2, hc_data = 5\<rparr>, \<lparr>hc_dnc = 0, hc_hicann = 7, hc_data = 6\<rparr>],
      playback_entry_buffer = [], last_playback_reltime = 0, last_group_start_in_buffer = - 1, jtag_receive_buffer = [],
      hiconf_receive_buffer = \<lambda>_. [], received_pulses_count = 0, recpulse_buffer = [], trace_overflow_count = 0,
      last_traced_tstamp = 0, rec_trace_entries = 0, pb_end_address_received = 0, pulse_loopback_enable = False,
      pb_systime_replace_enable = False, spikes_to_binfile_enable = False, ethernet_init = False, arq_set = True,
      sent = [], accepts = [], inbox = [], later = []\<rparr>"

theorem bulk_sent_in_order_witness:
  "\<exists>fs. sent (snd (sendHICANNConfigBulk 176 demo_host)) = map (\<lambda>f. \<lparr>pid = HICANNCONFIG, pdu = f\<rparr>) fs \<and>
     concat fs = map config_word (hiconf_bulk_buffer demo_host)"
proof -
  have "arq_set demo_host" "0 < (176 :: nat)" by (simp_all add: demo_host_def)
  from bulk_sent_in_order [OF this, of "fst (sendHICANNConfigBulk 176 demo_host)" "snd (sendHICANNConfigBulk 176 demo_host)"]
  show ?thesis by (auto simp: demo_host_def)
qed

subsection \<open>Commands and their answers\<close>

text \<open>The word of a command, read the way an answer is read.\<close>

lemma dest_fields: "get_field 59 3 (hicann_word v dnc hic) = ucast (hic AND 7)"
    "get_field 62 2 (hicann_word v dnc hic) = ucast (dnc AND 3)"
    "get_field 49 1 (hicann_word v dnc hic) = get_field 49 1 v" "get_field 0 49 (hicann_word v dnc hic) = get_field 0 49 v"
proof -
  have m: "(0x3ffffffffffff :: u64) = mask 50" "(7 :: u32) = mask 3" "(3 :: u32) = mask 2" by (simp_all add: mask_eq_exp_minus_1)
  have b: "bit (hicann_word v dnc hic) n \<longleftrightarrow> n < 50 \<and> bit v n \<or> 59 \<le> n \<and> n < 62 \<and> bit hic (n - 59) \<or> 62 \<le> n \<and> n < 64 \<and> bit dnc (n - 62)" for n
    unfolding hicann_word_def hicann_dest_def m bit_or_iff bit_and_iff bit_mask_iff bit_push_bit_iff bit_ucast_iff
    by auto
  show "get_field 59 3 (hicann_word v dnc hic) = ucast (hic AND 7)"
    by (rule bit_eqI) (auto simp: bit_get_field b m bit_ucast_iff bit_and_iff bit_mask_iff)
  show "get_field 62 2 (hicann_word v dnc hic) = ucast (dnc AND 3)"
    by (rule bit_eqI) (auto simp: bit_get_field b m bit_ucast_iff bit_and_iff bit_mask_iff)
  show "get_field 49 1 (hicann_word v dnc hic) = get_field 49 1 v" "get_field 0 49 (hicann_word v dnc hic) = get_field 0 49 v"
    by (rule bit_eqI; auto simp: bit_get_field b)+
qed

lemma unat_widen: "unat (ucast (x :: u32) :: u64) = unat x"
  using unsigned_less [of x, where 'a = nat] by (simp add: unsigned_ucast_eq take_bit_nat_eq_self)

lemma queue_of_command:
  "queue_of_word (hicann_word v dnc hic) = config_queue dnc hic (of_bool (bit v 49))"
proof -
  have tag: "get_field 49 1 v = of_bool (bit v 49)" by (rule bit_eqI) (auto simp: bit_get_field bit_of_bool_iff)
  have "of_bool b OR push_bit 1 (ucast (hic AND 7)) OR push_bit 4 (ucast (dnc AND 3))
      = (ucast (push_bit 4 (dnc AND 3) OR push_bit 1 (hic AND 7) OR (of_bool b AND 1)) :: u64)" for b :: bool
  proof -
    have m: "(7 :: u32) = mask 3" "(3 :: u32) = mask 2" "of_bool b AND (1 :: u32) = of_bool b" by (simp_all add: mask_eq_exp_minus_1)
    show ?thesis
    proof (rule bit_word_eqI)
      fix n
      show "bit (of_bool b OR push_bit 1 (ucast (hic AND 7)) OR push_bit 4 (ucast (dnc AND 3)) :: u64) n
        = bit (ucast (push_bit 4 (dnc AND 3) OR push_bit 1 (hic AND 7) OR (of_bool b AND 1)) :: u64) n"
        unfolding m bit_or_iff bit_push_bit_iff bit_ucast_iff bit_and_iff bit_mask_iff bit_of_bool_iff by auto
    qed
  qed
  then have "queue_of_word (hicann_word v dnc hic)
      = unat (ucast (push_bit 4 (dnc AND 3) OR push_bit 1 (hic AND 7) OR (of_bool (bit v 49) AND 1) :: u32) :: u64)"
    by (simp only: queue_of_word_def dest_fields tag)
  also have "\<dots> = unat (push_bit 4 (dnc AND 3) OR push_bit 1 (hic AND 7) OR (of_bool (bit v 49) AND 1) :: u32)"
    by (rule unat_widen)
  finally show ?thesis by (simp add: config_queue_def)
qed

definition queue_of_config :: "hicann_config_t \<Rightarrow> nat" where
  "queue_of_config c = config_queue (hc_dnc c) (hc_hicann c) (of_bool (bit (hc_data c) 49))"

lemma receive_configs:
  "hiconf_receive_buffer (fold receive_config (map config_word cs) s) q
    = hiconf_receive_buffer s q @ map (\<lambda>c. get_field 0 49 (hc_data c)) (filter (\<lambda>c. queue_of_config c = q) cs)"
proof (induction cs arbitrary: s)
  case (Cons c cs)
  have "queue_of_word (config_word c) = queue_of_config c" "get_field 0 49 (config_word c) = get_field 0 49 (hc_data c)"
    by (simp_all add: config_word_def queue_of_config_def queue_of_command dest_fields)
  then show ?case using Cons by (simp add: receive_config_def)
qed simp

lemma receive_config_frames:
  "list_all (\<lambda>f. f \<noteq> []) fs \<Longrightarrow> fold receive_packet (map (\<lambda>f. \<lparr>pid = HICANNCONFIG, pdu = f\<rparr>) fs) s = fold receive_config (concat fs) s"
  by (induction fs arbitrary: s) (simp_all add: receive_packet_def)

text \<open>Claim C21: When the FPGA loops the frames of a bulk back, every command's 49 bits of data arrive, in
  order, in exactly the queue that is read for the command's DNC, HICANN and tag bit, and in no other.\<close>

theorem config_loopback:
  assumes "arq_set s" "accepts s = []" "0 < n" "sent s = []" "inbox s = []"
  shows "let s1 = snd (sendHICANNConfigBulk n s); s2 = fill_receive_buffer (s1\<lparr>inbox := sent s1\<rparr>) in
    hiconf_receive_buffer s2 (config_queue dnc hic tag) = hiconf_receive_buffer s (config_queue dnc hic tag) @
      map (\<lambda>c. get_field 0 49 (hc_data c)) (filter (\<lambda>c. queue_of_config c = config_queue dnc hic tag) (hiconf_bulk_buffer s))"
proof -
  let ?cs = "chunks n (hiconf_bulk_buffer s)"
  let ?s1 = "snd (sendHICANNConfigBulk n s)"
  have s1: "?s1 = s\<lparr>accepts := [], hiconf_bulk_buffer := [], sent := map (\<lambda>c. \<lparr>pid = HICANNCONFIG, pdu = map config_word c\<rparr>) ?cs\<rparr>"
    unfolding bulk_frames [OF assms(1)] Let_def using assms(2,4) by simp
  have ne: "list_all (\<lambda>f. f \<noteq> []) (map (map config_word) ?cs)"
    using chunks_size [OF assms(3), of "hiconf_bulk_buffer s"] by (simp add: list_all_iff)
  have "fill_receive_buffer (?s1\<lparr>inbox := sent ?s1\<rparr>)
      = fold receive_config (concat (map (map config_word) ?cs)) (?s1\<lparr>inbox := []\<rparr>)"
    using receive_config_frames [OF ne, of "?s1\<lparr>inbox := []\<rparr>"] by (simp add: fill_receive_buffer_def s1 comp_def)
  also have "concat (map (map config_word) ?cs) = map config_word (hiconf_bulk_buffer s)"
    using concat_chunks [OF assms(3), of "hiconf_bulk_buffer s"] by (simp flip: map_concat)
  finally show ?thesis by (simp add: Let_def receive_configs s1)
qed

theorem config_loopback_witness:
  "let s1 = snd (sendHICANNConfigBulk 1 demo_host); s2 = fill_receive_buffer (s1\<lparr>inbox := sent s1\<rparr>) in
     hiconf_receive_buffer s2 (config_queue 1 2 0) = [5] \<and> config_queue 0 7 0 \<noteq> config_queue 1 2 0"
proof -
  have h: "arq_set demo_host" "accepts demo_host = []" "0 < (1 :: nat)" "sent demo_host = []" "inbox demo_host = []"
    by (simp_all add: demo_host_def)
  have q: "queue_of_config \<lparr>hc_dnc = 1, hc_hicann = 2, hc_data = 5\<rparr> = 20" "queue_of_config \<lparr>hc_dnc = 0, hc_hicann = 7, hc_data = 6\<rparr> = 14"
    "config_queue 1 2 0 = 20" "config_queue 0 7 0 = 14" "get_field 0 49 5 = 5"
    by code_simp+
  show ?thesis using config_loopback [OF h, of 1 2 0] unfolding q Let_def by (simp add: demo_host_def q)
qed

subsection \<open>Waiting\<close>

text \<open>The time \<open>k\<close> waits take, from the interval \<open>idx\<close> on.\<close>

fun waits :: "nat \<Rightarrow> nat \<Rightarrow> nat" where
  "waits idx 0 = 0"
| "waits idx (Suc k) = sleep_intervals ! idx + waits (min (idx + 1) 9) k"

lemma fill_empty: "inbox s = [] \<Longrightarrow> fill_receive_buffer s = s"
  by (simp add: fill_receive_buffer_def)

lemma receive_configs_word:
  "hiconf_receive_buffer (fold receive_config ws s) q
    = hiconf_receive_buffer s q @ map (get_field 0 49) (filter (\<lambda>w. queue_of_word w = q) ws)"
  by (induction ws arbitrary: s) (simp_all add: receive_config_def)

lemma wait_config_late:
  assumes "idx < 10" "hiconf_receive_buffer s q = []" "inbox s = []" "waited \<le> limit"
    "later s = replicate k [] @ [\<lparr>pid = HICANNCONFIG, pdu = ws\<rparr>] # rest"
    "filter (\<lambda>w. queue_of_word w = q) ws = a # as"
  shows "fst (wait_config q limit idx waited s) = (if waited + waits idx k \<le> limit then Some (get_field 0 49 a) else None)"
  using assms
proof (induction k arbitrary: idx waited s)
  case 0
  have "ws \<noteq> []" using "0.prems"(6) by auto
  moreover have "deliver s = s\<lparr>inbox := [\<lparr>pid = HICANNCONFIG, pdu = ws\<rparr>], later := rest\<rparr>"
    using "0.prems" by (simp add: deliver_def)
  ultimately have "hiconf_receive_buffer (fill_receive_buffer (deliver s)) q = get_field 0 49 a # map (get_field 0 49) as"
    using "0.prems" by (simp add: fill_receive_buffer_def receive_packet_def receive_configs_word)
  then show ?case using "0.prems" by (subst wait_config.simps) (simp add: Let_def)
next
  case (Suc k)
  let ?s = "s\<lparr>later := replicate k [] @ [\<lparr>pid = HICANNCONFIG, pdu = ws\<rparr>] # rest\<rparr>"
  have d: "fill_receive_buffer (deliver s) = ?s"
    using Suc.prems(3,5) by (simp add: deliver_def fill_empty)
  have i: "min idx 9 = idx" "(if idx + 1 < 10 then idx + 1 else idx) = min (idx + 1) 9" using Suc.prems(1) by auto
  have "wait_config q limit idx waited s = (if waited + sleep_intervals ! idx > limit then (None, ?s)
      else wait_config q limit (min (idx + 1) 9) (waited + sleep_intervals ! idx) ?s)"
    using Suc.prems(1,2,3) by (cases "idx = 9"; subst wait_config.simps) (simp_all add: Let_def d i)
  moreover have "waited + sleep_intervals ! idx \<le> limit \<Longrightarrow>
      fst (wait_config q limit (min (idx + 1) 9) (waited + sleep_intervals ! idx) ?s)
       = (if waited + sleep_intervals ! idx + waits (min (idx + 1) 9) k \<le> limit then Some (get_field 0 49 a) else None)"
    using Suc.prems(2,3,6) by (intro Suc.IH) auto
  ultimately show ?case by simp
qed

text \<open>Claim C22: Waiting for the answer of a HICANN ends, and it ends with the answer exactly when this arrives
  in time: if the frame with the answer is delivered after \<open>k\<close> waits without any, the oldest answer of that
  DNC, HICANN and tag is returned when those waits fit the timeout, and otherwise 0.\<close>

theorem answer_in_time:
  assumes "dnc \<le> 3" "hicann \<le> 7" "hiconf_receive_buffer s (config_queue dnc hicann tag) = []" "inbox s = []"
    "later s = replicate k [] @ [\<lparr>pid = HICANNCONFIG, pdu = ws\<rparr>] # rest"
    "filter (\<lambda>w. queue_of_word w = config_queue dnc hicann tag) ws = a # as"
  shows "fst (getReceivedHICANNConfig dnc hicann tag limit s) = Inr (if waits 0 k \<le> limit then get_field 0 49 a else 0)"
  using wait_config_late [of 0 s "config_queue dnc hicann tag" 0 limit k ws rest a as] assms
  by (auto simp: getReceivedHICANNConfig_def split: prod.splits option.splits if_splits)

theorem answer_in_time_witness:
  "fst (getReceivedHICANNConfig 1 2 0 100000 (demo_host\<lparr>later := [[], [], [\<lparr>pid = HICANNCONFIG, pdu = [hicann_word 5 1 2]\<rparr>]]\<rparr>)) = Inr 5
   \<and> fst (getReceivedHICANNConfig 1 2 0 14 (demo_host\<lparr>later := [[], [], [\<lparr>pid = HICANNCONFIG, pdu = [hicann_word 5 1 2]\<rparr>]]\<rparr>)) = Inr 0"
proof -
  let ?s = "demo_host\<lparr>later := [[], [], [\<lparr>pid = HICANNCONFIG, pdu = [hicann_word 5 1 2]\<rparr>]]\<rparr>"
  have q: "queue_of_word (hicann_word 5 1 2) = config_queue 1 2 0" "get_field 0 49 (hicann_word 5 1 2) = 5"
    by code_simp+
  have w: "waits 0 2 = 15" by (simp add: numeral_2_eq_2 sleep_intervals_def)
  have "fst (getReceivedHICANNConfig 1 2 0 l ?s) = Inr (if waits 0 2 \<le> l then get_field 0 49 (hicann_word 5 1 2) else 0)" for l
  proof (rule answer_in_time [where ws = "[hicann_word 5 1 2]" and rest = "[]" and as = "[]"])
    show "(1 :: u32) \<le> 3" "(2 :: u32) \<le> 7" by simp_all
    show "hiconf_receive_buffer ?s (config_queue 1 2 0) = []" "inbox ?s = []" by (simp_all add: demo_host_def)
    show "later ?s = replicate 2 [] @ [\<lparr>pid = HICANNCONFIG, pdu = [hicann_word 5 1 2]\<rparr>] # []" by (simp add: numeral_2_eq_2)
    show "filter (\<lambda>w. queue_of_word w = config_queue 1 2 0) [hicann_word 5 1 2] = hicann_word 5 1 2 # []" by (simp only: q filter.simps refl if_True)
  qed
  then show ?thesis by (simp add: q w)
qed

subsection \<open>Traced pulses\<close>

text \<open>
  What the trace memory says: the pulses of an entry that follows \<open>ov\<close> overflows, with their full time. A
  pulse whose highest time bit is set while the counter's was not belongs to the overflow before; without one it
  came before the start and is dropped.
\<close>

definition stamp :: "nat \<Rightarrow> u64 \<Rightarrow> nat \<Rightarrow> (nat \<times> u16) list" where
  "stamp ov raw base = (let t = unat (get_field base 15 raw); i = ucast (get_field (base + 15) 14 raw) in
     if \<not> bit raw (base + 29) \<and> 2 ^ 14 \<le> t then (if ov = 0 then [] else [((ov - 1) * 2 ^ 15 + t, i)])
     else [(ov * 2 ^ 15 + t, i)])"

definition stamps :: "nat \<Rightarrow> u64 \<Rightarrow> (nat \<times> u16) list" where
  "stamps ov raw = (if bit raw 63 then (if bit raw 30 then [] else stamp ov raw 0) else stamp ov raw 0 @ stamp ov raw 32)"

fun trace_reference :: "nat \<Rightarrow> u64 list \<Rightarrow> (nat \<times> u16) list" where
  "trace_reference ov [] = []"
| "trace_reference ov (w # ws) = stamps ov w @ trace_reference (if bit w 63 then ov + 1 else ov) ws"

text \<open>A pulse equal to the one before, or exactly one overflow later, is a known error of the FPGA and dropped.\<close>

definition record_pulse :: "nat \<times> u16 \<Rightarrow> (nat \<times> u16) list \<Rightarrow> (nat \<times> u16) list" where
  "record_pulse p rs = (if rs \<noteq> [] \<and> snd (last rs) = snd p \<and> (fst (last rs) = fst p \<or> fst (last rs) + 2 ^ 15 = fst p)
     then rs else rs @ [p])"

definition recorded :: "hostal \<Rightarrow> (nat \<times> u16) list" where
  "recorded s = map (\<lambda>p. (unat (fst p), snd p)) (recpulse_buffer s)"

text \<open>The relation the decoding keeps: the overflows counted so far, and no time beyond them.\<close>

definition trace_inv :: "nat \<Rightarrow> hostal \<Rightarrow> bool" where
  "trace_inv ov s \<longleftrightarrow> trace_overflow_count s = of_nat ov \<and> received_pulses_count s = of_nat (length (recpulse_buffer s)) \<and>
     (\<forall>p \<in> set (recpulse_buffer s). unat (fst p) < (ov + 1) * 2 ^ 15)"

lemma get_field_less: "unat (get_field p k (w :: u64)) < 2 ^ k"
proof -
  have "get_field p k w = take_bit k (get_field p k w)" by (rule bit_eqI) (auto simp: bit_take_bit_iff bit_get_field)
  then show ?thesis by (metis unsigned_take_bit_eq take_bit_nat_less_exp)
qed

lemma time_unat:
  assumes "ov < 2 ^ 48"
  shows "unat (get_field b 15 w + of_nat ov * (MAX_TIMESTAMP_CNT :: u64)) = ov * 2 ^ 15 + unat (get_field b 15 w)"
proof -
  have l: "unat (get_field b 15 w) < 2 ^ 15" by (rule get_field_less)
  have "get_field b 15 w + of_nat ov * MAX_TIMESTAMP_CNT = of_nat (ov * 2 ^ 15 + unat (get_field b 15 w))"
    by (simp add: MAX_TIMESTAMP_CNT_def)
  then show ?thesis using l assms by (simp only: unat_of_nat) simp
qed

lemma tstamp_msb: "drop_bit 14 t \<noteq> 0 \<longleftrightarrow> 2 ^ 14 \<le> unat (t :: u64)"
proof -
  have "unat (drop_bit 14 t) = unat t div 2 ^ 14" by (simp only: unat_drop_bit_eq) (rule drop_bit_eq_div)
  then have "drop_bit 14 t = 0 \<longleftrightarrow> unat t div 2 ^ 14 = 0" by (metis unat_eq_zero)
  then show ?thesis by (simp only: div_eq_0_iff) auto
qed

text \<open>The pulse of a round of the loop.\<close>

definition round_stamp :: "nat \<Rightarrow> u64 \<Rightarrow> nat \<Rightarrow> (nat \<times> u16) list" where
  "round_stamp ov raw ii = (if bit raw 63 \<and> (ii = 0 \<or> bit raw 30) then []
     else stamp ov raw (if ii = 1 \<and> \<not> bit raw 63 then 32 else 0))"

definition repeated :: "u64 \<Rightarrow> u16 \<Rightarrow> (u64 \<times> u16) list \<Rightarrow> bool" where
  "repeated t i rs \<longleftrightarrow> rs \<noteq> [] \<and> snd (last rs) = i \<and> (fst (last rs) = t \<or> fst (last rs) + MAX_TIMESTAMP_CNT = t)"

text \<open>One pulse with its time as the code computes it.\<close>

lemma record_one:
  assumes "trace_inv ov s" "ov < 2 ^ 48" "unat t < (ov + 1) * 2 ^ 15"
  shows "repeated t i (recpulse_buffer s) \<Longrightarrow> record_pulse (unat t, i) (recorded s) = recorded s"
    "\<not> repeated t i (recpulse_buffer s) \<Longrightarrow>
      trace_inv ov (s\<lparr>received_pulses_count := received_pulses_count s + 1, recpulse_buffer := recpulse_buffer s @ [(t, i)]\<rparr>) \<and>
      record_pulse (unat t, i) (recorded s) =
        recorded (s\<lparr>received_pulses_count := received_pulses_count s + 1, recpulse_buffer := recpulse_buffer s @ [(t, i)]\<rparr>)"
proof -
  let ?b = "last (recpulse_buffer s)"
  have eq: "(fst ?b = t \<or> fst ?b + MAX_TIMESTAMP_CNT = t) \<longleftrightarrow> (unat (fst ?b) = unat t \<or> unat (fst ?b) + 2 ^ 15 = unat t)"
    if ne: "recpulse_buffer s \<noteq> []"
  proof -
    have "?b \<in> set (recpulse_buffer s)" using ne by simp
    then have "unat (fst ?b) < (ov + 1) * 2 ^ 15" using assms(1) by (simp add: trace_inv_def)
    then have "unat (fst ?b) + 2 ^ 15 < 2 ^ 64" using assms(2) by simp
    then have "unat (fst ?b + MAX_TIMESTAMP_CNT) = unat (fst ?b) + 2 ^ 15"
      by (simp add: MAX_TIMESTAMP_CNT_def unat_word_ariths(1))
    then show ?thesis by (simp add: word_unat_eq_iff)
  qed
  have rp: "record_pulse (unat t, i) (recorded s) = (if repeated t i (recpulse_buffer s) then recorded s else recorded s @ [(unat t, i)])"
  proof (cases "recpulse_buffer s = []")
    case False
    then show ?thesis using eq [OF False] by (auto simp: recorded_def record_pulse_def repeated_def last_map)
  qed (simp add: recorded_def record_pulse_def repeated_def)
  show "repeated t i (recpulse_buffer s) \<Longrightarrow> record_pulse (unat t, i) (recorded s) = recorded s" by (simp add: rp)
  show "\<not> repeated t i (recpulse_buffer s) \<Longrightarrow>
      trace_inv ov (s\<lparr>received_pulses_count := received_pulses_count s + 1, recpulse_buffer := recpulse_buffer s @ [(t, i)]\<rparr>) \<and>
      record_pulse (unat t, i) (recorded s) =
        recorded (s\<lparr>received_pulses_count := received_pulses_count s + 1, recpulse_buffer := recpulse_buffer s @ [(t, i)]\<rparr>)"
    unfolding rp using assms by (intro conjI) (simp_all add: trace_inv_def recorded_def)
qed

lemma trace_pulse_recorded:
  assumes "trace_inv ov s" "ov < 2 ^ 48"
  shows "trace_inv ov (trace_pulse raw ii s) \<and>
    recorded (trace_pulse raw ii s) = fold record_pulse (round_stamp ov raw ii) (recorded s)"
proof (cases "bit raw 63 \<and> (ii = 0 \<or> bit raw 30)")
  case True
  then show ?thesis using assms by (simp add: trace_pulse_def Let_def round_stamp_def)
next
  case False
  define base :: nat where "base = (if ii = 1 \<and> \<not> bit raw 63 then 32 else 0)"
  define t where "t = get_field base 15 raw"
  define i :: u16 where "i = ucast (get_field (base + 15) 14 raw)"
  define early where "early \<longleftrightarrow> \<not> bit raw (base + 29) \<and> drop_bit 14 t \<noteq> 0"
  let ?tt = "t + of_nat ov * MAX_TIMESTAMP_CNT"
  define u where "u = (if early \<and> ?tt \<ge> MAX_TIMESTAMP_CNT then ?tt - MAX_TIMESTAMP_CNT else ?tt)"
  let ?s = "s\<lparr>last_traced_tstamp := t\<rparr>"
  have tt: "unat ?tt = ov * 2 ^ 15 + unat t" and tl: "unat t < 2 ^ 15"
    using time_unat [OF assms(2)] get_field_less [of base 15 raw] by (simp_all add: t_def)
  have ge: "?tt \<ge> MAX_TIMESTAMP_CNT \<longleftrightarrow> 0 < ov"
    using tt tl by (cases ov) (simp_all add: word_le_nat_alt MAX_TIMESTAMP_CNT_def)
  have sub: "unat (?tt - MAX_TIMESTAMP_CNT) = ov * 2 ^ 15 + unat t - 2 ^ 15" if "?tt \<ge> MAX_TIMESTAMP_CNT"
    using unat_sub [OF that] tt by (simp add: MAX_TIMESTAMP_CNT_def)
  have tu: "unat u = (if early \<and> 0 < ov then (ov - 1) * 2 ^ 15 else ov * 2 ^ 15) + unat t"
    using tt ge sub by (cases ov) (simp_all add: u_def)
  have inv: "trace_inv ov ?s" and rec: "recorded ?s = recorded s" using assms(1) by (simp_all add: trace_inv_def recorded_def)
  have lt: "unat u < (ov + 1) * 2 ^ 15" using tu tl by (cases ov) auto
  have st: "round_stamp ov raw ii = (if early \<and> ov = 0 then [] else [(unat u, i)])"
    using False tu by (auto simp: round_stamp_def stamp_def Let_def early_def tstamp_msb base_def t_def i_def)
  have oc: "trace_overflow_count s = of_nat ov" using assms(1) by (simp add: trace_inv_def)
  have ig: "(early \<and> ?tt < MAX_TIMESTAMP_CNT) = (early \<and> ov = 0)" using ge not_le [of MAX_TIMESTAMP_CNT ?tt] by auto
  have tp: "trace_pulse raw ii s = (if repeated u i (recpulse_buffer s) then ?s
      else if early \<and> ov = 0 then ?s
      else ?s\<lparr>received_pulses_count := received_pulses_count s + 1, recpulse_buffer := recpulse_buffer s @ [(u, i)]\<rparr>)"
    unfolding trace_pulse_def Let_def if_not_P [OF False] base_def [symmetric] t_def [symmetric] i_def [symmetric]
      early_def [symmetric] oc u_def [symmetric] ig repeated_def by (rule refl)
  show ?thesis
  proof (cases "early \<and> ov = 0")
    case True
    then have "round_stamp ov raw ii = []" using st by simp
    then show ?thesis using inv rec True by (simp add: tp)
  next
    case False
    then have "round_stamp ov raw ii = [(unat u, i)]" using st by simp
    then show ?thesis using record_one [OF inv assms(2) lt, of i] inv rec
      unfolding tp if_not_P [OF False] by (cases "repeated u i (recpulse_buffer s)") simp_all
  qed
qed

lemma trace_entry_recorded:
  assumes "trace_inv ov s" "ov < 2 ^ 48"
  shows "trace_inv (if bit raw 63 then ov + 1 else ov) (trace_entry raw s) \<and>
    recorded (trace_entry raw s) = fold record_pulse (stamps ov raw) (recorded s)"
proof -
  let ?s1 = "trace_pulse raw 1 (trace_pulse raw 0 s)"
  have st: "stamps ov raw = round_stamp ov raw 0 @ round_stamp ov raw 1" by (simp add: stamps_def round_stamp_def)
  have 1: "trace_inv ov ?s1" "recorded ?s1 = fold record_pulse (stamps ov raw) (recorded s)"
    using trace_pulse_recorded [OF assms, of raw 0] trace_pulse_recorded [OF _ assms(2), of "trace_pulse raw 0 s" raw 1]
    by (simp_all add: st)
  have "trace_inv (ov + 1) (?s1\<lparr>trace_overflow_count := trace_overflow_count ?s1 + 1\<rparr>)"
    using 1(1) by (fastforce simp: trace_inv_def)
  then show ?thesis using 1 by (simp add: trace_entry_def Let_def recorded_def)
qed

lemma trace_entries_recorded:
  "trace_inv ov s \<Longrightarrow> ov + length ws \<le> 2 ^ 48 \<Longrightarrow>
    recorded (fold trace_entry ws s) = fold record_pulse (trace_reference ov ws) (recorded s) \<and>
    (\<exists>ov1. trace_inv ov1 (fold trace_entry ws s))"
proof (induction ws arbitrary: ov s)
  case (Cons w ws)
  have "ov < 2 ^ 48" "(if bit w 63 then ov + 1 else ov) + length ws \<le> 2 ^ 48" using Cons.prems(2) by simp_all
  then show ?case
    using trace_entry_recorded [OF Cons.prems(1), of w] Cons.IH [of "if bit w 63 then ov + 1 else ov" "trace_entry w s"]
    by (simp add: fold_append)
qed auto

lemma stamps_count: "length (trace_reference ov ws) \<le> 2 * length ws"
proof (induction ws arbitrary: ov)
  case (Cons w ws)
  have "length (stamps ov w) \<le> 2" by (simp add: stamps_def stamp_def Let_def)
  then show ?case using Cons [of "if bit w 63 then ov + 1 else ov"] by simp
qed simp

lemma record_count: "length (fold record_pulse ps rs) \<le> length ps + length rs"
proof (induction ps arbitrary: rs)
  case (Cons p ps)
  have "length (record_pulse p rs) \<le> length rs + 1" by (simp add: record_pulse_def)
  then show ?case using Cons [of "record_pulse p rs"] by simp
qed simp

text \<open>Claim C23: A frame of trace data received after the trace buffers were reset leaves exactly the pulses the
  entries denote, in order and with their full time, each with the number of overflows that came before it (one
  less for a pulse that was registered before the overflow); repetitions are dropped, and the counter
  of pulses agrees with the list. No machine integer wraps.\<close>

theorem trace_decoded:
  assumes "length ws \<le> 2 ^ 48" "ws \<noteq> []"
  shows "let s1 = receive_packet \<lparr>pid = FPGATRACE, pdu = ws\<rparr> (reset_trace_buffers s) in
    recorded s1 = fold record_pulse (trace_reference 0 ws) [] \<and> unat (received_pulses_count s1) = length (recorded s1)"
proof -
  let ?r = "reset_trace_buffers s\<lparr>rec_trace_entries := rec_trace_entries (reset_trace_buffers s) + of_nat (length ws)\<rparr>"
  have "trace_inv 0 ?r" "recorded ?r = []" by (simp_all add: trace_inv_def recorded_def reset_trace_buffers_def)
  moreover have r: "receive_packet \<lparr>pid = FPGATRACE, pdu = ws\<rparr> (reset_trace_buffers s) = fold trace_entry ws ?r"
    using assms(2) by (simp add: receive_packet_def FPGATRACE_def HICANNCONFIG_def)
  ultimately have f: "recorded (fold trace_entry ws ?r) = fold record_pulse (trace_reference 0 ws) []"
      and "\<exists>ov. trace_inv ov (fold trace_entry ws ?r)"
    using trace_entries_recorded [of 0 ?r ws] assms(1) by simp_all
  from this(2) have c: "received_pulses_count (fold trace_entry ws ?r) = of_nat (length (recorded (fold trace_entry ws ?r)))"
    by (auto simp: trace_inv_def recorded_def)
  have "length (recorded (fold trace_entry ws ?r)) \<le> 2 ^ 49"
    using record_count [of "trace_reference 0 ws" "[]"] stamps_count [of 0 ws] assms(1) unfolding f by simp
  then show ?thesis unfolding r Let_def c using f by (simp add: unat_of_nat)
qed

theorem trace_decoded_witness:
  "let s1 = receive_packet \<lparr>pid = FPGATRACE, pdu = [0x8000000000000007, 0x0000400500000003]\<rparr> (reset_trace_buffers demo_host) in
    recorded s1 = [(7, 0), (0x8003, 0), (0x4005, 0)] \<and> unat (received_pulses_count s1) = 3"
proof -
  let ?ws = "[0x8000000000000007, 0x0000400500000003] :: u64 list"
  have r: "fold record_pulse (trace_reference 0 ?ws) [] = [(7, 0), (0x8003, 0), (0x4005, 0)]"
    by (simp add: stamps_def stamp_def get_field_def record_pulse_def)
  show ?thesis using trace_decoded [of ?ws demo_host] unfolding r by (simp add: Let_def)
qed

text \<open>A command to the FPGA is reported as accepted exactly when the transport takes its frame and the
  next packet to arrive is its echo, a frame of the same type with that one word; in every other case it
  ends in an error, never in \<open>False\<close>.\<close>

theorem fpga_config_echo:
  "\<exists>r s1. sendFPGAConfigPacket w s = (r, s1) \<and> r \<noteq> Inr False \<and>
    (r = Inr True \<longleftrightarrow> arq_set s \<and> (accepts s = [] \<or> hd (accepts s)) \<and>
      fst (next_packet s) = Some \<lparr>pid = FPGACONFIG, pdu = [w]\<rparr>)"
proof -
  let ?ok = "arq_set s \<and> (accepts s = [] \<or> hd (accepts s))"
  have n: "fst (next_packet (s\<lparr>accepts := a, sent := b\<rparr>)) = fst (next_packet s)" for a b
    by (cases "inbox s"; cases "dropWhile (\<lambda>ps. ps = []) (later s)") (auto simp: next_packet_def simp del: dropWhile_eq_Nil_conv)
  show ?thesis
  proof (cases ?ok)
    case False
    then have "fst (sendSingleFrame FPGACONFIG 8 [w] s) = Inr False"
      by (cases "accepts s") (auto simp: sendSingleFrame_def Let_def)
    then obtain s1 where "sendSingleFrame FPGACONFIG 8 [w] s = (Inr False, s1)" by (cases "sendSingleFrame FPGACONFIG 8 [w] s") auto
    then have "sendFPGAConfigPacket w s = (Inl Runtime_error, s1)" by (simp add: sendFPGAConfigPacket_def hbind_def hthrow_def)
    then show ?thesis using False by auto
  next
    case True
    let ?t = "s\<lparr>accepts := tl (accepts s), sent := sent s @ [\<lparr>pid = FPGACONFIG, pdu = [w]\<rparr>]\<rparr>"
    have f: "sendSingleFrame FPGACONFIG 8 [w] s = (Inr True, ?t)"
      using True by (auto simp: sendSingleFrame_def Let_def split: list.splits)
    obtain o1 s2 where np: "next_packet ?t = (o1, s2)" by (cases "next_packet ?t")
    then have o1: "fst (next_packet s) = o1" using n [where a = "tl (accepts s)" and b = "sent s @ [\<lparr>pid = FPGACONFIG, pdu = [w]\<rparr>]"] by simp
    have "sendFPGAConfigPacket w s = (case o1 of None \<Rightarrow> (Inl Runtime_error, s2)
       | Some p \<Rightarrow> if pid p \<noteq> FPGACONFIG then (Inl Runtime_error, s2)
           else if length (pdu p) > 1 then (Inl Runtime_error, s2)
           else if pdu p = [] then (Inl Undefined_behaviour, s2)
           else if hd (pdu p) \<noteq> w then (Inl Runtime_error, s2) else (Inr True, s2))"
      by (simp add: sendFPGAConfigPacket_def hbind_def f np)
    moreover have "p = \<lparr>pid = FPGACONFIG, pdu = [w]\<rparr> \<longleftrightarrow> pid p = FPGACONFIG \<and> \<not> length (pdu p) > 1 \<and> pdu p \<noteq> [] \<and> hd (pdu p) = w" for p
      by (cases p; cases "pdu p") auto
    ultimately show ?thesis unfolding o1 using True by (cases o1) auto
  qed
qed

end
