(* ===== verification/Playback.thy ===== *)
theory Playback
  imports Hostal
begin

text \<open>
  The playback program the host writes for an FPGA (\<open>host_al_controller.cpp\<close>): pulses are
  collected in groups of up to 184 that are released one per clock, a word that lets the FPGA's counter
  overflow precedes a distant group, and configuration commands of a HICANN or of the FPGA
  itself are put between them. The buffer goes out in frames of the transport library. The results:
  the buffer denotes the pulses that were added, in order, in valid groups (a refinement of a program of
  entries); groups keep the distance the FPGA needs; a configuration followed closely by a pulse is damaged.
\<close>

subsection \<open>Adding entries\<close>

definition min_reltime_distance_clks :: u64 where "min_reltime_distance_clks = 6"
definition max_pulses_per_group :: u32 where "max_pulses_per_group = 184"

definition push_words :: "u32 list \<Rightarrow> hostal \<Rightarrow> hostal" where
  "push_words ws s = s\<lparr>playback_entry_buffer := playback_entry_buffer s @ ws\<rparr>"

definition pulse_word :: "u16 \<Rightarrow> u64 \<Rightarrow> u32" where
  "pulse_word ident hicann_time = push_bit 18 (ucast ident AND 0x3fff) OR ucast (push_bit 1 (hicann_time AND 0x7fff))"

text \<open>Times count clocks of the FPGA. A word that waits for overflows of its 14 bit counter.\<close>

definition wait_intervals :: "u64 \<Rightarrow> u64 \<Rightarrow> u64" where
  "wait_intervals last_time fpga_time =
    (let d = drop_bit 14 fpga_time - drop_bit 14 last_time;
         d1 = (if last_time AND 0x3fff > 0x3ffb then d - 1 else d) in
     if d1 > 0x3fff then 0x3fff else d1)"

definition add_overflow_wait :: "u64 \<Rightarrow> hostal \<Rightarrow> hostal" where
  "add_overflow_wait fpga_time s =
    (if fpga_time - last_playback_reltime s > 0x2000 \<and> drop_bit 14 (last_playback_reltime s) < drop_bit 14 fpga_time
     then push_words [1 OR ucast (push_bit 2 (wait_intervals (last_playback_reltime s) fpga_time AND 0x3fff)), 0] s
     else s)"

text \<open>The vector is indexed without a check, and \<open>back\<close> needs an element.\<close>

definition addPlaybackPulse :: "u64 \<Rightarrow> u64 \<Rightarrow> u16 \<Rightarrow> (hostal, unit) hal" where
  "addPlaybackPulse fpga_time hicann_time ident = (\<lambda>s.
    let buf = playback_entry_buffer s;
        start = nat (last_group_start_in_buffer s);
        near = (fpga_time < last_playback_reltime s + min_reltime_distance_clks \<and> last_playback_reltime s > 0 \<and>
          last_group_start_in_buffer s \<ge> 0) in
    if near \<and> start \<ge> length buf then (Inl Undefined_behaviour, s)
    else if near \<and> drop_bit 18 (buf ! start) < max_pulses_per_group then
      (let pulses_in_group = drop_bit 18 (buf ! start);
           buf1 = (if pulses_in_group AND 1 \<noteq> 0 then buf @ [pulse_word ident hicann_time, 0]
                   else buf[length buf - 1 := pulse_word ident hicann_time]);
           buf2 = buf1[start := (buf1 ! start AND 0x3ffff) OR push_bit 18 (pulses_in_group + 1)] in
       (Inr (), s\<lparr>playback_entry_buffer := buf2, last_playback_reltime := last_playback_reltime s + 1\<rparr>))
    else
      (let s1 = add_overflow_wait fpga_time s;
           curr_fpga_time = (if fpga_time < last_playback_reltime s + min_reltime_distance_clks
             then last_playback_reltime s + min_reltime_distance_clks else fpga_time);
           s2 = push_words [ucast (push_bit 18 1 OR push_bit 1 (curr_fpga_time AND 0x3fff)), pulse_word ident hicann_time] s1 in
       (Inr (), s2\<lparr>last_group_start_in_buffer := int (length (playback_entry_buffer s2)) - 2,
                   last_playback_reltime := curr_fpga_time\<rparr>)))"

definition config_header :: "u64 \<Rightarrow> u32" where
  "config_header fpga_time = ucast (push_bit 18 1 OR push_bit 16 1 OR push_bit 1 (fpga_time AND 0x3fff))"

definition addPlaybackConfig :: "u64 \<Rightarrow> u64 \<Rightarrow> u16 \<Rightarrow> hostal \<Rightarrow> hostal" where
  "addPlaybackConfig fpga_time payload hicann_id = push_words [config_header fpga_time, 0, ucast (payload AND 0xffffffff),
     ucast (drop_bit 32 payload AND 0x1ffff) OR push_bit 17 (ucast hicann_id AND 0x1f)]"

definition fpga_config_low :: "bool \<Rightarrow> bool \<Rightarrow> bool \<Rightarrow> u32" where
  "fpga_config_low stop_trace start_trace_read block_trace_recording =
     (let c0 = (if stop_trace then 1 else 0); c1 = (if start_trace_read then c0 OR push_bit 1 1 else c0) in
      if block_trace_recording then c1 OR push_bit 2 1 else c1)"

definition fpga_config_high :: "bool \<Rightarrow> u32" where
  "fpga_config_high pb_end_marker = (if pb_end_marker then push_bit 31 1 OR push_bit 30 1 else push_bit 31 1)"

definition addPlaybackFPGAConfig :: "u64 \<Rightarrow> bool \<Rightarrow> bool \<Rightarrow> bool \<Rightarrow> bool \<Rightarrow> (hostal, bool) hal" where
  "addPlaybackFPGAConfig fpga_time pb_end_marker stop_trace start_trace_read block_trace_recording = (\<lambda>s.
     let s1 = push_words [config_header fpga_time, 0, fpga_config_low stop_trace start_trace_read block_trace_recording,
                fpga_config_high pb_end_marker] (add_overflow_wait fpga_time s) in
     (Inr True, s1\<lparr>last_playback_reltime := fpga_time\<rparr>))"

subsection \<open>Sending the program\<close>

text \<open>Two 32 bit words make one word of a frame, the lower one first. The copy of an odd number of words reads
  beyond the buffer.\<close>

fun words64 :: "u32 list \<Rightarrow> u64 list" where
  "words64 (lo # hi # ws) = (ucast lo OR push_bit 32 (ucast hi)) # words64 ws"
| "words64 ws = []"

text \<open>\<open>file_ok\<close> is the environment's answer to opening the file of the binary copy; a null pointer is closed.\<close>

definition sendFPGAPlayback :: "nat \<Rightarrow> bool \<Rightarrow> u32 list \<Rightarrow> (hostal, bool) hal" where
  "sendFPGAPlayback max_pduwords file_ok payload = (\<lambda>s.
     if spikes_to_binfile_enable s \<and> \<not> file_ok then (Inl Undefined_behaviour, s)
     else if odd (length payload) then (Inl Undefined_behaviour, s)
     else send_frames FPGAPLAYBACK (map (\<lambda>ws. (4 * length ws, words64 ws)) (chunks (2 * max_pduwords) payload)) True s)"

definition flushPlaybackPulses :: "nat \<Rightarrow> bool \<Rightarrow> (hostal, bool) hal" where
  "flushPlaybackPulses max_pduwords file_ok = (\<lambda>s.
     hbind (sendFPGAPlayback max_pduwords file_ok (playback_entry_buffer s))
       (\<lambda>retval. hseq (hmodify reset_playback_buffers) (hret retval)) s)"

text \<open>The time is given in clocks: the conversion from seconds rounds a floating point number.\<close>

definition sendPlaybackConfig :: "nat \<Rightarrow> bool \<Rightarrow> u32 \<Rightarrow> u64 \<Rightarrow> u32 \<Rightarrow> u32 \<Rightarrow> (hostal, bool) hal" where
  "sendPlaybackConfig max_pduwords file_ok pulse_time payload dnc hicann = sendFPGAPlayback max_pduwords file_ok
     [push_bit 18 1 OR push_bit 16 1 OR push_bit 1 (pulse_time AND 0x3fff), 0, ucast (payload AND 0xffffffff),
      ucast (drop_bit 32 payload AND 0x1ffff) OR push_bit 27 (hicann AND 7) OR push_bit 30 (dnc AND 3)]"

text \<open>The two roundings of a pulse's time are given: \<open>to_fpga\<close> and \<open>to_hicann\<close>, the latter to 16 bits.\<close>

definition sendPulseList :: "nat \<Rightarrow> bool \<Rightarrow> ('t \<Rightarrow> u64) \<Rightarrow> ('t \<Rightarrow> u16) \<Rightarrow> ('t \<times> u16) list \<Rightarrow> (hostal, bool) hal" where
  "sendPulseList max_pduwords file_ok to_fpga to_hicann pulses =
     hseq (hfor pulses (\<lambda>p. addPlaybackPulse (to_fpga (fst p)) (ucast (to_hicann (fst p))) (snd p)))
       (flushPlaybackPulses max_pduwords file_ok)"

subsection \<open>The program of entries\<close>

text \<open>What the words denote: waits for overflows, groups of pulses with the time of their first one, and
  configurations.\<close>

datatype entry =
    Wait u32
  | Group u64 "u32 list"
  | Config u64 u32 u32

definition group_head :: "u64 \<Rightarrow> nat \<Rightarrow> u32" where
  "group_head t n = push_bit 18 (of_nat n) OR ucast (push_bit 1 (t AND 0x3fff))"

primrec entry_words :: "entry \<Rightarrow> u32 list" where
  "entry_words (Wait n) = [1 OR push_bit 2 (n AND 0x3fff), 0]"
| "entry_words (Group t ps) = group_head t (length ps) # ps @ (if even (length ps) then [0] else [])"
| "entry_words (Config t lo hi) = [config_header t, 0, lo, hi]"

abbreviation program_words :: "entry list \<Rightarrow> u32 list" where
  "program_words es \<equiv> concat (map entry_words es)"

primrec entry_ok :: "entry \<Rightarrow> bool" where
  "entry_ok (Wait n) \<longleftrightarrow> n \<le> 0x3fff"
| "entry_ok (Group t ps) \<longleftrightarrow> 1 \<le> length ps \<and> length ps \<le> 184"
| "entry_ok (Config t lo hi) \<longleftrightarrow> True"

text \<open>Reading the words back: the FPGA sees the lowest 14 bits of a time.\<close>

function decode_program :: "u32 list \<Rightarrow> entry list option" where
  "decode_program [] = Some []"
| "decode_program [w] = None"
| "decode_program (h # w # ws) =
    (let n = unat (drop_bit 18 h); k = (if even n then n + 1 else n); t = ucast (drop_bit 1 h AND 0x3fff) in
     if bit h 0 then map_option (Cons (Wait (drop_bit 2 h))) (decode_program ws)
     else if bit h 16 then
       (case ws of lo # hi # ws1 \<Rightarrow> map_option (Cons (Config t lo hi)) (decode_program (drop 2 ws)) | _ \<Rightarrow> None)
     else if n = 0 \<or> length (w # ws) < k then None
     else map_option (Cons (Group t (take n (w # ws)))) (decode_program (drop k (w # ws))))"
  by pat_completeness auto
termination by (relation "measure length") auto

primrec entry_low :: "entry \<Rightarrow> entry" where
  "entry_low (Wait n) = Wait n"
| "entry_low (Group t ps) = Group (t AND 0x3fff) ps"
| "entry_low (Config t lo hi) = Config (t AND 0x3fff) lo hi"

primrec entry_pulses :: "entry \<Rightarrow> u32 list" where
  "entry_pulses (Wait n) = []"
| "entry_pulses (Group t ps) = ps"
| "entry_pulses (Config t lo hi) = []"

lemma wait_fields: "bit (1 OR push_bit 2 (n AND 0x3fff) :: u32) 0" "n \<le> 0x3fff \<Longrightarrow> drop_bit 2 (1 OR push_bit 2 (n AND 0x3fff) :: u32) = n"
proof -
  have m: "(0x3fff :: u32) = mask 14" by (simp add: mask_eq_exp_minus_1)
  show "bit (1 OR push_bit 2 (n AND 0x3fff) :: u32) 0" by (simp add: bit_or_iff)
  assume "n \<le> 0x3fff"
  then have "n < 0x4000" by (simp add: word_le_nat_alt word_less_nat_alt)
  then have "n AND 0x3fff = n" unfolding m by (simp add: word_unat_eq_iff word_less_nat_alt unsigned_take_bit_eq take_bit_nat_eq_self flip: take_bit_eq_mask)
  moreover have "drop_bit 2 (1 OR push_bit 2 (n AND 0x3fff) :: u32) = n AND 0x3fff"
    unfolding m by (rule bit_word_eqI) (auto simp: bit_drop_bit_eq bit_or_iff bit_push_bit_iff bit_and_iff bit_mask_iff bit_1_iff)
  ultimately show "drop_bit 2 (1 OR push_bit 2 (n AND 0x3fff) :: u32) = n" by simp
qed

lemma nat_lt_bit: "(m :: nat) < 2 ^ w \<Longrightarrow> bit m n \<Longrightarrow> n < w"
  by (metis bit_take_bit_iff take_bit_nat_eq_self)

lemma head_bit:
  assumes "m < 2 ^ 14"
  shows "bit (group_head t m) n \<longleftrightarrow> 18 \<le> n \<and> n < 32 \<and> bit m (n - 18) \<or> 1 \<le> n \<and> n < 15 \<and> bit t (n - 1)"
proof -
  have k: "(0x3fff :: u64) = mask 14" by (simp add: mask_eq_exp_minus_1)
  show ?thesis
    unfolding group_head_def k bit_or_iff bit_push_bit_iff bit_ucast_iff bit_and_iff bit_mask_iff bit_of_nat_iff possible_bit_word
    by auto
qed

lemma head_fields:
  assumes "m < 2 ^ 14"
  shows "\<not> bit (group_head t m) 0" "\<not> bit (group_head t m) 16" "unat (drop_bit 18 (group_head t m)) = m"
    "ucast (drop_bit 1 (group_head t m) AND 0x3fff) = t AND 0x3fff"
proof -
  have k: "(0x3fff :: u64) = mask 14" "(0x3fff :: u32) = mask 14" by (simp_all add: mask_eq_exp_minus_1)
  show "\<not> bit (group_head t m) 0" "\<not> bit (group_head t m) 16" by (simp_all add: head_bit [OF assms])
  have "drop_bit 18 (group_head t m) = of_nat m"
    by (rule bit_word_eqI) (auto simp: bit_drop_bit_eq head_bit [OF assms] bit_of_nat_iff dest: nat_lt_bit [OF assms])
  then show "unat (drop_bit 18 (group_head t m)) = m" using assms by (simp add: unat_of_nat)
  show "ucast (drop_bit 1 (group_head t m) AND 0x3fff) = t AND 0x3fff"
    unfolding k by (rule bit_word_eqI) (auto simp: bit_ucast_iff bit_and_iff bit_drop_bit_eq head_bit [OF assms] bit_mask_iff)
qed

lemma config_fields: "\<not> bit (config_header t) 0" "bit (config_header t) 16"
    "ucast (drop_bit 1 (config_header t) AND 0x3fff) = t AND 0x3fff"
proof -
  have k: "(0x3fff :: u64) = mask 14" "(0x3fff :: u32) = mask 14" by (simp_all add: mask_eq_exp_minus_1)
  have b: "bit (config_header t) n \<longleftrightarrow> n = 18 \<or> n = 16 \<or> 1 \<le> n \<and> n < 15 \<and> bit t (n - 1)" for n
    unfolding config_header_def k bit_ucast_iff bit_or_iff bit_push_bit_iff bit_and_iff bit_mask_iff bit_1_iff by auto
  show "\<not> bit (config_header t) 0" "bit (config_header t) 16" by (simp_all add: b)
  show "ucast (drop_bit 1 (config_header t) AND 0x3fff) = t AND 0x3fff"
    unfolding k by (rule bit_word_eqI) (auto simp: bit_ucast_iff bit_and_iff bit_drop_bit_eq b bit_mask_iff)
qed

text \<open>A valid program is read back.\<close>

lemma decode_words: "list_all entry_ok es \<Longrightarrow> decode_program (program_words es) = Some (map entry_low es)"
proof (induction es)
  case (Cons e es)
  have IH: "decode_program (program_words es) = Some (map entry_low es)" using Cons by simp
  show ?case
  proof (cases e)
    case (Wait n)
    then show ?thesis using Cons.prems IH wait_fields [of n] by (simp add: Let_def)
  next
    case (Config t lo hi)
    then show ?thesis using IH config_fields [of t] by (simp add: Let_def)
  next
    case (Group t ps)
    then obtain q qs where ps: "ps = q # qs" and le: "length ps < 2 ^ 14" using Cons.prems by (cases ps) auto
    then show ?thesis using Group IH head_fields [OF le, of t] by (simp add: Let_def)
  qed
qed simp

subsection \<open>Adding pulses to a program\<close>

definition spec_start :: "u64 \<Rightarrow> u32 \<Rightarrow> entry list \<Rightarrow> u64 \<Rightarrow> entry list \<times> u64" where
  "spec_start t p es l = (let c = (if t < l + 6 then l + 6 else t) in
     (es @ (if t - l > 0x2000 \<and> drop_bit 14 l < drop_bit 14 t then [Wait (ucast (wait_intervals l t))] else []) @ [Group c [p]], c))"

text \<open>A pulse close to the last one joins its group while this has room, one clock after the last pulse; any
  other starts a group, not before the FPGA can serve it.\<close>

definition spec_pulse :: "u64 \<Rightarrow> u32 \<Rightarrow> entry list \<times> u64 \<Rightarrow> entry list \<times> u64" where
  "spec_pulse t p = (\<lambda>(es, l). case rev es of
       Group g ps # res \<Rightarrow> if t < l + 6 \<and> l > 0 \<and> length ps < 184 then (rev res @ [Group g (ps @ [p])], l + 1) else spec_start t p es l
     | _ \<Rightarrow> spec_start t p es l)"

definition program_of :: "hostal \<Rightarrow> entry list \<Rightarrow> bool" where
  "program_of s es \<longleftrightarrow> playback_entry_buffer s = program_words es \<and> list_all entry_ok es"

definition group_open :: "hostal \<Rightarrow> entry list \<Rightarrow> bool" where
  "group_open s es \<longleftrightarrow> last_group_start_in_buffer s = - 1 \<and> es = [] \<or>
     (\<exists>es1 t ps. es = es1 @ [Group t ps] \<and> last_group_start_in_buffer s = int (length (program_words es1)))"

lemma head_count:
  assumes "n < 2 ^ 14"
  shows "drop_bit 18 (group_head t n) = of_nat n" "of_nat n AND (1 :: u32) \<noteq> 0 \<longleftrightarrow> odd n"
    "(group_head t n AND 0x3ffff) OR push_bit 18 (of_nat n + 1) = group_head t (n + 1)"
proof -
  have "unat (drop_bit 18 (group_head t n)) = n" by (rule head_fields [OF assms])
  then show "drop_bit 18 (group_head t n) = of_nat n" using assms by (simp add: word_unat_eq_iff unat_of_nat)
  show "of_nat n AND (1 :: u32) \<noteq> 0 \<longleftrightarrow> odd n" by (simp add: and_one_eq mod_2_eq_odd)
  have k: "(0x3ffff :: u32) = mask 18" by (simp add: mask_eq_exp_minus_1)
  have low: "bit (group_head t n AND 0x3ffff) i \<longleftrightarrow> 1 \<le> i \<and> i < 15 \<and> bit t (i - 1)" for i
    unfolding k bit_and_iff bit_mask_iff head_bit [OF assms] by auto
  have m: "(0x3fff :: u64) = mask 14" by (simp add: mask_eq_exp_minus_1)
  have new: "bit (group_head t (n + 1)) i \<longleftrightarrow> 18 \<le> i \<and> i < 32 \<and> bit (n + 1) (i - 18) \<or> 1 \<le> i \<and> i < 15 \<and> bit t (i - 1)" for i
    unfolding group_head_def m bit_or_iff bit_push_bit_iff bit_ucast_iff bit_and_iff bit_mask_iff bit_of_nat_iff possible_bit_word
    by auto
  have c: "of_nat n + (1 :: u32) = of_nat (n + 1)" by simp
  have cnt: "bit (push_bit 18 (of_nat n + 1) :: u32) i \<longleftrightarrow> 18 \<le> i \<and> i < 32 \<and> bit (n + 1) (i - 18)" for i
    unfolding c bit_push_bit_iff bit_of_nat_iff possible_bit_word by auto
  show "(group_head t n AND 0x3ffff) OR push_bit 18 (of_nat n + 1) = group_head t (n + 1)"
    by (rule bit_word_eqI) (simp only: bit_or_iff [of "group_head t n AND 0x3ffff"] low cnt new, blast)
qed

lemma head_single: "ucast (push_bit 18 1 OR push_bit 1 (t AND 0x3fff)) = group_head t 1"
proof (rule bit_word_eqI)
  fix n
  have m: "(0x3fff :: u64) = mask 14" by (simp add: mask_eq_exp_minus_1)
  show "bit (ucast (push_bit 18 1 OR push_bit 1 (t AND 0x3fff)) :: u32) n = bit (group_head t 1) n"
    unfolding group_head_def m bit_or_iff bit_push_bit_iff bit_ucast_iff bit_and_iff bit_mask_iff bit_of_nat_iff possible_bit_word bit_1_iff
    by auto
qed

lemma wait_word: "(1 OR ucast (push_bit 2 (wait_intervals l t AND 0x3fff)) :: u32) = 1 OR push_bit 2 (ucast (wait_intervals l t) AND 0x3fff)"
proof (rule bit_word_eqI)
  fix n
  have m: "(0x3fff :: u64) = mask 14" "(0x3fff :: u32) = mask 14" by (simp_all add: mask_eq_exp_minus_1)
  show "bit (1 OR ucast (push_bit 2 (wait_intervals l t AND 0x3fff)) :: u32) n = bit (1 OR push_bit 2 (ucast (wait_intervals l t) AND 0x3fff) :: u32) n"
    unfolding m bit_or_iff bit_push_bit_iff bit_ucast_iff bit_and_iff bit_mask_iff by auto
qed

lemma wait_le: "wait_intervals l t \<le> 0x3fff" "ucast (wait_intervals l t) \<le> (0x3fff :: u32)"
proof -
  show 1: "wait_intervals l t \<le> 0x3fff" by (auto simp: wait_intervals_def Let_def not_less)
  then have "unat (wait_intervals l t) \<le> 0x3fff" by (simp add: word_le_nat_alt)
  then show "ucast (wait_intervals l t) \<le> (0x3fff :: u32)"
    by (simp add: word_le_nat_alt unsigned_ucast_eq take_bit_nat_eq_self)
qed

text \<open>A pulse that starts a group.\<close>

lemma start_group:
  fixes t :: u64 and p :: u32
  assumes "program_of s es"
  defines "s1 \<equiv> add_overflow_wait t s"
  defines "c \<equiv> if t < last_playback_reltime s + min_reltime_distance_clks then last_playback_reltime s + min_reltime_distance_clks else t"
  defines "s2 \<equiv> push_words [ucast (push_bit 18 1 OR push_bit 1 (c AND 0x3fff)), p] s1"
  defines "s3 \<equiv> s2\<lparr>last_group_start_in_buffer := int (length (playback_entry_buffer s2)) - 2, last_playback_reltime := c\<rparr>"
  shows "program_of s3 (fst (spec_start t p es (last_playback_reltime s)))" "group_open s3 (fst (spec_start t p es (last_playback_reltime s)))"
    "last_playback_reltime s3 = snd (spec_start t p es (last_playback_reltime s))"
proof -
  define w where "w = (if t - last_playback_reltime s > 0x2000 \<and> drop_bit 14 (last_playback_reltime s) < drop_bit 14 t
    then [Wait (ucast (wait_intervals (last_playback_reltime s) t))] else [])"
  have sp: "spec_start t p es (last_playback_reltime s) = (es @ w @ [Group c [p]], c)"
    by (simp add: spec_start_def w_def c_def min_reltime_distance_clks_def Let_def)
  have "playback_entry_buffer s1 = program_words (es @ w)"
    using assms(1) unfolding s1_def add_overflow_wait_def w_def push_words_def program_of_def wait_word
    by (simp split del: if_split cong: if_cong) simp
  then have b: "playback_entry_buffer s2 = program_words (es @ w) @ [group_head c 1, p]"
    unfolding s2_def push_words_def head_single by simp
  have "list_all entry_ok w" by (simp add: w_def wait_le)
  then show "program_of s3 (fst (spec_start t p es (last_playback_reltime s)))"
    using assms(1) b by (simp add: sp program_of_def s3_def)
  show "last_playback_reltime s3 = snd (spec_start t p es (last_playback_reltime s))" by (simp add: s3_def sp)
  have "es @ w @ [Group c [p]] = (es @ w) @ [Group c [p]]" "last_group_start_in_buffer s3 = int (length (program_words (es @ w)))"
    by (simp_all add: s3_def b)
  then show "group_open s3 (fst (spec_start t p es (last_playback_reltime s)))" unfolding group_open_def sp fst_conv by blast
qed

text \<open>A pulse that joins the last group.\<close>

lemma join_words:
  fixes pre :: "u32 list" and g :: u64 and p :: u32
  assumes "0 < length ps" "length ps < 184"
  defines "buf \<equiv> pre @ entry_words (Group g ps)"
  defines "n \<equiv> length pre"
  defines "buf1 \<equiv> if drop_bit 18 (buf ! n) AND 1 \<noteq> 0 then buf @ [p, 0] else buf[length buf - 1 := p]"
  shows "n < length buf" "drop_bit 18 (buf ! n) < max_pulses_per_group"
    "buf1[n := (buf1 ! n AND 0x3ffff) OR push_bit 18 (drop_bit 18 (buf ! n) + 1)] = pre @ entry_words (Group g (ps @ [p]))"
proof -
  have k: "length ps < 2 ^ 14" using assms(2) by simp
  have b: "buf ! n = group_head g (length ps)" by (simp add: buf_def n_def nth_append)
  show "n < length buf" by (simp add: buf_def n_def)
  have "(of_nat (length ps) :: u32) < 184" using assms(2) by (simp add: word_less_nat_alt unat_of_nat)
  then show "drop_bit 18 (buf ! n) < max_pulses_per_group" by (simp add: b head_count(1) [OF k] max_pulses_per_group_def)
  have b1: "buf1 = pre @ group_head g (length ps) # ps @ (if odd (length ps) then [p, 0] else [p])"
    unfolding buf1_def b head_count(1,2) [OF k] by (simp add: buf_def list_update_append)
  have "buf1 ! n = group_head g (length ps)" by (simp add: b1 n_def nth_append)
  then show "buf1[n := (buf1 ! n AND 0x3ffff) OR push_bit 18 (drop_bit 18 (buf ! n) + 1)] = pre @ entry_words (Group g (ps @ [p]))"
    unfolding b head_count(1) [OF k] using head_count(3) [OF k, of g] by (simp add: b1 n_def list_update_append)
qed

lemma full_group:
  assumes "184 \<le> length ps" "length ps \<le> 184"
  shows "\<not> drop_bit 18 ((pre @ entry_words (Group g ps)) ! length pre) < max_pulses_per_group"
proof -
  have k: "length ps < 2 ^ 14" "length ps = 184" using assms by simp_all
  show ?thesis using head_count(1) [of 184 g] by (simp add: nth_append max_pulses_per_group_def k(2))
qed

lemma add_pulse:
  assumes "program_of s es" "group_open s es"
  shows "\<exists>s1. addPlaybackPulse t h i s = (Inr (), s1) \<and>
    program_of s1 (fst (spec_pulse t (pulse_word i h) (es, last_playback_reltime s))) \<and>
    group_open s1 (fst (spec_pulse t (pulse_word i h) (es, last_playback_reltime s))) \<and>
    last_playback_reltime s1 = snd (spec_pulse t (pulse_word i h) (es, last_playback_reltime s))"
proof -
  let ?l = "last_playback_reltime s" and ?p = "pulse_word i h"
  let ?near = "t < ?l + min_reltime_distance_clks \<and> 0 < ?l \<and> 0 \<le> last_group_start_in_buffer s"
  let ?buf = "playback_entry_buffer s" and ?n = "nat (last_group_start_in_buffer s)"
  consider (empty) "es = []" "last_group_start_in_buffer s = - 1"
    | (group) es1 g ps where "es = es1 @ [Group g ps]" "last_group_start_in_buffer s = int (length (program_words es1))"
    using assms(2) unfolding group_open_def by blast
  then show ?thesis
  proof cases
    case empty
    then have "\<not> ?near" by simp
    then show ?thesis using start_group [OF assms(1), of t ?p] empty
      by (simp add: addPlaybackPulse_def Let_def spec_pulse_def del: push_bit_and)
  next
    case (group es1 g ps)
    have ps: "0 < length ps" "length ps \<le> 184" and buf: "?buf = program_words es1 @ entry_words (Group g ps)"
        and ok: "list_all entry_ok es1"
      using assms(1) by (simp_all add: group program_of_def Suc_le_eq)
    have n: "?n = length (program_words es1)" by (simp add: group)
    show ?thesis
    proof (cases "?near \<and> length ps < 184")
      case True
      let ?q = "es1 @ [Group g (ps @ [?p])]"
      let ?s1 = "s\<lparr>playback_entry_buffer := program_words ?q, last_playback_reltime := ?l + 1\<rparr>"
      have lt: "length ps < 184" using True by simp
      note j = join_words(1,2) [OF ps(1) lt, of "program_words es1" g, folded buf n]
        join_words(3) [OF ps(1) lt, of "program_words es1" g ?p, folded buf n]
      have "addPlaybackPulse t h i s = (Inr (), ?s1)"
        using True j by (simp add: addPlaybackPulse_def Let_def not_le del: entry_words.simps split del: if_split)
      moreover have "spec_pulse t ?p (es, ?l) = (?q, ?l + 1)"
        using True by (simp add: spec_pulse_def group min_reltime_distance_clks_def)
      moreover have "program_of ?s1 ?q" using ok True by (simp add: program_of_def)
      moreover have "group_open ?s1 ?q" by (auto simp: group_open_def group)
      ultimately show ?thesis by simp
    next
      case False
      have "spec_pulse t ?p (es, ?l) = spec_start t ?p es ?l"
        using False by (auto simp: spec_pulse_def group min_reltime_distance_clks_def)
      moreover have "\<not> (?near \<and> ?n \<ge> length ?buf)" "\<not> (?near \<and> drop_bit 18 (?buf ! ?n) < max_pulses_per_group)"
        using False full_group [of ps "program_words es1" g] ps by (auto simp: buf n)
      ultimately show ?thesis using start_group [OF assms(1), of t ?p]
        unfolding addPlaybackPulse_def Let_def by (simp only: if_False) simp
    qed
  qed
qed

abbreviation spec_pulses :: "(u64 \<times> u64 \<times> u16) list \<Rightarrow> entry list \<times> u64 \<Rightarrow> entry list \<times> u64" where
  "spec_pulses \<equiv> fold (\<lambda>(t, h, i). spec_pulse t (pulse_word i h))"

abbreviation addPlaybackPulses :: "(u64 \<times> u64 \<times> u16) list \<Rightarrow> (hostal, unit) hal" where
  "addPlaybackPulses ps \<equiv> hfor ps (\<lambda>(t, h, i). addPlaybackPulse t h i)"

lemma add_pulses:
  assumes "program_of s es" "group_open s es"
  shows "\<exists>s1. addPlaybackPulses ps s = (Inr (), s1) \<and> program_of s1 (fst (spec_pulses ps (es, last_playback_reltime s))) \<and>
    group_open s1 (fst (spec_pulses ps (es, last_playback_reltime s)))"
  using assms
proof (induction ps arbitrary: s es)
  case (Cons p ps)
  obtain t h i where p: "p = (t, h, i)" by (cases p)
  obtain s1 where s1: "addPlaybackPulse t h i s = (Inr (), s1)"
      "program_of s1 (fst (spec_pulse t (pulse_word i h) (es, last_playback_reltime s)))"
      "group_open s1 (fst (spec_pulse t (pulse_word i h) (es, last_playback_reltime s)))"
      "last_playback_reltime s1 = snd (spec_pulse t (pulse_word i h) (es, last_playback_reltime s))"
    using add_pulse [OF Cons.prems] by blast
  then show ?case using Cons.IH [OF s1(2,3)] by (simp add: p hseq_def hbind_def)
qed auto

lemma empty_program:
  "playback_entry_buffer s = [] \<Longrightarrow> last_group_start_in_buffer s = - 1 \<Longrightarrow> program_of s [] \<and> group_open s []"
  by (simp add: program_of_def group_open_def)

lemma spec_start_pulses: "concat (map entry_pulses (fst (spec_start t p es l))) = concat (map entry_pulses es) @ [p]"
  by (simp add: spec_start_def Let_def)

text \<open>The two cases of a step.\<close>

lemma spec_pulse_cases:
  obtains (join) g ps res where "es = res @ [Group g ps]" "t < l + 6" "length ps < 184" "spec_pulse t p (es, l) = (res @ [Group g (ps @ [p])], l + 1)"
    | (start) "spec_pulse t p (es, l) = spec_start t p es l"
proof (cases "rev es")
  case Nil
  then show ?thesis by (intro start) (simp add: spec_pulse_def)
next
  case (Cons e res)
  show ?thesis
  proof (cases e)
    case (Group g ps)
    have "es = rev res @ [Group g ps]" using Cons Group by simp
    then show ?thesis using join [of "rev res" g ps] start Cons Group by (cases "t < l + 6 \<and> l > 0 \<and> length ps < 184") (auto simp: spec_pulse_def)
  qed (use Cons in \<open>auto intro!: start simp: spec_pulse_def\<close>)
qed

lemma spec_pulse_pulses: "concat (map entry_pulses (fst (spec_pulse t p (es, l)))) = concat (map entry_pulses es) @ [p]"
  by (rule spec_pulse_cases [of es t l p]) (simp_all add: spec_start_pulses)

lemma spec_pulses_pulses:
  "concat (map entry_pulses (fst (spec_pulses ps (es, l)))) = concat (map entry_pulses es) @ map (\<lambda>(t, h, i). pulse_word i h) ps"
proof (induction ps arbitrary: es l)
  case (Cons p ps)
  obtain t h i where p: "p = (t, h, i)" by (cases p)
  obtain es1 l1 where 1: "spec_pulse t (pulse_word i h) (es, l) = (es1, l1)" by (cases "spec_pulse t (pulse_word i h) (es, l)")
  then have "concat (map entry_pulses es1) = concat (map entry_pulses es) @ [pulse_word i h]"
    using spec_pulse_pulses [of t "pulse_word i h" es l] by simp
  then show ?case using Cons [of es1 l1] by (simp add: p 1)
qed simp

text \<open>A word of a pulse: its label has 14 bits, its time in cycles of the HICANN 15.\<close>

definition read_pulse :: "u32 \<Rightarrow> u16 \<times> u64" where
  "read_pulse w = (ucast (drop_bit 18 w), ucast (drop_bit 1 w AND 0x7fff))"

lemma read_pulse_word: "read_pulse (pulse_word i h) = (i AND 0x3fff, h AND 0x7fff)"
proof -
  have m: "(0x3fff :: u32) = mask 14" "(0x3fff :: u16) = mask 14" "(0x7fff :: u64) = mask 15" "(0x7fff :: u32) = mask 15"
    by (simp_all add: mask_eq_exp_minus_1)
  have b: "bit (pulse_word i h) n \<longleftrightarrow> 18 \<le> n \<and> n < 32 \<and> bit i (n - 18) \<or> 1 \<le> n \<and> n < 16 \<and> bit h (n - 1)" for n
    unfolding pulse_word_def m bit_or_iff bit_push_bit_iff bit_ucast_iff bit_and_iff bit_mask_iff
    using bit_imp_le_length [of i "n - 18"] by auto
  have "ucast (drop_bit 18 (pulse_word i h)) = i AND 0x3fff"
    unfolding m by (rule bit_word_eqI) (auto simp: bit_ucast_iff bit_drop_bit_eq b bit_and_iff bit_mask_iff)
  moreover have "ucast (drop_bit 1 (pulse_word i h) AND 0x7fff) = h AND 0x7fff"
    unfolding m by (rule bit_word_eqI) (auto simp: bit_ucast_iff bit_drop_bit_eq b bit_and_iff bit_mask_iff)
  ultimately show ?thesis by (simp add: read_pulse_def)
qed

lemma entry_words_even: "even (length (entry_words e))"
  by (cases e) auto

text \<open>Claim C24: Whatever pulses are added to an empty buffer, in whatever order and at whatever times, no access
  leaves the buffer, and the buffer is a valid program of the FPGA: it is read back as entries, groups of 1 to
  184 pulses and waits of at most 14 bits, that hold exactly the pulses that were added, in order, and it
  fills whole 64 bit words.\<close>

theorem playback_program:
  assumes "playback_entry_buffer s = []" "last_group_start_in_buffer s = - 1"
  shows "\<exists>s1 es. addPlaybackPulses ps s = (Inr (), s1) \<and> decode_program (playback_entry_buffer s1) = Some es \<and>
    list_all entry_ok es \<and> map read_pulse (concat (map entry_pulses es)) = map (\<lambda>(t, h, i). (i AND 0x3fff, h AND 0x7fff)) ps \<and>
    even (length (playback_entry_buffer s1))"
proof -
  let ?es = "fst (spec_pulses ps ([], last_playback_reltime s))"
  obtain s1 where s1: "addPlaybackPulses ps s = (Inr (), s1)" "program_of s1 ?es"
    using add_pulses [of s "[]" ps] empty_program [OF assms] by blast
  have ok: "entry_ok (entry_low e) = entry_ok e" for e by (cases e) simp_all
  from s1 have d: "decode_program (playback_entry_buffer s1) = Some (map entry_low ?es)" "list_all entry_ok (map entry_low ?es)"
    using decode_words [of ?es] by (simp_all add: program_of_def list.pred_map comp_def ok)
  have low: "entry_pulses (entry_low e) = entry_pulses e" for e by (cases e) simp_all
  have "concat (map entry_pulses (map entry_low ?es)) = map (\<lambda>(t, h, i). pulse_word i h) ps"
    using spec_pulses_pulses [of ps "[]" "last_playback_reltime s"] by (simp add: comp_def low)
  then have "map read_pulse (concat (map entry_pulses (map entry_low ?es))) = map (\<lambda>(t, h, i). (i AND 0x3fff, h AND 0x7fff)) ps"
    by (auto simp: read_pulse_word)
  moreover have "even (length (program_words es))" for es by (induction es) (simp_all add: entry_words_even)
  ultimately show ?thesis using s1 d by (auto simp: program_of_def)
qed

theorem playback_program_witness:
  "\<exists>s1 es. addPlaybackPulses [(10, 50, 3), (11, 70, 0x8004), (90000, 99, 5)] (reset demo_host) = (Inr (), s1) \<and>
    decode_program (playback_entry_buffer s1) = Some es \<and> map read_pulse (concat (map entry_pulses es)) = [(3, 50), (4, 70), (5, 99)]"
proof -
  have "playback_entry_buffer (reset demo_host) = []" "last_group_start_in_buffer (reset demo_host) = - 1"
    by (simp_all add: reset_def reset_hiconf_buffers_def reset_trace_buffers_def reset_playback_buffers_def reset_fpga_times_def)
  from playback_program [OF this, of "[(10, 50, 3), (11, 70, 0x8004), (90000, 99, 5)]"] show ?thesis by auto
qed

subsection \<open>Release times\<close>

text \<open>The clocks in which the pulses of an entry are released: one after the other, from the time of the group.\<close>

primrec entry_times :: "entry \<Rightarrow> nat list" where
  "entry_times (Wait n) = []"
| "entry_times (Group t ps) = [unat t..<unat t + length ps]"
| "entry_times (Config t lo hi) = []"

definition runs :: "entry list \<Rightarrow> nat list list" where
  "runs es = filter (\<lambda>r. r \<noteq> []) (map entry_times es)"

text \<open>Groups keep the distance the FPGA needs, and the last pulse is the one the code remembers.\<close>

definition times_ok :: "nat \<Rightarrow> entry list \<times> u64 \<Rightarrow> bool" where
  "times_ok B = (\<lambda>(es, l). successively (\<lambda>a b. last a + 6 \<le> hd b) (runs es) \<and> list_all entry_ok es \<and>
     (runs es \<noteq> [] \<longrightarrow> last (last (runs es)) = unat l) \<and> unat l \<le> B)"

definition not_early :: "u64 \<times> u64 \<times> u16 \<Rightarrow> nat \<Rightarrow> bool" where
  "not_early p r \<longleftrightarrow> unat (fst p) \<le> r + 4"

lemma runs_append: "runs (es @ fs) = runs es @ runs fs"
  by (simp add: runs_def)

lemma runs_single: "ps \<noteq> [] \<Longrightarrow> runs [Group t ps] = [[unat t..<unat t + length ps]]" "runs [Wait n] = []" "runs [] = []"
  by (simp_all add: runs_def)

lemma last_upt: "0 < n \<Longrightarrow> last [a..<a + n] = a + n - 1"
  by simp

lemma times_step:
  assumes "times_ok B (es, l)" "unat t \<le> B" "B + 6 < 2 ^ 64"
  shows "times_ok (B + 6) (spec_pulse t p (es, l))"
    "\<exists>r. concat (runs (fst (spec_pulse t p (es, l)))) = concat (runs es) @ [r] \<and> unat t \<le> r + 4"
proof -
  have l: "unat l \<le> B" using assms(1) by (simp add: times_ok_def)
  have u: "unat (l + 6) = unat l + 6" "unat (l + 1) = unat l + 1"
    using l assms(3) by (simp_all add: unat_word_ariths(1))
  have "times_ok (B + 6) (spec_pulse t p (es, l)) \<and>
    (\<exists>r. concat (runs (fst (spec_pulse t p (es, l)))) = concat (runs es) @ [r] \<and> unat t \<le> r + 4)"
  proof (rule spec_pulse_cases [of es t l p])
    fix g ps res
    assume j: "es = res @ [Group g ps]" "t < l + 6" "length ps < 184" "spec_pulse t p (es, l) = (res @ [Group g (ps @ [p])], l + 1)"
    have ps: "ps \<noteq> []" "0 < length ps" using assms(1) by (auto simp: times_ok_def j)
    have r: "runs es = runs res @ [[unat g..<unat g + length ps]]"
        "runs (res @ [Group g (ps @ [p])]) = runs res @ [[unat g..<unat g + length ps] @ [unat g + length ps]]"
      using ps by (simp_all add: j(1) runs_append runs_single)
    have "unat g + length ps - 1 = unat l" using assms(1) ps by (auto simp: times_ok_def r(1))
    then have e: "unat g + length ps = unat l + 1" using ps(2) by linarith
    have "unat t < unat l + 6" using j(2) u(1) by (simp add: word_less_nat_alt)
    then have "unat t \<le> unat g + length ps + 4" using e by simp
    moreover have "times_ok (B + 6) (res @ [Group g (ps @ [p])], l + 1)"
      using assms(1) l ps e u(2) j(3) unfolding times_ok_def prod.case r
      by (auto simp: successively_append_iff j(1) hd_append)
    ultimately show ?thesis unfolding j(4) fst_conv r by auto
  next
    assume st: "spec_pulse t p (es, l) = spec_start t p es l"
    obtain w c where w: "spec_start t p es l = (es @ w @ [Group c [p]], c)" "c = (if t < l + 6 then l + 6 else t)"
        "runs w = []" "list_all entry_ok w"
      by (auto simp: spec_start_def Let_def runs_single wait_le)
    have c: "unat l + 6 \<le> unat c" "unat t \<le> unat c" "unat c \<le> B + 6"
      using u(1) l assms(2) by (auto simp: w(2) word_less_nat_alt not_less)
    have r: "runs (es @ w @ [Group c [p]]) = runs es @ [[unat c]]" by (simp add: runs_append runs_single w(3))
    have "times_ok (B + 6) (es @ w @ [Group c [p]], c)"
      using assms(1) c w(4) unfolding times_ok_def prod.case r by (auto simp: successively_append_iff)
    then show ?thesis using c unfolding st w(1) fst_conv r by auto
  qed
  then show "times_ok (B + 6) (spec_pulse t p (es, l))"
    "\<exists>r. concat (runs (fst (spec_pulse t p (es, l)))) = concat (runs es) @ [r] \<and> unat t \<le> r + 4" by blast+
qed

lemma times_steps:
  "times_ok B (es, l) \<Longrightarrow> \<forall>(t, h, i) \<in> set ps. unat t \<le> B \<Longrightarrow> B + 6 * length ps < 2 ^ 64 \<Longrightarrow>
    times_ok (B + 6 * length ps) (spec_pulses ps (es, l)) \<and>
    (\<exists>rs. concat (runs (fst (spec_pulses ps (es, l)))) = concat (runs es) @ rs \<and> list_all2 not_early ps rs)"
proof (induction ps arbitrary: B es l)
  case (Cons p ps)
  obtain t h i where p: "p = (t, h, i)" by (cases p)
  obtain es1 l1 where 1: "spec_pulse t (pulse_word i h) (es, l) = (es1, l1)" by (cases "spec_pulse t (pulse_word i h) (es, l)")
  have "unat t \<le> B" "B + 6 < 2 ^ 64" using Cons.prems(2,3) by (auto simp: p)
  from times_step [OF Cons.prems(1) this, of "pulse_word i h"]
  obtain r where r: "times_ok (B + 6) (es1, l1)" "concat (runs es1) = concat (runs es) @ [r]" "unat t \<le> r + 4" by (auto simp: 1)
  have "\<forall>(t, h, i) \<in> set ps. unat t \<le> B + 6" "B + 6 + 6 * length ps < 2 ^ 64" using Cons.prems(2,3) by auto
  from Cons.IH [OF r(1) this]
  obtain rs where "times_ok (B + 6 + 6 * length ps) (spec_pulses ps (es1, l1))"
      "concat (runs (fst (spec_pulses ps (es1, l1)))) = concat (runs es1) @ rs" "list_all2 not_early ps rs"
    by blast
  moreover have "not_early (t, h, i) r" using r(3) by (simp add: not_early_def)
  ultimately show ?case using r(2) by (auto simp: p 1 algebra_simps intro!: exI [of _ "r # rs"])
qed auto



subsection \<open>Sending\<close>

lemma words64_length: "length (words64 ws) = length ws div 2"
  by (induction ws rule: words64.induct) auto

lemma words64_append: "even (length xs) \<Longrightarrow> words64 (xs @ ys) = words64 xs @ words64 ys"
  by (induction xs rule: words64.induct) auto

lemma words64_chunks: "even (length xs) \<Longrightarrow> even n \<Longrightarrow> 0 < n \<Longrightarrow>
    concat (map words64 (chunks n xs)) = words64 xs \<and> list_all (\<lambda>c. even (length c)) (chunks n xs)"
proof (induction n xs rule: chunks.induct)
  case (1 n xs)
  show ?case
  proof (cases "xs = []")
    case False
    have e: "even (length (take n xs))" "even (length (drop n xs))" using 1 by (auto simp: min_def)
    have "words64 xs = words64 (take n xs) @ words64 (drop n xs)" using words64_append [OF e(1), of "drop n xs"] by simp
    then show ?thesis using 1 e False by (subst (1 2) chunks.simps) simp
  qed (simp add: chunks.simps)
qed

text \<open>Flushing an even buffer through a transport that takes everything sends all words, in order and
  two to a 64 bit word, in playback frames, none empty and none longer than the transport allows, and leaves an
  empty buffer ready for a new program.\<close>

theorem flush_sends_program:
  assumes "arq_set s" "accepts s = []" "0 < n" "even (length (playback_entry_buffer s))" "spikes_to_binfile_enable s \<longrightarrow> file_ok"
  shows "\<exists>fs s1. flushPlaybackPulses n file_ok s = (Inr True, s1) \<and>
    sent s1 = sent s @ map (\<lambda>f. \<lparr>pid = FPGAPLAYBACK, pdu = f\<rparr>) fs \<and> concat fs = words64 (playback_entry_buffer s) \<and>
    list_all (\<lambda>f. f \<noteq> [] \<and> length f \<le> n) fs \<and> playback_entry_buffer s1 = [] \<and> last_group_start_in_buffer s1 = - 1"
proof -
  let ?cs = "chunks (2 * n) (playback_entry_buffer s)"
  let ?fs = "map (\<lambda>ws. (4 * length ws, words64 ws)) ?cs"
  have c: "list_all (\<lambda>c. c \<noteq> [] \<and> length c \<le> 2 * n) ?cs" using assms(3) by (intro chunks_size) simp
  have e: "concat (map words64 ?cs) = words64 (playback_entry_buffer s)" "list_all (\<lambda>c. even (length c)) ?cs"
    using words64_chunks [OF assms(4), of "2 * n"] assms(3) by simp_all
  have two: "0 < length c div 2 \<and> length c div 2 \<le> n" if "c \<in> set ?cs" for c
  proof -
    have "c \<noteq> []" "length c \<le> 2 * n" "even (length c)" using c e(2) that by (auto simp: list_all_iff)
    then show ?thesis by (cases c) (auto elim!: evenE)
  qed
  have "list_all (\<lambda>f. 0 < fst f \<and> (fst f + 7) div 8 = length (snd f)) ?fs"
    using c e(2) by (auto simp: list_all_iff words64_length elim!: evenE)
  from send_frames_sent [OF assms(1) this, of FPGAPLAYBACK True]
  obtain s1 where s1: "send_frames FPGAPLAYBACK ?fs True s = (Inr True, s1)"
      "s1 = s\<lparr>accepts := [], sent := sent s @ map (\<lambda>f. \<lparr>pid = FPGAPLAYBACK, pdu = snd f\<rparr>) ?fs\<rparr>"
    using assms(2) by auto
  have "sendFPGAPlayback n file_ok (playback_entry_buffer s) s = (Inr True, s1)"
    using assms(4,5) s1(1) by (auto simp: sendFPGAPlayback_def)
  then have "flushPlaybackPulses n file_ok s = (Inr True, reset_playback_buffers s1)"
    by (simp add: flushPlaybackPulses_def hbind_def hseq_def)
  moreover have "list_all (\<lambda>f. f \<noteq> [] \<and> length f \<le> n) (map words64 ?cs)"
    using two by (auto simp: list_all_iff words64_length simp flip: length_greater_0_conv)
  ultimately show ?thesis using e(1)
    by (intro exI [of _ "map words64 ?cs"] exI [of _ "reset_playback_buffers s1"]) (simp add: s1(2) reset_playback_buffers_def comp_def)
qed

theorem flush_sends_program_witness:
  "\<exists>fs s1. flushPlaybackPulses 1 False (demo_host\<lparr>playback_entry_buffer := [1, 2, 3, 4]\<rparr>) = (Inr True, s1) \<and>
    concat fs = [0x200000001, 0x400000003] \<and> sent s1 = map (\<lambda>f. \<lparr>pid = FPGAPLAYBACK, pdu = f\<rparr>) fs \<and> list_all (\<lambda>f. length f \<le> 1) fs"
proof -
  let ?s = "demo_host\<lparr>playback_entry_buffer := [1, 2, 3, 4]\<rparr>"
  have h: "arq_set ?s" "accepts ?s = []" "0 < (1 :: nat)" "even (length (playback_entry_buffer ?s))"
      "spikes_to_binfile_enable ?s \<longrightarrow> False" "sent ?s = []"
    by (simp_all add: demo_host_def)
  have w: "words64 (playback_entry_buffer ?s) = [0x200000001, 0x400000003]" by simp
  from flush_sends_program [OF h(1-5)] show ?thesis unfolding w h(6) by (fastforce elim: list.pred_mono_strong)
qed

subsection \<open>A configuration before a pulse\<close>

text \<open>
  Configurations do not close the last group: a pulse that follows one of the FPGA within six
  clocks joins the group before it. With two pulses in the group, it replaces the upper word of the configuration,
  here the one with the marker of the end, and the group gets a pulse with label and time 0.
\<close>

lemma config_overwritten:
  "let s1 = snd (addPlaybackPulses [(10, 50, 3), (11, 70, 4)] (reset demo_host));
       s2 = snd (addPlaybackFPGAConfig 20 True False False False s1);
       s3 = snd (addPlaybackPulse 21 99 5 s2) in
   last (playback_entry_buffer s2) = fpga_config_high True \<and> last (playback_entry_buffer s3) = pulse_word 5 99 \<and>
   length (playback_entry_buffer s3) = length (playback_entry_buffer s2) \<and>
   decode_program (playback_entry_buffer s2) = Some [Group 10 [pulse_word 3 50, pulse_word 4 70], Config 20 0 (fpga_config_high True)] \<and>
   decode_program (playback_entry_buffer s3) = Some [Group 10 [pulse_word 3 50, pulse_word 4 70, 0], Config 20 0 (pulse_word 5 99)]"
  by code_simp

end
