(* ===== verification/Fpgaarq.thy ===== *)
theory Fpgaarq
  imports Hostal Ctrlmod
begin

text \<open>
  The communication object that uses the FPGA (\<open>s2c_jtagphys_2fpga_arq.cpp\<close>): commands of control
  modules are collected in the bulk of \<open>HostALController\<close> (theory \<open>Hostal\<close>) and flushed when a
  frame is full or something is read; HICANNs without a fast link are reached over JTAG by the
  base class (theory \<open>Ctrlmod\<close>). And the statistics registers of the FPGA (\<open>fpga_control.cpp\<close>), read over the
  same transport. The results: no command overtakes another or is forgotten between the control
  modules and the transport; a read returns what the chip answered in time, and zeros otherwise; a statistics
  value is returned when it arrives within the first seven waits, and a later one answers the next request.
\<close>

subsection \<open>State\<close>

text \<open>
  The members of \<open>S2C_JtagPhys2FpgaArq\<close> and its bases: the map from JTAG positions to fast links, the
  links that are up, and for each HICANN (by its JTAG position) the link layers used over JTAG.
\<close>

record fpgaarq =
  hostalctrl :: hostal
  bulk :: u32
  max_bulk :: u32
  dncid :: u32
  link_states :: "nat \<Rightarrow> bool"
  jtag2dnc_lut :: "nat \<rightharpoonup> nat"
  jtag_bus :: "nat \<Rightarrow> bus"

definition on_host :: "(hostal, 'a) hal \<Rightarrow> (fpgaarq, 'a) hal" where
  "on_host m = (\<lambda>s. case m (hostalctrl s) of (r, h) \<Rightarrow> (r, s\<lparr>hostalctrl := h\<rparr>))"

definition over_jtag :: "nat \<Rightarrow> (bus, 'a) hal \<Rightarrow> (fpgaarq, 'a) hal" where
  "over_jtag hicann_nr m = (\<lambda>s. case m (jtag_bus s hicann_nr) of (r, b) \<Rightarrow> (r, s\<lparr>jtag_bus := (jtag_bus s)(hicann_nr := b)\<rparr>))"

definition jtag2dnc :: "nat \<Rightarrow> (fpgaarq, nat) hal" where
  "jtag2dnc jtag_chain_nr = (\<lambda>s. case jtag2dnc_lut s jtag_chain_nr of None \<Rightarrow> (Inl Assertion_failed, s) | Some d \<Rightarrow> (Inr d, s))"

text \<open>The loop that fills both tables: available HICANNs are numbered from 0 in the order of falling links.\<close>

definition lut_step :: "(nat \<Rightarrow> bool) \<Rightarrow> nat \<Rightarrow> (nat \<rightharpoonup> nat) \<times> (nat \<rightharpoonup> nat) \<times> nat \<Rightarrow> (nat \<rightharpoonup> nat) \<times> (nat \<rightharpoonup> nat) \<times> nat" where
  "lut_step available dnc_nr = (\<lambda>(d2j, j2d, jtag_nr).
     if available dnc_nr then (d2j(dnc_nr \<mapsto> jtag_nr), j2d(jtag_nr \<mapsto> dnc_nr), jtag_nr + 1) else (d2j, j2d, jtag_nr))"

definition create_luts :: "(nat \<Rightarrow> bool) \<Rightarrow> (nat \<rightharpoonup> nat) \<times> (nat \<rightharpoonup> nat) \<times> nat" where
  "create_luts available = fold (lut_step available) (rev [0..<8]) (Map.empty, Map.empty, 0)"

subsection \<open>Commands\<close>

text \<open>\<open>n\<close> is the transport's constant \<open>MAX_PDUWORDS\<close>. Both calls send the bulk, the second one an empty one; what
  they return is dropped.\<close>

definition Flush_arq :: "nat \<Rightarrow> (fpgaarq, unit) hal" where
  "Flush_arq n = (\<lambda>s.
     hseq (hwhen (bulk s \<noteq> 0) (hvoid (on_host (sendHICANNConfigBulk n))))
       (hseq (hmodify (\<lambda>s. s\<lparr>bulk := 0\<rparr>)) (hvoid (on_host (sendHICANNConfigBulk n)))) s)"

definition Clear_arq :: "(fpgaarq, unit) hal" where "Clear_arq = hret ()"

text \<open>Tag, write bit, address and data of a command; the data of a read is bit 31.\<close>

definition command_word :: "u32 \<Rightarrow> ci_payload \<Rightarrow> u64" where
  "command_word tagid p = push_bit 49 (ucast tagid) OR push_bit 48 (ucast (pwrite p)) OR push_bit 32 (ucast (paddr p))
     OR (if pwrite p \<noteq> 0 then ucast (pdat p) else push_bit 31 1)"

definition issueCommand_arq :: "nat \<Rightarrow> nat \<Rightarrow> u32 \<Rightarrow> ci_payload \<Rightarrow> (fpgaarq, int) hal" where
  "issueCommand_arq n hicann_nr tagid p = hbind (jtag2dnc hicann_nr) (\<lambda>d s.
     if \<not> link_states s d then over_jtag hicann_nr (issueCommand tagid p) s
     else
       (let s1 = s\<lparr>hostalctrl := addHICANNConfigBulk (command_word tagid p) (dncid s) (of_nat d) (hostalctrl s), bulk := bulk s + 1\<rparr> in
        if max_bulk s = 0 then (Inl Undefined_behaviour, s1)
        else hseq (hwhen ((bulk s + 1) mod max_bulk s = 0) (Flush_arq n)) (hret 1) s1))"

text \<open>The default timeout is 20 seconds. A timeout is not noticed: 0 is taken for the answer.\<close>

definition default_timeout :: nat where "default_timeout = 20000000"

definition recvData_arq :: "nat \<Rightarrow> nat \<Rightarrow> u32 \<Rightarrow> (fpgaarq, u16 \<times> u32) hal" where
  "recvData_arq n hicann_nr tagid = hbind (jtag2dnc hicann_nr) (\<lambda>d s.
     if \<not> link_states s d then hbind (over_jtag hicann_nr (recvData tagid)) (\<lambda>p. hret (paddr p, pdat p)) s
     else hseq (Flush_arq n) (hbind (\<lambda>s. on_host (getReceivedHICANNConfig (dncid s) (of_nat d) tagid default_timeout) s)
       (\<lambda>tmp. hret (ucast (drop_bit 32 tmp AND 0xffff), ucast tmp))) s)"

text \<open>The start of the counters and of an experiment; the result of the command is dropped.\<close>

definition trigger_systime :: "bool \<Rightarrow> bool \<Rightarrow> (fpgaarq, unit) hal" where
  "trigger_systime enable listen_global = hvoid (on_host (setSystime enable listen_global False))"

definition trigger_experiment :: "bool \<Rightarrow> bool \<Rightarrow> (fpgaarq, unit) hal" where
  "trigger_experiment enable listen_global = hvoid (on_host (setSystime enable listen_global True))"

subsection \<open>Statistics of the FPGA\<close>

text \<open>\<open>stats_type\<close> is the transport's frame type of statistics. Each wait lets the environment deliver; the
  time limit is looked at before what was delivered.\<close>

definition stat_intervals :: "nat list" where
  "stat_intervals = [5, 10, 100, 500, 1000, 5000, 10000, 100000]"

definition stat_answer :: "u32 \<Rightarrow> frame \<Rightarrow> hal_error + u64" where
  "stat_answer stats_type p = (if pid p = stats_type then (if length (pdu p) = 1 then Inr (hd (pdu p)) else Inl Runtime_error) else Inl Runtime_error)"

function wait_stat :: "u32 \<Rightarrow> nat \<Rightarrow> nat \<Rightarrow> (hostal, u64) hal" where
  "wait_stat stats_type idx waited s =
    (case inbox s of
       p # ps \<Rightarrow> (stat_answer stats_type p, s\<lparr>inbox := ps\<rparr>)
     | [] \<Rightarrow>
         (let waited1 = waited + stat_intervals ! min idx 7;
              idx1 = (if min idx 7 + 1 < 8 then min idx 7 + 1 else min idx 7) in
          if waited1 > 100000 then (Inl Underflow_error, deliver s) else wait_stat stats_type idx1 waited1 (deliver s)))"
  by pat_completeness auto
termination
proof (relation "measure (\<lambda>(t, idx, waited, s). 100001 - waited)", goal_cases)
  case (2 stats_type idx waited s waited1 idx1)
  have "list_all (\<lambda>t. 0 < t) stat_intervals" "length stat_intervals = 8" by (simp_all add: stat_intervals_def)
  then have "0 < stat_intervals ! min idx 7" by (simp add: list_all_length)
  then show ?case using 2 by simp
qed simp

declare wait_stat.simps [simp del]

text \<open>The loop that waits for room to send ends as soon as the transport has some.\<close>

definition readStat :: "u32 \<Rightarrow> u64 \<Rightarrow> (hostal, u64) hal" where
  "readStat stats_type stat_id = (\<lambda>s.
     let ok = (case accepts s of [] \<Rightarrow> True | b # _ \<Rightarrow> b); s1 = s\<lparr>accepts := tl (accepts s)\<rparr> in
     if \<not> ok then (Inl Runtime_error, s1)
     else wait_stat stats_type 0 0 (s1\<lparr>sent := sent s @ [\<lparr>pid = stats_type, pdu = [stat_id]\<rparr>]\<rparr>))"

definition read_checked :: "u32 \<Rightarrow> u64 \<Rightarrow> (hostal, u64) hal" where
  "read_checked stats_type stat_id = (\<lambda>s. if \<not> arq_set s then (Inl Runtime_error, s) else readStat stats_type stat_id s)"

definition get_trace_pulse_count :: "u32 \<Rightarrow> (hostal, u64) hal" where "get_trace_pulse_count t = read_checked t 0"
definition get_pb_pulse_count :: "u32 \<Rightarrow> (hostal, u64) hal" where "get_pb_pulse_count t = read_checked t 1"
definition get_network_debug_reg_rx :: "u32 \<Rightarrow> (hostal, u64) hal" where "get_network_debug_reg_rx t = read_checked t 2"
definition get_network_debug_reg_tx :: "u32 \<Rightarrow> (hostal, u64) hal" where "get_network_debug_reg_tx t = read_checked t 3"
definition get_ul_packet_cnt_r :: "u32 \<Rightarrow> (hostal, u64) hal" where "get_ul_packet_cnt_r t = read_checked t 4"
definition get_ul_packet_cnt_w :: "u32 \<Rightarrow> (hostal, u64) hal" where "get_ul_packet_cnt_w t = read_checked t 5"

definition get_git_dirty_flag :: "u32 \<Rightarrow> (hostal, bool) hal" where
  "get_git_dirty_flag t = hbind (read_checked t 6) (\<lambda>stats. hret (stats AND 1 \<noteq> 0))"

definition get_bitfile_git_hash :: "u32 \<Rightarrow> (hostal, u32) hal" where
  "get_bitfile_git_hash t = hbind (read_checked t 6) (\<lambda>stats. hret (ucast (drop_bit 32 stats)))"

definition get_pb_release_error :: "u32 \<Rightarrow> (hostal, bool) hal" where
  "get_pb_release_error t = hbind (read_checked t 7) (\<lambda>stats. hret (stats AND 1 \<noteq> 0))"

definition get_pb2arq_fifo_overflow :: "u32 \<Rightarrow> (hostal, bool) hal" where
  "get_pb2arq_fifo_overflow t = hbind (read_checked t 7) (\<lambda>stats. hret (drop_bit 1 (stats AND 2) \<noteq> 0))"

text \<open>The counter is returned as a \<open>bool\<close>.\<close>

definition get_crc_counter :: "u32 \<Rightarrow> (hostal, bool) hal" where
  "get_crc_counter t = hbind (read_checked t 8) (\<lambda>stats. hret (stats \<noteq> 0))"

subsection \<open>The tables\<close>

lemma luts_fold:
  assumes "distinct ds"
  shows "let (d2j, j2d, k) = fold (lut_step av) ds (Map.empty, Map.empty, 0) in
    k = length (filter av ds) \<and> (\<forall>j d. j2d j = Some d \<longleftrightarrow> j < k \<and> filter av ds ! j = d) \<and> (\<forall>j d. d2j d = Some j \<longleftrightarrow> j2d j = Some d)"
  using assms
proof (induction ds rule: rev_induct)
  case (snoc x ds)
  obtain d2j j2d k where f: "fold (lut_step av) ds (Map.empty, Map.empty, 0) = (d2j, j2d, k)"
    by (cases "fold (lut_step av) ds (Map.empty, Map.empty, 0)")
  have ih: "k = length (filter av ds)" "\<And>j d. j2d j = Some d \<longleftrightarrow> j < k \<and> filter av ds ! j = d" "\<And>j d. d2j d = Some j \<longleftrightarrow> j2d j = Some d"
    using snoc.IH snoc.prems by (simp_all add: f)
  have "x \<notin> set (filter av ds)" using snoc.prems by simp
  then have new: "j2d j \<noteq> Some x" for j using ih(1,2) by (metis nth_mem)
  show ?case
  proof (cases "av x")
    case True
    have "(j2d(k \<mapsto> x)) j = Some d \<longleftrightarrow> j < k + 1 \<and> filter av (ds @ [x]) ! j = d" for j d
      using ih(1,2) True by (auto simp: nth_append less_Suc_eq)
    moreover have "(d2j(x \<mapsto> k)) d = Some j \<longleftrightarrow> (j2d(k \<mapsto> x)) j = Some d" for j d
      using ih new by auto
    moreover have "lut_step av x (d2j, j2d, k) = (d2j(x \<mapsto> k), j2d(k \<mapsto> x), k + 1)" using True by (simp add: lut_step_def)
    ultimately show ?thesis using ih(1) True by (simp add: f)
  next
    case False
    then have "lut_step av x (d2j, j2d, k) = (d2j, j2d, k)" by (simp add: lut_step_def)
    then show ?thesis using ih False by (simp add: f)
  qed
qed simp

text \<open>Claim C26: The two tables between fast links and positions in the JTAG chain are inverse to each other, and
  number the available HICANNs from 0, those with the higher link first.\<close>

lemma luts_inverse:
  "let (d2j, j2d, k) = create_luts available in
    (\<forall>d j. d2j d = Some j \<longleftrightarrow> j2d j = Some d) \<and> dom d2j = {d. d < 8 \<and> available d} \<and> dom j2d = {..<k} \<and>
    (\<forall>i j. i < j \<and> j < k \<longrightarrow> the (j2d j) < the (j2d i))"
proof -
  obtain d2j j2d k where f: "create_luts available = (d2j, j2d, k)" by (cases "create_luts available")
  define ds where "ds = filter available (rev [0..<8])"
  have l: "k = length ds" "\<And>j d. j2d j = Some d \<longleftrightarrow> j < k \<and> ds ! j = d" "\<And>j d. d2j d = Some j \<longleftrightarrow> j2d j = Some d"
    using luts_fold [of "rev [0..<8]" available] f by (simp_all add: create_luts_def ds_def)
  have "d \<in> dom d2j \<longleftrightarrow> d \<in> set ds" for d using l by (auto simp: in_set_conv_nth)
  then have "dom d2j = {d. d < 8 \<and> available d}" by (auto simp: ds_def)
  have "dom j2d = {..<k}" using l(2) by auto
  have "sorted_wrt (>) ds"
    unfolding ds_def by (rule sorted_wrt_filter) (simp only: sorted_wrt_rev sorted_wrt_upt)
  moreover have "the (j2d j) = ds ! j" if "j < k" for j
  proof -
    have "j2d j = Some (ds ! j)" using that l(1,2) by simp
    then show ?thesis by simp
  qed
  ultimately have "the (j2d j) < the (j2d i)" if "i < j" "j < k" for i j
    using that l(1) sorted_wrt_nth_less [of "(>)" ds i j] by auto
  with \<open>dom d2j = _\<close> \<open>dom j2d = _\<close>
  show ?thesis using l(3) by (simp add: f)
qed

theorem luts_inverse_witness:
  "the (fst (snd (create_luts (\<lambda>d. d \<noteq> 3))) 6) < the (fst (snd (create_luts (\<lambda>d. d \<noteq> 3))) 0)"
proof -
  have "snd (snd (create_luts (\<lambda>d. d \<noteq> 3))) = 7" by (simp add: create_luts_def lut_step_def upt_rec)
  then show ?thesis using luts_inverse [of "\<lambda>d. d \<noteq> 3"] by (simp add: case_prod_beta Let_def)
qed

subsection \<open>The order of commands\<close>

text \<open>What the transport was given of commands, and what still waits in the bulk.\<close>

definition stream :: "fpgaarq \<Rightarrow> u64 list" where
  "stream s = concat (map pdu (sent (hostalctrl s))) @ map config_word (hiconf_bulk_buffer (hostalctrl s))"

definition cmd_word :: "fpgaarq \<Rightarrow> nat \<times> u32 \<times> ci_payload \<Rightarrow> u64" where
  "cmd_word s c = (case c of (h, tagid, p) \<Rightarrow> hicann_word (command_word tagid p) (dncid s) (of_nat (the (jtag2dnc_lut s h))))"

text \<open>The counter is the number of commands that wait, and a frame of them never stays; the transport is there and
  takes every frame.\<close>

definition bulk_inv :: "fpgaarq \<Rightarrow> bool" where
  "bulk_inv s \<longleftrightarrow> unat (bulk s) = length (hiconf_bulk_buffer (hostalctrl s)) \<and> bulk s < max_bulk s \<and>
     arq_set (hostalctrl s) \<and> accepts (hostalctrl s) = []"

text \<open>What no command changes.\<close>

definition same_links :: "fpgaarq \<Rightarrow> fpgaarq \<Rightarrow> bool" where
  "same_links s s1 \<longleftrightarrow> dncid s1 = dncid s \<and> max_bulk s1 = max_bulk s \<and> link_states s1 = link_states s \<and>
     jtag2dnc_lut s1 = jtag2dnc_lut s \<and> hiconf_receive_buffer (hostalctrl s1) = hiconf_receive_buffer (hostalctrl s) \<and>
     inbox (hostalctrl s1) = inbox (hostalctrl s) \<and> later (hostalctrl s1) = later (hostalctrl s)"

definition link_up :: "fpgaarq \<Rightarrow> nat \<Rightarrow> bool" where
  "link_up s h \<longleftrightarrow> (case jtag2dnc_lut s h of None \<Rightarrow> False | Some d \<Rightarrow> link_states s d)"

lemma bulk_sent:
  assumes "arq_set h" "accepts h = []" "0 < n"
  shows "sendHICANNConfigBulk n h = (Inr True, h\<lparr>hiconf_bulk_buffer := [],
      sent := sent h @ map (\<lambda>c. \<lparr>pid = HICANNCONFIG, pdu = map config_word c\<rparr>) (chunks n (hiconf_bulk_buffer h))\<rparr>)"
  using assms by (simp add: bulk_frames Let_def)

lemma Flush_sent:
  assumes "arq_set (hostalctrl s)" "accepts (hostalctrl s) = []" "0 < n"
  shows "\<exists>s1. Flush_arq n s = (Inr (), s1) \<and> bulk s1 = 0 \<and> hiconf_bulk_buffer (hostalctrl s1) = [] \<and> stream s1 = stream s \<and>
    same_links s s1 \<and> arq_set (hostalctrl s1) \<and> accepts (hostalctrl s1) = []"
proof -
  let ?h = "hostalctrl s"
  let ?cs = "chunks n (hiconf_bulk_buffer ?h)"
  let ?h1 = "?h\<lparr>hiconf_bulk_buffer := [], sent := sent ?h @ map (\<lambda>c. \<lparr>pid = HICANNCONFIG, pdu = map config_word c\<rparr>) ?cs\<rparr>"
  have e: "sendHICANNConfigBulk n ?h1 = (Inr True, ?h1)"
    using bulk_sent [of ?h1 n] assms by (simp add: chunks.simps)
  have f: "Flush_arq n s = (Inr (), s\<lparr>hostalctrl := ?h1, bulk := 0\<rparr>)"
    using bulk_sent [OF assms] e
    by (simp add: Flush_arq_def hseq_def hbind_def hwhen_def hvoid_def on_host_def hmodify_def hret_def)
  have "concat (map (\<lambda>c. map config_word c) ?cs) = map config_word (hiconf_bulk_buffer ?h)"
    using concat_chunks [OF assms(3), of "hiconf_bulk_buffer ?h"] by (metis map_concat)
  then show ?thesis unfolding f using assms by (simp add: stream_def same_links_def comp_def)
qed

lemma issue_one:
  assumes "bulk_inv s" "0 < n" "link_up s h"
  shows "\<exists>s1. issueCommand_arq n h tagid p s = (Inr 1, s1) \<and> bulk_inv s1 \<and> same_links s s1 \<and>
    stream s1 = stream s @ [cmd_word s (h, tagid, p)]"
proof -
  obtain d where d: "jtag2dnc_lut s h = Some d" "link_states s d" using assms(3) by (auto simp: link_up_def split: option.splits)
  let ?s1 = "s\<lparr>hostalctrl := addHICANNConfigBulk (command_word tagid p) (dncid s) (of_nat d) (hostalctrl s), bulk := bulk s + 1\<rparr>"
  have st: "stream ?s1 = stream s @ [cmd_word s (h, tagid, p)]"
    by (simp add: stream_def addHICANNConfigBulk_def cmd_word_def config_word_def d(1))
  have same: "same_links s ?s1" by (simp add: same_links_def addHICANNConfigBulk_def)
  have t: "arq_set (hostalctrl ?s1)" "accepts (hostalctrl ?s1) = []" using assms(1) by (simp_all add: bulk_inv_def addHICANNConfigBulk_def)
  have lt: "unat (bulk s) < unat (max_bulk s)" using assms(1) by (simp add: bulk_inv_def word_less_nat_alt)
  have "unat (max_bulk s) < 2 ^ 32" using unsigned_less [of "max_bulk s", where 'a = nat] by simp
  then have b: "unat (bulk s + 1) = unat (bulk s) + 1" using lt by (simp add: unat_word_ariths(1))
  have i: "issueCommand_arq n h tagid p s = hseq (hwhen ((bulk s + 1) mod max_bulk s = 0) (Flush_arq n)) (hret 1) ?s1"
    using d lt by (auto simp: issueCommand_arq_def hbind_def jtag2dnc_def Let_def)
  show ?thesis
  proof (cases "unat (bulk s) + 1 = unat (max_bulk s)")
    case True
    then have "bulk s + 1 = max_bulk s" using b by (simp add: word_unat_eq_iff)
    then have m: "(bulk s + 1) mod max_bulk s = 0" by simp
    obtain s2 where s2: "Flush_arq n ?s1 = (Inr (), s2)" "bulk s2 = 0" "hiconf_bulk_buffer (hostalctrl s2) = []" "stream s2 = stream ?s1"
        "same_links ?s1 s2" "arq_set (hostalctrl s2)" "accepts (hostalctrl s2) = []"
      using Flush_sent [OF t assms(2)] by blast
    have "same_links s s2" using s2(5) same by (simp add: same_links_def)
    moreover have "bulk_inv s2" using s2 lt by (simp add: bulk_inv_def same_links_def word_less_nat_alt)
    ultimately show ?thesis using s2(1,4) st m by (simp add: i hseq_def hbind_def hwhen_def)
  next
    case False
    then have less: "unat (bulk s + 1) < unat (max_bulk s)" using lt b by simp
    then have "unat ((bulk s + 1) mod max_bulk s) = unat (bulk s + 1)" by (simp add: unat_mod)
    then have "unat ((bulk s + 1) mod max_bulk s) \<noteq> unat 0" using b by simp
    then have "(bulk s + 1) mod max_bulk s \<noteq> 0" by metis
    moreover have "bulk_inv ?s1" using assms(1) less b by (simp add: bulk_inv_def addHICANNConfigBulk_def word_less_nat_alt)
    ultimately show ?thesis using st same by (simp add: i hseq_def hbind_def hwhen_def)
  qed
qed

abbreviation issue_all :: "nat \<Rightarrow> (nat \<times> u32 \<times> ci_payload) list \<Rightarrow> (fpgaarq, unit) hal" where
  "issue_all n cs \<equiv> hfor cs (\<lambda>(h, tagid, p). hvoid (issueCommand_arq n h tagid p))"

lemma issue_stream:
  assumes "bulk_inv s" "0 < n" "\<forall>(h, tagid, p) \<in> set cs. link_up s h"
  shows "\<exists>s1. issue_all n cs s = (Inr (), s1) \<and> bulk_inv s1 \<and> same_links s s1 \<and> stream s1 = stream s @ map (cmd_word s) cs"
  using assms
proof (induction cs arbitrary: s)
  case Nil
  then show ?case by (simp add: same_links_def)
next
  case (Cons c cs)
  obtain h t p where c: "c = (h, t, p)" by (cases c)
  have "link_up s h" using Cons.prems(3) by (simp add: c)
  from issue_one [OF Cons.prems(1,2) this, of t p]
  obtain s1 where s1: "issueCommand_arq n h t p s = (Inr 1, s1)" "bulk_inv s1" "same_links s s1" "stream s1 = stream s @ [cmd_word s c]"
    by (auto simp: c)
  have "cmd_word s1 = cmd_word s" "link_up s1 = link_up s" using s1(3) by (intro ext; simp add: cmd_word_def link_up_def same_links_def split: option.split)+
  then have "\<forall>(h, tagid, p) \<in> set cs. link_up s1 h" using Cons.prems(3) by auto
  from Cons.IH [OF s1(2) Cons.prems(2) this]
  obtain s2 where s2: "issue_all n cs s1 = (Inr (), s2)" "bulk_inv s2" "same_links s1 s2" "stream s2 = stream s1 @ map (cmd_word s1) cs" by blast
  have "same_links s s2" using s1(3) s2(3) by (simp add: same_links_def)
  then show ?case using s1 s2 \<open>cmd_word s1 = cmd_word s\<close> by (simp add: c hseq_def hbind_def hvoid_def)
qed


definition demo_arq :: fpgaarq where
  "demo_arq = \<lparr>hostalctrl = demo_host\<lparr>hiconf_bulk_buffer := []\<rparr>, bulk = 0, max_bulk = 2, dncid = 1, link_states = (\<lambda>d. True),
     jtag2dnc_lut = fst (snd (create_luts (\<lambda>d. True))), jtag_bus = (\<lambda>h. \<lparr>issued = [], rxdata = (\<lambda>t. []), env = []\<rparr>)\<rparr>"

lemma demo_lut: "jtag2dnc_lut demo_arq 0 = Some 7" "jtag2dnc_lut demo_arq 5 = Some 2"
  by (simp_all add: demo_arq_def create_luts_def lut_step_def upt_rec)


subsection \<open>Reading\<close>

text \<open>The word of an answer of the chip: address and data, tag, and where it comes from.\<close>

definition answer_word :: "u32 \<Rightarrow> u32 \<Rightarrow> u32 \<Rightarrow> u16 \<Rightarrow> u32 \<Rightarrow> u64" where
  "answer_word dnc hic tagid a d = hicann_word (push_bit 49 (ucast (tagid AND 1)) OR push_bit 32 (ucast a) OR ucast d) dnc hic"

lemma answer_fields:
  "ucast (drop_bit 32 (get_field 0 49 (answer_word dnc hic tagid a d)) AND 0xffff) = a"
  "ucast (get_field 0 49 (answer_word dnc hic tagid a d)) = d"
  "queue_of_word (answer_word dnc hic tagid a d) = config_queue dnc hic tagid"
proof -
  have m: "(0xffff :: u64) = mask 16" "(1 :: u32) = mask 1" by (simp_all add: mask_eq_exp_minus_1)
  let ?v = "push_bit 49 (ucast (tagid AND 1)) OR push_bit 32 (ucast a) OR ucast d :: u64"
  have b: "bit ?v n \<longleftrightarrow> n = 49 \<and> bit tagid 0 \<or> 32 \<le> n \<and> n < 48 \<and> bit a (n - 32) \<or> n < 32 \<and> bit d n" for n
    unfolding m bit_or_iff bit_push_bit_iff bit_ucast_iff bit_and_iff bit_mask_iff
    using bit_imp_le_length [of a "n - 32"] bit_imp_le_length [of d n] by auto
  have g: "get_field 0 49 (answer_word dnc hic tagid a d) = get_field 0 49 ?v" by (simp only: answer_word_def dest_fields)
  show "ucast (drop_bit 32 (get_field 0 49 (answer_word dnc hic tagid a d)) AND 0xffff) = a"
    unfolding g m by (rule bit_word_eqI) (auto simp: bit_ucast_iff bit_drop_bit_eq bit_and_iff bit_mask_iff bit_get_field b)
  show "ucast (get_field 0 49 (answer_word dnc hic tagid a d)) = d"
    unfolding g by (rule bit_word_eqI) (auto simp: bit_ucast_iff bit_get_field b)
  have "bit ?v 49 \<longleftrightarrow> bit tagid 0" by (simp add: b)
  moreover have "of_bool (bit tagid 0) = tagid AND 1" by (rule bit_word_eqI) (auto simp: bit_and_iff bit_1_iff bit_of_bool_iff)
  ultimately show "queue_of_word (answer_word dnc hic tagid a d) = config_queue dnc hic tagid"
    unfolding answer_word_def queue_of_command by (simp add: config_queue_def)
qed

text \<open>Receiving and waiting send nothing.\<close>

lemma receive_packet_sent: "sent (receive_packet p s) = sent s"
proof -
  have c: "sent (fold receive_config ws s) = sent s" for ws s by (induction ws arbitrary: s) (simp_all add: receive_config_def)
  have p: "sent (trace_pulse w i s) = sent s" for w i s by (simp add: trace_pulse_def Let_def)
  have "sent (trace_entry w s) = sent s" for w s by (simp add: trace_entry_def Let_def p)
  then have t: "sent (fold trace_entry ws s) = sent s" for ws s by (induction ws arbitrary: s) simp_all
  show ?thesis by (simp add: receive_packet_def c t)
qed

lemma fill_sent: "sent (fill_receive_buffer s) = sent s"
proof -
  have "sent (fold receive_packet ps s) = sent s" for ps s by (induction ps arbitrary: s) (simp_all add: receive_packet_sent)
  then show ?thesis by (simp add: fill_receive_buffer_def)
qed

lemma wait_config_sent: "sent (snd (wait_config q limit idx waited s)) = sent s"
proof (induction q limit idx waited s rule: wait_config.induct)
  case (1 q limit idx waited s)
  have d: "sent (deliver s) = sent s" by (simp add: deliver_def split: list.split)
  show ?case
  proof (cases "hiconf_receive_buffer s q")
    case Nil
    let ?s2 = "fill_receive_buffer (if inbox s = [] then deliver s else s)"
    have s2: "sent ?s2 = sent s" by (simp add: fill_sent d)
    show ?thesis
    proof (cases "hiconf_receive_buffer ?s2 q")
      case Nil2: Nil
      then show ?thesis using 1 [OF Nil refl refl refl refl refl Nil2] s2 Nil
        by (subst wait_config.simps) (auto simp: Let_def split: if_splits)
    next
      case (Cons x xs)
      then show ?thesis using s2 Nil by (subst wait_config.simps) (simp add: Let_def)
    qed
  qed (subst wait_config.simps, simp)
qed

text \<open>Claim C28: A read flushes what waits and returns address and data of the oldest answer of that HICANN and tag,
  when the frame with it arrives after \<open>k\<close> waits that fit the timeout. When it does not, the read returns address
  and data 0 as if they had been answered.\<close>

theorem read_answered:
  assumes "bulk_inv s" "0 < n" "jtag2dnc_lut s h = Some l" "link_states s l" "l < 8" "dncid s \<le> 3"
    "hiconf_receive_buffer (hostalctrl s) (config_queue (dncid s) (of_nat l) tagid) = []" "inbox (hostalctrl s) = []"
    "later (hostalctrl s) = replicate k [] @ [\<lparr>pid = HICANNCONFIG, pdu = [answer_word (dncid s) (of_nat l) tagid a d]\<rparr>] # rest"
  shows "\<exists>s1. recvData_arq n h tagid s = (Inr (if waits 0 k \<le> default_timeout then (a, d) else (0, 0)), s1) \<and>
    concat (map pdu (sent (hostalctrl s1))) = stream s"
proof -
  obtain s1 where s1: "Flush_arq n s = (Inr (), s1)" "hiconf_bulk_buffer (hostalctrl s1) = []" "stream s1 = stream s" "same_links s s1"
    using Flush_sent [of s n] assms(1,2) by (auto simp: bulk_inv_def)
  have eq: "dncid s1 = dncid s" "inbox (hostalctrl s1) = inbox (hostalctrl s)" "later (hostalctrl s1) = later (hostalctrl s)"
      "hiconf_receive_buffer (hostalctrl s1) = hiconf_receive_buffer (hostalctrl s)"
    using s1(4) by (simp_all add: same_links_def)
  have hic: "(of_nat l :: u32) \<le> 7" using assms(5) by (simp add: word_le_nat_alt unat_of_nat)
  let ?q = "config_queue (dncid s) (of_nat l) tagid" and ?h = "hostalctrl s1"
  have w: "fst (wait_config ?q default_timeout 0 0 ?h) = (if waits 0 k \<le> default_timeout
      then Some (get_field 0 49 (answer_word (dncid s) (of_nat l) tagid a d)) else None)"
    using wait_config_late [of 0 ?h ?q 0 default_timeout k "[answer_word (dncid s) (of_nat l) tagid a d]" rest "answer_word (dncid s) (of_nat l) tagid a d" "[]"]
      assms(7-9) by (simp add: eq answer_fields)
  obtain h1 where h1: "wait_config ?q default_timeout 0 0 ?h = (if waits 0 k \<le> default_timeout
      then Some (get_field 0 49 (answer_word (dncid s) (of_nat l) tagid a d)) else None, h1)"
    using w by (cases "wait_config ?q default_timeout 0 0 ?h") simp
  have sent: "sent h1 = sent ?h" using wait_config_sent [of ?q default_timeout 0 0 ?h] by (simp add: h1)
  have g: "getReceivedHICANNConfig (dncid s) (of_nat l) tagid default_timeout ?h
      = (Inr (if waits 0 k \<le> default_timeout then get_field 0 49 (answer_word (dncid s) (of_nat l) tagid a d) else 0), h1)"
  proof -
    have "\<not> dncid s > 3" "\<not> (of_nat l :: u32) > 7" using assms(6) hic by (simp_all only: not_less)
    then show ?thesis by (simp add: getReceivedHICANNConfig_def h1)
  qed
  have "recvData_arq n h tagid s = (Inr (if waits 0 k \<le> default_timeout then (a, d) else (0, 0)), s1\<lparr>hostalctrl := h1\<rparr>)"
    using assms(3,4) s1(1) g
    by (simp add: recvData_arq_def hseq_def hbind_def jtag2dnc_def on_host_def eq answer_fields)
  then show ?thesis using sent s1(2,3) by (simp add: stream_def)
qed

text \<open>The last interval is repeated.\<close>

lemma waits_9: "waits 9 k = 500000 * k"
  by (induction k) (simp_all add: sleep_intervals_def)

lemma waits_long: "waits 0 (9 + k) = 166615 + 500000 * k"
proof -
  have "9 + k = Suc (Suc (Suc (Suc (Suc (Suc (Suc (Suc (Suc k))))))))" by simp
  moreover have "Suc (Suc (Suc (Suc (Suc (Suc (Suc (Suc (Suc 0)))))))) = (9 :: nat)" by simp
  then have "waits (Suc (Suc (Suc (Suc (Suc (Suc (Suc (Suc (Suc 0))))))))) k = 500000 * k" by (simp only: waits_9)
  ultimately show ?thesis by (simp only: waits.simps) (simp add: sleep_intervals_def)
qed

theorem read_answered_witness:
  "let f = \<lparr>pid = HICANNCONFIG, pdu = [answer_word 1 2 0 0x1234 99]\<rparr>;
       s = (\<lambda>k. demo_arq\<lparr>hostalctrl := (hostalctrl demo_arq)\<lparr>later := replicate k [] @ [f] # []\<rparr>\<rparr>) in
    fst (recvData_arq 2 5 0 (s 2)) = Inr (0x1234, 99) \<and> fst (recvData_arq 2 5 0 (s 60)) = Inr (0, 0)"
proof -
  let ?f = "\<lparr>pid = HICANNCONFIG, pdu = [answer_word 1 2 0 0x1234 99]\<rparr>"
  let ?s = "\<lambda>k. demo_arq\<lparr>hostalctrl := (hostalctrl demo_arq)\<lparr>later := replicate k [] @ [?f] # []\<rparr>\<rparr>"
  have h: "bulk_inv (?s k)" "0 < (2 :: nat)" "jtag2dnc_lut (?s k) 5 = Some 2" "link_states (?s k) 2" "(2 :: nat) < 8" "dncid (?s k) \<le> 3"
      "hiconf_receive_buffer (hostalctrl (?s k)) (config_queue (dncid (?s k)) (of_nat 2) 0) = []" "inbox (hostalctrl (?s k)) = []"
      "later (hostalctrl (?s k)) = replicate k [] @ [\<lparr>pid = HICANNCONFIG, pdu = [answer_word (dncid (?s k)) (of_nat 2) 0 0x1234 99]\<rparr>] # []" for k
    using demo_lut(2) by (simp_all add: bulk_inv_def demo_arq_def demo_host_def)
  have "fst (recvData_arq 2 5 0 (?s k)) = Inr (if waits 0 k \<le> default_timeout then (0x1234, 99) else (0, 0))" for k
    using read_answered [OF h] by (metis fst_conv)
  moreover have "waits 0 2 \<le> default_timeout" by (simp add: numeral_2_eq_2 sleep_intervals_def default_timeout_def)
  moreover have "\<not> waits 0 60 \<le> default_timeout" using waits_long [of 51] by (simp add: default_timeout_def)
  ultimately show ?thesis unfolding Let_def by (simp only: if_True if_False)
qed

subsection \<open>A statistics value in time\<close>

text \<open>The time the first \<open>j\<close> waits take.\<close>

definition stat_waited :: "nat \<Rightarrow> nat" where
  "stat_waited j = sum_list (take j stat_intervals)"

lemma stat_cases: "j < 7 \<Longrightarrow> j = 0 \<or> j = 1 \<or> j = 2 \<or> j = 3 \<or> j = 4 \<or> j = 5 \<or> j = (6 :: nat)"
  by auto

lemma stat_wait:
  assumes "inbox s = []"
  shows "j < 7 \<Longrightarrow> wait_stat t j (stat_waited j) s = wait_stat t (j + 1) (stat_waited (j + 1)) (deliver s)"
    "wait_stat t 7 (stat_waited 7) s = (Inl Underflow_error, deliver s)"
proof -
  assume "j < 7"
  then show "wait_stat t j (stat_waited j) s = wait_stat t (j + 1) (stat_waited (j + 1)) (deliver s)"
    using assms by (subst wait_stat.simps) (auto simp: Let_def stat_waited_def stat_intervals_def dest!: stat_cases)
next
  show "wait_stat t 7 (stat_waited 7) s = (Inl Underflow_error, deliver s)"
    using assms by (subst wait_stat.simps) (simp add: Let_def stat_waited_def stat_intervals_def)
qed

lemma stat_early:
  assumes "j + k < 7" "inbox s = []" "later s = replicate k [] @ [p] # rest"
  shows "wait_stat t j (stat_waited j) s = (stat_answer t p, s\<lparr>later := rest\<rparr>)"
  using assms
proof (induction k arbitrary: j s)
  case 0
  then have "deliver s = s\<lparr>inbox := [p], later := rest\<rparr>" by (simp add: deliver_def)
  then show ?case using 0 stat_wait(1) [of s j t] by (simp add: wait_stat.simps)
next
  case (Suc k)
  have "deliver s = s\<lparr>later := replicate k [] @ [p] # rest\<rparr>" using Suc.prems by (simp add: deliver_def)
  then show ?case using Suc.prems stat_wait(1) [of s j t] Suc.IH [of "j + 1" "deliver s"] by simp
qed

lemma stat_late:
  assumes "j \<le> 7" "inbox s = []" "later s = replicate (7 - j) [] @ pss"
  shows "wait_stat t j (stat_waited j) s = (Inl Underflow_error, deliver (s\<lparr>later := pss\<rparr>))"
  using assms
proof (induction "7 - j" arbitrary: j s)
  case 0
  then have "j = 7" "later s = pss" by simp_all
  then have "s\<lparr>later := pss\<rparr> = s" by (cases s) simp
  then have "deliver (s\<lparr>later := pss\<rparr>) = deliver s" by (rule arg_cong)
  then show ?case using 0 stat_wait(2) [of s t] by simp
next
  case (Suc m)
  then have j: "j < 7" "m = 7 - (j + 1)" by simp_all
  have "deliver s = s\<lparr>later := replicate m [] @ pss\<rparr>" using Suc.prems(2,3)
    unfolding Suc.hyps(2) [symmetric] by (simp add: deliver_def)
  then show ?case using Suc.prems stat_wait(1) [of s j t] Suc.hyps(1) [OF j(2), of "deliver s"] j by simp
qed

text \<open>Claim C29: A statistics register is requested with one frame, and its value is returned when the answer arrives
  within the first seven waits (16.6 of the 100 milliseconds). The eighth wait is made but its result
  is not looked at: the request ends in an exception, and an answer that came in that wait is taken for the
  answer to the next request, whatever register this asks for.\<close>

theorem stat_in_time:
  assumes "arq_set h" "accepts h = []" "inbox h = []" "later h = replicate k [] @ [p] # rest"
  shows "\<exists>h1. read_checked t i h = (if k < 7 then stat_answer t p else Inl Underflow_error, h1) \<and>
    sent h1 = sent h @ [\<lparr>pid = t, pdu = [i]\<rparr>] \<and> (k = 7 \<longrightarrow> fst (read_checked t j h1) = stat_answer t p)"
proof -
  let ?s = "h\<lparr>accepts := [], sent := sent h @ [\<lparr>pid = t, pdu = [i]\<rparr>]\<rparr>"
  have w0: "stat_waited 0 = 0" by (simp add: stat_waited_def)
  have r: "read_checked t i h = wait_stat t 0 (stat_waited 0) ?s"
    using assms(1,2) by (simp add: read_checked_def readStat_def Let_def w0)
  show ?thesis
  proof (cases "k < 7")
    case True
    then show ?thesis using stat_early [of 0 k ?s p rest t] assms(3,4) by (simp add: r)
  next
    case False
    define pss where "pss = replicate (k - 7) [] @ [p] # rest"
    have "replicate k ([] :: frame list) = replicate 7 [] @ replicate (k - 7) []" using False by (simp flip: replicate_add)
    then have "later ?s = replicate (7 - 0) [] @ pss" using assms(4) by (simp add: pss_def)
    from stat_late [OF _ _ this, of t] have w: "wait_stat t 0 (stat_waited 0) ?s = (Inl Underflow_error, deliver (?s\<lparr>later := pss\<rparr>))"
      using assms(3) by simp
    let ?h1 = "deliver (?s\<lparr>later := pss\<rparr>)"
    have s: "sent ?h1 = sent ?s" "arq_set ?h1" "accepts ?h1 = []" using assms(1) by (simp_all add: deliver_def split: list.split)
    have "fst (read_checked t j ?h1) = stat_answer t p" if "k = 7"
    proof -
      have "inbox ?h1 = [p]" using that assms(3) by (simp add: pss_def deliver_def)
      then show ?thesis using s by (simp add: read_checked_def readStat_def Let_def wait_stat.simps)
    qed
    then show ?thesis using False s(1) by (simp add: r w)
  qed
qed

theorem stat_in_time_witness:
  "let late = demo_host\<lparr>hiconf_bulk_buffer := [], later := replicate 7 [] @ [\<lparr>pid = 9, pdu = [42]\<rparr>] # []\<rparr> in
    fst (read_checked 9 0 late) = Inl Underflow_error \<and> fst (read_checked 9 5 (snd (read_checked 9 0 late))) = Inr 42"
proof -
  let ?p = "\<lparr>pid = 9, pdu = [42]\<rparr> :: frame"
  let ?late = "demo_host\<lparr>hiconf_bulk_buffer := [], later := replicate 7 [] @ [?p] # []\<rparr>"
  have "arq_set ?late" "accepts ?late = []" "inbox ?late = []" "later ?late = replicate 7 [] @ [?p] # []" by (simp_all add: demo_host_def)
  from stat_in_time [OF this, of 9 0 5] show ?thesis by (auto simp: Let_def stat_answer_def)
qed

end
