(* ===== verification/Linklayer.thy ===== *)
theory Linklayer
  imports Arq_Props Packets
begin

text \<open>
  The software transport of one HICANN: two link layers (\<open>linklayer.h\<close>), one per tag, over the packet functions of
  \<open>Stage2Comm\<close> (\<open>s2comm.h\<close>, \<open>s2comm.cpp\<close>), which talk to the chip through a medium: words are written to it, and a
  register that keeps its content is read from it. The results, for a chip whose ends run the same protocol: commands
  and answers are delivered in order, without loss or repetition; every call returns; and the transport is one of
  those the control modules are modelled over.
\<close>

subsection \<open>Packets on the wire\<close>

text \<open>The packet type of the ARQ is a parameter of its template; here it is \<open>ARQPacketStage2\<close>. Its bytes are read as the
  word of a \<open>ci_packet_t\<close> on a little-endian host.\<close>

definition to_stage2 :: "ci_payload packet \<Rightarrow> arq_packet" where
  "to_stage2 p = \<lparr>atag = ptag p, aseqvalid = seqvalid p, aseq = pseq p, aack = pack p, adata = pdata p\<rparr>"

definition sent_word :: "ci_payload packet \<Rightarrow> u64" where
  "sent_word p = to_uint64 (of_uint64 (from_bytes 8 (arq_GetRaw_bytes (to_stage2 p))))"

text \<open>What \<open>Stage2Comm::Read\<close> makes of the packet read last.\<close>

definition read_packet :: "ci_packet_t \<Rightarrow> ci_payload packet" where
  "read_packet c = \<lparr>ptag = TagID c, seqvalid = SeqValid c \<noteq> 0, pseq = Seq c, pack = Ack c,
     pdata = \<lparr>pwrite = Write c, paddr = Addr c, pdat = Data c\<rparr>\<rparr>"

subsection \<open>State\<close>

record link =
  arq :: "ci_payload arq"
  issued_cmds :: u64

definition max_issued_cmds :: u64 where "max_issued_cmds = 16"

text \<open>What \<open>Stage2Comm\<close> keeps for one HICANN, its two link layers, and the medium's state.\<close>

record 'e s2comm =
  link_layers :: "nat \<Rightarrow> link"
  readdata :: ci_packet_t
  lastread :: ci_packet_t
  valid :: bool
  rx :: "nat \<Rightarrow> ci_payload list"
  dev :: 'e

text \<open>The medium: \<open>Send\<close> and \<open>Receive\<close> of the class that implements them, for this HICANN, both always successful; and
  what a packet holds that nobody has filled.\<close>

record 'e medium =
  Send_word :: "u64 \<Rightarrow> 'e \<Rightarrow> 'e"
  Receive_word :: "'e \<Rightarrow> u64 \<times> 'e"
  blank_packet :: "ci_payload packet"

definition upd_link :: "nat \<Rightarrow> (link \<Rightarrow> link) \<Rightarrow> 'e s2comm \<Rightarrow> 'e s2comm" where
  "upd_link t f s = s\<lparr>link_layers := (link_layers s)(t := f (link_layers s t))\<rparr>"

definition set_arq :: "nat \<Rightarrow> ci_payload arq \<Rightarrow> 'e s2comm \<Rightarrow> 'e s2comm" where
  "set_arq t a = upd_link t (\<lambda>l. l\<lparr>arq := a\<rparr>)"

abbreviation arq_of :: "'e s2comm \<Rightarrow> nat \<Rightarrow> ci_payload arq" where
  "arq_of s t \<equiv> arq (link_layers s t)"

definition LinkLayer_new :: "ci_payload arq \<Rightarrow> nat \<Rightarrow> link" where
  "LinkLayer_new mem t = \<lparr>arq = ARQ_new mem \<lparr>pwrite = 0, paddr = 0, pdat = 0\<rparr> (of_nat t) SEQ_SIZE WND_SIZE SEND_TIMEOUT RECV_TIMEOUT,
     issued_cmds = 0\<rparr>"

subsection \<open>Packet functions of \<open>Stage2Comm\<close>\<close>

definition s2_Send :: "'e medium \<Rightarrow> ci_payload packet \<Rightarrow> 'e s2comm \<Rightarrow> 'e s2comm" where
  "s2_Send m p s = s\<lparr>dev := Send_word m (sent_word p) (dev s)\<rparr>"

definition s2_Receive :: "'e medium \<Rightarrow> 'e s2comm \<Rightarrow> 'e s2comm" where
  "s2_Receive m s = (case Receive_word m (dev s) of (w, e) \<Rightarrow> s\<lparr>dev := e, readdata := of_uint64 w\<rparr>)"

definition fresh :: "nat \<Rightarrow> 'e s2comm \<Rightarrow> bool" where
  "fresh t s \<longleftrightarrow> readdata s \<noteq> lastread s \<and> TagID (readdata s) = of_nat t"

definition s2_HasReadData :: "'e medium \<Rightarrow> nat \<Rightarrow> 'e s2comm \<Rightarrow> bool \<times> 'e s2comm" where
  "s2_HasReadData m t s =
     (if valid s then (True, s)
      else let s = s2_Receive m s in if fresh t s then (True, s\<lparr>lastread := readdata s, valid := True\<rparr>) else (False, s))"

definition s2_Read :: "'e medium \<Rightarrow> nat \<Rightarrow> 'e s2comm \<Rightarrow> ci_payload packet option \<times> 'e s2comm" where
  "s2_Read m t s =
     (let s = (if \<not> valid s then let s = s2_Receive m s in s\<lparr>valid := fresh t s, lastread := readdata s\<rparr> else s) in
      if valid s then (Some (read_packet (lastread s)), s\<lparr>valid := False\<rparr>) else (None, s))"

text \<open>\<open>Clear\<close> takes what the register holds as read.\<close>

definition s2_Clear :: "'e medium \<Rightarrow> 'e s2comm \<Rightarrow> 'e s2comm" where
  "s2_Clear m s = (let s = s2_Receive m s in s\<lparr>lastread := readdata s, valid := False\<rparr>)"

subsection \<open>The link layer\<close>

text \<open>\<open>Exec\<close> with its parts. The packet that is sent is the one the ARQ fills, when it fills one.\<close>

definition exec_send :: "'e medium \<Rightarrow> nat \<Rightarrow> 'e s2comm \<Rightarrow> 'e s2comm" where
  "exec_send m t s = (case GetSendData (arq_of s t) of (q, a) \<Rightarrow>
     let p = (case q of None \<Rightarrow> blank_packet m | Some p \<Rightarrow> p) in
     upd_link t (\<lambda>l. l\<lparr>issued_cmds := (if pwrite (pdata p) \<noteq> 0 then issued_cmds l + 1 else max_issued_cmds + 1)\<rparr>)
       (s2_Send m p (set_arq t a s)))"

definition exec_tick :: "nat \<Rightarrow> 'e s2comm \<Rightarrow> 'e s2comm" where
  "exec_tick t s = set_arq t (arq_Tick (arq_of s t)) s"

text \<open>\<open>None\<close> stands for a call of the ARQ that does not return.\<close>

definition exec_receive :: "'e medium \<Rightarrow> nat \<Rightarrow> 'e s2comm \<Rightarrow> 'e s2comm option" where
  "exec_receive m t s =
     (if issued_cmds (link_layers s t) \<ge> max_issued_cmds then
        case s2_HasReadData m t s of (b, s) \<Rightarrow>
          if b then
            case s2_Read m t (upd_link t (\<lambda>l. l\<lparr>issued_cmds := 0\<rparr>) s) of
              (None, s) \<Rightarrow> Some s
            | (Some p, s) \<Rightarrow> map_option (\<lambda>a. set_arq t a s) (Receive p (arq_of s t))
          else Some s
      else Some s)"

definition exec_rest :: "'e medium \<Rightarrow> nat \<Rightarrow> 'e s2comm \<Rightarrow> 'e s2comm option" where
  "exec_rest m t s = map_option (exec_tick t) (exec_receive m t (exec_tick t s))"

definition Exec_callback :: "'e medium \<Rightarrow> nat \<Rightarrow> 'e s2comm \<Rightarrow> 'e s2comm option" where
  "Exec_callback m t s = exec_rest m t (if HasSendData (arq_of s t) then exec_send m t s else s)"

text \<open>The other link layer is served until it has nothing to send.\<close>

definition conc_ll :: "nat \<Rightarrow> nat" where
  "conc_ll t = (t + 1) mod 2"

definition other_more :: "nat \<Rightarrow> 'e s2comm option \<Rightarrow> bool" where
  "other_more t r \<longleftrightarrow> (case r of None \<Rightarrow> False | Some s \<Rightarrow> HasSendData (arq_of s (conc_ll t)))"

definition serve_other :: "'e medium \<Rightarrow> nat \<Rightarrow> 'e s2comm \<Rightarrow> 'e s2comm option" where
  "serve_other m t s = Option.bind (while_option (other_more t) (\<lambda>r. Option.bind r (Exec_callback m (conc_ll t))) (Some s)) id"

definition Exec :: "'e medium \<Rightarrow> nat \<Rightarrow> 'e s2comm \<Rightarrow> 'e s2comm option" where
  "Exec m t s =
     (if HasSendData (arq_of s t) then Option.bind (serve_other m t s) (\<lambda>s. exec_rest m t (exec_send m t s))
      else exec_rest m t s)"

definition link_Send :: "'e medium \<Rightarrow> nat \<Rightarrow> ci_payload \<Rightarrow> 'e s2comm \<Rightarrow> (int \<times> 'e s2comm) option" where
  "link_Send m t p s = (case Send p (arq_of s t) of (r, a) \<Rightarrow> map_option (Pair r) (Exec m t (set_arq t a s)))"

definition link_Read :: "nat \<Rightarrow> 'e s2comm \<Rightarrow> (ci_payload \<times> 'e s2comm) option" where
  "link_Read t s = map_option (\<lambda>(x, a). (x, set_arq t a s)) (Read (arq_of s t))"

definition not_done :: "nat \<Rightarrow> 'e s2comm option \<Rightarrow> bool" where
  "not_done t r \<longleftrightarrow> (case r of None \<Rightarrow> False | Some s \<Rightarrow> \<not> SendDone (arq_of s t))"

definition link_SendFlush :: "'e medium \<Rightarrow> nat \<Rightarrow> 'e s2comm \<Rightarrow> 'e s2comm option" where
  "link_SendFlush m t s = Option.bind (while_option (not_done t) (\<lambda>r. Option.bind r (Exec m t)) (Some s)) id"

subsection \<open>Commands\<close>

definition s2_issueCommand :: "'e medium \<Rightarrow> nat \<Rightarrow> ci_payload \<Rightarrow> 'e s2comm \<Rightarrow> ((hal_error + int) \<times> 'e s2comm) option" where
  "s2_issueCommand m t p s = Option.bind (link_Send m t p s) (\<lambda>(r, s).
     if r \<noteq> 1 then Some (Inl Runtime_error, s)
     else if HasReadData (arq_of s t) then
       map_option (\<lambda>(rd, s). (Inr 1, s\<lparr>rx := (rx s)(t := rx s t @ [rd])\<rparr>)) (link_Read t s)
     else Some (Inr 1, s))"

definition s2_recvData :: "nat \<Rightarrow> ('e s2comm, ci_payload) hal" where
  "s2_recvData t s = (case rx s t of [] \<Rightarrow> (Inl Runtime_error, s) | d # ds \<Rightarrow> (Inr d, s\<lparr>rx := (rx s)(t := ds)\<rparr>))"

definition s2_Flush :: "'e medium \<Rightarrow> 'e s2comm \<Rightarrow> 'e s2comm option" where
  "s2_Flush m s = Option.bind (Exec m 0 s) (Exec m 1)"

text \<open>The resets of the software ARQs at the end of an initialisation.\<close>

definition reset_links :: "'e s2comm \<Rightarrow> 'e s2comm" where
  "reset_links s = s\<lparr>link_layers := (\<lambda>t. (link_layers s t)\<lparr>arq := Reset (arq_of s t)\<rparr>)\<rparr>"

subsection \<open>Facts on packets\<close>

text \<open>What fits the fields of the word.\<close>

definition fits :: "ci_payload packet \<Rightarrow> bool" where
  "fits p \<longleftrightarrow> ptag p < 4 \<and> pseq p < 64 \<and> pack p < 64 \<and> pwrite (pdata p) < 2"

definition from_stage2 :: "arq_packet \<Rightarrow> ci_payload packet" where
  "from_stage2 q = \<lparr>ptag = atag q, seqvalid = aseqvalid q, pseq = aseq q, pack = aack q, pdata = adata q\<rparr>"

lemma sent_word_eq: "sent_word p = arq_word (to_stage2 p)"
  by (simp add: sent_word_def arq_GetRaw_bytes_def arq_size_def bytes_roundtrip take_bit_word_eq_self)

lemma read_packet_word: "read_packet (of_uint64 w) = from_stage2 (arq_GetRaw w)"
proof -
  have "get_field 61 1 w = of_bool (bit w 61)" by (rule bit_word_eqI) (auto simp: bit_get_field bit_1_iff)
  then have "(ucast (get_field 61 1 w) :: u32) = 0 \<longleftrightarrow> get_field 61 1 w = 0" by simp
  then show ?thesis by (simp add: read_packet_def of_uint64_def from_stage2_def arq_GetRaw_def)
qed

lemma wire_roundtrip: "fits p \<Longrightarrow> read_packet (of_uint64 (sent_word p)) = p"
  by (simp add: read_packet_word sent_word_eq arq_word_roundtrip fits_def to_stage2_def from_stage2_def)

lemma tag_of_word: "fits p \<Longrightarrow> TagID (of_uint64 (sent_word p)) = ptag p"
  using wire_roundtrip [of p] by (metis packet.select_convs(1) read_packet_def)

subsection \<open>A chip\<close>

text \<open>
  The other side, which is not part of the program: two ends of the protocol in the chip, the words on their way to
  each, the register the host reads, whether the chip has written it, and what its user has sent and read. Before
  every access of the host the chip does what the next entry of its plan lists; any plan is allowed.
\<close>

datatype chip_act = Deliver nat | Lose nat | Emit nat | Answer nat ci_payload | Fetch nat | Count nat

record chip =
  chip_arq :: "nat \<Rightarrow> ci_payload arq"
  to_chip :: "nat \<Rightarrow> ci_payload packet list"
  reg :: u64
  live :: bool
  chip_sent :: "nat \<Rightarrow> ci_payload list"
  chip_read :: "nat \<Rightarrow> ci_payload list"
  plan :: "chip_act list list"

fun chip_do :: "chip_act \<Rightarrow> chip \<Rightarrow> chip" where
  "chip_do (Deliver t) c = (case to_chip c t of [] \<Rightarrow> c | p # ps \<Rightarrow> (case Receive p (chip_arq c t) of None \<Rightarrow> c
     | Some a \<Rightarrow> c\<lparr>chip_arq := (chip_arq c)(t := a), to_chip := (to_chip c)(t := ps)\<rparr>))"
| "chip_do (Lose t) c = c\<lparr>to_chip := (to_chip c)(t := tl (to_chip c t))\<rparr>"
| "chip_do (Emit t) c = (case GetSendData (chip_arq c t) of
     (None, a) \<Rightarrow> c\<lparr>chip_arq := (chip_arq c)(t := a)\<rparr>
   | (Some p, a) \<Rightarrow> c\<lparr>chip_arq := (chip_arq c)(t := a), reg := sent_word p, live := True\<rparr>)"
| "chip_do (Answer t p) c = (case Send p (chip_arq c t) of (r, a) \<Rightarrow>
     c\<lparr>chip_arq := (chip_arq c)(t := a), chip_sent := (chip_sent c)(t := (if r = 1 then chip_sent c t @ [p] else chip_sent c t))\<rparr>)"
| "chip_do (Fetch t) c = (case Read (chip_arq c t) of None \<Rightarrow> c
   | Some (x, a) \<Rightarrow> c\<lparr>chip_arq := (chip_arq c)(t := a), chip_read := (chip_read c)(t := chip_read c t @ [x])\<rparr>)"
| "chip_do (Count t) c = c\<lparr>chip_arq := (chip_arq c)(t := arq_Tick (chip_arq c t))\<rparr>"

definition chip_next :: "chip \<Rightarrow> chip" where
  "chip_next c = (case plan c of [] \<Rightarrow> c | as # rest \<Rightarrow> fold chip_do as (c\<lparr>plan := rest\<rparr>))"

text \<open>The word names the end it is for.\<close>

definition jtag_medium :: "ci_payload packet \<Rightarrow> chip medium" where
  "jtag_medium b = \<lparr>Send_word = (\<lambda>w c. let c = chip_next c; p = read_packet (of_uint64 w); t = unat (ptag p) in
       c\<lparr>to_chip := (to_chip c)(t := to_chip c t @ [p])\<rparr>),
     Receive_word = (\<lambda>c. let c = chip_next c in (reg c, c)), blank_packet = b\<rparr>"

fun act_ok :: "chip_act \<Rightarrow> bool" where
  "act_ok (Deliver t) \<longleftrightarrow> t < 2" | "act_ok (Lose t) \<longleftrightarrow> t < 2" | "act_ok (Emit t) \<longleftrightarrow> t < 2"
| "act_ok (Answer t p) \<longleftrightarrow> t < 2 \<and> pwrite p < 2" | "act_ok (Fetch t) \<longleftrightarrow> t < 2" | "act_ok (Count t) \<longleftrightarrow> t < 2"

definition plan_ok :: "chip \<Rightarrow> bool" where
  "plan_ok c \<longleftrightarrow> (\<forall>as \<in> set (plan c). \<forall>x \<in> set as. act_ok x)"

subsection \<open>The protocol under the transport\<close>

text \<open>The register is a channel to the host: it holds the last packet, which can be read again and be overwritten.\<close>

definition pending :: "chip \<Rightarrow> nat \<Rightarrow> ci_payload packet list" where
  "pending c t = (if live c \<and> TagID (of_uint64 (reg c)) = of_nat t then [read_packet (of_uint64 (reg c))] else [])"

lemma pending_upd [simp]:
  "pending (c\<lparr>to_chip := f\<rparr>) t = pending c t" "pending (c\<lparr>chip_arq := a\<rparr>) t = pending c t" "pending (c\<lparr>plan := l\<rparr>) t = pending c t"
  "pending (c\<lparr>chip_sent := x\<rparr>) t = pending c t" "pending (c\<lparr>chip_read := y\<rparr>) t = pending c t"
  by (simp_all add: pending_def)

definition tag_net :: "ci_payload arq \<Rightarrow> ci_payload list \<Rightarrow> ci_payload list \<Rightarrow> chip \<Rightarrow> nat \<Rightarrow> ci_payload net" where
  "tag_net a acc got c t = \<lparr>left = a, right = chip_arq c t, chan_lr = to_chip c t, chan_rl = pending c t,
     sent_l = acc, read_l = got, sent_r = chip_sent c t, read_r = chip_read c t\<rparr>"

definition end_ok :: "nat \<Rightarrow> ci_payload arq \<Rightarrow> bool" where
  "end_ok t a \<longleftrightarrow> tagid a = of_nat t \<and> (\<forall>p \<in> set (sendbuf a). pwrite p < 2)"

definition sys_ok :: "(nat \<Rightarrow> ci_payload arq) \<Rightarrow> (nat \<Rightarrow> ci_payload list) \<Rightarrow> (nat \<Rightarrow> ci_payload list) \<Rightarrow> chip \<Rightarrow> bool" where
  "sys_ok a acc got c \<longleftrightarrow> (\<forall>t < 2. end_ok t (a t) \<and> end_ok t (chip_arq c t) \<and> reach SEQ_SIZE WND_SIZE (tag_net (a t) (acc t) (got t) c t))"

lemma swap_swap [simp]: "swap (swap n) = n"
  by (simp add: swap_def)

lemma end_ok_frames:
  "end_ok t a \<Longrightarrow> end_ok t (snd (GetSendData a))"
  "end_ok t a \<Longrightarrow> end_ok t (arq_Tick a)"
  "end_ok t a \<Longrightarrow> pwrite p < 2 \<Longrightarrow> end_ok t (snd (Send p a))"
  "end_ok t a \<Longrightarrow> Read a = Some (x, b) \<Longrightarrow> end_ok t b"
  by (auto simp: end_ok_def GetSendData_def sent_one_def Let_def arq_Tick_def Send_def Read_def split: if_splits
      dest!: set_update_subset_insert [THEN subsetD])

lemma end_ok_Receive: "end_ok t a \<Longrightarrow> Receive p a = Some b \<Longrightarrow> end_ok t b"
  by (auto simp: end_ok_def Receive_def receive_data_def receive_ack_def Let_def split: if_splits dest!: ack_advance_frame)

lemma reach_swap: "reach sz wd n \<Longrightarrow> reach sz wd (swap n)"
proof (induction rule: reach.induct)
  case (start n m d t st rt m' d' t' st' rt')
  then show ?case by (intro reach.start [of "swap n" m' d' t' _ _ st' rt' m d t st rt]) (simp_all add: swap_def)
next
  case (left n n')
  then show ?case using reach.right [of sz wd "swap n" n'] by simp
next
  case (right n n')
  then show ?case using reach.left [of sz wd "swap n" n'] by simp
qed

lemma reach_ends:
  assumes "reach SEQ_SIZE WND_SIZE n"
  obtains sw sp ra rhi where "snd_inv SEQ_SIZE WND_SIZE (left n) sw sp (sent_l n)" "rcv_inv SEQ_SIZE WND_SIZE (left n) ra rhi (sent_r n) (read_l n)"
proof -
  have "net_inv SEQ_SIZE WND_SIZE n" using link_sizes.reach_inv [OF assms] .
  then show ?thesis using that unfolding net_inv_def dir_inv_def by blast
qed

lemma GetSendData_fits:
  assumes "reach SEQ_SIZE WND_SIZE n" "end_ok t (left n)" "t < 2" "GetSendData (left n) = (Some p, b)"
  shows "fits p \<and> ptag p = of_nat t"
proof -
  obtain sw sp ra rhi where i: "snd_inv SEQ_SIZE WND_SIZE (left n) sw sp (sent_l n)" "rcv_inv SEQ_SIZE WND_SIZE (left n) ra rhi (sent_r n) (read_l n)"
    using reach_ends [OF assms(1)] .
  have lt: "wndpos (left n) < 64" "sendpos (left n) < 64" "recackpos (left n) < 64"
    using i by (auto simp: snd_inv_def rcv_inv_def SEQ_SIZE_def word_less_nat_alt)
  have w: "length (sendbuf (left n)) = 16" "WND_S (left n) = 16" using i(1) by (simp_all add: snd_inv_def well_sized_def WND_SIZE_def)
  have "slot (left n) x < 16" for x using w(2) by (simp add: slot_def unat_mod)
  then have d: "pwrite (sendbuf (left n) ! slot (left n) x) < 2" "pwrite (sendbuf (left n) ! 0) < 2" for x
    using assms(2) w(1) by (auto simp: end_ok_def)
  have "t = 0 \<or> t = 1" using assms(3) by linarith
  then have t: "tagid (left n) < 4" using assms(2) by (auto simp: end_ok_def)
  show ?thesis using assms(2,4) lt d t unfolding fits_def end_ok_def
    by (auto simp: GetSendData_def mk_packet_def Let_def slot_def split: if_splits)
qed

text \<open>Steps of the net below one tag.\<close>

lemma lose_right: "reach sz wd n \<Longrightarrow> chan_rl n = xs @ p # ys \<Longrightarrow> reach sz wd (n\<lparr>chan_rl := xs @ ys\<rparr>)"
  using reach.right [of sz wd n, OF _ step.lose [of "swap n" xs p ys]] by (cases n) (simp add: swap_def)

lemma duplicate_right: "reach sz wd n \<Longrightarrow> chan_rl n = xs @ p # ys \<Longrightarrow> reach sz wd (n\<lparr>chan_rl := xs @ p # p # ys\<rparr>)"
  using reach.right [of sz wd n, OF _ step.duplicate [of "swap n" xs p ys]] by (cases n) (simp add: swap_def)

lemma lose_left: "reach sz wd n \<Longrightarrow> chan_lr n = p # ys \<Longrightarrow> reach sz wd (n\<lparr>chan_lr := ys\<rparr>)"
  using reach.left [of sz wd n, OF _ step.lose [of n "[]" p ys]] by simp

lemma step_right:
  assumes "reach sz wd n" "step (swap n) m" "n' = swap m"
  shows "reach sz wd n'"
  using reach.right [OF assms(1,2)] assms(3) by simp

lemma of_nat_tag: "t < 2 \<Longrightarrow> u < 2 \<Longrightarrow> (of_nat t :: u32) = of_nat u \<longleftrightarrow> t = u"
  by (auto simp: less_2_cases_iff)

lemma sys_okI:
  assumes "sys_ok a acc got c" "t < 2" "end_ok t (chip_arq c' t)" "reach SEQ_SIZE WND_SIZE (tag_net (a t) (acc t) (got t) c' t)"
    "\<And>u. u < 2 \<Longrightarrow> u \<noteq> t \<Longrightarrow> chip_arq c' u = chip_arq c u \<and> reach SEQ_SIZE WND_SIZE (tag_net (a u) (acc u) (got u) c' u)"
  shows "sys_ok a acc got c'"
  using assms unfolding sys_ok_def by metis

lemma chip_do_ok:
  assumes ok: "sys_ok a acc got c" and "act_ok x"
  shows "sys_ok a acc got (chip_do x c)"
proof -
  let ?n = "\<lambda>t. tag_net (a t) (acc t) (got t) c t"
  have r: "t < 2 \<Longrightarrow> reach SEQ_SIZE WND_SIZE (?n t)" and e: "t < 2 \<Longrightarrow> end_ok t (chip_arq c t)" for t
    using ok by (simp_all add: sys_ok_def)
  have keep: "sys_ok a acc got c'" if "t < 2" "end_ok t (chip_arq c' t)" "step (swap (?n t)) m" "tag_net (a t) (acc t) (got t) c' t = swap m"
    "\<And>u. u \<noteq> t \<Longrightarrow> chip_arq c' u = chip_arq c u \<and> tag_net (a u) (acc u) (got u) c' u = ?n u" for t c' m
    by (rule sys_okI [OF ok that(1,2) step_right [OF r [OF that(1)] that(3,4)]]) (use that(5) r in simp)
  show ?thesis
  proof (cases x)
    case (Deliver t)
    then have t: "t < 2" using assms(2) by simp
    show ?thesis
    proof (cases "\<exists>p ps b. to_chip c t = p # ps \<and> Receive p (chip_arq c t) = Some b")
      case True
      then obtain p ps b where d: "to_chip c t = p # ps" "Receive p (chip_arq c t) = Some b" by blast
      have "step (swap (?n t)) ((swap (?n t))\<lparr>left := b, chan_rl := ps\<rparr>)"
        by (rule step.receive [of _ p]) (use d in \<open>simp_all add: swap_def tag_net_def\<close>)
      then have "sys_ok a acc got (c\<lparr>chip_arq := (chip_arq c)(t := b), to_chip := (to_chip c)(t := ps)\<rparr>)"
        by (rule keep [OF t, rotated])
          (use end_ok_Receive [OF e [OF t] d(2)] in \<open>simp_all add: swap_def tag_net_def\<close>)
      then show ?thesis using Deliver d by simp
    qed (use Deliver ok in \<open>auto split: list.splits option.splits\<close>)
  next
    case (Lose t)
    then have t: "t < 2" using assms(2) by simp
    have "reach SEQ_SIZE WND_SIZE (tag_net (a t) (acc t) (got t) (chip_do x c) t)"
    proof (cases "to_chip c t")
      case (Cons p ys)
      then show ?thesis using lose_left [OF r [OF t], of p ys] Lose by (auto simp: tag_net_def)
    qed (use r [OF t] Lose in \<open>auto simp: tag_net_def\<close>)
    moreover have "tag_net (a u) (acc u) (got u) (chip_do x c) u = ?n u" if "u \<noteq> t" for u
      using Lose that by (simp add: tag_net_def)
    ultimately show ?thesis using Lose e [OF t] r by (intro sys_okI [OF ok t]) simp_all
  next
    case (Emit t)
    then have t: "t < 2" using assms(2) by simp
    obtain q b where g: "GetSendData (chip_arq c t) = (q, b)" by fastforce
    have s: "step (swap (?n t)) ((swap (?n t))\<lparr>left := b, chan_lr := chan_lr (swap (?n t)) @ (case q of None \<Rightarrow> [] | Some p \<Rightarrow> [p])\<rparr>)"
      by (rule step.getsend) (use g in \<open>simp add: swap_def tag_net_def\<close>)
    have b: "end_ok t b" using end_ok_frames(1) [OF e [OF t]] g by simp
    show ?thesis
    proof (cases q)
      case None
      show ?thesis using g None Emit b
        by simp (rule keep [OF t _ s], simp_all add: swap_def tag_net_def pending_def)
    next
      case (Some p)
      let ?c = "c\<lparr>chip_arq := (chip_arq c)(t := b), reg := sent_word p, live := True\<rparr>"
      have f: "fits p" "ptag p = of_nat t"
        using GetSendData_fits [OF reach_swap [OF r [OF t]], of t p b] e [OF t] t g Some by (simp_all add: swap_def tag_net_def)
      have "reach SEQ_SIZE WND_SIZE ((?n t)\<lparr>right := b, chan_rl := pending c t @ [p]\<rparr>)"
        by (rule step_right [OF r [OF t] s]) (simp add: swap_def tag_net_def Some)
      then have "reach SEQ_SIZE WND_SIZE ((?n t)\<lparr>right := b, chan_rl := [p]\<rparr>)"
        using lose_right [of SEQ_SIZE WND_SIZE "(?n t)\<lparr>right := b, chan_rl := pending c t @ [p]\<rparr>" "[]" _ "[p]"]
        by (cases "pending c t") (auto simp: pending_def split: if_splits)
      then have "reach SEQ_SIZE WND_SIZE (tag_net (a t) (acc t) (got t) ?c t)"
        using f wire_roundtrip [OF f(1)] tag_of_word [OF f(1)] by (simp add: tag_net_def pending_def)
      moreover have "reach SEQ_SIZE WND_SIZE (tag_net (a u) (acc u) (got u) ?c u)" if u: "u < 2" "u \<noteq> t" for u
      proof -
        have "reach SEQ_SIZE WND_SIZE ((?n u)\<lparr>chan_rl := []\<rparr>)"
          using lose_right [OF r [OF u(1)], of "[]" _ "[]"] r [OF u(1)] by (auto simp: tag_net_def pending_def split: if_splits)
        then show ?thesis using f tag_of_word [OF f(1)] u of_nat_tag [OF t u(1)] by (simp add: tag_net_def pending_def)
      qed
      ultimately have "sys_ok a acc got ?c" by (intro sys_okI [OF ok t]) (use b in simp_all)
      then show ?thesis using Emit g Some by simp
    qed
  next
    case (Answer t p)
    then have t: "t < 2" "pwrite p < 2" using assms(2) by simp_all
    obtain r b where g: "Send p (chip_arq c t) = (r, b)" by fastforce
    have st: "step (swap (?n t)) ((swap (?n t))\<lparr>left := b, sent_l := (if r = 1 then sent_l (swap (?n t)) @ [p] else sent_l (swap (?n t)))\<rparr>)"
      by (rule step.send) (use g in \<open>simp add: swap_def tag_net_def\<close>)
    have b: "end_ok t b" using end_ok_frames(3) [OF e [OF t(1)] t(2)] g by simp
    have "sys_ok a acc got (c\<lparr>chip_arq := (chip_arq c)(t := b), chip_sent := (chip_sent c)(t := (if r = 1 then chip_sent c t @ [p] else chip_sent c t))\<rparr>)"
      by (rule keep [OF t(1) _ st]) (use b in \<open>simp_all add: swap_def tag_net_def\<close>)
    then show ?thesis using Answer g by simp
  next
    case (Fetch t)
    then have t: "t < 2" using assms(2) by simp
    show ?thesis
    proof (cases "Read (chip_arq c t)")
      case (Some y)
      then obtain x' b where g: "Read (chip_arq c t) = Some (x', b)" by (cases y) simp
      have "step (swap (?n t)) ((swap (?n t))\<lparr>left := b, read_l := read_l (swap (?n t)) @ [x']\<rparr>)"
        by (rule step.read) (use g in \<open>simp add: swap_def tag_net_def\<close>)
      then show ?thesis using g Fetch end_ok_frames(4) [OF e [OF t] g] by simp (rule keep [OF t], auto simp: swap_def tag_net_def)
    qed (use Fetch ok in simp)
  next
    case (Count t)
    then have t: "t < 2" using assms(2) by simp
    have "step (swap (?n t)) ((swap (?n t))\<lparr>left := arq_Tick (left (swap (?n t)))\<rparr>)" by (rule step.tick)
    then show ?thesis using Count end_ok_frames(2) [OF e [OF t]] by simp (rule keep [OF t], auto simp: swap_def tag_net_def)
  qed
qed

lemma chip_do_keeps: "plan (chip_do x c) = plan c" "live (chip_do x c) \<or> \<not> live c \<and> reg (chip_do x c) = reg c"
  by (cases x; auto split: list.split option.split prod.split)+

lemma chip_fold_keeps: "plan (fold chip_do as c) = plan c" "live (fold chip_do as c) \<or> \<not> live c \<and> reg (fold chip_do as c) = reg c"
proof (induction "as" arbitrary: c)
  case (Cons x "as")
  { case 1 show ?case using Cons(1) [of "chip_do x c"] chip_do_keeps(1) by simp }
  { case 2 show ?case using Cons(2) [of "chip_do x c"] chip_do_keeps(2) [of x c] by auto }
qed simp_all

lemma chip_fold_ok: "sys_ok a acc got c \<Longrightarrow> \<forall>x \<in> set as. act_ok x \<Longrightarrow> sys_ok a acc got (fold chip_do as c)"
  by (induction "as" arbitrary: c) (simp_all add: chip_do_ok)

lemma sys_ok_plan: "sys_ok a acc got (c\<lparr>plan := as\<rparr>) = sys_ok a acc got c"
  by (simp add: sys_ok_def tag_net_def pending_def)

lemma chip_next_ok:
  assumes "sys_ok a acc got c" "plan_ok c"
  shows "sys_ok a acc got (chip_next c)" "plan_ok (chip_next c)" "plan (chip_next c) = tl (plan c)"
    "live (chip_next c) \<or> \<not> live c \<and> reg (chip_next c) = reg c" "plan c = [] \<Longrightarrow> chip_next c = c"
proof -
  show "sys_ok a acc got (chip_next c)" using assms
    by (cases "plan c") (auto simp: chip_next_def plan_ok_def sys_ok_plan intro!: chip_fold_ok)
  show "plan (chip_next c) = tl (plan c)" by (cases "plan c") (simp_all add: chip_next_def chip_fold_keeps)
  then show "plan_ok (chip_next c)" using assms(2) by (cases "plan c") (auto simp: plan_ok_def)
  show "live (chip_next c) \<or> \<not> live c \<and> reg (chip_next c) = reg c"
    using chip_fold_keeps(2) [of _ "c\<lparr>plan := _\<rparr>"] by (cases "plan c") (auto simp: chip_next_def)
qed (simp add: chip_next_def)

subsection \<open>The host's side\<close>

text \<open>Between calls nothing is marked as read, and what the chip has not written was read; the send timers keep their time.\<close>

definition host_ok :: "(nat \<Rightarrow> ci_payload list) \<Rightarrow> (nat \<Rightarrow> ci_payload list) \<Rightarrow> chip s2comm \<Rightarrow> bool" where
  "host_ok acc got s \<longleftrightarrow> sys_ok (arq_of s) acc got (dev s) \<and> plan_ok (dev s) \<and> \<not> valid s \<and>
     (live (dev s) \<or> of_uint64 (reg (dev s)) = lastread s) \<and> (\<forall>t < 2. tmax (SendTimer (arq_of s t)) = 32)"

lemma tmax_frames:
  "tmax (SendTimer (snd (GetSendData a))) = tmax (SendTimer a)"
  "tmax (SendTimer (arq_Tick a)) = tmax (SendTimer a)"
  "tmax (SendTimer (snd (Send p a))) = tmax (SendTimer a)"
  "Read a = Some (x, b) \<Longrightarrow> tmax (SendTimer b) = tmax (SendTimer a)"
  by (auto simp: GetSendData_def sent_one_def Let_def arq_Tick_def Send_def Read_def Timer.Ack_def Continue_def Start_def Tick_def SetTimeout_def Stop_def split: if_splits)

lemma tmax_Receive: "Receive p a = Some b \<Longrightarrow> tmax (SendTimer b) = tmax (SendTimer a)"
  by (auto simp: Receive_def receive_data_def receive_ack_def Let_def Start_def Stop_def split: if_splits dest!: ack_advance_frame)

lemma arq_of_upd: "arq_of (upd_link t f s) u = (if u = t then arq (f (link_layers s t)) else arq_of s u)"
  by (simp add: upd_link_def)

lemma upd_link_members [simp]:
  "dev (upd_link t f s) = dev s" "valid (upd_link t f s) = valid s" "lastread (upd_link t f s) = lastread s"
  "readdata (upd_link t f s) = readdata s" "rx (upd_link t f s) = rx s"
  by (simp_all add: upd_link_def)

lemma set_arq_members [simp]:
  "dev (set_arq t a s) = dev s" "valid (set_arq t a s) = valid s" "lastread (set_arq t a s) = lastread s"
  "readdata (set_arq t a s) = readdata s" "rx (set_arq t a s) = rx s" "arq_of (set_arq t a s) = (arq_of s)(t := a)"
  "arq_of (set_arq t a s) u = (if u = t then a else arq_of s u)"
  "issued_cmds (link_layers (set_arq t a s) u) = issued_cmds (link_layers s u)"
  by (auto simp: set_arq_def upd_link_def)

text \<open>A step of the left end, and what comes with it.\<close>

lemma sys_ok_left:
  assumes "sys_ok a acc got c" "t < 2" "end_ok t b"
    "reach SEQ_SIZE WND_SIZE (tag_net b (acc' t) (got' t) c' t)"
    "\<And>u. u \<noteq> t \<Longrightarrow> acc' u = acc u \<and> got' u = got u \<and> to_chip c' u = to_chip c u"
    "chip_arq c' = chip_arq c" "reg c' = reg c" "live c' = live c" "chip_sent c' = chip_sent c" "chip_read c' = chip_read c"
  shows "sys_ok (a(t := b)) acc' got' c'"
  unfolding sys_ok_def
proof (intro allI impI)
  fix u :: nat
  assume u: "u < 2"
  have "u \<noteq> t \<Longrightarrow> tag_net (a u) (acc' u) (got' u) c' u = tag_net (a u) (acc u) (got u) c u"
    using assms(5-) by (simp add: tag_net_def pending_def)
  then show "end_ok u ((a(t := b)) u) \<and> end_ok u (chip_arq c' u) \<and> reach SEQ_SIZE WND_SIZE (tag_net ((a(t := b)) u) (acc' u) (got' u) c' u)"
    using assms(1-4,6) u by (cases "u = t") (simp_all add: sys_ok_def)
qed

lemma exec_tick_ok:
  assumes "host_ok acc got s" "t < 2"
  shows "host_ok acc got (exec_tick t s)"
proof -
  have o: "sys_ok (arq_of s) acc got (dev s)" using assms(1) by (simp add: host_ok_def)
  then have r: "reach SEQ_SIZE WND_SIZE (tag_net (arq_of s t) (acc t) (got t) (dev s) t)" "end_ok t (arq_of s t)"
    using assms(2) by (simp_all add: sys_ok_def)
  have "reach SEQ_SIZE WND_SIZE (tag_net (arq_Tick (arq_of s t)) (acc t) (got t) (dev s) t)"
    using reach.left [OF r(1) step.tick] by (simp add: tag_net_def)
  then have "sys_ok ((arq_of s)(t := arq_Tick (arq_of s t))) acc got (dev s)"
    by (intro sys_ok_left [OF o assms(2) end_ok_frames(2) [OF r(2)]]) simp_all
  then show ?thesis using assms by (simp add: host_ok_def exec_tick_def tmax_frames fun_upd_def)
qed

text \<open>What is there to send is there: the link layer never sends a packet nobody has filled.\<close>

lemma HasSendData_packet:
  assumes "reach SEQ_SIZE WND_SIZE n" "HasSendData (left n)"
  obtains p b where "GetSendData (left n) = (Some p, b)"
proof -
  obtain sw sp ra rhi where i: "snd_inv SEQ_SIZE WND_SIZE (left n) sw sp (sent_l n)" using reach_ends [OF assms(1)] by blast
  have "seqpos (left n) \<noteq> wndpos (left n)" if "timeout (SendTimer (left n))"
  proof -
    have "sw < sp" "sp \<le> length (sent_l n)" using i that by (simp_all add: snd_inv_def active_def)
    then show ?thesis using link_sizes.seqpos_eq_wndpos [OF i] by simp
  qed
  then have "fst (GetSendData (left n)) \<noteq> None" using assms(2) by (auto simp: GetSendData_def HasSendData_def Let_def)
  then show thesis using that by (cases "GetSendData (left n)") auto
qed

lemma host_reach: "host_ok acc got s \<Longrightarrow> t < 2 \<Longrightarrow> reach SEQ_SIZE WND_SIZE (tag_net (arq_of s t) (acc t) (got t) (dev s) t)"
  by (simp add: host_ok_def sys_ok_def)

lemma exec_send_shape:
  assumes "GetSendData (arq_of s t) = (Some p, a)" "fits p" "ptag p = of_nat t" "t < 2"
  shows "dev (exec_send (jtag_medium b) t s) = (let c = chip_next (dev s) in c\<lparr>to_chip := (to_chip c)(t := to_chip c t @ [p])\<rparr>)"
    "arq_of (exec_send (jtag_medium b) t s) = (arq_of s)(t := a)"
    "valid (exec_send (jtag_medium b) t s) = valid s" "lastread (exec_send (jtag_medium b) t s) = lastread s" "rx (exec_send (jtag_medium b) t s) = rx s"
proof -
  have "unat (of_nat t :: u32) = t" using assms(4) by (auto simp: less_2_cases_iff)
  then show "dev (exec_send (jtag_medium b) t s) = (let c = chip_next (dev s) in c\<lparr>to_chip := (to_chip c)(t := to_chip c t @ [p])\<rparr>)"
    using assms by (simp add: exec_send_def s2_Send_def jtag_medium_def wire_roundtrip Let_def)
  show "arq_of (exec_send (jtag_medium b) t s) = (arq_of s)(t := a)"
    using assms(1) by (auto simp: exec_send_def s2_Send_def Let_def arq_of_upd)
qed (use assms(1) in \<open>simp_all add: exec_send_def s2_Send_def Let_def\<close>)

lemma exec_send_ok:
  assumes "host_ok acc got s" "t < 2" "HasSendData (arq_of s t)"
  shows "host_ok acc got (exec_send (jtag_medium b) t s)"
proof -
  have o: "sys_ok (arq_of s) acc got (dev s)" "plan_ok (dev s)" using assms(1) by (simp_all add: host_ok_def)
  note c = chip_next_ok [OF o]
  let ?c = "chip_next (dev s)"
  have r: "reach SEQ_SIZE WND_SIZE (tag_net (arq_of s t) (acc t) (got t) ?c t)" "end_ok t (arq_of s t)"
    using c(1) assms(2) by (simp_all add: sys_ok_def)
  obtain p a where g: "GetSendData (arq_of s t) = (Some p, a)"
    using HasSendData_packet [OF r(1)] assms(3) by (auto simp: tag_net_def)
  have f: "fits p" "ptag p = of_nat t" using GetSendData_fits [OF r(1), of t p a] r(2) assms(2) g by (simp_all add: tag_net_def)
  let ?d = "?c\<lparr>to_chip := (to_chip ?c)(t := to_chip ?c t @ [p])\<rparr>"
  have "reach SEQ_SIZE WND_SIZE (tag_net a (acc t) (got t) ?d t)"
    using reach.left [OF r(1) step.getsend [of _ "Some p" a]] g by (simp add: tag_net_def)
  moreover have "end_ok t a" using end_ok_frames(1) [OF r(2)] g by simp
  ultimately have "sys_ok ((arq_of s)(t := a)) acc got ?d"
    by (intro sys_ok_left [OF c(1) assms(2)]) simp_all
  moreover have "tmax (SendTimer a) = tmax (SendTimer (arq_of s t))" using tmax_frames(1) [of "arq_of s t"] g by simp
  ultimately show ?thesis using exec_send_shape [OF g f assms(2), of b] assms(1) c(2,4)
    by (auto simp: host_ok_def Let_def plan_ok_def fun_upd_def fun_eq_iff)
qed

text \<open>A packet from the channel is always received.\<close>

lemma receive_returns:
  assumes "reach SEQ_SIZE WND_SIZE n" "chan_rl n = p # ps"
  obtains a where "Receive p (left n) = Some a" "reach SEQ_SIZE WND_SIZE (n\<lparr>left := a, chan_rl := ps\<rparr>)"
proof -
  have "net_inv SEQ_SIZE WND_SIZE n" using link_sizes.reach_inv [OF assms(1)] .
  then obtain a where "Receive p (left n) = Some a"
    using assms(2) link_sizes.dir_receive_rcv by (metis net_inv_def)
  then show thesis using that reach.left [OF assms(1) step.receive [OF assms(2)]] by blast
qed

lemma s2_Receive_shape:
  "s2_Receive (jtag_medium b) s = s\<lparr>dev := chip_next (dev s), readdata := of_uint64 (reg (chip_next (dev s)))\<rparr>"
  by (simp add: s2_Receive_def jtag_medium_def Let_def)

lemma exec_receive_ok:
  assumes "host_ok acc got s" "t < 2"
  obtains s' where "exec_receive (jtag_medium b) t s = Some s'" "host_ok acc got s'" "rx s' = rx s"
    "arq_of s' = arq_of s \<and> lastread s' = lastread s \<and> (dev s' = dev s \<or> dev s' = chip_next (dev s)) \<or>
     dev s' = chip_next (dev s) \<and> lastread s \<noteq> of_uint64 (reg (dev s')) \<and> lastread s' = of_uint64 (reg (dev s')) \<and> (\<forall>u. u \<noteq> t \<longrightarrow> arq_of s' u = arq_of s u)"
proof (cases "issued_cmds (link_layers s t) \<ge> max_issued_cmds")
  case False
  then show thesis using that [of s] assms(1) by (simp add: exec_receive_def)
next
  case True
  let ?c = "chip_next (dev s)"
  let ?s1 = "s\<lparr>dev := ?c, readdata := of_uint64 (reg ?c)\<rparr>"
  have o: "sys_ok (arq_of s) acc got (dev s)" "plan_ok (dev s)" "\<not> valid s" using assms(1) by (simp_all add: host_ok_def)
  note c = chip_next_ok [OF o(1,2)]
  have h1: "host_ok acc got ?s1" using assms(1) c by (auto simp: host_ok_def)
  show thesis
  proof (cases "fresh t ?s1")
    case False
    then have "exec_receive (jtag_medium b) t s = Some ?s1"
      using True o(3) by (simp add: exec_receive_def s2_HasReadData_def s2_Receive_shape Let_def)
    then show thesis using that [of ?s1] h1 by simp
  next
    case fr: True
    let ?P = "read_packet (of_uint64 (reg ?c))"
    have f: "of_uint64 (reg ?c) \<noteq> lastread s" "TagID (of_uint64 (reg ?c)) = of_nat t" using fr by (simp_all add: fresh_def)
    then have "live ?c" using h1 by (auto simp: host_ok_def)
    then have p: "pending ?c t = [?P]" using f(2) by (simp add: pending_def)
    let ?n = "tag_net (arq_of s t) (acc t) (got t) ?c t"
    have r: "reach SEQ_SIZE WND_SIZE ?n" "end_ok t (arq_of s t)" using c(1) assms(2) by (simp_all add: sys_ok_def)
    have "reach SEQ_SIZE WND_SIZE (?n\<lparr>chan_rl := [?P, ?P]\<rparr>)"
      using duplicate_right [OF r(1), of "[]" ?P "[]"] p by (simp add: tag_net_def)
    then obtain a where a: "Receive ?P (arq_of s t) = Some a" "reach SEQ_SIZE WND_SIZE (?n\<lparr>left := a, chan_rl := [?P]\<rparr>)"
      using receive_returns [of "?n\<lparr>chan_rl := [?P, ?P]\<rparr>" ?P "[?P]"] by (auto simp: tag_net_def)
    let ?s2 = "set_arq t a (upd_link t (\<lambda>l. l\<lparr>issued_cmds := 0\<rparr>) (?s1\<lparr>lastread := of_uint64 (reg ?c), valid := False\<rparr>))"
    have e: "exec_receive (jtag_medium b) t s = Some ?s2"
      using True o(3) fr a(1)
      by (simp add: exec_receive_def s2_HasReadData_def s2_Receive_shape s2_Read_def Let_def) (simp add: upd_link_def set_arq_def)
    have "reach SEQ_SIZE WND_SIZE (tag_net a (acc t) (got t) ?c t)" using a(2) p by (simp add: tag_net_def)
    then have "sys_ok ((arq_of s)(t := a)) acc got ?c"
      by (intro sys_ok_left [OF c(1) assms(2) end_ok_Receive [OF r(2) a(1)]]) simp_all
    moreover have m: "arq_of ?s2 = (arq_of s)(t := a)" by (auto simp: arq_of_upd)
    ultimately have "host_ok acc got ?s2"
      using assms(1) tmax_Receive [OF a(1)] c(2) unfolding host_ok_def by (simp add: fun_upd_def arq_of_upd)
    then show thesis using that [OF e] f(1) by (auto simp: arq_of_upd)
  qed
qed

lemma exec_rest_ok:
  assumes "host_ok acc got s" "t < 2"
  obtains s' where "exec_rest (jtag_medium b) t s = Some s'" "host_ok acc got s'" "rx s' = rx s"
    "arq_of s' t = arq_Tick (arq_Tick (arq_of s t)) \<and> lastread s' = lastread s \<and> (dev s' = dev s \<or> dev s' = chip_next (dev s)) \<or>
     dev s' = chip_next (dev s) \<and> lastread s \<noteq> of_uint64 (reg (dev s')) \<and> lastread s' = of_uint64 (reg (dev s'))"
    "\<And>u. u \<noteq> t \<Longrightarrow> arq_of s' u = arq_of s u"
proof -
  have t: "rx (exec_tick t x) = rx x" "dev (exec_tick t x) = dev x" "lastread (exec_tick t x) = lastread x"
      "arq_of (exec_tick t x) u = (if u = t then arq_Tick (arq_of x t) else arq_of x u)" for x :: "chip s2comm" and u
    by (simp_all add: exec_tick_def)
  obtain s' where s': "exec_receive (jtag_medium b) t (exec_tick t s) = Some s'" "host_ok acc got s'" "rx s' = rx (exec_tick t s)"
    "arq_of s' = arq_of (exec_tick t s) \<and> lastread s' = lastread (exec_tick t s) \<and> (dev s' = dev (exec_tick t s) \<or> dev s' = chip_next (dev (exec_tick t s))) \<or>
     dev s' = chip_next (dev (exec_tick t s)) \<and> lastread (exec_tick t s) \<noteq> of_uint64 (reg (dev s')) \<and> lastread s' = of_uint64 (reg (dev s')) \<and>
       (\<forall>u. u \<noteq> t \<longrightarrow> arq_of s' u = arq_of (exec_tick t s) u)"
    using exec_receive_ok [OF exec_tick_ok [OF assms] assms(2)] by blast
  have "arq_of s' u = arq_of s u" if "u \<noteq> t" for u using s'(4) that t(4) by (metis (no_types, lifting))
  moreover have "arq_of s' t = arq_Tick (arq_of s t)" if "arq_of s' = arq_of (exec_tick t s)"
    using fun_cong [OF that, of t] t(4) by simp
  ultimately show thesis
    using that [of "exec_tick t s'"] s' exec_tick_ok [OF s'(2) assms(2)] t by (auto simp: exec_rest_def)
qed

subsection \<open>Calls return\<close>

text \<open>What an end still has to send when nothing arrives: its packets, an ack, and a retransmission that is due, or
  will be within the two ticks of a call.\<close>

definition urge :: "'p arq \<Rightarrow> nat" where
  "urge a = 3 * unat ((SEQ_S a + seqpos a - sendpos a) mod SEQ_S a) + (if active (RecvTimer a) then 3 else 0)
     + (if timeout (SendTimer a) then 2 else 0) + (if enabled (SendTimer a) \<and> tvalue (SendTimer a) < 2 then 1 else 0)"

definition ticked :: "timer \<Rightarrow> nat" where
  "ticked tm = (if timeout tm then 2 else 0) + (if enabled tm \<and> tvalue tm < 2 then 1 else 0)"

lemma ticked_bounds:
  "ticked (Tick (Tick tm)) \<le> 3" "\<not> timeout tm \<Longrightarrow> ticked (Tick (Tick tm)) \<le> 2"
  "tmax tm = 32 \<Longrightarrow> timeout tm \<Longrightarrow> ticked (Tick (Tick (Continue (Timer.Ack tm)))) < ticked tm"
  "timeout tm \<Longrightarrow> ticked (Tick (Tick (Timer.Ack tm))) < ticked tm"
  "tmax tm = 32 \<Longrightarrow> \<not> timeout tm \<Longrightarrow> ticked (Tick (Tick (Continue tm))) \<le> 2"
  by (auto simp: ticked_def Tick_def Continue_def Start_def Timer.Ack_def SetTimeout_def Stop_def)

lemma urge_ticked: "urge a = 3 * unat ((SEQ_S a + seqpos a - sendpos a) mod SEQ_S a) + (if active (RecvTimer a) then 3 else 0) + ticked (SendTimer a)"
  by (simp add: urge_def ticked_def)

lemma urge_falls:
  assumes "snd_inv SEQ_SIZE WND_SIZE a sw sp sent" "tmax (SendTimer a) = 32" "HasSendData a"
  shows "urge (arq_Tick (arq_Tick (snd (GetSendData a)))) < urge a"
proof -
  let ?u = "\<lambda>a :: 'a arq. unat ((SEQ_S a + seqpos a - sendpos a) mod SEQ_S a)"
  have t: "urge (arq_Tick (arq_Tick b)) = 3 * ?u b + (if active (RecvTimer b) then 3 else 0) + ticked (Tick (Tick (SendTimer b)))" for b :: "'a arq"
    by (simp add: urge_ticked arq_Tick_def active_Tick)
  consider (late) "timeout (SendTimer a)" | (new) "\<not> timeout (SendTimer a)" "(SEQ_S a + seqpos a - sendpos a) mod SEQ_S a > 0"
    | (ack) "\<not> timeout (SendTimer a)" "\<not> (SEQ_S a + seqpos a - sendpos a) mod SEQ_S a > 0" "timeout (RecvTimer a)"
    using assms(3) by (auto simp: HasSendData_def)
  then show ?thesis
  proof cases
    case late
    show ?thesis
    proof (cases "seqpos a = wndpos a")
      case True
      then show ?thesis using late ticked_bounds(4) [OF late] unfolding t urge_ticked [of a] by (simp add: GetSendData_def Let_def)
    next
      case False
      then show ?thesis using late ticked_bounds(3) [OF assms(2) late] unfolding t urge_ticked [of a]
        by (simp add: GetSendData_def Let_def sent_one_def)
    qed
  next
    case new
    let ?b = "snd (GetSendData a)"
    have b: "?b = sent_one (a\<lparr>sendpos := (sendpos a + 1) mod SEQ_S a, SendTimer := Continue (SendTimer a)\<rparr>)" using new by (simp add: GetSendData_def)
    have "sp < length sent" using link_sizes.unsent_iff [OF assms(1)] new by simp
    moreover from this have "snd_inv SEQ_SIZE WND_SIZE ?b sw (Suc sp) sent"
      using assms(1) link_sizes.seq_inc [of "sendpos a" sp] by (auto simp: b sent_one_def snd_inv_def well_sized_def)
    ultimately have "?u ?b < ?u a" using link_sizes.unsent_count [OF assms(1)] link_sizes.unsent_count [of ?b sw "Suc sp" sent] by simp
    moreover have "ticked (Tick (Tick (Continue (SendTimer a)))) \<le> 2" using ticked_bounds(5) [OF assms(2)] new by simp
    ultimately show ?thesis unfolding t urge_ticked [of a] by (simp add: b sent_one_def)
  next
    case ack
    then show ?thesis using ticked_bounds(2) [of "SendTimer a"] unfolding t urge_ticked [of a]
      by (auto simp: GetSendData_def Let_def sent_one_def active_def)
  qed
qed

text \<open>Every round of the loop over the other link layer uses up something: the chip's plan, an unread register, or
  what the end has to send.\<close>

definition work :: "nat \<Rightarrow> chip s2comm \<Rightarrow> nat \<times> nat \<times> nat" where
  "work t s = (length (plan (dev s)), if of_uint64 (reg (dev s)) = lastread s then 0 else 1, urge (arq_of s t))"

definition less_work :: "((nat \<times> nat \<times> nat) \<times> (nat \<times> nat \<times> nat)) set" where
  "less_work = less_than <*lex*> less_than <*lex*> less_than"

lemma host_snd:
  assumes "host_ok acc got s" "t < 2"
  obtains sw sp where "snd_inv SEQ_SIZE WND_SIZE (arq_of s t) sw sp (acc t)"
proof -
  obtain sw sp where "snd_inv SEQ_SIZE WND_SIZE (left (tag_net (arq_of s t) (acc t) (got t) (dev s) t)) sw sp (sent_l (tag_net (arq_of s t) (acc t) (got t) (dev s) t))"
    using reach_ends [OF host_reach [OF assms]] by blast
  then show thesis by (intro that) (simp add: tag_net_def)
qed

lemma callback_ok:
  assumes h: "host_ok acc got s" and t: "t < 2" and d: "HasSendData (arq_of s t)"
  obtains s' where "Exec_callback (jtag_medium b) t s = Some s'" "host_ok acc got s'" "rx s' = rx s"
    "\<And>u. u \<noteq> t \<Longrightarrow> arq_of s' u = arq_of s u" "(work t s', work t s) \<in> less_work"
proof -
  have o: "sys_ok (arq_of s) acc got (dev s)" "plan_ok (dev s)" using h by (simp_all add: host_ok_def)
  note c = chip_next_ok [OF o]
  have r: "reach SEQ_SIZE WND_SIZE (tag_net (arq_of s t) (acc t) (got t) (dev s) t)" "end_ok t (arq_of s t)"
    using o(1) t by (simp_all add: sys_ok_def)
  obtain p a where g: "GetSendData (arq_of s t) = (Some p, a)"
    using HasSendData_packet [OF r(1)] d by (auto simp: tag_net_def)
  have f: "fits p" "ptag p = of_nat t" using GetSendData_fits [OF r(1), of t p a] r(2) t g by (simp_all add: tag_net_def)
  let ?s1 = "exec_send (jtag_medium b) t s"
  note sh = exec_send_shape [OF g f t, of b]
  have h1: "host_ok acc got ?s1" by (rule exec_send_ok [OF h t d])
  have a1: "arq_of ?s1 t = a" "u \<noteq> t \<Longrightarrow> arq_of ?s1 u = arq_of s u" for u using fun_cong [OF sh(2)] by simp_all
  obtain s' where s': "exec_rest (jtag_medium b) t ?s1 = Some s'" "host_ok acc got s'" "rx s' = rx ?s1"
    "arq_of s' t = arq_Tick (arq_Tick (arq_of ?s1 t)) \<and> lastread s' = lastread ?s1 \<and> (dev s' = dev ?s1 \<or> dev s' = chip_next (dev ?s1)) \<or>
     dev s' = chip_next (dev ?s1) \<and> lastread ?s1 \<noteq> of_uint64 (reg (dev s')) \<and> lastread s' = of_uint64 (reg (dev s'))"
    "\<And>u. u \<noteq> t \<Longrightarrow> arq_of s' u = arq_of ?s1 u"
    using exec_rest_ok [OF h1 t] by blast
  have p1: "plan (dev ?s1) = tl (plan (dev s))" using sh(1) c(3) by (simp add: Let_def)
  have o1: "sys_ok (arq_of ?s1) acc got (dev ?s1)" "plan_ok (dev ?s1)" using h1 by (simp_all add: host_ok_def)
  note c1 = chip_next_ok [OF o1]
  have "(work t s', work t s) \<in> less_work"
  proof (cases "plan (dev s)")
    case (Cons x xs)
    have "length (plan (dev s')) \<le> length (plan (dev ?s1))" using s'(4) c1(3) by auto
    then show ?thesis using Cons p1 by (simp add: work_def less_work_def)
  next
    case Nil
    then have n: "chip_next (dev s) = dev s" "chip_next (dev ?s1) = dev ?s1" using c(5) c1(5) p1 by simp_all
    then have dv: "dev s' = dev ?s1" using s'(4) by auto
    have rg: "reg (dev ?s1) = reg (dev s)" "plan (dev ?s1) = []" using sh(1) n(1) p1 Nil by (simp_all add: Let_def)
    obtain sw sp where "snd_inv SEQ_SIZE WND_SIZE (arq_of s t) sw sp (acc t)" using host_snd [OF h t] .
    moreover have "tmax (SendTimer (arq_of s t)) = 32" using h t by (simp add: host_ok_def)
    ultimately have u: "urge (arq_Tick (arq_Tick a)) < urge (arq_of s t)" using urge_falls [of "arq_of s t" sw sp "acc t"] d by (simp add: g)
    have "arq_of s' t = arq_Tick (arq_Tick a) \<and> lastread s' = lastread s \<or> lastread s \<noteq> of_uint64 (reg (dev s)) \<and> lastread s' = of_uint64 (reg (dev s))"
      using s'(4) unfolding sh(4) a1(1) dv rg(1) by blast
    moreover have "work t s' = (0, if of_uint64 (reg (dev s)) = lastread s' then 0 else 1, urge (arq_of s' t))"
      "work t s = (0, if of_uint64 (reg (dev s)) = lastread s then 0 else 1, urge (arq_of s t))"
      by (simp_all add: work_def dv rg Nil)
    ultimately show ?thesis using u by (elim disjE) (auto simp: less_work_def)
  qed
  then show thesis using that [of s'] s' sh(5) a1(2) d by (simp add: Exec_callback_def)
qed

lemma conc_ll: "t < 2 \<Longrightarrow> conc_ll t < 2 \<and> conc_ll t \<noteq> t"
  by (auto simp: conc_ll_def less_2_cases_iff)

lemma serve_other_ok:
  assumes h: "host_ok acc got s" and t: "t < 2"
  obtains s' where "serve_other (jtag_medium b) t s = Some s'" "host_ok acc got s'" "rx s' = rx s" "arq_of s' t = arq_of s t"
proof -
  let ?o = "conc_ll t" and ?c = "\<lambda>r. Option.bind r (Exec_callback (jtag_medium b) (conc_ll t))"
  let ?P = "\<lambda>r. \<exists>x. r = Some x \<and> host_ok acc got x \<and> rx x = rx s \<and> arq_of x t = arq_of s t"
  let ?R = "inv_image less_work (\<lambda>r. work ?o (the r))"
  have wf: "wf ?R" by (simp add: less_work_def wf_inv_image wf_lex_prod)
  have step: "?P (?c r) \<and> (?c r, r) \<in> ?R" if P: "?P r" "other_more t r" for r
  proof -
    obtain x where x: "r = Some x" "host_ok acc got x" "rx x = rx s" "arq_of x t = arq_of s t" using P(1) by blast
    have "HasSendData (arq_of x ?o)" using P(2) x(1) by (simp add: other_more_def)
    then obtain x' where "Exec_callback (jtag_medium b) ?o x = Some x'" "host_ok acc got x'" "rx x' = rx x"
      "\<And>u. u \<noteq> ?o \<Longrightarrow> arq_of x' u = arq_of x u" "(work ?o x', work ?o x) \<in> less_work"
      using callback_ok [OF x(2)] conc_ll [OF t] by blast
    then show ?thesis using x conc_ll [OF t] by auto
  qed
  obtain r where w: "while_option (other_more t) ?c (Some s) = Some r"
    using wf_while_option_Some [where P = ?P and b = "other_more t" and c = ?c and s = "Some s", OF wf_subset [OF wf]] step h by blast
  have "?P r" by (rule while_option_rule [where P = ?P, OF _ w]) (use step h in blast)+
  then show thesis using that w by (auto simp: serve_other_def)
qed

lemma Exec_ok:
  assumes "host_ok acc got s" "t < 2"
  obtains s' where "Exec (jtag_medium b) t s = Some s'" "host_ok acc got s'" "rx s' = rx s"
proof (cases "HasSendData (arq_of s t)")
  case True
  obtain x where x: "serve_other (jtag_medium b) t s = Some x" "host_ok acc got x" "rx x = rx s" "arq_of x t = arq_of s t"
    using serve_other_ok [OF assms] .
  have d: "HasSendData (arq_of x t)" using True x(4) by simp
  obtain s' where "exec_rest (jtag_medium b) t (exec_send (jtag_medium b) t x) = Some s'" "host_ok acc got s'"
      "rx s' = rx (exec_send (jtag_medium b) t x)"
    using exec_rest_ok [OF exec_send_ok [OF x(2) assms(2) d] assms(2)] by blast
  moreover have "rx (exec_send (jtag_medium b) t x) = rx x"
    by (simp add: exec_send_def s2_Send_def Let_def split: prod.split)
  ultimately show thesis using that [of s'] x(1,3) True by (simp add: Exec_def)
next
  case False
  then show thesis using exec_rest_ok [OF assms, of b] that by (auto simp: Exec_def)
qed

subsection \<open>Sessions\<close>

lemma link_Send_ok:
  assumes h: "host_ok acc got s" and t: "t < 2" and p: "pwrite p < 2"
  obtains r s' where "link_Send (jtag_medium b) t p s = Some (r, s')" "r = (if send_valids (arq_of s t) = 16 then 0 else 1)"
    "host_ok (if r = 1 then acc(t := acc t @ [p]) else acc) got s'" "rx s' = rx s"
proof -
  obtain r a where g: "Send p (arq_of s t) = (r, a)" by fastforce
  have o: "sys_ok (arq_of s) acc got (dev s)" using h by (simp add: host_ok_def)
  then have n: "reach SEQ_SIZE WND_SIZE (tag_net (arq_of s t) (acc t) (got t) (dev s) t)" "end_ok t (arq_of s t)" using t by (simp_all add: sys_ok_def)
  obtain sw sp where "snd_inv SEQ_SIZE WND_SIZE (arq_of s t) sw sp (acc t)" using host_snd [OF h t] .
  then have r: "r = (if send_valids (arq_of s t) = 16 then 0 else 1)"
    using g by (auto simp: Send_def snd_inv_def well_sized_def WND_SIZE_def split: if_splits)
  have "reach SEQ_SIZE WND_SIZE (tag_net a (if r = 1 then acc t @ [p] else acc t) (got t) (dev s) t)"
    using reach.left [OF n(1) step.send [of p _ r a]] g by (auto simp: tag_net_def split: if_splits)
  moreover have "end_ok t a" using end_ok_frames(3) [OF n(2) p] g by simp
  ultimately have "sys_ok ((arq_of s)(t := a)) (if r = 1 then acc(t := acc t @ [p]) else acc) got (dev s)"
    by (intro sys_ok_left [OF o t]) (auto split: if_splits)
  moreover have "tmax (SendTimer a) = tmax (SendTimer (arq_of s t))" using tmax_frames(3) [of p "arq_of s t"] g by simp
  ultimately have "host_ok (if r = 1 then acc(t := acc t @ [p]) else acc) got (set_arq t a s)"
    using h unfolding host_ok_def by (simp add: fun_upd_def)
  then obtain s' where s': "Exec (jtag_medium b) t (set_arq t a s) = Some s'"
      "host_ok (if r = 1 then acc(t := acc t @ [p]) else acc) got s'" "rx s' = rx (set_arq t a s)"
    using Exec_ok [OF _ t] by blast
  have "link_Send (jtag_medium b) t p s = Some (r, s')" using g s'(1) by (simp add: link_Send_def)
  then show thesis using that r s'(2,3) by simp
qed

lemma link_Read_ok:
  assumes h: "host_ok acc got s" and t: "t < 2" and d: "HasReadData (arq_of s t)"
  obtains x s' where "link_Read t s = Some (x, s')" "host_ok acc (got(t := got t @ [x])) s'" "rx s' = rx s"
proof -
  obtain x a where g: "Read (arq_of s t) = Some (x, a)" using d by (simp add: Read_def)
  have o: "sys_ok (arq_of s) acc got (dev s)" using h by (simp add: host_ok_def)
  then have n: "reach SEQ_SIZE WND_SIZE (tag_net (arq_of s t) (acc t) (got t) (dev s) t)" "end_ok t (arq_of s t)" using t by (simp_all add: sys_ok_def)
  have "reach SEQ_SIZE WND_SIZE (tag_net a (acc t) (got t @ [x]) (dev s) t)"
    using reach.left [OF n(1) step.read [of _ x a]] g by (simp add: tag_net_def)
  then have "sys_ok ((arq_of s)(t := a)) acc (got(t := got t @ [x])) (dev s)"
    by (intro sys_ok_left [OF o t end_ok_frames(4) [OF n(2) g]]) simp_all
  then have "host_ok acc (got(t := got t @ [x])) (set_arq t a s)"
    using h tmax_frames(4) [OF g] unfolding host_ok_def by (simp add: fun_upd_def)
  then show thesis using that [of x "set_arq t a s"] g by (simp add: link_Read_def)
qed

text \<open>What the callers of \<open>recvData\<close> took, with what waits for them, is what the link layer read.\<close>

definition user_ok :: "(nat \<Rightarrow> ci_payload list) \<Rightarrow> (nat \<Rightarrow> ci_payload list) \<Rightarrow> chip s2comm \<Rightarrow> bool" where
  "user_ok acc took s \<longleftrightarrow> host_ok acc (\<lambda>u. took u @ rx s u) s"

lemma host_ok_rx [simp]: "host_ok acc got (s\<lparr>rx := x\<rparr>) = host_ok acc got s"
  by (simp add: host_ok_def)

lemma issue_ok:
  assumes u: "user_ok acc took s" and t: "t < 2" and p: "pwrite p < 2"
  obtains r s' where "s2_issueCommand (jtag_medium b) t p s = Some (r, s')"
    "r = (if send_valids (arq_of s t) = 16 then Inl Runtime_error else Inr 1)"
    "user_ok (if r = Inr 1 then acc(t := acc t @ [p]) else acc) took s'"
proof -
  have h: "host_ok acc (\<lambda>u. took u @ rx s u) s" using u by (simp add: user_ok_def)
  obtain r s1 where s1: "link_Send (jtag_medium b) t p s = Some (r, s1)" "r = (if send_valids (arq_of s t) = 16 then 0 else 1)"
    "host_ok (if r = 1 then acc(t := acc t @ [p]) else acc) (\<lambda>u. took u @ rx s u) s1" "rx s1 = rx s"
    using link_Send_ok [OF h t p] .
  show thesis
  proof (cases "send_valids (arq_of s t) = 16")
    case True
    then show thesis using that [of "Inl Runtime_error" s1] s1 by (simp add: s2_issueCommand_def user_ok_def)
  next
    case False
    show thesis
    proof (cases "HasReadData (arq_of s1 t)")
      case True
      obtain x s2 where s2: "link_Read t s1 = Some (x, s2)"
          "host_ok (acc(t := acc t @ [p])) ((\<lambda>u. took u @ rx s u)(t := (took t @ rx s t) @ [x])) s2" "rx s2 = rx s1"
        using link_Read_ok [OF s1(3) t True] s1(2) False by auto
      let ?s3 = "s2\<lparr>rx := (rx s2)(t := rx s2 t @ [x])\<rparr>"
      have "(\<lambda>u. took u @ rx ?s3 u) = (\<lambda>u. took u @ rx s u)(t := (took t @ rx s t) @ [x])" using s1(4) s2(3) by (auto simp: fun_eq_iff)
      then have "user_ok (acc(t := acc t @ [p])) took ?s3" using s2(2) unfolding user_ok_def by simp
      moreover have "s2_issueCommand (jtag_medium b) t p s = Some (Inr 1, ?s3)"
        using s1(1,2) False True s2(1) by (simp add: s2_issueCommand_def)
      ultimately show thesis using that False by simp
    next
      case no: False
      then show thesis using that [of "Inr 1" s1] s1 False by (simp add: s2_issueCommand_def user_ok_def)
    qed
  qed
qed

lemma recv_ok:
  assumes "user_ok acc took s" "s2_recvData t s = (Inr x, s')"
  shows "user_ok acc (took(t := took t @ [x])) s'"
proof -
  obtain ds where d: "rx s t = x # ds" "s' = s\<lparr>rx := (rx s)(t := ds)\<rparr>"
    using assms(2) by (auto simp: s2_recvData_def split: list.splits)
  have "(\<lambda>u. (took(t := took t @ [x])) u @ rx s' u) = (\<lambda>u. took u @ rx s u)" using d by (auto simp: fun_eq_iff)
  then show ?thesis using assms(1) d(2) by (simp add: user_ok_def)
qed

lemma clear_ok:
  assumes "sys_ok (arq_of s) acc (\<lambda>u. took u @ rx s u) (dev s)" "plan_ok (dev s)" "\<forall>t < 2. tmax (SendTimer (arq_of s t)) = 32"
  shows "user_ok acc took (s2_Clear (jtag_medium b) s)"
  using chip_next_ok [OF assms(1,2)] assms(3) by (simp add: user_ok_def host_ok_def s2_Clear_def s2_Receive_shape Let_def)

text \<open>A new object after the chip's ARQs were reset and \<open>Clear\<close> was called, with any chip and plan.\<close>

definition s2_new :: "(nat \<Rightarrow> ci_payload arq) \<Rightarrow> 'e \<Rightarrow> 'e s2comm" where
  "s2_new mem d = \<lparr>link_layers = (\<lambda>t. LinkLayer_new (mem t) t), readdata = packet_clear, lastread = packet_clear, valid = False,
     rx = (\<lambda>t. []), dev = d\<rparr>"

definition chip_new :: "chip \<Rightarrow> bool" where
  "chip_new c \<longleftrightarrow> (\<forall>t < 2. \<exists>mem d st rt. chip_arq c t = ARQ_new mem d (of_nat t) SEQ_SIZE WND_SIZE st rt \<and> pwrite d < 2 \<and>
     to_chip c t = [] \<and> chip_sent c t = [] \<and> chip_read c t = []) \<and> \<not> live c"

text \<open>The calls in any order; \<open>acc\<close> are the commands accepted and \<open>took\<close> what \<open>recvData\<close> returned.\<close>

inductive session :: "ci_payload packet \<Rightarrow> (nat \<Rightarrow> ci_payload list) \<Rightarrow> (nat \<Rightarrow> ci_payload list) \<Rightarrow> chip s2comm \<Rightarrow> bool" for b where
  begins: "chip_new c \<Longrightarrow> plan_ok c \<Longrightarrow> session b (\<lambda>t. []) (\<lambda>t. []) (s2_Clear (jtag_medium b) (s2_new mem c))"
| issues: "session b acc took s \<Longrightarrow> t < 2 \<Longrightarrow> pwrite p < 2 \<Longrightarrow> s2_issueCommand (jtag_medium b) t p s = Some (r, s') \<Longrightarrow>
     session b (if r = Inr 1 then acc(t := acc t @ [p]) else acc) took s'"
| receives: "session b acc took s \<Longrightarrow> s2_recvData t s = (Inr x, s') \<Longrightarrow> session b acc (took(t := took t @ [x])) s'"
| flushes: "session b acc took s \<Longrightarrow> s2_Flush (jtag_medium b) s = Some s' \<Longrightarrow> session b acc took s'"
| clears: "session b acc took s \<Longrightarrow> session b acc took (s2_Clear (jtag_medium b) s)"

lemma new_ok:
  assumes "chip_new c" "plan_ok c"
  shows "user_ok (\<lambda>t. []) (\<lambda>t. []) (s2_Clear (jtag_medium b) (s2_new mem c))"
proof (rule clear_ok)
  have n: "end_ok t (ARQ_new mem d (of_nat t) SEQ_SIZE WND_SIZE st rt)" if "pwrite d < 2" for mem d st rt t
    using that by (simp add: end_ok_def ARQ_new_def Reset_def WND_SIZE_def)
  have r: "reach SEQ_SIZE WND_SIZE (tag_net (ARQ_new mem d (of_nat t) SEQ_SIZE WND_SIZE SEND_TIMEOUT RECV_TIMEOUT) [] [] c t)"
    if tt: "t < 2" for t mem d
  proof -
    obtain mem' d' st rt where "chip_arq c t = ARQ_new mem' d' (of_nat t) SEQ_SIZE WND_SIZE st rt"
      "to_chip c t = []" "chip_sent c t = []" "chip_read c t = []" using assms(1) tt unfolding chip_new_def by blast
    then show ?thesis using assms(1) by (intro reach.start) (simp_all add: tag_net_def pending_def chip_new_def)
  qed
  show "sys_ok (arq_of (s2_new mem c)) (\<lambda>t. []) (\<lambda>u. [] @ rx (s2_new mem c) u) (dev (s2_new mem c))"
    unfolding sys_ok_def using n r assms(1) by (auto simp: s2_new_def LinkLayer_new_def chip_new_def)
  show "plan_ok (dev (s2_new mem c))" using assms(2) by (simp add: s2_new_def)
  show "\<forall>t < 2. tmax (SendTimer (arq_of (s2_new mem c) t)) = 32"
    by (simp add: s2_new_def LinkLayer_new_def ARQ_new_def Reset_def Stop_def Timer_new_def SEND_TIMEOUT_def WND_SIZE_def)
qed

lemma s2_Flush_ok: "user_ok acc took s \<Longrightarrow> \<exists>s'. s2_Flush (jtag_medium b) s = Some s' \<and> user_ok acc took s'"
proof -
  assume "user_ok acc took s"
  then have h: "host_ok acc (\<lambda>u. took u @ rx s u) s" by (simp add: user_ok_def)
  obtain s1 where s1: "Exec (jtag_medium b) 0 s = Some s1" "host_ok acc (\<lambda>u. took u @ rx s u) s1" "rx s1 = rx s"
    using Exec_ok [OF h, of 0] by auto
  obtain s2 where "Exec (jtag_medium b) 1 s1 = Some s2" "host_ok acc (\<lambda>u. took u @ rx s u) s2" "rx s2 = rx s1"
    using Exec_ok [OF s1(2), of 1] by auto
  then show ?thesis using s1 by (simp add: s2_Flush_def user_ok_def)
qed

lemma session_ok: "session b acc took s \<Longrightarrow> user_ok acc took s"
proof (induction rule: session.induct)
  case (issues acc took s t p r s')
  obtain r' s'' where "s2_issueCommand (jtag_medium b) t p s = Some (r', s'')"
      "user_ok (if r' = Inr 1 then acc(t := acc t @ [p]) else acc) took s''"
    using issue_ok [OF issues.IH issues(2,3)] by blast
  then show ?case using issues(4) by simp
next
  case (flushes acc took s s')
  obtain s'' where "s2_Flush (jtag_medium b) s = Some s''" "user_ok acc took s''" using s2_Flush_ok [OF flushes.IH] by blast
  then show ?case using flushes(2) by simp
next
  case (clears acc took s)
  then show ?case by (intro clear_ok) (simp_all add: user_ok_def host_ok_def)
next
  case (begins c)
  then show ?case by (rule new_ok)
next
  case (receives acc took s t x s')
  then show ?case by (intro recv_ok)
qed

text \<open>Claim C31: Over any sequence of calls, and whatever the chip does in between and the medium loses, what the chip's
  user has taken is a prefix of the commands accepted for its tag, and what \<open>recvData\<close> has returned, with what is
  queued for it, is a prefix of the chip's answers.\<close>

theorem software_link_in_order:
  assumes "session b acc took s" "t < 2"
  shows "prefix (chip_read (dev s) t) (acc t) \<and> prefix (took t @ rx s t) (chip_sent (dev s) t)"
  using link_sizes.reach_prefix [OF host_reach [OF session_ok [OF assms(1), unfolded user_ok_def] assms(2)]] by (simp add: tag_net_def)

text \<open>Claim C32: Every command call returns, however long the chip goes on answering; it fails exactly when sixteen
  commands of the tag wait for their ack, and then the command is not taken.\<close>

theorem software_link_returns:
  assumes "session b acc took s" "t < 2" "pwrite p < 2"
  shows "\<exists>s'. s2_issueCommand (jtag_medium b) t p s =
    Some (if send_valids (arq_of s t) = 16 then Inl Runtime_error else Inr 1, s') \<and>
    session b (if send_valids (arq_of s t) = 16 then acc else acc(t := acc t @ [p])) took s'"
proof -
  obtain r s' where i: "s2_issueCommand (jtag_medium b) t p s = Some (r, s')"
    "r = (if send_valids (arq_of s t) = 16 then Inl Runtime_error else Inr 1)"
    using issue_ok [OF session_ok [OF assms(1)] assms(2,3)] by blast
  then show ?thesis using session.issues [OF assms i(1)] by auto
qed

subsection \<open>The transport as the control modules see it\<close>

text \<open>The communication object of \<open>Ctrlmod\<close> for this transport, with what is to happen next.\<close>

definition as_bus :: "(u32 \<times> ci_payload) list \<Rightarrow> 'e s2comm \<Rightarrow> (bool \<times> ci_payload option) list \<Rightarrow> bus" where
  "as_bus l s e = \<lparr>issued = l, rxdata = (\<lambda>u. rx s (unat u)), env = e\<rparr>"

lemma exec_send_rx: "rx (exec_send m t s) = rx s"
  by (simp add: exec_send_def s2_Send_def Let_def split: prod.split)

lemma exec_rest_rx: "exec_rest m t s = Some s' \<Longrightarrow> rx s' = rx s"
  by (auto simp: exec_rest_def exec_receive_def exec_tick_def s2_HasReadData_def s2_Read_def s2_Receive_def Let_def
      split: if_splits prod.splits option.splits)

lemma Exec_rx:
  assumes "Exec m t s = Some s'"
  shows "rx s' = rx s"
proof (cases "HasSendData (arq_of s t)")
  case True
  then obtain x where x: "serve_other m t s = Some x" "exec_rest m t (exec_send m t x) = Some s'"
    using assms by (auto simp: Exec_def bind_eq_Some_conv)
  let ?P = "\<lambda>r. \<forall>y. r = Some y \<longrightarrow> rx y = rx s"
  from x(1) have w: "while_option (other_more t) (\<lambda>r. Option.bind r (Exec_callback m (conc_ll t))) (Some s) = Some (Some x)"
    by (auto simp: serve_other_def bind_eq_Some_conv)
  have "?P (Some x)"
    by (rule while_option_rule [where P = ?P, OF _ w])
      (auto simp: bind_eq_Some_conv Exec_callback_def exec_send_rx dest!: exec_rest_rx split: if_splits)
  then show ?thesis using exec_rest_rx [OF x(2)] by (simp add: exec_send_rx)
next
  case False
  then show ?thesis using assms exec_rest_rx by (simp add: Exec_def)
qed

lemma as_bus_push: "t < 2 \<Longrightarrow> rx s' = (rx s)(t := rx s t @ [x]) \<Longrightarrow>
  (\<lambda>u. rx s' (unat u)) = (\<lambda>u. rx s (unat (u :: u32)))(of_nat t := rx s t @ [x])"
proof -
  assume t: "t < 2" and r: "rx s' = (rx s)(t := rx s t @ [x])"
  have "unat (of_nat t :: u32) = t" using t by (auto simp: less_2_cases_iff)
  then have "unat u = t \<longleftrightarrow> u = of_nat t" for u :: u32 by auto
  then show ?thesis using r by (auto simp: fun_eq_iff)
qed


subsection \<open>A read command and its answer\<close>

definition link_blank :: "ci_payload arq" where
  "link_blank = \<lparr>tagid = 0, SEQ_S = 0, WND_S = 0, sendbuf = [], seqpos = 0, wndpos = 0, sendpos = 0,
     SendTimer = Timer_new 0 0, recbuf = [], recvalids = [], recwndpos = 0, recackpos = 0,
     RecvTimer = Timer_new 0 0, tx_timeout_num = 0, rx_timeout_num = 0, rx_pck_num = 0,
     tx_pck_num = 0, rx_drop_num = 0\<rparr>"

definition cmd1 :: ci_payload where "cmd1 = \<lparr>pwrite = 0, paddr = 5, pdat = 7\<rparr>"
definition ans1 :: ci_payload where "ans1 = \<lparr>pwrite = 0, paddr = 5, pdat = 42\<rparr>"

definition chip1 :: chip where
  "chip1 = \<lparr>chip_arq = (\<lambda>t. ARQ_new link_blank \<lparr>pwrite = 0, paddr = 0, pdat = 0\<rparr> (of_nat t) SEQ_SIZE WND_SIZE 10 0),
     to_chip = (\<lambda>t. []), reg = 0x1234, live = False, chip_sent = (\<lambda>t. []), chip_read = (\<lambda>t. []),
     plan = [[], [], [Deliver 0, Fetch 0, Answer 0 ans1, Emit 0]]\<rparr>"

definition blank1 :: "ci_payload packet" where "blank1 = mk_packet 0 False 0 0 \<lparr>pwrite = 0, paddr = 0, pdat = 0\<rparr>"

definition host0 :: "chip s2comm" where "host0 = s2_Clear (jtag_medium blank1) (s2_new (\<lambda>_. link_blank) chip1)"
definition host1 :: "chip s2comm" where "host1 = snd (the (s2_issueCommand (jtag_medium blank1) 0 cmd1 host0))"
definition host2 :: "chip s2comm" where "host2 = snd (s2_recvData 0 host1)"

lemma session0: "session blank1 (\<lambda>t. []) (\<lambda>t. []) host0"
proof -
  have "pwrite \<lparr>pwrite = 0, paddr = 0, pdat = 0\<rparr> < 2" by simp
  then have "chip_new chip1" unfolding chip_new_def chip1_def chip.select_convs by blast
  then show ?thesis unfolding host0_def by (rule session.begins) (auto simp: chip1_def plan_ok_def ans1_def)
qed

lemma host_eval:
  "(case s2_issueCommand (jtag_medium blank1) 0 cmd1 host0 of None \<Rightarrow> None | Some (r, s) \<Rightarrow>
      (case s2_recvData 0 s of (x, u) \<Rightarrow> Some (r, x, chip_read (dev u) 0, chip_sent (dev u) 0, rx u 0))) =
    Some (Inr 1, Inr ans1, [cmd1], [ans1], [])"
  by code_simp

lemma host_runs:
  "s2_issueCommand (jtag_medium blank1) 0 cmd1 host0 = Some (Inr 1, host1)" "s2_recvData 0 host1 = (Inr ans1, host2)"
  "chip_read (dev host2) 0 = [cmd1]" "chip_sent (dev host2) 0 = [ans1]" "rx host2 0 = []"
  using host_eval by (auto simp: host1_def host2_def split: option.splits prod.splits)

lemma session2: "session blank1 ((\<lambda>t. [])(0 := [cmd1])) ((\<lambda>t. [])(0 := [ans1])) host2"
proof -
  have "session blank1 ((\<lambda>t. [])(0 := [cmd1])) (\<lambda>t. []) host1"
    using session.issues [OF session0 _ _ host_runs(1)] by (simp add: cmd1_def)
  then show ?thesis using session.receives [OF _ host_runs(2)] by fastforce
qed

theorem software_link_in_order_witness:
  "chip_read (dev host2) 0 = [cmd1] \<and> prefix [cmd1] [cmd1] \<and> prefix [ans1] [ans1]"
  using software_link_in_order [OF session2, of 0] host_runs(3-5) by simp

theorem software_link_returns_witness:
  "\<exists>s'. s2_issueCommand (jtag_medium blank1) 1 cmd1 host0 = Some (Inr 1, s')"
proof -
  have "arq_of host0 1 = arq (LinkLayer_new link_blank 1)"
    by (simp add: host0_def s2_Clear_def s2_Receive_shape s2_new_def Let_def)
  then have "send_valids (arq_of host0 1) \<noteq> 16"
    by (simp add: LinkLayer_new_def ARQ_new_def Reset_def send_valids_def SEQ_SIZE_def)
  then show ?thesis using software_link_returns [OF session0, of 1 cmd1] by (auto simp: cmd1_def)
qed


end
