(* ===== verification/Jtag_targets.thy ===== *)
theory Jtag_targets
  imports Prelude "HOL-Library.Multiset"
begin

text \<open>
  The table of known JTAG devices (\<open>jtag_targets.cpp\<close>) and the line of text \<open>jtag_access::addDeviceData\<close> builds for it:
  the parser of device files, one character after the other, the sorted table, and the search for an identification.
  The results: what the parser puts into the table is well formed whatever the file holds; a device that was added is
  found with its own data although more general entries match it too; a blank behind a device name makes the parser write
  outside its buffer, and a comment there drops the device.
\<close>

subsection \<open>State\<close>

text \<open>
  The arrays of a \<open>target_info\<close> are lists of their length, a missing string end being visible as such. The
  identification has one character for every bit, highest first. Position and file name for messages are left out.
\<close>

record target_info =
  szIdcode :: string
  uiIRLength :: u8
  szDeviceName :: string

record targets =
  jtagTargets :: "target_info list"
  tempJtagTargets :: "target_info list"
  targetInfo :: target_info
  uiNumber :: int
  uiNumberPos :: u8

definition isblank :: "char \<Rightarrow> bool" where
  "isblank c = (c = CHR '' '' \<or> c = CHR 0x09)"

definition isdigit :: "char \<Rightarrow> bool" where
  "isdigit c = (48 \<le> (of_char c :: nat) \<and> (of_char c :: nat) \<le> 57)"

definition idchar :: "char \<Rightarrow> bool" where
  "idchar c = (c = CHR ''0'' \<or> c = CHR ''1'' \<or> c = CHR ''x'' \<or> c = CHR ''X'')"

definition namechar :: "char \<Rightarrow> bool" where
  "namechar c = (44 < (of_char c :: nat) \<and> (of_char c :: nat) < 127)"

text \<open>Writes to the two arrays; outside an array anything may happen.\<close>

definition put_id :: "u8 \<Rightarrow> char \<Rightarrow> (targets, unit) hal" where
  "put_id i c = (\<lambda>t. let ti = targetInfo t in
     if unat i < length (szIdcode ti) then (Inr (), t\<lparr>targetInfo := ti\<lparr>szIdcode := (szIdcode ti)[unat i := c]\<rparr>\<rparr>)
     else (Inl Undefined_behaviour, t))"

definition put_name :: "u8 \<Rightarrow> char \<Rightarrow> (targets, unit) hal" where
  "put_name i c = (\<lambda>t. let ti = targetInfo t in
     if unat i < length (szDeviceName ti) then (Inr (), t\<lparr>targetInfo := ti\<lparr>szDeviceName := (szDeviceName ti)[unat i := c]\<rparr>\<rparr>)
     else (Inl Undefined_behaviour, t))"

definition set_pos :: "u8 \<Rightarrow> (targets, unit) hal" where
  "set_pos p = hmodify (\<lambda>t. t\<lparr>uiNumberPos := p\<rparr>)"

subsection \<open>The parts of a line\<close>

text \<open>The result is \<open>None\<close> for an error, else whether the part has ended.\<close>

definition parseIdcode :: "char \<Rightarrow> bool \<Rightarrow> (targets, bool option) hal" where
  "parseIdcode c bStart = (\<lambda>t. let pos = uiNumberPos t; d = (if c = CHR ''X'' then CHR ''x'' else c) in
     if bStart then
       (if idchar c then hseq (put_id 0 d) (hseq (set_pos 1) (hret (Some False))) t else (Inr None, t))
     else if idchar c then
       (if pos = 32 then (Inr None, t) else hseq (put_id pos d) (hseq (set_pos (pos + 1)) (hret (Some False))) t)
     else if isblank c then (Inr (if pos \<noteq> 32 then None else Some False), t)
     else if c = CHR '','' then (Inr (if pos \<noteq> 32 then None else Some True), t)
     else if c = CHR ''_'' then (Inr (if pos = 32 then None else Some False), t)
     else (Inr None, t))"

definition parseNumber :: "char \<Rightarrow> (targets, bool option) hal" where
  "parseNumber c = (\<lambda>t.
     if isblank c then (Inr (Some False), if uiNumber t \<ge> 0 then t\<lparr>uiNumberPos := 255\<rparr> else t)
     else if isdigit c then
       (if uiNumberPos t = 255 then (Inr None, t)
        else let n = (if uiNumber t < 0 then 0 else uiNumber t) * 10 + (int (of_char c) - 48) in
          (Inr (if n > 255 then None else Some False), t\<lparr>uiNumber := n, uiNumberPos := uiNumberPos t + 1\<rparr>))
     else if c = CHR '','' then (Inr (if uiNumberPos t = 0 then None else Some True), t)
     else (Inr None, t))"

definition parseDeviceName :: "char \<Rightarrow> (targets, bool option) hal" where
  "parseDeviceName c = (\<lambda>t.
     if isblank c then (Inr (Some False), if uiNumber t \<ge> 0 then t\<lparr>uiNumberPos := 255\<rparr> else t)
     else if namechar c then
       (let t1 = t\<lparr>uiNumber := 0\<rparr>; pos = uiNumberPos t in
        if pos = 127 \<or> pos = 255 then (Inr None, t1)
        else hseq (put_name pos c) (hseq (set_pos (pos + 1)) (hret (Some False))) t1)
     else if c = CHR 0x0A \<or> c = CHR ''#'' then
       (if uiNumberPos t = 0 then (Inr None, t) else hseq (put_name (uiNumberPos t) (CHR 0x00)) (hret (Some True)) t)
     else (Inr None, t))"

definition insertTarget :: "targets \<Rightarrow> targets" where
  "insertTarget t = t\<lparr>tempJtagTargets := tempJtagTargets t @ [targetInfo t]\<rparr>"

subsection \<open>The parser\<close>

datatype parser_state = SOL | COMMENT | IDCODE | IRLENGTH | DEVICETYPE | DEVICESUBTYPE | DEVICENAME

text \<open>What follows the end of a part; \<open>None\<close> ends the parser with an error.\<close>

definition go_on :: "parser_state \<Rightarrow> parser_state \<Rightarrow> (targets \<Rightarrow> targets) \<Rightarrow> bool option \<Rightarrow> (targets, parser_state option) hal" where
  "go_on stay next f r = (\<lambda>t. case r of None \<Rightarrow> (Inr None, t) | Some False \<Rightarrow> (Inr (Some stay), t) | Some True \<Rightarrow> (Inr (Some next), f t))"

definition start_number :: "targets \<Rightarrow> targets" where
  "start_number t = t\<lparr>uiNumber := -1, uiNumberPos := 0\<rparr>"

definition take_irlength :: "targets \<Rightarrow> targets" where
  "take_irlength t = start_number (t\<lparr>targetInfo := (targetInfo t)\<lparr>uiIRLength := word_of_int (uiNumber t)\<rparr>\<rparr>)"

fun parse_char :: "parser_state \<Rightarrow> char \<Rightarrow> (targets, parser_state option) hal" where
  "parse_char SOL c = hseq (hmodify (\<lambda>t. t\<lparr>targetInfo := (targetInfo t)\<lparr>uiIRLength := 0\<rparr>\<rparr>))
     (if c = CHR 0x0A \<or> isblank c then hret (Some SOL)
      else if c = CHR ''#'' then hret (Some COMMENT)
      else hbind (parseIdcode c True) (\<lambda>r. hret (map_option (\<lambda>_. IDCODE) r)))"
| "parse_char COMMENT c = hret (Some (if c = CHR 0x0A then SOL else COMMENT))"
| "parse_char IDCODE c = hbind (parseIdcode c False) (go_on IDCODE IRLENGTH start_number)"
| "parse_char IRLENGTH c = hbind (parseNumber c) (go_on IRLENGTH DEVICETYPE take_irlength)"
| "parse_char DEVICETYPE c = hbind (parseNumber c) (go_on DEVICETYPE DEVICESUBTYPE start_number)"
| "parse_char DEVICESUBTYPE c = hbind (parseNumber c) (go_on DEVICESUBTYPE DEVICENAME start_number)"
| "parse_char DEVICENAME c = hbind (parseDeviceName c)
     (if c = CHR ''#'' then go_on DEVICENAME COMMENT id else go_on DEVICENAME SOL insertTarget)"

fun parse_chars :: "string \<Rightarrow> parser_state \<Rightarrow> (targets, parser_state option) hal" where
  "parse_chars [] st = hret (Some st)"
| "parse_chars (c # cs) st = hbind (parse_char st c) (\<lambda>r. case r of None \<Rightarrow> hret None | Some st1 \<Rightarrow> parse_chars cs st1)"

text \<open>The order of the table: 0 before 1 before x at the first difference.\<close>

fun id_less :: "string \<Rightarrow> string \<Rightarrow> bool" where
  "id_less (a # as) (b # bs) = (if a \<noteq> b then a = CHR ''0'' \<or> a = CHR ''1'' \<and> b = CHR ''x'' else id_less as bs)"
| "id_less _ _ = False"

definition targetInfoCmp :: "target_info \<Rightarrow> target_info \<Rightarrow> bool" where
  "targetInfoCmp p1 p2 = id_less (szIdcode p1) (szIdcode p2)"

text \<open>\<open>std::sort\<close>, which leaves the order of equal elements open, is the parameter \<open>srt\<close>. An unfinished last line is only
  reported; the targets of the lines before it are inserted.\<close>

definition addDeviceData :: "(target_info list \<Rightarrow> target_info list) \<Rightarrow> string \<Rightarrow> (targets, bool) hal" where
  "addDeviceData srt buf = hbind (parse_chars buf SOL) (\<lambda>r. case r of None \<Rightarrow> hret False
     | Some st \<Rightarrow> hseq (hmodify (\<lambda>t. t\<lparr>jtagTargets := srt (jtagTargets t @ tempJtagTargets t), tempJtagTargets := []\<rparr>)) (hret True))"

subsection \<open>The search\<close>

definition id_string :: "u32 \<Rightarrow> string" where
  "id_string w = map (\<lambda>i. if bit w (31 - i) then CHR ''1'' else CHR ''0'') [0..<32]"

definition id_match :: "string \<Rightarrow> string \<Rightarrow> bool" where
  "id_match p s = list_all2 (\<lambda>a b. a = b \<or> a = CHR ''x'') p s"

definition getDeviceInfoForIdcode :: "targets \<Rightarrow> u32 \<Rightarrow> target_info option" where
  "getDeviceInfoForIdcode t w = find (\<lambda>ti. id_match (szIdcode ti) (id_string w)) (jtagTargets t)"

text \<open>The string an array holds.\<close>

definition cstr :: "string \<Rightarrow> string" where
  "cstr = takeWhile (\<lambda>c. c \<noteq> CHR 0x00)"

subsection \<open>Adding one device\<close>

definition digit_char :: "nat \<Rightarrow> char" where
  "digit_char d = char_of (48 + d)"

text \<open>The line \<open>jtag_access::addDeviceData\<close> builds.\<close>

definition device_line :: "string \<Rightarrow> u32 \<Rightarrow> u8 \<Rightarrow> string" where
  "device_line name idcode irlen = (let n = unat irlen in
     id_string idcode @ CHR '','' # [digit_char (n div 100), digit_char (n mod 100 div 10), digit_char (n mod 10)]
       @ '',0,0,'' @ name @ [CHR 0x0A])"

definition add_device :: "(target_info list \<Rightarrow> target_info list) \<Rightarrow> string \<Rightarrow> u32 \<Rightarrow> u8 \<Rightarrow> (targets, bool) hal" where
  "add_device srt name idcode irlen =
     (if length name > 64 \<or> length name < 1 \<or> irlen < 2 \<or> idcode = 0xFFFFFFFF \<or> idcode = 0 then hret False
      else addDeviceData srt (device_line name idcode irlen))"

subsection \<open>Well-formed targets\<close>

definition idset :: "char set" where
  "idset = {CHR ''0'', CHR ''1'', CHR ''x''}"

definition wf_target :: "target_info \<Rightarrow> bool" where
  "wf_target ti = (length (szIdcode ti) = 32 \<and> set (szIdcode ti) \<subseteq> idset \<and> length (szDeviceName ti) = 128 \<and>
     cstr (szDeviceName ti) \<noteq> [] \<and> length (cstr (szDeviceName ti)) < 128 \<and> (\<forall>c\<in>set (cstr (szDeviceName ti)). namechar c))"

text \<open>The arrays have their lengths and the stored targets are well formed.\<close>

definition shaped :: "targets \<Rightarrow> bool" where
  "shaped t = (length (szIdcode (targetInfo t)) = 32 \<and> length (szDeviceName (targetInfo t)) = 128 \<and>
     (\<forall>ti\<in>set (jtagTargets t) \<union> set (tempJtagTargets t). wf_target ti))"

text \<open>What holds besides while a part is read.\<close>

fun part_ok :: "parser_state \<Rightarrow> targets \<Rightarrow> bool" where
  "part_ok SOL t = True"
| "part_ok COMMENT t = True"
| "part_ok IDCODE t = (1 \<le> unat (uiNumberPos t) \<and> unat (uiNumberPos t) \<le> 32 \<and> set (take (unat (uiNumberPos t)) (szIdcode (targetInfo t))) \<subseteq> idset)"
| "part_ok DEVICENAME t = (set (szIdcode (targetInfo t)) \<subseteq> idset \<and> (uiNumberPos t = 255 \<or>
     unat (uiNumberPos t) \<le> 127 \<and> (\<forall>c\<in>set (take (unat (uiNumberPos t)) (szDeviceName (targetInfo t))). namechar c)))"
| "part_ok _ t = (set (szIdcode (targetInfo t)) \<subseteq> idset)"

lemma set_take_upd: "i < length xs \<Longrightarrow> set (take (Suc i) (xs[i := c])) = insert c (set (take i xs))"
  by (simp add: take_Suc_conv_app_nth)

lemma u8_next: "unat (p :: u8) < 255 \<Longrightarrow> unat (p + 1) = Suc (unat p)"
  by (simp add: unat_word_ariths)

lemma unat_lt_255: "(p :: u8) \<noteq> 255 \<Longrightarrow> unat p < 255"
proof -
  assume "p \<noteq> 255"
  then have "unat p \<noteq> 255" using word_unat_eq_iff [of p 255] by simp
  moreover have "unat p < 256" using unsigned_less [of p] by simp
  ultimately show ?thesis by simp
qed

lemma not_blank_nl [simp]: "\<not> isblank (CHR 0x0A)" "\<not> isblank (CHR ''#'')" "\<not> namechar (CHR 0x0A)" "\<not> namechar (CHR ''#'')"
  "\<not> namechar (CHR 0x00)"
  by (simp_all add: isblank_def namechar_def)

lemma parse_id_ok:
  assumes "shaped t" "part_ok IDCODE t" "parse_char IDCODE c t = (r, t')"
  shows "\<exists>q. r = Inr q \<and> shaped t' \<and> (\<forall>st. q = Some st \<longrightarrow> part_ok st t')"
proof -
  let ?p = "uiNumberPos t"
  have p: "1 \<le> unat ?p" "unat ?p \<le> 32" "set (take (unat ?p) (szIdcode (targetInfo t))) \<subseteq> idset"
    and l: "length (szIdcode (targetInfo t)) = 32" using assms by (auto simp: shaped_def)
  show ?thesis
  proof (cases "idchar c \<and> ?p \<noteq> 32")
    case True
    then have "unat ?p \<noteq> 32" using word_unat_eq_iff [of ?p 32] by simp
    then have q: "unat ?p < 32" "unat (?p + 1) = Suc (unat ?p)" using p(2) u8_next [of ?p] by auto
    have c: "(if c = CHR ''X'' then CHR ''x'' else c) \<in> idset" using True by (auto simp: idchar_def idset_def)
    show ?thesis using assms(3,1) True p q l c
      by (auto simp: parseIdcode_def hseq_def hbind_def put_id_def set_pos_def go_on_def shaped_def set_take_upd Let_def)
  next
    case False
    have e: "unat ?p = 32" if "?p = 32" using that by simp
    show ?thesis
    proof (cases "c = CHR '','' \<and> ?p = 32")
      case True
      have "set (szIdcode (targetInfo t)) \<subseteq> idset" using p(3) True l by simp
      then show ?thesis using assms(3,1) True
        by (auto simp: parseIdcode_def hbind_def go_on_def shaped_def idchar_def isblank_def start_number_def Let_def)
    next
      case False
      then show ?thesis using assms \<open>\<not> (idchar c \<and> ?p \<noteq> 32)\<close>
        by (auto simp: parseIdcode_def hbind_def go_on_def Let_def split: if_splits)
    qed
  qed
qed

lemma parse_number_ok:
  assumes "parseNumber c t = (r, t')"
  shows "\<exists>q. r = Inr q \<and> targetInfo t' = targetInfo t \<and> jtagTargets t' = jtagTargets t \<and> tempJtagTargets t' = tempJtagTargets t"
  using assms by (auto simp: parseNumber_def Let_def split: if_splits)

lemma parse_fields_ok:
  assumes "st \<in> {IRLENGTH, DEVICETYPE, DEVICESUBTYPE}" "shaped t" "part_ok st t" "parse_char st c t = (r, t')"
  shows "\<exists>q. r = Inr q \<and> shaped t' \<and> (\<forall>st. q = Some st \<longrightarrow> part_ok st t')"
proof -
  obtain q1 t1 where n: "parseNumber c t = (Inr q1, t1)"
    and same: "targetInfo t1 = targetInfo t" "jtagTargets t1 = jtagTargets t" "tempJtagTargets t1 = tempJtagTargets t"
    using parse_number_ok [of c t] by (cases "parseNumber c t") auto
  have "shaped t1" "set (szIdcode (targetInfo t1)) \<subseteq> idset" using assms(1-3) same by (auto simp: shaped_def)
  then show ?thesis using assms(1,4) n
    by (cases q1) (auto simp: hbind_def go_on_def start_number_def take_irlength_def shaped_def split: bool.splits)
qed

lemma cstr_end:
  assumes "\<forall>c\<in>set (take k xs). namechar c" "k < length xs"
  shows "cstr (xs[k := CHR 0x00]) = take k xs"
proof -
  have "xs[k := CHR 0x00] = take k xs @ CHR 0x00 # drop (Suc k) xs" using assms(2) by (rule upd_conv_take_nth_drop)
  moreover have "\<forall>c\<in>set (take k xs). c \<noteq> CHR 0x00"
    using assms(1) not_blank_nl(5) by blast
  ultimately show ?thesis unfolding cstr_def by (simp add: takeWhile_append)
qed

lemma parse_name_ok:
  assumes "shaped t" "part_ok DEVICENAME t" "parse_char DEVICENAME c t = (r, t')"
  shows "(\<exists>q. r = Inr q \<and> shaped t' \<and> (\<forall>st. q = Some st \<longrightarrow> part_ok st t')) \<or>
    r = Inl Undefined_behaviour \<and> uiNumberPos t = 255 \<and> (c = CHR 0x0A \<or> c = CHR ''#'')"
proof -
  let ?p = "uiNumberPos t" and ?n = "szDeviceName (targetInfo t)"
  have l: "length ?n = 128" and i: "set (szIdcode (targetInfo t)) \<subseteq> idset" using assms(1,2) by (auto simp: shaped_def)
  consider (blank) "isblank c" | (name) "\<not> isblank c" "namechar c" | (nl) "c = CHR 0x0A \<or> c = CHR ''#''"
    | (other) "\<not> isblank c" "\<not> namechar c" "c \<noteq> CHR 0x0A" "c \<noteq> CHR ''#''" by auto
  then show ?thesis
  proof cases
    case blank
    then have "c \<noteq> CHR ''#''" by auto
    then show ?thesis using assms blank
      by (cases "uiNumber t \<ge> 0") (auto simp: parseDeviceName_def hbind_def go_on_def shaped_def)
  next
    case name
    have c: "c \<noteq> CHR ''#''" using name by auto
    show ?thesis
    proof (cases "?p = 127 \<or> ?p = 255")
      case True
      then show ?thesis using assms(1,3) name c by (auto simp: parseDeviceName_def hbind_def go_on_def shaped_def Let_def)
    next
      case False
      then have "unat ?p \<noteq> 127" "unat ?p \<le> 127" "\<forall>c\<in>set (take (unat ?p) ?n). namechar c"
        using assms(2) word_unat_eq_iff [of ?p 127] by auto
      moreover have "unat (?p + 1) = Suc (unat ?p)" using calculation(1,2) by (intro u8_next) simp
      ultimately show ?thesis using assms(1,3) False name c l i
        by (auto simp: parseDeviceName_def hbind_def hseq_def put_name_def set_pos_def go_on_def shaped_def set_take_upd Let_def)
    qed
  next
    case nl
    then have c: "\<not> isblank c" "\<not> namechar c" by auto
    show ?thesis
    proof (cases "?p = 255")
      case True
      then show ?thesis using assms(3) nl c l
        by (auto simp: parseDeviceName_def hbind_def hseq_def put_name_def Let_def)
    next
      case False
      then have p: "unat ?p \<le> 127" "\<forall>c\<in>set (take (unat ?p) ?n). namechar c" using assms(2) by auto
      let ?ti = "(targetInfo t)\<lparr>szDeviceName := ?n[unat ?p := CHR 0x00]\<rparr>"
      have cs: "cstr (?n[unat ?p := CHR 0x00]) = take (unat ?p) ?n" by (rule cstr_end [OF p(2)]) (use p(1) l in simp)
      have w: "wf_target ?ti" if "?p \<noteq> 0"
        using p l i that assms(1) unfolding wf_target_def by (auto simp: cs shaped_def unat_eq_0)
      show ?thesis
      proof (cases "?p = 0")
        case True
        then show ?thesis using assms(1,3) nl c by (auto simp: parseDeviceName_def hbind_def go_on_def)
      next
        case False
        have "parseDeviceName c t = (Inr (Some True), t\<lparr>targetInfo := ?ti\<rparr>)"
          using False nl c p(1) l by (auto simp: parseDeviceName_def hbind_def hseq_def put_name_def Let_def)
        then show ?thesis using assms(1,3) nl w [OF False]
          by (auto simp: hbind_def go_on_def insertTarget_def shaped_def)
      qed
    qed
  next
    case other
    then show ?thesis using assms(1,3) by (auto simp: parseDeviceName_def hbind_def go_on_def)
  qed
qed

lemma parse_sol_ok:
  assumes "shaped t" "parse_char SOL c t = (r, t')"
  shows "\<exists>q. r = Inr q \<and> shaped t' \<and> (\<forall>st. q = Some st \<longrightarrow> part_ok st t')"
proof -
  have l: "length (szIdcode (targetInfo t)) = 32" using assms(1) by (simp add: shaped_def)
  have h: "take (Suc 0) ((szIdcode (targetInfo t))[0 := d]) = [d]" for d using l by (cases "szIdcode (targetInfo t)") auto
  show ?thesis using assms l h
    by (auto simp: hseq_def hbind_def hmodify_def parseIdcode_def put_id_def set_pos_def shaped_def idchar_def idset_def Let_def
        split: if_splits)
qed

lemma parse_char_ok:
  assumes "shaped t" "part_ok st t" "parse_char st c t = (r, t')"
  shows "(\<exists>q. r = Inr q \<and> shaped t' \<and> (\<forall>st. q = Some st \<longrightarrow> part_ok st t')) \<or>
    r = Inl Undefined_behaviour \<and> st = DEVICENAME \<and> uiNumberPos t = 255 \<and> (c = CHR 0x0A \<or> c = CHR ''#'')"
proof (cases st)
  case SOL then show ?thesis using parse_sol_ok assms(1,3) by auto
next
  case COMMENT then show ?thesis using assms by auto
next
  case IDCODE then show ?thesis using parse_id_ok assms by blast
next
  case DEVICENAME then show ?thesis using parse_name_ok assms by blast
qed (use parse_fields_ok [OF _ assms] in auto)

lemma parse_chars_ok:
  "shaped t \<Longrightarrow> part_ok st t \<Longrightarrow> parse_chars cs st t = (r, t') \<Longrightarrow> r = Inl Undefined_behaviour \<or> (\<exists>q. r = Inr q) \<and> shaped t'"
proof (induction cs arbitrary: st t)
  case Nil then show ?case by auto
next
  case (Cons c cs)
  obtain r1 t1 where s: "parse_char st c t = (r1, t1)" by fastforce
  show ?case
  proof (cases r1)
    case (Inl e) then show ?thesis using parse_char_ok [OF Cons.prems(1,2) s] Cons.prems(3) s by (simp add: hbind_def)
  next
    case (Inr q1)
    then have "shaped t1" "\<forall>st. q1 = Some st \<longrightarrow> part_ok st t1" using parse_char_ok [OF Cons.prems(1,2) s] by auto
    then show ?thesis using Cons.IH Cons.prems(3) s Inr by (cases q1) (auto simp: hbind_def)
  qed
qed

text \<open>Without blanks the position in a device name stays inside its array.\<close>

lemma no_blank_pos:
  assumes "shaped t" "part_ok st t" "\<not> isblank c" "st = DEVICENAME \<longrightarrow> uiNumberPos t \<noteq> 255" "parse_char st c t = (Inr (Some DEVICENAME), t')"
  shows "uiNumberPos t' \<noteq> 255"
proof (cases st)
  case DEVICESUBTYPE
  obtain q1 t1 where n: "parseNumber c t = (Inr q1, t1)" using parse_number_ok [of c t] by (cases "parseNumber c t") auto
  then show ?thesis using assms(5) DEVICESUBTYPE by (cases q1) (auto simp: hbind_def go_on_def start_number_def split: bool.splits)
next
  case DEVICENAME
  let ?p = "uiNumberPos t"
  have p: "unat ?p \<le> 127" "?p \<noteq> 255" using assms(2,4) DEVICENAME by auto
  have l: "length (szDeviceName (targetInfo t)) = 128" using assms(1) by (simp add: shaped_def)
  have c: "c \<noteq> CHR 0x0A" "c \<noteq> CHR ''#''" using assms(5) DEVICENAME p l
    by (auto simp: parseDeviceName_def hbind_def hseq_def put_name_def go_on_def Let_def split: if_splits)
  then have n: "namechar c" "?p \<noteq> 127" using assms(3,5) DEVICENAME
    by (auto simp: parseDeviceName_def hbind_def go_on_def Let_def split: if_splits)
  have "uiNumberPos t' = ?p + 1" using assms(3,5) DEVICENAME c n p l
    by (auto simp: parseDeviceName_def hbind_def hseq_def put_name_def set_pos_def go_on_def Let_def)
  moreover have "unat (?p + 1) = Suc (unat ?p)" using p(1) by (intro u8_next) simp
  ultimately have "unat (uiNumberPos t') \<le> 128" using p(1) by simp
  then show ?thesis by auto
next
  case IDCODE then show ?thesis using assms(5)
    by (cases "parseIdcode c False t") (auto simp: hbind_def go_on_def split: sum.splits option.splits bool.splits)
next
  case IRLENGTH then show ?thesis using assms(5)
    by (cases "parseNumber c t") (auto simp: hbind_def go_on_def split: sum.splits option.splits bool.splits)
next
  case DEVICETYPE then show ?thesis using assms(5)
    by (cases "parseNumber c t") (auto simp: hbind_def go_on_def split: sum.splits option.splits bool.splits)
next
  case SOL then show ?thesis using assms(5)
    by (auto simp: hseq_def hbind_def split: if_splits sum.splits prod.splits)
next
  case COMMENT then show ?thesis using assms(5) by (auto split: if_splits)
qed

lemma parse_no_blank:
  "shaped t \<Longrightarrow> part_ok st t \<Longrightarrow> \<forall>c\<in>set cs. \<not> isblank c \<Longrightarrow> st = DEVICENAME \<longrightarrow> uiNumberPos t \<noteq> 255 \<Longrightarrow> \<exists>q t'. parse_chars cs st t = (Inr q, t')"
proof (induction cs arbitrary: st t)
  case Nil then show ?case by simp
next
  case (Cons c cs)
  obtain r1 t1 where s: "parse_char st c t = (r1, t1)" by fastforce
  obtain q1 where r1: "r1 = Inr q1" and ok: "shaped t1" "\<forall>st. q1 = Some st \<longrightarrow> part_ok st t1"
    using parse_char_ok [OF Cons.prems(1,2) s] Cons.prems(4) by blast
  show ?case
  proof (cases q1)
    case None then show ?thesis using s r1 by (simp add: hbind_def)
  next
    case (Some st1)
    have "st1 = DEVICENAME \<longrightarrow> uiNumberPos t1 \<noteq> 255"
      using no_blank_pos [OF Cons.prems(1,2) _ Cons.prems(4), of c t1] Cons.prems(3) s r1 Some by auto
    then show ?thesis using Cons.IH [OF ok(1), of st1] ok(2) Cons.prems(3) s r1 Some by (simp add: hbind_def)
  qed
qed

subsection \<open>Sorting\<close>

text \<open>The number an identification pattern stands for when its characters are digits of base three.\<close>

definition trit :: "char \<Rightarrow> nat" where
  "trit c = (if c = CHR ''0'' then 0 else if c = CHR ''1'' then 1 else 2)"

fun rank :: "string \<Rightarrow> nat" where
  "rank [] = 0"
| "rank (c # cs) = trit c * 3 ^ length cs + rank cs"

lemma rank_less: "rank cs < 3 ^ length cs"
proof (induction cs)
  case (Cons c cs)
  have "trit c * 3 ^ length cs \<le> 2 * 3 ^ length cs" by (rule mult_right_mono) (simp_all add: trit_def)
  then have "trit c * 3 ^ length cs + rank cs < 2 * 3 ^ length cs + 3 ^ length cs" using Cons.IH by (rule add_le_less_mono)
  then show ?case by simp
qed simp

lemma rank_order: "length p = length q \<Longrightarrow> set p \<subseteq> idset \<Longrightarrow> set q \<subseteq> idset \<Longrightarrow> id_less p q \<longleftrightarrow> rank p < rank q"
proof (induction p q rule: id_less.induct)
  case (1 a p b q)
  have r: "rank p < 3 ^ length q" "rank q < 3 ^ length q" using rank_less [of p] rank_less [of q] 1(2) by simp_all
  have "a \<in> idset" "b \<in> idset" using 1(3,4) by auto
  then show ?case using 1 r by (auto simp: idset_def trit_def)
qed simp_all

lemma find_app: "find P (xs @ ys) = (case find P xs of None \<Rightarrow> find P ys | Some y \<Rightarrow> Some y)"
  by (induction xs) auto

locale target_sort =
  fixes srt :: "target_info list \<Rightarrow> target_info list"
  assumes srt_permutes: "mset (srt xs) = mset xs"
    and srt_sorts: "\<forall>x\<in>set xs. wf_target x \<Longrightarrow> sorted_wrt (\<lambda>a b. \<not> targetInfoCmp b a) (srt xs)"
begin

lemma set_srt [simp]: "set (srt xs) = set xs"
  using srt_permutes [of xs] by (rule mset_eq_setD)

text \<open>The first entry that matches in a sorted table is not behind any other that does.\<close>

lemma first_is_least:
  assumes "\<forall>x\<in>set xs. wf_target x" "x \<in> set xs" "P x"
  shows "\<exists>y. find P (srt xs) = Some y \<and> P y \<and> y \<in> set xs \<and> \<not> targetInfoCmp x y"
proof -
  have "x \<in> set (srt xs)" using assms(2) by simp
  then obtain us vs where uv: "srt xs = us @ x # vs" by (meson split_list)
  have so: "sorted_wrt (\<lambda>a b. \<not> targetInfoCmp b a) (srt xs)" by (rule srt_sorts [OF assms(1)])
  have irr: "\<not> id_less s s" for s :: string by (induction s) auto
  show ?thesis
  proof (cases "find P us")
    case None
    then have "find P (srt xs) = Some x" using assms(3) unfolding uv by (simp add: find_app)
    then show ?thesis using assms(2,3) irr by (auto simp: targetInfoCmp_def)
  next
    case (Some y)
    then have "find P (srt xs) = Some y" unfolding uv by (simp add: find_app)
    moreover have "P y" "y \<in> set us" using Some by (auto simp: find_Some_iff)
    moreover have "\<not> targetInfoCmp x y" using so calculation(3) unfolding uv by (auto simp: sorted_wrt_append)
    moreover have "y \<in> set xs" using calculation(3) uv set_srt [of xs] by auto
    ultimately show ?thesis by auto
  qed
qed

end

definition rank_sort :: "target_info list \<Rightarrow> target_info list" where
  "rank_sort = sort_key (\<lambda>ti. rank (szIdcode ti))"

interpretation rs: target_sort rank_sort
proof
  fix xs :: "target_info list"
  show "mset (rank_sort xs) = mset xs" by (simp add: rank_sort_def)
  assume w: "\<forall>x\<in>set xs. wf_target x"
  have "sorted_wrt (\<lambda>a b. rank (szIdcode a) \<le> rank (szIdcode b)) (rank_sort xs)"
    using sorted_sort_key [of "\<lambda>ti. rank (szIdcode ti)" xs] by (simp add: rank_sort_def sorted_map)
  then show "sorted_wrt (\<lambda>a b. \<not> targetInfoCmp b a) (rank_sort xs)"
  proof (rule sorted_wrt_mono_rel [rotated])
    fix x y assume "x \<in> set (rank_sort xs)" "y \<in> set (rank_sort xs)" "rank (szIdcode x) \<le> rank (szIdcode y)"
    moreover have "wf_target x" "wf_target y" using calculation w by (auto simp: rank_sort_def)
    ultimately show "\<not> targetInfoCmp y x" by (simp add: targetInfoCmp_def wf_target_def rank_order)
  qed
qed

subsection \<open>Reading a line\<close>

text \<open>The characters of one part of a line.\<close>

lemma idset_idchar: "c \<in> idset \<Longrightarrow> idchar c \<and> (if c = CHR ''X'' then CHR ''x'' else c) = c"
  by (auto simp: idset_def idchar_def)

lemma parse_chars_append: "parse_chars (as @ bs) st = hbind (parse_chars as st) (\<lambda>r. case r of None \<Rightarrow> hret None | Some st1 \<Rightarrow> parse_chars bs st1)"
proof (induction as arbitrary: st)
  case Nil show ?case by (simp only: append_Nil parse_chars.simps hbind_hret option.case)
next
  case (Cons a as)
  have "hbind (case r of None \<Rightarrow> hret None | Some st1 \<Rightarrow> parse_chars as st1) (\<lambda>r. case r of None \<Rightarrow> hret None | Some st1 \<Rightarrow> parse_chars bs st1) =
      (case r of None \<Rightarrow> hret None | Some st1 \<Rightarrow> parse_chars (as @ bs) st1)" for r
    by (cases r) (simp_all only: option.case hbind_hret Cons.IH)
  then show ?case by (simp only: append_Cons parse_chars.simps hbind_assoc)
qed

lemma parse_then: "parse_chars as st t = (Inr (Some st1), t1) \<Longrightarrow> parse_chars (as @ bs) st t = parse_chars bs st1 t1"
  by (simp add: parse_chars_append hbind_def)

lemma parse_then1: "parse_char st c t = (Inr (Some st1), t1) \<Longrightarrow> parse_chars (c # bs) st t = parse_chars bs st1 t1"
  by (simp add: hbind_def)

lemma parse_throws: "parse_char st c t = (Inl e, t1) \<Longrightarrow> parse_chars (c # bs) st t = (Inl e, t1)"
  by (simp add: hbind_def)

lemma parse_id_rest:
  "set cs \<subseteq> idset \<Longrightarrow> uiNumberPos t = of_nat k \<Longrightarrow> k + length cs \<le> 32 \<Longrightarrow> length (szIdcode (targetInfo t)) = 32 \<Longrightarrow>
   parse_chars cs IDCODE t = (Inr (Some IDCODE), t\<lparr>targetInfo := (targetInfo t)\<lparr>szIdcode := take k (szIdcode (targetInfo t)) @ cs @ drop (k + length cs) (szIdcode (targetInfo t))\<rparr>,
     uiNumberPos := of_nat (k + length cs)\<rparr>)"
proof (induction cs arbitrary: t k)
  case Nil then show ?case by simp
next
  case (Cons c cs)
  let ?s = "szIdcode (targetInfo t)"
  have k: "k < 32" using Cons.prems(3) by simp
  have u: "unat (of_nat k :: u8) = k" using k by (simp add: unat_of_nat)
  have n: "(of_nat k :: u8) \<noteq> 32" using u k by auto
  let ?t = "t\<lparr>targetInfo := (targetInfo t)\<lparr>szIdcode := ?s[k := c]\<rparr>, uiNumberPos := of_nat (Suc k)\<rparr>"
  have c: "c \<in> idset" using Cons.prems(1) by simp
  have "parse_char IDCODE c t = (Inr (Some IDCODE), ?t)"
    using idset_idchar [OF c] Cons.prems(2,4) u n k
    by (simp add: parseIdcode_def hbind_def hseq_def put_id_def set_pos_def go_on_def Let_def add.commute)
  moreover have "parse_chars cs IDCODE ?t = (Inr (Some IDCODE), ?t\<lparr>targetInfo := (targetInfo ?t)\<lparr>szIdcode := take (Suc k) (?s[k := c]) @ cs @ drop (Suc k + length cs) (?s[k := c])\<rparr>,
     uiNumberPos := of_nat (Suc k + length cs)\<rparr>)"
    using Cons.IH [of ?t "Suc k"] Cons.prems by simp
  moreover have "take (Suc k) (?s[k := c]) @ cs @ drop (Suc k + length cs) (?s[k := c]) = take k ?s @ (c # cs) @ drop (k + length (c # cs)) ?s"
    using k Cons.prems(4) by (simp add: take_Suc_conv_app_nth)
  ultimately show ?case by (simp add: hbind_def)
qed

lemma parse_id_all:
  assumes "set cs \<subseteq> idset" "length cs = 32" "length (szIdcode (targetInfo t)) = 32"
  shows "parse_chars cs SOL t = (Inr (Some IDCODE), t\<lparr>targetInfo := (targetInfo t)\<lparr>szIdcode := cs, uiIRLength := 0\<rparr>, uiNumberPos := 32\<rparr>)"
proof -
  obtain d ds where cs: "cs = d # ds" using assms(2) by (cases cs) auto
  obtain e es where s: "szIdcode (targetInfo t) = e # es" using assms(3) by (cases "szIdcode (targetInfo t)") auto
  have d: "d \<in> idset" using assms(1) cs by simp
  let ?t = "t\<lparr>targetInfo := (targetInfo t)\<lparr>uiIRLength := 0, szIdcode := d # es\<rparr>, uiNumberPos := 1\<rparr>"
  have "d \<noteq> CHR 0x0A" "\<not> isblank d" "d \<noteq> CHR ''#''" using d by (auto simp: idset_def isblank_def)
  then have "parse_char SOL d t = (Inr (Some IDCODE), ?t)"
    using idset_idchar [OF d] s
    by (simp add: parseIdcode_def hbind_def hseq_def put_id_def set_pos_def Let_def)
  moreover have "parse_chars ds IDCODE ?t = (Inr (Some IDCODE), ?t\<lparr>targetInfo := (targetInfo ?t)\<lparr>szIdcode := d # ds\<rparr>, uiNumberPos := 32\<rparr>)"
    using parse_id_rest [of ds ?t 1] assms cs s by simp
  ultimately show ?thesis by (simp add: cs hbind_def)
qed

lemma digit_facts: "d < 10 \<Longrightarrow> isdigit (digit_char d) \<and> \<not> isblank (digit_char d) \<and> int (of_char (digit_char d)) - 48 = int d"
proof -
  assume "d < 10"
  then have d: "(of_char (digit_char d) :: nat) = 48 + d" unfolding digit_char_def by (subst of_char_of) simp
  then have "int (of_char (digit_char d)) = 48 + int d" by simp
  moreover have "\<not> isblank (digit_char d)" using d by (auto simp: isblank_def)
  ultimately show ?thesis using d \<open>d < 10\<close> by (simp add: isdigit_def)
qed

text \<open>Digits that stay below 256 add up to the number.\<close>

lemma parse_digits:
  assumes "\<forall>d\<in>set ds. d < 10" "st = IRLENGTH \<or> st = DEVICETYPE \<or> st = DEVICESUBTYPE"
  shows "uiNumber t = (if k = 0 then -1 else int n) \<Longrightarrow> (k = 0 \<longrightarrow> n = 0) \<Longrightarrow> uiNumberPos t = of_nat k \<Longrightarrow> k + length ds < 255 \<Longrightarrow> ds \<noteq> [] \<or> k \<noteq> 0 \<Longrightarrow>
    foldl (\<lambda>n d. n * 10 + d) n ds \<le> 255 \<Longrightarrow>
    parse_chars (map digit_char ds) st t = (Inr (Some st), t\<lparr>uiNumber := int (foldl (\<lambda>n d. n * 10 + d) n ds), uiNumberPos := of_nat (k + length ds)\<rparr>)"
  using assms(1)
proof (induction ds arbitrary: t n k)
  case Nil then show ?case by simp
next
  case (Cons d ds)
  have d: "d < 10" using Cons.prems(7) by simp
  have mono: "m \<le> foldl (\<lambda>n d. n * 10 + d) m ds" for m :: nat
  proof (induction ds arbitrary: m)
    case (Cons e ds)
    have "m \<le> m * 10 + e" by simp
    also have "\<dots> \<le> foldl (\<lambda>n d. n * 10 + d) (m * 10 + e) ds" by (rule Cons.IH)
    finally show ?case by simp
  qed simp
  have m: "n * 10 + d \<le> 255" using mono [of "n * 10 + d"] Cons.prems(6) by simp
  have u: "(of_nat k :: u8) \<noteq> 255"
  proof
    assume "(of_nat k :: u8) = 255"
    then have "unat (of_nat k :: u8) = 255" by simp
    then show False using Cons.prems(4) by (simp add: unat_of_nat)
  qed
  let ?t = "t\<lparr>uiNumber := int (n * 10 + d), uiNumberPos := of_nat (Suc k)\<rparr>"
  have "(if uiNumber t < 0 then 0 else uiNumber t) * 10 + (int (of_char (digit_char d)) - 48) = int (n * 10 + d)"
    using digit_facts [OF d] Cons.prems(1,2) by auto
  then have "parse_char st (digit_char d) t = (Inr (Some st), ?t)"
    using assms(2) digit_facts [OF d] Cons.prems(3) m u
    by (auto simp: parseNumber_def hbind_def go_on_def Let_def add.commute)
  moreover have "parse_chars (map digit_char ds) st ?t = (Inr (Some st), ?t\<lparr>uiNumber := int (foldl (\<lambda>n d. n * 10 + d) (n * 10 + d) ds), uiNumberPos := of_nat (Suc k + length ds)\<rparr>)"
    using Cons.prems by (intro Cons.IH) auto
  ultimately show ?case by (simp add: hbind_def)
qed

lemma parse_comma:
  assumes "uiNumberPos t \<noteq> 0" "parse_char st (CHR '','') = hbind (parseNumber (CHR '','')) (go_on st next f)"
  shows "parse_char st (CHR '','') t = (Inr (Some next), f t)"
  using assms by (simp add: parseNumber_def hbind_def go_on_def isblank_def isdigit_def)

lemma parse_name:
  "\<forall>c\<in>set cs. namechar c \<Longrightarrow> uiNumberPos t = of_nat k \<Longrightarrow> k + length cs \<le> 127 \<Longrightarrow> length (szDeviceName (targetInfo t)) = 128 \<Longrightarrow>
   parse_chars cs DEVICENAME t = (Inr (Some DEVICENAME), t\<lparr>targetInfo := (targetInfo t)\<lparr>szDeviceName := take k (szDeviceName (targetInfo t)) @ cs @ drop (k + length cs) (szDeviceName (targetInfo t))\<rparr>,
     uiNumber := if cs = [] then uiNumber t else 0, uiNumberPos := of_nat (k + length cs)\<rparr>)"
proof (induction cs arbitrary: t k)
  case Nil then show ?case by simp
next
  case (Cons c cs)
  let ?s = "szDeviceName (targetInfo t)"
  have k: "k < 127" using Cons.prems(3) by simp
  have u: "unat (of_nat k :: u8) = k" using k by (simp add: unat_of_nat)
  have n: "(of_nat k :: u8) \<noteq> 127" "(of_nat k :: u8) \<noteq> 255" using u k by auto
  have c: "namechar c" "\<not> isblank c" "c \<noteq> CHR ''#''" using Cons.prems(1) by (auto simp: namechar_def isblank_def)
  let ?t = "t\<lparr>targetInfo := (targetInfo t)\<lparr>szDeviceName := ?s[k := c]\<rparr>, uiNumber := 0, uiNumberPos := of_nat (Suc k)\<rparr>"
  have "parse_char DEVICENAME c t = (Inr (Some DEVICENAME), ?t)"
    using c Cons.prems(2,4) u n k
    by (simp add: parseDeviceName_def hbind_def hseq_def put_name_def set_pos_def go_on_def Let_def add.commute)
  moreover have "parse_chars cs DEVICENAME ?t = (Inr (Some DEVICENAME), ?t\<lparr>targetInfo := (targetInfo ?t)\<lparr>szDeviceName := take (Suc k) (?s[k := c]) @ cs @ drop (Suc k + length cs) (?s[k := c])\<rparr>,
     uiNumber := if cs = [] then uiNumber ?t else 0, uiNumberPos := of_nat (Suc k + length cs)\<rparr>)"
    using Cons.IH [of ?t "Suc k"] Cons.prems by simp
  moreover have "take (Suc k) (?s[k := c]) @ cs @ drop (Suc k + length cs) (?s[k := c]) = take k ?s @ (c # cs) @ drop (k + length (c # cs)) ?s"
    using k Cons.prems(4) by (simp add: take_Suc_conv_app_nth)
  ultimately show ?case by (simp add: hbind_def)
qed

text \<open>A line up to its device name.\<close>

definition line_head :: "string \<Rightarrow> u32 \<Rightarrow> u8 \<Rightarrow> string" where
  "line_head name idcode irlen = (let n = unat irlen in
     id_string idcode @ CHR '','' # [digit_char (n div 100), digit_char (n mod 100 div 10), digit_char (n mod 10)] @ '',0,0,'' @ name)"

definition fresh_target :: "string \<Rightarrow> u32 \<Rightarrow> u8 \<Rightarrow> target_info \<Rightarrow> target_info" where
  "fresh_target name idcode irlen ti = \<lparr>szIdcode = id_string idcode, uiIRLength = irlen, szDeviceName = name @ drop (length name) (szDeviceName ti)\<rparr>"

lemma id_string_facts: "set (id_string w) \<subseteq> idset" "length (id_string w) = 32"
  by (auto simp: id_string_def idset_def)

lemma three_digits: "foldl (\<lambda>n d. n * 10 + d) 0 [n div 100, n mod 100 div 10, n mod 10] = (n :: nat)"
proof -
  have "n mod 100 mod 10 = n mod 10" by (simp add: mod_mod_cancel)
  then have "n mod 100 div 10 * 10 + n mod 10 = n mod 100" using div_mult_mod_eq [of "n mod 100" 10] by simp
  then have "n = n div 100 * 100 + (n mod 100 div 10 * 10 + n mod 10)" using div_mult_mod_eq [of n 100] by simp
  then show ?thesis by (simp add: algebra_simps)
qed

lemma parse_head:
  assumes "shaped t" "\<forall>c\<in>set name. namechar c" "name \<noteq> []" "length name \<le> 127"
  shows "parse_chars (line_head name idcode irlen) SOL t =
    (Inr (Some DEVICENAME), t\<lparr>targetInfo := fresh_target name idcode irlen (targetInfo t), uiNumber := 0, uiNumberPos := of_nat (length name)\<rparr>)"
proof -
  let ?i = "unat irlen"
  define ds where "ds = [?i div 100, ?i mod 100 div 10, ?i mod 10]"
  have l: "length (szIdcode (targetInfo t)) = 32" "length (szDeviceName (targetInfo t)) = 128" using assms(1) by (auto simp: shaped_def)
  have lt: "?i < 256" using unsigned_less [of irlen, where 'a = nat] by simp
  have val: "foldl (\<lambda>n d. n * 10 + d) 0 ds = ?i" unfolding ds_def by (rule three_digits)
  have ds: "\<forall>d\<in>set ds. d < 10" "length ds = 3" "ds \<noteq> []" using lt by (simp_all add: ds_def less_mult_imp_div_less)
  let ?t1 = "t\<lparr>targetInfo := (targetInfo t)\<lparr>szIdcode := id_string idcode, uiIRLength := 0\<rparr>, uiNumberPos := 32\<rparr>"
  have s1: "parse_chars (id_string idcode) SOL t = (Inr (Some IDCODE), ?t1)"
    by (rule parse_id_all [OF id_string_facts l(1)])
  let ?t2 = "?t1\<lparr>uiNumber := -1, uiNumberPos := 0\<rparr>"
  have s2: "parse_char IDCODE (CHR '','') ?t1 = (Inr (Some IRLENGTH), ?t2)"
    by (simp add: parseIdcode_def hbind_def go_on_def idchar_def isblank_def start_number_def Let_def)
  let ?t3 = "?t2\<lparr>uiNumber := int ?i, uiNumberPos := 3\<rparr>"
  have s3: "parse_chars (map digit_char ds) IRLENGTH ?t2 = (Inr (Some IRLENGTH), ?t3)"
    using parse_digits [OF ds(1), of IRLENGTH ?t2 0 0] val lt ds(2,3) by simp
  let ?t4 = "?t3\<lparr>targetInfo := (targetInfo ?t3)\<lparr>uiIRLength := irlen\<rparr>, uiNumber := -1, uiNumberPos := 0\<rparr>"
  have s4: "parse_char IRLENGTH (CHR '','') ?t3 = (Inr (Some DEVICETYPE), ?t4)"
    using parse_comma [of ?t3 IRLENGTH DEVICETYPE take_irlength] by (simp add: take_irlength_def start_number_def)
  have z: "''0'' = map digit_char [0]" by code_simp
  let ?t5 = "?t4\<lparr>uiNumber := 0, uiNumberPos := 1\<rparr>"
  have s5: "parse_chars ''0'' DEVICETYPE ?t4 = (Inr (Some DEVICETYPE), ?t5)"
    unfolding z using parse_digits [of "[0]" DEVICETYPE ?t4 0 0] by simp
  have s6: "parse_char DEVICETYPE (CHR '','') ?t5 = (Inr (Some DEVICESUBTYPE), ?t4)"
    using parse_comma [of ?t5 DEVICETYPE DEVICESUBTYPE start_number] by (simp add: start_number_def)
  have s7: "parse_chars ''0'' DEVICESUBTYPE ?t4 = (Inr (Some DEVICESUBTYPE), ?t5)"
    unfolding z using parse_digits [of "[0]" DEVICESUBTYPE ?t4 0 0] by simp
  have s8: "parse_char DEVICESUBTYPE (CHR '','') ?t5 = (Inr (Some DEVICENAME), ?t4)"
    using parse_comma [of ?t5 DEVICESUBTYPE DEVICENAME start_number] by (simp add: start_number_def)
  have s9: "parse_chars name DEVICENAME ?t4 = (Inr (Some DEVICENAME), t\<lparr>targetInfo := fresh_target name idcode irlen (targetInfo t), uiNumber := 0, uiNumberPos := of_nat (length name)\<rparr>)"
    using parse_name [OF assms(2), of ?t4 0] assms(3,4) l by (simp add: fresh_target_def)
  have "line_head name idcode irlen = id_string idcode @ CHR '','' # map digit_char ds @ CHR '','' # ''0'' @ CHR '','' # ''0'' @ CHR '','' # name"
    by (simp add: line_head_def Let_def ds_def)
  then show ?thesis
    by (simp only: parse_then [OF s1] parse_then1 [OF s2] parse_then [OF s3] parse_then1 [OF s4] parse_then [OF s5] parse_then1 [OF s6]
        parse_then [OF s7] parse_then1 [OF s8] s9)
qed

subsection \<open>The table\<close>

lemma exact_first:
  assumes "p \<noteq> id_string w" "id_match p (id_string w)"
  shows "id_less (id_string w) p"
proof -
  have "id_match p s \<Longrightarrow> p \<noteq> s \<Longrightarrow> set s \<subseteq> {CHR ''0'', CHR ''1''} \<Longrightarrow> id_less s p" for s
  proof (induction s p rule: id_less.induct)
    case (1 a as b bs) then show ?case by (auto simp: id_match_def)
  qed (auto simp: id_match_def)
  moreover have "set (id_string w) \<subseteq> {CHR ''0'', CHR ''1''}" by (auto simp: id_string_def)
  ultimately show ?thesis using assms by blast
qed


text \<open>A device that is added is found again: after adding a name, an identification and the length of its instruction
  register, the search for the identification returns that length and that name, whatever more general entries the
  table has, as long as it has none for exactly this identification.\<close>

theorem added_device_found:
  assumes "target_sort srt" "shaped t" "tempJtagTargets t = []" "\<forall>ti\<in>set (jtagTargets t). szIdcode ti \<noteq> id_string idcode"
    "\<forall>c\<in>set name. namechar c" "1 \<le> length name" "length name \<le> 64" "2 \<le> irlen" "idcode \<noteq> 0" "idcode \<noteq> 0xFFFFFFFF"
  shows "\<exists>t' ti. add_device srt name idcode irlen t = (Inr True, t') \<and> getDeviceInfoForIdcode t' idcode = Some ti \<and>
    uiIRLength ti = irlen \<and> cstr (szDeviceName ti) = name \<and> mset (jtagTargets t') = add_mset ti (mset (jtagTargets t))"
proof -
  let ?l = "length name" and ?f = "fresh_target name idcode irlen (targetInfo t)"
  let ?ti = "?f\<lparr>szDeviceName := (szDeviceName ?f)[?l := CHR 0x00]\<rparr>"
  let ?t1 = "t\<lparr>targetInfo := ?f, uiNumber := 0, uiNumberPos := of_nat ?l\<rparr>"
  have l: "length (szDeviceName (targetInfo t)) = 128" using assms(2) by (simp add: shaped_def)
  have u: "unat (of_nat ?l :: u8) = ?l" using assms(7) by (simp add: unat_of_nat)
  have nz: "(of_nat ?l :: u8) \<noteq> 0" using u assms(6) by auto
  have nf: "length (szDeviceName ?f) = 128" "take ?l (szDeviceName ?f) = name" using l assms(7) by (simp_all add: fresh_target_def)
  have cs: "cstr (szDeviceName ?ti) = name"
    using cstr_end [of ?l "szDeviceName ?f"] nf assms(5,7) by simp
  have wf: "wf_target ?ti" unfolding wf_target_def cs using id_string_facts [of idcode] nf assms(5-7)
    by (auto simp: fresh_target_def)
  have h: "parse_chars (line_head name idcode irlen) SOL t = (Inr (Some DEVICENAME), ?t1)"
    by (rule parse_head) (use assms(2,5-7) in auto)
  let ?t2 = "?t1\<lparr>targetInfo := ?ti, tempJtagTargets := [?ti]\<rparr>"
  have e: "parse_char DEVICENAME (CHR 0x0A) ?t1 = (Inr (Some SOL), ?t2)"
    using nz u nf(1) assms(3,7)
    by (simp add: parseDeviceName_def hbind_def hseq_def put_name_def go_on_def insertTarget_def Let_def)
  have "device_line name idcode irlen = line_head name idcode irlen @ [CHR 0x0A]"
    by (simp add: device_line_def line_head_def Let_def)
  then have "parse_chars (device_line name idcode irlen) SOL t = (Inr (Some SOL), ?t2)"
    by (simp only: parse_then [OF h] parse_then1 [OF e, of "[]"] parse_chars.simps(1) hret_app)
  moreover have v: "\<not> (64 < length name \<or> length name < 1 \<or> irlen < 2 \<or> idcode = 0xFFFFFFFF \<or> idcode = 0)"
    using assms(6-10) by auto
  ultimately have add: "add_device srt name idcode irlen t = (Inr True, ?t2\<lparr>jtagTargets := srt (jtagTargets t @ [?ti]), tempJtagTargets := []\<rparr>)"
    unfolding add_device_def if_not_P [OF v] addDeviceData_def by (simp add: hbind_def hseq_def)
  let ?P = "\<lambda>ti. id_match (szIdcode ti) (id_string idcode)"
  have "szIdcode ?ti = id_string idcode" by (simp add: fresh_target_def)
  moreover have m: "id_match s s" for s by (simp add: id_match_def list_all2_refl)
  moreover have wfs: "\<forall>x\<in>set (jtagTargets t @ [?ti]). wf_target x" using assms(2) wf by (auto simp: shaped_def)
  ultimately obtain y where y: "find ?P (srt (jtagTargets t @ [?ti])) = Some y" "?P y" "y \<in> set (jtagTargets t @ [?ti])" "\<not> targetInfoCmp ?ti y"
    using target_sort.first_is_least [OF assms(1) wfs, of ?ti ?P] by auto
  have "y = ?ti"
  proof (rule ccontr)
    assume "y \<noteq> ?ti"
    then have "y \<in> set (jtagTargets t)" using y(3) by auto
    then have "szIdcode y \<noteq> id_string idcode" using assms(4) by blast
    then have "id_less (id_string idcode) (szIdcode y)" using y(2) by (rule exact_first)
    then show False using y(4) \<open>szIdcode ?ti = id_string idcode\<close> by (simp add: targetInfoCmp_def)
  qed
  then show ?thesis using add y(1) cs
    by (intro exI [of _ "?t2\<lparr>jtagTargets := srt (jtagTargets t @ [?ti]), tempJtagTargets := []\<rparr>"] exI [of _ ?ti])
      (auto simp: getDeviceInfoForIdcode_def fresh_target_def target_sort.srt_permutes [OF assms(1)])
qed

text \<open>A blank between a device name and the end of its line makes the parser write the end of the name far behind its
  array, for every line of a device file that is otherwise right; a text without blanks never makes it write outside
  its arrays.\<close>

theorem blank_after_name_overflows:
  assumes "target_sort srt" "shaped t"
  shows "(\<forall>name. (\<forall>c\<in>set name. namechar c) \<and> name \<noteq> [] \<and> length name \<le> 127 \<longrightarrow>
      fst (addDeviceData srt (line_head name idcode irlen @ '' '' @ [CHR 0x0A] @ rest) t) = Inl Undefined_behaviour) \<and>
    (\<forall>buf. (\<forall>c\<in>set buf. \<not> isblank c) \<longrightarrow> (\<exists>q. fst (addDeviceData srt buf t) = Inr q))"
proof (intro conjI allI impI)
  fix name :: string assume "(\<forall>c\<in>set name. namechar c) \<and> name \<noteq> [] \<and> length name \<le> 127"
  then have n: "\<forall>c\<in>set name. namechar c" "name \<noteq> []" "length name \<le> 127" by auto
  let ?f = "fresh_target name idcode irlen (targetInfo t)"
  let ?t1 = "t\<lparr>targetInfo := ?f, uiNumber := 0, uiNumberPos := of_nat (length name)\<rparr>"
  have h: "parse_chars (line_head name idcode irlen) SOL t = (Inr (Some DEVICENAME), ?t1)" by (rule parse_head [OF assms(2) n])
  have b: "parse_char DEVICENAME (CHR '' '') ?t1 = (Inr (Some DEVICENAME), ?t1\<lparr>uiNumberPos := 255\<rparr>)"
    by (simp add: parseDeviceName_def hbind_def go_on_def isblank_def)
  have "length (szDeviceName ?f) = 128" using assms(2) n(3) by (simp add: fresh_target_def shaped_def)
  then have e: "parse_char DEVICENAME (CHR 0x0A) (?t1\<lparr>uiNumberPos := 255\<rparr>) = (Inl Undefined_behaviour, ?t1\<lparr>uiNumberPos := 255\<rparr>)"
    by (simp add: parseDeviceName_def hbind_def hseq_def put_name_def)
  have "parse_chars (line_head name idcode irlen @ CHR '' '' # CHR 0x0A # rest) SOL t = (Inl Undefined_behaviour, ?t1\<lparr>uiNumberPos := 255\<rparr>)"
    by (simp only: parse_then [OF h] parse_then1 [OF b] parse_throws [OF e])
  then show "fst (addDeviceData srt (line_head name idcode irlen @ '' '' @ [CHR 0x0A] @ rest) t) = Inl Undefined_behaviour"
    by (simp add: addDeviceData_def hbind_def)
next
  fix buf :: string assume "\<forall>c\<in>set buf. \<not> isblank c"
  then obtain q t' where "parse_chars buf SOL t = (Inr q, t')" using parse_no_blank [OF assms(2), of SOL buf] by auto
  then show "\<exists>q. fst (addDeviceData srt buf t) = Inr q" by (cases q) (auto simp: addDeviceData_def hbind_def hseq_def)
qed

text \<open>A comment behind the name: the line is accepted and its device forgotten.\<close>

lemma commented_device_lost:
  assumes "target_sort srt" "shaped t" "tempJtagTargets t = []" "\<forall>c\<in>set name. namechar c" "name \<noteq> []" "length name \<le> 127"
  shows "\<exists>t'. addDeviceData srt (line_head name idcode irlen @ ''# FPGA'' @ [CHR 0x0A]) t = (Inr True, t') \<and> mset (jtagTargets t') = mset (jtagTargets t)"
proof -
  let ?f = "fresh_target name idcode irlen (targetInfo t)"
  let ?t1 = "t\<lparr>targetInfo := ?f, uiNumber := 0, uiNumberPos := of_nat (length name)\<rparr>"
  let ?t2 = "?t1\<lparr>targetInfo := ?f\<lparr>szDeviceName := (szDeviceName ?f)[length name := CHR 0x00]\<rparr>\<rparr>"
  have h: "parse_chars (line_head name idcode irlen) SOL t = (Inr (Some DEVICENAME), ?t1)" by (rule parse_head [OF assms(2,4-6)])
  have u: "unat (of_nat (length name) :: u8) = length name" using assms(6) by (simp add: unat_of_nat)
  have nz: "(of_nat (length name) :: u8) \<noteq> 0" using u assms(5) by auto
  have "length (szDeviceName ?f) = 128" using assms(2,6) by (simp add: fresh_target_def shaped_def)
  then have c: "parse_char DEVICENAME (CHR ''#'') ?t1 = (Inr (Some COMMENT), ?t2)"
    using u nz assms(6) by (simp add: parseDeviceName_def hbind_def hseq_def put_name_def go_on_def Let_def)
  have "parse_chars ('' FPGA'' @ [CHR 0x0A]) COMMENT ?t2 = (Inr (Some SOL), ?t2)" by (simp add: hbind_def)
  then have "parse_chars (line_head name idcode irlen @ CHR ''#'' # ('' FPGA'' @ [CHR 0x0A])) SOL t = (Inr (Some SOL), ?t2)"
    by (simp only: parse_then [OF h] parse_then1 [OF c])
  then show ?thesis using assms(3)
    by (intro exI [of _ "?t2\<lparr>jtagTargets := srt (jtagTargets t), tempJtagTargets := []\<rparr>"])
      (simp add: addDeviceData_def hbind_def hseq_def target_sort.srt_permutes [OF assms(1)])
qed

subsection \<open>Witnesses\<close>

text \<open>A table with one entry, for every device of a family.\<close>

definition family :: target_info where
  "family = \<lparr>szIdcode = ''0001010010000100xxxxxxxxxxxxxxxx'', uiIRLength = 4, szDeviceName = ''FAMILY'' @ replicate 122 (CHR 0x00)\<rparr>"

definition demo_targets :: targets where
  "demo_targets = \<lparr>jtagTargets = [family], tempJtagTargets = [], targetInfo = \<lparr>szIdcode = replicate 32 (CHR ''0''), uiIRLength = 0,
     szDeviceName = replicate 128 (CHR 0x00)\<rparr>, uiNumber = 0, uiNumberPos = 0\<rparr>"

lemma demo_shaped: "shaped demo_targets"
  unfolding shaped_def demo_targets_def wf_target_def family_def cstr_def idset_def by (simp add: namechar_def)


theorem added_device_found_witness:
  "\<exists>t' ti. add_device rank_sort ''HICANN'' 0x14849434 6 demo_targets = (Inr True, t') \<and> getDeviceInfoForIdcode t' 0x14849434 = Some ti \<and>
     uiIRLength ti = 6 \<and> cstr (szDeviceName ti) = ''HICANN''"
proof -
  have n: "\<forall>ti\<in>set (jtagTargets demo_targets). szIdcode ti \<noteq> id_string 0x14849434" by code_simp
  have v: "\<forall>c\<in>set ''HICANN''. namechar c" by (simp add: namechar_def)
  have "tempJtagTargets demo_targets = []" by (simp add: demo_targets_def)
  from added_device_found [OF rs.target_sort_axioms demo_shaped this n v, of 6] show ?thesis by auto
qed

theorem blank_after_name_overflows_witness:
  "fst (addDeviceData rank_sort (line_head ''HICANN'' 0x14849434 6 @ '' '' @ [CHR 0x0A] @ []) demo_targets) = Inl Undefined_behaviour"
  by (rule blank_after_name_overflows [OF rs.target_sort_axioms demo_shaped, THEN conjunct1, THEN spec, THEN mp]) (simp add: namechar_def)

end
