(* ===== verification/Jtag_access.thy ===== *)
theory Jtag_access
  imports Jtag Jtag_targets
begin

text \<open>
  Access to single devices of a JTAG chain (\<open>jtag_access.cpp\<close>, \<open>jtag_access.hpp\<close>) over the interface of a cable
  (\<open>jtag_if.hpp\<close>): the list of devices, the packing of data into the bytes of a scan, the scans that reach one device or
  all. A cable is a record of its virtual functions; the locale \<open>jtag_cable\<close> says what they
  promise, and the cable of \<open>Jtag\<close> is shown to keep it. The results: an instruction scan leaves the instruction in the device
  that was asked for and the bypass instruction in all others; a data scan leaves the data in its register, however long the chain.
\<close>

subsection \<open>The interface\<close>

text \<open>
  The virtual functions of \<open>jtag_if\<close> that are used. A call returns whether it succeeded and the bytes it read, or
  \<open>None\<close> when it throws or does not return. The last four are those of the Xilinx cable, which knows the devices itself.
\<close>

record 'i cable_ops =
  op_open :: "'i \<Rightarrow> bool"
  op_shiftIR :: "u8 list option \<Rightarrow> u32 \<Rightarrow> 'i \<Rightarrow> (bool \<times> unit \<times> 'i) option"
  op_shiftDR :: "u8 list option \<Rightarrow> bool \<Rightarrow> u32 \<Rightarrow> eScanMode \<Rightarrow> 'i \<Rightarrow> (bool \<times> u8 list \<times> 'i) option"
  op_navigate :: "eJtagState \<Rightarrow> u16 \<Rightarrow> 'i \<Rightarrow> (bool \<times> 'i) option"
  op_flush :: "'i \<Rightarrow> (bool \<times> 'i) option"
  op_deviceIR :: "u8 \<Rightarrow> u8 list \<Rightarrow> u32 \<Rightarrow> 'i \<Rightarrow> (bool \<times> unit \<times> 'i) option"
  op_deviceDR :: "u8 \<Rightarrow> u8 list option \<Rightarrow> bool \<Rightarrow> u32 \<Rightarrow> eScanMode \<Rightarrow> 'i \<Rightarrow> (bool \<times> u8 list \<times> 'i) option"
  op_count :: "'i \<Rightarrow> u8 \<times> (u8 \<Rightarrow> bool \<times> 'i)"
  op_info :: "u8 \<Rightarrow> 'i \<Rightarrow> u8 option \<times> (u8 \<times> u32 \<Rightarrow> bool \<times> 'i)"

datatype eJtagInterface = XILINX_USB | XILINX_LPT | XILINX_DIGILENT | JTAG_DIGILENT | JTAG_ETHERNET | JTAG_SYSTEMC | JTAG_ETHERNET_SYSTEMC

record device_info =
  bValid :: bool
  dev_idcode :: u32
  dev_irlen :: u8

text \<open>The object; the names of the devices, for messages only, are left out. The array has 256 devices.\<close>

record 'i access =
  jtag_obj :: "'i option"
  interface :: eJtagInterface
  device_count :: u16
  jtag_devices :: "device_info list"
  jtag_table :: targets

text \<open>What a member function gives: its result, or false, or anything.\<close>

datatype 'a reply = Yes 'a | No | Undef

type_synonym ('i, 'a) acc = "'i access \<Rightarrow> ('a reply \<times> 'i access) option"

definition aret :: "'a \<Rightarrow> ('i, 'a) acc" where
  "aret x = (\<lambda>a. Some (Yes x, a))"

definition abind :: "('i, 'a) acc \<Rightarrow> ('a \<Rightarrow> ('i, 'b) acc) \<Rightarrow> ('i, 'b) acc" where
  "abind m k = (\<lambda>a. case m a of None \<Rightarrow> None | Some (Yes x, a') \<Rightarrow> k x a' | Some (No, a') \<Rightarrow> Some (No, a') | Some (Undef, a') \<Rightarrow> Some (Undef, a'))"

definition acheck :: "('i access \<Rightarrow> bool) \<Rightarrow> ('i, 'b) acc \<Rightarrow> ('i, 'b) acc" where
  "acheck P m = (\<lambda>a. if P a then m a else Some (No, a))"

definition adefined :: "bool \<Rightarrow> ('i, 'b) acc \<Rightarrow> ('i, 'b) acc" where
  "adefined b m = (\<lambda>a. if b then m a else Some (Undef, a))"

definition on_cable :: "('i \<Rightarrow> (bool \<times> 'a \<times> 'i) option) \<Rightarrow> ('i, 'a) acc" where
  "on_cable f = (\<lambda>a. case jtag_obj a of None \<Rightarrow> Some (Undef, a)
     | Some d \<Rightarrow> (case f d of None \<Rightarrow> None | Some (b, x, d') \<Rightarrow> Some (if b then Yes x else No, a\<lparr>jtag_obj := Some d'\<rparr>)))"

definition checkCable :: "'i cable_ops \<Rightarrow> bool \<Rightarrow> 'i access \<Rightarrow> bool" where
  "checkCable ops bIfOnly a = (case jtag_obj a of None \<Rightarrow> False | Some d \<Rightarrow> bIfOnly \<or> op_open ops d)"

definition isXilinxJtag :: "'i access \<Rightarrow> bool" where
  "isXilinxJtag a = (interface a \<in> {XILINX_USB, XILINX_LPT, XILINX_DIGILENT})"

definition isDeviceValid :: "u8 \<Rightarrow> 'i access \<Rightarrow> bool" where
  "isDeviceValid dev a = (unat dev < unat (device_count a))"

definition isChainValid :: "'i access \<Rightarrow> bool" where
  "isChainValid a = (device_count a \<noteq> 0 \<and> list_all bValid (take (unat (device_count a)) (jtag_devices a)))"

text \<open>The lengths of the instruction registers behind and before a device, seen from TDI.\<close>

definition irlens :: "'i access \<Rightarrow> nat list" where
  "irlens a = map (\<lambda>i. unat (dev_irlen i)) (take (unat (device_count a)) (jtag_devices a))"

definition getBypassBits :: "u8 \<Rightarrow> ('i, nat \<times> nat) acc" where
  "getBypassBits dev = (\<lambda>a. let post = sum_list (take (unat dev) (irlens a)); pre = sum_list (drop (unat dev + 1) (irlens a)) in
     acheck (\<lambda>_. pre \<le> 1023 \<and> post \<le> 1023) (aret (pre, post)) a)"

subsection \<open>The list of devices\<close>

definition getDeviceIRLength :: "'i cable_ops \<Rightarrow> u8 \<Rightarrow> ('i, u8) acc" where
  "getDeviceIRLength ops dev = acheck (checkCable ops False) (\<lambda>a.
     if isXilinxJtag a then
       (case fst (op_info ops dev (the (jtag_obj a))) of None \<Rightarrow> Some (No, a) | Some n \<Rightarrow> Some (Yes n, a))
     else acheck (\<lambda>a. isDeviceValid dev a \<and> bValid (jtag_devices a ! unat dev)) (aret (dev_irlen (jtag_devices a ! unat dev))) a)"

definition setDeviceCount :: "'i cable_ops \<Rightarrow> u8 \<Rightarrow> ('i, unit) acc" where
  "setDeviceCount ops n = acheck (checkCable ops False) (\<lambda>a.
     if isXilinxJtag a then on_cable (\<lambda>d. let (b, d') = snd (op_count ops d) n in Some (b, (), d')) a
     else aret () (a\<lparr>device_count := ucast n, jtag_devices := replicate 256 \<lparr>bValid = False, dev_idcode = 0, dev_irlen = 0\<rparr>\<rparr>))"

definition getDeviceCount :: "'i cable_ops \<Rightarrow> ('i, u8) acc" where
  "getDeviceCount ops = acheck (checkCable ops False) (\<lambda>a.
     if isXilinxJtag a then aret (fst (op_count ops (the (jtag_obj a)))) a else aret (ucast (device_count a)) a)"

definition setDeviceInfo :: "'i cable_ops \<Rightarrow> u8 \<Rightarrow> u8 \<Rightarrow> u32 \<Rightarrow> ('i, unit) acc" where
  "setDeviceInfo ops dev irlen idcode = acheck (checkCable ops False) (\<lambda>a.
     if isXilinxJtag a then on_cable (\<lambda>d. let (b, d') = snd (op_info ops dev d) (irlen, idcode) in Some (b, (), d')) a
     else acheck (isDeviceValid dev) (\<lambda>a. aret () (a\<lparr>jtag_devices := (jtag_devices a)[unat dev :=
       \<lparr>bValid = True, dev_idcode = idcode, dev_irlen = irlen\<rparr>]\<rparr>)) a)"

subsection \<open>Packing\<close>

text \<open>
  The bytes of a scan that passes \<open>pre\<close> bits, then the data, then \<open>post\<close> bits; these are ones when all other devices are to be
  bypassed. \<open>T\<close>, the type of the data, is the type variable. The counters have 16 bits and stay below.
\<close>

fun write_bytes :: "bool \<Rightarrow> nat \<Rightarrow> 'a::len word \<Rightarrow> nat \<Rightarrow> nat \<Rightarrow> nat \<Rightarrow> u8 list" where
  "write_bytes byp 0 d pre data last_bits = []"
| "write_bytes byp (Suc n) d pre data last_bits =
    (let (byte, d1, pre1, data1) =
       (if pre > 8 then (if byp then 0xFF else 0, d, pre - 8, data)
        else if pre \<noteq> 0 then
          (push_bit pre (ucast (d AND mask (8 - pre))) OR (if byp then mask pre else 0), drop_bit (8 - pre) d, 0, data - (8 - pre))
        else if data \<noteq> 0 then (ucast d, drop_bit 8 d, 0, data - 8)
        else (if byp then 0xFF else 0, d, 0, 0)) in
     if data1 = 0 \<and> pre1 = 0 \<and> last_bits \<noteq> 0 \<and> byp then (byte OR push_bit last_bits (mask (8 - last_bits))) # write_bytes byp n d1 pre1 data1 0
     else byte # write_bytes byp n d1 pre1 data1 last_bits)"

definition formatDataWrite :: "'a::len word \<Rightarrow> nat \<Rightarrow> nat \<Rightarrow> nat \<Rightarrow> bool \<Rightarrow> u8 list" where
  "formatDataWrite uiData len pre post byp = (let max_bits = LENGTH('a); bits = min max_bits len;
     d = (if bits < max_bits then uiData AND mask bits else uiData) in
     write_bytes byp ((len + pre + post + 7) div 8) d pre len ((len + pre) mod 8))"

text \<open>The bytes are read from the highest; \<open>None\<close> when the mask of the highest is shifted out of its type.\<close>

fun read_bytes :: "u8 list \<Rightarrow> nat \<Rightarrow> nat \<Rightarrow> nat \<Rightarrow> nat list \<Rightarrow> nat \<Rightarrow> 'a::len word \<Rightarrow> 'a word" where
  "read_bytes buf n preB preb [] last_bits d = d"
| "read_bytes buf n preB preb (i # is) last_bits d =
    (if last_bits \<noteq> 0 then read_bytes buf n preB preb is 0 (d OR ucast (buf ! (n - 1 + preB)) AND mask last_bits)
     else let byte = buf ! (n - i - 1 + preB) in
       if i = n - 1 \<and> preb \<noteq> 0 then read_bytes buf n preB preb is 0 (push_bit (8 - preb) d OR ucast (drop_bit preb byte AND mask (8 - preb)))
       else read_bytes buf n preB preb is 0 (push_bit 8 d OR ucast byte))"

definition formatDataRead :: "u8 list \<Rightarrow> nat \<Rightarrow> nat \<Rightarrow> 'a::len word option" where
  "formatDataRead buf len pre = (let bits = min LENGTH('a) len; n0 = (bits + 7) div 8; preB = pre div 8;
     n = (if (pre + bits + 7) div 8 > n0 then n0 + 1 else n0); last_bits = (if n > 1 then bits + pre - 8 * (n - 1) else 0) in
     if last_bits > 30 then None else Some (read_bytes buf n preB (pre mod 8) [0..<n] last_bits 0))"

text \<open>The same for lists of bits.\<close>

fun write_bools :: "nat \<Rightarrow> bool list \<Rightarrow> nat \<Rightarrow> nat \<Rightarrow> nat \<Rightarrow> u8 list" where
  "write_bools 0 bs pre data pos = []"
| "write_bools (Suc n) bs pre data pos =
    (if pre > 8 then 0 # write_bools n bs (pre - 8) data pos
     else if pre \<noteq> 0 then
       (let copy = min data (8 - pre) in
        fold (\<lambda>j b. if bs ! (pos + j) then b OR push_bit (j + pre) 1 else b) [0..<copy] 0 # write_bools n bs 0 (data - copy) (pos + copy))
     else if data \<noteq> 0 then
       (let copy = min data 8 in
        fold (\<lambda>j b. if bs ! (pos + j) then b OR push_bit j 1 else b) [0..<copy] 0 # write_bools n bs 0 (data - copy) (pos + copy))
     else 0 # write_bools n bs 0 data pos)"

definition formatBoolsWrite :: "bool list \<Rightarrow> nat \<Rightarrow> nat \<Rightarrow> nat \<Rightarrow> u8 list" where
  "formatBoolsWrite bs len pre post = write_bools ((len + pre + post + 7) div 8) bs pre len 0"

text \<open>The number of bits left has only 8 bits; \<open>uiBits\<close> may get below zero and is a byte as well.\<close>

fun read_bools :: "u8 list \<Rightarrow> nat \<Rightarrow> nat list \<Rightarrow> nat \<Rightarrow> bool list" where
  "read_bools buf nbits [] pre = []"
| "read_bools buf nbits (i # is) pre =
    (if pre \<ge> 8 then read_bools buf nbits is (pre - 8)
     else let left_bits = of_nat (nbits - 8 * i) :: u8; uiBits = (if left_bits > 8 then 8 else left_bits) - of_nat pre in
       map (bit (drop_bit pre (buf ! i))) [0..<unat uiBits] @ read_bools buf nbits is 0)"

definition formatBoolsRead :: "u8 list \<Rightarrow> nat \<Rightarrow> nat \<Rightarrow> bool list" where
  "formatBoolsRead buf len pre = (if len = 0 then []
     else let nbits = (len + pre) mod 65536 in read_bools buf nbits [0..<(nbits + 7) div 8] pre)"

text \<open>One value after the other packed into bytes, the last device first: the bytes that are full, the byte that is not and how
  many of its bits are free.\<close>

function pack :: "'a::len word \<Rightarrow> nat \<Rightarrow> u8 list \<times> u8 \<times> nat \<Rightarrow> u8 list \<times> u8 \<times> nat" where
  "pack d len (full, byte, free) =
    (let byte1 = byte OR push_bit (8 - free) (ucast d AND mask free) in
     if free > len then (full, byte1, free - len)
     else if free = len then (full @ [byte1], 0, 8)
     else pack (drop_bit free d) (len - free) (full @ [byte1], 0, 8))"
  by pat_completeness auto
termination
  by (relation "measure (\<lambda>(d, len, full, byte, free). 2 * len + (if free = 0 then 1 else 0))") auto

definition packed :: "u8 list \<times> u8 \<times> nat \<Rightarrow> u8 list" where
  "packed p = (case p of (full, byte, free) \<Rightarrow> if free \<noteq> 8 then full @ [byte] else full)"

definition pack_all :: "('a::len word \<times> nat) list \<Rightarrow> u8 list" where
  "pack_all vs = packed (fold (\<lambda>(d, len). pack d len) (rev vs) ([], 0, 8))"

subsection \<open>Scans\<close>

definition devices_ok :: "u8 \<Rightarrow> 'i access \<Rightarrow> bool" where
  "devices_ok dev a = (isXilinxJtag a \<or> isDeviceValid dev a \<and> isChainValid a)"

definition setJtagInstr :: "'i cable_ops \<Rightarrow> u8 \<Rightarrow> 'a::len word \<Rightarrow> ('i, unit) acc" where
  "setJtagInstr ops dev instr = acheck (checkCable ops False) (acheck (devices_ok dev)
     (abind (getDeviceIRLength ops dev) (\<lambda>irlen a.
        if isXilinxJtag a then on_cable (op_deviceIR ops dev (formatDataWrite instr (unat irlen) 0 0 False) (ucast irlen)) a
        else abind (getBypassBits dev) (\<lambda>(pre, post).
          on_cable (op_shiftIR ops (Some (formatDataWrite instr (unat irlen) pre post True)) (of_nat (pre + post + unat irlen)))) a)))"

text \<open>The list has the instruction of every device by its number.\<close>

definition setJtagInstrAll :: "'i cable_ops \<Rightarrow> 'a::len word list \<Rightarrow> ('i, unit) acc" where
  "setJtagInstrAll ops instrs = acheck (checkCable ops False) (acheck (\<lambda>a. isXilinxJtag a \<or> isChainValid a)
     (abind (getDeviceCount ops) (\<lambda>n. adefined (unat n \<le> length instrs) (\<lambda>a.
        let lens = map (\<lambda>i. getDeviceIRLength ops (of_nat i) a) [0..<unat n] in
        if list_all (\<lambda>l. case l of Some (Yes _, _) \<Rightarrow> True | _ \<Rightarrow> False) lens then
          let ls = map (\<lambda>l. case l of Some (Yes x, _) \<Rightarrow> unat x | _ \<Rightarrow> 0) lens in
          on_cable (op_shiftIR ops (Some (pack_all (zip instrs ls))) (of_nat (sum_list ls))) a
        else Some (No, a)))))"

definition flush_if :: "'i cable_ops \<Rightarrow> bool \<Rightarrow> ('i, unit) acc" where
  "flush_if ops b = (if b then acheck (checkCable ops False) (on_cable (\<lambda>d. case op_flush ops d of None \<Rightarrow> None | Some (r, d') \<Rightarrow> Some (r, (), d'))) else aret ())"

definition setJtagData :: "'i cable_ops \<Rightarrow> u8 \<Rightarrow> 'a::len word \<Rightarrow> u16 \<Rightarrow> bool \<Rightarrow> ('i, unit) acc" where
  "setJtagData ops dev w len bFlush = acheck (checkCable ops False) (acheck (devices_ok dev)
     (abind (\<lambda>a. if isXilinxJtag a
          then on_cable (op_deviceDR ops dev (Some (formatDataWrite w (unat len) 0 0 False)) False (ucast len) SCAN_MODE_WRITE) a
          else on_cable (op_shiftDR ops (Some (formatDataWrite w (unat len) 0 (unat dev) False)) False (of_nat (unat len + unat dev)) SCAN_MODE_WRITE) a)
        (\<lambda>_. flush_if ops bFlush)))"

definition setJtagBools :: "'i cable_ops \<Rightarrow> u8 \<Rightarrow> bool list \<Rightarrow> u16 \<Rightarrow> bool \<Rightarrow> ('i, unit) acc" where
  "setJtagBools ops dev bs len bFlush = acheck (checkCable ops False) (acheck (devices_ok dev) (adefined (unat len \<le> length bs)
     (abind (\<lambda>a. if isXilinxJtag a
          then on_cable (op_deviceDR ops dev (Some (formatBoolsWrite bs (unat len) 0 0)) False (ucast len) SCAN_MODE_WRITE) a
          else on_cable (op_shiftDR ops (Some (formatBoolsWrite bs (unat len) 0 (unat dev))) False (of_nat (unat len + unat dev)) SCAN_MODE_WRITE) a)
        (\<lambda>_. flush_if ops bFlush))))"

definition setJtagDataAll :: "'i cable_ops \<Rightarrow> 'a::len word list \<Rightarrow> u8 list \<Rightarrow> bool \<Rightarrow> ('i, unit) acc" where
  "setJtagDataAll ops ws lens bFlush = acheck (checkCable ops False) (acheck (\<lambda>a. isXilinxJtag a \<or> isChainValid a)
     (abind (getDeviceCount ops) (\<lambda>n. adefined (unat n \<le> length ws \<and> unat n \<le> length lens)
        (let ls = map unat (take (unat n) lens) in
         abind (on_cable (op_shiftDR ops (Some (pack_all (zip (take (unat n) ws) ls))) False (of_nat (sum_list ls)) SCAN_MODE_WRITE))
           (\<lambda>_. flush_if ops bFlush)))))"

text \<open>What a read puts into the buffer of 64 bytes, which held \<open>old\<close>.\<close>

definition over :: "u8 list \<Rightarrow> u8 list \<Rightarrow> u8 list" where
  "over new old = new @ drop (length new) old"

definition answer :: "'a option \<Rightarrow> ('i, 'a) acc" where
  "answer r = (\<lambda>a. case r of None \<Rightarrow> Some (Undef, a) | Some x \<Rightarrow> Some (Yes x, a))"

definition pre_shift :: "u8 \<Rightarrow> 'i access \<Rightarrow> nat" where
  "pre_shift dev a = unat (ucast (device_count a - ucast dev - 1) :: u8)"

text \<open>\<open>stk\<close> is what the uninitialised buffer held before.\<close>

definition getJtagData :: "'i cable_ops \<Rightarrow> u8 list \<Rightarrow> u8 \<Rightarrow> u16 \<Rightarrow> ('i, 'a::len word) acc" where
  "getJtagData ops stk dev len = acheck (checkCable ops False) (acheck (devices_ok dev) (\<lambda>a.
     if isXilinxJtag a then
       adefined (unat len \<le> 512) (abind (on_cable (op_deviceDR ops dev None True (ucast len) SCAN_MODE_READ))
         (\<lambda>out. answer (formatDataRead (over out stk) (unat len) 0))) a
     else let pre = pre_shift dev a in
       adefined (unat len + pre \<le> 512) (abind (on_cable (op_shiftDR ops None True (of_nat (unat len + pre)) SCAN_MODE_READ))
         (\<lambda>out. answer (formatDataRead (over out (replicate 64 0)) (unat len) pre))) a))"

definition setGetJtagData :: "'i cable_ops \<Rightarrow> u8 list \<Rightarrow> u8 \<Rightarrow> 'b::len word \<Rightarrow> u16 \<Rightarrow> ('i, 'a::len word) acc" where
  "setGetJtagData ops stk dev w len = acheck (checkCable ops False) (acheck (devices_ok dev) (\<lambda>a.
     if isXilinxJtag a then
       adefined (unat len \<le> 512) (abind (on_cable (op_deviceDR ops dev (Some (formatDataWrite w (unat len) 0 0 False)) True (ucast len) SCAN_MODE_READ_WRITE))
         (\<lambda>out. answer (formatDataRead (over out stk) (unat len) 0))) a
     else let pre = pre_shift dev a; n = unat len + pre + unat dev in
       adefined (n \<le> 512) (abind (on_cable (op_shiftDR ops (Some (formatDataWrite w (unat len) pre (unat dev) False)) True (of_nat n) SCAN_MODE_READ_WRITE))
         (\<lambda>out. answer (formatDataRead (over out stk) (unat len) pre))) a))"

text \<open>With lists of bits the buffer is made for the scan; nothing else than running out of memory can go wrong with it.\<close>

definition getJtagBools :: "'i cable_ops \<Rightarrow> u8 \<Rightarrow> u16 \<Rightarrow> ('i, bool list) acc" where
  "getJtagBools ops dev len = acheck (checkCable ops False) (acheck (devices_ok dev) (\<lambda>a.
     if isXilinxJtag a then
       abind (on_cable (op_deviceDR ops dev None True (ucast len) SCAN_MODE_READ)) (\<lambda>out. aret (formatBoolsRead out (unat len) 0)) a
     else let pre = pre_shift dev a in
       abind (on_cable (op_shiftDR ops None True (of_nat (unat len + pre)) SCAN_MODE_READ)) (\<lambda>out. aret (formatBoolsRead out (unat len) pre)) a))"

definition setGetJtagBools :: "'i cable_ops \<Rightarrow> u8 \<Rightarrow> bool list \<Rightarrow> u16 \<Rightarrow> ('i, bool list) acc" where
  "setGetJtagBools ops dev bs len = acheck (checkCable ops False) (acheck (devices_ok dev) (adefined (unat len \<le> length bs) (\<lambda>a.
     if isXilinxJtag a then
       abind (on_cable (op_deviceDR ops dev (Some (formatBoolsWrite bs (unat len) 0 0)) True (ucast len) SCAN_MODE_READ_WRITE))
         (\<lambda>out. aret (formatBoolsRead out (unat len) 0)) a
     else let pre = unat (device_count a - ucast dev - 1) in
       abind (on_cable (op_shiftDR ops (Some (formatBoolsWrite bs (unat len) pre (unat dev))) True (of_nat (unat len + pre + unat dev)) SCAN_MODE_READ_WRITE))
         (\<lambda>out. aret (formatBoolsRead out (unat len) (unat (of_nat pre :: u8)))) a)))"

subsection \<open>Packing is right\<close>

text \<open>The bit number \<open>k\<close> of what \<open>formatDataWrite\<close> is asked for.\<close>

definition scan_bit :: "bool \<Rightarrow> 'a::len word \<Rightarrow> nat \<Rightarrow> nat \<Rightarrow> nat \<Rightarrow> bool" where
  "scan_bit byp d pre data k = (if k < pre then byp else if k < pre + data then bit d (k - pre) else byp)"

lemma data_bit_Cons: "data_bit (b # bs) k = (if k < 8 then bit b k else data_bit bs (k - 8))"
proof (cases "k < 8")
  case False
  then have "k div 8 = Suc ((k - 8) div 8)" "(k - 8) mod 8 = k mod 8" by (auto simp: le_div_geq le_mod_geq)
  then show ?thesis using False by (simp add: data_bit_def)
qed (simp add: data_bit_def)

lemma length_write_bytes [simp]: "length (write_bytes byp n d pre data last_bits) = n"
  by (induction byp n d pre data last_bits rule: write_bytes.induct) (auto simp: Let_def split: prod.splits)

lemma scan_bit_step: "k \<ge> 8 \<Longrightarrow> scan_bit byp (if pre > 8 then d else drop_bit (8 - pre) d) (pre - 8) (if pre > 8 then data else data - (8 - pre)) (k - 8) = scan_bit byp d pre data k"
  by (auto simp: scan_bit_def bit_drop_bit_eq)

text \<open>The three kinds of bytes.\<close>

lemma bit_fill: "j < 8 \<Longrightarrow> bit (if byp then 0xFF else 0 :: u8) j = byp"
proof -
  assume j: "j < 8"
  have f: "(0xFF :: u8) = mask 8" by (simp add: mask_eq_exp_minus_1)
  show ?thesis unfolding f using j by (simp add: bit_mask_iff)
qed

lemma bit_edge:
  fixes d :: "'a::len word" and byp :: bool
  assumes "\<forall>i\<ge>data. \<not> bit d i" "pre \<le> 8" "j < 8" "pre \<noteq> 0 \<or> data \<noteq> 0" "pre + data \<noteq> 0"
  defines "b \<equiv> push_bit pre (ucast (d AND mask (8 - pre))) OR (if byp then mask pre else 0) :: u8"
  shows "bit (if data - (8 - pre) = 0 \<and> (pre + data) mod 8 \<noteq> 0 \<and> byp then b OR push_bit ((pre + data) mod 8) (mask (8 - (pre + data) mod 8)) else b) j
    = scan_bit byp d pre data j"
proof -
  have b: "bit b j = (if j < pre then byp else bit d (j - pre))"
    using assms(2,3) by (auto simp: b_def bit_simps dest: bit_imp_le_length)
  show ?thesis
  proof (cases "data - (8 - pre) = 0 \<and> (pre + data) mod 8 \<noteq> 0 \<and> byp")
    case True
    then have "pre + data < 8" using assms(2) by (cases "pre + data = 8") auto
    then have m: "(pre + data) mod 8 = pre + data" by simp
    have "bit (push_bit (pre + data) (mask (8 - (pre + data))) :: u8) j = (pre + data \<le> j)"
      using assms(3) \<open>pre + data < 8\<close> by (auto simp: bit_simps)
    then show ?thesis using True b assms(1) unfolding m by (auto simp: bit_simps scan_bit_def)
  next
    case False
    have "bit d (j - pre) = (if j < pre + data then bit d (j - pre) else byp)" if "pre \<le> j"
    proof (cases "j < pre + data")
      case False
      then have n: "pre + data \<le> j" by simp
      then have "\<not> bit d (j - pre)" using assms(1) that by auto
      moreover have "(pre + data) mod 8 \<noteq> 0" using n assms(3,5) by auto
      moreover have "data - (8 - pre) = 0" using n assms(3) by auto
      ultimately show ?thesis using \<open>\<not> (data - (8 - pre) = 0 \<and> (pre + data) mod 8 \<noteq> 0 \<and> byp)\<close> False by auto
    qed simp
    then show ?thesis unfolding if_not_P [OF False] b scan_bit_def by auto
  qed
qed

lemma data_bit_write_bytes:
  "\<forall>i\<ge>data. \<not> bit d i \<Longrightarrow> last_bits = (pre + data) mod 8 \<or> pre = 0 \<and> data = 0 \<and> last_bits < 8 \<Longrightarrow> k < 8 * n \<Longrightarrow>
   data_bit (write_bytes byp n d pre data last_bits) k = scan_bit byp d pre data k"
proof (induction n arbitrary: d pre data last_bits k)
  case 0 then show ?case by simp
next
  case (Suc n)
  consider (skip) "pre > 8" | (edge) "pre \<le> 8" "pre + data \<noteq> 0" | (empty) "pre = 0" "data = 0" by linarith
  then show ?case
  proof cases
    case skip
    have l: "last_bits = (pre - 8 + data) mod 8" using Suc.prems(2) skip by (auto simp: mod_if)
    have "k \<ge> 8 \<Longrightarrow> data_bit (write_bytes byp n d (pre - 8) data last_bits) (k - 8) = scan_bit byp d (pre - 8) data (k - 8)"
      using Suc.prems l by (intro Suc.IH) auto
    then show ?thesis using skip bit_fill [of k byp] by (auto simp: data_bit_Cons Let_def scan_bit_def)
  next
    case edge
    have l: "last_bits = (pre + data) mod 8" using Suc.prems(2) edge by auto
    let ?b = "push_bit pre (ucast (d AND mask (8 - pre))) OR (if byp then mask pre else 0) :: u8"
    let ?d = "drop_bit (8 - pre) d" and ?data = "data - (8 - pre)"
    let ?c = "?data = 0 \<and> last_bits \<noteq> 0 \<and> byp"
    have u: "ucast (d AND mask 8) = (ucast d :: u8)"
      by (rule bit_word_eqI) (auto simp: bit_simps dest: bit_imp_le_length)
    have w: "write_bytes byp (Suc n) d pre data last_bits =
        (if ?c then ?b OR push_bit last_bits (mask (8 - last_bits)) else ?b) # write_bytes byp n ?d 0 ?data (if ?c then 0 else last_bits)"
    proof (cases "pre = 0")
      case True
      then show ?thesis using edge by (simp add: Let_def u)
    next
      case False
      then show ?thesis using edge by (simp add: Let_def)
    qed
    have z: "\<forall>i\<ge>?data. \<not> bit ?d i" using Suc.prems(1) by (auto simp: bit_drop_bit_eq)
    have l1: "(if ?c then 0 else last_bits) = (0 + ?data) mod 8 \<or> 0 = (0 :: nat) \<and> ?data = 0 \<and> (if ?c then 0 else last_bits) < 8"
    proof (cases "?data = 0")
      case False
      then have "pre + data = ?data + 8" using edge(1) by simp
      then have "(pre + data) mod 8 = ?data mod 8" by (simp only: mod_add_self2)
      then show ?thesis using l False by simp
    qed (simp add: l)
    have "k \<ge> 8 \<Longrightarrow> data_bit (write_bytes byp n ?d 0 ?data (if ?c then 0 else last_bits)) (k - 8) = scan_bit byp ?d 0 ?data (k - 8)"
      using Suc.prems(3) by (intro Suc.IH [OF z l1]) auto
    moreover have "k \<ge> 8 \<Longrightarrow> scan_bit byp ?d 0 ?data (k - 8) = scan_bit byp d pre data k"
      using scan_bit_step [of k byp pre d data] edge(1) by simp
    moreover have "k < 8 \<Longrightarrow> bit (if ?c then ?b OR push_bit last_bits (mask (8 - last_bits)) else ?b) k = scan_bit byp d pre data k"
      unfolding l by (rule bit_edge) (use Suc.prems(1) edge in auto)
    ultimately show ?thesis unfolding w data_bit_Cons by (cases "k < 8") simp_all
  next
    case empty
    have "k \<ge> 8 \<Longrightarrow> data_bit (write_bytes byp n d 0 0 l) (k - 8) = byp" if "l < 8" for l
      using Suc.IH [of 0 d l 0 "k - 8"] Suc.prems that empty by (auto simp: scan_bit_def)
    moreover have "last_bits < 8" using Suc.prems(2) empty by auto
    moreover have "k < 8 \<Longrightarrow> bit ((0xFF :: u8) OR x) k" for x using bit_fill [of k True] by (simp add: bit_simps)
    ultimately show ?thesis using empty bit_fill [of k byp] bit_fill [of k True] bit_fill [of k False]
      by (auto simp: data_bit_Cons Let_def scan_bit_def)
  qed
qed

text \<open>The bytes of \<open>formatDataWrite\<close>: as many as needed, and every bit of the scan is what it should be.\<close>

lemma formatDataWrite_bits:
  fixes w :: "'a::len word"
  assumes "k < len + pre + post"
  shows "length (formatDataWrite w len pre post byp) = (len + pre + post + 7) div 8"
    "data_bit (formatDataWrite w len pre post byp) k = scan_bit byp w pre len k"
proof -
  show "length (formatDataWrite w len pre post byp) = (len + pre + post + 7) div 8" by (simp add: formatDataWrite_def Let_def)
  let ?d = "if min LENGTH('a) len < LENGTH('a) then w AND mask (min LENGTH('a) len) else w"
  have b: "bit ?d i = (i < len \<and> bit w i)" for i by (auto simp: bit_simps dest: bit_imp_le_length)
  have z: "\<forall>i\<ge>len. \<not> bit ?d i" by (simp add: b)
  have "k < 8 * ((len + pre + post + 7) div 8)" using assms by linarith
  from data_bit_write_bytes [OF z _ this, of "(len + pre) mod 8" pre byp]
  have "data_bit (write_bytes byp ((len + pre + post + 7) div 8) ?d pre len ((len + pre) mod 8)) k = scan_bit byp ?d pre len k"
    by (simp add: add.commute)
  also have "\<dots> = scan_bit byp w pre len k" unfolding scan_bit_def b by auto
  finally show "data_bit (formatDataWrite w len pre post byp) k = scan_bit byp w pre len k"
    unfolding formatDataWrite_def Let_def .
qed

subsection \<open>Unpacking\<close>

lemma bit_at: "j < 8 \<Longrightarrow> bit (buf ! i) j = data_bit buf (8 * i + j)"
  by (simp add: data_bit_def)

lemma read_step:
  fixes d :: "'a::len word" and byte :: u8
  assumes "m \<le> 8"
  shows "bit (push_bit m d OR ucast (byte AND mask m)) j = (j < LENGTH('a) \<and> (if j < m then bit byte j else bit d (j - m)))"
  using assms by (auto simp: bit_simps dest: bit_imp_le_length)

lemma read_bytes_bits:
  fixes d :: "'a::len word"
  assumes zero: "\<forall>k. lim \<le> k \<and> k < 8 * (n + preB) \<longrightarrow> \<not> data_bit buf k" and pb: "preb < 8"
  shows "i \<le> n \<Longrightarrow> \<forall>j<LENGTH('a). bit d j = (j < 8 * i \<and> data_bit buf (8 * (preB + n - i) + j)) \<Longrightarrow>
    last_bits \<noteq> 0 \<longrightarrow> i = 0 \<and> 1 < n \<and> lim \<le> 8 * (n - 1 + preB) + last_bits \<Longrightarrow>
    i < n \<or> preb = 0 \<or> n = 0 \<Longrightarrow>
    j < LENGTH('a) \<Longrightarrow> bit (read_bytes buf n preB preb [i..<n] last_bits d) j = (j + preb < 8 * n \<and> data_bit buf (8 * preB + preb + j))"
proof (induction "n - i" arbitrary: i d last_bits)
  case 0
  then have "i = n" by simp
  then show ?case using 0 by auto
next
  case (Suc m)
  have i: "i < n" "[i..<n] = i # [Suc i..<n]" "m = n - Suc i" using Suc.hyps(2) by (auto simp: upt_conv_Cons)
  have idx: "n - i - 1 + preB = preB + n - Suc i" using i by simp
  have abs: "8 * (preB + n - i) = 8 * (preB + n - Suc i) + 8" using i(1) by simp
  show ?case
  proof (cases "last_bits \<noteq> 0")
    case True
    then have z: "i = 0" "1 < n" "lim \<le> 8 * (n - 1 + preB) + last_bits" using Suc.prems(3) by auto
    let ?d = "d OR ucast (buf ! (n - 1 + preB)) AND mask last_bits"
    have "\<forall>j<LENGTH('a). bit ?d j = (j < 8 * Suc i \<and> data_bit buf (8 * (preB + n - Suc i) + j))"
    proof (intro allI impI)
      fix j assume j: "j < LENGTH('a)"
      have "j < last_bits" if b: "data_bit buf (8 * (n - 1 + preB) + j)" "j < 8"
      proof (rule ccontr)
        assume "\<not> j < last_bits"
        then have "lim \<le> 8 * (n - 1 + preB) + j" "8 * (n - 1 + preB) + j < 8 * (n + preB)" using z(2,3) b(2) by auto
        then show False using zero b(1) by blast
      qed
      moreover have "preB + n - Suc i = n - 1 + preB" using z(1,2) by simp
      moreover have "\<not> bit d j" using Suc.prems(2) j z(1) by simp
      moreover have "bit (buf ! (n - 1 + preB)) j = (j < 8 \<and> data_bit buf (8 * (n - 1 + preB) + j))"
        using bit_at [of j buf "n - 1 + preB"] bit_imp_le_length [of "buf ! (n - 1 + preB)" j] by (cases "j < 8") auto
      moreover have "bit ?d j = (bit d j \<or> j < last_bits \<and> bit (buf ! (n - 1 + preB)) j)" using j
        by (auto simp: bit_simps dest: bit_imp_le_length)
      ultimately show "bit ?d j = (j < 8 * Suc i \<and> data_bit buf (8 * (preB + n - Suc i) + j))"
        unfolding z(1) by auto
    qed
    then show ?thesis using Suc.hyps(1) [OF i(3), of ?d 0] Suc.prems(5) True i z(1,2) by simp
  next
    case False
    show ?thesis
    proof (cases "i = n - 1 \<and> preb \<noteq> 0")
      case True
      let ?d = "push_bit (8 - preb) d OR ucast (drop_bit preb (buf ! (n - i - 1 + preB)) AND mask (8 - preb))"
      have e: "preB + n - Suc i = preB" "n = Suc i" using True i(1) by auto
      have "bit ?d j = (j + preb < 8 * n \<and> data_bit buf (8 * preB + preb + j))"
      proof (cases "j < 8 - preb")
        case True
        then have "bit (drop_bit preb (buf ! preB)) j = data_bit buf (8 * preB + preb + j)"
          using bit_at [of "preb + j" buf preB] by (simp add: bit_drop_bit_eq add.assoc)
        then show ?thesis using True Suc.prems(5) read_step [of "8 - preb" d _ j] e idx by auto
      next
        case False
        have "bit d (j - (8 - preb)) = (j - (8 - preb) < 8 * i \<and> data_bit buf (8 * (preB + n - i) + (j - (8 - preb))))"
          using Suc.prems(2,5) by simp
        moreover have "8 * (preB + n - i) + (j - (8 - preb)) = 8 * preB + preb + j" using False e pb by simp
        moreover have "(j - (8 - preb) < 8 * i) = (j + preb < 8 * n)" using False e pb by auto
        ultimately show ?thesis using False Suc.prems(5) read_step [of "8 - preb" d _ j] by auto
      qed
      then show ?thesis using False True i by (simp add: Let_def)
    next
      case n: False
      let ?d = "push_bit 8 d OR ucast (buf ! (n - i - 1 + preB))"
      have u: "ucast (buf ! (n - i - 1 + preB) AND mask 8) = (ucast (buf ! (n - i - 1 + preB)) :: 'a word)"
        by (rule bit_word_eqI) (auto simp: bit_simps dest: bit_imp_le_length)
      have "\<forall>j<LENGTH('a). bit ?d j = (j < 8 * Suc i \<and> data_bit buf (8 * (preB + n - Suc i) + j))"
      proof (intro allI impI)
        fix j assume j: "j < LENGTH('a)"
        have "bit ?d j = (if j < 8 then bit (buf ! (n - i - 1 + preB)) j else bit d (j - 8))"
          using read_step [of 8 d "buf ! (n - i - 1 + preB)" j] j unfolding u by simp
        also have "\<dots> = (j < 8 * Suc i \<and> data_bit buf (8 * (preB + n - Suc i) + j))"
        proof (cases "j < 8")
          case True then show ?thesis using bit_at [of j buf "preB + n - Suc i"] unfolding idx by simp
        next
          case False
          then have "8 * (preB + n - i) + (j - 8) = 8 * (preB + n - Suc i) + j" using abs by simp
          then show ?thesis using False Suc.prems(2) j by auto
        qed
        finally show "bit ?d j = (j < 8 * Suc i \<and> data_bit buf (8 * (preB + n - Suc i) + j))" .
      qed
      moreover have "Suc i < n \<or> preb = 0 \<or> n = 0" using n i(1) by auto
      ultimately have "bit (read_bytes buf n preB preb [Suc i..<n] 0 ?d) j = (j + preb < 8 * n \<and> data_bit buf (8 * preB + preb + j))"
        using Suc.prems(5) i(1) by (intro Suc.hyps(1) [OF i(3)]) simp_all
      then show ?thesis unfolding i(2) read_bytes.simps if_not_P [OF False] Let_def if_not_P [OF n] .
    qed
  qed
qed

text \<open>
  What \<open>formatDataRead\<close> gives: the \<open>len\<close> bits behind the first \<open>pre\<close>, when the bits behind those are zero and the chain is not too long.
\<close>

lemma read_cover: "(pre :: nat) + len \<le> 8 * (n + pre div 8) \<Longrightarrow> j < len \<Longrightarrow> j + pre mod 8 < 8 * n"
    and read_cover2: "j + pre mod 8 < 8 * n \<Longrightarrow> pre + j < 8 * (n + pre div 8)"
proof -
  define q r where "q = pre div 8" "r = pre mod 8"
  have p: "pre = 8 * q + r" by (simp add: q_r_def)
  show "j + pre mod 8 < 8 * n" if "pre + len \<le> 8 * (n + pre div 8)" "j < len"
  proof -
    have "pre + len \<le> 8 * (n + q)" using that(1) by (simp add: q_r_def)
    then have "j + r < 8 * n" using p that(2) by presburger
    then show ?thesis by (simp add: q_r_def)
  qed
  show "pre + j < 8 * (n + pre div 8)" if "j + pre mod 8 < 8 * n"
  proof -
    have "j + r < 8 * n" using that by (simp add: q_r_def)
    then have "pre + j < 8 * (n + q)" using p by presburger
    then show ?thesis by (simp add: q_r_def)
  qed
qed

lemma formatDataRead_bits:
  assumes "len \<le> LENGTH('a::len)" "pre \<le> 30" "\<forall>k. pre + len \<le> k \<and> k < pre + len + 24 \<longrightarrow> \<not> data_bit buf k"
  shows "\<exists>w :: 'a word. formatDataRead buf len pre = Some w \<and> (\<forall>j<LENGTH('a). bit w j = (j < len \<and> data_bit buf (pre + j)))"
proof -
  let ?n0 = "(len + 7) div 8" let ?n = "if (pre + len + 7) div 8 > ?n0 then ?n0 + 1 else ?n0"
  let ?l = "if ?n > 1 then len + pre - 8 * (?n - 1) else 0"
  have m: "min LENGTH('a) len = len" using assms(1) by simp
  have l30: "?l \<le> 30" using assms(2) by (auto split: if_splits)
  have lim: "?l \<noteq> 0 \<longrightarrow> (0 :: nat) = 0 \<and> 1 < ?n \<and> pre + len \<le> 8 * (?n - 1 + pre div 8) + ?l" by auto
  have cover: "pre + len \<le> 8 * (?n + pre div 8)" "8 * (?n + pre div 8) \<le> pre + len + 24" by (auto split: if_splits)
  have z: "\<forall>k. pre + len \<le> k \<and> k < 8 * (?n + pre div 8) \<longrightarrow> \<not> data_bit buf k" using assms(3) cover(2) by auto
  let ?w = "read_bytes buf ?n (pre div 8) (pre mod 8) [0..<?n] ?l (0 :: 'a word)"
  have n0: "0 < ?n \<or> pre mod 8 = 0 \<or> ?n = 0" by auto
  have "bit ?w j = (j < len \<and> data_bit buf (pre + j))" if "j < LENGTH('a)" for j
  proof -
    have "bit ?w j = (j + pre mod 8 < 8 * ?n \<and> data_bit buf (8 * (pre div 8) + pre mod 8 + j))"
      by (rule read_bytes_bits [OF z _ _ _ lim n0 that]) auto
    also have "8 * (pre div 8) + pre mod 8 + j = pre + j" by simp
    also have "(j + pre mod 8 < 8 * ?n \<and> data_bit buf (pre + j)) = (j < len \<and> data_bit buf (pre + j))"
    proof (cases "j < len")
      case True
      have "j + pre mod 8 < 8 * ?n" by (rule read_cover [OF cover(1) True])
      then show ?thesis using True by simp
    next
      case False
      show ?thesis using False z read_cover2 [of j pre ?n] by auto
    qed
    finally show ?thesis .
  qed
  moreover have "formatDataRead buf len pre = Some ?w"
    using l30 unfolding formatDataRead_def m Let_def by simp
  ultimately show ?thesis by blast
qed

subsection \<open>Packing one value after the other\<close>

definition low_bits :: "'a::len word \<Rightarrow> nat \<Rightarrow> bool list" where
  "low_bits w n = map (bit w) [0..<n]"

lemma length_low_bits [simp]: "length (low_bits w n) = n" "low_bits w 0 = []"
  by (simp_all add: low_bits_def)

lemma low_bits_split: "m \<le> n \<Longrightarrow> low_bits w n = low_bits w m @ low_bits (drop_bit m w) (n - m)"
  by (rule nth_equalityI) (auto simp: low_bits_def nth_append bit_drop_bit_eq)

text \<open>The bits in the bytes so far.\<close>

definition packed_bits :: "u8 list \<times> u8 \<times> nat \<Rightarrow> bool list" where
  "packed_bits p = (case p of (full, byte, free) \<Rightarrow> concat (map (\<lambda>b. low_bits b 8) full) @ low_bits byte (8 - free))"

definition pack_ok :: "u8 list \<times> u8 \<times> nat \<Rightarrow> bool" where
  "pack_ok p = (case p of (full, byte, free) \<Rightarrow> 1 \<le> free \<and> free \<le> 8 \<and> (\<forall>j\<ge>8 - free. \<not> bit byte j))"

lemma pack_byte:
  fixes d :: "'a::len word" and byte :: u8
  assumes "free \<le> 8" "\<forall>j\<ge>8 - free. \<not> bit byte j" "m \<le> free"
  shows "low_bits (byte OR push_bit (8 - free) (ucast d AND mask free)) (8 - free + m) = low_bits byte (8 - free) @ low_bits d m"
proof (rule nth_equalityI)
  fix i assume "i < length (low_bits (byte OR push_bit (8 - free) (ucast d AND mask free)) (8 - free + m))"
  then have i: "i < 8 - free + m" by simp
  show "low_bits (byte OR push_bit (8 - free) (ucast d AND mask free)) (8 - free + m) ! i = (low_bits byte (8 - free) @ low_bits d m) ! i"
  proof (cases "i < 8 - free")
    case True then show ?thesis using i by (simp add: low_bits_def nth_append bit_simps)
  next
    case False
    then have "\<not> bit byte i" using assms(2) by simp
    then show ?thesis using False i assms(1,3)
      by (auto simp: low_bits_def nth_append bit_simps dest: bit_imp_le_length)
  qed
qed simp

lemma low_bits_whole: "low_bits (b :: u8) (8 - free + free) = low_bits b 8" if "free \<le> 8"
  using that by simp

lemma pack_bits:
  "pack_ok p \<Longrightarrow> \<forall>i\<ge>len. \<not> bit d i \<Longrightarrow> pack_ok (pack d len p) \<and> packed_bits (pack d len p) = packed_bits p @ low_bits d len"
proof (induction d len p rule: pack.induct)
  case (1 d len full byte free)
  let ?b = "byte OR push_bit (8 - free) (ucast d AND mask free)"
  have f: "1 \<le> free" "free \<le> 8" "\<forall>j\<ge>8 - free. \<not> bit byte j" using 1(2) by (auto simp: pack_ok_def)
  consider "len < free" | "free = len" | "free < len" by linarith
  then show ?case
  proof cases
    case 1
    have "\<not> bit ?b j" if "8 - (free - len) \<le> j" for j
      using that f 1 \<open>\<forall>i\<ge>len. \<not> bit d i\<close> by (auto simp: bit_simps)
    moreover have "8 - (free - len) = 8 - free + len" using f 1 by simp
    ultimately show ?thesis using 1 f pack_byte [OF f(2,3), of len d] by (auto simp: Let_def pack_ok_def packed_bits_def)
  next
    case 2
    then show ?thesis using f pack_byte [OF f(2,3), of len d] by (auto simp: Let_def pack_ok_def packed_bits_def)
  next
    case 3
    have z: "\<forall>i\<ge>len - free. \<not> bit (drop_bit free d) i" using 1(3) by (auto simp: bit_drop_bit_eq)
    have n: "pack_ok (full @ [?b], 0, 8)" by (simp add: pack_ok_def)
    have "\<not> len < free" "free \<noteq> len" using 3 by auto
    note ih = 1(1) [OF refl this n z]
    have "low_bits ?b 8 = low_bits byte (8 - free) @ low_bits d free"
      using pack_byte [OF f(2,3), of free d] f(2) by simp
    then have "packed_bits (full @ [?b], 0, 8) = packed_bits (full, byte, free) @ low_bits d free"
      by (simp add: packed_bits_def)
    then show ?thesis using ih 3 low_bits_split [of free len d] by (simp add: Let_def del: pack.simps add: pack.simps [of d len full byte free])
  qed
qed

lemma data_bit_append: "data_bit (full @ r) i = (if i < 8 * length full then concat (map (\<lambda>b. low_bits b 8) full) ! i else data_bit r (i - 8 * length full))"
proof (induction full arbitrary: i)
  case (Cons b bs)
  show ?case
  proof (cases "i < 8")
    case True then show ?thesis by (simp add: data_bit_Cons nth_append low_bits_def)
  next
    case False
    then have "i - 8 - 8 * length bs = i - 8 * length (b # bs)" "(i - 8 < 8 * length bs) = (i < 8 * length (b # bs))" by auto
    then show ?thesis using False Cons.IH [of "i - 8"] by (simp add: data_bit_Cons nth_append)
  qed
qed simp

lemma pack_all_bits:
  assumes "\<forall>(d, n)\<in>set vs. \<forall>i\<ge>n. \<not> bit d i"
  shows "map (data_bit (pack_all vs)) [0..<sum_list (map snd vs)] = concat (map (\<lambda>(d, n). low_bits d n) (rev vs))"
proof -
  let ?f = "fold (\<lambda>(d, len). pack d len) (rev vs)"
  have "pack_ok (fold (\<lambda>(d, len). pack d len) us p) \<and> packed_bits (fold (\<lambda>(d, len). pack d len) us p) = packed_bits p @ concat (map (\<lambda>(d, n). low_bits d n) us)"
    if "pack_ok p" "\<forall>(d, n)\<in>set us. \<forall>i\<ge>n. \<not> bit d i" for us :: "('a word \<times> nat) list" and p
    using that
  proof (induction us arbitrary: p)
    case (Cons v us)
    obtain d n where v: "v = (d, n)" by fastforce
    have "pack_ok (pack d n p)" "packed_bits (pack d n p) = packed_bits p @ low_bits d n"
      using pack_bits [of p n d] Cons.prems v by auto
    then show ?case using Cons.IH [of "pack d n p"] Cons.prems(2) v by simp
  qed simp
  then have ok: "pack_ok (?f ([], 0, 8))" "packed_bits (?f ([], 0, 8)) = concat (map (\<lambda>(d, n). low_bits d n) (rev vs))"
    using assms by (auto simp: pack_ok_def packed_bits_def)
  have len: "length (concat (map (\<lambda>(d, n). low_bits d n) (rev vs))) = sum_list (map snd vs)"
    by (simp add: length_concat comp_def case_prod_beta rev_map [symmetric])
  have out: "data_bit (packed p) i = packed_bits p ! i" if "pack_ok p" "i < length (packed_bits p)" for p :: "u8 list \<times> u8 \<times> nat" and i
  proof -
    obtain full byte free where p: "p = (full, byte, free)" by (cases p) auto
    have "length (concat (map (\<lambda>b. low_bits b 8) full)) = 8 * length full" by (induction full) auto
    then show ?thesis using that data_bit_append [of full "[byte]" i] data_bit_append [of full "[]" i] unfolding p packed_bits_def packed_def
      by (auto simp: pack_ok_def nth_append data_bit_Cons low_bits_def)
  qed
  show ?thesis
    using ok len out [OF ok(1)] unfolding pack_all_def by (intro nth_equalityI) auto
qed

subsection \<open>The chain\<close>

text \<open>
  A chain of registers, the first next to TDI. What is shifted in ends, the oldest bits first, in the register
  furthest from TDI, and what is shifted through is lost.
\<close>

fun split_bits :: "nat list \<Rightarrow> bool list \<Rightarrow> bool list list" where
  "split_bits [] bs = []"
| "split_bits (n # ns) bs = take n bs # split_bits ns (drop n bs)"

definition chain_load :: "nat list \<Rightarrow> bool list \<Rightarrow> bool list list" where
  "chain_load lens bs = rev (split_bits (rev lens) (drop (length bs - sum_list lens) bs))"

lemma split_concat: "split_bits (map length rs) (concat rs) = rs"
  by (induction rs) auto

lemma chain_load_regs: "chain_load (map length rs) (junk @ concat (rev rs)) = rs"
proof -
  have "length (concat (rev rs)) = sum_list (map length rs)" by (simp add: length_concat rev_map [symmetric])
  then have "drop (length (junk @ concat (rev rs)) - sum_list (map length rs)) (junk @ concat (rev rs)) = concat (rev rs)" by simp
  then show ?thesis unfolding chain_load_def rev_map using split_concat [of "rev rs"] by simp
qed

text \<open>Data for one register while all others have one bit, followed by a bit for every device nearer to TDI.\<close>

lemma replicate_upd: "(replicate (k + Suc m) x)[k := y] = replicate k x @ y # replicate m x"
  by (induction k) auto

lemma concat_units: "concat (map (\<lambda>b. [b]) bs) = bs"
  by (induction bs) auto

lemma concat_unit: "concat (replicate k [b]) = replicate k b"
  by (induction k) auto

lemma chain_load_data:
  assumes "dev < n" "length junk = length data + (n - 1)"
  shows "chain_load ((replicate n 1)[dev := length data]) (junk @ data @ replicate dev False) ! dev = data"
proof -
  define old where "old = drop (length data + dev) junk"
  define m where "m = n - 1 - dev"
  have n: "n = dev + Suc m" using assms(1) by (simp add: m_def)
  have o: "take (length data + dev) junk @ old = junk" "length old = m" using assms(2) by (simp_all add: old_def m_def)
  let ?rs = "replicate dev [False] @ data # map (\<lambda>b. [b]) (rev old)"
  have l: "map length ?rs = (replicate n 1)[dev := length data]"
    unfolding n replicate_upd using o(2) by (simp add: comp_def map_replicate_const)
  have "concat (rev ?rs) = old @ data @ replicate dev False" by (simp add: rev_map concat_units concat_unit)
  then have "junk @ data @ replicate dev False = take (length data + dev) junk @ concat (rev ?rs)"
    by (simp only: append_assoc [symmetric] o(1))
  then have "chain_load (map length ?rs) (junk @ data @ replicate dev False) = ?rs"
    using chain_load_regs [of ?rs "take (length data + dev) junk"] by (simp only:)
  then show ?thesis unfolding l by (simp add: nth_append)
qed

subsection \<open>What a cable promises\<close>

text \<open>An object that is ready: an open cable that is \<open>ok\<close> and a chain of known devices.\<close>

definition ready :: "('i \<Rightarrow> bool) \<Rightarrow> 'i access \<Rightarrow> 'i \<Rightarrow> bool" where
  "ready ok a d = (jtag_obj a = Some d \<and> ok d \<and> \<not> isXilinxJtag a \<and> isChainValid a \<and> length (jtag_devices a) = 256 \<and>
     unat (device_count a) < 256 \<and> sum_list (irlens a) \<le> 1023)"

text \<open>The instruction registers that an instruction for one device asks for.\<close>

definition one_instr :: "'i access \<Rightarrow> nat \<Rightarrow> 'a::len word \<Rightarrow> bool list list" where
  "one_instr a dev instr = map (\<lambda>i. if i = dev then low_bits instr (irlens a ! i) else replicate (irlens a ! i) True) [0..<length (irlens a)]"


text \<open>
  \<open>sent d\<close> are the pairs of TMS and TDI that were clocked or wait in a buffer. From Run-Test-Idle a scan of at least
  one bit clocks exactly its bits through the register it is for and comes back to Run-Test-Idle.
\<close>

lemma u32_of_nat: "n < 2 ^ 32 \<Longrightarrow> unat (of_nat n :: u32) = n"
  by (simp add: unsigned_of_nat take_bit_nat_eq_self)

locale jtag_cable =
  fixes ops :: "'i cable_ops" and ok :: "'i \<Rightarrow> bool" and sent :: "'i \<Rightarrow> (bool \<times> bool) list"
  assumes is_open: "ok d \<Longrightarrow> op_open ops d"
    and shift_ir: "ok d \<Longrightarrow> n \<noteq> 0 \<Longrightarrow> \<exists>d' ps. op_shiftIR ops (Some b) n d = Some (True, (), d') \<and> ok d' \<and> sent d' = sent d @ ps \<and>
      tap_run RUN_TEST_IDLE ps = RUN_TEST_IDLE \<and> clocked_in SHIFT_IR RUN_TEST_IDLE ps = map (data_bit b) [0..<unat n]"
    and shift_dr: "ok d \<Longrightarrow> n \<noteq> 0 \<Longrightarrow> \<exists>out d' ps. op_shiftDR ops (Some b) False n SCAN_MODE_WRITE d = Some (True, out, d') \<and> ok d' \<and> sent d' = sent d @ ps \<and>
      tap_run RUN_TEST_IDLE ps = RUN_TEST_IDLE \<and> clocked_in SHIFT_DR RUN_TEST_IDLE ps = map (data_bit b) [0..<unat n]"
    and flush: "ok d \<Longrightarrow> \<exists>d'. op_flush ops d = Some (True, d') \<and> ok d' \<and> sent d' = sent d"
begin

lemma ready_cable: "ready ok a d \<Longrightarrow> checkCable ops b a"
  using is_open by (auto simp: ready_def checkCable_def)

lemma ready_obj: "ready ok a d \<Longrightarrow> ok d' \<Longrightarrow> ready ok (a\<lparr>jtag_obj := Some d'\<rparr>) d'"
  by (simp add: ready_def isXilinxJtag_def isChainValid_def irlens_def)

lemma ready_irlen:
  assumes "ready ok a d" "unat dev < unat (device_count a)"
  shows "getDeviceIRLength ops dev a = Some (Yes (dev_irlen (jtag_devices a ! unat dev)), a)" "irlens a ! unat dev = unat (dev_irlen (jtag_devices a ! unat dev))"
    "length (irlens a) = unat (device_count a)"
proof -
  have l: "length (jtag_devices a) = 256" "unat (device_count a) < 256" "isChainValid a" "\<not> isXilinxJtag a" using assms(1) by (auto simp: ready_def)
  have "bValid (jtag_devices a ! unat dev)" using l assms(2) by (auto simp: isChainValid_def list_all_length)
  then show "getDeviceIRLength ops dev a = Some (Yes (dev_irlen (jtag_devices a ! unat dev)), a)"
    using assms l ready_cable [OF assms(1)] by (simp add: getDeviceIRLength_def acheck_def aret_def isDeviceValid_def)
  show "irlens a ! unat dev = unat (dev_irlen (jtag_devices a ! unat dev))" "length (irlens a) = unat (device_count a)"
    using l assms(2) by (simp_all add: irlens_def)
qed

lemma concat_bypass: "concat (map (\<lambda>n. replicate n True) ns) = replicate (sum_list ns) True"
  by (induction ns) (auto simp: replicate_add)

lemma one_instr_bits:
  assumes "dev < length (irlens a)"
  shows "map (scan_bit True instr (sum_list (drop (dev + 1) (irlens a))) (irlens a ! dev)) [0..<sum_list (irlens a)] = concat (rev (one_instr a dev instr))"
proof -
  let ?n = "irlens a" let ?pre = "sum_list (drop (dev + 1) ?n)" and ?post = "sum_list (take dev ?n)" and ?len = "?n ! dev"
  have s: "?n = take dev ?n @ ?len # drop (Suc dev) ?n" using assms by (rule id_take_nth_drop)
  have tot: "sum_list ?n = ?pre + (?len + ?post)" by (subst s) simp
  have "one_instr a dev instr = map (\<lambda>n. replicate n True) (take dev ?n) @ low_bits instr ?len # map (\<lambda>n. replicate n True) (drop (dev + 1) ?n)"
    using assms by (intro nth_equalityI) (auto simp: one_instr_def nth_append nth_Cons')
  then have r: "concat (rev (one_instr a dev instr)) = replicate ?pre True @ low_bits instr ?len @ replicate ?post True"
    by (simp add: rev_map concat_bypass sum_list_rev)
  show ?thesis unfolding r tot
    by (rule nth_equalityI) (auto simp: scan_bit_def nth_append low_bits_def)
qed

lemma setJtagInstr_scan:
  assumes "ready ok a d" "unat dev < unat (device_count a)" "irlens a ! unat dev \<noteq> 0"
  shows "\<exists>d' ps. setJtagInstr ops dev instr a = Some (Yes (), a\<lparr>jtag_obj := Some d'\<rparr>) \<and> ok d' \<and> sent d' = sent d @ ps \<and>
    tap_run RUN_TEST_IDLE ps = RUN_TEST_IDLE \<and> clocked_in SHIFT_IR RUN_TEST_IDLE ps = concat (rev (one_instr a (unat dev) instr))"
proof -
  note i = ready_irlen [OF assms(1,2)]
  let ?n = "irlens a" let ?pre = "sum_list (drop (unat dev + 1) ?n)" and ?post = "sum_list (take (unat dev) ?n)" and ?len = "?n ! unat dev"
  have dv: "unat dev < length ?n" using assms(2) i(3) by simp
  have "?n = take (unat dev) ?n @ ?len # drop (Suc (unat dev)) ?n" using dv by (rule id_take_nth_drop)
  then have "sum_list ?n = sum_list (take (unat dev) ?n @ ?len # drop (Suc (unat dev)) ?n)" by simp
  then have tot: "sum_list ?n = ?pre + ?post + ?len" by simp
  moreover have "sum_list ?n \<le> 1023" using assms(1) by (simp add: ready_def)
  ultimately have b: "?pre \<le> 1023" "?post \<le> 1023" "?pre + ?post + ?len < 2 ^ 32" by simp_all
  define cnt :: u32 where "cnt = of_nat (?pre + ?post + ?len)"
  have c: "unat cnt = ?pre + ?post + ?len" unfolding cnt_def using b(3) by (rule u32_of_nat)
  have c0: "cnt \<noteq> 0" using c assms(3) by auto
  let ?bytes = "formatDataWrite instr ?len ?pre ?post True"
  have o: "jtag_obj a = Some d" "ok d" "\<not> isXilinxJtag a" "isChainValid a" using assms(1) by (auto simp: ready_def)
  obtain d' ps where s: "op_shiftIR ops (Some ?bytes) cnt d = Some (True, (), d')" "ok d'" "sent d' = sent d @ ps"
      "tap_run RUN_TEST_IDLE ps = RUN_TEST_IDLE" "clocked_in SHIFT_IR RUN_TEST_IDLE ps = map (data_bit ?bytes) [0..<unat cnt]"
    using shift_ir [OF o(2) c0, of ?bytes] by blast
  have "map (data_bit ?bytes) [0..<unat cnt] = map (scan_bit True instr ?pre ?len) [0..<sum_list ?n]"
    unfolding c tot using formatDataWrite_bits(2) [of _ ?len ?pre ?post instr True] by (intro map_cong) auto
  then have bits: "clocked_in SHIFT_IR RUN_TEST_IDLE ps = concat (rev (one_instr a (unat dev) instr))"
    using s(5) one_instr_bits [OF dv, of instr] by simp
  have "setJtagInstr ops dev instr a = Some (Yes (), a\<lparr>jtag_obj := Some d'\<rparr>)"
    using o assms(2) ready_cable [OF assms(1)] i(1) i(2) b(1,2) s(1)
    by (simp add: setJtagInstr_def acheck_def devices_ok_def isDeviceValid_def abind_def getBypassBits_def Let_def aret_def on_cable_def cnt_def)
  then show ?thesis using s(2-4) bits by blast
qed

lemma flush_if_ok:
  assumes "ready ok a d"
  shows "\<exists>d'. flush_if ops b a = Some (Yes (), a\<lparr>jtag_obj := Some d'\<rparr>) \<and> ok d' \<and> sent d' = sent d"
proof -
  have o: "jtag_obj a = Some d" "ok d" using assms by (auto simp: ready_def)
  obtain d' where f: "op_flush ops d = Some (True, d')" "ok d'" "sent d' = sent d" using flush [OF o(2)] by blast
  show ?thesis
  proof (cases b)
    case True
    then show ?thesis using f o ready_cable [OF assms] by (intro exI [of _ d']) (simp add: flush_if_def acheck_def on_cable_def)
  next
    case False
    have "a\<lparr>jtag_obj := Some d\<rparr> = a" using o(1) by (cases a) simp
    then show ?thesis using False o by (intro exI [of _ d]) (simp add: flush_if_def aret_def)
  qed
qed

text \<open>A data scan for one device while the others are bypassed: its bits, then one for every device nearer to TDI.\<close>

lemma setJtagData_scan:
  assumes "ready ok a d" "unat dev < unat (device_count a)" "len \<noteq> 0"
  shows "\<exists>d' ps. setJtagData ops dev w len b a = Some (Yes (), a\<lparr>jtag_obj := Some d'\<rparr>) \<and> ok d' \<and> sent d' = sent d @ ps \<and>
    tap_run RUN_TEST_IDLE ps = RUN_TEST_IDLE \<and> clocked_in SHIFT_DR RUN_TEST_IDLE ps = low_bits w (unat len) @ replicate (unat dev) False"
proof -
  have o: "jtag_obj a = Some d" "ok d" "\<not> isXilinxJtag a" "isChainValid a" using assms(1) by (auto simp: ready_def)
  have "unat len < 2 ^ 16" "unat dev < 2 ^ 8" using unsigned_less [of len, where 'a = nat] unsigned_less [of dev, where 'a = nat] by simp_all
  then have lt: "unat len + unat dev < 2 ^ 32" by simp
  define cnt :: u32 where "cnt = of_nat (unat len + unat dev)"
  have c: "unat cnt = unat len + unat dev" unfolding cnt_def using lt by (rule u32_of_nat)
  have c0: "cnt \<noteq> 0" using c assms(3) by (auto simp: unat_eq_0)
  let ?bytes = "formatDataWrite w (unat len) 0 (unat dev) False"
  obtain out d1 ps where s: "op_shiftDR ops (Some ?bytes) False cnt SCAN_MODE_WRITE d = Some (True, out, d1)" "ok d1" "sent d1 = sent d @ ps"
      "tap_run RUN_TEST_IDLE ps = RUN_TEST_IDLE" "clocked_in SHIFT_DR RUN_TEST_IDLE ps = map (data_bit ?bytes) [0..<unat cnt]"
    using shift_dr [OF o(2) c0, of ?bytes] by blast
  have "map (data_bit ?bytes) [0..<unat cnt] = map (scan_bit False w 0 (unat len)) [0..<unat len + unat dev]"
    unfolding c using formatDataWrite_bits(2) [of _ "unat len" 0 "unat dev" w False] by (intro map_cong) auto
  also have "\<dots> = low_bits w (unat len) @ replicate (unat dev) False"
    by (rule nth_equalityI) (auto simp: scan_bit_def low_bits_def nth_append)
  finally have bits: "clocked_in SHIFT_DR RUN_TEST_IDLE ps = low_bits w (unat len) @ replicate (unat dev) False" using s(5) by simp
  let ?a = "a\<lparr>jtag_obj := Some d1\<rparr>"
  obtain d' where f: "flush_if ops b ?a = Some (Yes (), ?a\<lparr>jtag_obj := Some d'\<rparr>)" "ok d'" "sent d' = sent d1"
    using flush_if_ok [OF ready_obj [OF assms(1) s(2)]] by blast
  have "setJtagData ops dev w len b a = Some (Yes (), a\<lparr>jtag_obj := Some d'\<rparr>)"
    using o assms(2) ready_cable [OF assms(1)] s(1) f(1)
    by (simp add: setJtagData_def acheck_def devices_ok_def isDeviceValid_def abind_def on_cable_def cnt_def)
  then show ?thesis using s(3,4) f(2,3) bits by auto
qed

text \<open>The instructions of all devices at once. A device whose instruction is too long spoils the ones behind it.\<close>

lemma setJtagInstrAll_scan:
  assumes "ready ok a d" "length instrs = unat (device_count a)" "\<forall>i<length instrs. \<forall>j\<ge>irlens a ! i. \<not> bit (instrs ! i) j" "sum_list (irlens a) \<noteq> 0"
  shows "\<exists>d' ps. setJtagInstrAll ops instrs a = Some (Yes (), a\<lparr>jtag_obj := Some d'\<rparr>) \<and> ok d' \<and> sent d' = sent d @ ps \<and>
    tap_run RUN_TEST_IDLE ps = RUN_TEST_IDLE \<and> clocked_in SHIFT_IR RUN_TEST_IDLE ps = concat (rev (map2 low_bits instrs (irlens a)))"
proof -
  have o: "jtag_obj a = Some d" "ok d" "\<not> isXilinxJtag a" "isChainValid a" "unat (device_count a) < 256" "sum_list (irlens a) \<le> 1023"
    using assms(1) by (auto simp: ready_def)
  have li: "length (irlens a) = unat (device_count a)" using assms(1) by (simp add: ready_def irlens_def)
  have n: "unat (ucast (device_count a) :: u8) = unat (device_count a)" using o(5)
    by (simp add: unsigned_ucast_eq take_bit_nat_eq_self)
  have g: "getDeviceIRLength ops (of_nat i) a = Some (Yes (dev_irlen (jtag_devices a ! i)), a)" "irlens a ! i = unat (dev_irlen (jtag_devices a ! i))"
    if "i < unat (device_count a)" for i
  proof -
    have u: "unat (of_nat i :: u8) = i" using that o(5) by (simp add: unsigned_of_nat take_bit_nat_eq_self)
    show "getDeviceIRLength ops (of_nat i) a = Some (Yes (dev_irlen (jtag_devices a ! i)), a)" "irlens a ! i = unat (dev_irlen (jtag_devices a ! i))"
      using ready_irlen(1,2) [OF assms(1), of "of_nat i"] that unfolding u by auto
  qed
  let ?lens = "map (\<lambda>i. getDeviceIRLength ops (of_nat i) a) [0..<unat (device_count a)]"
  have l1: "list_all (\<lambda>l. case l of Some (Yes _, _) \<Rightarrow> True | _ \<Rightarrow> False) ?lens" using g(1) by (auto simp: list_all_iff)
  have l2: "map (\<lambda>l. case l of Some (Yes x, _) \<Rightarrow> unat x | _ \<Rightarrow> 0) ?lens = irlens a"
    using g li by (intro nth_equalityI) auto
  define cnt :: u32 where "cnt = of_nat (sum_list (irlens a))"
  have c: "unat cnt = sum_list (irlens a)" unfolding cnt_def by (rule u32_of_nat) (use o(6) in simp)
  have c0: "cnt \<noteq> 0" using c assms(4) by auto
  let ?bytes = "pack_all (zip instrs (irlens a))"
  obtain d' ps where s: "op_shiftIR ops (Some ?bytes) cnt d = Some (True, (), d')" "ok d'" "sent d' = sent d @ ps"
      "tap_run RUN_TEST_IDLE ps = RUN_TEST_IDLE" "clocked_in SHIFT_IR RUN_TEST_IDLE ps = map (data_bit ?bytes) [0..<unat cnt]"
    using shift_ir [OF o(2) c0, of ?bytes] by blast
  have "\<forall>(w, n)\<in>set (zip instrs (irlens a)). \<forall>i\<ge>n. \<not> bit w i" using assms(3) by (auto simp: set_zip)
  from pack_all_bits [OF this] have "map (data_bit ?bytes) [0..<unat cnt] = concat (map (\<lambda>(d, n). low_bits d n) (rev (zip instrs (irlens a))))"
    using assms(2) li c by simp
  also have "\<dots> = concat (rev (map2 low_bits instrs (irlens a)))" by (simp add: rev_map)
  finally have bits: "clocked_in SHIFT_IR RUN_TEST_IDLE ps = concat (rev (map2 low_bits instrs (irlens a)))" using s(5) by simp
  have "getDeviceCount ops a = Some (Yes (ucast (device_count a)), a)"
    using o ready_cable [OF assms(1)] by (simp add: getDeviceCount_def acheck_def aret_def)
  then have "setJtagInstrAll ops instrs a = on_cable (op_shiftIR ops (Some ?bytes)
      (of_nat (sum_list (irlens a)))) a"
    using o assms(2) ready_cable [OF assms(1)] l1 l2
    by (simp only: setJtagInstrAll_def acheck_def abind_def adefined_def n option.case prod.case reply.case Let_def simp_thms if_True order_refl)
  then have "setJtagInstrAll ops instrs a = Some (Yes (), a\<lparr>jtag_obj := Some d'\<rparr>)" using o(1) s(1) by (simp add: on_cable_def cnt_def)
  then show ?thesis using s(2-4) bits by blast
qed

lemma setJtagDataAll_scan:
  assumes "ready ok a d" "length ws = unat (device_count a)" "length lens = length ws" "\<forall>i<length ws. \<forall>j\<ge>unat (lens ! i). \<not> bit (ws ! i) j"
    "sum_list (map unat lens) \<noteq> 0"
  shows "\<exists>d' ps. setJtagDataAll ops ws lens b a = Some (Yes (), a\<lparr>jtag_obj := Some d'\<rparr>) \<and> ok d' \<and> sent d' = sent d @ ps \<and>
    tap_run RUN_TEST_IDLE ps = RUN_TEST_IDLE \<and> clocked_in SHIFT_DR RUN_TEST_IDLE ps = concat (rev (map2 low_bits ws (map unat lens)))"
proof -
  have o: "jtag_obj a = Some d" "ok d" "\<not> isXilinxJtag a" "isChainValid a" "unat (device_count a) < 256"
    using assms(1) by (auto simp: ready_def)
  have n: "unat (ucast (device_count a) :: u8) = unat (device_count a)" using o(5)
    by (simp add: unsigned_ucast_eq take_bit_nat_eq_self)
  let ?ls = "map unat lens"
  have "sum_list (map unat ls) \<le> 255 * length ls" for ls :: "u8 list"
  proof (induction ls)
    case (Cons l ls)
    have "unat l \<le> 255" using unsigned_less [of l, where 'a = nat] by simp
    then show ?case using Cons.IH by simp
  qed simp
  then have "sum_list ?ls \<le> 255 * unat (device_count a)" using assms(2,3) by metis
  then have "sum_list ?ls < 2 ^ 32" using o(5) by simp
  then have c: "unat (of_nat (sum_list ?ls) :: u32) = sum_list ?ls" by (rule u32_of_nat)
  have c0: "(of_nat (sum_list ?ls) :: u32) \<noteq> 0" using c assms(5) by auto
  let ?bytes = "pack_all (zip ws ?ls)"
  obtain out d1 ps where s: "op_shiftDR ops (Some ?bytes) False (of_nat (sum_list ?ls)) SCAN_MODE_WRITE d = Some (True, out, d1)" "ok d1" "sent d1 = sent d @ ps"
      "tap_run RUN_TEST_IDLE ps = RUN_TEST_IDLE" "clocked_in SHIFT_DR RUN_TEST_IDLE ps = map (data_bit ?bytes) [0..<sum_list ?ls]"
    using shift_dr [OF o(2) c0, of ?bytes] unfolding c by blast
  have "\<forall>(w, n)\<in>set (zip ws ?ls). \<forall>i\<ge>n. \<not> bit w i" using assms(3,4) by (auto simp: set_zip)
  from pack_all_bits [OF this] have "map (data_bit ?bytes) [0..<sum_list ?ls] = concat (map (\<lambda>(d, n). low_bits d n) (rev (zip ws ?ls)))"
    using assms(3) by simp
  also have "\<dots> = concat (rev (map2 low_bits ws ?ls))" by (simp add: rev_map)
  finally have bits: "clocked_in SHIFT_DR RUN_TEST_IDLE ps = concat (rev (map2 low_bits ws ?ls))" using s(5) by simp
  let ?a = "a\<lparr>jtag_obj := Some d1\<rparr>"
  obtain d' where f: "flush_if ops b ?a = Some (Yes (), ?a\<lparr>jtag_obj := Some d'\<rparr>)" "ok d'" "sent d' = sent d1"
    using flush_if_ok [OF ready_obj [OF assms(1) s(2)]] by blast
  have "getDeviceCount ops a = Some (Yes (ucast (device_count a)), a)"
    using o ready_cable [OF assms(1)] by (simp add: getDeviceCount_def acheck_def aret_def)
  then have "setJtagDataAll ops ws lens b a = Some (Yes (), a\<lparr>jtag_obj := Some d'\<rparr>)"
    using o assms(2,3) ready_cable [OF assms(1)] s(1) f(1)
    by (simp add: setJtagDataAll_def acheck_def abind_def adefined_def n on_cable_def Let_def)
  then show ?thesis using s(3,4) f(2,3) bits by auto
qed

text \<open>An instruction followed by data, for one device: the instruction registers and the data register afterwards. While
  the others are bypassed their data registers have one bit; \<open>junk\<close> is what the registers held.\<close>

lemma instr_loaded: "chain_load (irlens a) (concat (rev (one_instr a dev instr))) = one_instr a dev instr"
proof -
  have "map length (one_instr a dev instr) = irlens a" by (rule nth_equalityI) (auto simp: one_instr_def)
  then show ?thesis using chain_load_regs [of "one_instr a dev instr" "[]"] by simp
qed

lemma instr_then_data:
  assumes "ready ok a d" "unat dev < unat (device_count a)" "irlens a ! unat dev \<noteq> 0" "len \<noteq> 0"
  shows "\<exists>d' ps qs. abind (setJtagInstr ops dev instr) (\<lambda>_. setJtagData ops dev w len b) a = Some (Yes (), a\<lparr>jtag_obj := Some d'\<rparr>) \<and> ok d' \<and>
    sent d' = sent d @ ps @ qs \<and> tap_run RUN_TEST_IDLE (ps @ qs) = RUN_TEST_IDLE \<and> tap_run RUN_TEST_IDLE ps = RUN_TEST_IDLE \<and>
    chain_load (irlens a) (clocked_in SHIFT_IR RUN_TEST_IDLE ps) = one_instr a (unat dev) instr \<and>
    (\<forall>junk. length junk = unat len + (unat (device_count a) - 1) \<longrightarrow>
      chain_load ((replicate (unat (device_count a)) 1)[unat dev := unat len]) (junk @ clocked_in SHIFT_DR RUN_TEST_IDLE qs) ! unat dev = low_bits w (unat len))"
proof -
  obtain d1 ps where i: "setJtagInstr ops dev instr a = Some (Yes (), a\<lparr>jtag_obj := Some d1\<rparr>)" "ok d1" "sent d1 = sent d @ ps"
      "tap_run RUN_TEST_IDLE ps = RUN_TEST_IDLE" "clocked_in SHIFT_IR RUN_TEST_IDLE ps = concat (rev (one_instr a (unat dev) instr))"
    using setJtagInstr_scan [OF assms(1-3)] by blast
  let ?a = "a\<lparr>jtag_obj := Some d1\<rparr>"
  obtain d2 qs where s: "setJtagData ops dev w len b ?a = Some (Yes (), ?a\<lparr>jtag_obj := Some d2\<rparr>)" "ok d2" "sent d2 = sent d1 @ qs"
      "tap_run RUN_TEST_IDLE qs = RUN_TEST_IDLE" "clocked_in SHIFT_DR RUN_TEST_IDLE qs = low_bits w (unat len) @ replicate (unat dev) False"
    using setJtagData_scan [OF ready_obj [OF assms(1) i(2)], of dev len w b] assms(2,4) by auto
  have ir: "chain_load (irlens a) (clocked_in SHIFT_IR RUN_TEST_IDLE ps) = one_instr a (unat dev) instr"
    unfolding i(5) by (rule instr_loaded)
  have dr: "chain_load ((replicate (unat (device_count a)) 1)[unat dev := unat len]) (junk @ clocked_in SHIFT_DR RUN_TEST_IDLE qs) ! unat dev = low_bits w (unat len)"
    if "length junk = unat len + (unat (device_count a) - 1)" for junk
    using chain_load_data [OF assms(2), of junk "low_bits w (unat len)"] that s(5) by simp
  have "abind (setJtagInstr ops dev instr) (\<lambda>_. setJtagData ops dev w len b) a = Some (Yes (), a\<lparr>jtag_obj := Some d2\<rparr>)"
    using i(1) s(1) by (simp add: abind_def)
  then show ?thesis using s(2-4) i(3,4) ir dr by (intro exI [of _ d2] exI [of _ ps] exI [of _ qs]) simp
qed

end

subsection \<open>The cable of Digilent\<close>

definition digilent_ops :: "driver \<Rightarrow> digilent cable_ops" where
  "digilent_ops drv = \<lparr>op_open = cable_open, op_shiftIR = shiftChainIR drv, op_shiftDR = shiftChainDR drv, op_navigate = navigate drv,
     op_flush = \<lambda>d. Some (flushCable drv False d), op_deviceIR = \<lambda>_ _ _ d. Some (False, (), d), op_deviceDR = \<lambda>_ _ _ _ _ d. Some (False, [], d),
     op_count = \<lambda>d. (0, \<lambda>_. (False, d)), op_info = \<lambda>_ d. (None, \<lambda>_. (False, d))\<rparr>"

definition digilent_ok :: "driver \<Rightarrow> digilent \<Rightarrow> bool" where
  "digilent_ok drv d = (driver_ok drv \<and> buf_ok d \<and> jstate d = RUN_TEST_IDLE)"

interpretation dc: jtag_cable "digilent_ops drv" "digilent_ok drv" stream for drv
proof
  fix d :: digilent and n :: u32 and b :: "u8 list"
  assume ok: "digilent_ok drv d"
  then have o: "driver_ok drv" "buf_ok d" "jstate d = RUN_TEST_IDLE" by (auto simp: digilent_ok_def)
  show "op_open (digilent_ops drv) d" using o(2) by (simp add: digilent_ops_def buf_ok_def)
  show "\<exists>d'. op_flush (digilent_ops drv) d = Some (True, d') \<and> digilent_ok drv d' \<and> stream d' = stream d"
    using flush_buf_ok [OF o(1,2), of False] o by (auto simp: digilent_ops_def digilent_ok_def)
  assume n: "n \<noteq> 0"
  show "\<exists>d' ps. op_shiftIR (digilent_ops drv) (Some b) n d = Some (True, (), d') \<and> digilent_ok drv d' \<and> stream d' = stream d @ ps \<and>
      tap_run RUN_TEST_IDLE ps = RUN_TEST_IDLE \<and> clocked_in SHIFT_IR RUN_TEST_IDLE ps = map (data_bit b) [0..<unat n]"
    using shiftChainIR_scans [OF o n refl, of b] o(1) by (auto simp: digilent_ops_def digilent_ok_def)
  show "\<exists>out d' ps. op_shiftDR (digilent_ops drv) (Some b) False n SCAN_MODE_WRITE d = Some (True, out, d') \<and> digilent_ok drv d' \<and> stream d' = stream d @ ps \<and>
      tap_run RUN_TEST_IDLE ps = RUN_TEST_IDLE \<and> clocked_in SHIFT_DR RUN_TEST_IDLE ps = map (data_bit b) [0..<unat n]"
    using dr_scan_ok [OF o n, of SCAN_MODE_WRITE False "Some b" b] o(1) by (auto simp: digilent_ops_def digilent_ok_def)
qed

subsection \<open>Reaching a device\<close>

text \<open>Claim C35: An instruction followed by data for one device of a chain of any length, over the cable of Digilent: both calls
  succeed; after the first scan the instruction registers of the chain hold the instruction in this device and only ones, the bypass
  instruction, in all others; after the second the data is in the device's register, whatever the registers held before;
  the controllers are back in Run-Test-Idle.\<close>

theorem access_reaches_device:
  assumes "ready (digilent_ok drv) a d" "unat dev < unat (device_count a)" "irlens a ! unat dev \<noteq> 0" "len \<noteq> 0"
  shows "\<exists>d' ps qs. abind (setJtagInstr (digilent_ops drv) dev instr) (\<lambda>_. setJtagData (digilent_ops drv) dev w len b) a =
      Some (Yes (), a\<lparr>jtag_obj := Some d'\<rparr>) \<and> digilent_ok drv d' \<and> stream d' = stream d @ ps @ qs \<and>
    tap_run RUN_TEST_IDLE (ps @ qs) = RUN_TEST_IDLE \<and> tap_run RUN_TEST_IDLE ps = RUN_TEST_IDLE \<and>
    chain_load (irlens a) (clocked_in SHIFT_IR RUN_TEST_IDLE ps) = one_instr a (unat dev) instr \<and>
    (\<forall>junk. length junk = unat len + (unat (device_count a) - 1) \<longrightarrow>
      chain_load ((replicate (unat (device_count a)) 1)[unat dev := unat len]) (junk @ clocked_in SHIFT_DR RUN_TEST_IDLE qs) ! unat dev = low_bits w (unat len))"
  using dc.instr_then_data [OF assms] .

text \<open>What \<open>getJtagData\<close> makes of the bytes of a scan: the bits behind those of the devices nearer to TDO, provided
  the cable leaves the bits behind the scan zero.\<close>

lemma getJtagData_value:
  fixes ops :: "'i cable_ops"
  assumes "jtag_obj a = Some d" "op_open ops d" "\<not> isXilinxJtag a" "isChainValid a" "unat (device_count a) = Suc (unat dev + pre)" "device_count a < 32"
    "unat len \<le> LENGTH('a::len)" "unat len \<le> 64"
    "op_shiftDR ops None True (of_nat (unat len + pre)) SCAN_MODE_READ d = Some (True, out, d')"
    "\<forall>k. unat len + pre \<le> k \<and> k < 8 * length out \<longrightarrow> \<not> data_bit out k" "length out \<le> 60"
    "unat len + pre \<le> 8 * length out"
  shows "\<exists>w :: 'a word. getJtagData ops stk dev len a = Some (Yes w, a\<lparr>jtag_obj := Some d'\<rparr>) \<and>
    (\<forall>j<LENGTH('a). bit w j = (j < unat len \<and> data_bit out (pre + j)))"
proof -
  let ?buf = "over out (replicate 64 0)"
  have c: "unat (device_count a) < 32" using assms(6) by (simp add: word_less_nat_alt)
  have d: "unat (ucast dev :: u16) = unat dev" using unsigned_less [of dev, where 'a = nat]
    by (simp add: unsigned_ucast_eq take_bit_nat_eq_self)
  have "unat (device_count a - ucast dev) = Suc pre" using assms(5) d by (simp add: unat_sub_if')
  moreover have "unat (1 :: u16) \<le> unat (device_count a - ucast dev)" using calculation by simp
  ultimately have "unat (device_count a - ucast dev - 1) = pre" by (simp add: unat_sub_if')
  then have p: "pre_shift dev a = pre" using c assms(5) unfolding pre_shift_def by (simp add: unsigned_ucast_eq take_bit_nat_eq_self)
  have z: "\<forall>k. pre + unat len \<le> k \<and> k < pre + unat len + 24 \<longrightarrow> \<not> data_bit ?buf k"
  proof (intro allI impI)
    fix k assume k: "pre + unat len \<le> k \<and> k < pre + unat len + 24"
    show "\<not> data_bit ?buf k"
    proof (cases "k < 8 * length out")
      case True
      then have "data_bit ?buf k = data_bit out k" by (auto simp: data_bit_def over_def nth_append)
      then show ?thesis using assms(10) True k by (simp add: add.commute)
    next
      case False
      moreover have "k < 512" using k c assms(5,8) by simp
      ultimately have "?buf ! (k div 8) = 0" by (auto simp: over_def nth_append)
      then show ?thesis by (simp add: data_bit_def)
    qed
  qed
  have pp: "pre \<le> 30" using c assms(5) by simp
  obtain w :: "'a word" where w: "formatDataRead ?buf (unat len) pre = Some w" "\<forall>j<LENGTH('a). bit w j = (j < unat len \<and> data_bit ?buf (pre + j))"
    using formatDataRead_bits [OF assms(7) pp z] by blast
  have "data_bit ?buf (pre + j) = data_bit out (pre + j)" if "j < unat len" for j
    using that assms(12) by (auto simp: data_bit_def over_def nth_append)
  moreover have "getJtagData ops stk dev len a = Some (Yes w, a\<lparr>jtag_obj := Some d'\<rparr>)"
    using assms(1-5,8,9) c w(1) p
    by (simp add: getJtagData_def acheck_def checkCable_def devices_ok_def isDeviceValid_def adefined_def abind_def on_cable_def answer_def Let_def)
  ultimately show ?thesis using w(2) by auto
qed

text \<open>A read into a list of bits loses bits when 256 to 263 of them are left: of 256 bits it gives 248.\<close>

lemma long_read_loses_bits: "length (formatBoolsRead buf 256 0) = 248"
  by (simp add: formatBoolsRead_def Let_def upt_rec)

subsection \<open>Witnesses\<close>

text \<open>A chain of an FPGA, next to TDI, and two HICANNs.\<close>

definition demo_access :: "digilent access" where
  "demo_access = \<lparr>jtag_obj = Some demo_cable, interface = JTAG_DIGILENT, device_count = 3,
     jtag_devices = [\<lparr>bValid = True, dev_idcode = 0x1c56c007, dev_irlen = 4\<rparr>, \<lparr>bValid = True, dev_idcode = 0x14849434, dev_irlen = 6\<rparr>,
       \<lparr>bValid = True, dev_idcode = 0x14849434, dev_irlen = 6\<rparr>] @ replicate 253 \<lparr>bValid = False, dev_idcode = 0, dev_irlen = 0\<rparr>,
     jtag_table = demo_targets\<rparr>"

lemma demo_ready: "ready (digilent_ok demo_driver) demo_access demo_cable" "irlens demo_access = [4, 6, 6]" "device_count demo_access = 3"
proof -
  show i: "irlens demo_access = [4, 6, 6]" by (simp add: irlens_def demo_access_def)
  show "device_count demo_access = 3" by (simp add: demo_access_def)
  have "isChainValid demo_access" by (simp add: isChainValid_def demo_access_def)
  then show "ready (digilent_ok demo_driver) demo_access demo_cable"
    using demo_ok i by (simp add: ready_def digilent_ok_def isXilinxJtag_def demo_access_def)
qed

theorem access_reaches_device_witness:
  "\<exists>d' ps qs. abind (setJtagInstr (digilent_ops demo_driver) 1 (0x17 :: u32)) (\<lambda>_. setJtagData (digilent_ops demo_driver) 1 (0xc :: u64) 4 True) demo_access =
      Some (Yes (), demo_access\<lparr>jtag_obj := Some d'\<rparr>) \<and> stream d' = ps @ qs \<and>
    chain_load [4, 6, 6] (clocked_in SHIFT_IR RUN_TEST_IDLE ps) =
      [[True, True, True, True], [True, True, True, False, True, False], [True, True, True, True, True, True]]"
proof -
  have o: "one_instr demo_access 1 (0x17 :: u32) = [[True, True, True, True], [True, True, True, False, True, False], [True, True, True, True, True, True]]"
    unfolding one_instr_def demo_ready(2) low_bits_def by code_simp
  have s: "stream demo_cable = []" by (rule demo_ok(4))
  have v: "unat (1 :: u8) < unat (device_count demo_access)" "irlens demo_access ! unat (1 :: u8) \<noteq> 0" by (simp_all add: demo_ready)
  from access_reaches_device [OF demo_ready(1) v, of 4 "0x17 :: u32" "0xc :: u64" True] show ?thesis
    using o s by (auto simp: demo_ready(2))
qed

end
