(* ===== verification/Jtag_ethernet.thy ===== *)
theory Jtag_ethernet
  imports Jtag_access
begin

text \<open>
  The JTAG cable over Ethernet (\<open>jtag_ethernet.cpp\<close>), over a socket or over the host link: every clock is a byte of a frame,
  with TMS and TDI for the low and the high phase of TCK, and a frame is sent when its buffer is full or has to be. The
  results: the cable keeps the promises of \<open>jtag_cable\<close>, frames and buffer together being the clocks in order, so that
  \<open>Jtag_access\<close> reaches every device over it; a read gets the bits the chain put out while it was shifted; and
  setting the frequency, or clocks at a full buffer, spoil the frames behind them.
\<close>

subsection \<open>State and environment\<close>

datatype eth_link = No_link | Socket | Stream | Dangling

text \<open>
  The members used. \<open>frames\<close> are the payloads sent so far and \<open>received\<close> counts the answers; \<open>tdo_out\<close> is what was written
  through \<open>m_puiTDOBuffer\<close> since it was set. A socket that was deleted is \<open>Dangling\<close>: its pointer is kept.
\<close>

record ethernet =
  eth_session :: bool
  eth_open :: bool
  link :: eth_link
  send_buffer :: "u8 list"
  receive_buffer :: "u8 list"
  jtag_state :: eJtagState
  curr_tx :: u16
  buffer_depth :: u32
  nibble_high :: bool
  rx_data :: bool
  tdo_out :: "u8 list"
  frames :: "u8 list list"
  received :: nat

text \<open>
  Socket and host link: what \<open>sendto\<close> returns, whether data is available at a try, what \<open>recvfrom\<close> returns and writes;
  whether the host link takes a packet, and the packet it delivers before the time-out, with whether it is one for JTAG.
\<close>

record eth_env =
  sock_send :: "u8 list list \<Rightarrow> u8 list \<Rightarrow> int"
  sock_avail :: "u8 list list \<Rightarrow> nat \<Rightarrow> nat \<Rightarrow> int"
  sock_recv :: "u8 list list \<Rightarrow> nat \<Rightarrow> nat \<Rightarrow> int \<times> u8 list"
  strm_send :: "u8 list list \<Rightarrow> u8 list \<Rightarrow> bool"
  strm_recv :: "u8 list list \<Rightarrow> nat \<Rightarrow> (bool \<times> u8 list) option"

definition MAX_BUFFER_DEPTH :: nat where "MAX_BUFFER_DEPTH = 1400"
definition CMD_JTAG :: u8 where "CMD_JTAG = 0x0C"
definition CMD_SINGLE :: u8 where "CMD_SINGLE = 0x3A"
definition CMD_BULK :: u8 where "CMD_BULK = 0x33"

text \<open>A write into the send buffer, and one at its end.\<close>

definition put_at :: "nat \<Rightarrow> u8 \<Rightarrow> (ethernet, unit) hal" where
  "put_at i b = (\<lambda>s. if i < length (send_buffer s) then (Inr (), s\<lparr>send_buffer := (send_buffer s)[i := b]\<rparr>) else (Inl Undefined_behaviour, s))"

definition or_at :: "nat \<Rightarrow> u8 \<Rightarrow> (ethernet, unit) hal" where
  "or_at i b = (\<lambda>s. put_at i (send_buffer s ! i OR b) s)"

definition put_next :: "u8 \<Rightarrow> (ethernet, unit) hal" where
  "put_next b = (\<lambda>s. hseq (put_at (unat (curr_tx s)) b) (hmodify (\<lambda>s. s\<lparr>curr_tx := curr_tx s + 1\<rparr>)) s)"

definition put_header :: "u8 \<Rightarrow> u8 \<Rightarrow> u8 \<Rightarrow> (ethernet, unit) hal" where
  "put_header c b2 b3 = hseq (put_at 0 CMD_JTAG) (hseq (put_at 1 c) (hseq (put_at 2 b2) (put_at 3 b3)))"

subsection \<open>Sending and receiving\<close>

text \<open>The packet for the host link: the number of 32-bit words, then the words with their bytes reversed.\<close>

fun swap_words :: "u8 list \<Rightarrow> u8 list" where
  "swap_words (a # b # c # d # bs) = d # c # b # a # swap_words bs"
| "swap_words bs = bs"

definition le_bytes32 :: "nat \<Rightarrow> u8 list" where
  "le_bytes32 n = map (\<lambda>i. of_nat (n div 256 ^ i)) [0..<4]"

definition padded_length :: "nat \<Rightarrow> nat" where
  "padded_length n = (n + 4 + 7) div 8 * 8 - 4"

definition stream_pdu :: "u8 list \<Rightarrow> nat \<Rightarrow> u8 list" where
  "stream_pdu buf n = (let w = 4 * ((n + 7) div 4 - 1) in
     le_bytes32 ((n + 3) div 4) @ swap_words (take w buf) @ drop w (take (padded_length n) buf))"

definition sendData :: "eth_env \<Rightarrow> u16 \<Rightarrow> (ethernet, bool) hal" where
  "sendData E uiLength = (\<lambda>s. let n = unat uiLength; data = take n (send_buffer s); sent = s\<lparr>frames := frames s @ [data]\<rparr> in
     if uiLength = 0 then (Inr True, s)
     else case link s of
       No_link \<Rightarrow> (Inl Runtime_error, s)
     | Dangling \<Rightarrow> (Inl Undefined_behaviour, s)
     | Socket \<Rightarrow> if sock_send E (frames s) data = int n then (Inr True, sent) else (Inr False, s)
     | Stream \<Rightarrow>
         if padded_length n > length (send_buffer s) then (Inl Undefined_behaviour, s)
         else let buf = take n (send_buffer s) @ replicate (padded_length n - n) 0 @ drop (padded_length n) (send_buffer s) in
           if strm_send E (frames s) (stream_pdu buf n) then (Inr True, sent\<lparr>send_buffer := buf\<rparr>) else (Inr False, s\<lparr>send_buffer := buf\<rparr>))"

text \<open>
  The bits cleared behind the end of an answer. Their number is taken from the word behind the count after its bytes were put in
  order, that is from the first two bytes of the answer.
\<close>

definition clear_from :: "nat \<Rightarrow> u8 list \<Rightarrow> u8 list" where
  "clear_from k bs = map (\<lambda>i. (bs ! i) AND mask (k - 8 * i)) [0..<length bs]"

text \<open>Up to three tries until data is available or looking failed.\<close>

fun wait_avail :: "(nat \<Rightarrow> int) \<Rightarrow> nat list \<Rightarrow> int" where
  "wait_avail f [] = 0"
| "wait_avail f (i # is) = (if f i = 0 then wait_avail f is else f i)"

definition receiveData :: "eth_env \<Rightarrow> u16 \<Rightarrow> (ethernet, u16) hal" where
  "receiveData E uiLength = (\<lambda>s. let s1 = s\<lparr>received := received s + 1\<rparr> in
     case link s of
       No_link \<Rightarrow> (Inl Runtime_error, s)
     | Dangling \<Rightarrow> (Inl Undefined_behaviour, s)
     | Socket \<Rightarrow>
         if wait_avail (sock_avail E (frames s) (received s)) [0, 1, 2] = 0 then (Inr 0, s)
         else (case sock_recv E (frames s) (received s) (unat uiLength) of (r, bytes) \<Rightarrow>
           if r < 0 then (Inr 0, s1) else (Inr (of_int r), s1\<lparr>receive_buffer := over (take (nat r) bytes) (receive_buffer s)\<rparr>))
     | Stream \<Rightarrow>
         (case strm_recv E (frames s) (received s) of
            None \<Rightarrow> (Inl Runtime_error, s)
          | Some (is_jtag, pdu) \<Rightarrow>
              let data = swap_words (drop 4 pdu); len = of_nat (4 * (\<Sum>i<4. unat (pdu ! i) * 256 ^ i)) :: u16;
                bits = unat (data ! 0) + 256 * unat (data ! 1) in
              if \<not> is_jtag then (Inl Runtime_error, s1)
              else if unat len > length (receive_buffer s) then (Inl Undefined_behaviour, s1)
              else (Inr len, s1\<lparr>receive_buffer := over (clear_from (32 + bits) (take (unat len) data)) (receive_buffer s)\<rparr>)))"

definition eth_flushCable :: "eth_env \<Rightarrow> (ethernet, bool) hal" where
  "eth_flushCable E = (\<lambda>s. if curr_tx s \<le> 4 then (Inr True, s)
     else let nibbles = 2 * (curr_tx s - 4) - (if nibble_high s then 1 else 0); n = curr_tx s;
       bytes = (if n AND 3 \<noteq> 0 then n + (4 - (n AND 3)) else n) in
     hseq (put_at 2 (ucast (drop_bit 8 nibbles))) (hseq (put_at 3 (ucast (nibbles AND 0xFF)))
    (hbind (sendData E bytes) (\<lambda>sent s1.
       if \<not> sent then (Inr False, s1)
       else hbind (if rx_data s1 then hret 4 else receiveData E 4) (\<lambda>r.
         if r \<noteq> 4 then hret False
         else hseq (hmodify (\<lambda>s. s\<lparr>nibble_high := False\<rparr>)) (hseq (put_header CMD_BULK 0 0) (hseq (hmodify (\<lambda>s. s\<lparr>curr_tx := 4\<rparr>)) (hret True)))) s1))) s)"

subsection \<open>Moving between states\<close>

text \<open>One clock: the byte for a TMS and a TDI bit, \<open>extra\<close> asking for TDO.\<close>

definition clock_bits :: "bool \<Rightarrow> u8 \<Rightarrow> u8" where
  "clock_bits tms tdi = (if tms then 2 else 0) OR tdi"

definition flush_full :: "eth_env \<Rightarrow> (ethernet, unit) hal" where
  "flush_full E = (\<lambda>s. hwhen (ucast (curr_tx s) = buffer_depth s) (hvoid (eth_flushCable E)) s)"

definition nav_clock :: "eth_env \<Rightarrow> bool \<Rightarrow> bool \<Rightarrow> (ethernet, unit) hal" where
  "nav_clock E flushes tms = (\<lambda>s. let d = clock_bits tms 0; flush = hwhen flushes (flush_full E) in
     if \<not> nibble_high s then hseq flush (put_next (d OR push_bit 4 (d OR 4))) s
     else hseq (or_at (unat (curr_tx s)) (push_bit 4 d)) (hseq flush (put_next (d OR 4))) s)"

fun nav_bits :: "eth_env \<Rightarrow> nat \<Rightarrow> u16 \<Rightarrow> (ethernet, unit) hal" where
  "nav_bits E 0 pat = hret ()"
| "nav_bits E (Suc n) pat = hseq (nav_clock E True (pat AND 1 \<noteq> 0)) (nav_bits E n (drop_bit 1 pat))"

text \<open>
  The additional clocks. Their counter has 8 bits and its bound 16, but a bound above 255 is not met before the clocks, which never
  flush, have run out of the buffer.
\<close>

fun nav_clocks :: "eth_env \<Rightarrow> nat \<Rightarrow> bool \<Rightarrow> (ethernet, unit) hal" where
  "nav_clocks E 0 tms = hret ()"
| "nav_clocks E (Suc n) tms = hseq (nav_clock E False tms) (nav_clocks E n tms)"

definition many_clocks :: "u16 \<Rightarrow> nat" where
  "many_clocks uiClocks = (if uiClocks > 255 then 65536 else unat uiClocks)"

definition eth_navigate :: "eth_env \<Rightarrow> eJtagState \<Rightarrow> u16 \<Rightarrow> (ethernet, bool) hal" where
  "eth_navigate E e uiClocks = (\<lambda>s. case getTmsPatternForState e (jtag_state s) of
       None \<Rightarrow> (Inr False, s)
     | Some ((pat, bits), e1) \<Rightarrow>
         hseq (hmodify (\<lambda>s. s\<lparr>jtag_state := e1\<rparr>))
        (hseq (\<lambda>s. hwhen (curr_tx s = 0) (hseq (put_header CMD_BULK 0 0) (hmodify (\<lambda>s. s\<lparr>curr_tx := 4, nibble_high := False\<rparr>))) s)
        (hseq (nav_bits E (unat bits) pat) (\<lambda>s.
           (case getTmsPatternForState e (jtag_state s) of
              None \<Rightarrow> (Inr True, s)
            | Some ((pat2, bits2), e2) \<Rightarrow> hseq (hmodify (\<lambda>s. s\<lparr>jtag_state := e2\<rparr>))
                (if uiClocks = 0 \<or> bits2 > 1 then hret True else hseq (nav_clocks E (many_clocks uiClocks) (pat2 AND 1 \<noteq> 0)) (hret True)) s)))) s)"

text \<open>Go on when a step has succeeded.\<close>

definition eth_then :: "(ethernet, bool) hal \<Rightarrow> (ethernet, bool) hal \<Rightarrow> (ethernet, bool) hal" where
  "eth_then m k = hbind m (\<lambda>ok. if ok then k else hret False)"

subsection \<open>Scans\<close>

definition eth_setState :: "eJtagState \<Rightarrow> (ethernet, unit) hal" where
  "eth_setState e = hmodify (\<lambda>s. s\<lparr>jtag_state := e\<rparr>)"

text \<open>The clock of a scan; \<open>tdo\<close> is 8 in the high phase when TDO is read.\<close>

definition scan_clock :: "bool \<Rightarrow> u8 \<Rightarrow> u8 \<Rightarrow> (ethernet, unit) hal" where
  "scan_clock tms tdi tdo = (\<lambda>s. let d = clock_bits tms tdi in
     if \<not> nibble_high s then put_next (d OR push_bit 4 (d OR tdo OR 4)) s
     else hseq (or_at (unat (curr_tx s)) (push_bit 4 d)) (put_next (d OR tdo OR 4)) s)"

fun ir_bits :: "eth_env \<Rightarrow> u8 list \<Rightarrow> nat \<Rightarrow> nat list \<Rightarrow> u8 \<Rightarrow> (ethernet, unit) hal" where
  "ir_bits E tdi n [] pat = hret ()"
| "ir_bits E tdi n (i # is) pat =
    (let pat1 = if i mod 8 = 0 then tdi ! (i div 8) else pat in
     hseq (flush_full E) (hseq (scan_clock (i = n - 1) (pat1 AND 1) 0) (ir_bits E tdi n is (drop_bit 1 pat1))))"

definition eth_shiftChainIR :: "eth_env \<Rightarrow> u8 list option \<Rightarrow> u32 \<Rightarrow> (ethernet, bool) hal" where
  "eth_shiftChainIR E tdi uiBitCount =
    (if uiBitCount \<noteq> 0 \<and> tdi = None then hret False
     else eth_then (eth_navigate E CAPTURE_IR 0)
      (if uiBitCount = 0 then eth_navigate E RUN_TEST_IDLE 0
       else eth_then (eth_navigate E SHIFT_IR 0)
         (hseq (ir_bits E (the tdi) (unat uiBitCount) [0..<unat uiBitCount] 0)
         (hseq (eth_setState EXIT1_IR) (eth_navigate E RUN_TEST_IDLE 0)))))"

definition readTDO :: "eth_env \<Rightarrow> u16 \<Rightarrow> bool \<Rightarrow> (ethernet, bool) hal" where
  "readTDO E uiBitsToRead bFinal = (if uiBitsToRead = 0 then hret True
     else hbind (eth_flushCable E) (\<lambda>ok.
       if \<not> ok then hseq (hmodify (\<lambda>s. s\<lparr>rx_data := False\<rparr>)) (hret False)
       else
         hseq (hwhen bFinal (hmodify (\<lambda>s. s\<lparr>rx_data := False\<rparr>)))
        (let bytes = uiBitsToRead div 8 + (if uiBitsToRead AND 7 \<noteq> 0 then 1 else 0);
           aligned = (if bytes AND 3 \<noteq> 0 then bytes + (4 - (bytes AND 3)) else bytes) in
         hbind (receiveData E (4 + aligned)) (\<lambda>r s.
           if r = 0 \<or> r \<noteq> 4 + aligned then (Inr False, s)
           else if (ucast (receive_buffer s ! 3) OR push_bit 8 (ucast (receive_buffer s ! 2)) :: u16) \<noteq> uiBitsToRead then (Inr False, s)
           else (Inr True, s\<lparr>tdo_out := tdo_out s @ take (unat bytes) (drop 4 (receive_buffer s))\<rparr>)))))"

text \<open>The result is the number of bits that still have to be read, or none when the scan fails.\<close>

fun dr_bits :: "eth_env \<Rightarrow> eScanMode \<Rightarrow> u8 list \<Rightarrow> nat \<Rightarrow> u16 \<Rightarrow> nat list \<Rightarrow> u8 \<Rightarrow> u16 \<Rightarrow> (ethernet, u16 option) hal" where
  "dr_bits E mode tdi n uiBufferDepth [] pat toRead = hret (Some toRead)"
| "dr_bits E mode tdi n uiBufferDepth (i # is) pat toRead = hbind (\<lambda>s.
     if curr_tx s = uiBufferDepth then
       (if rx_data s then hbind (readTDO E toRead False) (\<lambda>ok. hret (if ok then Some 0 else None)) s
        else hbind (eth_flushCable E) (\<lambda>ok. hret (if ok then Some toRead else None)) s)
     else (Inr (Some toRead), s)) (\<lambda>r. case r of None \<Rightarrow> hret None
     | Some toRead1 \<Rightarrow>
         let pat1 = if i mod 8 = 0 \<and> mode \<noteq> SCAN_MODE_READ then tdi ! (i div 8) else pat;
             bit_tdi = if mode \<noteq> SCAN_MODE_READ then pat1 AND 1 else 0;
             pat2 = if mode \<noteq> SCAN_MODE_READ then drop_bit 1 pat1 else pat1 in
         hseq (scan_clock (i = n - 1) bit_tdi (if mode \<noteq> SCAN_MODE_WRITE then 8 else 0))
           (dr_bits E mode tdi n uiBufferDepth is pat2 (toRead1 + 1)))"

definition eth_shiftChainDR :: "eth_env \<Rightarrow> u8 list option \<Rightarrow> bool \<Rightarrow> u32 \<Rightarrow> eScanMode \<Rightarrow> (ethernet, bool) hal" where
  "eth_shiftChainDR E tdi tdo uiBitCount mode =
    (if mode \<noteq> SCAN_MODE_WRITE \<and> \<not> tdo \<and> uiBitCount \<noteq> 0 then hret False
     else if mode \<noteq> SCAN_MODE_READ \<and> tdi = None \<and> uiBitCount \<noteq> 0 then hret False
     else eth_then (eth_navigate E CAPTURE_DR 0)
      (if uiBitCount = 0 then eth_navigate E RUN_TEST_IDLE 0
       else eth_then (eth_navigate E SHIFT_DR 0)
         (hbind (if mode \<noteq> SCAN_MODE_WRITE
             then hbind (eth_flushCable E) (\<lambda>ok s. if ok then (Inr (Some (ucast (buffer_depth s) - curr_tx s)), s\<lparr>tdo_out := [], rx_data := True\<rparr>) else (Inr None, s))
             else (\<lambda>s. (Inr (Some (ucast (buffer_depth s))), s\<lparr>rx_data := False\<rparr>)))
          (\<lambda>d. case d of None \<Rightarrow> hret False
           | Some uiBufferDepth \<Rightarrow>
             hbind (dr_bits E mode (case tdi of None \<Rightarrow> [] | Some b \<Rightarrow> b) (unat uiBitCount) uiBufferDepth [0..<unat uiBitCount] 0 0)
               (\<lambda>r. case r of None \<Rightarrow> hret False
                | Some toRead \<Rightarrow>
                    eth_then (\<lambda>s. if rx_data s then readTDO E toRead True s else (Inr True, s))
                      (hseq (eth_setState EXIT1_DR) (eth_navigate E RUN_TEST_IDLE 0)))))))"

subsection \<open>Pins and frequency\<close>

definition single :: "eth_env \<Rightarrow> u8 \<Rightarrow> u8 \<Rightarrow> (ethernet, bool) hal" where
  "single E b2 b3 = hseq (put_header CMD_SINGLE b2 b3) (eth_then (sendData E 4) (hbind (receiveData E 4) (\<lambda>r. hret (r = 4))))"

definition flush_pending :: "eth_env \<Rightarrow> (ethernet, unit) hal" where
  "flush_pending E = (\<lambda>s. hwhen (curr_tx s \<noteq> 0) (hvoid (eth_flushCable E)) s)"

definition eth_setPin :: "eth_env \<Rightarrow> eJtagPin \<Rightarrow> bool \<Rightarrow> (ethernet, bool) hal" where
  "eth_setPin E pin v = hseq (flush_pending E) (case pin of
     JTAG_PIN_TDI \<Rightarrow> single E 0 (push_bit 4 1 OR (if v then 1 else 0))
   | JTAG_PIN_TMS \<Rightarrow> single E 0 (push_bit 4 2 OR (if v then 2 else 0))
   | JTAG_PIN_TCK \<Rightarrow> single E 0 (push_bit 4 4 OR (if v then 4 else 0))
   | JTAG_PIN_TDO \<Rightarrow> hret False)"

text \<open>The test of the pin is one disjunction of inequalities too many: it holds for every pin.\<close>

definition eth_getPin :: "eth_env \<Rightarrow> eJtagPin \<Rightarrow> (ethernet, bool option) hal" where
  "eth_getPin E pin = hseq (flush_pending E)
     (if pin \<noteq> JTAG_PIN_TDI \<or> pin \<noteq> JTAG_PIN_TMS \<or> pin \<noteq> JTAG_PIN_TCK \<or> pin \<noteq> JTAG_PIN_TDO then hret None
      else hbind (single E 0 0) (\<lambda>ok s. (Inr (if ok then Some (bit (receive_buffer s ! 3)
        (case pin of JTAG_PIN_TDI \<Rightarrow> 0 | JTAG_PIN_TMS \<Rightarrow> 1 | JTAG_PIN_TCK \<Rightarrow> 2 | JTAG_PIN_TDO \<Rightarrow> 3)) else None), s)))"

fun eth_pulsePin :: "eth_env \<Rightarrow> eJtagPin \<Rightarrow> nat \<Rightarrow> (ethernet, bool) hal" where
  "eth_pulsePin E pin 0 = hret True"
| "eth_pulsePin E pin (Suc n) = eth_then (eth_setPin E pin True) (eth_then (eth_setPin E pin False) (eth_pulsePin E pin n))"

text \<open>The divider; the limited frequency \<open>uiFreq\<close> of the code is not used.\<close>

definition freq_divider :: "u32 \<Rightarrow> u32" where
  "freq_divider uiFrequency = (let inner = 2 * uiFrequency; ref = 125000; nom = ref - inner in if nom < ref then nom div inner else 0)"

definition eth_setJtagFrequency :: "eth_env \<Rightarrow> u32 \<Rightarrow> (ethernet, bool) hal" where
  "eth_setJtagFrequency E uiFrequency = hseq (flush_pending E) (single E (ucast (freq_divider uiFrequency)) 0x80)"

text \<open>A session over the host link. A socket of an earlier session is deleted, and asked first all the same.\<close>

definition createSession_stream :: "(ethernet, bool) hal" where
  "createSession_stream = hseq (hmodify (\<lambda>s. s\<lparr>link := (if link s \<in> {Socket, Dangling} then Dangling else Stream), eth_session := True\<rparr>)) (hret True)"

text \<open>The depth of the buffer from an answer of twelve bytes; the bytes are put together, and their order turned once more.\<close>

definition swap32 :: "u32 \<Rightarrow> u32" where
  "swap32 w = push_bit 24 w OR push_bit 8 (w AND 0xFF00) OR drop_bit 8 w AND 0xFF00 OR drop_bit 24 w"

definition answered_depth :: "u8 list \<Rightarrow> u32 option" where
  "answered_depth r = (let raw = ucast (r ! 11) OR push_bit 8 (ucast (r ! 10)) OR push_bit 16 (ucast (r ! 9)) OR push_bit 24 (ucast (r ! 8)) :: u32;
     d = swap32 raw; depth = (if d \<ge> 0x3FFFFFFF then 256 else push_bit 2 (d + 1)) in
     if depth > 1400 then Some 1400 else if depth < 16 then None else Some depth)"

definition eth_enumCables :: "eth_env \<Rightarrow> (ethernet, bool) hal" where
  "eth_enumCables E = (\<lambda>s. if \<not> eth_session s \<or> eth_open s then (Inr False, s)
     else hseq (put_at 0 0x1D) (hseq (put_at 1 0xC0) (hseq (put_at 2 0xDE) (hseq (put_at 3 0)
       (eth_then (sendData E 4) (hbind (receiveData E 12) (\<lambda>r s.
          if r \<noteq> 4 \<and> r \<noteq> 12 then (Inr False, s)
          else if take 4 (receive_buffer s) \<noteq> [0xC0, 0x07, 0xFA, 0xCE] then (Inr False, s)
          else if r \<le> 4 then (Inr True, s\<lparr>buffer_depth := 256\<rparr>)
          else (case answered_depth (receive_buffer s) of None \<Rightarrow> (Inr False, s\<lparr>buffer_depth := 256\<rparr>)
            | Some d \<Rightarrow> (Inr True, s\<lparr>buffer_depth := d\<rparr>)))))))) s)"

definition eth_openCable :: "eth_env \<Rightarrow> bool \<Rightarrow> u32 \<Rightarrow> (ethernet, bool) hal" where
  "eth_openCable E found uiFrequency = (if \<not> found then hret False
     else hseq (hvoid (eth_setJtagFrequency E uiFrequency))
       (hseq (hmodify (\<lambda>s. s\<lparr>eth_open := True, jtag_state := UNKNOWN_JTAG_STATE\<rparr>)) (hret True)))"

definition eth_closeCable :: "eth_env \<Rightarrow> (ethernet, bool) hal" where
  "eth_closeCable E = (\<lambda>s. hseq (hwhen (eth_open s) (hseq (hvoid (eth_flushCable E))
     (hmodify (\<lambda>s. s\<lparr>eth_open := False, jtag_state := UNKNOWN_JTAG_STATE\<rparr>)))) (hret True) s)"

subsection \<open>The clocks in the frames\<close>

text \<open>A byte with TCK low and then high is a clock with the bits of its high phase; a frame of the bulk command says how many of its
  half bytes count.\<close>

definition byte_pairs :: "u8 \<Rightarrow> (bool \<times> bool) list" where
  "byte_pairs b = (if \<not> bit b 2 \<and> bit b 6 then [(bit b 5, bit b 4)] else [])"

definition frame_clocks :: "u8 list \<Rightarrow> u8 list" where
  "frame_clocks f = (if f ! 1 = CMD_BULK then take ((256 * unat (f ! 2) + unat (f ! 3)) div 2) (drop 4 f) else [])"

definition clocks_pairs :: "u8 list \<Rightarrow> (bool \<times> bool) list" where
  "clocks_pairs bs = concat (map byte_pairs bs)"

definition pending :: "ethernet \<Rightarrow> u8 list" where
  "pending s = take (unat (curr_tx s) - 4) (drop 4 (send_buffer s))"

definition sent_pairs :: "u8 list list \<Rightarrow> (bool \<times> bool) list" where
  "sent_pairs fs = clocks_pairs (concat (map frame_clocks fs))"

definition eth_stream :: "ethernet \<Rightarrow> (bool \<times> bool) list" where
  "eth_stream s = sent_pairs (frames s) @ clocks_pairs (pending s)"

text \<open>
  What the other end answers: a header with the number of bits read and the bits, packed, filled up to whole words.
  \<open>tdo\<close> is the output of the chain after the clocks so far.
\<close>

fun tdo_bits :: "((bool \<times> bool) list \<Rightarrow> bool) \<Rightarrow> (bool \<times> bool) list \<Rightarrow> u8 list \<Rightarrow> bool list" where
  "tdo_bits tdo h [] = []"
| "tdo_bits tdo h (b # bs) = (if bit b 7 then [tdo h] else []) @ tdo_bits tdo (h @ byte_pairs b) bs"

definition bytes_of :: "bool list \<Rightarrow> u8 list" where
  "bytes_of bs = map (\<lambda>i. horner_sum of_bool 2 (take 8 (drop (8 * i) bs))) [0..<(length bs + 7) div 8]"

definition fill_word :: "u8 list \<Rightarrow> u8 list" where
  "fill_word bs = bs @ replicate ((4 - length bs mod 4) mod 4) 0"

definition answer_to :: "((bool \<times> bool) list \<Rightarrow> bool) \<Rightarrow> u8 list list \<Rightarrow> u8 list \<Rightarrow> u8 list" where
  "answer_to tdo fs f = (let bits = tdo_bits tdo (sent_pairs fs) (frame_clocks f) in
     [CMD_JTAG, f ! 1, of_nat (length bits div 256), of_nat (length bits mod 256)] @ fill_word (bytes_of bits))"

definition answers :: "eth_env \<Rightarrow> u8 list list \<Rightarrow> nat \<Rightarrow> u8 list \<Rightarrow> bool" where
  "answers E fs k bytes = ((\<forall>i. sock_avail E fs k i \<noteq> 0) \<and> sock_recv E fs k (length bytes) = (int (length bytes), bytes) \<and>
     strm_recv E fs k = Some (True, le_bytes32 (length bytes div 4) @ swap_words bytes))"

text \<open>A link that never fails, to a chain.\<close>

definition chain_link :: "((bool \<times> bool) list \<Rightarrow> bool) \<Rightarrow> eth_env \<Rightarrow> bool" where
  "chain_link tdo E = ((\<forall>fs data. sock_send E fs data = int (length data)) \<and> (\<forall>fs data. strm_send E fs data) \<and>
     (\<forall>fs f k. answers E (fs @ [f]) k (answer_to tdo fs f)))"

text \<open>A sound object: the buffer has a header when it is in use, and no clock in it asks for TDO.\<close>

definition eth_sound :: "ethernet \<Rightarrow> bool" where
  "eth_sound s = (eth_open s \<and> link s \<in> {Socket, Stream} \<and> length (send_buffer s) = 1400 \<and> length (receive_buffer s) = 1400 \<and>
     80 \<le> unat (buffer_depth s) \<and> unat (buffer_depth s) \<le> 1396 \<and> \<not> nibble_high s \<and>
     (curr_tx s = 0 \<or> 4 \<le> unat (curr_tx s) \<and> unat (curr_tx s) \<le> unat (buffer_depth s) \<and> send_buffer s ! 0 = CMD_JTAG \<and> send_buffer s ! 1 = CMD_BULK))"

definition no_tdo :: "ethernet \<Rightarrow> bool" where
  "no_tdo s = (\<forall>b\<in>set (pending s). \<not> bit b 7)"

lemma swap_words_swap: "swap_words (swap_words bs) = bs"
  by (induction bs rule: swap_words.induct) auto

lemma length_swap_words [simp]: "length (swap_words bs) = length bs"
  by (induction bs rule: swap_words.induct) auto

lemma length_fill_word: "length (fill_word bs) mod 4 = 0" "length bs \<le> length (fill_word bs)" "length (fill_word bs) \<le> length bs + 3"
proof -
  have *: "(n + (4 - n mod 4) mod 4) mod 4 = 0 \<and> (4 - n mod 4) mod 4 \<le> 3" for n :: nat
  proof -
    have "n mod 4 \<in> {0, 1, 2, 3}" by auto
    moreover have "(n + k) mod 4 = (n mod 4 + k) mod 4" for k by (simp add: mod_add_left_eq)
    ultimately show ?thesis by auto
  qed
  show "length (fill_word bs) mod 4 = 0" "length bs \<le> length (fill_word bs)" "length (fill_word bs) \<le> length bs + 3"
    using * [of "length bs"] by (auto simp: fill_word_def)
qed

lemma length_le_bytes32 [simp]: "length (le_bytes32 n) = 4"
  by (simp add: le_bytes32_def)

lemma le_bytes32_value:
  assumes "n < 65536"
  shows "(\<Sum>i<4. unat (le_bytes32 n ! i) * 256 ^ i) = n"
proof -
  have b: "unat (of_nat m :: u8) = m mod 256" for m by (simp add: unsigned_of_nat take_bit_eq_mod)
  have four: "{..<4::nat} = {0, 1, 2, 3}" by auto
  have hi: "n div 65536 = 0" "n div 16777216 = 0" "n div 256 mod 256 = n div 256" using assms by simp_all
  have at: "le_bytes32 n ! 0 = of_nat n" "le_bytes32 n ! 1 = of_nat (n div 256)" "le_bytes32 n ! 2 = of_nat (n div 65536)" "le_bytes32 n ! 3 = of_nat (n div 16777216)"
    by (simp_all add: le_bytes32_def)
  have "(\<Sum>i<4. unat (le_bytes32 n ! i) * 256 ^ i)
      = unat (le_bytes32 n ! 0) + unat (le_bytes32 n ! 1) * 256 + unat (le_bytes32 n ! 2) * 65536 + unat (le_bytes32 n ! 3) * 16777216"
    unfolding four by simp
  also have "\<dots> = n mod 256 + n div 256 * 256" unfolding at b hi by simp
  finally show ?thesis by simp
qed

lemma receive_answer:
  assumes "answers E (frames s) (received s) bytes" "link s \<in> {Socket, Stream}" "length bytes \<le> length (receive_buffer s)" "length bytes \<le> 1400"
    "length bytes mod 4 = 0" "bytes \<noteq> []" "bytes ! 0 = CMD_JTAG" "bytes ! 1 \<in> {CMD_BULK, CMD_SINGLE}"
  shows "receiveData E (of_nat (length bytes)) s = (Inr (of_nat (length bytes)), s\<lparr>received := received s + 1, receive_buffer := over bytes (receive_buffer s)\<rparr>)"
proof -
  let ?n = "length bytes"
  have u: "unat (of_nat ?n :: u16) = ?n" using assms(4) by (simp add: unsigned_of_nat take_bit_nat_eq_self)
  have a: "\<And>i. sock_avail E (frames s) (received s) i \<noteq> 0" "sock_recv E (frames s) (received s) ?n = (int ?n, bytes)"
    "strm_recv E (frames s) (received s) = Some (True, le_bytes32 (?n div 4) @ swap_words bytes)"
    using assms(1) by (auto simp: answers_def)
  consider "link s = Socket" | "link s = Stream" using assms(2) by auto
  then show ?thesis
  proof cases
    case 1
    then show ?thesis using a u by (simp add: receiveData_def)
  next
    case 2
    let ?pdu = "le_bytes32 (?n div 4) @ swap_words bytes"
    have "(\<Sum>i<4. unat (?pdu ! i) * 256 ^ i) = (\<Sum>i<4. unat (le_bytes32 (?n div 4) ! i) * 256 ^ i)"
      by (intro sum.cong) (auto simp: nth_append)
    also have "\<dots> = ?n div 4" by (rule le_bytes32_value) (use assms(4) in simp)
    finally have "4 * (\<Sum>i<4. unat (?pdu ! i) * 256 ^ i) = 4 * (?n div 4)" by simp
    also have "\<dots> = ?n" using assms(5) by presburger
    finally have len: "4 * (\<Sum>i<4. unat (?pdu ! i) * 256 ^ i) = ?n" .
    have d: "swap_words (drop 4 ?pdu) = bytes" by (simp add: swap_words_swap)
    let ?k = "32 + (unat CMD_JTAG + 256 * unat (bytes ! 1))"
    have big: "11200 \<le> ?k" using assms(8) by (auto simp: CMD_BULK_def CMD_SINGLE_def)
    have keep: "clear_from ?k bytes = bytes"
    proof (rule nth_equalityI)
      fix i assume "i < length (clear_from ?k bytes)"
      then have i: "i < ?n" by (simp add: clear_from_def)
      have "8 \<le> ?k - 8 * i" using i assms(4) big by linarith
      then have "bytes ! i AND mask (?k - 8 * i) = bytes ! i"
        by (intro bit_word_eqI) (auto simp: bit_simps dest: bit_imp_le_length)
      then show "clear_from ?k bytes ! i = bytes ! i" using i by (simp add: clear_from_def)
    qed (simp add: clear_from_def)
    have b0: "bytes ! 0 = CMD_JTAG" by (rule assms(7))
    show ?thesis using 2 assms(3) keep
      unfolding receiveData_def Let_def 2 eth_link.case a(3) option.case prod.case d len u b0 by simp
  qed
qed

subsection \<open>The buffer\<close>

lemma put_at_ok: "i < length (send_buffer s) \<Longrightarrow> put_at i b s = (Inr (), s\<lparr>send_buffer := (send_buffer s)[i := b]\<rparr>)"
  by (simp add: put_at_def)

definition clock_byte :: "bool \<Rightarrow> bool \<Rightarrow> bool \<Rightarrow> u8" where
  "clock_byte tms tdi tdo = (let d = clock_bits tms (of_bool tdi) in d OR push_bit 4 (d OR (if tdo then 8 else 0) OR 4))"

lemma clock_byte_pairs: "byte_pairs (clock_byte tms tdi tdo) = [(tms, tdi)]" "bit (clock_byte tms tdi tdo) 7 = tdo"
  by (cases tms; cases tdi; cases tdo; simp add: byte_pairs_def clock_byte_def clock_bits_def)+

lemma clock_is_put:
  assumes "\<not> nibble_high s"
  shows "scan_clock tms (of_bool tdi) (if tdo then 8 else 0) s = put_next (clock_byte tms tdi tdo) s"
    "nav_clock E True tms s = hseq (flush_full E) (put_next (clock_byte tms False False)) s"
  using assms by (simp_all add: scan_clock_def nav_clock_def clock_byte_def Let_def)

lemma pending_put:
  assumes "4 \<le> unat (curr_tx s)" "unat (curr_tx s) < length (send_buffer s)" "length (send_buffer s) = 1400"
  shows "pending (s\<lparr>send_buffer := (send_buffer s)[unat (curr_tx s) := b], curr_tx := curr_tx s + 1\<rparr>) = pending s @ [b]"
    "unat (curr_tx s + 1) = unat (curr_tx s) + 1"
proof -
  let ?n = "unat (curr_tx s)"
  show u: "unat (curr_tx s + 1) = ?n + 1" using assms by (subst unat_word_ariths(1)) simp
  have "drop 4 ((send_buffer s)[?n := b]) = (drop 4 (send_buffer s))[?n - 4 := b]" using assms by (simp add: drop_update_swap)
  moreover have "take (Suc (?n - 4)) ((drop 4 (send_buffer s))[?n - 4 := b]) = take (?n - 4) (drop 4 (send_buffer s)) @ [b]"
    using assms by (simp add: take_Suc_conv_app_nth)
  moreover have "Suc ?n - 4 = Suc (?n - 4)" using assms(1) by simp
  ultimately show "pending (s\<lparr>send_buffer := (send_buffer s)[?n := b], curr_tx := curr_tx s + 1\<rparr>) = pending s @ [b]"
    by (simp add: pending_def u)
qed

text \<open>A sound object whose buffer is in use.\<close>

definition eth_filled :: "ethernet \<Rightarrow> bool" where
  "eth_filled s = (eth_sound s \<and> curr_tx s \<noteq> 0)"

lemma clocks_pairs_simps [simp]: "clocks_pairs [] = []" "clocks_pairs (bs @ cs) = clocks_pairs bs @ clocks_pairs cs" "clocks_pairs [b] = byte_pairs b"
  by (simp_all add: clocks_pairs_def)

lemma put_next_ok:
  assumes "eth_filled s" "unat (curr_tx s) < unat (buffer_depth s)"
  obtains s' where "put_next b s = (Inr (), s')" "eth_filled s'" "pending s' = pending s @ [b]" "frames s' = frames s"
    "rx_data s' = rx_data s" "jtag_state s' = jtag_state s" "buffer_depth s' = buffer_depth s" "tdo_out s' = tdo_out s"
    "unat (curr_tx s') = unat (curr_tx s) + 1"
proof -
  have p: "length (send_buffer s) = 1400" "4 \<le> unat (curr_tx s)" "unat (curr_tx s) < length (send_buffer s)"
    using assms by (auto simp: eth_filled_def eth_sound_def)
  let ?s = "s\<lparr>send_buffer := (send_buffer s)[unat (curr_tx s) := b], curr_tx := curr_tx s + 1\<rparr>"
  note q = pending_put(1) [OF p(2,3,1), of b] pending_put(2) [OF p(2,3,1)]
  have "curr_tx s + 1 \<noteq> 0"
  proof
    assume "curr_tx s + 1 = 0"
    then show False using q(2) by simp
  qed
  moreover have "0 \<noteq> unat (curr_tx s)" "1 \<noteq> unat (curr_tx s)" using p(2) by simp_all
  ultimately have "eth_filled ?s" using assms p q(2) by (auto simp: eth_filled_def eth_sound_def)
  moreover have "put_next b s = (Inr (), ?s)" using p by (simp add: put_next_def put_at_ok hseq_def hbind_def)
  ultimately show ?thesis using q by (intro that [of ?s]) simp_all
qed

lemma align_nat:
  fixes n :: nat
  assumes "n mod 4 \<noteq> 0" "n \<le> 1396"
  shows "n + (4 - n mod 4) = 4 * (n div 4 + 1)" "n div 4 \<le> 348"
proof -
  define q r where "q = n div 4" "r = n mod 4"
  then have *: "n = 4 * q + r" "r < 4" "r \<noteq> 0" using assms(1) by simp_all
  show "n + (4 - n mod 4) = 4 * (n div 4 + 1)" "n div 4 \<le> 348" unfolding q_r_def [symmetric] using * assms(2) by arith+
qed

lemma align4:
  fixes c :: u16
  assumes "unat c \<le> 1396"
  shows "unat c \<le> unat (if c AND 3 \<noteq> 0 then c + (4 - (c AND 3)) else c)" "unat (if c AND 3 \<noteq> 0 then c + (4 - (c AND 3)) else c) \<le> 1396"
    "unat (if c AND 3 \<noteq> 0 then c + (4 - (c AND 3)) else c) mod 4 = 0"
proof -
  let ?n = "unat c"
  have "c AND 3 = take_bit 2 c" by (simp add: take_bit_eq_mask mask_numeral)
  then have "unat (c AND 3) = take_bit 2 ?n" by (simp only: unsigned_take_bit_eq)
  then have u: "unat (c AND 3) = ?n mod 4" by (simp add: take_bit_eq_mod)
  have z: "c AND 3 = 0 \<longleftrightarrow> ?n mod 4 = 0" by (simp add: u [symmetric] unat_eq_0)
  have m: "?n mod 4 < 4" by simp
  then have s: "unat (4 - (c AND 3)) = 4 - ?n mod 4" by (simp add: unat_sub_if' u)
  have a: "unat (c + (4 - (c AND 3))) = ?n + (4 - ?n mod 4)" using assms by (subst unat_word_ariths(1)) (simp add: s)
  have b: "?n mod 4 \<noteq> 0 \<Longrightarrow> ?n + (4 - ?n mod 4) = 4 * (?n div 4 + 1)" "?n mod 4 \<noteq> 0 \<Longrightarrow> ?n div 4 \<le> 348"
    using align_nat [of ?n] assms by simp_all
  show "?n \<le> unat (if c AND 3 \<noteq> 0 then c + (4 - (c AND 3)) else c)" by (cases "c AND 3 = 0") (simp_all only: if_False if_True simp_thms a le_add1 order_refl)
  show "unat (if c AND 3 \<noteq> 0 then c + (4 - (c AND 3)) else c) \<le> 1396" using a z b assms by (cases "?n mod 4 = 0") simp_all
  show "unat (if c AND 3 \<noteq> 0 then c + (4 - (c AND 3)) else c) mod 4 = 0" using a z b by (cases "?n mod 4 = 0") simp_all
qed

lemma two_bytes: "256 * unat (ucast (drop_bit 8 w) :: u8) + unat (ucast (w AND 0xFF) :: u8) = unat (w :: u16)"
proof -
  have "w AND 0xFF = take_bit 8 w" by (simp add: take_bit_eq_mask mask_numeral)
  then have "unat (w AND 0xFF) = take_bit 8 (unat w)" by (simp only: unsigned_take_bit_eq)
  then have l: "unat (ucast (w AND 0xFF) :: u8) = unat w mod 256" by (simp add: unsigned_ucast_eq take_bit_eq_mod)
  have "unat (drop_bit 8 w) = drop_bit 8 (take_bit 16 (unat w))" by (simp only: unsigned_drop_bit_eq len_num0 len_num1 len_bit0 mult_1_right) simp
  then have "unat (drop_bit 8 w) = unat w div 256" using unsigned_less [of w, where 'a = nat] by (simp add: drop_bit_eq_div take_bit_nat_eq_self)
  moreover have "unat w div 256 < 256" using unsigned_less [of w, where 'a = nat] by simp
  ultimately have "unat (ucast (drop_bit 8 w) :: u8) = unat w div 256" by (simp add: unsigned_ucast_eq take_bit_nat_eq_self)
  then show ?thesis using l by simp
qed

lemma padded_bounds:
  assumes "n mod 4 = 0" "n \<le> 1396"
  shows "n \<le> padded_length n" "padded_length n \<le> 1400"
proof -
  obtain k where "n = 4 * k" using assms(1) by auto
  then show "n \<le> padded_length n" "padded_length n \<le> 1400" using assms(2) unfolding padded_length_def by arith+
qed

text \<open>A frame that is sent has the clocks of the buffer.\<close>

lemma sendData_ok:
  assumes "chain_link tdo E" "link s \<in> {Socket, Stream}" "length (send_buffer s) = 1400" "unat c \<le> 1396" "unat c mod 4 = 0" "c \<noteq> 0"
  obtains buf where "sendData E c s = (Inr True, s\<lparr>frames := frames s @ [take (unat c) (send_buffer s)], send_buffer := buf\<rparr>)" "length buf = 1400"
    "take (unat c) buf = take (unat c) (send_buffer s)"
proof -
  note pb = padded_bounds [OF assms(5,4)]
  have e: "sock_send E fs d = int (length d)" "strm_send E fs d" for fs d using assms(1) by (auto simp: chain_link_def)
  have "length (take (unat c) (send_buffer s)) = unat c" using assms(3,4) by simp
  consider "link s = Socket" | "link s = Stream" using assms(2) by auto
  then show ?thesis
  proof cases
    case 1
    show ?thesis by (rule that [of "send_buffer s"]) (use 1 assms e in \<open>simp_all add: sendData_def Let_def\<close>)
  next
    case 2
    show ?thesis
      by (rule that [of "take (unat c) (send_buffer s) @ replicate (padded_length (unat c) - unat c) 0 @ drop (padded_length (unat c)) (send_buffer s)"])
        (use 2 assms e pb in \<open>simp_all add: sendData_def Let_def\<close>)
  qed
qed

lemma flush_sends:
  assumes "chain_link tdo E" "eth_sound s" "4 < unat (curr_tx s)"
  obtains f buf where "length buf = 1400" "frame_clocks f = pending s" "f ! 1 = CMD_BULK"
    "eth_flushCable E s = hbind (if rx_data s then hret 4 else receiveData E 4) (\<lambda>r. if r \<noteq> 4 then hret False
       else hseq (hmodify (\<lambda>s. s\<lparr>nibble_high := False\<rparr>)) (hseq (put_header CMD_BULK 0 0) (hseq (hmodify (\<lambda>s. s\<lparr>curr_tx := 4\<rparr>)) (hret True))))
       (s\<lparr>frames := frames s @ [f], send_buffer := buf\<rparr>)"
proof -
  let ?n = "unat (curr_tx s)"
  define nib where "nib = 2 * (curr_tx s - 4)"
  define c where "c = (if curr_tx s AND 3 \<noteq> 0 then curr_tx s + (4 - (curr_tx s AND 3)) else curr_tx s)"
  define hi lo :: u8 where "hi = ucast (drop_bit 8 nib)" and "lo = ucast (nib AND 0xFF)"
  let ?b = "(send_buffer s)[2 := hi, 3 := lo]" let ?s = "s\<lparr>send_buffer := ?b\<rparr>"
  have so: "length (send_buffer s) = 1400" "link s \<in> {Socket, Stream}" "\<not> nibble_high s" "?n \<le> 1396" "send_buffer s ! 1 = CMD_BULK"
    using assms(2,3) by (auto simp: eth_sound_def)
  note al = align4 [OF so(4), folded c_def]
  have c0: "c \<noteq> 0" using al(1) assms(3) by auto
  have "unat (curr_tx s - 4) = ?n - 4" using assms(3) by (simp add: unat_sub_if')
  then have nib: "unat nib = 2 * (?n - 4)" using so(4) unfolding nib_def by (subst unat_word_ariths(2)) simp
  have gt: "\<not> curr_tx s \<le> 4" using assms(3) by (simp add: word_le_nat_alt)
  obtain buf where b: "sendData E c ?s = (Inr True, ?s\<lparr>frames := frames s @ [take (unat c) ?b], send_buffer := buf\<rparr>)" "length buf = 1400"
    using sendData_ok [OF assms(1), of ?s c] so al(2,3) c0 by auto
  let ?f = "take (unat c) ?b"
  have cn: "4 < unat c" using al(1) assms(3) by simp
  have "?f ! 1 = CMD_BULK" "?f ! 2 = hi" "?f ! 3 = lo" using so cn by (simp_all add: nth_list_update)
  moreover have "(256 * unat hi + unat lo) div 2 = ?n - 4" unfolding hi_def lo_def two_bytes nib by simp
  moreover have "take (?n - 4) (drop 4 ?f) = pending s" using al(1) by (simp add: pending_def drop_take min_absorb1 diff_le_mono)
  ultimately have "frame_clocks ?f = pending s" "?f ! 1 = CMD_BULK" by (simp_all add: frame_clocks_def)
  moreover have "eth_flushCable E s = hbind (if rx_data s then hret 4 else receiveData E 4) (\<lambda>r. if r \<noteq> 4 then hret False
       else hseq (hmodify (\<lambda>s. s\<lparr>nibble_high := False\<rparr>)) (hseq (put_header CMD_BULK 0 0) (hseq (hmodify (\<lambda>s. s\<lparr>curr_tx := 4\<rparr>)) (hret True))))
       (s\<lparr>frames := frames s @ [?f], send_buffer := buf\<rparr>)"
  proof -
    have p: "put_at 2 hi s = (Inr (), s\<lparr>send_buffer := (send_buffer s)[2 := hi]\<rparr>)"
      "put_at 3 lo (s\<lparr>send_buffer := (send_buffer s)[2 := hi]\<rparr>) = (Inr (), ?s)" using so by (simp_all add: put_at_def)
    have h: "2 * (curr_tx s - 4) - (if nibble_high s then 1 else 0) = nib" using so by (simp add: nib_def)
    show ?thesis
      unfolding eth_flushCable_def Let_def h if_not_P [OF gt] hi_def [symmetric] lo_def [symmetric] c_def [symmetric] hseq_Inr [where m = "put_at 2 hi", OF p(1)] hseq_Inr [where m = "put_at 3 lo", OF p(2)] hbind_Inr [where m = "sendData E c", OF b(1)]
      by simp
  qed
  ultimately show ?thesis using b(2) by (intro that [of buf ?f])
qed

lemma header_ok:
  assumes "4 \<le> length (send_buffer s)"
  shows "put_header c b2 b3 s = (Inr (), s\<lparr>send_buffer := (send_buffer s)[0 := CMD_JTAG, 1 := c, 2 := b2, 3 := b3]\<rparr>)"
proof -
  have "send_buffer s \<noteq> []" "1 < length (send_buffer s)" "2 < length (send_buffer s)" "3 < length (send_buffer s)" using assms by auto
  then show ?thesis by (simp add: put_header_def put_at_def hseq_def hbind_def)
qed

lemma tdo_none: "\<forall>b\<in>set bs. \<not> bit b 7 \<Longrightarrow> tdo_bits tdo h bs = []"
  by (induction bs arbitrary: h) simp_all

text \<open>A link to a chain; a sound object over it that is not reading.\<close>

definition chain_at :: "eth_env \<Rightarrow> bool" where
  "chain_at E = (\<exists>tdo. chain_link tdo E)"

definition writing :: "ethernet \<Rightarrow> bool" where
  "writing s = (eth_sound s \<and> \<not> rx_data s \<and> no_tdo s)"

lemma flush_write:
  assumes "chain_at E" "writing s"
  obtains s' where "eth_flushCable E s = (Inr True, s')" "writing s'" "pending s' = []" "eth_stream s' = eth_stream s"
    "jtag_state s' = jtag_state s" "curr_tx s' = (if 4 < unat (curr_tx s) then 4 else curr_tx s)" "buffer_depth s' = buffer_depth s" "tdo_out s' = tdo_out s"
proof (cases "4 < unat (curr_tx s)")
  case False
  then have "curr_tx s \<le> 4" "pending s = []" by (simp_all add: word_le_nat_alt pending_def)
  then show ?thesis using assms False by (intro that [of s]) (simp_all add: eth_flushCable_def)
next
  case True
  have w: "eth_sound s" "\<not> rx_data s" "no_tdo s" using assms(2) by (auto simp: writing_def)
  obtain tdo where l: "chain_link tdo E" using assms(1) by (auto simp: chain_at_def)
  obtain f buf where f: "length buf = 1400" "frame_clocks f = pending s" "f ! 1 = CMD_BULK"
    "eth_flushCable E s = hbind (if rx_data s then hret 4 else receiveData E 4) (\<lambda>r. if r \<noteq> 4 then hret False
       else hseq (hmodify (\<lambda>s. s\<lparr>nibble_high := False\<rparr>)) (hseq (put_header CMD_BULK 0 0) (hseq (hmodify (\<lambda>s. s\<lparr>curr_tx := 4\<rparr>)) (hret True))))
       (s\<lparr>frames := frames s @ [f], send_buffer := buf\<rparr>)"
    by (rule flush_sends [OF l w(1) True])
  let ?s1 = "s\<lparr>frames := frames s @ [f], send_buffer := buf\<rparr>"
  have t: "tdo_bits tdo (sent_pairs (frames s)) (frame_clocks f) = []" using w(3) unfolding f(2) by (intro tdo_none) (simp add: no_tdo_def)
  have a: "answer_to tdo (frames s) f = [CMD_JTAG, CMD_BULK, 0, 0]"
    unfolding answer_to_def Let_def t f(3) by (simp add: bytes_of_def fill_word_def)
  have "answers E (frames ?s1) (received ?s1) (answer_to tdo (frames s) f)" using l by (simp add: chain_link_def)
  then have an: "answers E (frames ?s1) (received ?s1) [CMD_JTAG, CMD_BULK, 0, 0]" unfolding a .
  have rb: "length (receive_buffer s) = 1400" "link s \<in> {Socket, Stream}" using w(1) by (auto simp: eth_sound_def)
  let ?s2 = "?s1\<lparr>received := received ?s1 + 1, receive_buffer := over [CMD_JTAG, CMD_BULK, 0, 0] (receive_buffer ?s1)\<rparr>"
  have r: "receiveData E 4 ?s1 = (Inr 4, ?s2)"
    using receive_answer [OF an] rb by simp
  let ?s3 = "?s2\<lparr>nibble_high := False, send_buffer := buf[0 := CMD_JTAG, 1 := CMD_BULK, 2 := 0, 3 := 0], curr_tx := 4\<rparr>"
  have e: "eth_flushCable E s = (Inr True, ?s3)"
    unfolding f(4) if_not_P [OF w(2)] hbind_Inr [where m = "receiveData E 4", OF r]
    using f(1) by (simp add: hseq_def hbind_def header_ok)
  have p: "pending ?s3 = []" by (simp add: pending_def)
  have "eth_sound ?s3" using w(1) f(1) rb by (auto simp: eth_sound_def over_def)
  then have "writing ?s3" using w(2) p by (simp add: writing_def no_tdo_def)
  moreover have "eth_stream ?s3 = eth_stream s" using p f(2) by (simp add: eth_stream_def sent_pairs_def)
  ultimately show ?thesis using e p True by (intro that [of ?s3]) simp_all
qed

subsection \<open>Navigation and scans put their clocks behind the others\<close>

definition in_use :: "ethernet \<Rightarrow> bool" where
  "in_use s = (writing s \<and> curr_tx s \<noteq> 0)"

lemma state_free [simp]:
  "writing (s\<lparr>jtag_state := e\<rparr>) = writing s" "in_use (s\<lparr>jtag_state := e\<rparr>) = in_use s" "eth_stream (s\<lparr>jtag_state := e\<rparr>) = eth_stream s"
  by (simp_all add: writing_def in_use_def eth_sound_def no_tdo_def pending_def eth_stream_def)

lemma put_in_use:
  assumes "in_use s" "unat (curr_tx s) < unat (buffer_depth s)" "\<not> bit b 7"
  obtains s' where "put_next b s = (Inr (), s')" "in_use s'" "eth_stream s' = eth_stream s @ byte_pairs b" "jtag_state s' = jtag_state s"
    "buffer_depth s' = buffer_depth s" "tdo_out s' = tdo_out s"
proof -
  have f: "eth_filled s" using assms(1) by (simp add: in_use_def writing_def eth_filled_def)
  obtain s' where s': "put_next b s = (Inr (), s')" "eth_filled s'" "pending s' = pending s @ [b]" "frames s' = frames s"
    "rx_data s' = rx_data s" "jtag_state s' = jtag_state s" "buffer_depth s' = buffer_depth s" "tdo_out s' = tdo_out s"
    by (rule put_next_ok [OF f assms(2), of b])
  have "in_use s'" using assms(1,3) s' by (auto simp: in_use_def writing_def eth_filled_def no_tdo_def)
  moreover have "eth_stream s' = eth_stream s @ byte_pairs b" using s' by (simp add: eth_stream_def)
  ultimately show ?thesis using s' by (intro that)
qed

lemma depth_cases:
  assumes "in_use s"
  shows "ucast (curr_tx s) \<noteq> buffer_depth s \<Longrightarrow> unat (curr_tx s) < unat (buffer_depth s)" "ucast (buffer_depth s) = curr_tx s \<longleftrightarrow> ucast (curr_tx s) = buffer_depth s"
proof -
  have b: "unat (curr_tx s) \<le> unat (buffer_depth s)" "unat (buffer_depth s) \<le> 1396" using assms by (auto simp: in_use_def writing_def eth_sound_def)
  have u: "unat (ucast (curr_tx s) :: u32) = unat (curr_tx s)" using unsigned_less [of "curr_tx s", where 'a = nat] by (simp add: unsigned_ucast_eq take_bit_nat_eq_self)
  have d: "unat (ucast (buffer_depth s) :: u16) = unat (buffer_depth s)" using b(2) by (simp add: unsigned_ucast_eq take_bit_nat_eq_self)
  have e: "ucast (curr_tx s) = buffer_depth s \<longleftrightarrow> unat (curr_tx s) = unat (buffer_depth s)" by (simp add: word_unat_eq_iff u)
  show "ucast (curr_tx s) \<noteq> buffer_depth s \<Longrightarrow> unat (curr_tx s) < unat (buffer_depth s)" using b(1) e by linarith
  show "ucast (buffer_depth s) = curr_tx s \<longleftrightarrow> ucast (curr_tx s) = buffer_depth s" unfolding e by (simp add: word_unat_eq_iff [where 'a = 16] d) auto
qed

text \<open>The step of all loops: a flush when the buffer is full, and a byte.\<close>

lemma make_room:
  assumes "chain_at E" "in_use s"
  obtains s' where "flush_full E s = (Inr (), s')" "in_use s'" "eth_stream s' = eth_stream s" "jtag_state s' = jtag_state s"
    "unat (curr_tx s') < unat (buffer_depth s')" "buffer_depth s' = buffer_depth s" "tdo_out s' = tdo_out s"
    "ucast (curr_tx s) = buffer_depth s \<longrightarrow> eth_flushCable E s = (Inr True, s')" "ucast (curr_tx s) \<noteq> buffer_depth s \<longrightarrow> s' = s"
proof (cases "ucast (curr_tx s) = buffer_depth s")
  case False
  then show ?thesis using assms depth_cases(1) by (intro that [of s]) (simp_all add: flush_full_def)
next
  case True
  have w: "writing s" and d: "80 \<le> unat (buffer_depth s)" using assms(2) by (auto simp: in_use_def writing_def eth_sound_def)
  have "unat (ucast (curr_tx s) :: u32) = unat (curr_tx s)"
    using unsigned_less [of "curr_tx s", where 'a = nat] by (simp add: unsigned_ucast_eq take_bit_nat_eq_self)
  then have c: "4 < unat (curr_tx s)" using d by (simp add: True)
  obtain s' where s': "eth_flushCable E s = (Inr True, s')" "writing s'" "eth_stream s' = eth_stream s" "jtag_state s' = jtag_state s"
      "curr_tx s' = (if 4 < unat (curr_tx s) then 4 else curr_tx s)" "buffer_depth s' = buffer_depth s" "tdo_out s' = tdo_out s"
    by (rule flush_write [OF assms(1) w])
  show ?thesis by (rule that [of s']) (use True s' c d in \<open>simp_all add: flush_full_def hvoid_def hbind_def in_use_def\<close>)
qed

lemma clock_ok:
  assumes "chain_at E" "in_use s"
  obtains s' where "hseq (flush_full E) (put_next (clock_byte tms tdi False)) s = (Inr (), s')" "in_use s'"
    "eth_stream s' = eth_stream s @ [(tms, tdi)]" "jtag_state s' = jtag_state s" "buffer_depth s' = buffer_depth s" "tdo_out s' = tdo_out s"
proof -
  obtain s1 where s1: "flush_full E s = (Inr (), s1)" "in_use s1" "eth_stream s1 = eth_stream s" "jtag_state s1 = jtag_state s"
      "unat (curr_tx s1) < unat (buffer_depth s1)" "buffer_depth s1 = buffer_depth s" "tdo_out s1 = tdo_out s"
    by (rule make_room [OF assms])
  have n: "\<not> bit (clock_byte tms tdi False) 7" by (simp add: clock_byte_pairs)
  obtain s2 where s2: "put_next (clock_byte tms tdi False) s1 = (Inr (), s2)" "in_use s2"
      "eth_stream s2 = eth_stream s1 @ byte_pairs (clock_byte tms tdi False)" "jtag_state s2 = jtag_state s1" "buffer_depth s2 = buffer_depth s1" "tdo_out s2 = tdo_out s1"
    by (rule put_in_use [OF s1(2,5) n])
  show ?thesis
  proof (rule that [of s2])
    show "hseq (flush_full E) (put_next (clock_byte tms tdi False)) s = (Inr (), s2)"
      unfolding hseq_Inr [where m = "flush_full E", OF s1(1)] by (rule s2(1))
  qed (use s1 s2 in \<open>simp_all add: clock_byte_pairs\<close>)
qed

lemma no_nibble: "in_use s \<Longrightarrow> \<not> nibble_high s"
  by (simp add: in_use_def writing_def eth_sound_def)

lemma scan_step:
  assumes "chain_at E" "in_use s"
  obtains s' where "hseq (flush_full E) (scan_clock tms (of_bool tdi) 0) s = (Inr (), s')" "in_use s'"
    "eth_stream s' = eth_stream s @ [(tms, tdi)]" "jtag_state s' = jtag_state s"
proof -
  obtain s1 where s1: "flush_full E s = (Inr (), s1)" "in_use s1" by (rule make_room [OF assms])
  obtain s2 where s2: "hseq (flush_full E) (put_next (clock_byte tms tdi False)) s = (Inr (), s2)" "in_use s2"
    "eth_stream s2 = eth_stream s @ [(tms, tdi)]" "jtag_state s2 = jtag_state s"
    by (rule clock_ok [OF assms])
  have "scan_clock tms (of_bool tdi) 0 s1 = put_next (clock_byte tms tdi False) s1"
    using clock_is_put(1) [OF no_nibble [OF s1(2)], of tms tdi False] by simp
  then have "hseq (flush_full E) (scan_clock tms (of_bool tdi) 0) s = (Inr (), s2)"
    using s2(1) unfolding hseq_Inr [where m = "flush_full E", OF s1(1)] by simp
  then show ?thesis using s2 by (intro that)
qed

lemma nav_bits_ok:
  assumes "chain_at E" "in_use s"
  shows "\<exists>s'. nav_bits E n pat s = (Inr (), s') \<and> in_use s' \<and> eth_stream s' = eth_stream s @ tms_bits pat n \<and> jtag_state s' = jtag_state s \<and>
    buffer_depth s' = buffer_depth s \<and> tdo_out s' = tdo_out s"
  using assms(2)
proof (induction n arbitrary: s pat)
  case 0 then show ?case by (simp add: tms_bits_def)
next
  case (Suc n)
  obtain s1 where s1: "hseq (flush_full E) (put_next (clock_byte (bit pat 0) False False)) s = (Inr (), s1)" "in_use s1"
      "eth_stream s1 = eth_stream s @ [(bit pat 0, False)]" "jtag_state s1 = jtag_state s" "buffer_depth s1 = buffer_depth s" "tdo_out s1 = tdo_out s"
    by (rule clock_ok [OF assms(1) Suc.prems])
  have "(pat AND 1 \<noteq> 0) = bit pat 0" by (simp add: and_one_eq mod_2_eq_odd bit_0)
  then have n: "nav_clock E True (pat AND 1 \<noteq> 0) s = (Inr (), s1)" using s1(1) clock_is_put(2) [OF no_nibble [OF Suc.prems]] by simp
  from Suc.IH [OF s1(2)] show ?case
    unfolding nav_bits.simps hseq_Inr [where m = "nav_clock E True (pat AND 1 \<noteq> 0)", OF n] using s1 by (auto simp: tms_bits_Suc)
qed

lemma hseq_assoc: "hseq (hseq m n) k = hseq m (hseq n k)"
  by (simp add: hseq_def hbind_assoc)

lemma start_frame:
  assumes "writing s"
  obtains s' where "hwhen (curr_tx s = 0) (hseq (put_header CMD_BULK 0 0) (hmodify (\<lambda>s. s\<lparr>curr_tx := 4, nibble_high := False\<rparr>))) s = (Inr (), s')"
    "in_use s'" "eth_stream s' = eth_stream s" "jtag_state s' = jtag_state s" "buffer_depth s' = buffer_depth s" "tdo_out s' = tdo_out s"
proof (cases "curr_tx s = 0")
  case False
  then show ?thesis using assms by (intro that [of s]) (simp_all add: in_use_def)
next
  case True
  have so: "eth_sound s" "length (send_buffer s) = 1400" using assms by (auto simp: writing_def eth_sound_def)
  let ?s = "s\<lparr>send_buffer := (send_buffer s)[0 := CMD_JTAG, 1 := CMD_BULK, 2 := 0, 3 := 0], curr_tx := 4, nibble_high := False\<rparr>"
  have p: "pending s = []" "pending ?s = []" using True by (simp_all add: pending_def)
  have "eth_sound ?s" using so by (auto simp: eth_sound_def)
  then have "in_use ?s" using assms p by (simp add: in_use_def writing_def no_tdo_def)
  moreover have "hwhen (curr_tx s = 0) (hseq (put_header CMD_BULK 0 0) (hmodify (\<lambda>s. s\<lparr>curr_tx := 4, nibble_high := False\<rparr>))) s = (Inr (), ?s)"
    using True so(2) by (simp add: hseq_def hbind_def header_ok)
  ultimately show ?thesis using p by (intro that [of ?s]) (simp_all add: eth_stream_def)
qed

lemma eth_move:
  assumes "chain_at E" "writing s" "getTmsPatternForState e (jtag_state s) = Some ((pat, bits), e)"
  obtains s' where "eth_navigate E e 0 s = (Inr True, s')" "in_use s'" "jtag_state s' = e" "eth_stream s' = eth_stream s @ tms_bits pat (unat bits)" "buffer_depth s' = buffer_depth s"
    "tdo_out s' = tdo_out s"
proof -
  have "e \<noteq> UNKNOWN_JTAG_STATE" using assms(3) by (auto simp: getTmsPatternForState_def)
  from stay [OF this] obtain pat2 bits2 where st: "getTmsPatternForState e e = Some ((pat2, bits2), e)" by blast
  let ?s0 = "s\<lparr>jtag_state := e\<rparr>"
  have w: "writing ?s0" using assms(2) by simp
  obtain s1 where s1: "hwhen (curr_tx ?s0 = 0) (hseq (put_header CMD_BULK 0 0) (hmodify (\<lambda>s. s\<lparr>curr_tx := 4, nibble_high := False\<rparr>))) ?s0 = (Inr (), s1)"
      "in_use s1" "eth_stream s1 = eth_stream ?s0" "jtag_state s1 = jtag_state ?s0" "buffer_depth s1 = buffer_depth ?s0" "tdo_out s1 = tdo_out ?s0"
    by (rule start_frame [OF w])
  obtain s2 where s2: "nav_bits E (unat bits) pat s1 = (Inr (), s2)" "in_use s2" "eth_stream s2 = eth_stream s1 @ tms_bits pat (unat bits)"
      "jtag_state s2 = jtag_state s1" "buffer_depth s2 = buffer_depth s1" "tdo_out s2 = tdo_out s1"
    using nav_bits_ok [OF assms(1) s1(2)] by blast
  let ?s3 = "s2\<lparr>jtag_state := e\<rparr>"
  have "eth_navigate E e 0 s = (Inr True, ?s3)"
    unfolding eth_navigate_def assms(3) using s1 s2(1,4) st by (simp add: hseq_def hbind_def)
  then show ?thesis using s1 s2 by (intro that [of ?s3]) simp_all
qed

lemma ir_bits_ok:
  assumes "chain_at E" "in_use s" "i mod 8 \<noteq> 0 \<longrightarrow> pat = drop_bit (i mod 8) (tdi ! (i div 8))"
  shows "\<exists>s'. ir_bits E tdi n [i..<n] pat s = (Inr (), s') \<and> in_use s' \<and>
    eth_stream s' = eth_stream s @ scan_bits True tdi n [i..<n] \<and> jtag_state s' = jtag_state s"
  using assms(2,3)
proof (induction "n - i" arbitrary: i s pat)
  case 0 then show ?case by (simp add: scan_bits_def)
next
  case (Suc k)
  have l: "[i..<n] = i # [Suc i..<n]" using Suc.hyps(2) by (simp add: upt_conv_Cons)
  let ?p = "if i mod 8 = 0 then tdi ! (i div 8) else pat"
  have b: "?p AND 1 = of_bool (data_bit tdi i)" using next_byte(1) [OF Suc.prems(2)] by (simp add: low_bit(2))
  note q = next_byte(2) [OF Suc.prems(2)]
  obtain s1 where s1: "hseq (flush_full E) (scan_clock (i = n - 1) (of_bool (data_bit tdi i)) 0) s = (Inr (), s1)" "in_use s1"
      "eth_stream s1 = eth_stream s @ [(i = n - 1, data_bit tdi i)]" "jtag_state s1 = jtag_state s"
    by (rule scan_step [OF assms(1) Suc.prems(1)])
  have "k = n - Suc i" using Suc.hyps(2) by simp
  from Suc.hyps(1) [OF this s1(2) q] obtain s2 where s2: "ir_bits E tdi n [Suc i..<n] (drop_bit 1 ?p) s1 = (Inr (), s2)" "in_use s2"
      "eth_stream s2 = eth_stream s1 @ scan_bits True tdi n [Suc i..<n]" "jtag_state s2 = jtag_state s1" by blast
  have "ir_bits E tdi n [i..<n] pat s = (Inr (), s2)"
    unfolding l ir_bits.simps Let_def b hseq_assoc [symmetric] hseq_Inr [where m = "hseq (flush_full E) (scan_clock (i = n - 1) (of_bool (data_bit tdi i)) 0)", OF s1(1)]
    by (rule s2(1))
  then show ?case using s1 s2 unfolding l by (simp add: scan_bits_def)
qed

lemma dr_bits_ok:
  assumes "chain_at E" "in_use s" "i mod 8 \<noteq> 0 \<longrightarrow> pat = drop_bit (i mod 8) (tdi ! (i div 8))"
  shows "\<exists>r s'. dr_bits E SCAN_MODE_WRITE tdi n (ucast (buffer_depth s)) [i..<n] pat toRead s = (Inr (Some r), s') \<and> in_use s' \<and>
    eth_stream s' = eth_stream s @ scan_bits True tdi n [i..<n] \<and> jtag_state s' = jtag_state s"
  using assms(2,3)
proof (induction "n - i" arbitrary: i s pat toRead)
  case 0 then show ?case by (simp add: scan_bits_def)
next
  case (Suc k)
  have l: "[i..<n] = i # [Suc i..<n]" using Suc.hyps(2) by (simp add: upt_conv_Cons)
  let ?p = "if i mod 8 = 0 then tdi ! (i div 8) else pat"
  have b: "?p AND 1 = of_bool (data_bit tdi i)" using next_byte(1) [OF Suc.prems(2)] by (simp add: low_bit(2))
  note q = next_byte(2) [OF Suc.prems(2)]
  have rx: "\<not> rx_data s" using Suc.prems(1) by (simp add: in_use_def writing_def)
  obtain s1 where s1: "flush_full E s = (Inr (), s1)" "in_use s1" "eth_stream s1 = eth_stream s" "jtag_state s1 = jtag_state s"
      "unat (curr_tx s1) < unat (buffer_depth s1)" "buffer_depth s1 = buffer_depth s" "tdo_out s1 = tdo_out s"
      "ucast (curr_tx s) = buffer_depth s \<longrightarrow> eth_flushCable E s = (Inr True, s1)" "ucast (curr_tx s) \<noteq> buffer_depth s \<longrightarrow> s1 = s"
    by (rule make_room [OF assms(1) Suc.prems(1)])
  let ?flush = "\<lambda>s. if curr_tx s = ucast (buffer_depth s1) then
       (if rx_data s then hbind (readTDO E toRead False) (\<lambda>ok. hret (if ok then Some 0 else None)) s
        else hbind (eth_flushCable E) (\<lambda>ok. hret (if ok then Some toRead else None)) s)
     else (Inr (Some toRead), s)"
  have f: "?flush s = (Inr (Some toRead), s1)"
    using s1(6,8,9) depth_cases(2) [OF Suc.prems(1)] rx by (cases "ucast (curr_tx s) = buffer_depth s") (auto simp: hbind_def)
  have n: "\<not> bit (clock_byte (i = n - 1) (data_bit tdi i) False) 7" by (simp add: clock_byte_pairs)
  obtain s2 where s2: "put_next (clock_byte (i = n - 1) (data_bit tdi i) False) s1 = (Inr (), s2)" "in_use s2"
      "eth_stream s2 = eth_stream s1 @ byte_pairs (clock_byte (i = n - 1) (data_bit tdi i) False)" "jtag_state s2 = jtag_state s1" "buffer_depth s2 = buffer_depth s1"
    by (rule put_in_use [OF s1(2,5) n])
  have sc: "scan_clock (i = n - 1) (of_bool (data_bit tdi i)) 0 s1 = (Inr (), s2)"
    using clock_is_put(1) [OF no_nibble [OF s1(2)], of "i = n - 1" "data_bit tdi i" False] s2(1) by simp
  have "k = n - Suc i" using Suc.hyps(2) by simp
  from Suc.hyps(1) [OF this s2(2) q, of "toRead + 1"] obtain r s3 where s3:
      "dr_bits E SCAN_MODE_WRITE tdi n (ucast (buffer_depth s2)) [Suc i..<n] (drop_bit 1 ?p) (toRead + 1) s2 = (Inr (Some r), s3)" "in_use s3"
      "eth_stream s3 = eth_stream s2 @ scan_bits True tdi n [Suc i..<n]" "jtag_state s3 = jtag_state s2" by blast
  have "dr_bits E SCAN_MODE_WRITE tdi n (ucast (buffer_depth s)) [i..<n] pat toRead s = (Inr (Some r), s3)"
    unfolding l dr_bits.simps s1(6) [symmetric] hbind_Inr [where m = ?flush, OF f] Let_def
    by (simp only: option.case eScanMode.distinct simp_thms if_True if_False b hseq_Inr [where m = "scan_clock (i = n - 1) (of_bool (data_bit tdi i)) 0", OF sc]
      s3(1) [unfolded s2(5)])
  then show ?case using s1 s2 s3 unfolding l by (simp add: scan_bits_def clock_byte_pairs)
qed

lemma eth_then_Inr: "m s = (Inr True, s') \<Longrightarrow> eth_then m k s = k s'"
  by (simp add: eth_then_def hbind_def)

lemma eth_then_move: "eth_navigate E e c s = (Inr True, s') \<Longrightarrow> eth_then (eth_navigate E e c) k s = k s'"
  by (rule eth_then_Inr)

lemma hseq_state: "hseq (eth_setState e) k s = k (s\<lparr>jtag_state := e\<rparr>)"
  by (simp add: hseq_def hbind_def eth_setState_def)

lemma in_use_writing: "in_use s \<Longrightarrow> writing s"
  by (simp add: in_use_def)

text \<open>The pairs of a scan, and what they do to the controllers.\<close>

definition ir_pairs :: "u8 list \<Rightarrow> nat \<Rightarrow> (bool \<times> bool) list" where
  "ir_pairs b n = [(True, False), (True, False), (False, False), (False, False)] @ scan_bits True b n [0..<n] @ [(True, False), (False, False)]"

definition dr_pairs :: "bool \<Rightarrow> u8 list \<Rightarrow> nat \<Rightarrow> (bool \<times> bool) list" where
  "dr_pairs w b n = [(True, False), (False, False), (False, False)] @ scan_bits w b n [0..<n] @ [(True, False), (False, False)]"

lemma scan_pairs:
  assumes "0 < n"
  shows "tap_run RUN_TEST_IDLE (ir_pairs b n) = RUN_TEST_IDLE" "clocked_in SHIFT_IR RUN_TEST_IDLE (ir_pairs b n) = map (data_bit b) [0..<n]"
    "tap_run RUN_TEST_IDLE (dr_pairs w b n) = RUN_TEST_IDLE" "clocked_in SHIFT_DR RUN_TEST_IDLE (dr_pairs w b n) = map (\<lambda>i. w \<and> data_bit b i) [0..<n]"
  using tap_scan [OF assms, of SHIFT_IR True b] tap_scan [OF assms, of SHIFT_DR w b]
  by (simp_all add: ir_pairs_def dr_pairs_def clocked_in_append)

lemma eth_ir_scan:
  assumes "chain_at E" "writing s" "jtag_state s = RUN_TEST_IDLE" "cnt \<noteq> 0"
  shows "\<exists>s'. eth_shiftChainIR E (Some b) cnt s = (Inr True, s') \<and> writing s' \<and> jtag_state s' = RUN_TEST_IDLE \<and>
    eth_stream s' = eth_stream s @ ir_pairs b (unat cnt)"
proof -
  let ?n = "unat cnt"
  obtain s1 where s1: "eth_navigate E CAPTURE_IR 0 s = (Inr True, s1)" "in_use s1" "jtag_state s1 = CAPTURE_IR" "eth_stream s1 = eth_stream s @ tms_bits 3 (unat (3 :: u8))"
    by (rule eth_move [OF assms(1,2)]) (use assms(3) scan_patterns(5) in auto)
  obtain s2 where s2: "eth_navigate E SHIFT_IR 0 s1 = (Inr True, s2)" "in_use s2" "eth_stream s2 = eth_stream s1 @ tms_bits 0 (unat (1 :: u8))"
    by (rule eth_move [OF assms(1) in_use_writing [OF s1(2)]]) (use s1(3) scan_patterns(6) in auto)
  obtain s3 where s3: "ir_bits E b ?n [0..<?n] 0 s2 = (Inr (), s3)" "in_use s3" "eth_stream s3 = eth_stream s2 @ scan_bits True b ?n [0..<?n]"
    using ir_bits_ok [OF assms(1) s2(2), of 0 0 b ?n] by auto
  let ?s = "s3\<lparr>jtag_state := EXIT1_IR\<rparr>"
  have w: "writing ?s" using s3(2) by (simp add: in_use_writing)
  obtain s4 where s4: "eth_navigate E RUN_TEST_IDLE 0 ?s = (Inr True, s4)" "in_use s4" "jtag_state s4 = RUN_TEST_IDLE" "eth_stream s4 = eth_stream ?s @ tms_bits 1 (unat (2 :: u8))"
    by (rule eth_move [OF assms(1) w]) (use scan_patterns(7) in auto)
  have "eth_shiftChainIR E (Some b) cnt s = (Inr True, s4)"
    using assms(4) unfolding eth_shiftChainIR_def
    by (simp add: eth_then_move [OF s1(1)] eth_then_move [OF s2(1)] hseq_Inr [where m = "ir_bits E b ?n [0..<?n] 0", OF s3(1)] hseq_state s4(1))
  moreover have "eth_stream s4 = eth_stream s @ ir_pairs b ?n"
    using s1(4) s2(3) s3(3) s4(4) by (simp add: ir_pairs_def scan_tms scan_tms(2) [unfolded One_nat_def])
  ultimately show ?thesis using s4(2,3) by (intro exI [of _ s4]) (simp add: in_use_writing)
qed

lemma eth_dr_scan:
  assumes "chain_at E" "writing s" "jtag_state s = RUN_TEST_IDLE" "cnt \<noteq> 0"
  shows "\<exists>s'. eth_shiftChainDR E (Some b) False cnt SCAN_MODE_WRITE s = (Inr True, s') \<and> writing s' \<and> jtag_state s' = RUN_TEST_IDLE \<and>
    eth_stream s' = eth_stream s @ dr_pairs True b (unat cnt)"
proof -
  let ?n = "unat cnt"
  obtain s1 where s1: "eth_navigate E CAPTURE_DR 0 s = (Inr True, s1)" "in_use s1" "jtag_state s1 = CAPTURE_DR" "eth_stream s1 = eth_stream s @ tms_bits 1 (unat (2 :: u8))"
    by (rule eth_move [OF assms(1,2)]) (use assms(3) scan_patterns(1) in auto)
  obtain s2 where s2: "eth_navigate E SHIFT_DR 0 s1 = (Inr True, s2)" "in_use s2" "eth_stream s2 = eth_stream s1 @ tms_bits 0 (unat (1 :: u8))"
    by (rule eth_move [OF assms(1) in_use_writing [OF s1(2)]]) (use s1(3) scan_patterns(2) in auto)
  have same: "s2\<lparr>rx_data := False\<rparr> = s2" using s2(2) by (simp add: in_use_def writing_def)
  obtain r s3 where s3: "dr_bits E SCAN_MODE_WRITE b ?n (ucast (buffer_depth s2)) [0..<?n] 0 0 s2 = (Inr (Some r), s3)" "in_use s3"
      "eth_stream s3 = eth_stream s2 @ scan_bits True b ?n [0..<?n]"
    using dr_bits_ok [OF assms(1) s2(2), of 0 0 b ?n 0] by auto
  have rx: "\<not> rx_data s3" using s3(2) by (simp add: in_use_def writing_def)
  let ?s = "s3\<lparr>jtag_state := EXIT1_DR\<rparr>"
  have w: "writing ?s" using s3(2) by (simp add: in_use_writing)
  obtain s4 where s4: "eth_navigate E RUN_TEST_IDLE 0 ?s = (Inr True, s4)" "in_use s4" "jtag_state s4 = RUN_TEST_IDLE" "eth_stream s4 = eth_stream ?s @ tms_bits 1 (unat (2 :: u8))"
    by (rule eth_move [OF assms(1) w]) (use scan_patterns(3) in auto)
  have d: "hbind (\<lambda>s. (Inr (Some (ucast (buffer_depth s))), s\<lparr>rx_data := False\<rparr>)) k s2 = k (Some (ucast (buffer_depth s2))) s2" for k :: "u16 option \<Rightarrow> (ethernet, bool) hal"
    by (simp add: hbind_def same)
  have t: "eth_then (\<lambda>s. if rx_data s then readTDO E r True s else (Inr True, s)) k s3 = k s3" for k
    by (simp add: eth_then_def hbind_def rx)
  have "eth_shiftChainDR E (Some b) False cnt SCAN_MODE_WRITE s = (Inr True, s4)"
    using assms(4) unfolding eth_shiftChainDR_def
    by (simp add: eth_then_move [OF s1(1)] eth_then_move [OF s2(1)] d
        hbind_Inr [where m = "dr_bits E SCAN_MODE_WRITE b ?n (ucast (buffer_depth s2)) [0..<?n] 0 0", OF s3(1)] t hseq_state s4(1))
  moreover have "eth_stream s4 = eth_stream s @ dr_pairs True b ?n"
    using s1(4) s2(3) s3(3) s4(4) by (simp add: dr_pairs_def scan_tms scan_tms(2) [unfolded One_nat_def])
  ultimately show ?thesis using s4(2,3) by (intro exI [of _ s4]) (simp add: in_use_writing)
qed

subsection \<open>The cable of the interface\<close>

definition returns :: "(ethernet, 'a) hal \<Rightarrow> ethernet \<Rightarrow> ('a \<times> ethernet) option" where
  "returns m s = (case m s of (Inl e, s') \<Rightarrow> None | (Inr x, s') \<Rightarrow> Some (x, s'))"

definition eth_ops :: "eth_env \<Rightarrow> ethernet cable_ops" where
  "eth_ops E = \<lparr>op_open = eth_open,
     op_shiftIR = \<lambda>tdi n s. map_option (\<lambda>(ok, s'). (ok, (), s')) (returns (eth_shiftChainIR E tdi n) s),
     op_shiftDR = \<lambda>tdi tdo n mode s. map_option (\<lambda>(ok, s'). (ok, tdo_out s', s')) (returns (eth_shiftChainDR E tdi tdo n mode) (s\<lparr>tdo_out := []\<rparr>)),
     op_navigate = \<lambda>e n. returns (eth_navigate E e n), op_flush = returns (eth_flushCable E),
     op_deviceIR = \<lambda>_ _ _ s. Some (False, (), s), op_deviceDR = \<lambda>_ _ _ _ _ s. Some (False, [], s),
     op_count = \<lambda>s. (0, \<lambda>_. (False, s)), op_info = \<lambda>_ s. (None, \<lambda>_. (False, s))\<rparr>"

definition eth_ok :: "eth_env \<Rightarrow> ethernet \<Rightarrow> bool" where
  "eth_ok E s = (chain_at E \<and> writing s \<and> jtag_state s = RUN_TEST_IDLE)"

interpretation et: jtag_cable "eth_ops E" "eth_ok E" eth_stream for E
proof
  fix s :: ethernet and n :: u32 and b :: "u8 list"
  assume ok: "eth_ok E s"
  then have o: "chain_at E" "writing s" "jtag_state s = RUN_TEST_IDLE" by (auto simp: eth_ok_def)
  show "op_open (eth_ops E) s" using o(2) by (simp add: eth_ops_def writing_def eth_sound_def)
  show "\<exists>s'. op_flush (eth_ops E) s = Some (True, s') \<and> eth_ok E s' \<and> eth_stream s' = eth_stream s"
    by (rule flush_write [OF o(1,2)]) (use o in \<open>auto simp: eth_ops_def returns_def eth_ok_def\<close>)
  assume "n \<noteq> 0"
  then have n: "n \<noteq> 0" "0 < unat n" by (simp_all add: unat_gt_0)
  note sp = scan_pairs [OF n(2)]
  obtain s1 where s1: "eth_shiftChainIR E (Some b) n s = (Inr True, s1)" "writing s1" "jtag_state s1 = RUN_TEST_IDLE"
      "eth_stream s1 = eth_stream s @ ir_pairs b (unat n)" using eth_ir_scan [OF o n(1)] by blast
  show "\<exists>s' ps. op_shiftIR (eth_ops E) (Some b) n s = Some (True, (), s') \<and> eth_ok E s' \<and> eth_stream s' = eth_stream s @ ps \<and>
      tap_run RUN_TEST_IDLE ps = RUN_TEST_IDLE \<and> clocked_in SHIFT_IR RUN_TEST_IDLE ps = map (data_bit b) [0..<unat n]"
    using s1 o(1) sp(1,2) by (intro exI [of _ s1] exI [of _ "ir_pairs b (unat n)"]) (simp add: eth_ops_def returns_def eth_ok_def)
  let ?s = "s\<lparr>tdo_out := []\<rparr>"
  have o': "writing ?s" "jtag_state ?s = RUN_TEST_IDLE" "eth_stream ?s = eth_stream s"
    using o(2,3) by (simp_all add: writing_def eth_sound_def no_tdo_def pending_def eth_stream_def)
  obtain s2 where s2: "eth_shiftChainDR E (Some b) False n SCAN_MODE_WRITE ?s = (Inr True, s2)" "writing s2" "jtag_state s2 = RUN_TEST_IDLE"
      "eth_stream s2 = eth_stream s @ dr_pairs True b (unat n)" using eth_dr_scan [OF o(1) o'(1,2) n(1)] o'(3) by metis
  show "\<exists>out s' ps. op_shiftDR (eth_ops E) (Some b) False n SCAN_MODE_WRITE s = Some (True, out, s') \<and> eth_ok E s' \<and> eth_stream s' = eth_stream s @ ps \<and>
      tap_run RUN_TEST_IDLE ps = RUN_TEST_IDLE \<and> clocked_in SHIFT_DR RUN_TEST_IDLE ps = map (data_bit b) [0..<unat n]"
    using s2 o(1) sp(3,4) [of True] by (intro exI [of _ "tdo_out s2"] exI [of _ s2] exI [of _ "dr_pairs True b (unat n)"]) (simp add: eth_ops_def returns_def eth_ok_def)
qed

subsection \<open>Reading\<close>

lemma length_bytes_of [simp]: "length (bytes_of bs) = (length bs + 7) div 8"
  by (simp add: bytes_of_def)

lemma bytes_of_bits:
  assumes "i < 8 * length (bytes_of bs)"
  shows "data_bit (bytes_of bs) i = (i < length bs \<and> bs ! i)"
proof -
  have "i div 8 < length (bytes_of bs)" using assms by (simp del: length_bytes_of)
  then have "bytes_of bs ! (i div 8) = horner_sum of_bool 2 (take 8 (drop (8 * (i div 8)) bs))" by (simp add: bytes_of_def)
  then have "data_bit (bytes_of bs) i = (i mod 8 < length (take 8 (drop (8 * (i div 8)) bs)) \<and> take 8 (drop (8 * (i div 8)) bs) ! (i mod 8))"
    by (simp add: data_bit_def bit_horner_sum_bit_word_iff)
  moreover have "(i mod 8 < length (take 8 (drop (8 * (i div 8)) bs))) = (i < length bs)"
  proof -
    have "i mod 8 < 8" "8 * (i div 8) + i mod 8 = i" by simp_all
    then show ?thesis by (simp add: less_diff_conv)
  qed
  ultimately show ?thesis by auto
qed

text \<open>How many bytes are asked for.\<close>

lemma aligned_bytes:
  fixes n :: nat
  assumes "0 < n" "n \<le> 2048"
  defines "b \<equiv> (of_nat n :: u16) div 8 + (if of_nat n AND (7 :: u16) \<noteq> 0 then 1 else 0)"
  shows "unat b = (n + 7) div 8" "unat (if b AND 3 \<noteq> 0 then b + (4 - (b AND 3)) else b) = (n + 7) div 8 + (4 - (n + 7) div 8 mod 4) mod 4"
proof -
  have u: "unat (of_nat n :: u16) = n" using assms(2) by (simp add: unsigned_of_nat take_bit_nat_eq_self)
  have "of_nat n AND (7 :: u16) = take_bit 3 (of_nat n)" by (simp add: take_bit_eq_mask mask_numeral)
  then have "unat (of_nat n AND (7 :: u16)) = take_bit 3 (unat (of_nat n :: u16))" by (simp only: unsigned_take_bit_eq)
  then have m: "unat (of_nat n AND (7 :: u16)) = n mod 8" by (simp only: u take_bit_eq_mod) simp
  have z: "of_nat n AND (7 :: u16) = 0 \<longleftrightarrow> n mod 8 = 0" by (simp add: m [symmetric] unat_eq_0)
  have d: "unat ((of_nat n :: u16) div 8) = n div 8" by (simp add: unat_div u)
  show b: "unat b = (n + 7) div 8"
  proof (cases "n mod 8 = 0")
    case True
    then have "(n + 7) div 8 = n div 8" by presburger
    then show ?thesis using True z d by (simp add: b_def)
  next
    case False
    have "(n + 7) div 8 = n div 8 + 1" using False by presburger
    moreover have "unat ((of_nat n :: u16) div 8 + 1) = n div 8 + 1" using assms(2) by (subst unat_word_ariths(1)) (simp add: d)
    ultimately show ?thesis using False z by (simp add: b_def)
  qed
  have le: "unat b \<le> 1396" using assms(2) by (simp add: b)
  have "b AND 3 = take_bit 2 b" by (simp add: take_bit_eq_mask mask_numeral)
  then have "unat (b AND 3) = take_bit 2 (unat b)" by (simp only: unsigned_take_bit_eq)
  then have r: "unat (b AND 3) = unat b mod 4" by (simp add: take_bit_eq_mod)
  have z3: "b AND 3 = 0 \<longleftrightarrow> unat b mod 4 = 0" by (simp add: r [symmetric] unat_eq_0)
  have lt: "unat b mod 4 < 4" by simp
  then have "unat (4 - (b AND 3)) = 4 - unat b mod 4" by (simp add: unat_sub_if' r)
  then have s: "unat (b + (4 - (b AND 3))) = unat b + (4 - unat b mod 4)" using le by (subst unat_word_ariths(1)) simp
  have "unat (if b AND 3 \<noteq> 0 then b + (4 - (b AND 3)) else b) = unat b + (4 - unat b mod 4) mod 4"
    using s z3 lt by (cases "unat b mod 4 = 0") (simp_all add: mod_less)
  then show "unat (if b AND 3 \<noteq> 0 then b + (4 - (b AND 3)) else b) = (n + 7) div 8 + (4 - (n + 7) div 8 mod 4) mod 4"
    by (simp only: b)
qed

lemma two_byte_word:
  assumes "m < 65536"
  shows "(ucast (of_nat (m mod 256) :: u8) OR push_bit 8 (ucast (of_nat (m div 256) :: u8)) :: u16) = of_nat m"
proof (rule bit_word_eqI)
  fix k assume k: "k < LENGTH(16)"
  have e: "m mod 256 = take_bit 8 m" "m div 256 = drop_bit 8 m" by (simp_all add: take_bit_eq_mod drop_bit_eq_div)
  show "bit (ucast (of_nat (m mod 256) :: u8) OR push_bit 8 (ucast (of_nat (m div 256) :: u8)) :: u16) k = bit (of_nat m :: u16) k"
    using k unfolding e by (auto simp: bit_simps)
qed

lemma readTDO_ok:
  assumes "chain_link tdo E" "eth_sound s" "rx_data s" "4 < unat (curr_tx s)" "tdo_out s = []"
  defines "bits \<equiv> tdo_bits tdo (sent_pairs (frames s)) (pending s)"
  assumes "bits \<noteq> []" "length bits \<le> 2048"
  shows "\<exists>s'. readTDO E (of_nat (length bits)) True s = (Inr True, s') \<and> writing s' \<and> eth_stream s' = eth_stream s \<and>
    jtag_state s' = jtag_state s \<and> tdo_out s' = bytes_of bits"
proof -
  let ?n = "length bits" let ?c = "of_nat ?n :: u16"
  have n: "0 < ?n" using assms(7) by simp
  have u: "unat ?c = ?n" using assms(8) by (simp add: unsigned_of_nat take_bit_nat_eq_self)
  have c0: "?c \<noteq> 0" using n u by (metis less_irrefl unat_0)
  define b where "b = ?c div 8 + (if ?c AND 7 \<noteq> 0 then 1 else 0)"
  define al where "al = (if b AND 3 \<noteq> 0 then b + (4 - (b AND 3)) else b)"
  note ab = aligned_bytes [OF n assms(8), folded b_def al_def]
  obtain f buf where f: "length buf = 1400" "frame_clocks f = pending s" "f ! 1 = CMD_BULK"
    "eth_flushCable E s = hbind (if rx_data s then hret 4 else receiveData E 4) (\<lambda>r. if r \<noteq> 4 then hret False
       else hseq (hmodify (\<lambda>s. s\<lparr>nibble_high := False\<rparr>)) (hseq (put_header CMD_BULK 0 0) (hseq (hmodify (\<lambda>s. s\<lparr>curr_tx := 4\<rparr>)) (hret True))))
       (s\<lparr>frames := frames s @ [f], send_buffer := buf\<rparr>)"
    by (rule flush_sends [OF assms(1,2,4)])
  let ?s1 = "s\<lparr>frames := frames s @ [f], send_buffer := buf[0 := CMD_JTAG, 1 := CMD_BULK, 2 := 0, 3 := 0], nibble_high := False, curr_tx := 4\<rparr>"
  have fl: "eth_flushCable E s = (Inr True, ?s1)"
    using assms(3) f(1) unfolding f(4) by (simp add: hseq_def hbind_def header_ok)
  let ?s2 = "?s1\<lparr>rx_data := False\<rparr>"
  have so: "length (receive_buffer s) = 1400" "link s \<in> {Socket, Stream}" using assms(2) by (auto simp: eth_sound_def)
  define body where "body = fill_word (bytes_of bits)"
  define ans where "ans = [CMD_JTAG, CMD_BULK, of_nat (?n div 256), of_nat (?n mod 256)] @ body"
  have "answer_to tdo (frames s) f = ans" unfolding answer_to_def Let_def f(2,3) ans_def body_def bits_def ..
  then have an: "answers E (frames ?s2) (received ?s2) ans" using assms(1) by (auto simp: chain_link_def)
  have "length body = (?n + 7) div 8 + (4 - (?n + 7) div 8 mod 4) mod 4" by (simp add: body_def fill_word_def)
  then have lb: "length body = unat al" using ab(2) by simp
  have lm: "length body mod 4 = 0" "length body \<le> (?n + 7) div 8 + 3"
    using length_fill_word [of "bytes_of bits"] by (simp_all add: body_def)
  have la: "length ans = 4 + length body" "length ans \<le> 1400" "length ans mod 4 = 0" using lm assms(8) by (simp_all add: ans_def)
  have "4 + unat al < 65536" using la lb by simp
  then have cnt: "4 + al = of_nat (length ans)" by (simp add: word_unat_eq_iff unat_word_ariths(1) la(1) lb unsigned_of_nat)
  let ?s3 = "?s2\<lparr>received := received ?s2 + 1, receive_buffer := over ans (receive_buffer ?s2)\<rparr>"
  have r: "receiveData E (4 + al) ?s2 = (Inr (4 + al), ?s3)"
    unfolding cnt by (rule receive_answer [OF an]) (use so la in \<open>simp_all add: ans_def\<close>)
  have nz: "4 + al \<noteq> 0"
  proof
    assume "4 + al = 0"
    moreover have "unat (4 + al) = length ans" using la(2) unfolding cnt by (simp add: unsigned_of_nat take_bit_nat_eq_self)
    ultimately show False using la(1) by simp
  qed
  have rb: "receive_buffer ?s3 = ans @ drop (length ans) (receive_buffer s)" by (simp add: over_def)
  have h: "(ucast (receive_buffer ?s3 ! 3) OR push_bit 8 (ucast (receive_buffer ?s3 ! 2)) :: u16) = ?c"
  proof -
    have "receive_buffer ?s3 ! 3 = of_nat (?n mod 256)" "receive_buffer ?s3 ! 2 = of_nat (?n div 256)" unfolding rb by (simp_all add: ans_def)
    moreover have "(ucast (of_nat (m mod 256) :: u8) OR push_bit 8 (ucast (of_nat (m div 256) :: u8)) :: u16) = of_nat m" if "m < 65536" for m
      using that by (intro two_byte_word)
    ultimately show ?thesis using assms(8) by simp
  qed
  have t: "take (unat b) (drop 4 (receive_buffer ?s3)) = bytes_of bits"
    unfolding rb using ab(1) by (simp add: ans_def body_def fill_word_def)
  have "readTDO E ?c True s = (Inr True, ?s3\<lparr>tdo_out := tdo_out ?s3 @ bytes_of bits\<rparr>)"
    unfolding readTDO_def if_not_P [OF c0] hbind_Inr [where m = "eth_flushCable E", OF fl] Let_def b_def [symmetric] al_def [symmetric]
    using r nz h t by (simp add: hseq_def hbind_def)
  moreover let ?s4 = "?s3\<lparr>tdo_out := tdo_out ?s3 @ bytes_of bits\<rparr>"
  have p: "pending ?s4 = []" by (simp add: pending_def)
  have "eth_sound ?s4" using assms(2) f(1) so la by (auto simp: eth_sound_def over_def)
  then have "writing ?s4" using p by (simp add: writing_def no_tdo_def)
  moreover have "eth_stream ?s4 = eth_stream s" using p f(2) by (simp add: eth_stream_def sent_pairs_def)
  ultimately show ?thesis using assms(5) by (intro exI [of _ ?s4]) simp
qed

definition read_bytes_of :: "nat \<Rightarrow> nat list \<Rightarrow> u8 list" where
  "read_bytes_of n is = map (\<lambda>i. clock_byte (i = n - 1) False True) is"

lemma read_bits_ok:
  assumes "eth_filled s" "rx_data s" "unat (curr_tx s) + (n - i) \<le> unat D" "unat D < unat (buffer_depth s)"
  shows "\<exists>s'. dr_bits E SCAN_MODE_READ tdi n D [i..<n] pat toRead s = (Inr (Some (toRead + of_nat (n - i))), s') \<and> eth_filled s' \<and> rx_data s' \<and>
    pending s' = pending s @ read_bytes_of n [i..<n] \<and> frames s' = frames s \<and> jtag_state s' = jtag_state s \<and> tdo_out s' = tdo_out s \<and>
    unat (curr_tx s') = unat (curr_tx s) + (n - i)"
  using assms
proof (induction "n - i" arbitrary: i s pat toRead)
  case 0 then show ?case by (simp add: read_bytes_of_def)
next
  case (Suc k)
  have l: "[i..<n] = i # [Suc i..<n]" and ni: "n - i = Suc k" "n - Suc i = k" using Suc.hyps(2) by (simp_all add: upt_conv_Cons)
  have nD: "curr_tx s \<noteq> D" "unat (curr_tx s) < unat (buffer_depth s)" using Suc.prems(3,4) ni(1) by auto
  obtain s1 where s1: "put_next (clock_byte (i = n - 1) False True) s = (Inr (), s1)" "eth_filled s1" "pending s1 = pending s @ [clock_byte (i = n - 1) False True]"
      "frames s1 = frames s" "rx_data s1 = rx_data s" "jtag_state s1 = jtag_state s" "buffer_depth s1 = buffer_depth s" "tdo_out s1 = tdo_out s"
      "unat (curr_tx s1) = unat (curr_tx s) + 1"
    by (rule put_next_ok [OF Suc.prems(1) nD(2), of "clock_byte (i = n - 1) False True"])
  have nn: "\<not> nibble_high s" using Suc.prems(1) by (simp add: eth_filled_def eth_sound_def)
  have sc: "scan_clock (i = n - 1) 0 8 s = (Inr (), s1)" using clock_is_put(1) [OF nn, of "i = n - 1" False True] s1(1) by simp
  have "k = n - Suc i" "rx_data s1" "unat (curr_tx s1) + (n - Suc i) \<le> unat D" "unat D < unat (buffer_depth s1)" using Suc.prems ni s1 by simp_all
  from Suc.hyps(1) [OF this(1) s1(2) this(2-4), of pat "toRead + 1"] obtain s2 where s2:
      "dr_bits E SCAN_MODE_READ tdi n D [Suc i..<n] pat (toRead + 1) s1 = (Inr (Some (toRead + 1 + of_nat (n - Suc i))), s2)" "eth_filled s2" "rx_data s2"
      "pending s2 = pending s1 @ read_bytes_of n [Suc i..<n]" "frames s2 = frames s1" "jtag_state s2 = jtag_state s1" "tdo_out s2 = tdo_out s1"
      "unat (curr_tx s2) = unat (curr_tx s1) + (n - Suc i)" by blast
  have "dr_bits E SCAN_MODE_READ tdi n D [i..<n] pat toRead s = (Inr (Some (toRead + of_nat (n - i))), s2)"
    using sc s2(1) nD(1) unfolding l dr_bits.simps ni
    by (simp add: hbind_def hseq_def Let_def algebra_simps)
  then show ?case using s1 s2 ni unfolding l by (intro exI [of _ s2]) (simp add: read_bytes_of_def)
qed

lemma tdo_of_scan:
  assumes "0 < n"
  shows "tdo_bits tdo h (read_bytes_of n [0..<n]) = map (\<lambda>i. tdo (h @ take i (scan_bits False b n [0..<n]))) [0..<n]"
    "clocks_pairs (read_bytes_of n [0..<n]) = scan_bits False b n [0..<n]"
proof -
  have *: "tdo_bits tdo h (read_bytes_of n is) = map (\<lambda>j. tdo (h @ take j (scan_bits False b n is))) [0..<length is]" for h "is"
  proof (induction "is" arbitrary: h)
    case (Cons i "is")
    have "[0..<length (i # is)] = 0 # map Suc [0..<length is]" by (simp add: upt_conv_Cons map_Suc_upt del: upt_Suc)
    then show ?case using Cons.IH by (simp add: read_bytes_of_def scan_bits_def clock_byte_pairs comp_def del: upt_Suc)
  qed (simp add: read_bytes_of_def)
  show "tdo_bits tdo h (read_bytes_of n [0..<n]) = map (\<lambda>i. tdo (h @ take i (scan_bits False b n [0..<n]))) [0..<n]" by (simp add: *)
  show "clocks_pairs (read_bytes_of n [0..<n]) = scan_bits False b n [0..<n]"
    by (simp add: clocks_pairs_def read_bytes_of_def scan_bits_def clock_byte_pairs comp_def)
qed

text \<open>The bits the chain puts out while \<open>n\<close> bits are read after the pairs \<open>h\<close>.\<close>

definition chain_output :: "((bool \<times> bool) list \<Rightarrow> bool) \<Rightarrow> (bool \<times> bool) list \<Rightarrow> nat \<Rightarrow> bool list" where
  "chain_output tdo h n = map (\<lambda>i. tdo (h @ take (3 + i) (dr_pairs False [] n))) [0..<n]"

lemma eth_dr_read:
  assumes "chain_link tdo E" "writing s" "jtag_state s = RUN_TEST_IDLE" "cnt \<noteq> 0" "unat cnt + 8 \<le> unat (buffer_depth s)"
  shows "\<exists>s'. eth_shiftChainDR E None True cnt SCAN_MODE_READ s = (Inr True, s') \<and> writing s' \<and> jtag_state s' = RUN_TEST_IDLE \<and>
    eth_stream s' = eth_stream s @ dr_pairs False [] (unat cnt) \<and> tdo_out s' = bytes_of (chain_output tdo (eth_stream s) (unat cnt))"
proof -
  let ?n = "unat cnt"
  have n: "0 < ?n" using assms(4) by (simp add: unat_gt_0)
  have ch: "chain_at E" using assms(1) by (auto simp: chain_at_def)
  obtain s1 where s1: "eth_navigate E CAPTURE_DR 0 s = (Inr True, s1)" "in_use s1" "jtag_state s1 = CAPTURE_DR" "eth_stream s1 = eth_stream s @ tms_bits 1 (unat (2 :: u8))"
      "buffer_depth s1 = buffer_depth s"
    by (rule eth_move [OF ch assms(2)]) (use assms(3) scan_patterns(1) in auto)
  obtain s2 where s2: "eth_navigate E SHIFT_DR 0 s1 = (Inr True, s2)" "in_use s2" "eth_stream s2 = eth_stream s1 @ tms_bits 0 (unat (1 :: u8))"
      "buffer_depth s2 = buffer_depth s1"
    by (rule eth_move [OF ch in_use_writing [OF s1(2)]]) (use s1(3) scan_patterns(2) in auto)
  obtain s3 where s3: "eth_flushCable E s2 = (Inr True, s3)" "writing s3" "pending s3 = []" "eth_stream s3 = eth_stream s2"
      "curr_tx s3 = (if 4 < unat (curr_tx s2) then 4 else curr_tx s2)" "buffer_depth s3 = buffer_depth s2"
    by (rule flush_write [OF ch in_use_writing [OF s2(2)]])
  have c: "curr_tx s3 = 4"
    using s2(2) s3(5) by (auto simp: in_use_def writing_def eth_sound_def word_unat_eq_iff)
  let ?r = "s3\<lparr>tdo_out := [], rx_data := True\<rparr>" let ?D = "ucast (buffer_depth s3) - 4 :: u16"
  have dep: "80 \<le> unat (buffer_depth s3)" "unat (buffer_depth s3) \<le> 1396" using s3(2) by (auto simp: writing_def eth_sound_def)
  then have D: "unat ?D = unat (buffer_depth s3) - 4" by (simp add: unat_sub_if' unsigned_ucast_eq take_bit_nat_eq_self)
  have r: "eth_filled ?r" "rx_data ?r" "pending ?r = []" "frames ?r = frames s3"
    using s3(2,3) c by (auto simp: eth_filled_def writing_def eth_sound_def pending_def)
  have room: "unat (curr_tx ?r) + (?n - 0) \<le> unat ?D" "unat ?D < unat (buffer_depth ?r)" using assms(5) s1(5) s2(4) s3(6) c D dep by simp_all
  obtain s4 where s4: "dr_bits E SCAN_MODE_READ [] ?n ?D [0..<?n] 0 0 ?r = (Inr (Some (0 + of_nat (?n - 0))), s4)" "eth_filled s4" "rx_data s4"
      "pending s4 = pending ?r @ read_bytes_of ?n [0..<?n]" "frames s4 = frames ?r" "tdo_out s4 = tdo_out ?r" "unat (curr_tx s4) = unat (curr_tx ?r) + (?n - 0)"
    using read_bits_ok [OF r(1,2) room, of E "[]" 0 0] by blast
  have str: "sent_pairs (frames s3) = eth_stream s3" using s3(3) by (simp add: eth_stream_def)
  define bits where "bits = tdo_bits tdo (sent_pairs (frames s4)) (pending s4)"
  have bits: "bits = map (\<lambda>i. tdo (eth_stream s3 @ take i (scan_bits False [] ?n [0..<?n]))) [0..<?n]"
    unfolding bits_def s4(4,5) using str r(3,4) tdo_of_scan(1) [OF n] by simp
  have bl: "bits \<noteq> []" "length bits \<le> 2048" "length bits = ?n" "eth_sound s4" "4 < unat (curr_tx s4)" "tdo_out s4 = []"
    using n assms(5) s1(5) s2(4) s3(6) dep s4(2,6,7) c by (simp_all add: bits eth_filled_def)
  let ?first = "[(True, False), (False, False), (False, False)]"
  have h: "eth_stream s3 = eth_stream s @ ?first"
    using s1(4) s2(3) s3(4) by (simp add: scan_tms scan_tms(2) [unfolded One_nat_def])
  have out: "bits = chain_output tdo (eth_stream s) ?n"
    unfolding bits h chain_output_def dr_pairs_def by (intro map_cong refl) (simp add: scan_bits_def numeral_3_eq_3)
  have cnt: "0 + of_nat (?n - 0) = (of_nat (length bits) :: u16)" using bl(3) by simp
  obtain s5 where s5: "readTDO E (of_nat (length bits)) True s4 = (Inr True, s5)" "writing s5" "eth_stream s5 = eth_stream s4"
      "jtag_state s5 = jtag_state s4" "tdo_out s5 = bytes_of bits"
    using readTDO_ok [OF assms(1) bl(4) s4(3) bl(5,6), folded bits_def, OF bl(1,2)] by blast
  let ?s = "s5\<lparr>jtag_state := EXIT1_DR\<rparr>"
  have w: "writing ?s" using s5(2) by simp
  obtain s6 where s6: "eth_navigate E RUN_TEST_IDLE 0 ?s = (Inr True, s6)" "in_use s6" "jtag_state s6 = RUN_TEST_IDLE" "eth_stream s6 = eth_stream ?s @ tms_bits 1 (unat (2 :: u8))"
      "tdo_out s6 = tdo_out ?s"
    by (rule eth_move [OF ch w]) (use scan_patterns(3) in auto)
  have st4: "eth_stream s4 = eth_stream s3 @ scan_bits False [] ?n [0..<?n]"
    using str s4(4,5) r(3,4) tdo_of_scan(2) [OF n] by (simp add: eth_stream_def)
  have "eth_stream s6 = eth_stream s @ dr_pairs False [] ?n"
    using h st4 s5(3) s6(4) by (simp add: dr_pairs_def scan_tms)
  moreover have "tdo_out s6 = bytes_of (chain_output tdo (eth_stream s) ?n)" using s5(5) s6(5) out by simp
  moreover have "eth_shiftChainDR E None True cnt SCAN_MODE_READ s = (Inr True, s6)"
  proof -
    have f: "hbind (eth_flushCable E) (\<lambda>ok s. if ok then (Inr (Some (ucast (buffer_depth s) - curr_tx s)), s\<lparr>tdo_out := [], rx_data := True\<rparr>) else (Inr None, s)) s2
        = (Inr (Some ?D), ?r)" using s3(1) c by (simp add: hbind_def)
    have t: "eth_then (\<lambda>s. if rx_data s then readTDO E (of_nat (length bits)) True s else (Inr True, s)) k s4 = k s5" for k
      using s4(3) s5(1) by (simp add: eth_then_def hbind_def)
    show ?thesis using assms(4) unfolding eth_shiftChainDR_def
      by (simp add: eth_then_move [OF s1(1)] eth_then_move [OF s2(1)]
        hbind_Inr [where m = "hbind (eth_flushCable E) (\<lambda>ok s. if ok then (Inr (Some (ucast (buffer_depth s) - curr_tx s)), s\<lparr>tdo_out := [], rx_data := True\<rparr>) else (Inr None, s))", OF f]
        hbind_Inr [where m = "dr_bits E SCAN_MODE_READ [] ?n ?D [0..<?n] 0 0", OF s4(1) [unfolded cnt]] t hseq_state s6(1))
  qed
  ultimately show ?thesis using s6(2,3) by (intro exI [of _ s6]) (simp add: in_use_writing)
qed

lemma length_chain_output [simp]: "length (chain_output tdo h n) = n"
  by (simp add: chain_output_def)

lemma chain_output_nth: "i < n \<Longrightarrow> chain_output tdo h n ! i = tdo (h @ take (3 + i) (dr_pairs False [] n))"
  by (simp add: chain_output_def)

lemma eth_read_data:
  assumes "chain_link tdo E" "ready (eth_ok E) a d" "unat (device_count a) = Suc (unat dev + pre)" "device_count a < 32"
    "len \<noteq> 0" "unat len \<le> LENGTH('a::len)" "unat len \<le> 64" "unat len + pre \<le> 72"
  shows "\<exists>(w :: 'a word) d'. getJtagData (eth_ops E) stk dev len a = Some (Yes w, a\<lparr>jtag_obj := Some d'\<rparr>) \<and> eth_ok E d' \<and>
    eth_stream d' = eth_stream d @ dr_pairs False [] (unat len + pre) \<and>
    (\<forall>j<LENGTH('a). bit w j = (j < unat len \<and> chain_output tdo (eth_stream d) (unat len + pre) ! (pre + j)))"
proof -
  have o: "jtag_obj a = Some d" "eth_ok E d" "\<not> isXilinxJtag a" "isChainValid a" using assms(2) by (auto simp: ready_def)
  let ?n = "unat len + pre" let ?d = "d\<lparr>tdo_out := []\<rparr>"
  have n: "unat (of_nat ?n :: u32) = ?n" using assms(8) by (intro u32_of_nat) simp
  have "unat len \<noteq> 0" using assms(5) by (simp add: unat_eq_0)
  then have n0: "of_nat ?n \<noteq> (0 :: u32)" using n by (metis add_is_0 unat_0)
  have w: "writing ?d" "jtag_state ?d = RUN_TEST_IDLE" "eth_stream ?d = eth_stream d"
    using o(2) by (simp_all add: eth_ok_def writing_def eth_sound_def no_tdo_def pending_def eth_stream_def)
  have room: "unat (of_nat ?n :: u32) + 8 \<le> unat (buffer_depth ?d)"
    using w(1) assms(8) unfolding n by (simp add: writing_def eth_sound_def)
  obtain s where s: "eth_shiftChainDR E None True (of_nat ?n) SCAN_MODE_READ ?d = (Inr True, s)" "writing s" "jtag_state s = RUN_TEST_IDLE"
      "eth_stream s = eth_stream d @ dr_pairs False [] ?n" "tdo_out s = bytes_of (chain_output tdo (eth_stream d) ?n)"
    using eth_dr_read [OF assms(1) w(1,2) n0 room, unfolded n w(3)] by blast
  let ?out = "bytes_of (chain_output tdo (eth_stream d) ?n)"
  have sh: "op_shiftDR (eth_ops E) None True (of_nat ?n) SCAN_MODE_READ d = Some (True, ?out, s)"
    using s(1,5) by (simp add: eth_ops_def returns_def)
  have op: "op_open (eth_ops E) d" using o(2) by (simp add: eth_ops_def eth_ok_def writing_def eth_sound_def)
  have le: "?n \<le> 8 * length ?out" by simp
  have z: "\<forall>k. ?n \<le> k \<and> k < 8 * length ?out \<longrightarrow> \<not> data_bit ?out k" using bytes_of_bits [of _ "chain_output tdo (eth_stream d) ?n"] by simp
  have l60: "length ?out \<le> 60" using assms(8) by simp
  obtain w' :: "'a word" where w': "getJtagData (eth_ops E) stk dev len a = Some (Yes w', a\<lparr>jtag_obj := Some s\<rparr>)"
      "\<forall>j<LENGTH('a). bit w' j = (j < unat len \<and> data_bit ?out (pre + j))"
    using getJtagData_value [OF o(1) op o(3,4) assms(3,4,6,7) sh z l60 le] by blast
  have "data_bit ?out (pre + j) = chain_output tdo (eth_stream d) ?n ! (pre + j)" if "j < unat len" for j
  proof -
    have "pre + j < ?n" using that by simp
    then show ?thesis using bytes_of_bits [of "pre + j" "chain_output tdo (eth_stream d) ?n"] le by simp
  qed
  then show ?thesis using w' s o(2) by (intro exI [of _ w'] exI [of _ s]) (auto simp: eth_ok_def)
qed

text \<open>Claim C36: Over Ethernet, an instruction for one device of a chain and a read of its data: both succeed; the instruction
  is in this device and the bypass instruction in all others; and bit by bit the result is what the chain put out while it was
  shifted, behind the bits of the devices nearer to TDO. What was clocked before, in frames sent or still in the buffer, comes
  first and in order. It holds for every chain, over a socket or over the host link, for reads that fit a buffer of 80 bytes.\<close>

theorem ethernet_reads_device:
  assumes "chain_link tdo E" "ready (eth_ok E) a d" "unat (device_count a) = Suc (unat dev + pre)" "device_count a < 32"
    "irlens a ! unat dev \<noteq> 0" "len \<noteq> 0" "unat len \<le> LENGTH('a::len)" "unat len \<le> 64" "unat len + pre \<le> 72"
  shows "\<exists>(w :: 'a word) d' ps. abind (setJtagInstr (eth_ops E) dev instr) (\<lambda>_. getJtagData (eth_ops E) stk dev len) a =
      Some (Yes w, a\<lparr>jtag_obj := Some d'\<rparr>) \<and> eth_ok E d' \<and>
    eth_stream d' = eth_stream d @ ps @ dr_pairs False [] (unat len + pre) \<and>
    chain_load (irlens a) (clocked_in SHIFT_IR RUN_TEST_IDLE ps) = one_instr a (unat dev) instr \<and>
    (\<forall>j<LENGTH('a). bit w j = (j < unat len \<and> chain_output tdo (eth_stream d @ ps) (unat len + pre) ! (pre + j)))"
proof -
  have dv: "unat dev < unat (device_count a)" using assms(3) by simp
  obtain d1 ps where i: "setJtagInstr (eth_ops E) dev instr a = Some (Yes (), a\<lparr>jtag_obj := Some d1\<rparr>)" "eth_ok E d1" "eth_stream d1 = eth_stream d @ ps"
      "clocked_in SHIFT_IR RUN_TEST_IDLE ps = concat (rev (one_instr a (unat dev) instr))"
    using et.setJtagInstr_scan [OF assms(2) dv assms(5)] by blast
  have ir: "chain_load (irlens a) (clocked_in SHIFT_IR RUN_TEST_IDLE ps) = one_instr a (unat dev) instr"
    using et.instr_loaded i(4) by simp
  let ?a = "a\<lparr>jtag_obj := Some d1\<rparr>"
  have c: "unat (device_count ?a) = Suc (unat dev + pre)" "device_count ?a < 32" using assms(3,4) by simp_all
  obtain w :: "'a word" and d2 where g: "getJtagData (eth_ops E) stk dev len ?a = Some (Yes w, ?a\<lparr>jtag_obj := Some d2\<rparr>)" "eth_ok E d2"
      "eth_stream d2 = eth_stream d1 @ dr_pairs False [] (unat len + pre)"
      "\<forall>j<LENGTH('a). bit w j = (j < unat len \<and> chain_output tdo (eth_stream d1) (unat len + pre) ! (pre + j))"
    using eth_read_data [OF assms(1) et.ready_obj [OF assms(2) i(2)] c assms(6-9)] by blast
  show ?thesis using i ir g by (intro exI [of _ w] exI [of _ d2] exI [of _ ps]) (simp add: abind_def)
qed

subsection \<open>What spoils a frame\<close>

text \<open>Setting the frequency overwrites the header of a frame that was begun, and begins no new one: what is clocked next goes into
  a frame with the command for a single access.\<close>

lemma frequency_spoils_frame:
  assumes "chain_at E" "in_use s"
  shows "\<exists>s'. eth_setJtagFrequency E f s = (Inr True, s') \<and> curr_tx s' = 4 \<and> send_buffer s' ! 1 = CMD_SINGLE"
proof -
  obtain tdo where l: "chain_link tdo E" using assms(1) by (auto simp: chain_at_def)
  have w: "writing s" "curr_tx s \<noteq> 0" using assms(2) by (simp_all add: in_use_def)
  obtain s1 where s1: "eth_flushCable E s = (Inr True, s1)" "writing s1" "curr_tx s1 = (if 4 < unat (curr_tx s) then 4 else curr_tx s)"
    by (rule flush_write [OF assms(1) w(1)])
  have c: "curr_tx s1 = 4" using w s1(3) by (auto simp: writing_def eth_sound_def word_unat_eq_iff)
  let ?b = "ucast (freq_divider f) :: u8"
  let ?s2 = "s1\<lparr>send_buffer := (send_buffer s1)[0 := CMD_JTAG, 1 := CMD_SINGLE, 2 := ?b, 3 := 0x80]\<rparr>"
  have so: "length (send_buffer s1) = 1400" "length (receive_buffer s1) = 1400" "link s1 \<in> {Socket, Stream}"
    using s1(2) by (auto simp: writing_def eth_sound_def)
  have h: "put_header CMD_SINGLE ?b 0x80 s1 = (Inr (), ?s2)" using so by (simp add: header_ok)
  have so2: "link ?s2 \<in> {Socket, Stream}" "length (send_buffer ?s2) = 1400" using so by simp_all
  let ?f = "take (unat (4 :: u16)) (send_buffer ?s2)"
  obtain buf where sd: "sendData E 4 ?s2 = (Inr True, ?s2\<lparr>frames := frames ?s2 @ [?f], send_buffer := buf\<rparr>)" "length buf = 1400"
      "take (unat (4 :: u16)) buf = ?f"
    by (rule sendData_ok [OF l so2, of 4]) simp_all
  let ?s3 = "?s2\<lparr>frames := frames ?s2 @ [?f], send_buffer := buf\<rparr>"
  have f1: "?f ! 1 = CMD_SINGLE" using so by simp
  have b1: "buf ! 1 = CMD_SINGLE" using arg_cong [OF sd(3), of "\<lambda>xs. xs ! 1"] f1 by simp
  have "CMD_SINGLE \<noteq> CMD_BULK" by (simp add: CMD_SINGLE_def CMD_BULK_def)
  then have fc: "frame_clocks ?f = []" unfolding frame_clocks_def f1 by simp
  have a: "answer_to tdo (frames s1) ?f = [CMD_JTAG, CMD_SINGLE, 0, 0]"
    unfolding answer_to_def Let_def fc f1 by (simp add: bytes_of_def fill_word_def)
  have "answers E (frames ?s3) (received ?s3) (answer_to tdo (frames s1) ?f)" using l by (simp add: chain_link_def)
  then have an: "answers E (frames ?s3) (received ?s3) [CMD_JTAG, CMD_SINGLE, 0, 0]" unfolding a .
  let ?s4 = "?s3\<lparr>received := received ?s3 + 1, receive_buffer := over [CMD_JTAG, CMD_SINGLE, 0, 0] (receive_buffer ?s3)\<rparr>"
  have r: "receiveData E 4 ?s3 = (Inr 4, ?s4)" using receive_answer [OF an] so by simp
  have sg: "single E ?b 0x80 s1 = (Inr True, ?s4)"
    unfolding single_def hseq_Inr [where m = "put_header CMD_SINGLE ?b 0x80", OF h] eth_then_Inr [where m = "sendData E 4", OF sd(1)]
      hbind_Inr [where m = "receiveData E 4", OF r] by simp
  have fp: "flush_pending E s = (Inr (), s1)" using w(2) s1(1) by (simp add: flush_pending_def hvoid_def hbind_def)
  have "eth_setJtagFrequency E f s = (Inr True, ?s4)"
    unfolding eth_setJtagFrequency_def hseq_Inr [where m = "flush_pending E", OF fp] by (rule sg)
  then show ?thesis using c b1 by (intro exI [of _ ?s4]) simp
qed

text \<open>Additional clocks are put without a look at the depth: more than fit run out of the buffer.\<close>

lemma clocks_overrun:
  assumes "length (send_buffer s) = 1400" "\<not> nibble_high s" "1400 < unat (curr_tx s) + n" "unat (curr_tx s) \<le> 1400"
  shows "fst (nav_clocks E n tms s) = Inl Undefined_behaviour"
  using assms
proof (induction n arbitrary: s)
  case (Suc n)
  have c: "nav_clock E False tms s = put_next (clock_byte tms False False) s"
    using Suc.prems(2) by (simp add: nav_clock_def clock_byte_def Let_def)
  show ?case
  proof (cases "unat (curr_tx s) < 1400")
    case False
    then show ?thesis using Suc.prems(1) by (simp add: hseq_def hbind_def c put_next_def put_at_def)
  next
    case True
    let ?s = "s\<lparr>send_buffer := (send_buffer s)[unat (curr_tx s) := clock_byte tms False False], curr_tx := curr_tx s + 1\<rparr>"
    have p: "put_next (clock_byte tms False False) s = (Inr (), ?s)" using True Suc.prems(1) by (simp add: put_next_def put_at_ok hseq_def hbind_def)
    have u: "unat (curr_tx s + 1) = unat (curr_tx s) + 1" using True by (subst unat_word_ariths(1)) simp
    have "fst (nav_clocks E n tms ?s) = Inl Undefined_behaviour"
      by (rule Suc.IH) (use Suc.prems True u in simp_all)
    then show ?thesis by (simp add: hseq_def hbind_def c p)
  qed
qed simp

lemma getPin_fails:
  assumes "chain_at E" "writing s"
  shows "fst (eth_getPin E pin s) = Inr None"
proof -
  obtain s1 where s1: "eth_flushCable E s = (Inr True, s1)" by (rule flush_write [OF assms])
  have "\<exists>s2. flush_pending E s = (Inr (), s2)" using s1 by (cases "curr_tx s = 0") (simp_all add: flush_pending_def hvoid_def hbind_def)
  moreover have "pin \<noteq> JTAG_PIN_TDI \<or> pin \<noteq> JTAG_PIN_TMS \<or> pin \<noteq> JTAG_PIN_TCK \<or> pin \<noteq> JTAG_PIN_TDO" by (cases pin) simp_all
  ultimately show ?thesis unfolding eth_getPin_def by (auto simp: hseq_def hbind_def)
qed

subsection \<open>Witness\<close>

definition demo_env :: "((bool \<times> bool) list \<Rightarrow> bool) \<Rightarrow> eth_env" where
  "demo_env tdo = \<lparr>sock_send = \<lambda>_ d. int (length d), sock_avail = \<lambda>_ _ _. 1,
     sock_recv = \<lambda>fs _ n. (int n, answer_to tdo (butlast fs) (last fs)), strm_send = \<lambda>_ _. True,
     strm_recv = \<lambda>fs _. let a = answer_to tdo (butlast fs) (last fs) in Some (True, le_bytes32 (length a div 4) @ swap_words a)\<rparr>"

definition demo_eth :: ethernet where
  "demo_eth = \<lparr>eth_session = True, eth_open = True, link = Stream, send_buffer = replicate 1400 0, receive_buffer = replicate 1400 0,
     jtag_state = RUN_TEST_IDLE, curr_tx = 0, buffer_depth = 256, nibble_high = False, rx_data = False, tdo_out = [], frames = [], received = 0\<rparr>"

definition demo_eth_access :: "ethernet access" where
  "demo_eth_access = \<lparr>jtag_obj = Some demo_eth, interface = JTAG_ETHERNET, device_count = 3, jtag_devices = jtag_devices demo_access,
     jtag_table = demo_targets\<rparr>"

lemma demo_link: "chain_link tdo (demo_env tdo)"
  by (simp add: chain_link_def answers_def demo_env_def Let_def)

lemma demo_eth_ready: "ready (eth_ok (demo_env tdo)) demo_eth_access demo_eth" "irlens demo_eth_access = [4, 6, 6]"
proof -
  have same: "irlens demo_eth_access = irlens demo_access" "isChainValid demo_eth_access = isChainValid demo_access"
    using demo_ready(3) by (simp_all add: irlens_def isChainValid_def demo_eth_access_def)
  show i: "irlens demo_eth_access = [4, 6, 6]" using same(1) demo_ready(2) by simp
  have "writing demo_eth" by (simp add: writing_def eth_sound_def no_tdo_def pending_def demo_eth_def)
  then have "eth_ok (demo_env tdo) demo_eth" using demo_link by (auto simp: eth_ok_def chain_at_def demo_eth_def)
  then show "ready (eth_ok (demo_env tdo)) demo_eth_access demo_eth"
    using demo_ready(1) same i by (simp add: ready_def isXilinxJtag_def demo_eth_access_def)
qed

text \<open>From a chain that puts out ones a device gives a byte of ones.\<close>

theorem ethernet_reads_device_witness:
  "\<exists>d' ps. abind (setJtagInstr (eth_ops (demo_env (\<lambda>_. True))) 1 (0x17 :: u32)) (\<lambda>_. getJtagData (eth_ops (demo_env (\<lambda>_. True))) [] 1 8) demo_eth_access =
      Some (Yes (0xFF :: u8), demo_eth_access\<lparr>jtag_obj := Some d'\<rparr>) \<and>
    chain_load [4, 6, 6] (clocked_in SHIFT_IR RUN_TEST_IDLE ps) =
      [[True, True, True, True], [True, True, True, False, True, False], [True, True, True, True, True, True]]"
proof -
  have o: "one_instr demo_eth_access 1 (0x17 :: u32) = [[True, True, True, True], [True, True, True, False, True, False], [True, True, True, True, True, True]]"
    unfolding one_instr_def demo_eth_ready(2) low_bits_def by code_simp
  have c: "device_count demo_eth_access = 3" by (simp add: demo_eth_access_def)
  have v: "unat (device_count demo_eth_access) = Suc (unat (1 :: u8) + 1)" "device_count demo_eth_access < 32"
    "irlens demo_eth_access ! unat (1 :: u8) \<noteq> 0" "(8 :: u16) \<noteq> 0" "unat (8 :: u16) \<le> LENGTH(8)" "unat (8 :: u16) \<le> 64" "unat (8 :: u16) + 1 \<le> 72"
    using demo_eth_ready(2) by (simp_all add: c)
  from ethernet_reads_device [OF demo_link [of "\<lambda>_. True"] demo_eth_ready(1) v, of "0x17 :: u32" "[]"]
  obtain w :: u8 and d' ps where w: "abind (setJtagInstr (eth_ops (demo_env (\<lambda>_. True))) 1 (0x17 :: u32)) (\<lambda>_. getJtagData (eth_ops (demo_env (\<lambda>_. True))) [] 1 8) demo_eth_access =
      Some (Yes w, demo_eth_access\<lparr>jtag_obj := Some d'\<rparr>)"
    "chain_load (irlens demo_eth_access) (clocked_in SHIFT_IR RUN_TEST_IDLE ps) = one_instr demo_eth_access (unat (1 :: u8)) (0x17 :: u32)"
    "\<forall>j<LENGTH(8). bit w j = (j < unat (8 :: u16) \<and> chain_output (\<lambda>_. True) (eth_stream demo_eth @ ps) (unat (8 :: u16) + 1) ! (1 + j))" by blast
  have "w = 0xFF"
  proof (rule bit_word_eqI)
    fix j assume j: "j < LENGTH(8)"
    have "(0xFF :: u8) = - 1" by simp
    then have "bit (0xFF :: u8) j" using j by (simp only: bit_minus_1_iff possible_bit_def) simp
    moreover have "bit w j" using w(3) j by (simp add: chain_output_nth)
    ultimately show "bit w j = bit (0xFF :: u8) j" by simp
  qed
  then show ?thesis using w(1,2) o demo_eth_ready(2) by auto
qed

end
