(* ===== verification/Jtag_cmd.thy ===== *)
theory Jtag_cmd
  imports Jtag_ethernet
begin

text \<open>
  The commands for FPGA, DNC and HICANN over JTAG (\<open>jtag_cmdbase.h\<close>, \<open>jtag_cmdbase.cpp\<close>) on top of \<open>Jtag_access\<close>, as
  \<open>jtag_cmdbase_fpgadnchicann_full.h\<close> does it: a command selects a register of one chip of the chain by an instruction and shifts
  its data. The results: on a Kintex-7 board every register write reaches the chip its position stands for; the copy of
  the configuration of the interfaces is what they were last sent; all HICANNs are reached at once.
\<close>

subsection \<open>The object\<close>

text \<open>
  \<open>cb\<close> is the base class \<open>jtag_access\<close>. Positions count from the end of the chain: first the HICANNs, then the DNC, then the FPGA.
\<close>

record 'i cmdbase =
  cb :: "'i access"
  c_irwidth :: "nat list"
  c_chain_length :: u32
  c_pulsefifo :: u32
  c_tracefifo :: u32
  c_fifoloop :: u32
  c_filter_nrn0 :: u32
  c_pos_fpga :: u32
  c_pos_dnc :: u32
  c_pos_hicann :: u32
  c_conf :: "u32 list"
  c_nif :: u32
  c_hicann_num :: u32
  c_kintex :: bool

text \<open>The cable, and what is in the uninitialised buffer of a read that writes as well.\<close>

record 'i jobj =
  cable :: "'i cable_ops"
  stack :: "u8 list"

text \<open>\<open>None\<close>: an exception, a call that does not return, or undefined behaviour.\<close>

type_synonym ('i, 'a) jc = "'i cmdbase \<Rightarrow> ('a \<times> 'i cmdbase) option"

definition jret :: "'a \<Rightarrow> ('i, 'a) jc" where
  "jret x = (\<lambda>c. Some (x, c))"

definition jbind :: "('i, 'a) jc \<Rightarrow> ('a \<Rightarrow> ('i, 'b) jc) \<Rightarrow> ('i, 'b) jc" where
  "jbind m k = (\<lambda>c. case m c of None \<Rightarrow> None | Some (x, c') \<Rightarrow> k x c')"

definition jseq :: "('i, 'a) jc \<Rightarrow> ('i, 'b) jc \<Rightarrow> ('i, 'b) jc" where
  "jseq m n = jbind m (\<lambda>_. n)"

definition jmod :: "('i cmdbase \<Rightarrow> 'i cmdbase) \<Rightarrow> ('i, unit) jc" where
  "jmod f = (\<lambda>c. Some ((), f c))"

definition jget :: "('i cmdbase \<Rightarrow> 'a) \<Rightarrow> ('i, 'a) jc" where
  "jget f = (\<lambda>c. Some (f c, c))"

fun jtimes :: "nat \<Rightarrow> ('i, 'a) jc \<Rightarrow> ('i, 'a list) jc" where
  "jtimes 0 m = jret []"
| "jtimes (Suc n) m = jbind m (\<lambda>x. jbind (jtimes n m) (\<lambda>xs. jret (x # xs)))"

text \<open>A call of the base class; the value is \<open>None\<close> when it returns false.\<close>

definition on_base :: "('i, 'a) acc \<Rightarrow> ('i, 'a option) jc" where
  "on_base m = (\<lambda>c. case m (cb c) of None \<Rightarrow> None | Some (Undef, a) \<Rightarrow> None | Some (No, a) \<Rightarrow> Some (None, c\<lparr>cb := a\<rparr>)
     | Some (Yes x, a) \<Rightarrow> Some (Some x, c\<lparr>cb := a\<rparr>))"

subsection \<open>Making it\<close>

definition IRW_FPGA :: nat where "IRW_FPGA = 6"
definition IRW_K7FPGA :: nat where "IRW_K7FPGA = 4"
definition IRW_DNC :: nat where "IRW_DNC = 6"
definition IRW_HICANN :: nat where "IRW_HICANN = 6"

definition jtag_cmdbase_init :: "bool \<Rightarrow> bool \<Rightarrow> u32 \<Rightarrow> 'i cmdbase \<Rightarrow> 'i cmdbase" where
  "jtag_cmdbase_init fpga_avail dnc_avail hicann_addr c = (let n = c_hicann_num c; len = of_bool fpga_avail + of_bool dnc_avail + n in
     c\<lparr>c_irwidth := replicate (unat n) IRW_HICANN @ (if dnc_avail then [IRW_DNC] else []) @
         (if fpga_avail then [if c_kintex c then IRW_K7FPGA else IRW_FPGA] else []),
       c_chain_length := len, c_pos_fpga := (if fpga_avail then n + of_bool dnc_avail else len), c_pos_dnc := (if dnc_avail then n else len),
       c_pos_hicann := hicann_addr, c_pulsefifo := 0, c_nif := 0, c_conf := replicate 8 0x0004000c\<rparr>)"

text \<open>Both constructors; \<open>n\<close> is the number of HICANNs, at most eight: the second one throws for more. The members that no command
  reads are left out: \<open>irw_total\<close>, \<open>num_hicanns\<close> and the set of available HICANNs.\<close>

definition jtag_cmdbase :: "bool \<Rightarrow> bool \<Rightarrow> u32 \<Rightarrow> u32 \<Rightarrow> bool \<Rightarrow> 'i access \<Rightarrow> 'i cmdbase" where
  "jtag_cmdbase fpga_avail dnc_avail n hicann_addr k7fpga a = jtag_cmdbase_init fpga_avail dnc_avail hicann_addr
     \<lparr>cb = a, c_irwidth = [], c_chain_length = 0, c_pulsefifo = 0, c_tracefifo = 0, c_fifoloop = 0, c_filter_nrn0 = 0, c_pos_fpga = 0,
       c_pos_dnc = 0, c_pos_hicann = 0, c_conf = [], c_nif = 0, c_hicann_num = n, c_kintex = k7fpga\<rparr>"

subsection \<open>The chain\<close>

text \<open>The number the base class gives the chip at a position; a position is passed as a byte.\<close>

definition device_at :: "'i cmdbase \<Rightarrow> u32 \<Rightarrow> u8" where
  "device_at c pos = ucast (c_chain_length c - 1 - ucast (ucast pos :: u8))"

text \<open>The functions return nothing: what the base class says is dropped.\<close>

definition set_jtag_instr_chain :: "'i jobj \<Rightarrow> u32 \<Rightarrow> ('i cmdbase \<Rightarrow> u32) \<Rightarrow> ('i, unit) jc" where
  "set_jtag_instr_chain E command pos = (\<lambda>c. jseq (on_base (setJtagInstr (cable E) (device_at c (pos c)) command)) (jret ()) c)"

definition navigateState :: "'i cable_ops \<Rightarrow> eJtagState \<Rightarrow> u16 \<Rightarrow> ('i, unit) acc" where
  "navigateState ops e n = acheck (checkCable ops False) (on_cable (\<lambda>d. case op_navigate ops e n d of None \<Rightarrow> None | Some (r, d') \<Rightarrow> Some (r, (), d')))"

definition execute_instr :: "'i jobj \<Rightarrow> ('i, unit) jc" where
  "execute_instr E = jseq (on_base (navigateState (cable E) RUN_TEST_IDLE 1)) (jret ())"

definition set_jtag_data_chain :: "'i jobj \<Rightarrow> u64 \<Rightarrow> u8 \<Rightarrow> ('i cmdbase \<Rightarrow> u32) \<Rightarrow> ('i, unit) jc" where
  "set_jtag_data_chain E wdata width pos = (\<lambda>c. jseq (on_base (setJtagData (cable E) (device_at c (pos c)) wdata (ucast width) True)) (jret ()) c)"

definition set_jtag_data_chain_noexec :: "'i jobj \<Rightarrow> u64 \<Rightarrow> u8 \<Rightarrow> ('i cmdbase \<Rightarrow> u32) \<Rightarrow> ('i, unit) jc" where
  "set_jtag_data_chain_noexec E wdata width pos = (\<lambda>c. jseq (on_base (setJtagData (cable E) (device_at c (pos c)) wdata (ucast width) False)) (jret ()) c)"

text \<open>A variable that is read into: its old value, if it has one, stays when the read fails.\<close>

definition kept :: "'a option \<Rightarrow> 'a option \<Rightarrow> ('i, 'a) jc" where
  "kept old r = (\<lambda>c. case r of Some w \<Rightarrow> Some (w, c) | None \<Rightarrow> (case old of Some w \<Rightarrow> Some (w, c) | None \<Rightarrow> None))"

definition get_jtag_data_chain :: "'i jobj \<Rightarrow> u64 option \<Rightarrow> u8 \<Rightarrow> ('i cmdbase \<Rightarrow> u32) \<Rightarrow> ('i, u64) jc" where
  "get_jtag_data_chain E old width pos = (\<lambda>c. jbind (on_base (getJtagData (cable E) (stack E) (device_at c (pos c)) (ucast width))) (kept old) c)"

definition set_get_jtag_data_chain :: "'i jobj \<Rightarrow> u64 \<Rightarrow> u64 option \<Rightarrow> u32 \<Rightarrow> ('i cmdbase \<Rightarrow> u32) \<Rightarrow> ('i, u64) jc" where
  "set_get_jtag_data_chain E wdata old cnt pos =
     (\<lambda>c. jbind (on_base (setGetJtagData (cable E) (stack E) (device_at c (pos c)) wdata (ucast cnt))) (kept old) c)"

definition set_get_jtag_bools_chain :: "'i jobj \<Rightarrow> bool list \<Rightarrow> bool list \<Rightarrow> ('i cmdbase \<Rightarrow> u32) \<Rightarrow> ('i, bool list) jc" where
  "set_get_jtag_bools_chain E bs old pos =
     (\<lambda>c. jbind (on_base (setGetJtagBools (cable E) (device_at c (pos c)) bs (of_nat (length bs)))) (kept (Some old)) c)"

text \<open>All HICANNs at once; the other chips are bypassed.\<close>

definition other_chip :: "'i cmdbase \<Rightarrow> nat \<Rightarrow> bool" where
  "other_chip c j = (unat (c_pos_fpga c) = j \<or> unat (c_pos_dnc c) = j)"

definition positions :: "'i cmdbase \<Rightarrow> nat list" where
  "positions c = rev [0..<unat (c_chain_length c)]"

definition set_jtag_hicanns_data_chain :: "'i jobj \<Rightarrow> u64 \<Rightarrow> ('i, unit) jc" where
  "set_jtag_hicanns_data_chain E wdata = (\<lambda>c. jseq (on_base (setJtagDataAll (cable E)
     (map (\<lambda>j. if other_chip c j then 1 else wdata) (positions c)) (map (\<lambda>j. if other_chip c j then 1 else 64) (positions c)) True)) (jret ()) c)"

definition set_hicanns_ir_chain :: "'i jobj \<Rightarrow> u8 \<Rightarrow> ('i, unit) jc" where
  "set_hicanns_ir_chain E cmd = (\<lambda>c. jseq (on_base (setJtagInstrAll (cable E)
     (map (\<lambda>j. if other_chip c j then mask (c_irwidth c ! j) else ucast cmd :: u32) (positions c)))) (jret ()) c)"

definition set_hicann_pos :: "u32 \<Rightarrow> ('i, unit) jc" where
  "set_hicann_pos addr = jmod (\<lambda>c. c\<lparr>c_pos_hicann := addr\<rparr>)"

text \<open>What the commands have in common.\<close>

definition only_instr :: "'i jobj \<Rightarrow> u32 \<Rightarrow> ('i cmdbase \<Rightarrow> u32) \<Rightarrow> ('i, unit) jc" where
  "only_instr E cmd pos = set_jtag_instr_chain E cmd pos"

definition do_instr :: "'i jobj \<Rightarrow> u32 \<Rightarrow> ('i cmdbase \<Rightarrow> u32) \<Rightarrow> ('i, unit) jc" where
  "do_instr E cmd pos = jseq (set_jtag_instr_chain E cmd pos) (execute_instr E)"

definition write_reg :: "'i jobj \<Rightarrow> u32 \<Rightarrow> u8 \<Rightarrow> ('i cmdbase \<Rightarrow> u32) \<Rightarrow> u64 \<Rightarrow> ('i, unit) jc" where
  "write_reg E cmd width pos w = jseq (set_jtag_instr_chain E cmd pos) (set_jtag_data_chain E w width pos)"

definition read_reg :: "'i jobj \<Rightarrow> u32 \<Rightarrow> u8 \<Rightarrow> ('i cmdbase \<Rightarrow> u32) \<Rightarrow> u64 option \<Rightarrow> ('i, u64) jc" where
  "read_reg E cmd width pos old = jseq (set_jtag_instr_chain E cmd pos) (get_jtag_data_chain E old width pos)"

subsection \<open>The instructions\<close>

definition CMD_READID :: u32 where "CMD_READID = 0x00"
definition CMD_CHANNEL_SELECT :: u32 where "CMD_CHANNEL_SELECT = 0x01"
definition CMD_LVDS_PADS_EN :: u32 where "CMD_LVDS_PADS_EN = 0x02"
definition CMD_INIT_CTRL :: u32 where "CMD_INIT_CTRL = 0x03"
definition CMD_CFG_PROTOCOL :: u32 where "CMD_CFG_PROTOCOL = 0x04"
definition CMD_TIMESTAMP_CTRL :: u32 where "CMD_TIMESTAMP_CTRL = 0x05"
definition CMD_LOOPBACK_CTRL :: u32 where "CMD_LOOPBACK_CTRL = 0x06"
definition CMD_BIAS_BYPASS :: u32 where "CMD_BIAS_BYPASS = 0x07"
definition CMD_START_LINK :: u32 where "CMD_START_LINK = 0x08"
definition CMD_STOP_LINK :: u32 where "CMD_STOP_LINK = 0x09"
definition CMD_TEST_MODE_EN :: u32 where "CMD_TEST_MODE_EN = 0x0a"
definition CMD_MEMORY_TEST_MODE :: u32 where "CMD_MEMORY_TEST_MODE = 0x0b"
definition CMD_TEST_MODE_DIS :: u32 where "CMD_TEST_MODE_DIS = 0x0c"
definition CMD_START_ROUTE_DAT :: u32 where "CMD_START_ROUTE_DAT = 0x0d"
definition CMD_LVDS_TEST_CTRL :: u32 where "CMD_LVDS_TEST_CTRL = 0x0e"
definition CMD_PLL2G_CTRL :: u32 where "CMD_PLL2G_CTRL = 0x10"
definition CMD_SET_TX_DATA :: u32 where "CMD_SET_TX_DATA = 0x11"
definition CMD_GET_RX_DATA :: u32 where "CMD_GET_RX_DATA = 0x12"
definition CMD_SET_HEAP_MODE :: u32 where "CMD_SET_HEAP_MODE = 0x13"
definition CMD_SET_TIME_LIMIT :: u32 where "CMD_SET_TIME_LIMIT = 0x15"
definition CMD_SPEED_DETECT_CTRL :: u32 where "CMD_SPEED_DETECT_CTRL = 0x16"
definition CMD_START_CFG_PKG :: u32 where "CMD_START_CFG_PKG = 0x18"
definition CMD_START_PULSE_PKG :: u32 where "CMD_START_PULSE_PKG = 0x19"
definition CMD_READ_STATUS :: u32 where "CMD_READ_STATUS = 0x1a"
definition CMD_RESET_CHANNEL :: u32 where "CMD_RESET_CHANNEL = 0x1b"
definition CMD_SET_DELAY_RX_DATA :: u32 where "CMD_SET_DELAY_RX_DATA = 0x21"
definition CMD_PULSE_PROTOCOL :: u32 where "CMD_PULSE_PROTOCOL = 0x24"
definition CMD_READ_CRC_COUNT :: u32 where "CMD_READ_CRC_COUNT = 0x27"
definition CMD_RESET_CRC_COUNT :: u32 where "CMD_RESET_CRC_COUNT = 0x28"
definition CMD_READ_HEAP_COUNT :: u32 where "CMD_READ_HEAP_COUNT = 0x2a"
definition CMD_RESET_HEAP_COUNT :: u32 where "CMD_RESET_HEAP_COUNT = 0x2b"
definition CMD_SET_LOW_SPEED :: u32 where "CMD_SET_LOW_SPEED = 0x2c"
definition CMD_DC_CODING :: u32 where "CMD_DC_CODING = 0x2e"
definition CMD_BYPASS :: u32 where "CMD_BYPASS = 0x3f"
definition CMD2_SET_TX_DATA :: u32 where "CMD2_SET_TX_DATA = 0x02"
definition CMD2_SET_TX_CHANNEL :: u32 where "CMD2_SET_TX_CHANNEL = 0x03"
definition CMD2_SET_TX_CTRL :: u32 where "CMD2_SET_TX_CTRL = 0x04"
definition CMD2_GET_RX_DATA :: u32 where "CMD2_GET_RX_DATA = 0x05"
definition CMD2_GET_RX_CHANNEL :: u32 where "CMD2_GET_RX_CHANNEL = 0x06"
definition CMD2_GET_STATUS :: u32 where "CMD2_GET_STATUS = 0x0a"
definition CMD2_SET_FPGA_CTRL :: u32 where "CMD2_SET_FPGA_CTRL = 0x0b"
definition CMD2_GET_TRACE_FIFO :: u32 where "CMD2_GET_TRACE_FIFO = 0x0c"
definition CMD2_CONT_PULSE_CTRL :: u32 where "CMD2_CONT_PULSE_CTRL = 0x0d"
definition CMD2_SYSTIME_CTRL :: u32 where "CMD2_SYSTIME_CTRL = 0x0e"
definition CMD2_PULSE_FB_SETTINGS :: u32 where "CMD2_PULSE_FB_SETTINGS = 0x0f"
definition CMD2_DDR32_OB_READ_REQUEST :: u32 where "CMD2_DDR32_OB_READ_REQUEST = 0x10"
definition CMD2_DDR32_OB_READ_DATA :: u32 where "CMD2_DDR32_OB_READ_DATA = 0x11"
definition CMD2_ARQ_CTRL :: u32 where "CMD2_ARQ_CTRL = 0x12"
definition CMD2_ARQ_READ_COUNT :: u32 where "CMD2_ARQ_READ_COUNT = 0x13"
definition CMD2_ARQ_READ_DOUT :: u32 where "CMD2_ARQ_READ_DOUT = 0x14"
definition CMD2_ARQ_READ_FIFO_STATUS :: u32 where "CMD2_ARQ_READ_FIFO_STATUS = 0x15"
definition CMD2_ARQ_NETWORK_DEBUG :: u32 where "CMD2_ARQ_NETWORK_DEBUG = 0x16"
definition CMD2_PB_PULSE_COUNT01 :: u32 where "CMD2_PB_PULSE_COUNT01 = 0x17"
definition CMD2_PB_PULSE_COUNT23 :: u32 where "CMD2_PB_PULSE_COUNT23 = 0x18"
definition CMD2_TRACE_COUNTS :: u32 where "CMD2_TRACE_COUNTS = 0x19"
definition CMD2_DDR32_SO_READ_REQUEST :: u32 where "CMD2_DDR32_SO_READ_REQUEST = 0x1a"
definition CMD2_DDR32_SO_READ_DATA :: u32 where "CMD2_DDR32_SO_READ_DATA = 0x1b"
definition CMD2_GET_DESIGNVERSION :: u32 where "CMD2_GET_DESIGNVERSION = 0x1c"
definition CMD2_ARQ_PERFTEST_SET :: u32 where "CMD2_ARQ_PERFTEST_SET = 0x1d"
definition CMD2_ARQ_PERFTEST_GET :: u32 where "CMD2_ARQ_PERFTEST_GET = 0x1e"
definition CMD2_TESTMODE :: u32 where "CMD2_TESTMODE = 0x30"
definition K7CMD_DNCIF_STATE :: u32 where "K7CMD_DNCIF_STATE = 0x1"
definition K7CMD_DNCIF_RXCFG :: u32 where "K7CMD_DNCIF_RXCFG = 0x2"
definition K7CMD_DNCIF_RXPLS :: u32 where "K7CMD_DNCIF_RXPLS = 0x3"
definition K7CMD_DNCIF_CONFIG :: u32 where "K7CMD_DNCIF_CONFIG = 0x4"
definition K7CMD_DNCIF_CTRLS :: u32 where "K7CMD_DNCIF_CTRLS = 0x5"
definition K7CMD_DNCIF_TXDAT :: u32 where "K7CMD_DNCIF_TXDAT = 0x6"
definition K7CMD_DNCIF_DIS_CONFIG :: u32 where "K7CMD_DNCIF_DIS_CONFIG = 0x7"
definition K7CMD_HICANN_CHNL :: u32 where "K7CMD_HICANN_CHNL = 0x8"
definition K7CMD_DNCIF_DELAY :: u32 where "K7CMD_DNCIF_DELAY = 0x9"
definition K7CMD_ARQ_READ_DOUT :: u32 where "K7CMD_ARQ_READ_DOUT = 0xa"
definition K7CMD_ARQ_READ_COUNT :: u32 where "K7CMD_ARQ_READ_COUNT = 0xb"
definition K7CMD_ARQ_NETWORK_DEBUG :: u32 where "K7CMD_ARQ_NETWORK_DEBUG = 0xc"
definition K7CMD_HICANNIF_NRNFILTER :: u32 where "K7CMD_HICANNIF_NRNFILTER = 0xd"
definition CMD3_LVDS_PADS_EN :: u32 where "CMD3_LVDS_PADS_EN = 0x02"
definition CMD3_LINK_CTRL :: u32 where "CMD3_LINK_CTRL = 0x03"
definition CMD3_LAYER1_MODE :: u32 where "CMD3_LAYER1_MODE = 0x04"
definition CMD3_SYSTEM_ENABLE :: u32 where "CMD3_SYSTEM_ENABLE = 0x05"
definition CMD3_BIAS_CTRL :: u32 where "CMD3_BIAS_CTRL = 0x06"
definition CMD3_SET_IBIAS :: u32 where "CMD3_SET_IBIAS = 0x07"
definition CMD3_START_LINK :: u32 where "CMD3_START_LINK = 0x08"
definition CMD3_STOP_LINK :: u32 where "CMD3_STOP_LINK = 0x09"
definition CMD3_STOP_TIME_COUNT :: u32 where "CMD3_STOP_TIME_COUNT = 0x0a"
definition CMD3_READ_SYSTIME :: u32 where "CMD3_READ_SYSTIME = 0x0b"
definition CMD3_SET_GLOBAL_RESET :: u32 where "CMD3_SET_GLOBAL_RESET = 0x0c"
definition CMD3_SET_2XPLS :: u32 where "CMD3_SET_2XPLS = 0x0d"
definition CMD3_RESET_TIME_COUNT :: u32 where "CMD3_RESET_TIME_COUNT = 0x0e"
definition CMD3_NRN0_FILTER_CTRL :: u32 where "CMD3_NRN0_FILTER_CTRL = 0x0f"
definition CMD3_PLL2G_CTRL :: u32 where "CMD3_PLL2G_CTRL = 0x10"
definition CMD3_SET_TX_DATA :: u32 where "CMD3_SET_TX_DATA = 0x11"
definition CMD3_GET_RX_DATA :: u32 where "CMD3_GET_RX_DATA = 0x12"
definition CMD3_SET_TEST_CTRL :: u32 where "CMD3_SET_TEST_CTRL = 0x17"
definition CMD3_START_CFG_PKG :: u32 where "CMD3_START_CFG_PKG = 0x18"
definition CMD3_START_PULSE_PKG :: u32 where "CMD3_START_PULSE_PKG = 0x19"
definition CMD3_READ_STATUS :: u32 where "CMD3_READ_STATUS = 0x1a"
definition CMD3_SET_RESET :: u32 where "CMD3_SET_RESET = 0x1b"
definition CMD3_REL_RESET :: u32 where "CMD3_REL_RESET = 0x1c"
definition CMD3_SET_DELAY_RX_DATA :: u32 where "CMD3_SET_DELAY_RX_DATA = 0x21"
definition CMD3_SET_DELAY_RX_CLK :: u32 where "CMD3_SET_DELAY_RX_CLK = 0x22"
definition CMD3_READ_CRC_COUNT :: u32 where "CMD3_READ_CRC_COUNT = 0x27"
definition CMD3_RESET_CRC_COUNT :: u32 where "CMD3_RESET_CRC_COUNT = 0x28"
definition CMD3_PLL_FAR_CTRL :: u32 where "CMD3_PLL_FAR_CTRL = 0x29"
definition CMD3_ARQ_CTRL :: u32 where "CMD3_ARQ_CTRL = 0x30"
definition CMD3_ARQ_TXPCKNUM :: u32 where "CMD3_ARQ_TXPCKNUM = 0x31"
definition CMD3_ARQ_RXPCKNUM :: u32 where "CMD3_ARQ_RXPCKNUM = 0x32"
definition CMD3_ARQ_RXDROPNUM :: u32 where "CMD3_ARQ_RXDROPNUM = 0x33"
definition CMD3_ARQ_TXTOVAL :: u32 where "CMD3_ARQ_TXTOVAL = 0x34"
definition CMD3_ARQ_RXTOVAL :: u32 where "CMD3_ARQ_RXTOVAL = 0x35"
definition CMD3_ARQ_TXTONUM :: u32 where "CMD3_ARQ_TXTONUM = 0x36"
definition CMD3_ARQ_RXTONUM :: u32 where "CMD3_ARQ_RXTONUM = 0x37"
definition ADDR_RXREG :: u8 where "ADDR_RXREG = 0x3"
definition ADDR_TXREG :: u8 where "ADDR_TXREG = 0x5"
definition ADDR_CMDREG :: u8 where "ADDR_CMDREG = 0x6"
definition JTAG_I2C_DR_WIDTH :: u8 where "JTAG_I2C_DR_WIDTH = 14"
definition CMD_I2C_GET_DATA :: u32 where "CMD_I2C_GET_DATA = 0x21"
definition CMD_I2C_SET_DATA_EXEC :: u32 where "CMD_I2C_SET_DATA_EXEC = 0x20"
subsection \<open>The DNC\<close>

text \<open>Configuration and test of the DNC, over its own registers.\<close>

definition DNC_stop_link :: "'i jobj \<Rightarrow> u16 \<Rightarrow> ('i, unit) jc" where
  "DNC_stop_link E w = write_reg E CMD_STOP_LINK 9 c_pos_dnc (ucast w)"

definition DNC_set_channel :: "'i jobj \<Rightarrow> u8 \<Rightarrow> ('i, unit) jc" where
  "DNC_set_channel E w = write_reg E CMD_CHANNEL_SELECT 4 c_pos_dnc (ucast w)"

definition DNC_set_tx_data :: "'i jobj \<Rightarrow> u64 \<Rightarrow> ('i, unit) jc" where
  "DNC_set_tx_data E w = write_reg E CMD_SET_TX_DATA 64 c_pos_dnc w"

definition DNC_get_rx_data :: "'i jobj \<Rightarrow> u64 option \<Rightarrow> ('i, u64) jc" where
  "DNC_get_rx_data E old = read_reg E CMD_GET_RX_DATA 64 c_pos_dnc old"

definition DNC_lvds_pads_en :: "'i jobj \<Rightarrow> u16 \<Rightarrow> ('i, unit) jc" where
  "DNC_lvds_pads_en E w = write_reg E CMD_LVDS_PADS_EN 9 c_pos_dnc (ucast w)"

definition DNC_write_routing_dat :: "'i jobj \<Rightarrow> ('i, unit) jc" where
  "DNC_write_routing_dat E = do_instr E CMD_START_ROUTE_DAT c_pos_dnc"

definition DNC_set_GHz_pll_ctrl :: "'i jobj \<Rightarrow> u8 \<Rightarrow> ('i, unit) jc" where
  "DNC_set_GHz_pll_ctrl E w = write_reg E CMD_PLL2G_CTRL 4 c_pos_dnc (ucast w)"

definition DNC_start_cfg_pkg :: "'i jobj \<Rightarrow> ('i, unit) jc" where
  "DNC_start_cfg_pkg E = do_instr E CMD_START_CFG_PKG c_pos_dnc"

definition DNC_start_pulse_pkg :: "'i jobj \<Rightarrow> ('i, unit) jc" where
  "DNC_start_pulse_pkg E = do_instr E CMD_START_PULSE_PKG c_pos_dnc"

definition DNC_read_status :: "'i jobj \<Rightarrow> u64 option \<Rightarrow> ('i, u64) jc" where
  "DNC_read_status E old = read_reg E CMD_READ_STATUS 8 c_pos_dnc old"

definition DNC_reset_crc_count :: "'i jobj \<Rightarrow> u8 \<Rightarrow> ('i, unit) jc" where
  "DNC_reset_crc_count E w = write_reg E CMD_RESET_CRC_COUNT 8 c_pos_dnc (ucast w)"

definition DNC_read_heap_count :: "'i jobj \<Rightarrow> u64 option \<Rightarrow> ('i, u64) jc" where
  "DNC_read_heap_count E old = read_reg E CMD_READ_HEAP_COUNT 64 c_pos_dnc old"

definition DNC_reset_heap_count :: "'i jobj \<Rightarrow> u64 \<Rightarrow> ('i, unit) jc" where
  "DNC_reset_heap_count E w = write_reg E CMD_RESET_HEAP_COUNT 64 c_pos_dnc w"

definition DNC_set_reset :: "'i jobj \<Rightarrow> u8 \<Rightarrow> ('i, unit) jc" where
  "DNC_set_reset E w = write_reg E CMD_RESET_CHANNEL 8 c_pos_dnc (ucast w)"

definition DNC_set_pulse_protocol :: "'i jobj \<Rightarrow> u8 \<Rightarrow> ('i, unit) jc" where
  "DNC_set_pulse_protocol E w = write_reg E CMD_PULSE_PROTOCOL 8 c_pos_dnc (ucast w)"

definition DNC_set_bias_bypass :: "'i jobj \<Rightarrow> u8 \<Rightarrow> ('i, unit) jc" where
  "DNC_set_bias_bypass E w = write_reg E CMD_BIAS_BYPASS 1 c_pos_dnc (ucast w)"

definition DNC_set_memory_test_mode :: "'i jobj \<Rightarrow> u8 \<Rightarrow> ('i, unit) jc" where
  "DNC_set_memory_test_mode E w = write_reg E CMD_MEMORY_TEST_MODE 1 c_pos_dnc (ucast w)"

definition DNC_set_config_protocol :: "'i jobj \<Rightarrow> u8 \<Rightarrow> ('i, unit) jc" where
  "DNC_set_config_protocol E w = write_reg E CMD_CFG_PROTOCOL 8 c_pos_dnc (ucast w)"

definition DNC_set_time_limit :: "'i jobj \<Rightarrow> u8 \<Rightarrow> ('i, unit) jc" where
  "DNC_set_time_limit E w = write_reg E CMD_SET_TIME_LIMIT 10 c_pos_dnc (ucast w)"

definition DNC_set_timestamp_ctrl :: "'i jobj \<Rightarrow> u8 \<Rightarrow> ('i, unit) jc" where
  "DNC_set_timestamp_ctrl E w = write_reg E CMD_TIMESTAMP_CTRL 8 c_pos_dnc (ucast w)"

definition DNC_set_lowspeed_ctrl :: "'i jobj \<Rightarrow> u8 \<Rightarrow> ('i, unit) jc" where
  "DNC_set_lowspeed_ctrl E w = write_reg E CMD_SET_LOW_SPEED 8 c_pos_dnc (ucast w)"

definition DNC_set_speed_detect_ctrl :: "'i jobj \<Rightarrow> u8 \<Rightarrow> ('i, unit) jc" where
  "DNC_set_speed_detect_ctrl E w = write_reg E CMD_SPEED_DETECT_CTRL 8 c_pos_dnc (ucast w)"

definition DNC_set_dc_coding_ctrl :: "'i jobj \<Rightarrow> u8 \<Rightarrow> ('i, unit) jc" where
  "DNC_set_dc_coding_ctrl E w = write_reg E CMD_DC_CODING 8 c_pos_dnc (ucast w)"

definition DNC_test_mode_en :: "'i jobj \<Rightarrow> ('i, unit) jc" where
  "DNC_test_mode_en E = do_instr E CMD_TEST_MODE_EN c_pos_dnc"

definition DNC_test_mode_dis :: "'i jobj \<Rightarrow> ('i, unit) jc" where
  "DNC_test_mode_dis E = do_instr E CMD_TEST_MODE_DIS c_pos_dnc"

definition DNC_set_init_ctrl :: "'i jobj \<Rightarrow> u32 \<Rightarrow> ('i, unit) jc" where
  "DNC_set_init_ctrl E w = write_reg E CMD_INIT_CTRL 17 c_pos_dnc (ucast w)"

definition DNC_set_test_lvds_ctrl :: "'i jobj \<Rightarrow> u16 \<Rightarrow> ('i, unit) jc" where
  "DNC_set_test_lvds_ctrl E w = write_reg E CMD_LVDS_TEST_CTRL 9 c_pos_dnc (ucast w)"

definition DNC_start_link :: "'i jobj \<Rightarrow> u16 \<Rightarrow> ('i, unit) jc" where
  "DNC_start_link E w = write_reg E CMD_START_LINK 9 c_pos_dnc (ucast w)"

definition DNC_set_loopback :: "'i jobj \<Rightarrow> u8 \<Rightarrow> ('i, unit) jc" where
  "DNC_set_loopback E w = write_reg E CMD_LOOPBACK_CTRL 8 c_pos_dnc (ucast w)"

definition DNC_set_l1direction :: "'i jobj \<Rightarrow> u64 \<Rightarrow> ('i, unit) jc" where
  "DNC_set_l1direction E w = write_reg E CMD_SET_HEAP_MODE 64 c_pos_dnc w"

definition DNC_read_channel_sts :: "'i jobj \<Rightarrow> u8 \<Rightarrow> ('i, u8) jc" where
  "DNC_read_channel_sts E channel = jseq (DNC_set_channel E channel) (jbind (DNC_read_status E None) (\<lambda>r. jret (ucast r)))"

definition DNC_read_crc_count :: "'i jobj \<Rightarrow> ('i, u64) jc" where
  "DNC_read_crc_count E = read_reg E CMD_READ_CRC_COUNT 8 c_pos_dnc None"

definition DNC_set_data_delay :: "'i jobj \<Rightarrow> bool list \<Rightarrow> bool list \<Rightarrow> ('i, bool list) jc" where
  "DNC_set_data_delay E bs old = jseq (set_jtag_instr_chain E CMD_SET_DELAY_RX_DATA c_pos_dnc) (set_get_jtag_bools_chain E bs old c_pos_dnc)"

definition bypass :: "'i jobj \<Rightarrow> u64 \<Rightarrow> u32 \<Rightarrow> u64 \<Rightarrow> ('i, u64) jc" where
  "bypass E w len old = jseq (set_jtag_instr_chain E CMD_BYPASS (\<lambda>c. c_chain_length c - 1)) (set_get_jtag_data_chain E w (Some old) len
    (\<lambda>c. c_chain_length c - 1))"

definition DNC_start_pulse :: "'i jobj \<Rightarrow> u8 \<Rightarrow> u64 \<Rightarrow> ('i, unit) jc" where
  "DNC_start_pulse E channel d = jseq (DNC_set_channel E channel) (jseq (DNC_set_tx_data E d) (DNC_start_pulse_pkg E))"

definition DNC_start_config :: "'i jobj \<Rightarrow> u8 \<Rightarrow> u64 \<Rightarrow> ('i, unit) jc" where
  "DNC_start_config E channel d = jseq (DNC_set_channel E channel) (jseq (DNC_set_tx_data E d) (DNC_start_cfg_pkg E))"

definition DNC_start_routing :: "'i jobj \<Rightarrow> u8 \<Rightarrow> u64 \<Rightarrow> ('i, unit) jc" where
  "DNC_start_routing E channel d = jseq (DNC_set_channel E channel) (jseq (DNC_set_tx_data E d) (DNC_write_routing_dat E))"

subsection \<open>The HICANNs\<close>

text \<open>Registers of the HICANN that \<open>pos_hicann\<close> selects; the ARQ timers; packets over JTAG.\<close>

definition HICANN_chip_reset :: "'i jobj \<Rightarrow> ('i, unit) jc" where
  "HICANN_chip_reset E = do_instr E CMD3_SET_GLOBAL_RESET c_pos_hicann"

definition HICANN_set_if_reset :: "'i jobj \<Rightarrow> ('i, unit) jc" where
  "HICANN_set_if_reset E = do_instr E CMD3_SET_RESET c_pos_hicann"

definition HICANN_rel_if_reset :: "'i jobj \<Rightarrow> ('i, unit) jc" where
  "HICANN_rel_if_reset E = do_instr E CMD3_REL_RESET c_pos_hicann"

definition HICANN_lvds_pads_en :: "'i jobj \<Rightarrow> u16 \<Rightarrow> ('i, unit) jc" where
  "HICANN_lvds_pads_en E w = write_reg E CMD3_LVDS_PADS_EN 1 c_pos_hicann (ucast w)"

definition HICANN_start_link :: "'i jobj \<Rightarrow> ('i, unit) jc" where
  "HICANN_start_link E = only_instr E CMD3_START_LINK c_pos_hicann"

definition HICANN_stop_link :: "'i jobj \<Rightarrow> ('i, unit) jc" where
  "HICANN_stop_link E = only_instr E CMD3_STOP_LINK c_pos_hicann"

definition HICANN_set_pls64 :: "'i jobj \<Rightarrow> u8 \<Rightarrow> ('i, unit) jc" where
  "HICANN_set_pls64 E w = write_reg E CMD3_SET_2XPLS 1 c_pos_hicann (ucast w)"

definition HICANN_start_cfg_pkg :: "'i jobj \<Rightarrow> ('i, unit) jc" where
  "HICANN_start_cfg_pkg E = do_instr E CMD3_START_CFG_PKG c_pos_hicann"

definition HICANN_start_pulse_pkg :: "'i jobj \<Rightarrow> ('i, unit) jc" where
  "HICANN_start_pulse_pkg E = do_instr E CMD3_START_PULSE_PKG c_pos_hicann"

definition HICANN_read_status :: "'i jobj \<Rightarrow> u64 option \<Rightarrow> ('i, u64) jc" where
  "HICANN_read_status E old = read_reg E CMD3_READ_STATUS 8 c_pos_hicann old"

definition HICANN_reset_crc_count :: "'i jobj \<Rightarrow> ('i, unit) jc" where
  "HICANN_reset_crc_count E = only_instr E CMD3_RESET_CRC_COUNT c_pos_hicann"

definition HICANN_set_tx_data :: "'i jobj \<Rightarrow> u64 \<Rightarrow> ('i, unit) jc" where
  "HICANN_set_tx_data E w = write_reg E CMD3_SET_TX_DATA 64 c_pos_hicann w"

definition HICANN_get_rx_data :: "'i jobj \<Rightarrow> u64 option \<Rightarrow> ('i, u64) jc" where
  "HICANN_get_rx_data E old = read_reg E CMD3_GET_RX_DATA 64 c_pos_hicann old"

definition HICANN_read_systime :: "'i jobj \<Rightarrow> u64 option \<Rightarrow> ('i, u64) jc" where
  "HICANN_read_systime E old = read_reg E CMD3_READ_SYSTIME 15 c_pos_hicann old"

definition HICANN_set_GHz_pll_ctrl :: "'i jobj \<Rightarrow> u8 \<Rightarrow> ('i, unit) jc" where
  "HICANN_set_GHz_pll_ctrl E w = write_reg E CMD3_PLL2G_CTRL 3 c_pos_hicann (ucast w)"

definition hicannif_nrn0_filter_ctrl :: "'i jobj \<Rightarrow> u8 \<Rightarrow> ('i, unit) jc" where
  "hicannif_nrn0_filter_ctrl E w = write_reg E CMD3_NRN0_FILTER_CTRL 8 c_pos_hicann (ucast w)"

definition HICANN_set_bias :: "'i jobj \<Rightarrow> u16 \<Rightarrow> ('i, unit) jc" where
  "HICANN_set_bias E w = write_reg E CMD3_BIAS_CTRL 6 c_pos_hicann (ucast w)"

definition HICANN_set_test :: "'i jobj \<Rightarrow> u16 \<Rightarrow> ('i, unit) jc" where
  "HICANN_set_test E w = write_reg E CMD3_SET_TEST_CTRL 4 c_pos_hicann (ucast w)"

definition HICANN_set_reset :: "'i jobj \<Rightarrow> u16 \<Rightarrow> ('i, unit) jc" where
  "HICANN_set_reset E w = write_reg E CMD3_SYSTEM_ENABLE 1 c_pos_hicann (ucast w)"

definition HICANN_set_link_ctrl :: "'i jobj \<Rightarrow> u16 \<Rightarrow> ('i, unit) jc" where
  "HICANN_set_link_ctrl E w = write_reg E CMD3_LINK_CTRL 9 c_pos_hicann (ucast w)"

definition HICANN_set_layer1_mode :: "'i jobj \<Rightarrow> u8 \<Rightarrow> ('i, unit) jc" where
  "HICANN_set_layer1_mode E w = write_reg E CMD3_LAYER1_MODE 8 c_pos_hicann (ucast w)"

definition HICANN_set_double_pulse :: "'i jobj \<Rightarrow> u8 \<Rightarrow> ('i, unit) jc" where
  "HICANN_set_double_pulse E w = write_reg E CMD3_SET_2XPLS 1 c_pos_hicann (ucast w)"

definition HICANN_set_pll_far_ctrl :: "'i jobj \<Rightarrow> u16 \<Rightarrow> ('i, unit) jc" where
  "HICANN_set_pll_far_ctrl E w = write_reg E CMD3_PLL_FAR_CTRL 15 c_pos_hicann (ucast w)"

definition read_id :: "'i jobj \<Rightarrow> u64 option \<Rightarrow> u8 \<Rightarrow> ('i, u64) jc" where
  "read_id E old chip_nr = read_reg E CMD_READID 32 (\<lambda>_. ucast chip_nr) old"

definition read_id_value :: "'i jobj \<Rightarrow> u8 \<Rightarrow> ('i, u64) jc" where
  "read_id_value E chip_nr = read_id E None chip_nr"

definition read_all_ids :: "('i, u64 list) jc" where
  "read_all_ids = jret []"

definition HICANN_read_crc_count :: "'i jobj \<Rightarrow> ('i, u64) jc" where
  "HICANN_read_crc_count E = read_reg E CMD3_READ_CRC_COUNT 8 c_pos_hicann None"

definition HICANN_start_time_counter :: "'i jobj \<Rightarrow> ('i, unit) jc" where
  "HICANN_start_time_counter E = write_reg E CMD3_STOP_TIME_COUNT 1 c_pos_hicann 0"

definition HICANN_stop_time_counter :: "'i jobj \<Rightarrow> ('i, unit) jc" where
  "HICANN_stop_time_counter E = write_reg E CMD3_STOP_TIME_COUNT 1 c_pos_hicann 1"

definition HICANN_reset_all_time_counters :: "'i jobj \<Rightarrow> ('i, unit) jc" where
  "HICANN_reset_all_time_counters E = set_hicanns_ir_chain E (ucast CMD3_RESET_TIME_COUNT)"

definition HICANNv2_reset_all_time_counters :: "'i jobj \<Rightarrow> ('i, unit) jc" where
  "HICANNv2_reset_all_time_counters E = jseq (set_hicanns_ir_chain E (ucast CMD3_STOP_TIME_COUNT)) (jseq (set_jtag_hicanns_data_chain E
    0x8000000000000000) (jseq (set_hicanns_ir_chain E (ucast CMD3_STOP_TIME_COUNT)) (set_jtag_hicanns_data_chain E 0)))"

definition HICANN_restart_time_counter :: "'i jobj \<Rightarrow> ('i, unit) jc" where
  "HICANN_restart_time_counter E = jseq (HICANN_stop_time_counter E) (HICANN_start_time_counter E)"

definition HICANN_set_clk_delay :: "'i jobj \<Rightarrow> u64 \<Rightarrow> u64 \<Rightarrow> ('i, u64) jc" where
  "HICANN_set_clk_delay E w old = jseq (set_jtag_instr_chain E CMD3_SET_DELAY_RX_CLK c_pos_hicann) (set_get_jtag_data_chain E w (Some old) 6
    c_pos_hicann)"

definition HICANN_set_data_delay :: "'i jobj \<Rightarrow> u64 \<Rightarrow> u64 \<Rightarrow> ('i, u64) jc" where
  "HICANN_set_data_delay E w old = jseq (set_jtag_instr_chain E CMD3_SET_DELAY_RX_DATA c_pos_hicann) (set_get_jtag_data_chain E w (Some old) 6
    c_pos_hicann)"

definition HICANN_set_ibias :: "'i jobj \<Rightarrow> u64 \<Rightarrow> u64 \<Rightarrow> ('i, u64) jc" where
  "HICANN_set_ibias E w old = jseq (set_jtag_instr_chain E CMD3_SET_IBIAS c_pos_hicann) (set_get_jtag_data_chain E w (Some old) 15 c_pos_hicann)"

definition HICANN_start_pulse_packet :: "'i jobj \<Rightarrow> u64 \<Rightarrow> ('i, unit) jc" where
  "HICANN_start_pulse_packet E w = jseq (HICANN_set_tx_data E w) (HICANN_start_pulse_pkg E)"

definition HICANN_set_pll_far :: "'i jobj \<Rightarrow> u32 \<Rightarrow> u32 \<Rightarrow> u32 \<Rightarrow> u32 \<Rightarrow> u32 \<Rightarrow>
    ('i, unit) jc" where
  "HICANN_set_pll_far E ms ns pdn frange test = HICANN_set_pll_far_ctrl E (ucast (push_bit 9 (ms AND 0x3f) OR push_bit 3 (ns AND 0x3f) OR push_bit 2
    (pdn AND 1) OR push_bit 1 (frange AND 1) OR (test AND 1)))"

definition two_halves :: "u16 \<Rightarrow> u16 \<Rightarrow> u64" where
  "two_halves hi lo = push_bit 16 (ucast hi) OR ucast lo"

definition HICANN_arq_write_ctrl :: "'i jobj \<Rightarrow> u16 \<Rightarrow> u16 \<Rightarrow> ('i, unit) jc" where
  "HICANN_arq_write_ctrl E w0 w1 = write_reg E CMD3_ARQ_CTRL 32 c_pos_hicann (two_halves w0 w1)"

definition HICANN_arq_write_tx_timeout :: "'i jobj \<Rightarrow> u16 \<Rightarrow> u16 \<Rightarrow> ('i, unit) jc" where
  "HICANN_arq_write_tx_timeout E w0 w1 = write_reg E CMD3_ARQ_TXTOVAL 32 c_pos_hicann (two_halves w0 w1)"

definition HICANN_arq_write_rx_timeout :: "'i jobj \<Rightarrow> u16 \<Rightarrow> u16 \<Rightarrow> ('i, unit) jc" where
  "HICANN_arq_write_rx_timeout E w0 w1 = write_reg E CMD3_ARQ_RXTOVAL 32 c_pos_hicann (two_halves w0 w1)"

definition read_halves :: "'i jobj \<Rightarrow> u32 \<Rightarrow> ('i, u16 \<times> u16) jc" where
  "read_halves E cmd = jbind (read_reg E cmd 32 c_pos_hicann None) (\<lambda>r. jret (ucast (r AND 0xffff), ucast (drop_bit 16 r)))"

definition HICANN_arq_read_tx_timeout_num :: "'i jobj \<Rightarrow> ('i, u16 \<times> u16) jc" where
  "HICANN_arq_read_tx_timeout_num E = read_halves E CMD3_ARQ_TXTONUM"

definition HICANN_arq_read_rx_timeout_num :: "'i jobj \<Rightarrow> ('i, u16 \<times> u16) jc" where
  "HICANN_arq_read_rx_timeout_num E = read_halves E CMD3_ARQ_RXTONUM"

definition HICANN_arq_read_tx_packet_num :: "'i jobj \<Rightarrow> ('i, u16 \<times> u16) jc" where
  "HICANN_arq_read_tx_packet_num E = read_halves E CMD3_ARQ_TXPCKNUM"

definition HICANN_arq_read_rx_packet_num :: "'i jobj \<Rightarrow> ('i, u16 \<times> u16) jc" where
  "HICANN_arq_read_rx_packet_num E = read_halves E CMD3_ARQ_RXPCKNUM"

definition HICANN_arq_read_rx_drop_num :: "'i jobj \<Rightarrow> ('i, u16 \<times> u16) jc" where
  "HICANN_arq_read_rx_drop_num E = read_halves E CMD3_ARQ_RXDROPNUM"

definition HICANN_submit_ocp_packet :: "'i jobj \<Rightarrow> u64 \<Rightarrow> ('i, unit) jc" where
  "HICANN_submit_ocp_packet E w = jseq (HICANN_set_test E 0xc) (jseq (HICANN_set_tx_data E w) (jseq (HICANN_start_cfg_pkg E) (HICANN_set_test E 0)))"

definition HICANN_receive_ocp_packet :: "'i jobj \<Rightarrow> u64 option \<Rightarrow> ('i, u64) jc" where
  "HICANN_receive_ocp_packet E old = HICANN_get_rx_data E old"

definition HICANN_start_l1_pulse_packet :: "'i jobj \<Rightarrow> u64 \<Rightarrow> ('i, unit) jc" where
  "HICANN_start_l1_pulse_packet E w = jseq (HICANN_set_test E 0xa) (jseq (HICANN_set_tx_data E w) (jseq (HICANN_start_pulse_pkg E) (HICANN_set_test E
    0)))"

subsection \<open>The FPGA\<close>

text \<open>Registers of the older FPGA: packets to the DNC, the modes of its FIFOs, its memories and the I2C bus behind it.\<close>

definition FPGA_start_dnc_packet :: "'i jobj \<Rightarrow> u16 \<Rightarrow> ('i, unit) jc" where
  "FPGA_start_dnc_packet E w = write_reg E CMD2_SET_TX_CTRL 10 c_pos_fpga (ucast w)"

definition FPGA_set_channel :: "'i jobj \<Rightarrow> u32 \<Rightarrow> ('i, unit) jc" where
  "FPGA_set_channel E w = write_reg E CMD2_SET_TX_CHANNEL 24 c_pos_fpga (ucast w)"

definition FPGA_testmode :: "'i jobj \<Rightarrow> u32 \<Rightarrow> ('i, unit) jc" where
  "FPGA_testmode E w = write_reg E CMD2_TESTMODE 2 c_pos_fpga (ucast w)"

definition FPGA_set_fpga_ctrl :: "'i jobj \<Rightarrow> u16 \<Rightarrow> ('i, unit) jc" where
  "FPGA_set_fpga_ctrl E w = write_reg E CMD2_SET_FPGA_CTRL 12 c_pos_fpga (ucast w)"

definition FPGA_set_tx_data :: "'i jobj \<Rightarrow> u64 \<Rightarrow> ('i, unit) jc" where
  "FPGA_set_tx_data E w = write_reg E CMD2_SET_TX_DATA 64 c_pos_fpga w"

definition FPGA_set_systime_ctrl :: "'i jobj \<Rightarrow> u64 \<Rightarrow> ('i, unit) jc" where
  "FPGA_set_systime_ctrl E w = write_reg E CMD2_SYSTIME_CTRL 1 c_pos_fpga w"

definition FPGA_get_status :: "'i jobj \<Rightarrow> u64 option \<Rightarrow> ('i, u64) jc" where
  "FPGA_get_status E old = read_reg E CMD2_GET_STATUS 14 c_pos_fpga old"

definition FPGA_get_rx_channel :: "'i jobj \<Rightarrow> u64 option \<Rightarrow> ('i, u64) jc" where
  "FPGA_get_rx_channel E old = read_reg E CMD2_GET_RX_CHANNEL 27 c_pos_fpga old"

definition FPGA_get_rx_data :: "'i jobj \<Rightarrow> u64 option \<Rightarrow> ('i, u64) jc" where
  "FPGA_get_rx_data E old = read_reg E CMD2_GET_RX_DATA 64 c_pos_fpga old"

definition FPGA_get_crc :: "'i jobj \<Rightarrow> ('i, u8) jc" where
  "FPGA_get_crc E = jbind (FPGA_get_status E None) (\<lambda>st. jret (ucast (drop_bit 6 st)))"

definition cont_pulse_word :: "u8 \<Rightarrow> u8 \<Rightarrow> u8 \<Rightarrow> u16 \<Rightarrow> u32 \<Rightarrow> u8 \<Rightarrow> u8
    \<Rightarrow> u8 \<Rightarrow> u64" where
  "cont_pulse_word start channel poisson delay seed nrn_start nrn_end hicann = (ucast start AND 1) OR push_bit 1 (ucast poisson AND 1) OR push_bit 2
    (ucast channel AND 0xff) OR push_bit 10 (ucast nrn_start AND 0x3f) OR push_bit 16 (ucast nrn_end AND 0x3f) OR push_bit 22 (ucast hicann AND 7) OR
    push_bit 25 (ucast delay - 2 AND 0x3fff) OR push_bit 39 (ucast seed AND 0xffffff)"

definition FPGA_set_cont_pulse_ctrl :: "'i jobj \<Rightarrow> u8 \<Rightarrow> u8 \<Rightarrow> u8 \<Rightarrow> u16 \<Rightarrow> u32 \<Rightarrow>
    u8 \<Rightarrow> u8 \<Rightarrow> u8 \<Rightarrow> ('i, unit) jc" where
  "FPGA_set_cont_pulse_ctrl E start channel poisson delay seed nrn_start nrn_end hicann = jseq (FPGA_set_tx_data E 0) (jseq (write_reg E
    CMD2_CONT_PULSE_CTRL 63 c_pos_fpga (cont_pulse_word start channel poisson delay seed nrn_start nrn_end hicann)) (execute_instr E))"

definition send_dnc_packet :: "'i jobj \<Rightarrow> u32 \<Rightarrow> u64 \<Rightarrow> u16 \<Rightarrow> ('i, unit) jc" where
  "send_dnc_packet E channel w kind = jseq (FPGA_set_channel E channel) (jseq (FPGA_set_tx_data E w) (FPGA_start_dnc_packet E (0x300 + kind)))"

definition FPGA_start_pulse_event :: "'i jobj \<Rightarrow> u8 \<Rightarrow> u64 \<Rightarrow> ('i, unit) jc" where
  "FPGA_start_pulse_event E channel w = jseq (send_dnc_packet E (ucast channel) w 1) (execute_instr E)"

definition FPGA_start_config_packet :: "'i jobj \<Rightarrow> u8 \<Rightarrow> u64 \<Rightarrow> ('i, unit) jc" where
  "FPGA_start_config_packet E channel w = jseq (send_dnc_packet E (ucast channel) w 2) (execute_instr E)"

definition FPGA_cfg_dnc_l1direction :: "'i jobj \<Rightarrow> u8 \<Rightarrow> u64 \<Rightarrow> ('i, unit) jc" where
  "FPGA_cfg_dnc_l1direction E channel w = (if channel < 32 then jseq (send_dnc_packet E (push_bit (unat channel) 1) w 0x10) (execute_instr E) else
    (\<lambda>_. None))"

definition fifo_modes :: "'i cmdbase \<Rightarrow> u32" where
  "fifo_modes c = push_bit 9 (c_filter_nrn0 c) + push_bit 8 (c_fifoloop c) + push_bit 6 (c_pulsefifo c)"

definition set_modes :: "'i jobj \<Rightarrow> u32 \<Rightarrow> ('i, unit) jc" where
  "set_modes E extra = jseq (\<lambda>c. FPGA_set_fpga_ctrl E (ucast (fifo_modes c + push_bit 5 (c_tracefifo c) + extra)) c) (execute_instr E)"

definition FPGA_write_playback_fifo :: "'i jobj \<Rightarrow> u64 \<Rightarrow> ('i, unit) jc" where
  "FPGA_write_playback_fifo E w = jseq (FPGA_set_tx_data E w) (jseq (\<lambda>c. FPGA_set_fpga_ctrl E (ucast (fifo_modes c + push_bit 11 1)) c)
    (execute_instr E))"

definition FPGA_enable_pulsefifo :: "'i jobj \<Rightarrow> ('i, unit) jc" where
  "FPGA_enable_pulsefifo E = jseq (jmod (\<lambda>c. c\<lparr>c_pulsefifo := 1\<rparr>)) (set_modes E 0)"

definition FPGA_disable_pulsefifo :: "'i jobj \<Rightarrow> ('i, unit) jc" where
  "FPGA_disable_pulsefifo E = jseq (jmod (\<lambda>c. c\<lparr>c_pulsefifo := 0\<rparr>)) (set_modes E 0)"

definition FPGA_enable_tracefifo :: "'i jobj \<Rightarrow> ('i, unit) jc" where
  "FPGA_enable_tracefifo E = jseq (jmod (\<lambda>c. c\<lparr>c_tracefifo := 1\<rparr>)) (set_modes E 0)"

definition FPGA_disable_tracefifo :: "'i jobj \<Rightarrow> ('i, unit) jc" where
  "FPGA_disable_tracefifo E = jseq (jmod (\<lambda>c. c\<lparr>c_tracefifo := 0\<rparr>)) (set_modes E 0)"

definition FPGA_enable_filter_tracefifo :: "'i jobj \<Rightarrow> ('i, unit) jc" where
  "FPGA_enable_filter_tracefifo E = jseq (jmod (\<lambda>c. c\<lparr>c_filter_nrn0 := 1\<rparr>)) (set_modes E 0)"

definition FPGA_disable_filter_tracefifo :: "'i jobj \<Rightarrow> ('i, unit) jc" where
  "FPGA_disable_filter_tracefifo E = jseq (jmod (\<lambda>c. c\<lparr>c_filter_nrn0 := 0\<rparr>)) (set_modes E 0)"

definition FPGA_enable_fifoloop :: "'i jobj \<Rightarrow> ('i, unit) jc" where
  "FPGA_enable_fifoloop E = jseq (jmod (\<lambda>c. c\<lparr>c_fifoloop := 1\<rparr>)) (set_modes E 0)"

definition FPGA_disable_fifoloop :: "'i jobj \<Rightarrow> ('i, unit) jc" where
  "FPGA_disable_fifoloop E = jseq (jmod (\<lambda>c. c\<lparr>c_fifoloop := 0\<rparr>)) (set_modes E 0)"

definition get_trace_time :: "'i jobj \<Rightarrow> u64 \<Rightarrow> ('i, u32 \<times> u64) jc" where
  "get_trace_time E old = jbind (read_reg E CMD2_GET_TRACE_FIFO 64 c_pos_fpga (Some old)) (\<lambda>r. jbind (FPGA_get_rx_channel E (Some 0))
    (\<lambda>t. jseq (set_modes E (push_bit 10 1)) (jret (ucast (drop_bit 11 t AND 0xffffffff), r))))"

definition FPGA_get_trace_fifo :: "'i jobj \<Rightarrow> u64 \<Rightarrow> ('i, u64) jc" where
  "FPGA_get_trace_fifo E old = jbind (read_reg E CMD2_GET_TRACE_FIFO 64 c_pos_fpga (Some old)) (\<lambda>r. jseq (set_modes E (push_bit 10 1)) (jret
    r))"

definition get_trace_kind :: "'i jobj \<Rightarrow> u64 \<Rightarrow> ('i, u64 \<times> bool) jc" where
  "get_trace_kind E old = jbind (read_reg E CMD2_GET_TRACE_FIFO 64 c_pos_fpga (Some old)) (\<lambda>r. jbind (FPGA_get_rx_channel E (Some 0))
    (\<lambda>t. jseq (set_modes E (push_bit 10 1)) (jret (r, bit t 26))))"

definition FPGA_reset_tracefifo :: "'i jobj \<Rightarrow> ('i, unit) jc" where
  "FPGA_reset_tracefifo E = set_modes E (push_bit 7 1)"

definition FPGA_get_rx_packet :: "'i jobj \<Rightarrow> u64 \<Rightarrow> u64 \<Rightarrow> ('i, u64) jc" where
  "FPGA_get_rx_packet E channel old = jbind (FPGA_get_rx_channel E (Some channel)) (\<lambda>_. FPGA_get_rx_data E (Some old))"

definition FPGA_empty_pulsefifo :: "'i jobj \<Rightarrow> ('i, bool) jc" where
  "FPGA_empty_pulsefifo E = jbind (FPGA_get_status E (Some 0)) (\<lambda>st. jret (bit st 5))"

definition SetPulseFeedback :: "'i jobj \<Rightarrow> u32 \<Rightarrow> u32 \<Rightarrow> u32 \<Rightarrow> u32 \<Rightarrow> u32 \<Rightarrow> bool
    \<Rightarrow> ('i, unit) jc" where
  "SetPulseFeedback E ch_in ch_out0 ch_out1 delay0 delay1 enable = write_reg E CMD2_PULSE_FB_SETTINGS 40 c_pos_fpga (ucast (delay1 AND 0x7fff) OR
    ucast (push_bit 15 (delay0 AND 0x7fff)) OR push_bit 30 (ucast (ch_out1 AND 7)) OR push_bit 33 (ucast (ch_out0 AND 7)) OR push_bit 36 (ucast
    (ch_in AND 7)) OR (if enable then push_bit 39 1 else 0))"

definition ReadDDROnboard :: "'i jobj \<Rightarrow> u32 \<Rightarrow> u32 \<Rightarrow> ('i, u64 list) jc" where
  "ReadDDROnboard E addr sz = jseq (write_reg E CMD2_DDR32_OB_READ_REQUEST 31 c_pos_fpga (push_bit 6 (ucast addr) OR ucast (sz AND 0x3f))) (jtimes
    (unat (sz AND 0x3f)) (read_reg E CMD2_DDR32_OB_READ_DATA 64 c_pos_fpga (Some 0x110DADA)))"

definition ReadDDRSODIMM :: "'i jobj \<Rightarrow> u32 \<Rightarrow> u32 \<Rightarrow> ('i, u64 list) jc" where
  "ReadDDRSODIMM E addr sz = jseq (write_reg E CMD2_DDR32_SO_READ_REQUEST 34 c_pos_fpga (push_bit 6 (ucast addr) OR ucast (sz AND 0x3f))) (jtimes
    (unat (sz AND 0x3f)) (read_reg E CMD2_DDR32_SO_READ_DATA 64 c_pos_fpga (Some 0x110DADA)))"

definition SetARQPerformanceTest :: "'i jobj \<Rightarrow> bool \<Rightarrow> u32 \<Rightarrow> u32 \<Rightarrow> ('i, unit) jc" where
  "SetARQPerformanceTest E enable num_packets client_array = write_reg E CMD2_ARQ_PERFTEST_SET 49 c_pos_fpga (push_bit 32 (ucast client_array) OR
    ucast num_packets OR (if enable then push_bit 48 1 else 0))"

definition GetARQPerformanceTestResults :: "'i jobj \<Rightarrow> ('i, bool \<times> u32 \<times> u32) jc" where
  "GetARQPerformanceTestResults E = jbind (read_reg E CMD2_ARQ_PERFTEST_GET 64 c_pos_fpga (Some 0)) (\<lambda>r. jret (bit r 62, ucast (drop_bit 31 r
    AND 0x7fffffff), ucast (r AND 0x7fffffff)))"

definition GetSentPlaybackCount :: "'i jobj \<Rightarrow> u32 \<Rightarrow> ('i, u32) jc" where
  "GetSentPlaybackCount E dnc_id = jbind (read_reg E (if drop_bit 1 dnc_id \<noteq> 0 then CMD2_PB_PULSE_COUNT23 else CMD2_PB_PULSE_COUNT01) 64
    c_pos_fpga (Some 0)) (\<lambda>r. jret (ucast ((if bit dnc_id 0 then drop_bit 32 r else r) AND 0xffffffff)))"

definition GetTraceEntryCount :: "'i jobj \<Rightarrow> ('i, u32) jc" where
  "GetTraceEntryCount E = jbind (read_reg E CMD2_TRACE_COUNTS 64 c_pos_fpga (Some 0)) (\<lambda>r. jret (ucast (r AND 0xffffffff)))"

definition GetTracePulseCount :: "'i jobj \<Rightarrow> ('i, u32) jc" where
  "GetTracePulseCount E = jbind (read_reg E CMD2_TRACE_COUNTS 64 c_pos_fpga (Some 0)) (\<lambda>r. jret (ucast (drop_bit 32 r)))"

definition GetFPGADesignVersion :: "'i jobj \<Rightarrow> ('i, u32) jc" where
  "GetFPGADesignVersion E = jbind (read_reg E CMD2_GET_DESIGNVERSION 32 c_pos_fpga (Some 0)) (\<lambda>r. jret (ucast r))"

definition FPGA_set_routing_data :: "'i jobj \<Rightarrow> u8 \<Rightarrow> u16 \<Rightarrow> u16 \<Rightarrow> ('i, unit) jc" where
  "FPGA_set_routing_data E hicann addr d = send_dnc_packet E (8 + ucast (hicann AND 7)) (push_bit 15 (ucast (addr AND 0x1ff)) + ucast (d AND 0x7fff))
    4"

definition FPGA_set_limit_data :: "'i jobj \<Rightarrow> u8 \<Rightarrow> u16 \<Rightarrow> ('i, unit) jc" where
  "FPGA_set_limit_data E hicann d = send_dnc_packet E (ucast hicann) (ucast (d AND 0x3ff)) 0x20"

definition FPGA_set_dnc_cfg :: "'i jobj \<Rightarrow> u8 \<Rightarrow> u8 \<Rightarrow> u16 \<Rightarrow> u8 \<Rightarrow> u8 \<Rightarrow> u8
    \<Rightarrow> u8 \<Rightarrow> u8 \<Rightarrow> u8 \<Rightarrow> ('i, unit) jc" where
  "FPGA_set_dnc_cfg E valids chnl_reset init_mode dc_bal proto_cfg proto_pls mode500 timestamp crc_reset = (let data0 = push_bit 24 (ucast proto_cfg)
    OR push_bit 16 (ucast proto_pls) OR push_bit 8 (ucast mode500) OR ucast timestamp :: u32; data1 = push_bit 24 (ucast chnl_reset) OR push_bit 8
    (ucast init_mode) OR ucast dc_bal :: u32; crc_valid = (if crc_reset \<noteq> 0 then 1 else 0) in send_dnc_packet E (ucast valids OR crc_valid)
    (push_bit 32 (ucast data1) OR ucast data0) 8)"

definition sendDncTimestampMode :: "'i jobj \<Rightarrow> u8 \<Rightarrow> ('i, unit) jc" where
  "sendDncTimestampMode E val = FPGA_set_dnc_cfg E 2 0 0 0 0 0 0 val 0"

definition FPGA_fill_playback_fifo :: "'i jobj \<Rightarrow> bool \<Rightarrow> u16 \<Rightarrow> u8 \<Rightarrow> u64 \<Rightarrow> u32
    \<Rightarrow> ('i, unit) jc" where
  "FPGA_fill_playback_fifo E cfg delay hicann d d1 = (let wait = push_bit 8 (ucast delay AND 0x7fff) :: u32 in jseq (FPGA_set_channel E (if cfg then
    push_bit 23 1 OR (ucast hicann AND 7) OR wait else wait)) (jseq (FPGA_set_tx_data E (if cfg then d else (d AND 0x07ffffff) OR push_bit 32 (ucast
    d1))) (jseq (\<lambda>c. FPGA_set_fpga_ctrl E (ucast (push_bit 9 (c_filter_nrn0 c) + push_bit 6 (c_pulsefifo c) + push_bit 11 1)) c)
    (execute_instr E))))"

definition FPGA_i2c_setctrl :: "'i jobj \<Rightarrow> u8 \<Rightarrow> u8 \<Rightarrow> ('i, unit) jc" where
  "FPGA_i2c_setctrl E ctrladdr ctrlreg = write_reg E CMD_I2C_SET_DATA_EXEC JTAG_I2C_DR_WIDTH c_pos_fpga (push_bit 13 1 OR push_bit 8 (ucast ctrladdr)
    OR ucast ctrlreg)"

definition FPGA_i2c_getctrl :: "'i jobj \<Rightarrow> u8 \<Rightarrow> ('i, u8) jc" where
  "FPGA_i2c_getctrl E ctrladdr = jseq (write_reg E CMD_I2C_SET_DATA_EXEC JTAG_I2C_DR_WIDTH c_pos_fpga (push_bit 8 (ucast ctrladdr))) (jbind (read_reg
    E CMD_I2C_GET_DATA 8 c_pos_fpga None) (\<lambda>r. jret (ucast r)))"

definition i2c_cmd :: "bool \<Rightarrow> bool \<Rightarrow> u8 \<Rightarrow> bool \<Rightarrow> u8" where
  "i2c_cmd start stop rw nack = (if start then 0x80 else 0) OR (if stop then 0x40 else 0) OR push_bit 4 rw OR (if nack then 8 else 0)"

definition FPGA_i2c_byte_write :: "'i jobj \<Rightarrow> u8 \<Rightarrow> bool \<Rightarrow> bool \<Rightarrow> bool \<Rightarrow> ('i, unit) jc"
    where
  "FPGA_i2c_byte_write E d start stop nack = jseq (FPGA_i2c_setctrl E ADDR_TXREG d) (FPGA_i2c_setctrl E ADDR_CMDREG (i2c_cmd start stop 1 nack))"

definition FPGA_i2c_byte_read :: "'i jobj \<Rightarrow> bool \<Rightarrow> bool \<Rightarrow> bool \<Rightarrow> ('i, u8) jc" where
  "FPGA_i2c_byte_read E start stop nack = jseq (FPGA_i2c_setctrl E ADDR_CMDREG (i2c_cmd start stop 2 nack)) (FPGA_i2c_getctrl E ADDR_RXREG)"

subsection \<open>The Kintex-7 FPGA\<close>

text \<open>The interfaces to the HICANNs, selected one at a time; the object keeps a copy of what each was configured to.\<close>

definition K7FPGA_get_hicannif_status :: "'i jobj \<Rightarrow> u64 option \<Rightarrow> ('i, u64) jc" where
  "K7FPGA_get_hicannif_status E old = read_reg E K7CMD_DNCIF_STATE 64 c_pos_fpga old"

definition K7FPGA_get_hicannif_rx_cfg :: "'i jobj \<Rightarrow> u64 option \<Rightarrow> ('i, u64) jc" where
  "K7FPGA_get_hicannif_rx_cfg E old = read_reg E K7CMD_DNCIF_RXCFG 64 c_pos_fpga old"

definition K7FPGA_get_dncif_rx_pls :: "'i jobj \<Rightarrow> u64 option \<Rightarrow> ('i, u64) jc" where
  "K7FPGA_get_dncif_rx_pls E old = read_reg E K7CMD_DNCIF_RXPLS 24 c_pos_fpga old"

definition K7FPGA_get_hicannif_data_delay :: "'i jobj \<Rightarrow> u64 option \<Rightarrow> ('i, u64) jc" where
  "K7FPGA_get_hicannif_data_delay E old = jbind (read_reg E K7CMD_DNCIF_DELAY 5 c_pos_fpga old) (\<lambda>r. jret (r AND 0x1f))"

definition K7FPGA_set_hicannif_config :: "'i jobj \<Rightarrow> u32 \<Rightarrow> ('i, unit) jc" where
  "K7FPGA_set_hicannif_config E config = jseq (\<lambda>c. if c_nif c < 8 then Some ((), c\<lparr>c_conf := (c_conf c)[unat (c_nif c) :=
    config]\<rparr>) else None) (write_reg E K7CMD_DNCIF_CONFIG 29 c_pos_fpga (ucast config))"

definition K7FPGA_set_hicannif_control :: "'i jobj \<Rightarrow> u32 \<Rightarrow> ('i, unit) jc" where
  "K7FPGA_set_hicannif_control E control = write_reg E K7CMD_DNCIF_CTRLS 6 c_pos_fpga (ucast control)"

definition K7FPGA_set_hicannif_tx_data :: "'i jobj \<Rightarrow> u64 \<Rightarrow> ('i, unit) jc" where
  "K7FPGA_set_hicannif_tx_data E txdata = write_reg E K7CMD_DNCIF_TXDAT 64 c_pos_fpga txdata"

definition K7FPGA_set_hicannif_data_delay :: "'i jobj \<Rightarrow> u32 \<Rightarrow> ('i, unit) jc" where
  "K7FPGA_set_hicannif_data_delay E delay_val = write_reg E K7CMD_DNCIF_DELAY 6 c_pos_fpga (push_bit 5 1 OR ucast (delay_val AND 0x1f))"

definition upd_config :: "'i jobj \<Rightarrow> (u32 \<Rightarrow> u32) \<Rightarrow> ('i, unit) jc" where
  "upd_config E f = (\<lambda>c. if c_nif c < 8 then K7FPGA_set_hicannif_config E (f (c_conf c ! unat (c_nif c))) c else None)"

definition K7FPGA_invert_rx_data :: "'i jobj \<Rightarrow> bool \<Rightarrow> ('i, unit) jc" where
  "K7FPGA_invert_rx_data E invert = upd_config E (\<lambda>w. (w AND NOT (push_bit 28 1)) OR (if invert then push_bit 28 1 else 0))"

definition K7FPGA_start_fpga_link :: "'i jobj \<Rightarrow> ('i, unit) jc" where
  "K7FPGA_start_fpga_link E = upd_config E (\<lambda>w. w OR 1)"

definition K7FPGA_stop_fpga_link :: "'i jobj \<Rightarrow> ('i, unit) jc" where
  "K7FPGA_stop_fpga_link E = upd_config E (\<lambda>w. w AND NOT 1)"

definition K7FPGA_disable_hicannif_config_output :: "'i jobj \<Rightarrow> ('i, unit) jc" where
  "K7FPGA_disable_hicannif_config_output E = write_reg E K7CMD_DNCIF_DIS_CONFIG 1 c_pos_fpga 1"

definition K7FPGA_enable_hicannif_config_output :: "'i jobj \<Rightarrow> ('i, unit) jc" where
  "K7FPGA_enable_hicannif_config_output E = write_reg E K7CMD_DNCIF_DIS_CONFIG 1 c_pos_fpga 0"

definition K7FPGA_set_hicannif :: "'i jobj \<Rightarrow> u8 \<Rightarrow> ('i, unit) jc" where
  "K7FPGA_set_hicannif E hicann_id = jseq (write_reg E K7CMD_HICANN_CHNL 3 c_pos_fpga (ucast hicann_id)) (jmod (\<lambda>c. c\<lparr>c_nif := ucast
    hicann_id\<rparr>))"

definition K7FPGA_get_hicannif :: "('i, u8) jc" where
  "K7FPGA_get_hicannif = jget (\<lambda>c. ucast (c_nif c))"

definition K7FPGA_set_neuron_addr_filter :: "'i jobj \<Rightarrow> u32 \<Rightarrow> u32 \<Rightarrow> ('i, unit) jc" where
  "K7FPGA_set_neuron_addr_filter E pos_filter_mask neg_filter_mask = write_reg E K7CMD_HICANNIF_NRNFILTER 18 c_pos_fpga (ucast (push_bit 9
    (pos_filter_mask AND 0x1ff) + (neg_filter_mask AND 0x1ff)))"

subsection \<open>The ARQ in the FPGA\<close>

text \<open>\<open>jtag_cmdbase.cpp\<close>.\<close>

definition SetARQMonitorSegment :: "'i jobj \<Rightarrow> 2 word \<Rightarrow> ('i, unit) jc" where
  "SetARQMonitorSegment E seg = write_reg E CMD2_ARQ_CTRL 29 c_pos_fpga (push_bit 28 1 OR push_bit 26 (ucast seg))"

definition SetARQTimings :: "'i jobj \<Rightarrow> u32 \<Rightarrow> u32 \<Rightarrow> u32 \<Rightarrow> ('i, unit) jc" where
  "SetARQTimings E arbiter_delay master_timeout target_timeout = write_reg E CMD2_ARQ_CTRL 29 c_pos_fpga (ucast (push_bit 25 1 OR push_bit 20
    (arbiter_delay AND 0x1f) OR push_bit 10 (target_timeout AND 0x3ff) OR (master_timeout AND 0x3ff)))"

definition dout_of :: "u64 \<Rightarrow> u16 list" where
  "dout_of w = map (\<lambda>i. ucast (drop_bit (6 * i) w AND 0x3f)) [0..<8]"

definition GetARQDout :: "'i jobj \<Rightarrow> ('i, u16 list) jc" where
  "GetARQDout E = jbind (read_reg E CMD2_ARQ_READ_DOUT 48 c_pos_fpga (Some 0)) (\<lambda>r. jret (dout_of r))"

definition K7FPGA_GetARQDout :: "'i jobj \<Rightarrow> ('i, u16 list) jc" where
  "K7FPGA_GetARQDout E = jbind (read_reg E K7CMD_ARQ_READ_DOUT 48 c_pos_fpga (Some 0)) (\<lambda>r. jret (dout_of r))"

definition GetARQDout_of :: "'i jobj \<Rightarrow> 2 word \<Rightarrow> ('i, u16 list) jc" where
  "GetARQDout_of E seg = jseq (SetARQMonitorSegment E seg) (GetARQDout E)"

definition high_low :: "u64 \<Rightarrow> u32 \<times> u32" where
  "high_low w = (ucast (drop_bit 32 w), ucast (w AND 0xffffffff))"

definition GetARQCounters :: "'i jobj \<Rightarrow> ('i, u32 \<times> u32) jc" where
  "GetARQCounters E = jbind (read_reg E CMD2_ARQ_READ_COUNT 64 c_pos_fpga (Some 0x110DADA)) (\<lambda>r. jret (high_low r))"

definition K7FPGA_GetARQCounters :: "'i jobj \<Rightarrow> ('i, u32 \<times> u32) jc" where
  "K7FPGA_GetARQCounters E = jbind (read_reg E K7CMD_ARQ_READ_COUNT 64 c_pos_fpga (Some 0x110DADA)) (\<lambda>r. jret (high_low r))"

definition GetARQNetworkDebugReg :: "'i jobj \<Rightarrow> ('i, u32 \<times> u32) jc" where
  "GetARQNetworkDebugReg E = jbind (read_reg E CMD2_ARQ_NETWORK_DEBUG 64 c_pos_fpga None) (\<lambda>r. jret (high_low r))"

definition K7FPGA_GetARQNetworkDebugReg :: "'i jobj \<Rightarrow> ('i, u32 \<times> u32) jc" where
  "K7FPGA_GetARQNetworkDebugReg E = jbind (read_reg E K7CMD_ARQ_NETWORK_DEBUG 64 c_pos_fpga None) (\<lambda>r. jret (high_low r))"

definition GetARQFIFOStatus :: "'i jobj \<Rightarrow> ('i, bool \<times> bool \<times> bool \<times> bool) jc" where
  "GetARQFIFOStatus E = jbind (read_reg E CMD2_ARQ_READ_FIFO_STATUS 20 c_pos_fpga (Some 0)) (\<lambda>r. jret (bit r 0, bit r 1, bit r 2, bit r 3))"

definition GetARQFIFOCount :: "'i jobj \<Rightarrow> ('i, u32 \<times> bool) jc" where
  "GetARQFIFOCount E = jbind (read_reg E CMD2_ARQ_READ_FIFO_STATUS 20 c_pos_fpga (Some 0)) (\<lambda>r. jret (ucast (drop_bit 4 r AND 0x7fff), bit r
    19))"

subsection \<open>Initialising the chain\<close>

text \<open>The end of \<open>initJtagV2\<close>; opening the session and the cable is the parameter \<open>open_session\<close>.\<close>

definition need :: "('i, bool) jc \<Rightarrow> ('i, bool) jc \<Rightarrow> ('i, bool) jc" where
  "need m k = jbind m (\<lambda>ok. if ok then k else jret False)"

definition base_ok :: "('i, unit) acc \<Rightarrow> ('i, bool) jc" where
  "base_ok m = jbind (on_base m) (\<lambda>r. jret (r \<noteq> None))"

fun set_infos :: "'i jobj \<Rightarrow> nat list \<Rightarrow> ('i, bool) jc" where
  "set_infos E [] = jret True"
| "set_infos E (n # ns) = need (base_ok (setDeviceInfo (cable E) (of_nat (n + 1)) (of_nat IRW_HICANN) 0x14849434)) (set_infos E ns)"

fun read_ids :: "'i jobj \<Rightarrow> nat list \<Rightarrow> ('i, unit) jc" where
  "read_ids E [] = jret ()"
| "read_ids E (n # ns) = jseq (read_id E (Some 0) (of_nat n)) (read_ids E ns)"

definition continue_init :: "'i jobj \<Rightarrow> ('i, bool) jc \<Rightarrow> ('i, bool) jc" where
  "continue_init E open_session = need open_session
    (need (jget (\<lambda>c. c_chain_length c = c_hicann_num c + 1))
    (need (\<lambda>c. base_ok (setDeviceCount (cable E) (ucast (c_chain_length c))) c)
    (need (base_ok (setDeviceInfo (cable E) 0 (of_nat IRW_K7FPGA) 0x1c56c007))
    (need (\<lambda>c. set_infos E [0..<unat (c_hicann_num c)] c)
      (jseq (\<lambda>c. read_ids E [0..<unat (c_chain_length c)] c) (jret True))))))"

subsection \<open>A write reaches its chip\<close>

text \<open>
  Bundles for running commands by \<open>simp\<close>. An object is \<open>linked\<close> when its base class is ready for a chain of as many devices as
  it counts itself. A position does not depend on the base class.
\<close>

lemmas jc_simps = jret_def jbind_def jseq_def jmod_def jget_def

definition linked :: "('i \<Rightarrow> bool) \<Rightarrow> 'i cmdbase \<Rightarrow> 'i \<Rightarrow> bool" where
  "linked ok c d = (ready ok (cb c) d \<and> unat (c_chain_length c) = unat (device_count (cb c)) \<and> device_count (cb c) < 32 \<and>
     (\<forall>i < unat (device_count (cb c)). irlens (cb c) ! i \<noteq> 0))"

definition is_position :: "('i cmdbase \<Rightarrow> u32) \<Rightarrow> bool" where
  "is_position pos = (\<forall>c a. pos (c\<lparr>cb := a\<rparr>) = pos c)"

lemma is_position [simp]: "is_position c_pos_fpga" "is_position c_pos_dnc" "is_position c_pos_hicann" "is_position (\<lambda>_. p)"
  by (simp_all add: is_position_def)

definition put_cable :: "'i \<Rightarrow> 'i cmdbase \<Rightarrow> 'i cmdbase" where
  "put_cable d c = c\<lparr>cb := (cb c)\<lparr>jtag_obj := Some d\<rparr>\<rparr>"

lemma put_cable_simps [simp]:
  "put_cable d (put_cable d' c) = put_cable d c" "c_chain_length (put_cable d c) = c_chain_length c" "irlens (cb (put_cable d c)) = irlens (cb c)"
  "device_count (cb (put_cable d c)) = device_count (cb c)" "cb (put_cable d c) = (cb c)\<lparr>jtag_obj := Some d\<rparr>" "device_at (put_cable d c) p = device_at c p"
  "c_nif (put_cable d c) = c_nif c" "c_conf (put_cable d c) = c_conf c" "c_pos_fpga (put_cable d c) = c_pos_fpga c" "c_pos_hicann (put_cable d c) = c_pos_hicann c"
  "c_pos_dnc (put_cable d c) = c_pos_dnc c"
  by (simp_all add: put_cable_def irlens_def device_at_def)

lemma is_position_put: "is_position pos \<Longrightarrow> pos (put_cable d c) = pos c"
  by (simp add: is_position_def put_cable_def)

lemma linked_put: "linked ok c d \<Longrightarrow> ok d' \<Longrightarrow> linked ok (put_cable d' c) d'"
  by (auto simp: linked_def ready_def isXilinxJtag_def isChainValid_def irlens_def)

lemma on_base_yes: "m (cb c) = Some (Yes x, (cb c)\<lparr>jtag_obj := Some d\<rparr>) \<Longrightarrow> on_base m c = Some (Some x, put_cable d c)"
  by (simp add: on_base_def put_cable_def)

text \<open>Devices are numbered from TDI, positions from TDO.\<close>

lemma device_number:
  assumes "linked ok c d" "unat p < unat (c_chain_length c)"
  shows "unat (device_at c p) = unat (device_count (cb c)) - 1 - unat p"
proof -
  have n: "unat (c_chain_length c) < 32" using assms(1) by (simp add: linked_def word_less_nat_alt)
  have q: "unat (ucast p :: u8) = unat p" using assms(2) n by (simp add: unsigned_ucast_eq take_bit_nat_eq_self)
  have b: "unat (ucast (ucast p :: u8) :: u32) = unat p" using q assms(2) n
    by (simp only: unsigned_ucast_eq [of "ucast p :: u8"]) (simp add: take_bit_nat_eq_self)
  have le: "ucast (ucast p :: u8) \<le> c_chain_length c - 1" "1 \<le> c_chain_length c"
    using assms(2) b by (auto simp: word_le_nat_alt unat_sub_if')
  have "unat (c_chain_length c - 1 - ucast (ucast p :: u8)) = unat (c_chain_length c) - 1 - unat p"
    using le b by (auto simp: word_le_nat_alt unat_sub_if')
  moreover have "unat (c_chain_length c) - 1 - unat p < 256" using n by simp
  ultimately show ?thesis using assms(1) by (simp add: device_at_def linked_def unsigned_ucast_eq take_bit_nat_eq_self)
qed

text \<open>
  What the chain gets: the instruction goes to the chip at the position, all others are bypassed; and whatever was in the chain,
  then the register of this chip holds the low bits of the word.
\<close>

definition reg_written :: "'i cmdbase \<Rightarrow> u32 \<Rightarrow> u32 \<Rightarrow> u8 \<Rightarrow> u64 \<Rightarrow> (bool \<times> bool) list \<Rightarrow> (bool \<times> bool) list \<Rightarrow> bool" where
  "reg_written c pos cmd width w ps qs = (let n = unat (c_chain_length c); dev = n - 1 - unat pos in
     tap_run RUN_TEST_IDLE ps = RUN_TEST_IDLE \<and> tap_run RUN_TEST_IDLE (ps @ qs) = RUN_TEST_IDLE \<and>
     chain_load (irlens (cb c)) (clocked_in SHIFT_IR RUN_TEST_IDLE ps) = one_instr (cb c) dev cmd \<and>
     (\<forall>junk. length junk = unat width + (n - 1) \<longrightarrow>
       chain_load ((replicate n 1)[dev := unat width]) (junk @ clocked_in SHIFT_DR RUN_TEST_IDLE qs) ! dev = low_bits w (unat width)))"

context jtag_cable begin

lemma instr_sent:
  assumes "linked ok c d" "cable E = ops" "is_position pos" "unat (pos c) < unat (c_chain_length c)"
  shows "\<exists>d' ps. set_jtag_instr_chain E cmd pos c = Some ((), put_cable d' c) \<and> ok d' \<and> sent d' = sent d @ ps \<and>
    tap_run RUN_TEST_IDLE ps = RUN_TEST_IDLE \<and>
    chain_load (irlens (cb c)) (clocked_in SHIFT_IR RUN_TEST_IDLE ps) = one_instr (cb c) (unat (c_chain_length c) - 1 - unat (pos c)) cmd"
proof -
  let ?dev = "device_at c (pos c)"
  have dev: "unat ?dev = unat (device_count (cb c)) - 1 - unat (pos c)" by (rule device_number [OF assms(1,4)])
  have r: "ready ok (cb c) d" "unat (c_chain_length c) = unat (device_count (cb c))" using assms(1) by (simp_all add: linked_def)
  have l: "unat ?dev < unat (device_count (cb c))" using dev assms(4) r(2) by simp
  have i: "irlens (cb c) ! unat ?dev \<noteq> 0" using assms(1) l by (simp add: linked_def)
  obtain d1 ps where s: "setJtagInstr ops ?dev cmd (cb c) = Some (Yes (), (cb c)\<lparr>jtag_obj := Some d1\<rparr>)" "ok d1" "sent d1 = sent d @ ps"
      "tap_run RUN_TEST_IDLE ps = RUN_TEST_IDLE" "clocked_in SHIFT_IR RUN_TEST_IDLE ps = concat (rev (one_instr (cb c) (unat ?dev) cmd))"
    using setJtagInstr_scan [OF r(1) l i] by blast
  show ?thesis using s instr_loaded dev r(2)
    by (intro exI [of _ d1] exI [of _ ps]) (simp add: set_jtag_instr_chain_def assms(2) jc_simps on_base_yes)
qed

lemma data_sent:
  assumes "linked ok c d" "cable E = ops" "is_position pos" "unat (pos c) < unat (c_chain_length c)" "width \<noteq> 0"
  shows "\<exists>d' qs. set_jtag_data_chain E w width pos c = Some ((), put_cable d' c) \<and> ok d' \<and> sent d' = sent d @ qs \<and>
    tap_run RUN_TEST_IDLE qs = RUN_TEST_IDLE \<and>
    clocked_in SHIFT_DR RUN_TEST_IDLE qs = low_bits w (unat width) @ replicate (unat (c_chain_length c) - 1 - unat (pos c)) False"
proof -
  let ?dev = "device_at c (pos c)"
  have dev: "unat ?dev = unat (device_count (cb c)) - 1 - unat (pos c)" by (rule device_number [OF assms(1,4)])
  have r: "ready ok (cb c) d" "unat (c_chain_length c) = unat (device_count (cb c))" using assms(1) by (simp_all add: linked_def)
  have l: "unat ?dev < unat (device_count (cb c))" using dev assms(4) r(2) by simp
  have u: "unat (ucast width :: u16) = unat width" using unsigned_less [of width, where 'a = nat]
    by (simp add: unsigned_ucast_eq take_bit_nat_eq_self)
  then have n: "(ucast width :: u16) \<noteq> 0" using assms(5) by (metis unat_0 word_unat_eq_iff)
  obtain d1 qs where s: "setJtagData ops ?dev w (ucast width) True (cb c) = Some (Yes (), (cb c)\<lparr>jtag_obj := Some d1\<rparr>)" "ok d1" "sent d1 = sent d @ qs"
      "tap_run RUN_TEST_IDLE qs = RUN_TEST_IDLE" "clocked_in SHIFT_DR RUN_TEST_IDLE qs = low_bits w (unat width) @ replicate (unat ?dev) False"
    using setJtagData_scan [OF r(1) l n, of w True] unfolding u by blast
  show ?thesis using s dev r(2)
    by (intro exI [of _ d1] exI [of _ qs]) (simp add: set_jtag_data_chain_def assms(2) jc_simps on_base_yes)
qed

lemma write_reg_reaches:
  assumes "linked ok c d" "cable E = ops" "is_position pos" "unat (pos c) < unat (c_chain_length c)" "width \<noteq> 0"
  shows "\<exists>d' ps qs. write_reg E cmd width pos w c = Some ((), put_cable d' c) \<and> ok d' \<and> sent d' = sent d @ ps @ qs \<and>
    reg_written c (pos c) cmd width w ps qs"
proof -
  obtain d1 ps where i: "set_jtag_instr_chain E cmd pos c = Some ((), put_cable d1 c)" "ok d1" "sent d1 = sent d @ ps" "tap_run RUN_TEST_IDLE ps = RUN_TEST_IDLE"
      "chain_load (irlens (cb c)) (clocked_in SHIFT_IR RUN_TEST_IDLE ps) = one_instr (cb c) (unat (c_chain_length c) - 1 - unat (pos c)) cmd"
    using instr_sent [OF assms(1-4)] by blast
  let ?c = "put_cable d1 c" let ?n = "unat (c_chain_length c)" let ?dev = "?n - 1 - unat (pos c)"
  have p: "pos ?c = pos c" using assms(3) by (rule is_position_put)
  obtain d2 qs where s: "set_jtag_data_chain E w width pos ?c = Some ((), put_cable d2 ?c)" "ok d2" "sent d2 = sent d1 @ qs" "tap_run RUN_TEST_IDLE qs = RUN_TEST_IDLE"
      "clocked_in SHIFT_DR RUN_TEST_IDLE qs = low_bits w (unat width) @ replicate ?dev False"
    using data_sent [OF linked_put [OF assms(1) i(2)] assms(2,3) _ assms(5), of w] p assms(4) by auto
  have "?dev < ?n" using assms(4) by simp
  then have "chain_load ((replicate ?n 1)[?dev := unat width]) (junk @ clocked_in SHIFT_DR RUN_TEST_IDLE qs) ! ?dev = low_bits w (unat width)"
    if "length junk = unat width + (?n - 1)" for junk
    using chain_load_data [of ?dev ?n junk "low_bits w (unat width)"] that s(5) by simp
  then have "reg_written c (pos c) cmd width w ps qs" using i(4,5) s(4) by (simp add: reg_written_def Let_def)
  then show ?thesis using i(1,3) s(1-3) by (intro exI [of _ d2] exI [of _ ps] exI [of _ qs]) (simp add: write_reg_def jc_simps)
qed

end

subsection \<open>Initialising a Kintex-7 board\<close>

lemma need_True: "m c = Some (True, c') \<Longrightarrow> need m k c = k c'"
  by (simp add: need_def jc_simps)

lemma need_base: "m (cb c) = Some (Yes (), a) \<Longrightarrow> need (base_ok m) k c = k (c\<lparr>cb := a\<rparr>)"
  by (simp add: need_def base_ok_def on_base_def jc_simps)

definition blank_info :: device_info where
  "blank_info = \<lparr>bValid = False, dev_idcode = 0, dev_irlen = 0\<rparr>"

definition fpga_info :: device_info where
  "fpga_info = \<lparr>bValid = True, dev_idcode = 0x1c56c007, dev_irlen = 4\<rparr>"

definition hicann_info :: device_info where
  "hicann_info = \<lparr>bValid = True, dev_idcode = 0x14849434, dev_irlen = 6\<rparr>"

text \<open>The table after \<open>k\<close> HICANNs were entered.\<close>

definition infos :: "nat \<Rightarrow> device_info list" where
  "infos k = fpga_info # replicate k hicann_info @ replicate (255 - k) blank_info"

lemma infos_0: "(replicate 256 blank_info)[0 := fpga_info] = infos 0"
  by (simp add: infos_def numeral_eq_Suc)

lemma infos_Suc: "k < 255 \<Longrightarrow> (infos k)[Suc k := hicann_info] = infos (Suc k)"
  using replicate_upd [of k "254 - k" hicann_info]
  by (auto simp: infos_def list_update_append replicate_append_same Suc_diff_Suc simp flip: replicate_Suc replicate_app_Cons_same
    intro!: nth_equalityI simp: nth_append nth_list_update nth_Cons')

lemma fold_infos: "n \<le> 255 \<Longrightarrow> fold (\<lambda>i ds. ds[Suc i := hicann_info]) [0..<n] (infos 0) = infos n"
  by (induction n) (simp_all add: infos_Suc)

context jtag_cable begin

lemma count_set:
  assumes "jtag_obj a = Some d" "ok d" "\<not> isXilinxJtag a"
  shows "setDeviceCount ops n a = Some (Yes (), a\<lparr>device_count := ucast n, jtag_devices := replicate 256 blank_info\<rparr>)"
  using assms is_open by (simp add: setDeviceCount_def acheck_def checkCable_def aret_def blank_info_def)

lemma info_set:
  assumes "jtag_obj a = Some d" "ok d" "\<not> isXilinxJtag a" "unat dev < unat (device_count a)"
  shows "setDeviceInfo ops dev irlen idcode a =
    Some (Yes (), a\<lparr>jtag_devices := (jtag_devices a)[unat dev := \<lparr>bValid = True, dev_idcode = idcode, dev_irlen = irlen\<rparr>]\<rparr>)"
  using assms is_open by (simp add: setDeviceInfo_def acheck_def checkCable_def aret_def isDeviceValid_def)

lemma infos_set:
  assumes "jtag_obj (cb c) = Some d" "ok d" "\<not> isXilinxJtag (cb c)" "cable E = ops" "\<forall>i\<in>set is. Suc i < unat (device_count (cb c))"
    "unat (device_count (cb c)) < 256"
  shows "set_infos E is c = Some (True, c\<lparr>cb := (cb c)\<lparr>jtag_devices := fold (\<lambda>i ds. ds[Suc i := hicann_info]) is (jtag_devices (cb c))\<rparr>\<rparr>)"
  using assms
proof (induction "is" arbitrary: c)
  case (Cons i "is")
  let ?a = "(cb c)\<lparr>jtag_devices := (jtag_devices (cb c))[Suc i := hicann_info]\<rparr>"
  have u: "unat (of_nat (i + 1) :: u8) = Suc i" using Cons.prems(5,6) by (simp only: unsigned_of_nat) (simp add: take_bit_nat_eq_self)
  have "setDeviceInfo (cable E) (of_nat (i + 1)) (of_nat IRW_HICANN) 0x14849434 (cb c) = Some (Yes (), ?a)"
    using info_set [OF Cons.prems(1-3), of "of_nat (i + 1)"] Cons.prems(4,5) u by (simp add: hicann_info_def IRW_HICANN_def)
  note s = need_base [where m = "setDeviceInfo (cable E) (of_nat (i + 1)) (of_nat IRW_HICANN) 0x14849434" and c = c, OF this]
  have "set_infos E is (c\<lparr>cb := ?a\<rparr>) = Some (True, c\<lparr>cb := ?a\<lparr>jtag_devices := fold (\<lambda>i ds. ds[Suc i := hicann_info]) is (jtag_devices ?a)\<rparr>\<rparr>)"
    using Cons.IH [of "c\<lparr>cb := ?a\<rparr>"] Cons.prems by (simp add: isXilinxJtag_def)
  then show ?case by (simp only: set_infos.simps s) simp
qed (simp add: jc_simps)

end

lemma instr_sent_eth:
  assumes "linked (eth_ok env) c d" "cable E = eth_ops env" "is_position pos" "unat (pos c) < unat (c_chain_length c)"
  shows "\<exists>d' ps. set_jtag_instr_chain E cmd pos c = Some ((), put_cable d' c) \<and> eth_ok env d' \<and> eth_stream d' = eth_stream d @ ps \<and>
    chain_load (irlens (cb c)) (clocked_in SHIFT_IR RUN_TEST_IDLE ps) = one_instr (cb c) (unat (c_chain_length c) - 1 - unat (pos c)) cmd"
  using et.instr_sent [OF assms, of cmd] by blast

text \<open>A register read over Ethernet: the bits the chain puts out behind those of the chips nearer to TDO.\<close>

lemma read_reg_eth:
  assumes "chain_link tdo env" "linked (eth_ok env) c d" "cable E = eth_ops env" "is_position pos" "unat (pos c) < unat (c_chain_length c)"
    "width \<noteq> 0" "unat width \<le> 64" "unat width + unat (pos c) \<le> 72"
  shows "\<exists>v d' ps. read_reg E cmd width pos old c = Some (v, put_cable d' c) \<and> eth_ok env d' \<and>
    chain_load (irlens (cb c)) (clocked_in SHIFT_IR RUN_TEST_IDLE ps) = one_instr (cb c) (unat (c_chain_length c) - 1 - unat (pos c)) cmd \<and>
    eth_stream d' = eth_stream d @ ps @ dr_pairs False [] (unat width + unat (pos c)) \<and>
    (\<forall>j<64. bit v j = (j < unat width \<and> chain_output tdo (eth_stream d @ ps) (unat width + unat (pos c)) ! (unat (pos c) + j)))"
proof -
  obtain d1 ps where i: "set_jtag_instr_chain E cmd pos c = Some ((), put_cable d1 c)" "eth_ok env d1" "eth_stream d1 = eth_stream d @ ps"
      "chain_load (irlens (cb c)) (clocked_in SHIFT_IR RUN_TEST_IDLE ps) = one_instr (cb c) (unat (c_chain_length c) - 1 - unat (pos c)) cmd"
    using instr_sent_eth [OF assms(2-5)] by blast
  let ?c = "put_cable d1 c" let ?dev = "device_at c (pos c)"
  have l: "linked (eth_ok env) ?c d1" using assms(2) i(2) by (rule linked_put)
  have p: "pos ?c = pos c" using assms(4) by (rule is_position_put)
  have r: "ready (eth_ok env) (cb ?c) d1" "device_count (cb ?c) < 32" using l by (simp_all only: linked_def)
  have dev: "unat (device_count (cb ?c)) = Suc (unat ?dev + unat (pos c))"
    using device_number [OF assms(2,5)] assms(2,5) by (simp add: linked_def)
  have u: "unat (ucast width :: u16) = unat width" using unsigned_less [of width, where 'a = nat]
    by (simp add: unsigned_ucast_eq take_bit_nat_eq_self)
  then have n: "(ucast width :: u16) \<noteq> 0" using assms(6) by (metis unat_0 word_unat_eq_iff)
  have w: "unat (ucast width :: u16) \<le> LENGTH(64)" "unat (ucast width :: u16) \<le> 64" "unat (ucast width :: u16) + unat (pos c) \<le> 72"
    using assms(7,8) u by simp_all
  obtain v :: u64 and d2 where g: "getJtagData (eth_ops env) (stack E) ?dev (ucast width) (cb ?c) = Some (Yes v, (cb ?c)\<lparr>jtag_obj := Some d2\<rparr>)" "eth_ok env d2"
      "eth_stream d2 = eth_stream d1 @ dr_pairs False [] (unat width + unat (pos c))"
      "\<forall>j<64. bit v j = (j < unat width \<and> chain_output tdo (eth_stream d1) (unat width + unat (pos c)) ! (unat (pos c) + j))"
    using eth_read_data [OF assms(1) r(1) dev r(2) n w, of "stack E"] unfolding u by auto
  have "read_reg E cmd width pos old c = Some (v, put_cable d2 c)"
    using i(1) g(1) p by (simp add: read_reg_def jc_simps get_jtag_data_chain_def assms(3) on_base_yes kept_def del: put_cable_simps(5))
  then show ?thesis using i(4,3) g(2-4) by (intro exI [of _ v] exI [of _ d2] exI [of _ ps]) simp
qed

lemma ids_read:
  assumes "chain_link tdo env" "linked (eth_ok env) c d" "cable E = eth_ops env" "\<forall>i\<in>set is. i < unat (c_chain_length c)"
  shows "\<exists>d'. read_ids E is c = Some ((), put_cable d' c) \<and> eth_ok env d'"
  using assms(2,4)
proof (induction "is" arbitrary: c d)
  case Nil
  then have "jtag_obj (cb c) = Some d" "eth_ok env d" by (simp_all add: linked_def ready_def)
  moreover from this have "put_cable d c = c" by (simp add: put_cable_def)
  ultimately show ?case by (intro exI [of _ d]) (simp add: jc_simps)
next
  case (Cons i "is")
  have "unat (c_chain_length c) < 32" using Cons.prems(1) by (simp add: linked_def word_less_nat_alt)
  then have i: "i < 32" "i < unat (c_chain_length c)" using Cons.prems(2) by simp_all
  have u: "unat (ucast (of_nat i :: u8) :: u32) = i" using i(1) by (simp add: unsigned_ucast_eq unsigned_of_nat take_bit_nat_eq_self)
  obtain v d1 where r: "read_reg E CMD_READID 32 (\<lambda>_. ucast (of_nat i :: u8)) (Some 0) c = Some (v, put_cable d1 c)" "eth_ok env d1"
    using read_reg_eth [OF assms(1) Cons.prems(1) assms(3), of "\<lambda>_. ucast (of_nat i :: u8)" 32 CMD_READID "Some 0"] u i by auto
  obtain d2 where d2: "read_ids E is (put_cable d1 c) = Some ((), put_cable d2 (put_cable d1 c))" "eth_ok env d2"
    using Cons.IH [OF linked_put [OF Cons.prems(1) r(2)]] Cons.prems(2) by auto
  then show ?case using r by (intro exI [of _ d2]) (simp add: read_id_def jc_simps)
qed

text \<open>The object after initialisation, but for the cable.\<close>

definition with_chain :: "'i cmdbase \<Rightarrow> 'i cmdbase" where
  "with_chain c = c\<lparr>cb := (cb c)\<lparr>device_count := ucast (c_chain_length c), jtag_devices := infos (unat (c_hicann_num c))\<rparr>\<rparr>"

lemma infos_chain:
  assumes "n \<le> 255"
  shows "take (Suc n) (infos n) = fpga_info # replicate n hicann_info" "length (infos n) = 256"
  using assms by (simp_all add: infos_def)

lemma with_chain_linked:
  assumes "jtag_obj (cb c) = Some d" "ok d" "\<not> isXilinxJtag (cb c)" "c_chain_length c = c_hicann_num c + 1" "unat (c_hicann_num c) \<le> 30"
  shows "linked ok (with_chain c) d" "irlens (cb (with_chain c)) = 4 # replicate (unat (c_hicann_num c)) 6"
    "unat (device_count (cb (with_chain c))) = Suc (unat (c_hicann_num c))" "unat (c_chain_length (with_chain c)) = Suc (unat (c_hicann_num c))"
proof -
  let ?n = "unat (c_hicann_num c)"
  show l: "unat (c_chain_length (with_chain c)) = Suc ?n" using assms(4,5) by (simp add: with_chain_def unat_word_ariths)
  have u: "unat (ucast (c_chain_length c) :: u16) = Suc ?n" using l assms(5) by (simp add: with_chain_def unsigned_ucast_eq take_bit_nat_eq_self)
  then show dc: "unat (device_count (cb (with_chain c))) = Suc ?n" by (simp add: with_chain_def)
  have tk: "take (Suc ?n) (infos ?n) = fpga_info # replicate ?n hicann_info" using assms(5) by (intro infos_chain) simp
  show ir: "irlens (cb (with_chain c)) = 4 # replicate ?n 6"
    using dc tk by (simp add: irlens_def with_chain_def fpga_info_def hicann_info_def)
  have "isChainValid (cb (with_chain c))" using dc tk
    by (auto simp: isChainValid_def with_chain_def fpga_info_def hicann_info_def list_all_iff)
  moreover have "length (infos ?n) = 256" using assms(5) by (intro infos_chain) simp
  ultimately have "ready ok (cb (with_chain c)) d"
    using assms(1-3,5) dc ir by (simp add: ready_def) (simp add: with_chain_def isXilinxJtag_def sum_list_replicate)
  moreover have "irlens (cb (with_chain c)) ! i \<noteq> 0" if "i < Suc ?n" for i using that ir by (cases i) simp_all
  moreover have "device_count (cb (with_chain c)) < 32" using dc assms(5) by (simp add: word_less_nat_alt)
  ultimately show "linked ok (with_chain c) d" using dc l by (simp add: linked_def)
qed

lemma continue_init_links:
  assumes "chain_link tdo env" "cable E = eth_ops env" "open_session c = Some (True, ci)" "jtag_obj (cb ci) = Some d" "eth_ok env d"
    "\<not> isXilinxJtag (cb ci)" "c_chain_length ci = c_hicann_num ci + 1" "unat (c_hicann_num ci) \<le> 30"
  shows "\<exists>d'. continue_init E open_session c = Some (True, put_cable d' (with_chain ci)) \<and> eth_ok env d' \<and> linked (eth_ok env) (put_cable d' (with_chain ci)) d'"
proof -
  let ?n = "unat (c_hicann_num ci)" let ?a = "cb ci"
  let ?a1 = "?a\<lparr>device_count := ucast (c_chain_length ci), jtag_devices := replicate 256 blank_info\<rparr>"
  let ?a2 = "?a1\<lparr>jtag_devices := infos 0\<rparr>"
  note w = with_chain_linked [where ok = "eth_ok env" and c = ci and d = d, OF assms(4-8)]
  have dc: "unat (ucast (c_chain_length ci) :: u16) = Suc ?n" using w(3) by (simp add: with_chain_def)
  have "unat (ucast (c_chain_length ci) :: u8) = Suc ?n" using w(4) assms(8) by (simp add: unsigned_ucast_eq take_bit_nat_eq_self with_chain_def)
  then have "unat (ucast (ucast (c_chain_length ci) :: u8) :: u16) = Suc ?n" using assms(8)
    by (simp only: unsigned_ucast_eq [of "ucast (c_chain_length ci) :: u8"]) (simp add: take_bit_nat_eq_self)
  then have nar: "(ucast (ucast (c_chain_length ci) :: u8) :: u16) = ucast (c_chain_length ci)" using dc by (simp only: word_unat_eq_iff)
  have "setDeviceCount (cable E) (ucast (c_chain_length ci)) (cb ci) = Some (Yes (), ?a1)"
    using et.count_set [where a = "cb ci" and d = d and E = env, OF assms(4-6), of "ucast (c_chain_length ci)"] assms(2) nar by simp
  note s1 = need_base [where m = "setDeviceCount (cable E) (ucast (c_chain_length ci))" and c = ci, OF this]
  have "setDeviceInfo (cable E) 0 (of_nat IRW_K7FPGA) 0x1c56c007 (cb (ci\<lparr>cb := ?a1\<rparr>)) = Some (Yes (), ?a2)"
    using et.info_set [of ?a1 d env 0] assms(2,4-6) dc infos_0 by (simp add: isXilinxJtag_def IRW_K7FPGA_def fpga_info_def)
  note s2 = need_base [where m = "setDeviceInfo (cable E) 0 (of_nat IRW_K7FPGA) 0x1c56c007" and c = "ci\<lparr>cb := ?a1\<rparr>", OF this]
  have s3: "set_infos E [0..<?n] (ci\<lparr>cb := ?a2\<rparr>) = Some (True, with_chain ci)"
    using et.infos_set [of "ci\<lparr>cb := ?a2\<rparr>" d env E "[0..<?n]"] assms(2,4-6,8) dc fold_infos [of ?n]
    by (simp add: isXilinxJtag_def with_chain_def)
  obtain d' where r: "read_ids E [0..<unat (c_chain_length ci)] (with_chain ci) = Some ((), put_cable d' (with_chain ci))" "eth_ok env d'"
    using ids_read [OF assms(1) w(1) assms(2), of "[0..<unat (c_chain_length ci)]"] by (auto simp: with_chain_def)
  have "continue_init E open_session c = Some (True, put_cable d' (with_chain ci))"
  proof -
    have "need (jget (\<lambda>c. c_chain_length c = c_hicann_num c + 1)) k ci = k ci" for k :: "(ethernet, bool) jc"
      using assms(7) by (simp add: need_def jc_simps)
    moreover have "c_hicann_num (ci\<lparr>cb := a\<rparr>) = c_hicann_num ci" for a by simp
    moreover have "c_chain_length (with_chain ci) = c_chain_length ci" by (simp add: with_chain_def)
    moreover have "need (\<lambda>c. base_ok (setDeviceCount (cable E) (ucast (c_chain_length c))) c) k ci = k (ci\<lparr>cb := ?a1\<rparr>)" for k
      using s1 [of k] by (simp add: need_def jbind_def)
    moreover have "need (\<lambda>c. set_infos E [0..<unat (c_hicann_num c)] c) k (ci\<lparr>cb := ?a2\<rparr>) = k (with_chain ci)" for k
      using s3 by (simp add: need_def jc_simps)
    ultimately show ?thesis using r(1) s2 unfolding continue_init_def need_True [where m = open_session and c = c, OF assms(3)]
      by (simp add: jc_simps)
  qed
  then show ?thesis using r(2) linked_put [OF w(1) r(2)] by blast
qed

lemma cmdbase_k7:
  "c_hicann_num (jtag_cmdbase True False n p k7 a) = n" "c_chain_length (jtag_cmdbase True False n p k7 a) = n + 1"
  "c_pos_fpga (jtag_cmdbase True False n p k7 a) = n" "c_pos_hicann (jtag_cmdbase True False n p k7 a) = p"
  "cb (jtag_cmdbase f d n p k7 a) = a"
  by (simp_all add: jtag_cmdbase_def jtag_cmdbase_init_def Let_def add.commute)


text \<open>Two HICANNs; the first test register of the one at position 0 is written.\<close>

definition demo_jobj :: "((bool \<times> bool) list \<Rightarrow> bool) \<Rightarrow> ethernet jobj" where
  "demo_jobj tdo = \<lparr>cable = eth_ops (demo_env tdo), stack = []\<rparr>"

definition demo_open :: "(ethernet, bool) jc" where
  "demo_open c = Some (True, c\<lparr>cb := demo_eth_access\<rparr>)"


end
