(* ===== verification/Bringup.thy ===== *)
theory Bringup
  imports Ctrlmod "HOL-Library.Sublist"
begin

text \<open>
  Bringing up the fast links between an FPGA and its HICANNs (\<open>s2c_jtagphys_2fpga.cpp\<close>, and the
  initialisations of \<open>s2c_jtagphys_2fpga_arq.cpp\<close>), for the Kintex-7 boards and the older ones with a DNC, built with
  \<open>DNC_V = 2\<close>. Every command of the JTAG object is an entry of a log; what a read returns is the environment's
  answer to the log. The results: an initialisation that reports success has all requested links up and their test
  transmissions without an error; it ends after at most ten attempts; on the older boards it then switches off the
  interfaces it has just brought up.
\<close>

subsection \<open>The JTAG object\<close>

text \<open>The commands used, by the names of the member functions.\<close>

datatype jcall =
    Set_hicann_pos nat
  | Read_id nat
  | HICANN_set_reset u32 | HICANN_set_test u32 | HICANN_set_link_ctrl u32 | HICANN_set_GHz_pll_ctrl u32
  | HICANN_lvds_pads_en u32 | HICANN_set_bias u32 | HICANN_start_link | HICANN_stop_link | HICANN_read_status
  | HICANN_set_tx_data u64 | HICANN_start_cfg_pkg | HICANN_get_rx_data
  | HICANN_arq_write_rx_timeout u16 u16 | HICANN_arq_write_tx_timeout u16 u16 | HICANN_arq_write_ctrl u32 u32
  | DNC_set_timestamp_ctrl u32 | DNC_set_GHz_pll_ctrl u32 | DNC_start_link u32 | DNC_stop_link u32 | DNC_set_lowspeed_ctrl u32
  | DNC_set_loopback u32 | DNC_lvds_pads_en u32 | DNC_set_init_ctrl u32 | DNC_set_speed_detect_ctrl u32 | DNC_read_channel_sts nat
  | FPGA_set_fpga_ctrl u32 | FPGA_testmode u32 | FPGA_start_pulse_event nat u64 | FPGA_get_rx_data | FPGA_get_status
  | FPGA_start_dnc_packet u32 | FPGA_start_config_packet nat u64 | FPGA_get_rx_packet nat
  | K7FPGA_set_hicannif nat | K7FPGA_disable_config_output | K7FPGA_enable_config_output | K7FPGA_set_tx_data u64
  | K7FPGA_set_control u32 | K7FPGA_get_rx_cfg | K7FPGA_stop_fpga_link | K7FPGA_start_fpga_link | K7FPGA_invert_rx_data bool
  | K7FPGA_get_hicannif_status | K7FPGA_set_hicannif_config u32
  | SetARQTimings u32 u32 u32
  | Fpga_reset u32
  | Reset_software_arq

text \<open>
  The members used of \<open>S2C_JtagPhys2Fpga\<close>, its bases and its JTAG object. \<open>chain_length\<close> is what that object counts: the
  HICANNs, the FPGA and, on the older boards, the DNC. \<open>fpga_arq\<close> is the object's class, \<open>S2C_JtagPhys2FpgaArq\<close> or its
  base, which the virtual calls ask for. Links are numbered by the bits of a byte.
\<close>

record bringup =
  jlog :: "jcall list"
  jenv :: "jcall list \<Rightarrow> u64"
  fpga_arq :: bool
  k7fpga :: bool
  chain_length :: nat
  num_hicanns :: nat
  pos_fpga :: nat
  dnc2jtag_lut :: "nat \<rightharpoonup> nat"
  jtag2dnc_lut :: "nat \<rightharpoonup> nat"
  running_on_reticle :: bool
  fpga_dnc_inited :: bool
  l2_link_state :: u8
  test_transmissions_done :: bool
  link_states :: u8
  trans_count :: nat
  hicann_ack_timeout :: "u16 \<times> u16"
  hicann_resend_timeout :: "u16 \<times> u16"
  disable_multiple_test_transmissions :: bool

definition jdo :: "jcall \<Rightarrow> (bringup, unit) hal" where
  "jdo c = hmodify (\<lambda>s. s\<lparr>jlog := jlog s @ [c]\<rparr>)"

definition jread :: "jcall \<Rightarrow> (bringup, u64) hal" where
  "jread c = hseq (jdo c) (hget (\<lambda>s. jenv s (jlog s)))"

definition jdos :: "jcall list \<Rightarrow> (bringup, unit) hal" where
  "jdos cs = hfor cs jdo"

definition dnc2jtag :: "nat \<Rightarrow> (bringup, nat) hal" where
  "dnc2jtag d = (\<lambda>s. case dnc2jtag_lut s d of None \<Rightarrow> (Inl Assertion_failed, s) | Some j \<Rightarrow> (Inr j, s))"

definition upd_links :: "nat \<Rightarrow> bool \<Rightarrow> bringup \<Rightarrow> bringup" where
  "upd_links i b s = s\<lparr>link_states := (if b then set_bit i else unset_bit i) (link_states s)\<rparr>"

subsection \<open>Kintex-7: one link after the other\<close>

text \<open>Up to ten polls, \<open>r\<close> of them left; the result is the number left when both ends report a running link, or none.\<close>

primrec poll_link :: "nat \<Rightarrow> u64 \<Rightarrow> u64 \<Rightarrow> (bringup, nat) hal" where
  "poll_link 0 state2 link_state = hret 0"
| "poll_link (Suc r) state2 link_state =
    (if state2 AND 0x49 \<noteq> 0x49 \<or> link_state AND 0x49 \<noteq> 0x49 then
       hbind (jread HICANN_read_status) (\<lambda>state2. hbind (jread K7FPGA_get_hicannif_status) (\<lambda>status. poll_link r state2 (status AND 0xff)))
     else hret (Suc r))"

text \<open>The result is false when the chip does not identify itself.\<close>

definition init_link :: "nat \<Rightarrow> (bringup, bool) hal" where
  "init_link hicannnr = hbind (dnc2jtag hicannnr) (\<lambda>j.
     hseq (jdos [K7FPGA_set_hicannif hicannnr, Set_hicann_pos j]) (hbind (jread (Read_id j)) (\<lambda>jtagid.
       if jtagid \<noteq> 0x14849434 then hret False
       else
         hseq (jdos [K7FPGA_stop_fpga_link, HICANN_stop_link])
        (hseq (\<lambda>s. hwhen (running_on_reticle s \<and> hicannnr = 3) (jdo (K7FPGA_invert_rx_data True)) s)
        (hbind (jread K7FPGA_get_hicannif_status) (\<lambda>status.
         hseq (jdos [HICANN_set_link_ctrl 0x061, K7FPGA_set_hicannif_config 0x00c, HICANN_lvds_pads_en 0, HICANN_start_link, K7FPGA_start_fpga_link])
        (hbind (poll_link 10 0 (status AND 0xff)) (\<lambda>r.
         hseq (hmodify (upd_links hicannnr (r \<noteq> 0))) (hret True)))))))))"

text \<open>The links of \<open>is\<close> that are requested; the first chip without its identification ends the loop with an empty set.\<close>

primrec init_links :: "nat list \<Rightarrow> u8 \<Rightarrow> (bringup, u8) hal" where
  "init_links [] hicann = hget link_states"
| "init_links (i # is) hicann =
    (if bit hicann i then hbind (init_link i) (\<lambda>ok. if ok then init_links is hicann else hret 0) else init_links is hicann)"

definition fpga_hicann_init :: "u8 \<Rightarrow> (bringup, u8) hal" where
  "fpga_hicann_init hicann = (\<lambda>s. hbind (jread (Read_id (pos_fpga s))) (\<lambda>jtagid.
     if jtagid \<noteq> 0x1c56c007 then hthrow Runtime_error else init_links [0..<8] hicann) s)"

subsection \<open>Boards with a DNC\<close>

definition hicann_count :: "bringup \<Rightarrow> nat" where
  "hicann_count s = (if k7fpga s then chain_length s - 1 else chain_length s - 2)"

definition dnc_shutdown :: "(bringup, unit) hal" where
  "dnc_shutdown = jdos [DNC_set_GHz_pll_ctrl 0xe, DNC_stop_link 0x1ff, DNC_set_lowspeed_ctrl 0, DNC_set_loopback 0, DNC_lvds_pads_en 0x1ff,
     DNC_set_init_ctrl 0xffff, DNC_set_speed_detect_ctrl 0, DNC_set_GHz_pll_ctrl 0]"

definition hicann_shutdown :: "(bringup, unit) hal" where
  "hicann_shutdown = jdos [HICANN_set_reset 1, HICANN_set_GHz_pll_ctrl 7, HICANN_set_link_ctrl 0x141, HICANN_stop_link, HICANN_set_test 0,
     HICANN_lvds_pads_en 1, HICANN_set_reset 0, HICANN_set_bias 0x10, HICANN_set_GHz_pll_ctrl 0]"

text \<open>Up to ten polls of the link between FPGA and DNC.\<close>

primrec poll_dnc :: "nat \<Rightarrow> u8 \<Rightarrow> u64 \<Rightarrow> (bringup, nat) hal" where
  "poll_dnc 0 state1 state2 = hret 0"
| "poll_dnc (Suc r) state1 state2 =
    (if state1 AND 1 = 0 \<or> state2 AND 1 = 0 then
       hbind (jread (DNC_read_channel_sts 8)) (\<lambda>st1. hbind (jread FPGA_get_status) (\<lambda>st2. poll_dnc r (ucast st1) st2))
     else hret (Suc r))"

text \<open>One round over the links in \<open>no_init\<close>: restart them, and take out those that run.\<close>

primrec check_links :: "nat \<Rightarrow> nat list \<Rightarrow> u32 \<Rightarrow> (bringup, u32) hal" where
  "check_links n [] no_init = hret no_init"
| "check_links n (i # is) no_init =
    (if bit no_init i then
       hbind (jread (DNC_read_channel_sts (n - 1 - i))) (\<lambda>st1.
       hseq (jdo (Set_hicann_pos i)) (hbind (jread HICANN_read_status) (\<lambda>st2.
         check_links n is (if (ucast st1 :: u8) AND 0x73 = 0x41 \<and> st2 AND 0x73 = 0x41
           then no_init AND (NOT (push_bit i 1) AND 0xff) else no_init))))
     else check_links n is no_init)"

definition restart_links :: "nat \<Rightarrow> u32 \<Rightarrow> (bringup, u32) hal" where
  "restart_links n no_init =
     hseq (hfor [0..<n] (\<lambda>i. hwhen (bit no_init i) (jdos [Set_hicann_pos i, HICANN_stop_link])))
    (hseq (jdo (DNC_stop_link (no_init AND 0xff)))
    (hseq (hfor [0..<n] (\<lambda>i. hwhen (bit no_init i) (jdos [Set_hicann_pos i, HICANN_start_link])))
    (hseq (jdo (DNC_start_link (0x100 + (no_init AND 0xff))))
     (check_links n [0..<n] no_init))))"

primrec restart_rounds :: "nat \<Rightarrow> nat \<Rightarrow> u32 \<Rightarrow> (bringup, u32) hal" where
  "restart_rounds 0 n no_init = hret no_init"
| "restart_rounds (Suc r) n no_init = (if no_init \<noteq> 0 then hbind (restart_links n no_init) (restart_rounds r n) else hret no_init)"

definition initAllConnections :: "(bringup, u32) hal" where
  "initAllConnections = (\<lambda>s. let n = chain_length s - 2 in
     hseq (jdos [DNC_start_link 0x100, FPGA_start_dnc_packet (push_bit 9 1 + 0x100)])
    (hbind (poll_dnc 10 0 0) (\<lambda>r.
     if r = 0 then hseq (jdos [DNC_stop_link 0x1ff, FPGA_start_dnc_packet (push_bit 9 1)]) (hret 0)
     else
       hseq (jdos [DNC_set_lowspeed_ctrl 0xff, DNC_set_speed_detect_ctrl 0])
      (hseq (hfor [0..<n] (\<lambda>i. jdos [Set_hicann_pos i, HICANN_set_link_ctrl 0x061]))
      (hbind (restart_rounds 10 n (NOT (push_bit n 0xff) AND 0xff)) (\<lambda>no_init.
       hseq (hwhen (no_init \<noteq> 0) (hfor [0..<n] (\<lambda>i. hwhen (bit no_init i) (hseq (jdo (Set_hicann_pos i)) hicann_shutdown))))
         (hret (0x100 + (NOT no_init AND (push_bit n 1 - 1))))))))) s)"

text \<open>Nine bits: the links of the HICANNs and, highest, that of the DNC. The connection that already runs is only looked at.\<close>

primrec collect_links :: "nat list \<Rightarrow> u32 \<Rightarrow> (bringup, u32) hal" where
  "collect_links [] result = hret result"
| "collect_links (i # is) result = hseq (jdo (Set_hicann_pos i))
     (hbind (jread (DNC_read_channel_sts i)) (\<lambda>st1. hbind (jread HICANN_read_status) (\<lambda>st2.
        let dnc1 = ucast st1 :: u8 in
        collect_links is (if dnc1 AND 1 \<noteq> 0 \<and> st2 AND 1 \<noteq> 0 \<and> ucast (dnc1 AND 8) = st2 AND 8
          then result OR push_bit i 1 else result))))"

text \<open>The states read for the log before the start are commands as well.\<close>

definition log_states :: "(bringup, unit) hal" where
  "log_states = (\<lambda>s. hseq (jdos [FPGA_get_status, DNC_read_channel_sts 8])
     (hfor [0..<chain_length s - 2] (\<lambda>i. jdos [Set_hicann_pos i, DNC_read_channel_sts i, HICANN_read_status])) s)"

definition fpga_dnc_init :: "(bringup, u32) hal" where
  "fpga_dnc_init = (\<lambda>s. let n = chain_length s - 2 in
     hbind (jread FPGA_get_status) (\<lambda>fpga. hbind (jread (DNC_read_channel_sts 8)) (\<lambda>dnc0.
     if fpga AND 1 \<noteq> 0 \<and> (ucast dnc0 :: u8) AND 1 \<noteq> 0 then
       hseq (hmodify (\<lambda>s. s\<lparr>fpga_dnc_inited := True\<rparr>)) (collect_links [0..<n] (push_bit 8 1))
     else
       hbind (\<lambda>s. jread (Read_id (pos_fpga s)) s) (\<lambda>jtagid.
       if jtagid \<noteq> 0xbabebeef then hthrow Runtime_error
       else
         hseq (jdos [DNC_stop_link 0x1ff, FPGA_start_dnc_packet (push_bit 9 1)])
        (hseq (hfor [0..<n] (\<lambda>i. jdos [Set_hicann_pos i, HICANN_stop_link]))
        (hseq log_states
        (hbind initAllConnections (\<lambda>inits.
           let result = inits AND 0x1ff in
           hseq (hmodify (\<lambda>s. if 1 < length (filter (bit result) [0..<9]) then s\<lparr>l2_link_state := 0x49, fpga_dnc_inited := True\<rparr>
                              else s\<lparr>l2_link_state := 0x0a, fpga_dnc_inited := False\<rparr>))
             (hret result)))))))) s)"

subsection \<open>Packets over the JTAG chain\<close>

text \<open>The two ways to a HICANN, with \<open>DNC_V = 2\<close>.\<close>

definition Send_packet :: "nat \<Rightarrow> u64 \<Rightarrow> (bringup, unit) hal" where
  "Send_packet a w = (\<lambda>s. if l2_link_state s AND 0x49 = 0x41
     then hbind (dnc2jtag a) (\<lambda>j. jdo (FPGA_start_config_packet j w)) s
     else jdos [Set_hicann_pos a, HICANN_set_test 0xc, HICANN_set_tx_data w, HICANN_start_cfg_pkg, HICANN_set_test 0] s)"

definition Receive_packet :: "nat \<Rightarrow> (bringup, u64) hal" where
  "Receive_packet a = (\<lambda>s. if l2_link_state s AND 0x49 = 0x41
     then hbind (dnc2jtag a) (\<lambda>j. jread (FPGA_get_rx_packet j)) s
     else hseq (jdo (Set_hicann_pos a)) (jread HICANN_get_rx_data) s)"

text \<open>What was received last is only kept by the software link layers. The class with the FPGA's ARQ overrides this by
  nothing.\<close>

definition Clear :: "(bringup, unit) hal" where
  "Clear = (\<lambda>s. if fpga_arq s then (Inr (), s) else hfor [0..<num_hicanns s] (\<lambda>hc. hvoid (Receive_packet hc)) s)"

text \<open>The packet to the FPGA's reset port, in host order.\<close>

definition fpga_reset_word :: "bool \<Rightarrow> bool \<Rightarrow> bool \<Rightarrow> bool \<Rightarrow> bool \<Rightarrow> u32" where
  "fpga_reset_word enable_core enable_fpgadnc enable_ddr2onboard enable_ddr2sodimm enable_arq = 0x55000000
     OR (if enable_core then 1 else 0) OR (if enable_fpgadnc then 2 else 0) OR (if enable_ddr2onboard then 4 else 0)
     OR (if enable_ddr2sodimm then 8 else 0) OR (if enable_arq then 0x10 else 0)"

definition set_fpga_reset :: "bool \<Rightarrow> bool \<Rightarrow> bool \<Rightarrow> bool \<Rightarrow> bool \<Rightarrow> (bringup, unit) hal" where
  "set_fpga_reset core fpgadnc ddr2onboard ddr2sodimm arq = jdo (Fpga_reset (fpga_reset_word core fpgadnc ddr2onboard ddr2sodimm arq))"

definition reset_hicann_arq :: "u8 \<Rightarrow> bool \<Rightarrow> (bringup, unit) hal" where
  "reset_hicann_arq hicann release_reset =
     hseq (set_fpga_reset False False False False True) (hseq (jdo Reset_software_arq)
    (hseq (hfor [0..<8] (\<lambda>i. hwhen (bit hicann i) (hbind (dnc2jtag i) (\<lambda>j.
       hseq (jdos [Set_hicann_pos j, HICANN_arq_write_ctrl 1 1]) (hwhen release_reset (jdo (HICANN_arq_write_ctrl 0 0)))))))
     (hwhen release_reset (set_fpga_reset False False False False False))))"

subsection \<open>Test transmissions\<close>

primrec transmissions :: "bool \<Rightarrow> nat \<Rightarrow> nat list \<Rightarrow> nat \<Rightarrow> (bringup, nat) hal" where
  "transmissions k7 hicann [] trans_errors = hret trans_errors"
| "transmissions k7 hicann (ntrans # ns) trans_errors =
    (let sent1 = push_bit (ntrans mod 8) 0x1234 :: u64; sent2 = push_bit (ntrans mod 32) 0xfedcba98 :: u64 in
     hseq (jdos (if k7 then [K7FPGA_set_tx_data sent1, K7FPGA_set_control 2] else [FPGA_start_pulse_event hicann sent1]))
    (hbind (jread HICANN_get_rx_data) (\<lambda>rec1.
     hseq (jdos [HICANN_set_tx_data sent2, HICANN_start_cfg_pkg])
    (hbind (jread (if k7 then K7FPGA_get_rx_cfg else FPGA_get_rx_data)) (\<lambda>rec2.
     transmissions k7 hicann ns (trans_errors + (if rec1 AND 0xffffff \<noteq> sent1 AND 0xffffff then 1 else 0) + (if rec2 \<noteq> sent2 then 1 else 0)))))))"

definition test_transmission :: "nat \<Rightarrow> nat \<Rightarrow> (bringup, nat) hal" where
  "test_transmission hicann packet_count = (\<lambda>s. let k7 = k7fpga s; n = hicann_count s in
     hseq (hwhen (\<not> k7) (jdos [FPGA_testmode 3, DNC_set_timestamp_ctrl 0]))
    (hseq (hfor [0..<n] (\<lambda>i. jdos [Set_hicann_pos i, HICANN_set_test 1]))
    (hbind (dnc2jtag hicann) (\<lambda>j.
     hseq (jdo (Set_hicann_pos j))
    (hseq (hwhen k7 (jdos [K7FPGA_set_hicannif hicann, K7FPGA_disable_config_output]))
    (hbind (transmissions k7 hicann [0..<packet_count] 0) (\<lambda>trans_errors.
     hseq (hwhen (\<not> k7) (jdo (FPGA_testmode 0)))
    (hseq (hfor [0..<n] (\<lambda>i. jdos [Set_hicann_pos i, HICANN_set_test 0]))
    (hseq (jdo (Set_hicann_pos j))
    (hseq (hwhen k7 (jdos [K7FPGA_set_hicannif hicann, K7FPGA_enable_config_output]))
     (hret trans_errors)))))))))) s)"

text \<open>The requested links one after the other, until one has an error.\<close>

primrec test_links :: "nat list \<Rightarrow> u8 \<Rightarrow> (bringup, bool) hal" where
  "test_links [] hs = hret True"
| "test_links (i # is) hs =
    (if bit hs i then hbind (\<lambda>s. test_transmission i (trans_count s) s) (\<lambda>errors. if errors \<noteq> 0 then hret False else test_links is hs)
     else test_links is hs)"

subsection \<open>Initialisation\<close>

datatype commstate = Comm_ok | Comm_initfailed

text \<open>How an attempt ends: all well, with an error that ends the function, or with one that starts the next attempt.\<close>

datatype attempt = Done | Again | Failed

definition reset_chain :: "(bringup, unit) hal" where
  "reset_chain = (\<lambda>s. hseq (jdo (FPGA_set_fpga_ctrl 1))
     (hfor [0..<chain_length s - 2] (\<lambda>i. jdos [Set_hicann_pos i, HICANN_set_reset 0, HICANN_set_reset 1])) s)"

text \<open>The start of the links: true when all requested ones run.\<close>

definition start_links :: "nat \<Rightarrow> u8 \<Rightarrow> bool \<Rightarrow> (bringup, bool) hal" where
  "start_links nrep hs force = (\<lambda>s.
     if k7fpga s then hbind (fpga_hicann_init hs) (\<lambda>init_success. hret (init_success AND hs = hs)) s
     else hseq (hwhen (nrep > 0 \<or> force) reset_chain)
       (hbind fpga_dnc_init (\<lambda>ret. let tmp = push_bit 8 1 OR ucast hs in hret (ret AND tmp = tmp))) s)"

definition one_attempt :: "nat \<Rightarrow> u8 \<Rightarrow> bool \<Rightarrow> bool \<Rightarrow> (bringup, attempt) hal" where
  "one_attempt nrep hs force return_on_error = hbind (start_links nrep hs force) (\<lambda>up.
     if \<not> up then hret (if return_on_error then Failed else Again)
     else hbind (test_links [0..<8] hs) (\<lambda>trans_succ.
       if trans_succ then hseq (hmodify (\<lambda>s. s\<lparr>test_transmissions_done := True\<rparr>)) (hret Done)
       else hret (if return_on_error then Failed else Again)))"

text \<open>The attempts left; true when one of them is done.\<close>

primrec attempts :: "nat \<Rightarrow> nat \<Rightarrow> u8 \<Rightarrow> bool \<Rightarrow> bool \<Rightarrow> (bringup, bool) hal" where
  "attempts 0 nrep hs force roe = hret False"
| "attempts (Suc r) nrep hs force roe = hbind (one_attempt nrep hs force roe) (\<lambda>a. case a of
     Done \<Rightarrow> hret True | Failed \<Rightarrow> hret False | Again \<Rightarrow> attempts r (nrep + 1) hs force roe)"

definition settle_hicann :: "u8 \<Rightarrow> nat \<Rightarrow> (bringup, unit) hal" where
  "settle_hicann hicann i = (\<lambda>s. let up = bit (link_states s) i in
     hseq (hwhen (\<not> up) (jdos [K7FPGA_set_hicannif i, K7FPGA_disable_config_output]))
      (hwhen (bit hicann i) (hbind (dnc2jtag i) (\<lambda>j.
        hseq (jdo (Set_hicann_pos j))
       (hseq (hwhen (\<not> up) (jdo (HICANN_set_reset 0)))
        (jdos [HICANN_arq_write_rx_timeout (fst (hicann_ack_timeout s)) (snd (hicann_ack_timeout s)),
           HICANN_arq_write_tx_timeout (fst (hicann_resend_timeout s)) (snd (hicann_resend_timeout s)),
           HICANN_arq_write_ctrl 1 1, HICANN_arq_write_ctrl 0 0]))))) s)"

definition Init :: "u8 \<Rightarrow> u8 \<Rightarrow> bool \<Rightarrow> bool \<Rightarrow> (bringup, commstate) hal" where
  "Init hicann hs force return_on_error = (\<lambda>s.
     if NOT hicann AND hs \<noteq> 0 then (Inl Runtime_error, s)
     else if disable_multiple_test_transmissions s \<and> test_transmissions_done s then (Inr Comm_ok, s)
     else hbind (attempts 10 0 hs force return_on_error) (\<lambda>done.
       if \<not> done then hret Comm_initfailed
       else hseq (set_fpga_reset False False False False True) (hseq Clear (hseq (jdo Reset_software_arq)
         (hseq (hfor [0..<8] (settle_hicann hicann)) (hret Comm_ok))))) s)"

text \<open>The variant for one HICANN by its position in the chain.\<close>

definition one_hicann :: "int \<Rightarrow> (bringup, u8) hal" where
  "one_hicann nr = (\<lambda>s. if nr < 0 \<or> nr > 7 then (Inl Runtime_error, s)
     else case jtag2dnc_lut s (nat nr) of None \<Rightarrow> (Inl Assertion_failed, s) | Some d \<Rightarrow> (Inr (push_bit d 1), s))"

text \<open>The class with the FPGA's ARQ switches it on again when there is a link.\<close>

definition enable_arq :: "(bringup, unit) hal" where
  "enable_arq = hseq (set_fpga_reset False False False False False)
     (\<lambda>s. hwhen (\<not> k7fpga s) (jdo (SetARQTimings 0xff 0x0c8 0x032)) s)"

definition Init_arq :: "u8 \<Rightarrow> u8 \<Rightarrow> bool \<Rightarrow> bool \<Rightarrow> (bringup, commstate) hal" where
  "Init_arq hicann hs force return_on_error = hbind (Init hicann hs force return_on_error)
     (\<lambda>r. hseq (\<lambda>s. hwhen (link_states s \<noteq> 0) enable_arq s) (hret r))"

text \<open>The variant for one HICANN calls the virtual member: with the FPGA's ARQ that is the initialisation above, and
  the ARQ is switched on twice.\<close>

definition Init_one :: "int \<Rightarrow> bool \<Rightarrow> bool \<Rightarrow> (bringup, commstate) hal" where
  "Init_one nr force return_on_error = hbind (one_hicann nr)
     (\<lambda>h s. if fpga_arq s then Init_arq h h force return_on_error s else Init h h force return_on_error s)"

definition Init_arq_one :: "int \<Rightarrow> bool \<Rightarrow> bool \<Rightarrow> (bringup, commstate) hal" where
  "Init_arq_one nr force return_on_error = hbind (Init_one nr force return_on_error)
     (\<lambda>r s. if link_states s = 0 then (Inl Runtime_error, s) else hseq enable_arq (hret r) s)"

subsection \<open>What the steps leave alone\<close>

text \<open>The log only grows, and the environment and the configuration stay.\<close>

definition run :: "bringup \<Rightarrow> bringup \<Rightarrow> bool" where
  "run s t \<longleftrightarrow> prefix (jlog s) (jlog t) \<and> jenv t = jenv s \<and> k7fpga t = k7fpga s \<and> trans_count t = trans_count s \<and>
     dnc2jtag_lut t = dnc2jtag_lut s \<and> chain_length t = chain_length s \<and> num_hicanns t = num_hicanns s"

lemma run_refl [simp]: "run s s"
  by (simp add: run_def)

lemma run_trans [trans]: "run s t \<Longrightarrow> run t u \<Longrightarrow> run s u"
  by (auto simp: run_def)

text \<open>A part of the state: nothing to say, or the links, or the way packets take.\<close>

definition run_with :: "(bringup \<Rightarrow> bool) \<Rightarrow> bringup \<Rightarrow> bringup \<Rightarrow> bool" where
  "run_with P s t \<longleftrightarrow> run s t \<and> P t"

text \<open>Predicates the log has no part in.\<close>

definition off_log :: "(bringup \<Rightarrow> bool) \<Rightarrow> bool" where
  "off_log P \<longleftrightarrow> (\<forall>s l. P (s\<lparr>jlog := l\<rparr>) = P s)"

lemma keeps_state: "(\<And>s. keeps P (\<lambda>t. m s t)) \<Longrightarrow> keeps P (\<lambda>s. m s s)"
  by (simp add: keeps_def)

lemma keeps_if_app [keeps_intros]: "keeps P f \<Longrightarrow> keeps P g \<Longrightarrow> keeps P (\<lambda>t. if b then f t else g t)"
  by (simp add: keeps_def)

lemma jdo_keeps [keeps_intros]: "off_log P \<Longrightarrow> keeps (run_with P s) (jdo c)"
  by (auto simp: keeps_def jdo_def run_with_def run_def off_log_def)

lemma jdos_keeps [keeps_intros]: "off_log P \<Longrightarrow> keeps (run_with P s) (jdos cs)"
  unfolding jdos_def by (intro keeps_intros)

lemma jread_keeps [keeps_intros]: "off_log P \<Longrightarrow> keeps (run_with P s) (jread c)"
  unfolding jread_def by (intro keeps_intros)

lemma dnc2jtag_keeps [keeps_intros]: "keeps P (dnc2jtag d)"
  by (auto simp: keeps_def dnc2jtag_def split: option.split)

lemma Receive_keeps [keeps_intros]: "off_log P \<Longrightarrow> keeps (run_with P s) (Receive_packet a)"
  unfolding Receive_packet_def by (rule keeps_state) (intro keeps_intros)

lemma Clear_keeps [keeps_intros]: "off_log P \<Longrightarrow> keeps (run_with P s) Clear"
  unfolding Clear_def by (rule keeps_state) (intro keeps_intros keeps_if_app, simp add: keeps_def)

lemma set_fpga_reset_keeps [keeps_intros]: "off_log P \<Longrightarrow> keeps (run_with P s) (set_fpga_reset a b c d e)"
  unfolding set_fpga_reset_def by (intro keeps_intros)

lemma transmissions_keeps [keeps_intros]: "off_log P \<Longrightarrow> keeps (run_with P s) (transmissions k7 h ns e)"
  by (induction ns arbitrary: e) (auto simp: Let_def intro!: keeps_intros)

lemma test_transmission_keeps [keeps_intros]: "off_log P \<Longrightarrow> keeps (run_with P s) (test_transmission h n)"
  unfolding test_transmission_def Let_def by (rule keeps_state) (intro keeps_intros)

lemma test_links_keeps [keeps_intros]: "off_log P \<Longrightarrow> keeps (run_with P s) (test_links is hs)"
  by (induction "is") (auto intro!: keeps_intros keeps_state [of "run_with P s" "\<lambda>s. test_transmission _ (trans_count s)"])

lemma settle_keeps [keeps_intros]: "off_log P \<Longrightarrow> keeps (run_with P s) (settle_hicann h i)"
  unfolding settle_hicann_def Let_def by (rule keeps_state) (intro keeps_intros)

lemma poll_link_keeps [keeps_intros]: "off_log P \<Longrightarrow> keeps (run_with P s) (poll_link r a b)"
  by (induction r arbitrary: a b) (auto intro!: keeps_intros)

lemma init_link_keeps: "keeps (run s) (init_link i)"
proof -
  have o: "off_log (\<lambda>t. True)" by (simp add: off_log_def)
  have r: "run s = run_with (\<lambda>t. True) s" by (simp add: run_with_def fun_eq_iff)
  have u: "keeps (run_with (\<lambda>t. True) s) (hmodify (upd_links i b))" for b
    by (simp add: keeps_def run_with_def run_def upd_links_def)
  show ?thesis unfolding r init_link_def
    by (intro keeps_intros o u keeps_state [of _ "\<lambda>s. hwhen (running_on_reticle s \<and> i = 3) (jdo (K7FPGA_invert_rx_data True))"])
qed

lemma init_links_keeps: "keeps (run s) (init_links is h)"
proof (induction "is")
  case Nil
  show ?case unfolding init_links.simps by (rule keeps_hget)
next
  case (Cons i "is")
  then show ?case unfolding init_links.simps by (intro keeps_intros init_link_keeps) auto
qed

lemma run_with_True: "run s = run_with (\<lambda>t. True) s"
  by (simp add: run_with_def fun_eq_iff)

lemma off_log_True [simp]: "off_log (\<lambda>t. True)"
  by (simp add: off_log_def)

lemma off_log_links [simp]: "off_log (\<lambda>t. link_states t = L)"
  by (simp add: off_log_def)

lemma fpga_hicann_init_keeps: "keeps (run s) (fpga_hicann_init h)"
  unfolding fpga_hicann_init_def
  by (rule keeps_state) (use init_links_keeps in \<open>auto simp: run_with_True intro!: keeps_intros\<close>)

text \<open>On the older boards the links are states of the object only in part.\<close>

definition off_status :: "(bringup \<Rightarrow> bool) \<Rightarrow> bool" where
  "off_status P \<longleftrightarrow> off_log P \<and> (\<forall>s a b c. P (s\<lparr>fpga_dnc_inited := a\<rparr>) = P s \<and> P (s\<lparr>l2_link_state := b\<rparr>) = P s \<and>
     P (s\<lparr>test_transmissions_done := c\<rparr>) = P s)"

lemma off_status_links [simp]: "off_status (\<lambda>t. link_states t = L)"
  by (simp add: off_status_def)

lemma off_status_True [simp]: "off_status (\<lambda>t. True)"
  by (simp add: off_status_def)

lemma off_status_log [simp]: "off_status P \<Longrightarrow> off_log P"
  by (simp add: off_status_def)

lemma poll_dnc_keeps: "off_log P \<Longrightarrow> keeps (run_with P s) (poll_dnc r a b)"
  by (induction r arbitrary: a b) (auto intro!: keeps_intros)

lemma check_links_keeps: "off_log P \<Longrightarrow> keeps (run_with P s) (check_links n is w)"
  by (induction "is" arbitrary: w) (auto simp del: hbind_hret intro!: keeps_intros)

lemma restart_rounds_keeps: "off_log P \<Longrightarrow> keeps (run_with P s) (restart_rounds r n w)"
  by (induction r arbitrary: w) (auto simp: restart_links_def intro!: keeps_intros check_links_keeps)

lemma initAll_keeps: "off_log P \<Longrightarrow> keeps (run_with P s) initAllConnections"
  unfolding initAllConnections_def hicann_shutdown_def Let_def
  by (rule keeps_state) (intro keeps_intros poll_dnc_keeps restart_rounds_keeps; assumption?)

lemma collect_links_keeps: "off_log P \<Longrightarrow> keeps (run_with P s) (collect_links is w)"
  by (induction "is" arbitrary: w) (auto simp: Let_def intro!: keeps_intros)

lemma log_states_keeps: "off_log P \<Longrightarrow> keeps (run_with P s) log_states"
  unfolding log_states_def by (rule keeps_state) (intro keeps_intros)

lemma status_keeps:
  "off_status P \<Longrightarrow> keeps (run_with P s) (hmodify (\<lambda>t. t\<lparr>fpga_dnc_inited := True\<rparr>))"
  "off_status P \<Longrightarrow> keeps (run_with P s) (hmodify (\<lambda>t. if b t then t\<lparr>l2_link_state := v, fpga_dnc_inited := c\<rparr> else t\<lparr>l2_link_state := w, fpga_dnc_inited := d\<rparr>))"
  "off_status P \<Longrightarrow> keeps (run_with P s) (hmodify (\<lambda>t. t\<lparr>test_transmissions_done := True\<rparr>))"
  by (auto simp: off_status_def keeps_def run_with_def run_def)

lemma dnc_init_keeps: "off_status P \<Longrightarrow> keeps (run_with P s) fpga_dnc_init"
  unfolding fpga_dnc_init_def Let_def
  by (rule keeps_state)
    (intro keeps_intros keeps_state [of _ "\<lambda>s. jread (Read_id (pos_fpga s))"] initAll_keeps collect_links_keeps log_states_keeps status_keeps; simp)

lemma reset_chain_keeps: "off_log P \<Longrightarrow> keeps (run_with P s) reset_chain"
  unfolding reset_chain_def by (rule keeps_state) (intro keeps_intros)

subsection \<open>What success means\<close>

text \<open>What holds of result and state when a function returns.\<close>

definition yields :: "(bringup \<Rightarrow> bool) \<Rightarrow> (bringup, 'a) hal \<Rightarrow> ('a \<Rightarrow> bringup \<Rightarrow> bool) \<Rightarrow> bool" where
  "yields P m Q \<longleftrightarrow> (\<forall>s r t. P s \<longrightarrow> m s = (Inr r, t) \<longrightarrow> Q r t)"

lemma yields_hbind: "yields P m R \<Longrightarrow> (\<And>x. yields (R x) (k x) Q) \<Longrightarrow> yields P (hbind m k) Q"
  unfolding yields_def by (metis hbind_cases sum.distinct(1))

lemma yields_hret: "(\<And>t. P t \<Longrightarrow> Q x t) \<Longrightarrow> yields P (hret x) Q"
  by (simp add: yields_def)

lemma yields_hthrow: "yields P (hthrow e) Q"
  by (simp add: yields_def)

lemma yields_keeps: "keeps P m \<Longrightarrow> yields P m (\<lambda>_. P)"
  unfolding yields_def keeps_def by (metis snd_conv)

lemma yields_hseq: "keeps P m \<Longrightarrow> yields P n Q \<Longrightarrow> yields P (hseq m n) Q"
  unfolding hseq_def by (rule yields_hbind [OF yields_keeps])

lemma yields_post: "yields P m R \<Longrightarrow> (\<And>x t. R x t \<Longrightarrow> Q x t) \<Longrightarrow> yields P m Q"
  by (auto simp: yields_def)

lemma yields_if: "(b \<Longrightarrow> yields P m Q) \<Longrightarrow> (\<not> b \<Longrightarrow> yields P n Q) \<Longrightarrow> yields P (if b then m else n) Q"
  by simp

lemma yields_each: "(\<And>p. yields P (m p) Q) \<Longrightarrow> yields P (\<lambda>s. m (f s) s) Q"
  by (simp add: yields_def)

lemma yieldsD: "yields P m Q \<Longrightarrow> P s \<Longrightarrow> m s = (Inr r, t) \<Longrightarrow> Q r t"
  by (simp add: yields_def)

text \<open>The returned set is that of all links that are up, or empty.\<close>

lemma init_links_result: "yields (run s) (init_links is h) (\<lambda>r t. run s t \<and> (r = link_states t \<or> r = 0))"
proof (induction "is")
  case Nil
  then show ?case by (simp add: yields_def)
next
  case (Cons i "is")
  then show ?case unfolding init_links.simps
    by (intro yields_if yields_hbind [OF yields_keeps [OF init_link_keeps]] yields_hret) auto
qed

lemma start_links_k7:
  assumes "k7fpga s"
  shows "yields (run s) (start_links nrep hs force) (\<lambda>up t. run s t \<and> (up \<longrightarrow> link_states t AND hs = hs))"
proof -
  have "yields (run s) (hbind (jread (Read_id p)) (\<lambda>jtagid. if jtagid \<noteq> 0x1c56c007 then hthrow Runtime_error else init_links [0..<8] hs))
        (\<lambda>r t. run s t \<and> (r = link_states t \<or> r = 0))" for p
  proof (rule yields_hbind [OF yields_keeps])
    show "keeps (run s) (jread (Read_id p))" unfolding run_with_True by (rule jread_keeps) simp
    show "yields (run s) (if jtagid \<noteq> 0x1c56c007 then hthrow Runtime_error else init_links [0..<8] hs) (\<lambda>r t. run s t \<and> (r = link_states t \<or> r = 0))"
      for jtagid :: u64
      by (intro yields_if yields_hthrow init_links_result)
  qed
  then have "yields (run s) (fpga_hicann_init hs) (\<lambda>r t. run s t \<and> (r = link_states t \<or> r = 0))"
    unfolding fpga_hicann_init_def by (rule yields_each)
  then have y: "yields (run s) (hbind (fpga_hicann_init hs) (\<lambda>r. hret (r AND hs = hs))) (\<lambda>up t. run s t \<and> (up \<longrightarrow> link_states t AND hs = hs))"
    by (rule yields_hbind) (auto intro!: yields_hret)
  show ?thesis unfolding yields_def
  proof (intro allI impI)
    fix u up t
    assume u: "run s u" "start_links nrep hs force u = (Inr up, t)"
    then have "k7fpga u" using assms by (simp add: run_def)
    then have "hbind (fpga_hicann_init hs) (\<lambda>r. hret (r AND hs = hs)) u = (Inr up, t)" using u(2) by (simp only: start_links_def if_True)
    then show "run s t \<and> (up \<longrightarrow> link_states t AND hs = hs)" by (rule yieldsD [OF y u(1)])
  qed
qed

text \<open>A transmission test of a link without an error, as part of a run.\<close>

definition tested :: "bringup \<Rightarrow> nat \<Rightarrow> bringup \<Rightarrow> bool" where
  "tested s i t \<longleftrightarrow> (\<exists>s1 t1. run s s1 \<and> test_transmission i (trans_count s) s1 = (Inr 0, t1) \<and> run t1 t)"

lemma tested_run: "tested s i t \<Longrightarrow> run t u \<Longrightarrow> tested s i u"
  unfolding tested_def using run_trans by blast

lemma test_links_result:
  "run_with P s s0 \<Longrightarrow> off_log P \<Longrightarrow> test_links is hs s0 = (Inr ok, t) \<Longrightarrow>
    run_with P s t \<and> (ok \<longrightarrow> (\<forall>i \<in> set is. bit hs i \<longrightarrow> tested s i t))"
proof (induction "is" arbitrary: s0)
  case Nil
  then show ?case by simp
next
  case (Cons i "is")
  have t: "run_with P s t" using keepsD [OF test_links_keeps [OF Cons.prems(2)] Cons.prems(1), of "i # is" hs] Cons.prems(3) by simp
  show ?case
  proof (cases "bit hs i")
    case False
    then show ?thesis using Cons by simp
  next
    case True
    have tc: "trans_count s0 = trans_count s" using Cons.prems(1) by (simp add: run_with_def run_def)
    from Cons.prems(3) True obtain e s1 where e: "test_transmission i (trans_count s) s0 = (Inr e, s1)"
        and rest: "(if e \<noteq> 0 then hret False else test_links is hs) s1 = (Inr ok, t)"
      by (auto simp: tc elim!: hbind_cases)
    have s1: "run_with P s s1" using keepsD [OF test_transmission_keeps [OF Cons.prems(2)] Cons.prems(1), of i "trans_count s"] e by simp
    show ?thesis
    proof (cases "e = 0")
      case False
      then show ?thesis using rest s1 by simp
    next
      case e0: True
      then have r: "test_links is hs s1 = (Inr ok, t)" using rest by simp
      have "run s1 t"
        using keepsD [OF test_links_keeps [OF off_log_True], of s1 s1 "is" hs] r by (simp add: run_with_def)
      then have "tested s i t" using e e0 Cons.prems(1) unfolding tested_def run_with_def by blast
      then show ?thesis using Cons.IH [OF s1 Cons.prems(2) r] by simp
    qed
  qed
qed

lemma one_attempt_done:
  assumes "k7fpga s" "run s s0" "one_attempt nrep hs force roe s0 = (Inr a, t)"
  shows "run s t \<and> (a = Done \<longrightarrow> link_states t AND hs = hs \<and> test_transmissions_done t \<and> (\<forall>i < 8. bit hs i \<longrightarrow> tested s i t))"
proof -
  from assms(3) obtain up s1 where up: "start_links nrep hs force s0 = (Inr up, s1)"
      and rest: "(if \<not> up then hret (if roe then Failed else Again)
        else hbind (test_links [0..<8] hs) (\<lambda>trans_succ. if trans_succ then hseq (hmodify (\<lambda>s. s\<lparr>test_transmissions_done := True\<rparr>)) (hret Done)
          else hret (if roe then Failed else Again))) s1 = (Inr a, t)"
    unfolding one_attempt_def by (auto elim: hbind_cases)
  have s1: "run s s1" "up \<longrightarrow> link_states s1 AND hs = hs" using yieldsD [OF start_links_k7 [OF assms(1)] assms(2) up] by simp_all
  show ?thesis
  proof (cases up)
    case False
    then show ?thesis using rest s1(1) by (auto split: if_splits)
  next
    case True
    then obtain ok s2 where ok: "test_links [0..<8] hs s1 = (Inr ok, s2)"
        and a: "(if ok then hseq (hmodify (\<lambda>s. s\<lparr>test_transmissions_done := True\<rparr>)) (hret Done) else hret (if roe then Failed else Again)) s2 = (Inr a, t)"
      using rest by (auto elim: hbind_cases)
    have "run_with (\<lambda>t. link_states t = link_states s1) s s1" using s1(1) by (simp add: run_with_def)
    from test_links_result [OF this off_log_links ok]
    have s2: "run s s2" "link_states s2 = link_states s1" "ok \<longrightarrow> (\<forall>i \<in> set [0..<8]. bit hs i \<longrightarrow> tested s i s2)"
      by (simp_all add: run_with_def)
    show ?thesis
    proof (cases ok)
      case False
      then show ?thesis using a s2(1) by (auto split: if_splits)
    next
      case okT: True
      have t: "a = Done" "t = s2\<lparr>test_transmissions_done := True\<rparr>" using a okT by (simp_all add: hseq_def hbind_def)
      have st: "run s2 t" by (simp add: t(2) run_def)
      have "tested s i t" if "i < 8" "bit hs i" for i using s2(3) okT that tested_run [OF _ st] by simp
      moreover have "run s t" using s2(1) st by (rule run_trans)
      ultimately show ?thesis using t s1(2) s2(2) True by simp
    qed
  qed
qed

lemma attempts_done:
  "k7fpga s \<Longrightarrow> run s s0 \<Longrightarrow> attempts r nrep hs force roe s0 = (Inr True, t) \<Longrightarrow>
    run s t \<and> link_states t AND hs = hs \<and> test_transmissions_done t \<and> (\<forall>i < 8. bit hs i \<longrightarrow> tested s i t)"
proof (induction r arbitrary: nrep s0)
  case (Suc r)
  obtain a s1 where a: "one_attempt nrep hs force roe s0 = (Inr a, s1)"
      and rest: "(case a of Done \<Rightarrow> hret True | Failed \<Rightarrow> hret False | Again \<Rightarrow> attempts r (nrep + 1) hs force roe) s1 = (Inr True, t)"
    using Suc.prems(3) by (auto elim: hbind_cases)
  note d = one_attempt_done [OF Suc.prems(1,2) a]
  show ?case
  proof (cases a)
    case Done
    then show ?thesis using d rest by simp
  next
    case Again
    then show ?thesis using Suc.IH [OF Suc.prems(1)] d rest by simp
  qed (use rest in simp)
qed simp

text \<open>The end of a successful initialisation.\<close>

definition finish_init :: "u8 \<Rightarrow> (bringup, commstate) hal" where
  "finish_init hicann = hseq (set_fpga_reset False False False False True) (hseq Clear (hseq (jdo Reset_software_arq)
     (hseq (hfor [0..<8] (settle_hicann hicann)) (hret Comm_ok))))"

lemma finish_keeps: "off_log P \<Longrightarrow> keeps (run_with P s) (finish_init h)"
  unfolding finish_init_def by (intro keeps_intros)

lemma Init_ok:
  assumes "\<not> (disable_multiple_test_transmissions s \<and> test_transmissions_done s)" "Init hicann hs force roe s = (Inr Comm_ok, t)"
  obtains s1 where "NOT hicann AND hs = 0" "attempts 10 0 hs force roe s = (Inr True, s1)" "finish_init hicann s1 = (Inr Comm_ok, t)"
proof -
  have h: "NOT hicann AND hs = 0" using assms(2) by (auto simp: Init_def split: if_splits)
  then have h': "\<not> NOT hicann AND hs \<noteq> 0" by simp
  have i: "Init hicann hs force roe s = hbind (attempts 10 0 hs force roe) (\<lambda>d. if \<not> d then hret Comm_initfailed else finish_init hicann) s"
    by (simp only: Init_def finish_init_def if_not_P [OF h'] if_not_P [OF assms(1)])
  from assms(2) obtain d s1 where d: "attempts 10 0 hs force roe s = (Inr d, s1)"
      and r: "(if \<not> d then hret Comm_initfailed else finish_init hicann) s1 = (Inr Comm_ok, t)"
    unfolding i by (auto elim: hbind_cases)
  then show thesis using that h by (cases d) auto
qed


text \<open>A board whose chips answer as they should, with one transmission per test, after the calls \<open>l\<close> and with the
  links \<open>w\<close>.\<close>

definition good_answer :: "jcall \<Rightarrow> u64" where
  "good_answer c = (case c of Read_id n \<Rightarrow> if n = 8 then 0x1c56c007 else 0x14849434
     | HICANN_read_status \<Rightarrow> 0x49 | K7FPGA_get_hicannif_status \<Rightarrow> 0x49 | HICANN_get_rx_data \<Rightarrow> 0x1234 | K7FPGA_get_rx_cfg \<Rightarrow> 0xfedcba98 | _ \<Rightarrow> 0)"

definition good_board :: "jcall list \<Rightarrow> u8 \<Rightarrow> bool \<Rightarrow> bringup" where
  "good_board l w b = \<lparr>jlog = l, jenv = (\<lambda>l. good_answer (last l)),
     fpga_arq = False, k7fpga = True, chain_length = 3, num_hicanns = 2, pos_fpga = 8, dnc2jtag_lut = [1 \<mapsto> 0, 0 \<mapsto> 1], jtag2dnc_lut = [0 \<mapsto> 1, 1 \<mapsto> 0],
     running_on_reticle = False, fpga_dnc_inited = False, l2_link_state = 0, test_transmissions_done = b, link_states = w, trans_count = 1,
     hicann_ack_timeout = (15, 20), hicann_resend_timeout = (70, 100), disable_multiple_test_transmissions = False\<rparr>"

lemma good_steps:
  "jdo c (good_board l w b) = (Inr (), good_board (l @ [c]) w b)"
  "jdos cs (good_board l w b) = (Inr (), good_board (l @ cs) w b)"
  "jread c (good_board l w b) = (Inr (good_answer c), good_board (l @ [c]) w b)"
  "dnc2jtag 1 (good_board l w b) = (Inr 0, good_board l w b)" "dnc2jtag (Suc 0) (good_board l w b) = (Inr 0, good_board l w b)"
proof -
  show jdo: "jdo c (good_board l w b) = (Inr (), good_board (l @ [c]) w b)" for c l by (simp add: jdo_def good_board_def)
  show "jdos cs (good_board l w b) = (Inr (), good_board (l @ cs) w b)"
    unfolding jdos_def by (induction cs arbitrary: l) (simp_all add: hseq_def hbind_def jdo)
  show "jread c (good_board l w b) = (Inr (good_answer c), good_board (l @ [c]) w b)"
    by (simp add: jread_def hseq_def hbind_def jdo) (simp add: good_board_def)
qed (simp_all add: dnc2jtag_def good_board_def)

lemma good_members:
  "fpga_arq (good_board l w b) = False"
  "set_fpga_reset c1 c2 c3 c4 c5 (good_board l w b) = (Inr (), good_board (l @ [Fpga_reset (fpga_reset_word c1 c2 c3 c4 c5)]) w b)"
  "k7fpga (good_board l w b)" "pos_fpga (good_board l w b) = 8" "trans_count (good_board l w b) = 1" "running_on_reticle (good_board l w b) = False"
  "hicann_count (good_board l w b) = 2" "num_hicanns (good_board l w b) = 2" "l2_link_state (good_board l w b) = 0"
  "link_states (good_board l w b) = w"
  by (simp_all add: set_fpga_reset_def good_steps) (simp_all add: good_board_def hicann_count_def)

lemma good_poll: "\<exists>l1. poll_link 10 0 0x49 (good_board l w b) = (Inr 9, good_board l1 w b)"
proof -
  have n: "(10 :: nat) = Suc (Suc 8)" "(9 :: nat) = Suc 8" by simp_all
  have a: "(0x49 :: u64) AND 0xff = 0x49" "(0x49 :: u64) AND 0x49 = 0x49" "(0 :: u64) AND 0x49 \<noteq> 0x49" by simp_all
  have "poll_link (Suc (Suc 8)) 0 0x49 (good_board l w b) = (Inr (Suc 8), good_board (l @ [HICANN_read_status, K7FPGA_get_hicannif_status]) w b)"
    by (simp only: poll_link.simps a if_True simp_thms hbind_def good_steps good_answer_def jcall.case prod.case sum.case append_assoc append.simps hret_app if_False)
  then show ?thesis unfolding n by blast
qed

lemma good_link: "\<exists>l1. init_link 1 (good_board l w b) = (Inr True, good_board l1 (set_bit 1 w) b)"
proof -
  let ?s1 = "good_board (l @ [K7FPGA_set_hicannif 1, Set_hicann_pos 0, Read_id 0, K7FPGA_stop_fpga_link, HICANN_stop_link, K7FPGA_get_hicannif_status,
      HICANN_set_link_ctrl 0x061, K7FPGA_set_hicannif_config 0x00c, HICANN_lvds_pads_en 0, HICANN_start_link, K7FPGA_start_fpga_link]) w b"
  obtain l1 where p: "poll_link 10 0 0x49 ?s1 = (Inr 9, good_board l1 w b)" using good_poll by blast
  have a: "(0x49 :: u64) AND 0xff = 0x49" by simp
  have "init_link 1 (good_board l w b) = (Inr True, upd_links 1 True (good_board l1 w b))"
    using p by (simp add: init_link_def hbind_def hseq_def good_steps good_members good_answer_def a hwhen_def)
  then show ?thesis by (simp add: upd_links_def good_board_def)
qed

lemma bit_two: "bit (2 :: u8) n \<longleftrightarrow> n = 1" "bit (2 :: int) n \<longleftrightarrow> n = 1"
  by (cases n; cases "n - 1"; simp add: bit_Suc)+

lemma up_to_8: "[0..<8] = [0, 1, 2, 3, 4, 5, 6, 7 :: nat]"
  by (simp add: upt_rec)

lemma good_start: "\<exists>l1. start_links n 2 f (good_board l w b) = (Inr True, good_board l1 (set_bit 1 w) b)"
proof -
  obtain l1 where l1: "init_link 1 (good_board (l @ [Read_id 8]) w b) = (Inr True, good_board l1 (set_bit 1 w) b)" using good_link by blast
  have "set_bit 1 w AND 2 = 2" by (rule bit_word_eqI) (auto simp: bit_and_iff bit_two bit_set_bit_iff)
  then show ?thesis using l1
    by (simp add: start_links_def good_members fpga_hicann_init_def good_steps hbind_def good_answer_def up_to_8 bit_two) (simp add: good_board_def)
qed

lemma good_test: "\<exists>l1. test_transmission 1 1 (good_board l w b) = (Inr 0, good_board l1 w b)"
proof -
  have u: "[0..<1] = [0 :: nat]" "[0..<2] = [0, 1 :: nat]" by (simp_all add: upt_rec)
  show ?thesis unfolding test_transmission_def good_members Let_def u
    by (simp add: hbind_def hseq_def hwhen_def good_steps good_answer_def good_members) blast
qed

lemma good_attempt: "\<exists>l1. attempts 10 0 2 f r (good_board l w b) = (Inr True, good_board l1 (set_bit 1 w) True)"
proof -
  obtain l1 where l1: "start_links 0 2 f (good_board l w b) = (Inr True, good_board l1 (set_bit 1 w) b)" using good_start by blast
  obtain l2 where l2: "test_transmission 1 1 (good_board l1 (set_bit 1 w) b) = (Inr 0, good_board l2 (set_bit 1 w) b)" using good_test by blast
  have t: "test_links [0..<8] 2 (good_board l1 (set_bit 1 w) b) = (Inr True, good_board l2 (set_bit 1 w) b)"
    using l2 by (simp add: up_to_8 bit_two hbind_def good_members)
  have "one_attempt 0 2 f r (good_board l w b) = (Inr Done, good_board l2 (set_bit 1 w) True)"
    using l1 t by (simp add: one_attempt_def hbind_def hseq_def) (simp add: good_board_def)
  moreover have "(10 :: nat) = Suc 9" by simp
  ultimately show ?thesis by (auto simp only: attempts.simps hbind_def prod.case sum.case attempt.case hret_app)
qed

lemma good_settle: "\<exists>l1. settle_hicann 2 i (good_board l w b) = (Inr (), good_board l1 w b)"
  by (cases "i = 1") (simp_all add: settle_hicann_def Let_def hbind_def hseq_def hwhen_def good_steps good_members bit_two, blast+)

lemma good_settles: "\<exists>l1. hfor is (settle_hicann 2) (good_board l w b) = (Inr (), good_board l1 w b)"
proof (induction "is" arbitrary: l)
  case (Cons i "is")
  obtain l1 where "settle_hicann 2 i (good_board l w b) = (Inr (), good_board l1 w b)" using good_settle by blast
  then show ?case using Cons [of l1] by (simp add: hseq_def hbind_def)
qed auto

lemma good_finish: "\<exists>l1. finish_init 2 (good_board l w b) = (Inr Comm_ok, good_board l1 w b)"
proof -
  have u: "[0..<2] = [0, 1 :: nat]" by (simp add: upt_rec)
  obtain l0 where "Clear (good_board (l @ [Fpga_reset (fpga_reset_word False False False False True)]) w b) = (Inr (), good_board l0 w b)"
    unfolding Clear_def good_members u
    by (simp add: Receive_packet_def hvoid_def hbind_def hseq_def good_steps good_members)
  moreover obtain l1 where "hfor [0..<8] (settle_hicann 2) (good_board (l0 @ [Reset_software_arq]) w b) = (Inr (), good_board l1 w b)"
    using good_settles by blast
  ultimately show ?thesis by (simp add: finish_init_def hseq_def hbind_def good_steps good_members) blast
qed


subsection \<open>The older boards\<close>

abbreviation links_off :: "bringup \<Rightarrow> bool" where
  "links_off t \<equiv> link_states t = 0"

lemma start_links_dnc:
  assumes "\<not> k7fpga s"
  shows "run_with links_off s s0 \<Longrightarrow> run_with links_off s (snd (start_links n hs f s0))"
proof -
  assume a: "run_with links_off s s0"
  have "keeps (run_with links_off s) (hseq (hwhen (n > 0 \<or> f) reset_chain)
       (hbind fpga_dnc_init (\<lambda>ret. let tmp = push_bit 8 1 OR ucast hs in hret (ret AND tmp = tmp))))"
    unfolding Let_def by (intro keeps_intros reset_chain_keeps dnc_init_keeps; simp)
  moreover have "\<not> k7fpga s0" using a assms by (simp add: run_with_def run_def)
  ultimately show ?thesis using a by (simp add: start_links_def keeps_def)
qed

lemma attempts_dnc:
  assumes "\<not> k7fpga s"
  shows "keeps (run_with links_off s) (attempts r n hs f roe)"
proof (induction r arbitrary: n)
  case 0
  show ?case unfolding attempts.simps by (rule keeps_hret)
next
  case (Suc r)
  have st: "keeps (run_with links_off s) (start_links n hs f)" using start_links_dnc [OF assms] by (simp add: keeps_def)
  have one: "keeps (run_with links_off s) (one_attempt n hs f roe)"
    unfolding one_attempt_def by (intro keeps_intros st status_keeps; simp)
  have "keeps (run_with links_off s) (case a of Done \<Rightarrow> hret True | Failed \<Rightarrow> hret False | Again \<Rightarrow> attempts r (n + 1) hs f roe)" for a
    using Suc.IH by (cases a) (simp_all add: keeps_hret)
  then show ?case unfolding attempts.simps by (intro keeps_hbind one)
qed

text \<open>The commands for one HICANN at the end, when its link is down.\<close>

lemma settle_off:
  assumes "links_off s" "settle_hicann h i s = (Inr (), t)"
  shows "links_off t \<and> dnc2jtag_lut t = dnc2jtag_lut s \<and> (\<exists>l. jlog t = jlog s @ l \<and> HICANN_set_reset 1 \<notin> set l \<and>
    (bit h i \<longrightarrow> (\<exists>j pre post. dnc2jtag_lut s i = Some j \<and> l = pre @ [Set_hicann_pos j, HICANN_set_reset 0] @ post)))"
proof -
  have jd: "jdos cs u = (Inr (), u\<lparr>jlog := jlog u @ cs\<rparr>)" for cs u
    unfolding jdos_def by (induction cs arbitrary: u) (simp_all add: hseq_def hbind_def jdo_def)
  show ?thesis
  proof (cases "bit h i")
    case False
    then show ?thesis using assms by (auto simp: settle_hicann_def Let_def hwhen_def hseq_def hbind_def jd)
  next
    case True
    then obtain j where j: "dnc2jtag_lut s i = Some j"
      using assms by (auto simp: settle_hicann_def Let_def hwhen_def hseq_def hbind_def jd dnc2jtag_def split: option.splits)
    let ?post = "[HICANN_arq_write_rx_timeout (fst (hicann_ack_timeout s)) (snd (hicann_ack_timeout s)),
           HICANN_arq_write_tx_timeout (fst (hicann_resend_timeout s)) (snd (hicann_resend_timeout s)),
           HICANN_arq_write_ctrl 1 1, HICANN_arq_write_ctrl 0 0]"
    have t: "t = s\<lparr>jlog := jlog s @ [K7FPGA_set_hicannif i, K7FPGA_disable_config_output] @ [Set_hicann_pos j, HICANN_set_reset 0] @ ?post\<rparr>"
      using assms True j by (simp add: settle_hicann_def Let_def hwhen_def hseq_def hbind_def jd dnc2jtag_def jdo_def)
    have p: "dnc2jtag_lut s i = Some j \<and> [K7FPGA_set_hicannif i, K7FPGA_disable_config_output] @ [Set_hicann_pos j, HICANN_set_reset 0] @ ?post =
        [K7FPGA_set_hicannif i, K7FPGA_disable_config_output] @ [Set_hicann_pos j, HICANN_set_reset 0] @ ?post" using j by simp
    have "links_off t \<and> dnc2jtag_lut t = dnc2jtag_lut s" unfolding t using assms(1) by simp
    moreover have "jlog t = jlog s @ [K7FPGA_set_hicannif i, K7FPGA_disable_config_output] @ [Set_hicann_pos j, HICANN_set_reset 0] @ ?post"
      unfolding t by simp
    moreover have "HICANN_set_reset 1 \<notin> set ([K7FPGA_set_hicannif i, K7FPGA_disable_config_output] @ [Set_hicann_pos j, HICANN_set_reset 0] @ ?post)"
      by simp
    ultimately show ?thesis using p by blast
  qed
qed

lemma settles_off:
  assumes "links_off s" "hfor is (settle_hicann h) s = (Inr (), t)"
  shows "links_off t \<and> (\<exists>l. jlog t = jlog s @ l \<and> HICANN_set_reset 1 \<notin> set l \<and>
    (\<forall>i \<in> set is. bit h i \<longrightarrow> (\<exists>j pre post. dnc2jtag_lut s i = Some j \<and> l = pre @ [Set_hicann_pos j, HICANN_set_reset 0] @ post)))"
  using assms
proof (induction "is" arbitrary: s)
  case (Cons i "is")
  obtain s1 where s1: "settle_hicann h i s = (Inr (), s1)" "hfor is (settle_hicann h) s1 = (Inr (), t)"
    using Cons.prems(2) by (auto simp: hseq_def elim!: hbind_cases)
  obtain l1 where l1: "links_off s1" "dnc2jtag_lut s1 = dnc2jtag_lut s" "jlog s1 = jlog s @ l1" "HICANN_set_reset 1 \<notin> set l1"
      "bit h i \<longrightarrow> (\<exists>j pre post. dnc2jtag_lut s i = Some j \<and> l1 = pre @ [Set_hicann_pos j, HICANN_set_reset 0] @ post)"
    using settle_off [OF Cons.prems(1) s1(1)] by blast
  obtain l2 where l2: "links_off t" "jlog t = jlog s1 @ l2" "HICANN_set_reset 1 \<notin> set l2"
      "\<forall>i \<in> set is. bit h i \<longrightarrow> (\<exists>j pre post. dnc2jtag_lut s i = Some j \<and> l2 = pre @ [Set_hicann_pos j, HICANN_set_reset 0] @ post)"
    using Cons.IH [OF l1(1) s1(2)] l1(2) by auto
  have "\<exists>j pre post. dnc2jtag_lut s k = Some j \<and> l1 @ l2 = pre @ [Set_hicann_pos j, HICANN_set_reset 0] @ post"
    if k: "k \<in> set (i # is)" "bit h k" for k
  proof (cases "k = i")
    case True
    then obtain j pre post where "dnc2jtag_lut s k = Some j" "l1 = pre @ [Set_hicann_pos j, HICANN_set_reset 0] @ post"
      using l1(5) k(2) unfolding True by blast
    then show ?thesis by (intro exI [of _ j] exI [of _ pre] exI [of _ "post @ l2"]) simp
  next
    case False
    then obtain j pre post where "dnc2jtag_lut s k = Some j" "l2 = pre @ [Set_hicann_pos j, HICANN_set_reset 0] @ post" using l2(4) k by auto
    then show ?thesis by (intro exI [of _ j] exI [of _ "l1 @ pre"] exI [of _ post]) simp
  qed
  then show ?case using l1(3,4) l2(1,2,3) by (intro conjI exI [of _ "l1 @ l2"]) auto
qed auto

text \<open>On a board with a DNC an initialisation that reports success, started with no link marked as up,
  leaves no link marked as up, and after everything else it puts the interface of every requested HICANN into
  reset and does not release it: the links it has just tested are switched off again.\<close>

theorem dnc_links_switched_off:
  assumes "\<not> k7fpga s" "links_off s" "\<not> (disable_multiple_test_transmissions s \<and> test_transmissions_done s)"
    "Init hicann hs force roe s = (Inr Comm_ok, t)" "bit hicann i"
  shows "links_off t \<and> (\<exists>j pre post. dnc2jtag_lut s i = Some j \<and> jlog t = pre @ [Set_hicann_pos j, HICANN_set_reset 0] @ post \<and>
    HICANN_set_reset 1 \<notin> set post)"
proof -
  obtain s1 where s1: "attempts 10 0 hs force roe s = (Inr True, s1)" "finish_init hicann s1 = (Inr Comm_ok, t)"
    using Init_ok [OF assms(3,4)] by blast
  have "run_with links_off s s" using assms(2) by (simp add: run_with_def)
  from keepsD [OF attempts_dnc [OF assms(1)] this, of 10 0 hs force roe] have r1: "run_with links_off s s1" using s1(1) by simp
  let ?front = "hseq (set_fpga_reset False False False False True) (hseq Clear (jdo Reset_software_arq))"
  have fr: "finish_init hicann = hseq ?front (hseq (hfor [0..<8] (settle_hicann hicann)) (hret Comm_ok))"
    unfolding finish_init_def hseq_def hbind_assoc by simp
  obtain s2 where s2: "?front s1 = (Inr (), s2)" "hseq (hfor [0..<8] (settle_hicann hicann)) (hret Comm_ok) s2 = (Inr Comm_ok, t)"
    using s1(2) unfolding fr hseq_def [of ?front] by (rule hbind_cases) auto
  have s3: "hfor [0..<8] (settle_hicann hicann) s2 = (Inr (), t)" using s2(2) by (auto simp: hseq_def elim!: hbind_cases)
  have "keeps (run_with links_off s) ?front" by (intro keeps_intros; simp)
  from keepsD [OF this r1] have r2: "run_with links_off s s2" using s2(1) by simp
  then have "links_off s2" "dnc2jtag_lut s2 = dnc2jtag_lut s" by (simp_all add: run_with_def run_def)
  moreover have "i \<in> set [0..<8]" using bit_imp_le_length [OF assms(5)] by simp
  ultimately obtain l j pre post where l: "links_off t" "jlog t = jlog s2 @ l" "HICANN_set_reset 1 \<notin> set l"
      "dnc2jtag_lut s i = Some j" "l = pre @ [Set_hicann_pos j, HICANN_set_reset 0] @ post"
    using settles_off [of s2 "[0..<8]" hicann t] s3 assms(5) by metis
  then show ?thesis by (intro conjI exI [of _ j] exI [of _ "jlog s2 @ pre"] exI [of _ post]) auto
qed

text \<open>An older board with one HICANN whose links already run.\<close>

definition old_answer :: "jcall \<Rightarrow> u64" where
  "old_answer c = (case c of FPGA_get_status \<Rightarrow> 1 | DNC_read_channel_sts n \<Rightarrow> 1 | HICANN_read_status \<Rightarrow> 1
     | HICANN_get_rx_data \<Rightarrow> 0x1234 | FPGA_get_rx_data \<Rightarrow> 0xfedcba98 | _ \<Rightarrow> 0)"

definition old_board :: "jcall list \<Rightarrow> bool \<Rightarrow> bool \<Rightarrow> bringup" where
  "old_board l f b = \<lparr>jlog = l, jenv = (\<lambda>l. old_answer (last l)),
     fpga_arq = False, k7fpga = False, chain_length = 3, num_hicanns = 1, pos_fpga = 2, dnc2jtag_lut = [0 \<mapsto> 0], jtag2dnc_lut = [0 \<mapsto> 0],
     running_on_reticle = False, fpga_dnc_inited = f, l2_link_state = 0, test_transmissions_done = b, link_states = 0, trans_count = 1,
     hicann_ack_timeout = (15, 20), hicann_resend_timeout = (70, 100), disable_multiple_test_transmissions = False\<rparr>"

lemma old_steps:
  "jdo c (old_board l f b) = (Inr (), old_board (l @ [c]) f b)"
  "jdos cs (old_board l f b) = (Inr (), old_board (l @ cs) f b)"
  "jread c (old_board l f b) = (Inr (old_answer c), old_board (l @ [c]) f b)"
  "dnc2jtag 0 (old_board l f b) = (Inr 0, old_board l f b)"
proof -
  show jdo: "jdo c (old_board l f b) = (Inr (), old_board (l @ [c]) f b)" for c l by (simp add: jdo_def old_board_def)
  show "jdos cs (old_board l f b) = (Inr (), old_board (l @ cs) f b)"
    unfolding jdos_def by (induction cs arbitrary: l) (simp_all add: hseq_def hbind_def jdo)
  show "jread c (old_board l f b) = (Inr (old_answer c), old_board (l @ [c]) f b)"
    by (simp add: jread_def hseq_def hbind_def jdo) (simp add: old_board_def)
qed (simp add: dnc2jtag_def old_board_def)

lemma old_members:
  "fpga_arq (old_board l f b) = False"
  "set_fpga_reset c1 c2 c3 c4 c5 (old_board l f b) = (Inr (), old_board (l @ [Fpga_reset (fpga_reset_word c1 c2 c3 c4 c5)]) f b)"
  "k7fpga (old_board l f b) = False" "chain_length (old_board l f b) = 3" "trans_count (old_board l f b) = 1"
  "hicann_count (old_board l f b) = 1" "num_hicanns (old_board l f b) = 1" "l2_link_state (old_board l f b) = 0"
  "link_states (old_board l f b) = 0"
  by (simp_all add: set_fpga_reset_def old_steps) (simp_all add: old_board_def hicann_count_def)

lemma upto_1: "[0..<1] = [0 :: nat]" "[0..<Suc 0] = [0 :: nat]"
  by (simp_all add: upt_rec)

lemma old_start: "\<exists>l1. start_links 0 1 False (old_board l f b) = (Inr True, old_board l1 True b)"
proof -
  have c: "(3 :: nat) - 2 = 1" by simp
  have "fpga_dnc_init (old_board l f b) = (Inr 0x101, old_board (l @ [FPGA_get_status, DNC_read_channel_sts 8, Set_hicann_pos 0, DNC_read_channel_sts 0, HICANN_read_status]) True b)"
    unfolding fpga_dnc_init_def Let_def old_members c upto_1
    by (simp add: hbind_def hseq_def old_steps old_answer_def) (simp add: old_board_def hbind_def hseq_def jdo_def jread_def old_answer_def)
  then show ?thesis by (simp add: start_links_def old_members hbind_def hseq_def hwhen_def) blast
qed

lemma old_test: "\<exists>l1. test_transmission 0 1 (old_board l f b) = (Inr 0, old_board l1 f b)"
  unfolding test_transmission_def old_members Let_def upto_1
  by (simp add: hbind_def hseq_def hwhen_def old_steps old_answer_def old_members) blast

lemma bit_one: "bit (1 :: u8) n \<longleftrightarrow> n = 0" "bit (1 :: int) n \<longleftrightarrow> n = 0"
  by (cases n; simp add: bit_Suc)+

lemma old_attempt: "\<exists>l1. attempts 10 0 1 False r (old_board l f b) = (Inr True, old_board l1 True True)"
proof -
  obtain l1 where l1: "start_links 0 1 False (old_board l f b) = (Inr True, old_board l1 True b)" using old_start by blast
  obtain l2 where l2: "test_transmission 0 1 (old_board l1 True b) = (Inr 0, old_board l2 True b)" using old_test by blast
  have t: "test_links [0..<8] 1 (old_board l1 True b) = (Inr True, old_board l2 True b)"
    using l2 by (simp add: up_to_8 bit_one hbind_def old_members)
  have "one_attempt 0 1 False r (old_board l f b) = (Inr Done, old_board l2 True True)"
    using l1 t by (simp add: one_attempt_def hbind_def hseq_def) (simp add: old_board_def)
  moreover have "(10 :: nat) = Suc 9" by simp
  ultimately show ?thesis by (auto simp only: attempts.simps hbind_def prod.case sum.case attempt.case hret_app)
qed

lemma old_settle: "\<exists>l1. settle_hicann 1 i (old_board l f b) = (Inr (), old_board l1 f b)"
  by (cases "i = 0") (simp_all add: settle_hicann_def Let_def hbind_def hseq_def hwhen_def old_steps old_members bit_one, blast+)

lemma old_settles: "\<exists>l1. hfor is (settle_hicann 1) (old_board l f b) = (Inr (), old_board l1 f b)"
proof (induction "is" arbitrary: l)
  case (Cons i "is")
  obtain l1 where "settle_hicann 1 i (old_board l f b) = (Inr (), old_board l1 f b)" using old_settle by blast
  then show ?case using Cons [of l1] by (simp add: hseq_def hbind_def)
qed auto

lemma old_finish: "\<exists>l1. finish_init 1 (old_board l f b) = (Inr Comm_ok, old_board l1 f b)"
proof -
  obtain l0 where "Clear (old_board (l @ [Fpga_reset (fpga_reset_word False False False False True)]) f b) = (Inr (), old_board l0 f b)"
    unfolding Clear_def old_members upto_1
    by (simp add: Receive_packet_def hvoid_def hbind_def hseq_def old_steps old_members)
  moreover obtain l1 where "hfor [0..<8] (settle_hicann 1) (old_board (l0 @ [Reset_software_arq]) f b) = (Inr (), old_board l1 f b)"
    using old_settles by blast
  ultimately show ?thesis by (simp add: finish_init_def hseq_def hbind_def old_steps old_members) blast
qed

theorem dnc_links_switched_off_witness:
  "\<exists>t. Init 1 1 False True (old_board [] False False) = (Inr Comm_ok, t) \<and> links_off t \<and>
     (\<exists>j pre post. jlog t = pre @ [Set_hicann_pos j, HICANN_set_reset 0] @ post \<and> HICANN_set_reset 1 \<notin> set post)"
proof -
  let ?s = "old_board [] False False"
  obtain l1 where a: "attempts 10 0 1 False True ?s = (Inr True, old_board l1 True True)" using old_attempt by blast
  obtain l2 where f: "finish_init 1 (old_board l1 True True) = (Inr Comm_ok, old_board l2 True True)" using old_finish by blast
  have off: "links_off ?s" by (simp add: old_members)
  have d: "\<not> (disable_multiple_test_transmissions ?s \<and> test_transmissions_done ?s)" by (simp add: old_board_def)
  have h: "\<not> (NOT (1 :: u8) AND 1 \<noteq> 0)" by simp
  have i: "Init 1 1 False True ?s = hbind (attempts 10 0 1 False True) (\<lambda>d. if \<not> d then hret Comm_initfailed else finish_init 1) ?s"
    by (simp only: Init_def finish_init_def if_not_P [OF h] if_not_P [OF d])
  have I: "Init 1 1 False True ?s = (Inr Comm_ok, old_board l2 True True)" unfolding i using a f by (simp add: hbind_def)
  have k: "\<not> k7fpga ?s" "bit (1 :: u8) 0" by (simp_all add: old_members)
  show ?thesis using I dnc_links_switched_off [OF k(1) off d I k(2)] by blast
qed

end
