(* ===== verification/Board.thy ===== *)
theory Board
  imports Bringup Jtag_cmd
begin

text \<open>
  The bring-up of a Kintex-7 board (\<open>Bringup\<close>) on the JTAG object it drives (\<open>Jtag_cmd\<close>) and an Ethernet cable: the commands
  that the initialisation of one link logs are performed. The result: every command returns, and the interface to the HICANN
  is left with one fixed configuration.
\<close>

subsection \<open>Performing the commands of a link\<close>

text \<open>What a command is for the JTAG object; a command that the initialisation of a link does not use is not performed.\<close>

definition read_as :: "('i, 'a) jc \<Rightarrow> ('i, u64) jc" where
  "read_as m = jseq m (jret 0)"

fun perform :: "'i jobj \<Rightarrow> jcall \<Rightarrow> ('i, u64) jc" where
  "perform E (Set_hicann_pos j) = read_as (set_hicann_pos (of_nat j))"
| "perform E (Read_id j) = read_id E (Some 0) (of_nat j)"
| "perform E (jcall.HICANN_set_link_ctrl w) = read_as (HICANN_set_link_ctrl E (ucast w))"
| "perform E (jcall.HICANN_lvds_pads_en w) = read_as (HICANN_lvds_pads_en E (ucast w))"
| "perform E jcall.HICANN_start_link = read_as (HICANN_start_link E)"
| "perform E jcall.HICANN_stop_link = read_as (HICANN_stop_link E)"
| "perform E jcall.HICANN_read_status = HICANN_read_status E (Some 0)"
| "perform E (jcall.K7FPGA_set_hicannif i) = read_as (K7FPGA_set_hicannif E (of_nat i))"
| "perform E jcall.K7FPGA_stop_fpga_link = read_as (K7FPGA_stop_fpga_link E)"
| "perform E jcall.K7FPGA_start_fpga_link = read_as (K7FPGA_start_fpga_link E)"
| "perform E (jcall.K7FPGA_invert_rx_data b) = read_as (K7FPGA_invert_rx_data E b)"
| "perform E jcall.K7FPGA_get_hicannif_status = K7FPGA_get_hicannif_status E (Some 0)"
| "perform E (jcall.K7FPGA_set_hicannif_config w) = read_as (K7FPGA_set_hicannif_config E w)"
| "perform E _ = (\<lambda>_. None)"

fun perform_all :: "'i jobj \<Rightarrow> jcall list \<Rightarrow> ('i, unit) jc" where
  "perform_all E [] = jret ()"
| "perform_all E (x # xs) = jseq (perform E x) (perform_all E xs)"

text \<open>The registers of the object that a command changes: the selected interface, the copies of the configurations, the position.\<close>

definition obj_regs :: "'i cmdbase \<Rightarrow> u32 \<times> u32 list \<times> u32" where
  "obj_regs c = (c_nif c, c_conf c, c_pos_hicann c)"

definition reconf :: "(u32 \<Rightarrow> u32) \<Rightarrow> u32 \<times> u32 list \<times> u32 \<Rightarrow> u32 \<times> u32 list \<times> u32" where
  "reconf f = (\<lambda>(i, ws, p). (i, ws[unat i := f (ws ! unat i)], p))"

fun link_effect :: "jcall \<Rightarrow> u32 \<times> u32 list \<times> u32 \<Rightarrow> u32 \<times> u32 list \<times> u32" where
  "link_effect (Set_hicann_pos j) r = (fst r, fst (snd r), of_nat j)"
| "link_effect (jcall.K7FPGA_set_hicannif i) r = (of_nat i, snd r)"
| "link_effect jcall.K7FPGA_stop_fpga_link r = reconf (\<lambda>w. w AND NOT 1) r"
| "link_effect jcall.K7FPGA_start_fpga_link r = reconf (\<lambda>w. w OR 1) r"
| "link_effect (jcall.K7FPGA_invert_rx_data b) r = reconf (\<lambda>w. (w AND NOT (push_bit 28 1)) OR (if b then push_bit 28 1 else 0)) r"
| "link_effect (jcall.K7FPGA_set_hicannif_config w) r = reconf (\<lambda>_. w) r"
| "link_effect _ r = r"

text \<open>A board that is linked, and the commands with numbers of chips and interfaces that it has.\<close>

definition k7_linked :: "eth_env \<Rightarrow> ethernet cmdbase \<Rightarrow> ethernet \<Rightarrow> bool" where
  "k7_linked X c d = (linked (eth_ok X) c d \<and> c_chain_length c \<le> 9 \<and> unat (c_pos_fpga c) < unat (c_chain_length c) \<and>
     unat (c_pos_hicann c) < unat (c_chain_length c) \<and> c_nif c < 8 \<and> length (c_conf c) = 8)"

fun link_call :: "nat \<Rightarrow> jcall \<Rightarrow> bool" where
  "link_call n (Set_hicann_pos j) = (j < n)"
| "link_call n (Read_id j) = (j < n)"
| "link_call n (jcall.HICANN_set_link_ctrl _) = True"
| "link_call n (jcall.HICANN_lvds_pads_en _) = True"
| "link_call n jcall.HICANN_start_link = True"
| "link_call n jcall.HICANN_stop_link = True"
| "link_call n jcall.HICANN_read_status = True"
| "link_call n (jcall.K7FPGA_set_hicannif i) = (i < 8)"
| "link_call n jcall.K7FPGA_stop_fpga_link = True"
| "link_call n jcall.K7FPGA_start_fpga_link = True"
| "link_call n (jcall.K7FPGA_invert_rx_data _) = True"
| "link_call n jcall.K7FPGA_get_hicannif_status = True"
| "link_call n (jcall.K7FPGA_set_hicannif_config _) = True"
| "link_call n _ = False"

text \<open>A run from \<open>c\<close> to \<open>c'\<close>: the chain is the same and the cable was only clocked.\<close>

definition onward :: "eth_env \<Rightarrow> ethernet cmdbase \<Rightarrow> ethernet \<Rightarrow> ethernet cmdbase \<Rightarrow> ethernet \<Rightarrow> bool" where
  "onward X c d c' d' = (k7_linked X c' d' \<and> c_chain_length c' = c_chain_length c \<and> c_pos_fpga c' = c_pos_fpga c \<and>
     irlens (cb c') = irlens (cb c) \<and> (\<exists>rest. eth_stream d' = eth_stream d @ rest))"

lemma onward_refl: "k7_linked X c d \<Longrightarrow> onward X c d c d"
  by (simp add: onward_def)

lemma onward_trans: "onward X c d c1 d1 \<Longrightarrow> onward X c1 d1 c2 d2 \<Longrightarrow> onward X c d c2 d2"
  by (auto simp: onward_def)

text \<open>Setting registers of the object alone.\<close>

definition set_regs :: "u32 \<times> u32 list \<times> u32 \<Rightarrow> 'i cmdbase \<Rightarrow> 'i cmdbase" where
  "set_regs r c = c\<lparr>c_nif := fst r, c_conf := fst (snd r), c_pos_hicann := snd (snd r)\<rparr>"

lemma set_regs_simps [simp]:
  "cb (set_regs r c) = cb c" "c_chain_length (set_regs r c) = c_chain_length c" "c_pos_fpga (set_regs r c) = c_pos_fpga c" "obj_regs (set_regs r c) = r"
  "obj_regs (put_cable d c) = obj_regs c" "set_regs (obj_regs c) c = c" "obj_regs (set_regs r' c) = r'"
  by (simp_all add: set_regs_def obj_regs_def)

lemma onward_regs:
  assumes "k7_linked X c d" "eth_ok X d'" "eth_stream d' = eth_stream d @ rest" "r = (i, ws, p)" "i < 8" "length ws = 8" "unat p < unat (c_chain_length c)"
  shows "onward X c d (set_regs r (put_cable d' c)) d'"
proof -
  have "linked (eth_ok X) (put_cable d' c) d'" using assms(1,2) by (auto simp: k7_linked_def intro: linked_put)
  then have "linked (eth_ok X) (set_regs r (put_cable d' c)) d'" by (simp add: linked_def del: put_cable_simps)
  then show ?thesis using assms by (auto simp: onward_def k7_linked_def) (auto simp: set_regs_def irlens_def)
qed

subsection \<open>Every command returns\<close>

text \<open>A write of the FPGA or of the selected HICANN, and a read of it.\<close>

lemma k7_write:
  assumes "chain_link tdo X" "k7_linked X c d" "cable E = eth_ops X" "pos \<in> {c_pos_fpga, c_pos_hicann}" "width \<noteq> 0"
  shows "\<exists>d' ps qs. write_reg E cmd width pos w c = Some ((), put_cable d' c) \<and> eth_ok X d' \<and> eth_stream d' = eth_stream d @ ps @ qs \<and>
    reg_written c (pos c) cmd width w ps qs"
proof -
  have l: "linked (eth_ok X) c d" "unat (pos c) < unat (c_chain_length c)" "is_position pos" using assms(2,4) by (auto simp: k7_linked_def)
  show ?thesis using et.write_reg_reaches [OF l(1) assms(3) l(3,2) assms(5), of cmd w] by blast
qed

lemma k7_instr:
  assumes "chain_link tdo X" "k7_linked X c d" "cable E = eth_ops X" "pos \<in> {c_pos_fpga, c_pos_hicann}"
  shows "\<exists>d' ps. only_instr E cmd pos c = Some ((), put_cable d' c) \<and> eth_ok X d' \<and> eth_stream d' = eth_stream d @ ps"
proof -
  have l: "linked (eth_ok X) c d" "unat (pos c) < unat (c_chain_length c)" "is_position pos" using assms(2,4) by (auto simp: k7_linked_def)
  show ?thesis using instr_sent_eth [OF l(1) assms(3) l(3,2), of cmd] unfolding only_instr_def by blast
qed

lemma k7_read:
  assumes "chain_link tdo X" "k7_linked X c d" "cable E = eth_ops X" "is_position pos" "unat (pos c) < unat (c_chain_length c)" "width \<noteq> 0" "unat width \<le> 64"
  shows "\<exists>v d' rest. read_reg E cmd width pos old c = Some (v, put_cable d' c) \<and> eth_ok X d' \<and> eth_stream d' = eth_stream d @ rest"
proof -
  have l: "linked (eth_ok X) c d" "unat (c_chain_length c) \<le> 9" using assms(2) by (auto simp: k7_linked_def word_le_nat_alt)
  have b: "unat width + unat (pos c) \<le> 72" using assms(5,7) l(2) by simp
  show ?thesis using read_reg_eth [OF assms(1) l(1) assms(3-7) b, of cmd old] by blast
qed

definition returns_regs :: "eth_env \<Rightarrow> ethernet cmdbase \<Rightarrow> ethernet \<Rightarrow> (ethernet, u64) jc \<Rightarrow> u32 \<times> u32 list \<times> u32 \<Rightarrow> bool" where
  "returns_regs X c d m r = (\<exists>v c' d'. m c = Some (v, c') \<and> onward X c d c' d' \<and> obj_regs c' = r)"

lemma returns_regsI:
  assumes "k7_linked X c d" "m c = Some (v, set_regs r (put_cable d' c))" "eth_ok X d'" "eth_stream d' = eth_stream d @ rest" "r = (i, ws, p)" "i < 8" "length ws = 8"
    "unat p < unat (c_chain_length c)"
  shows "returns_regs X c d m r"
  using assms(2) onward_regs [OF assms(1,3-8)] unfolding returns_regs_def by (intro exI [of _ v] exI [of _ "set_regs r (put_cable d' c)"] exI [of _ d']) simp

lemma regs_ok: "k7_linked X c d \<Longrightarrow> obj_regs c = (c_nif c, c_conf c, c_pos_hicann c) \<and> c_nif c < 8 \<and> length (c_conf c) = 8 \<and> unat (c_pos_hicann c) < unat (c_chain_length c)"
  by (simp add: k7_linked_def obj_regs_def)

text \<open>A command that changes no register of the object.\<close>

lemma returns_same:
  assumes "k7_linked X c d" "m c = Some (v, put_cable d' c)" "eth_ok X d'" "eth_stream d' = eth_stream d @ rest"
  shows "returns_regs X c d m (obj_regs c)"
proof -
  have "m c = Some (v, set_regs (obj_regs c) (put_cable d' c))" using assms(2) set_regs_simps(6) [of "put_cable d' c"] by simp
  then show ?thesis using returns_regsI [OF assms(1) _ assms(3,4)] regs_ok [OF assms(1)] by blast
qed

lemma read_as_Some: "m c = Some ((), c') \<Longrightarrow> read_as m c = Some (0, c')"
  by (simp add: read_as_def jc_simps)

lemma read_as_write:
  assumes "chain_link tdo X" "k7_linked X c d" "cable E = eth_ops X" "pos \<in> {c_pos_fpga, c_pos_hicann}" "width \<noteq> 0"
  shows "returns_regs X c d (read_as (write_reg E cmd width pos w)) (obj_regs c)"
proof -
  obtain d' ps qs where w: "write_reg E cmd width pos w c = Some ((), put_cable d' c)" "eth_ok X d'" "eth_stream d' = eth_stream d @ ps @ qs"
    using k7_write [OF assms, of cmd w] by blast
  show ?thesis by (rule returns_same [where m = "read_as (write_reg E cmd width pos w)" and c = c, OF assms(2) read_as_Some [where m = "write_reg E cmd width pos w" and c = c, OF w(1)] w(2,3)])
qed

lemma read_as_instr:
  assumes "chain_link tdo X" "k7_linked X c d" "cable E = eth_ops X" "pos \<in> {c_pos_fpga, c_pos_hicann}"
  shows "returns_regs X c d (read_as (only_instr E cmd pos)) (obj_regs c)"
proof -
  obtain d' ps where i: "only_instr E cmd pos c = Some ((), put_cable d' c)" "eth_ok X d'" "eth_stream d' = eth_stream d @ ps"
    using k7_instr [OF assms, of cmd] by blast
  show ?thesis by (rule returns_same [where m = "read_as (only_instr E cmd pos)" and c = c, OF assms(2) read_as_Some [where m = "only_instr E cmd pos" and c = c, OF i(1)] i(2,3)])
qed

lemma returns_read:
  assumes "chain_link tdo X" "k7_linked X c d" "cable E = eth_ops X" "is_position pos" "unat (pos c) < unat (c_chain_length c)" "width \<noteq> 0" "unat width \<le> 64"
  shows "returns_regs X c d (read_reg E cmd width pos old) (obj_regs c)"
proof -
  obtain v d' rest where "read_reg E cmd width pos old c = Some (v, put_cable d' c)" "eth_ok X d'" "eth_stream d' = eth_stream d @ rest"
    using k7_read [OF assms, of cmd old] by blast
  then show ?thesis using returns_same [OF assms(2)] by blast
qed

text \<open>A configuration is kept in the object and written to the FPGA.\<close>

lemma linked_regs:
  assumes "k7_linked X c d" "r = (i, ws, p)" "i < 8" "length ws = 8" "unat p < unat (c_chain_length c)"
  shows "k7_linked X (set_regs r c) d"
  using assms by (auto simp: k7_linked_def linked_def) (simp_all add: set_regs_def)

lemma put_regs: "put_cable d (set_regs r c) = set_regs r (put_cable d c)"
  by (simp add: put_cable_def set_regs_def)

lemma k7_config:
  assumes "chain_link tdo X" "k7_linked X c d" "cable E = eth_ops X" "r = reconf (\<lambda>_. w) (obj_regs c)"
  shows "\<exists>d' ps qs. K7FPGA_set_hicannif_config E w c = Some ((), set_regs r (put_cable d' c)) \<and> eth_ok X d' \<and> eth_stream d' = eth_stream d @ ps @ qs \<and>
    reg_written c (c_pos_fpga c) K7CMD_DNCIF_CONFIG 29 (ucast w) ps qs"
proof -
  note o = regs_ok [OF assms(2)]
  have r: "r = (c_nif c, (c_conf c)[unat (c_nif c) := w], c_pos_hicann c)" using assms(4) o by (simp add: reconf_def)
  have l: "k7_linked X (set_regs r c) d" using linked_regs [OF assms(2) r] o by simp
  obtain d' ps qs where w: "write_reg E K7CMD_DNCIF_CONFIG 29 c_pos_fpga (ucast w) (set_regs r c) = Some ((), put_cable d' (set_regs r c))" "eth_ok X d'"
      "eth_stream d' = eth_stream d @ ps @ qs" "reg_written (set_regs r c) (c_pos_fpga (set_regs r c)) K7CMD_DNCIF_CONFIG 29 (ucast w) ps qs"
    using k7_write [OF assms(1) l assms(3), of c_pos_fpga 29 K7CMD_DNCIF_CONFIG "ucast w"] by auto
  have "c\<lparr>c_conf := (c_conf c)[unat (c_nif c) := w]\<rparr> = set_regs r c" unfolding r by (simp add: set_regs_def)
  then have "K7FPGA_set_hicannif_config E w c = Some ((), set_regs r (put_cable d' c))"
    using w(1) o by (simp add: K7FPGA_set_hicannif_config_def jc_simps put_regs)
  moreover have "reg_written c (c_pos_fpga c) K7CMD_DNCIF_CONFIG 29 (ucast w) ps qs" using w(4) by (simp add: reg_written_def one_instr_def)
  ultimately show ?thesis using w(2,3) by blast
qed

lemma k7_upd:
  assumes "chain_link tdo X" "k7_linked X c d" "cable E = eth_ops X"
  shows "\<exists>d' ps qs. upd_config E f c = Some ((), set_regs (reconf f (obj_regs c)) (put_cable d' c)) \<and> eth_ok X d' \<and> eth_stream d' = eth_stream d @ ps @ qs \<and>
    reg_written c (c_pos_fpga c) K7CMD_DNCIF_CONFIG 29 (ucast (f (c_conf c ! unat (c_nif c)))) ps qs"
proof -
  have n: "c_nif c < 8" using assms(2) by (simp add: k7_linked_def)
  have "reconf f (obj_regs c) = reconf (\<lambda>_. f (c_conf c ! unat (c_nif c))) (obj_regs c)" by (simp add: reconf_def obj_regs_def)
  from k7_config [OF assms this] n show ?thesis by (simp add: upd_config_def)
qed

lemma returns_reconf:
  assumes "k7_linked X c d" "m c = Some ((), set_regs (reconf f (obj_regs c)) (put_cable d' c))" "eth_ok X d'" "eth_stream d' = eth_stream d @ rest"
  shows "returns_regs X c d (read_as m) (reconf f (obj_regs c))"
proof -
  note o = regs_ok [OF assms(1)]
  have r: "reconf f (obj_regs c) = (c_nif c, (c_conf c)[unat (c_nif c) := f (c_conf c ! unat (c_nif c))], c_pos_hicann c)" using o by (simp add: reconf_def)
  show ?thesis by (rule returns_regsI [where m = "read_as m" and c = c, OF assms(1) read_as_Some [where m = m and c = c, OF assms(2)] assms(3,4) r]) (use o in simp_all)
qed

lemma returns_upd:
  assumes "chain_link tdo X" "k7_linked X c d" "cable E = eth_ops X"
  shows "returns_regs X c d (read_as (upd_config E f)) (reconf f (obj_regs c))"
proof -
  obtain d' ps qs where u: "upd_config E f c = Some ((), set_regs (reconf f (obj_regs c)) (put_cable d' c))" "eth_ok X d'" "eth_stream d' = eth_stream d @ ps @ qs"
    using k7_upd [OF assms, of f] by blast
  show ?thesis by (rule returns_reconf [where m = "upd_config E f" and c = c and f = f, OF assms(2) u])
qed

lemma returns_config:
  assumes "chain_link tdo X" "k7_linked X c d" "cable E = eth_ops X"
  shows "returns_regs X c d (read_as (K7FPGA_set_hicannif_config E w)) (reconf (\<lambda>_. w) (obj_regs c))"
proof -
  obtain d' ps qs where u: "K7FPGA_set_hicannif_config E w c = Some ((), set_regs (reconf (\<lambda>_. w) (obj_regs c)) (put_cable d' c))" "eth_ok X d'" "eth_stream d' = eth_stream d @ ps @ qs"
    using k7_config [OF assms refl, of w] by blast
  show ?thesis by (rule returns_reconf [where m = "K7FPGA_set_hicannif_config E w" and c = c and f = "\<lambda>_. w", OF assms(2) u])
qed

text \<open>The other two: the position of the HICANN, in the object only, and the interface, after a write to the FPGA.\<close>

lemma small_number: "i < 2 ^ 8 \<Longrightarrow> (ucast (of_nat i :: u8) :: u32) = of_nat i"
  by (simp add: word_unat_eq_iff unsigned_ucast_eq unsigned_of_nat take_bit_nat_eq_self)

lemma returns_position:
  assumes "k7_linked X c d" "j < unat (c_chain_length c)"
  shows "returns_regs X c d (read_as (set_hicann_pos (of_nat j))) (fst (obj_regs c), fst (snd (obj_regs c)), of_nat j)"
proof -
  note o = regs_ok [OF assms(1)]
  have j: "unat (of_nat j :: u32) = j" using assms unsigned_less [of "c_chain_length c", where 'a = nat]
    by (simp add: unsigned_of_nat take_bit_nat_eq_self)
  let ?r = "(c_nif c, c_conf c, of_nat j)"
  have l: "k7_linked X (set_regs ?r c) d" by (rule linked_regs [OF assms(1) refl]) (use o j assms(2) in simp_all)
  have "read_as (set_hicann_pos (of_nat j)) c = Some (0, set_regs ?r c)"
    by (simp add: read_as_def set_hicann_pos_def jc_simps set_regs_def)
  moreover have "onward X c d (set_regs ?r c) d" using l by (simp add: onward_def)
  ultimately show ?thesis using o unfolding returns_regs_def by auto
qed

lemma returns_interface:
  assumes "chain_link tdo X" "k7_linked X c d" "cable E = eth_ops X" "i < 8"
  shows "returns_regs X c d (read_as (K7FPGA_set_hicannif E (of_nat i))) (of_nat i, snd (obj_regs c))"
proof -
  note o = regs_ok [OF assms(2)]
  let ?r = "(of_nat i, c_conf c, c_pos_hicann c)"
  obtain d' ps qs where w: "write_reg E K7CMD_HICANN_CHNL 3 c_pos_fpga (ucast (of_nat i :: u8)) c = Some ((), put_cable d' c)" "eth_ok X d'"
      "eth_stream d' = eth_stream d @ ps @ qs"
    using k7_write [OF assms(1-3), of c_pos_fpga 3 K7CMD_HICANN_CHNL "ucast (of_nat i :: u8)"] by auto
  have u: "(ucast (of_nat i :: u8) :: u32) = of_nat i" using assms(4) by (intro small_number) simp
  have "(put_cable d' c)\<lparr>c_nif := of_nat i\<rparr> = set_regs ?r (put_cable d' c)" by (simp add: set_regs_def put_cable_def)
  then have "K7FPGA_set_hicannif E (of_nat i) c = Some ((), set_regs ?r (put_cable d' c))"
    using w(1) u by (simp add: K7FPGA_set_hicannif_def jc_simps)
  note s = read_as_Some [where m = "K7FPGA_set_hicannif E (of_nat i)" and c = c, OF this]
  have "of_nat i < (8 :: u32)" using assms(4) by (simp add: word_less_nat_alt unsigned_of_nat take_bit_nat_eq_self)
  then have "returns_regs X c d (read_as (K7FPGA_set_hicannif E (of_nat i))) ?r" using o
    by (intro returns_regsI [where m = "read_as (K7FPGA_set_hicannif E (of_nat i))" and c = c and r = ?r, OF assms(2) s w(2,3) refl]) simp_all
  then show ?thesis using o by simp
qed

lemma perform_returns:
  assumes "chain_link tdo X" "k7_linked X c d" "cable E = eth_ops X" "link_call (unat (c_chain_length c)) x"
  shows "returns_regs X c d (perform E x) (link_effect x (obj_regs c))"
proof -
  note w = read_as_write [OF assms(1-3)] and i = read_as_instr [OF assms(1-3)] and r = returns_read [OF assms(1-3)]
  have p: "unat (c_pos_fpga c) < unat (c_chain_length c)" "unat (c_pos_hicann c) < unat (c_chain_length c)" "unat (c_chain_length c) \<le> 9"
    using assms(2) by (simp_all add: k7_linked_def word_le_nat_alt)
  show ?thesis
  proof (cases x)
    case (Read_id j)
    have j: "j < unat (c_chain_length c)" using Read_id assms(4) by simp
    then have "(ucast (of_nat j :: u8) :: u32) = of_nat j" using p(3) by (intro small_number) simp
    moreover have "unat (of_nat j :: u32) = j" using j p(3) by (simp add: unsigned_of_nat take_bit_nat_eq_self)
    ultimately show ?thesis using Read_id j by (simp add: read_id_def r)
  qed (use assms(4) p in \<open>simp_all add: HICANN_set_link_ctrl_def HICANN_lvds_pads_en_def HICANN_start_link_def HICANN_stop_link_def
      HICANN_read_status_def K7FPGA_get_hicannif_status_def K7FPGA_stop_fpga_link_def K7FPGA_start_fpga_link_def K7FPGA_invert_rx_data_def
      w i r returns_position [OF assms(2)] returns_interface [OF assms(1-3)] returns_upd [OF assms(1-3)] returns_config [OF assms(1-3)]\<close>)
qed

text \<open>A sequence of commands returns and has their effects one after the other.\<close>

lemma perform_all_append: "perform_all E (xs @ ys) = jseq (perform_all E xs) (perform_all E ys)"
  by (induction xs) (auto simp: fun_eq_iff jc_simps split: option.split prod.split)

lemma perform_all_returns:
  assumes "chain_link tdo X" "k7_linked X c d" "cable E = eth_ops X" "\<forall>x\<in>set xs. link_call (unat (c_chain_length c)) x"
  shows "\<exists>c' d'. perform_all E xs c = Some ((), c') \<and> onward X c d c' d' \<and> obj_regs c' = fold link_effect xs (obj_regs c)"
  using assms(2,4)
proof (induction xs arbitrary: c d)
  case Nil
  then show ?case using onward_refl by (auto simp: jc_simps)
next
  case (Cons x xs)
  obtain v c1 d1 where x: "perform E x c = Some (v, c1)" "onward X c d c1 d1" "obj_regs c1 = link_effect x (obj_regs c)"
    using perform_returns [OF assms(1) Cons.prems(1) assms(3), of x] Cons.prems(2) by (auto simp: returns_regs_def)
  have "k7_linked X c1 d1" "c_chain_length c1 = c_chain_length c" using x(2) by (simp_all add: onward_def)
  then obtain c2 d2 where xs: "perform_all E xs c1 = Some ((), c2)" "onward X c1 d1 c2 d2" "obj_regs c2 = fold link_effect xs (obj_regs c1)"
    using Cons.IH [of c1 d1] Cons.prems(2) by auto
  then show ?case using x(1,3) onward_trans [OF x(2) xs(2)] by (intro exI [of _ c2] exI [of _ d2]) (simp add: jc_simps)
qed

subsection \<open>The configuration of a link\<close>

definition link_poll :: "jcall \<Rightarrow> bool" where
  "link_poll x = (x \<in> {jcall.HICANN_read_status, jcall.K7FPGA_get_hicannif_status})"

lemma poll_link_log:
  "poll_link r st ls s = (q, t) \<Longrightarrow> \<exists>l. jlog t = jlog s @ l \<and> list_all link_poll l \<and> (\<exists>k. q = Inr k)"
proof (induction r arbitrary: st ls s)
  case (Suc r)
  let ?s = "s\<lparr>jlog := jlog s @ [jcall.HICANN_read_status, jcall.K7FPGA_get_hicannif_status]\<rparr>"
  show ?case
  proof (cases "st AND 0x49 \<noteq> 0x49 \<or> ls AND 0x49 \<noteq> 0x49")
    case True
    obtain st' ls' where "poll_link r st' ls' ?s = (q, t)"
      using Suc.prems True by (auto simp: hbind_def hseq_def jread_def jdo_def hmodify_def hget_def)
    from Suc.IH [OF this] show ?thesis by (auto simp: link_poll_def)
  next
    case False
    then show ?thesis using Suc.prems by (auto simp: hret_def)
  qed
qed (auto simp: hret_def)

text \<open>The commands of one link up to where it is started, and after it.\<close>

definition link_setup :: "nat \<Rightarrow> nat \<Rightarrow> bool \<Rightarrow> jcall list" where
  "link_setup i j invert = [jcall.K7FPGA_set_hicannif i, Set_hicann_pos j, Read_id j, jcall.K7FPGA_stop_fpga_link, jcall.HICANN_stop_link] @
     (if invert then [jcall.K7FPGA_invert_rx_data True] else []) @
     [jcall.K7FPGA_get_hicannif_status, jcall.HICANN_set_link_ctrl 0x061, jcall.K7FPGA_set_hicannif_config 0x00c, jcall.HICANN_lvds_pads_en 0, jcall.HICANN_start_link]"

lemma init_link_log:
  assumes "init_link i s = (Inr True, t)"
  shows "\<exists>j l. dnc2jtag_lut s i = Some j \<and> list_all link_poll l \<and>
    jlog t = jlog s @ link_setup i j (running_on_reticle s \<and> i = 3) @ jcall.K7FPGA_start_fpga_link # l"
proof -
  obtain j where j: "dnc2jtag_lut s i = Some j"
    using assms by (cases "dnc2jtag_lut s i") (simp_all add: init_link_def hbind_def dnc2jtag_def)
  let ?s = "s\<lparr>jlog := jlog s @ link_setup i j (running_on_reticle s \<and> i = 3) @ [jcall.K7FPGA_start_fpga_link]\<rparr>"
  obtain ls q u where p: "poll_link 10 0 ls ?s = (q, u)" "jlog t = jlog u"
    using assms j unfolding init_link_def link_setup_def
    by (auto simp: hbind_def hseq_def dnc2jtag_def jdos_def jread_def jdo_def hmodify_def hget_def hret_def hwhen_def upd_links_def
      split: if_splits sum.splits prod.splits)
  show ?thesis using poll_link_log [OF p(1)] p(2) j by auto
qed

lemma setup_calls:
  assumes "i < 8" "j < n" "list_all link_poll l"
  shows "\<forall>x\<in>set (link_setup i j b). link_call n x" "\<forall>x\<in>set l. link_call n x" "fold link_effect l r = r"
proof -
  have "list_all (link_call n) (link_setup i j b)" using assms(1,2)
    by (cases b) (simp_all only: link_setup_def if_True if_False append.simps list.pred_inject link_call.simps simp_thms)
  then show "\<forall>x\<in>set (link_setup i j b). link_call n x" by (simp only: list_all_iff)
  have s: "link_call n x" "link_effect x r = r" if "link_poll x" for x r using that unfolding link_poll_def by auto
  show "\<forall>x\<in>set l. link_call n x" using assms(3) s(1) by (simp add: list_all_iff)
  show "fold link_effect l r = r" using assms(3) by (induction l) (simp_all add: s(2))
qed

text \<open>Whatever the configuration was, and whether the data were to be inverted or not.\<close>

lemma setup_effect:
  assumes "i < 8" "length ws = 8"
  shows "fold link_effect (link_setup i j b) (k, ws, p) = (of_nat i, ws[i := 0x00c], of_nat j)"
proof -
  have "unat (of_nat i :: u32) = i" using assms(1) by (simp add: unsigned_of_nat take_bit_nat_eq_self)
  then show ?thesis
    by (cases b) (simp_all only: link_setup_def if_True if_False append.simps fold.simps comp_apply id_apply link_effect.simps reconf_def prod.case
      fst_conv snd_conv list_update_overwrite)
qed

lemma reg_written_chain:
  "c_chain_length c1 = c_chain_length c \<Longrightarrow> irlens (cb c1) = irlens (cb c) \<Longrightarrow> reg_written c1 p cmd n w ps qs = reg_written c p cmd n w ps qs"
  by (simp add: reg_written_def one_instr_def Let_def cong: if_cong)

text \<open>Claim C38: A Kintex-7 board over Ethernet: when the initialisation of the link to a HICANN returns true, all its commands
  return on the JTAG object, the position they set is that of the HICANN in the chain, and the interface is left with the
  configuration 0x0d in the object, which was also written to the FPGA; those of the other interfaces are kept. The bit that
  inverts the received data is clear then, also for the HICANN on a wafer for which the initialisation sets it before.\<close>

theorem link_configured:
  assumes "init_link i s = (Inr True, t)" "dnc2jtag_lut s i = Some j" "chain_link tdo X" "cable E = eth_ops X" "k7_linked X c d" "i < 8"
    "j < unat (c_chain_length c)"
  shows "\<exists>l c' d'. jlog t = jlog s @ l \<and> perform_all E l c = Some ((), c') \<and> c_nif c' = of_nat i \<and> c_pos_hicann c' = of_nat j \<and>
    c_conf c' = (c_conf c)[i := 0x0d] \<and> \<not> bit (c_conf c' ! i) 28 \<and> jtag_obj (cb c') = Some d' \<and>
    (\<exists>before ps qs after. eth_stream d' = eth_stream d @ before @ ps @ qs @ after \<and> reg_written c (c_pos_fpga c) K7CMD_DNCIF_CONFIG 29 0x0d ps qs)"
proof -
  obtain l where l: "list_all link_poll l"
      "jlog t = jlog s @ link_setup i j (running_on_reticle s \<and> i = 3) @ jcall.K7FPGA_start_fpga_link # l"
    using init_link_log [OF assms(1)] assms(2) by auto
  let ?pre = "link_setup i j (running_on_reticle s \<and> i = 3)"
  note v = setup_calls [OF assms(6,7) l(1)]
  have len: "length (c_conf c) = 8" using assms(5) by (simp add: k7_linked_def)
  obtain c1 d1 where p: "perform_all E ?pre c = Some ((), c1)" "onward X c d c1 d1" "obj_regs c1 = fold link_effect ?pre (obj_regs c)"
    using perform_all_returns [OF assms(3,5,4) v(1)] by blast
  have k1: "k7_linked X c1 d1" "c_chain_length c1 = c_chain_length c" "c_pos_fpga c1 = c_pos_fpga c" "irlens (cb c1) = irlens (cb c)"
    using p(2) by (simp_all add: onward_def)
  have r1: "obj_regs c1 = (of_nat i, (c_conf c)[i := 0x00c], of_nat j)"
    unfolding p(3) conjunct1 [OF regs_ok [OF assms(5)]] by (rule setup_effect [OF assms(6) len])
  have w: "c_conf c1 ! unat (c_nif c1) OR 1 = 0x0d" and ri: "reconf (\<lambda>w. w OR 1) (obj_regs c1) = (of_nat i, (c_conf c)[i := 0x0d], of_nat j)"
  proof -
    have u: "unat (of_nat i :: u32) = i" using assms(6) by (simp add: unsigned_of_nat take_bit_nat_eq_self)
    show "c_conf c1 ! unat (c_nif c1) OR 1 = 0x0d" using r1 u len assms(6) by (simp add: obj_regs_def)
    show "reconf (\<lambda>w. w OR 1) (obj_regs c1) = (of_nat i, (c_conf c)[i := 0x0d], of_nat j)" unfolding r1 reconf_def using u len assms(6) by simp
  qed
  obtain d2 ps qs where s: "K7FPGA_start_fpga_link E c1 = Some ((), set_regs (of_nat i, (c_conf c)[i := 0x0d], of_nat j) (put_cable d2 c1))" "eth_ok X d2"
      "eth_stream d2 = eth_stream d1 @ ps @ qs" "reg_written c1 (c_pos_fpga c1) K7CMD_DNCIF_CONFIG 29 0x0d ps qs"
  proof -
    obtain d2 ps qs where u: "upd_config E (\<lambda>w. w OR 1) c1 = Some ((), set_regs (reconf (\<lambda>w. w OR 1) (obj_regs c1)) (put_cable d2 c1))" "eth_ok X d2"
        "eth_stream d2 = eth_stream d1 @ ps @ qs"
        "reg_written c1 (c_pos_fpga c1) K7CMD_DNCIF_CONFIG 29 (ucast (c_conf c1 ! unat (c_nif c1) OR 1)) ps qs"
      using k7_upd [OF assms(3) k1(1) assms(4), of "\<lambda>w. w OR 1"] by blast
    have "(ucast (0x0d :: u32) :: u64) = 0x0d" by simp
    with u show thesis using that unfolding w ri K7FPGA_start_fpga_link_def by simp
  qed
  let ?c2 = "set_regs (of_nat i, (c_conf c)[i := 0x0d], of_nat j) (put_cable d2 c1)"
  have k2: "k7_linked X ?c2 d2"
    using onward_regs [OF k1(1) s(2,3) refl, of "of_nat i" "(c_conf c)[i := 0x0d]" "of_nat j"] regs_ok [OF k1(1)] r1 len by (simp add: onward_def)
  obtain c3 d3 where q: "perform_all E l ?c2 = Some ((), c3)" "onward X ?c2 d2 c3 d3" "obj_regs c3 = fold link_effect l (obj_regs ?c2)"
    using perform_all_returns [OF assms(3) k2 assms(4), of l] v(2) k1(2) by auto
  have r3: "obj_regs c3 = (of_nat i, (c_conf c)[i := 0x0d], of_nat j)" using q(3) v(3) by simp
  have run: "perform_all E (?pre @ jcall.K7FPGA_start_fpga_link # l) c = Some ((), c3)"
    using p(1) q(1) read_as_Some [where m = "K7FPGA_start_fpga_link E" and c = c1, OF s(1)] by (simp add: perform_all_append jc_simps)
  have obj: "jtag_obj (cb c3) = Some d3" using q(2) by (simp add: onward_def k7_linked_def linked_def ready_def)
  have rw: "reg_written c (c_pos_fpga c) K7CMD_DNCIF_CONFIG 29 0x0d ps qs" using s(4) reg_written_chain [OF k1(2,4)] k1(3) by simp
  obtain before after where st: "eth_stream d1 = eth_stream d @ before" "eth_stream d3 = eth_stream d2 @ after" using p(2) q(2) by (auto simp: onward_def)
  have e: "eth_stream d3 = eth_stream d @ before @ ps @ qs @ after" using st s(3) by simp
  have b: "\<not> bit (0x0d :: u32) 28" by simp
  have z: "c_nif c3 = of_nat i" "c_pos_hicann c3 = of_nat j" "c_conf c3 = (c_conf c)[i := 0x0d]" using r3 by (simp_all add: obj_regs_def)
  have "\<not> bit (c_conf c3 ! i) 28" unfolding z(3) using b len assms(6) by simp
  note nb = this
  show ?thesis
  proof (intro exI conjI)
    show "jlog t = jlog s @ ?pre @ jcall.K7FPGA_start_fpga_link # l" by (rule l(2))
    show "perform_all E (?pre @ jcall.K7FPGA_start_fpga_link # l) c = Some ((), c3)" by (rule run)
    show "c_nif c3 = of_nat i" "c_pos_hicann c3 = of_nat j" "c_conf c3 = (c_conf c)[i := 0x0d]" by (rule z)+
    show "\<not> bit (c_conf c3 ! i) 28" by (rule nb)
    show "jtag_obj (cb c3) = Some d3" by (rule obj)
    show "eth_stream d3 = eth_stream d @ before @ ps @ qs @ after" by (rule e)
    show "reg_written c (c_pos_fpga c) K7CMD_DNCIF_CONFIG 29 0x0d ps qs" by (rule rw)
  qed
qed

text \<open>The second link of the demonstration board, on the chain of an FPGA and two HICANNs.\<close>

theorem link_configured_witness:
  "\<exists>t c' d'. init_link 1 (good_board [] 0 False) = (Inr True, t) \<and>
    perform_all (demo_jobj (\<lambda>_. True)) (jlog t) (put_cable d' (with_chain (jtag_cmdbase True False 2 0 True demo_eth_access))) = Some ((), c') \<and>
    c_conf c' = [0x0004000c, 0x0d, 0x0004000c, 0x0004000c, 0x0004000c, 0x0004000c, 0x0004000c, 0x0004000c]"
proof -
  let ?c0 = "jtag_cmdbase True False 2 0 True demo_eth_access :: ethernet cmdbase" and ?X = "demo_env (\<lambda>_. True)"
  have d: "jtag_obj (cb ?c0) = Some demo_eth" "eth_ok ?X demo_eth" "\<not> isXilinxJtag (cb ?c0)"
    using demo_eth_ready(1) [of "\<lambda>_. True"] by (auto simp: ready_def demo_eth_access_def cmdbase_k7)
  have n: "c_chain_length ?c0 = c_hicann_num ?c0 + 1" "unat (c_hicann_num ?c0) \<le> 30" by (simp_all add: cmdbase_k7)
  note w = with_chain_linked [where ok = "eth_ok ?X" and c = ?c0 and d = demo_eth, OF d n]
  let ?c = "put_cable demo_eth (with_chain ?c0)"
  have len: "unat (c_chain_length ?c) = 3" using w(4) by (simp add: cmdbase_k7)
  have conf: "c_conf ?c = replicate 8 0x0004000c" "c_nif ?c = 0" "c_pos_fpga ?c = 2" "c_pos_hicann ?c = 0"
    by (simp_all add: with_chain_def cmdbase_k7) (simp_all add: jtag_cmdbase_def jtag_cmdbase_init_def Let_def)
  have k: "k7_linked ?X ?c demo_eth"
    using linked_put [OF w(1) d(2)] len conf by (simp add: k7_linked_def word_le_nat_alt del: put_cable_simps)
  obtain l1 where i: "init_link 1 (good_board [] 0 False) = (Inr True, good_board l1 (set_bit 1 0) False)" using good_link by blast
  have j: "dnc2jtag_lut (good_board [] 0 False) 1 = Some 0" and log: "jlog (good_board [] 0 False) = []" by (simp_all add: good_board_def)
  have E: "cable (demo_jobj (\<lambda>_. True)) = eth_ops ?X" by (simp add: demo_jobj_def)
  have l: "(1 :: nat) < 8" "0 < unat (c_chain_length ?c)" using len by simp_all
  obtain ls c' where r: "jlog (good_board l1 (set_bit 1 0) False) = jlog (good_board [] 0 False) @ ls" "perform_all (demo_jobj (\<lambda>_. True)) ls ?c = Some ((), c')"
      "c_conf c' = (c_conf ?c)[1 := 0x0d]"
    using link_configured [OF i j demo_link E k l] by blast
  have "(replicate 8 0x0004000c)[1 := 0x0d] = [0x0004000c, 0x0d, 0x0004000c, 0x0004000c, 0x0004000c, 0x0004000c, 0x0004000c, 0x0004000c :: u32]"
    by (simp add: numeral_eq_Suc)
  then show ?thesis using i r log conf(1) by (intro exI [of _ "good_board l1 (set_bit 1 0) False"] exI [of _ c'] exI [of _ demo_eth]) simp
qed

end
