(* ===== verification/Reticle.thy ===== *)
theory Reticle
  imports L1switch Repeater Neuron Fg Neuronbuilder Synapse Fpgaarq Bringup Jtag_cmd "HOL-Library.Multiset"
begin

text \<open>
  What the host's classes are put together from: the remaining small control modules (\<open>spl1_control.cpp\<close>, \<open>dncif_control.cpp\<close>,
  \<open>dnc_control.cpp\<close>), all control modules of one HICANN with their addresses (\<open>hicann_ctrl.cpp\<close>) and the
  objects for reticles (\<open>reticle_control.cpp\<close>). The results: the modules divide the addresses of a chip among them; and at most
  one live initialised object has a reticle.
\<close>

subsection \<open>Small control modules\<close>

definition spl1_write_cfg :: "u32 \<Rightarrow> ('z ctrlmod_scheme, unit) hal" where
  "spl1_write_cfg spl1_ctrl = hvoid (write_cmd 0 spl1_ctrl)"

definition spl1_write_reset :: "('z ctrlmod_scheme, unit) hal" where
  "spl1_write_reset = hvoid (write_cmd 0 0x80000000)"

definition spl1_read_counter :: "u32 \<Rightarrow> ('z ctrlmod_scheme, unit) hal" where
  "spl1_read_counter num = hvoid (read_cmd (ucast num))"

text \<open>The answers in the queue; a missing one throws.\<close>

primrec spl1_get_read_counter :: "nat \<Rightarrow> ('z ctrlmod_scheme, u32 list) hal" where
  "spl1_get_read_counter 0 = hret []"
| "spl1_get_read_counter (Suc n) = hbind get_data (\<lambda>d. hbind (spl1_get_read_counter n) (\<lambda>ds. hret (pdat d # ds)))"

definition write_link_ctrl :: "u32 \<Rightarrow> ('z ctrlmod_scheme, unit) hal" where
  "write_link_ctrl ctrl_vector = hvoid (write_cmd 0 (ctrl_vector mod 512))"

definition dncif_read_status :: "('z ctrlmod_scheme, unit) hal" where
  "dncif_read_status = hvoid (read_cmd 0)"

definition dncif_get_read_status :: "('z ctrlmod_scheme, u32) hal" where
  "dncif_get_read_status = hbind get_data (\<lambda>d. hret (pdat d))"

text \<open>The DNC is reached over JTAG; a Kintex-7 board has none.\<close>

definition setTimeStampCtrl :: "'i jobj \<Rightarrow> u8 \<Rightarrow> ('i, unit) jc" where
  "setTimeStampCtrl E tsc = (\<lambda>c. if c_kintex c then Some ((), c) else DNC_set_timestamp_ctrl E tsc c)"

definition setDirection :: "'i jobj \<Rightarrow> u64 \<Rightarrow> ('i, unit) jc" where
  "setDirection E dirs = (\<lambda>c. if c_kintex c then Some ((), c) else DNC_set_l1direction E dirs c)"

subsection \<open>The control modules of a HICANN\<close>

definition tagid_fast :: u32 where "tagid_fast = 1"
definition tagid_slow :: u32 where "tagid_slow = 0"

record hicann =
  h_addr :: nat
  c_spl1 :: ctrlmod
  c_dncif :: ctrlmod
  nbc :: neuronbuilder
  nc :: neuron_control
  synapse_control :: "synapse list"
  fg_control :: "fgctl list"
  l1_switch_control :: "l1switch list"
  repeater_control :: "repeater list"

definition CtrlModule_new :: "bus \<Rightarrow> u32 \<Rightarrow> adrspc \<Rightarrow> ctrlmod" where
  "CtrlModule_new c ta a = \<lparr>bus = c, ctag = ta, startaddr = astart a, maxaddr = amax a\<rparr>"

definition HicannCtrl_new :: "hicann_v \<Rightarrow> bus \<Rightarrow> nat \<Rightarrow> hicann" where
  "HicannCtrl_new v c chip =
     (let sc = (\<lambda>l a. SynapseControl_new l c tagid_fast (astart a) (amax a)); fg = (\<lambda>l a. FGControl_new l c tagid_slow (astart a) (amax a));
          lc = (\<lambda>l a. L1SwitchControl_new l c tagid_slow (astart a) (amax a)); rc = (\<lambda>l a. RepeaterControl_new l c tagid_slow (astart a) (amax a)) in
      \<lparr>h_addr = chip, c_spl1 = CtrlModule_new c tagid_slow OcpSpl1, c_dncif = CtrlModule_new c tagid_slow OcpDncIf,
       nbc = NeuronBuilderControl_new c tagid_slow (astart OcpNeuronBuilder) (amax OcpNeuronBuilder),
       nc = NeuronControl_new v c tagid_slow (astart OcpNeuronCtrl) (amax OcpNeuronCtrl),
       synapse_control = [sc DSCT OcpStdpCtrl_t, sc DSCB OcpStdpCtrl_b],
       fg_control = [fg FGTL OcpFgate_tl, fg FGTR OcpFgate_tr, fg FGBL OcpFgate_bl, fg FGBR OcpFgate_br],
       l1_switch_control = [lc SYNTL OcpSyn_tl, lc SYNTR OcpSyn_tr, lc CBL OcpCb_l, lc CBR OcpCb_r, lc SYNBL OcpSyn_bl, lc SYNBR OcpSyn_br],
       repeater_control = [rc REPTL OcpRep_tl, rc REPTR OcpRep_tr, rc REPL OcpRep_l, rc REPR OcpRep_r, rc REPBL OcpRep_bl, rc REPBR OcpRep_br]\<rparr>)"

text \<open>The tag, the first and the highest local address of a module.\<close>

definition space :: "'z ctrlmod_scheme \<Rightarrow> u32 \<times> u16 \<times> u16" where
  "space m = (ctag m, startaddr m, maxaddr m)"

definition module_spaces :: "hicann \<Rightarrow> (u32 \<times> u16 \<times> u16) list" where
  "module_spaces h = [space (c_spl1 h), space (c_dncif h), space (nbc h), space (nc h)] @ map space (synapse_control h) @
     map space (fg_control h) @ map space (l1_switch_control h) @ map space (repeater_control h)"

definition in_space :: "u32 \<Rightarrow> u16 \<Rightarrow> u32 \<times> u16 \<times> u16 \<Rightarrow> bool" where
  "in_space tag a = (\<lambda>(t, st, mx). t = tag \<and> unat st \<le> unat a \<and> unat a \<le> unat st + unat mx)"

subsection \<open>The modules divide the addresses\<close>

text \<open>All spaces begin and end at a multiple of 512, so it is enough to look at the blocks of this size.\<close>

definition spaces :: "(u32 \<times> u16 \<times> u16) list" where
  "spaces = module_spaces (HicannCtrl_new HV1 \<lparr>issued = [], rxdata = (\<lambda>_. []), env = []\<rparr> 0)"

lemmas module_defs = CtrlModule_new_def NeuronBuilderControl_new_def NeuronControl_new_def SynapseControl_new_def FGControl_new_def
  L1SwitchControl_new_def RepeaterControl_new_def

lemma module_spaces: "module_spaces (HicannCtrl_new v c chip) = spaces"
  by (simp add: spaces_def module_spaces_def HicannCtrl_new_def module_defs Let_def space_def)

definition has_block :: "u32 \<Rightarrow> nat \<Rightarrow> u32 \<times> u16 \<times> u16 \<Rightarrow> bool" where
  "has_block tag q = (\<lambda>(t, st, mx). t = tag \<and> unat st div 512 \<le> q \<and> q \<le> (unat st + unat mx) div 512)"

definition aligned :: "u32 \<times> u16 \<times> u16 \<Rightarrow> bool" where
  "aligned = (\<lambda>(t, st, mx). unat st mod 512 = 0 \<and> (unat st + unat mx + 1) mod 512 = 0 \<and> unat st + unat mx < 2 ^ 16)"

lemma spaces_list: "spaces = [(0, 0xf800, 0x7ff), (0, 0xf000, 0x7ff), (0, 0x6000, 0x1fff), (0, 0x4000, 0x1fff), (1, 0, 0x7fff), (1, 0x8000, 0x7fff),
    (0, 0x8000, 0x1fff), (0, 0xdc00, 0x1ff), (0, 0xb000, 0xfff), (0, 0xde00, 0x1ff), (0, 0xe000, 0x7ff), (0, 0xd000, 0x1ff), (0, 0, 0x1fff),
    (0, 0xd400, 0x1ff), (0, 0xa000, 0xfff), (0, 0xd200, 0x1ff), (0, 0xe800, 0x7ff), (0, 0xd800, 0x1ff), (0, 0x2000, 0x1fff), (0, 0xd600, 0x1ff),
    (0, 0xc000, 0xfff), (0, 0xda00, 0x1ff)]"
  by (simp add: spaces_def module_spaces_def HicannCtrl_new_def module_defs Let_def space_def tagid_slow_def tagid_fast_def ocp_defs)

lemma spaces_aligned: "list_all aligned spaces"
  unfolding spaces_list by (simp add: aligned_def)

definition slow_blocks :: "(int \<times> int) list" where
  "slow_blocks = [(124, 127), (120, 123), (48, 63), (32, 47), (64, 79), (110, 110), (88, 95), (111, 111), (112, 115), (104, 104), (0, 15),
     (106, 106), (80, 87), (105, 105), (116, 119), (108, 108), (16, 31), (107, 107), (96, 103), (109, 109)]"

definition covering :: "int \<Rightarrow> (int \<times> int) list \<Rightarrow> nat" where
  "covering q bs = length (filter (\<lambda>(l, h). l \<le> q \<and> q \<le> h) bs)"

lemma slow_blocks: "list_all (\<lambda>q. covering q slow_blocks = 1) [0..127]"
  unfolding slow_blocks_def covering_def by code_simp

lemma covering_Cons: "covering q ((l, h) # bs) = of_bool (l \<le> q \<and> q \<le> h) + covering q bs" "covering q [] = 0"
  by (simp_all add: covering_def)

lemma count_Cons: "length (filter P (x # xs)) = of_bool (P x) + length (filter P xs)"
  by simp

lemma slow_spaces: "length (filter (has_block 0 q) spaces) = covering (int q) slow_blocks"
proof -
  have n: "(numeral k \<le> int q) = (numeral k \<le> q)" "(int q \<le> numeral k) = (q \<le> numeral k)" for k by simp_all
  show ?thesis unfolding spaces_list slow_blocks_def count_Cons covering_Cons has_block_def prod.case n by simp
qed

lemma fast_spaces: "q < 128 \<Longrightarrow> length (filter (has_block 1 q) spaces) = 1"
  unfolding spaces_list by (simp add: count_Cons has_block_def del: filter.simps(2))

lemma spaces_blocks: "tag < 2 \<Longrightarrow> q < 128 \<Longrightarrow> length (filter (has_block tag q) spaces) = 1"
proof -
  assume "tag < 2" and q: "q < 128"
  then have "tag = 0 \<or> tag = 1" by unat_arith
  moreover have "int q \<in> set [0..127]" using q by simp
  then have "covering (int q) slow_blocks = 1" using slow_blocks by (simp only: list_all_iff)
  ultimately show ?thesis using slow_spaces [of q] fast_spaces [OF q] by auto
qed

lemma in_block:
  assumes "aligned s"
  shows "in_space tag a s = has_block tag (unat a div 512) s"
proof -
  obtain t st mx where s: "s = (t, st, mx)" by (cases s)
  have b: "(x \<le> n) = (x div 512 \<le> n div 512)" if "x mod 512 = 0" for x n :: nat
  proof
    show "x div 512 \<le> n div 512" if "x \<le> n" using that by (rule div_le_mono)
    assume "x div 512 \<le> n div 512"
    then have "512 * (x div 512) \<le> 512 * (n div 512)" by simp
    also have "\<dots> \<le> n" by simp
    finally show "x \<le> n" using that mult_div_mod_eq [of 512 x] by simp
  qed
  have e: "(n \<le> y) = (n div 512 \<le> y div 512)" if "(y + 1) mod 512 = 0" for y n :: nat
  proof
    show "n div 512 \<le> y div 512" if "n \<le> y" using that by (rule div_le_mono)
    assume "n div 512 \<le> y div 512"
    moreover have "y mod 512 = 511" using that by (simp add: mod_Suc split: if_splits)
    then have "y = 512 * (y div 512) + 511" using mult_div_mod_eq [of 512 y] by simp
    moreover have "n < 512 * (n div 512) + 512" by (simp add: dividend_less_times_div)
    ultimately show "n \<le> y" by linarith
  qed
  show ?thesis using assms b [of "unat st" "unat a"] e [of "unat st + unat mx" "unat a"]
    by (simp add: s in_space_def has_block_def aligned_def)
qed

lemma filter_one:
  assumes "length (filter P xs) = 1"
  shows "\<exists>!i. i < length xs \<and> P (xs ! i)"
proof -
  have "card {i. i < length xs \<and> P (xs ! i)} = 1" using assms by (simp add: length_filter_conv_card)
  then obtain i where "{i. i < length xs \<and> P (xs ! i)} = {i}" by (rule card_1_singletonE)
  then show ?thesis by (intro ex1I [of _ i]) (simp_all add: set_eq_iff)
qed

text \<open>A command that a module issues is for its own space.\<close>

lemma command_in_space:
  assumes "aligned (space m)" "write_cmd r d m = (Inr x, t)"
  shows "\<exists>p. issued (bus t) = issued (bus m) @ [(ctag m, p)] \<and> in_space (ctag m) (paddr p) (space m)"
  using assms(2)
proof (cases rule: write_cmd_cases [of r d m])
  case (written b)
  have "unat (r + startaddr m) = unat r + unat (startaddr m)" using written(2) assms(1)
    by (intro unat_add_lem [THEN iffD1]) (simp add: aligned_def space_def word_le_nat_alt)
  then show ?thesis using written assms by (simp add: in_space_def space_def word_le_nat_alt)
qed simp_all

text \<open>Claim C39: The control modules of a HICANN divide its addresses: on each of the two tags every address belongs to exactly one of
  the 22 modules; and a command that one of them writes, at whatever local address, is for an address of its own.\<close>

theorem modules_divide_addresses:
  assumes "tag < 2"
  shows "(\<exists>!i. i < length (module_spaces (HicannCtrl_new v c chip)) \<and> in_space tag a (module_spaces (HicannCtrl_new v c chip) ! i)) \<and>
    (\<forall>m r d x t. space m \<in> set (module_spaces (HicannCtrl_new v c chip)) \<and> write_cmd r d m = (Inr x, t) \<longrightarrow>
      (\<exists>p. issued (bus t) = issued (bus m) @ [(ctag m, p)] \<and> in_space (ctag m) (paddr p) (space m)))"
proof -
  have "unat a div 512 < 128" using unsigned_less [of a, where 'a = nat] by simp
  from filter_one [OF spaces_blocks [OF assms this]]
  have "\<exists>!i. i < length spaces \<and> has_block tag (unat a div 512) (spaces ! i)" .
  then have "\<exists>!i. i < length spaces \<and> in_space tag a (spaces ! i)"
    using spaces_aligned by (simp add: in_block list_all_length cong: conj_cong)
  moreover have "aligned (space m)" if "space m \<in> set spaces" for m :: "'z ctrlmod_scheme"
    using that spaces_aligned by (simp add: list_all_iff)
  ultimately show ?thesis using command_in_space unfolding module_spaces by blast
qed

theorem modules_divide_addresses_witness:
  "\<exists>!i. i < length (module_spaces (HicannCtrl_new HV2 \<lparr>issued = [], rxdata = (\<lambda>_. []), env = []\<rparr> 3)) \<and>
    in_space 0 0x4010 (module_spaces (HicannCtrl_new HV2 \<lparr>issued = [], rxdata = (\<lambda>_. []), env = []\<rparr> 3) ! i)"
  by (rule modules_divide_addresses [of 0, THEN conjunct1]) simp

subsection \<open>Reticles\<close>

text \<open>
  The objects of \<open>ReticleControl\<close> that live, by their addresses, with their reticle and whether they were initialised, and the
  multiset of reticles that have an object. The initialisation opens cables and sockets; it is given by what they answer.
\<close>

record reticles =
  instantiated :: "nat multiset"
  live_objs :: "nat \<rightharpoonup> nat \<times> bool"

definition isInstantiated :: "nat \<Rightarrow> reticles \<Rightarrow> bool" where
  "isInstantiated seq_num w = (seq_num \<in># instantiated w)"

definition reticle_init :: "bool \<Rightarrow> bool \<Rightarrow> bool \<Rightarrow> hal_error + unit" where
  "reticle_init arq_mode jtag_opened jtag_inited =
     (if \<not> arq_mode then Inl Runtime_error else if \<not> jtag_opened then Inl Runtime_error else if \<not> jtag_inited then Inl Runtime_error else Inr ())"

text \<open>A second object for a reticle is made, but not initialised; when the initialisation throws there is no object.\<close>

definition ReticleControl_new :: "nat \<Rightarrow> nat \<Rightarrow> hal_error + unit \<Rightarrow> (reticles, unit) hal" where
  "ReticleControl_new self seq_number ini = (\<lambda>w.
     let w1 = w\<lparr>instantiated := add_mset seq_number (instantiated w)\<rparr> in
     if isInstantiated seq_number w then (Inr (), w1\<lparr>live_objs := (live_objs w)(self \<mapsto> (seq_number, False))\<rparr>)
     else case ini of Inl e \<Rightarrow> (Inl e, w1) | Inr _ \<Rightarrow> (Inr (), w1\<lparr>live_objs := (live_objs w)(self \<mapsto> (seq_number, True))\<rparr>))"

text \<open>The destructor first resets the ARQs through \<open>comm\<close>, which only the initialisation sets: without it the behaviour is
  undefined. It erases all entries of its reticle.\<close>

definition ReticleControl_delete :: "nat \<Rightarrow> reticles \<Rightarrow> reticles option" where
  "ReticleControl_delete self w = (case live_objs w self of
     Some (n, True) \<Rightarrow> Some (w\<lparr>instantiated := filter_mset (\<lambda>m. m \<noteq> n) (instantiated w), live_objs := (live_objs w)(self := None)\<rparr>)
   | _ \<Rightarrow> None)"

inductive reticle_step :: "reticles \<Rightarrow> reticles \<Rightarrow> bool" where
  makes: "live_objs w self = None \<Longrightarrow> ReticleControl_new self n ini w = (r, w') \<Longrightarrow> reticle_step w w'"
| deletes: "ReticleControl_delete self w = Some w' \<Longrightarrow> reticle_step w w'"

inductive_cases reticle_stepE: "reticle_step w w'"

definition program :: "reticles \<Rightarrow> bool" where
  "program = reticle_step\<^sup>*\<^sup>* \<lparr>instantiated = {#}, live_objs = Map.empty\<rparr>"

text \<open>The initialised objects have different reticles, all of them registered.\<close>

definition registered :: "reticles \<Rightarrow> bool" where
  "registered w = (\<forall>i n. live_objs w i = Some (n, True) \<longrightarrow> n \<in># instantiated w \<and> (\<forall>j. live_objs w j = Some (n, True) \<longrightarrow> j = i))"

lemma new_registered:
  assumes "registered w" "live_objs w self = None" "ReticleControl_new self n ini w = (r, w')"
  shows "registered w'"
proof -
  have old: "live_objs w i = Some (m, True) \<Longrightarrow> m \<in># instantiated w" "live_objs w i = Some (m, True) \<Longrightarrow> live_objs w j = Some (m, True) \<Longrightarrow> j = i" for i j m
    using assms(1) unfolding registered_def by blast+
  consider "w' = w\<lparr>instantiated := add_mset n (instantiated w), live_objs := (live_objs w)(self \<mapsto> (n, False))\<rparr>"
    | "w' = w\<lparr>instantiated := add_mset n (instantiated w)\<rparr>"
    | "n \<notin># instantiated w" "w' = w\<lparr>instantiated := add_mset n (instantiated w), live_objs := (live_objs w)(self \<mapsto> (n, True))\<rparr>"
    using assms(3) by (auto simp: ReticleControl_new_def isInstantiated_def Let_def split: if_splits sum.splits)
  then show ?thesis
  proof cases
    case 3
    then have "live_objs w i \<noteq> Some (n, True)" for i using old(1) by blast
    then show ?thesis unfolding registered_def 3(2) using old by auto
  qed (use old in \<open>auto simp: registered_def\<close>)
qed

lemma delete_registered:
  assumes "registered w" "ReticleControl_delete self w = Some w'"
  shows "registered w'"
proof -
  obtain n where n: "live_objs w self = Some (n, True)"
      "w' = w\<lparr>instantiated := filter_mset (\<lambda>m. m \<noteq> n) (instantiated w), live_objs := (live_objs w)(self := None)\<rparr>"
    using assms(2) by (auto simp: ReticleControl_delete_def split: option.splits prod.splits bool.splits)
  then have "m \<noteq> n" if "live_objs w i = Some (m, True)" "i \<noteq> self" for i m using assms(1) that unfolding registered_def by metis
  then show ?thesis using assms(1) unfolding registered_def n(2) by auto
qed

lemma program_registered:
  assumes "program w"
  shows "registered w"
  using assms unfolding program_def
proof (induction rule: rtranclp_induct)
  case base
  show ?case by (simp add: registered_def)
next
  case (step w w')
  show ?case using step(2,3) by (elim reticle_stepE) (blast intro: new_registered delete_registered)+
qed

text \<open>A reticle whose initialisation threw stays in the multiset for ever; an object for it is never initialised again.\<close>

definition lost :: "nat \<Rightarrow> reticles \<Rightarrow> bool" where
  "lost n w = (isInstantiated n w \<and> (\<forall>i. live_objs w i \<noteq> Some (n, True)))"

lemma lost_stays:
  assumes "lost n w"
  shows "ReticleControl_new self m ini w = (r, w') \<Longrightarrow> lost n w'" "ReticleControl_delete self w = Some w' \<Longrightarrow> lost n w'"
proof -
  show "ReticleControl_new self m ini w = (r, w') \<Longrightarrow> lost n w'"
    using assms by (auto simp: lost_def ReticleControl_new_def isInstantiated_def Let_def split: if_splits sum.splits)
  assume "ReticleControl_delete self w = Some w'"
  then obtain k where k: "live_objs w self = Some (k, True)"
      "w' = w\<lparr>instantiated := filter_mset (\<lambda>m. m \<noteq> k) (instantiated w), live_objs := (live_objs w)(self := None)\<rparr>"
    by (auto simp: ReticleControl_delete_def split: option.splits prod.splits bool.splits)
  then have "k \<noteq> n" using assms by (auto simp: lost_def)
  then show "lost n w'" using assms unfolding lost_def isInstantiated_def k(2) by auto
qed

lemma lost_step: "lost n w \<Longrightarrow> reticle_step w w' \<Longrightarrow> lost n w'"
  by (elim reticle_stepE) (blast intro: lost_stays)+

lemma lost_steps: "reticle_step\<^sup>*\<^sup>* w w' \<Longrightarrow> lost n w \<Longrightarrow> lost n w'"
  by (induction rule: rtranclp_induct) (auto intro: lost_step)

text \<open>Claim C40: In every run of a program, whatever it creates and destroys in what order, and whatever initialisations fail: two
  live objects that are initialised have different reticles, and the reticle of each is registered. But once the initialisation
  for an unregistered reticle has thrown, no later object for this reticle is ever initialised.\<close>

theorem one_object_per_reticle:
  assumes "program w"
  shows "(live_objs w i = Some (n, True) \<and> live_objs w j = Some (n, True) \<longrightarrow> i = j \<and> isInstantiated n w) \<and>
    (\<not> isInstantiated n w \<and> ReticleControl_new k n (Inl e) w = (r1, w1) \<and> reticle_step\<^sup>*\<^sup>* w1 w2 \<and> ReticleControl_new self n ini w2 = (r2, w3)
      \<longrightarrow> live_objs w3 self = Some (n, False))"
proof (intro conjI impI)
  have reg: "registered w" using assms by (rule program_registered)
  show "i = j" "isInstantiated n w" if "live_objs w i = Some (n, True) \<and> live_objs w j = Some (n, True)"
    using reg that unfolding registered_def isInstantiated_def by blast+
  assume a: "\<not> isInstantiated n w \<and> ReticleControl_new k n (Inl e) w = (r1, w1) \<and> reticle_step\<^sup>*\<^sup>* w1 w2 \<and> ReticleControl_new self n ini w2 = (r2, w3)"
  have "live_objs w i \<noteq> Some (n, True)" for i using a reg unfolding registered_def isInstantiated_def by blast
  then have "lost n w1" using a by (auto simp: lost_def ReticleControl_new_def isInstantiated_def Let_def)
  then have "lost n w2" using a lost_steps by blast
  then show "live_objs w3 self = Some (n, False)" using a
    by (auto simp: lost_def ReticleControl_new_def isInstantiated_def Let_def)
qed

text \<open>Cables that do not open, then a second try.\<close>

theorem one_object_per_reticle_witness:
  "live_objs (snd (ReticleControl_new 1 7 (reticle_init True True True)
     (snd (ReticleControl_new 0 7 (reticle_init True False False) \<lparr>instantiated = {#}, live_objs = Map.empty\<rparr>)))) 1 = Some (7, False)"
proof -
  let ?w = "\<lparr>instantiated = {#}, live_objs = Map.empty\<rparr>" let ?w1 = "snd (ReticleControl_new 0 7 (Inl Runtime_error) ?w)"
  have p: "program ?w" by (simp add: program_def)
  have i: "reticle_init True False False = Inl Runtime_error" by (simp add: reticle_init_def)
  have "\<not> isInstantiated 7 ?w" by (simp add: isInstantiated_def)
  then have "live_objs (snd (ReticleControl_new 1 7 (reticle_init True True True) ?w1)) 1 = Some (7, False)"
    using one_object_per_reticle [OF p, of 0 7 0 0 Runtime_error "fst (ReticleControl_new 0 7 (Inl Runtime_error) ?w)" ?w1 ?w1 1 "reticle_init True True True"
      "fst (ReticleControl_new 1 7 (reticle_init True True True) ?w1)" "snd (ReticleControl_new 1 7 (reticle_init True True True) ?w1)"]
    by simp
  then show ?thesis by (simp only: i)
qed

subsection \<open>Initialising one HICANN\<close>

text \<open>
  A reticle with \<open>count\<close> HICANNs has that many objects, and the object number \<open>nr\<close> has the address \<open>nr\<close>. The function takes this
  address for the number of a link. \<open>None\<close>: there is no object of this number, and the code goes through a null pointer.
\<close>

definition hicannInit :: "u8 \<Rightarrow> nat \<Rightarrow> bool \<Rightarrow> bringup \<Rightarrow> ((hal_error + bool) \<times> bringup) option" where
  "hicannInit available hicann_nr return_on_error = (\<lambda>s. if hicann_nr < card {e. e < 8 \<and> bit available e} then
     Some (hbind (dnc2jtag hicann_nr) (\<lambda>j. hbind (Init_arq_one (int j) False return_on_error) (\<lambda>r. hret (r = Comm_ok))) s) else None)"

definition hicannInit_set :: "u8 \<Rightarrow> u8 \<Rightarrow> bool \<Rightarrow> (bringup, bool) hal" where
  "hicannInit_set hicann highspeed return_on_error = hbind (Init_arq hicann highspeed False return_on_error) (\<lambda>r. hret (r = Comm_ok))"

text \<open>The communication object of the reticle has the tables that its constructor made.\<close>

definition with_luts :: "u8 \<Rightarrow> bringup \<Rightarrow> bringup" where
  "with_luts available s = (let (d2j, j2d, k) = create_luts (bit available) in s\<lparr>dnc2jtag_lut := d2j, bringup.jtag2dnc_lut := j2d\<rparr>)"

text \<open>So the HICANN whose link has the number of HICANNs or a higher number cannot be initialised alone, and a number below it only
  when the link of this number has a chip.\<close>

lemma luts_domain: "dom (fst (create_luts av)) = {d. d < 8 \<and> av d}"
proof -
  obtain d2j j2d k where f: "create_luts av = (d2j, j2d, k)" by (cases "create_luts av")
  define ds where "ds = filter av (rev [0..<8])"
  have l: "k = length ds" "\<And>j d. j2d j = Some d \<longleftrightarrow> j < k \<and> ds ! j = d" "\<And>j d. d2j d = Some j \<longleftrightarrow> j2d j = Some d"
    using luts_fold [of "rev [0..<8]" av] f by (simp_all add: create_luts_def ds_def)
  have "d \<in> dom d2j \<longleftrightarrow> d \<in> set ds" for d using l by (auto simp: in_set_conv_nth)
  then have "dom d2j = {d. d < 8 \<and> av d}" by (auto simp: ds_def)
  then show ?thesis using f by simp
qed

lemma hicann_numbers_mixed:
  "card {e. e < 8 \<and> bit available e} \<le> nr \<Longrightarrow> hicannInit available nr roe s = None"
  "nr < card {e. e < 8 \<and> bit available e} \<Longrightarrow> \<not> bit available nr \<Longrightarrow>
    hicannInit available nr roe (with_luts available s) = Some (Inl Assertion_failed, with_luts available s)"
proof -
  show "card {e. e < 8 \<and> bit available e} \<le> nr \<Longrightarrow> hicannInit available nr roe s = None" by (simp add: hicannInit_def)
  assume a: "nr < card {e. e < 8 \<and> bit available e}" "\<not> bit available nr"
  obtain d2j j2d k where c: "create_luts (bit available) = (d2j, j2d, k)" by (cases "create_luts (bit available)")
  have "nr \<notin> dom d2j" using luts_domain [of "bit available"] c a(2) by simp
  then have "d2j nr = None" by (simp add: domIff)
  then show "hicannInit available nr roe (with_luts available s) = Some (Inl Assertion_failed, with_luts available s)"
    using a(1) c by (simp add: hicannInit_def hbind_def dnc2jtag_def with_luts_def)
qed

end
