(* ===== verification/Spec2Isabelle.thy ===== *)
theory Spec2Isabelle
  imports Arq_Props Repeater Neuron Fg Neuronbuilder Synapse Syn_trans Jtag Playback Fpgaarq Linklayer Jtag_targets Jtag_access Jtag_ethernet Jtag_cmd Bringup Board Reticle
begin

text \<open>
  Verification development for the HICANN wafer-scale system software: the hardware abstraction layer
  (\<open>units/stage2_hal/source\<close>), the library for JTAG (\<open>units/jtag_lib/source\<close>) and the software ARQ (\<open>units/arq/source\<close>);
  all paths are below \<open>src/\<close>.

  \<^bold>\<open>The program.\<close> A HICANN is a chip with analog neurons. The host configures it through registers, each a 16-bit address behind
  one of two tags. Control modules, one class per part of the chip (\<open>*_control.cpp\<close>), translate settings into register writes;
  most keep a copy of what they wrote. They share the base class \<open>CtrlModule\<close>, which hands a command to a communication object
  (\<open>Stage2Comm\<close>). There are two kinds of these: the base class runs a sliding-window protocol in software, one \<open>LinkLayer\<close> with an
  \<open>ARQ\<close> and a \<open>Timer\<close> per tag, over a medium such as JTAG; the derived class for the FPGA collects commands in
  \<open>HostALController\<close> and sends them over Ethernet to an FPGA that runs the protocol in hardware. The same controller carries
  the playback program (pulses with release times) and the traced pulses. Before anything can be sent over the fast links of a
  HICANN they are brought up over JTAG: the commands of \<open>jtag_cmdbase\<close> select a register in one chip of a chain through
  \<open>jtag_access\<close>, which works over a cable, Digilent's or one over Ethernet. \<open>ReticleControl\<close> builds all of this for the HICANNs
  of a reticle.

  \<^bold>\<open>Conventions.\<close> Machine integers are words of the code's width, with its wrap-around; a class is a record; a member function is
  a state-passing function with the code's name. Functions that can throw have the type \<open>('s, 'a) hal\<close> of \<open>Prelude\<close>: a value of
  \<open>hal_error + 'a\<close> (the exceptions on the left) and the state, which keeps what was done before the exception. What the language
  leaves undefined is the error \<open>Undefined_behaviour\<close> or, in functions without exceptions, \<open>None\<close>; a function that does not return has the value
  \<open>None\<close>. The chip, the network, the drivers and the clock are an explicit environment: a component of the state that lists the coming answers, or a parameter. Sleeping only
  counts the time that the code counts itself.

  \<^bold>\<open>Theories, from the lowest layer upwards.\<close>

  \<^item> \<open>Prelude\<close>: words, the exceptions, the state-and-exception functions (\<open>hbind\<close>, \<open>hseq\<close>, \<open>htry\<close>, loops over lists) with their rules
    (the collections \<open>hal_simps\<close>, \<open>keeps_intros\<close>, \<open>settles_intros\<close>), and lemmas on counters modulo a size, slots and bit fields.

  \<^item> \<open>Timer\<close> (\<open>timer.h\<close>, \<open>timer.cpp\<close>), \<open>Arq\<close> (\<open>arq.h\<close>, \<open>packetlayer.h\<close>): one endpoint of the protocol, operation for operation.
    \<open>Arq_Window\<close> reads its positions as unbounded counters (locale \<open>arq_sizes\<close>) and has one lemma per operation and half;
    \<open>Arq_Net\<close> puts two endpoints on channels that lose and duplicate and proves the invariant of every reachable state by rule
    induction; \<open>Arq_Props\<close> states the promises (in order, complete when \<open>SendDone\<close> holds, retransmission, every step one
    of a bounded FIFO), the locale \<open>pipe\<close> of a FIFO interface, and what happens after a lost ack.

  \<^item> \<open>Packets\<close> (\<open>s2_types.h\<close>, \<open>s2_types.cpp\<close>): time, commands, pulses and configurations as words and bytes, and back.

  \<^item> \<open>Ctrlmod\<close> (\<open>ctrlmod.cpp\<close>, \<open>s2ctrl.h\<close>, \<open>s2comm.cpp\<close>, \<open>hardware_base.h\<close>): the record \<open>bus\<close> is the communication object as the
    modules see it, with the log of the commands that were taken; \<open>ctrlmod\<close> adds the module's tag and addresses. The locale
    \<open>shadowed\<close> is the contract of a module that keeps a copy of its registers.

  \<^item> \<open>L1switch\<close>, \<open>Repeater\<close>, \<open>Neuron\<close>, \<open>Fg\<close>, \<open>Neuronbuilder\<close>, \<open>Synapse\<close> (the \<open>*_control.cpp\<close> of the same names) and \<open>Syn_trans\<close>
    (\<open>syn_trans.cpp\<close>): each extends the record \<open>ctrlmod\<close> by the members of the class and models all its operations. Their lemmas
    show what every word holds, that copies equal what the chip was told (and where they do not), that images stay valid,
    that switch settings implement a set of connections, and that polling ends.

  \<^item> \<open>Linklayer\<close> (\<open>linklayer.h\<close>, \<open>s2comm.h\<close>, \<open>s2comm.cpp\<close>): the software transport of one HICANN, in callbacks between its two link
    layers, over a medium. On a chip that runs \<open>Arq\<close> itself it delivers in order, every call returns, and it is one of the
    environments of \<open>Ctrlmod\<close>.

  \<^item> \<open>Hostal\<close> and \<open>Playback\<close> (\<open>host_al_controller.cpp\<close>): frames, bulks, queues of answers, traced pulses; the playback
    buffer, which denotes a list of entries (\<open>entry\<close>). \<open>Fpgaarq\<close> (\<open>s2c_jtagphys_2fpga_arq.cpp\<close>, \<open>fpga_control.cpp\<close>): the
    communication object on top of it, its tables of links, and the statistics of the FPGA.

  \<^item> \<open>Jtag\<close> (\<open>jtag_state.cpp\<close>, \<open>jtag_digilent.cpp\<close>): the TAP controller, the table of patterns and Digilent's cable, whose buffer
    is shown to be a queue of pairs of TMS and TDI. \<open>Jtag_targets\<close> (\<open>jtag_targets.cpp\<close>): the parser of device files and the
    table of devices. \<open>Jtag_access\<close> (\<open>jtag_access.cpp\<close>): single devices of a chain over any cable, by the locale \<open>jtag_cable\<close>.
    \<open>Jtag_ethernet\<close> (\<open>jtag_ethernet.cpp\<close>): the cable over Ethernet. \<open>Jtag_cmd\<close> (\<open>jtag_cmdbase.h\<close>, \<open>jtag_cmdbase.cpp\<close>,
    \<open>jtag_cmdbase_fpgadnchicann_full.h\<close>): the commands for FPGA, DNC and HICANN.

  \<^item> \<open>Bringup\<close> (\<open>s2c_jtagphys_2fpga.cpp\<close>, \<open>s2c_jtagphys_2fpga_arq.cpp\<close>): the initialisations of the links. Here a command to the JTAG
    object is an entry of a log, and a read is answered by a function of that log. \<open>Board\<close> performs the logged commands
    of one link with \<open>Jtag_cmd\<close> over Ethernet and shows what the interface is left with.

  \<^item> \<open>Reticle\<close> (\<open>spl1_control.cpp\<close>, \<open>dncif_control.cpp\<close>, \<open>dnc_control.cpp\<close>, \<open>hicann_ctrl.cpp\<close>, \<open>reticle_control.cpp\<close>): the remaining
    modules, the 22 modules of a HICANN, which divide its addresses, and the registry of reticles with the steps of a
    program that makes and destroys objects.

  \<^bold>\<open>Interfaces.\<close> \<open>arq_sizes\<close> and \<open>pipe\<close> are interpreted with the sizes of the link layer (64 sequence numbers, 16 slots) and on the
  protocol itself (\<open>link_sizes\<close>, \<open>link_pipe\<close>); \<open>shadowed\<close> on crossbars, synapse switches, both sizes of repeater blocks and the neuron
  registers (\<open>crossbar\<close>, \<open>synswitch\<close>, \<open>side_reps\<close>, \<open>vert_reps\<close>, \<open>nc\<close>); \<open>jtag_cable\<close> on both cables (\<open>dc\<close>, \<open>et\<close>); \<open>target_sort\<close>, the promise of
  \<open>std::sort\<close> on the table of devices, on a sort by rank (\<open>rs\<close>).

  \<^bold>\<open>Loops and bounds.\<close> Loops that end are total functions. Those that poll hardware have one of three forms. Where the code limits
  the polls or the time (\<open>wait_config\<close>, \<open>wait_stat\<close>, the attempts of \<open>Bringup\<close>), the limit is the measure. Where it does not, but
  a chip that stops answering makes the read throw, the list of coming answers is the measure (\<open>wait_while\<close> of \<open>Synapse\<close>). Otherwise
  the loop is a partial function into an option (\<open>wait_idle\<close>, \<open>wait_while_busy\<close>, \<open>clock_loop\<close>, \<open>ack_advance\<close>, \<open>serve_other\<close>, \<open>link_SendFlush\<close>), and
  results say when it has a value: \<open>ack_advance\<close> and \<open>serve_other\<close> always have one on reachable states; \<open>wait_idle\<close> when the chip gets
  idle or silent; \<open>clock_loop\<close>, whose counter has 8 bits, when at most 255 clocks are asked for. \<open>link_SendFlush\<close>, which no module calls,
  has no such result: on a medium that delivers nothing it goes on for ever. No other fuel is used, but one count stands
  for an endless loop: \<open>many_clocks\<close> of \<open>Jtag_ethernet\<close> replaces clocks that never stop by 65536, which is enough since the buffer is
  overrun, the error \<open>Undefined_behaviour\<close>, long before.

  \<^bold>\<open>Not modelled.\<close> The test modes (\<open>units/hicann_test\<close>) are interactive procedures that print and measure, without a contract;
  bindings, scripts, the XML reader and the simulator's cables only forward. Vendors' drivers (Digilent, Xilinx), sockets, the reliable
  transport under \<open>HostALController\<close> and \<open>std::sort\<close> are not in the repository and are parameters. Floating-point settings
  (voltages of the I2C board, conversions of times) and debug output are left out, as are the autodetection of a chain and the
  real-time communication with memory-mapped rings. The communication object for JTAG only (\<open>s2c_jtagphys.cpp\<close>) is made by nothing
  in the layer. The model has one thread.
\<close>

end
